(* ===== verification/Prelude.thy ===== *)
theory Prelude
  imports Main "HOL-Library.Word" "HOL-Library.Multiset"
begin

text \<open>
  Shared vocabulary of the development: machine integers and byte strings, the outcome of
  a Rust call (a value, an error, or a panic), big-endian conversions
  (\<^verbatim>\<open>to_be_bytes\<close> and \<^verbatim>\<open>from_be_bytes\<close>), UTF-8 validation, and the slice
  searches (\<^verbatim>\<open>position\<close>, \<^verbatim>\<open>windows(n).position\<close>) the parsers are written with.
  Strings are the byte sequences that hold them; \<open>ascii\<close> turns a literal of the source
  into its bytes.
\<close>

unbundle bit_operations_syntax

named_theorems outcome_simps \<open>equations of the outcome combinators\<close>
named_theorems wire_simps \<open>big-endian conversions and lengths of encoded fields\<close>

type_synonym byte = "8 word"
type_synonym bytes = "8 word list"
type_synonym u16 = "16 word"
type_synonym u32 = "32 word"
type_synonym u64 = "64 word"

subsection \<open>Outcomes of a call\<close>

text \<open>
  A call returns a value, returns an error, or panics (an overflow check, an index or a
  slice range outside its bounds, a failed assertion).
\<close>

datatype ('a, 'e) outcome = Ok 'a | Err 'e | Panic

text \<open>The \<^verbatim>\<open>?\<close> operator: go on with the value, pass an error or a panic on.\<close>

primrec bind_outcome :: "('a, 'e) outcome \<Rightarrow> ('a \<Rightarrow> ('b, 'e) outcome) \<Rightarrow> ('b, 'e) outcome" where
  "bind_outcome (Ok x) f = f x"
| "bind_outcome (Err e) f = Err e"
| "bind_outcome Panic f = Panic"

lemma bind_outcome_cong [fundef_cong]:
  assumes "m = m'" and "\<And>x. m' = Ok x \<Longrightarrow> f x = f' x"
  shows "bind_outcome m f = bind_outcome m' f'"
  using assms by (cases m') auto

lemma bind_outcome_Ok_iff [outcome_simps]:
  "bind_outcome m f = Ok y \<longleftrightarrow> (\<exists>x. m = Ok x \<and> f x = Ok y)"
  by (cases m) auto

lemma bind_outcome_Panic_iff [outcome_simps]:
  "bind_outcome m f = Panic \<longleftrightarrow> m = Panic \<or> (\<exists>x. m = Ok x \<and> f x = Panic)"
  by (cases m) auto

text \<open>\<^verbatim>\<open>Option::ok_or\<close>.\<close>

primrec ok_or :: "'a option \<Rightarrow> 'e \<Rightarrow> ('a, 'e) outcome" where
  "ok_or (Some x) e = Ok x"
| "ok_or None e = Err e"

lemma ok_or_iff [outcome_simps]:
  "ok_or p e = Ok x \<longleftrightarrow> p = Some x"
  "ok_or p e \<noteq> Panic"
  by (cases p; simp)+

subsection \<open>Machine words\<close>

text \<open>The number of values of a \<^verbatim>\<open>usize\<close> on the 64-bit targets the runtime supports.\<close>

definition usize_limit :: nat where
  "usize_limit = 2 ^ 64"

text \<open>\<^verbatim>\<open>usize\<close> addition with the overflow check of the language.\<close>

definition usize_add :: "nat \<Rightarrow> nat \<Rightarrow> (nat, 'e) outcome" where
  "usize_add a b = (if a + b < usize_limit then Ok (a + b) else Panic)"

lemma usize_add_Ok_iff [outcome_simps]:
  "usize_add a b = Ok c \<longleftrightarrow> a + b < usize_limit \<and> c = a + b"
  by (auto simp: usize_add_def)

lemma usize_add_small [simp]: "a + b < usize_limit \<Longrightarrow> usize_add a b = Ok (a + b)"
  by (simp add: usize_add_def)

text \<open>
  Big-endian bytes of a word (\<open>to_be n w\<close>: the low \<open>n\<close> bytes, most significant first)
  and back.
\<close>

primrec to_be :: "nat \<Rightarrow> 'a::len word \<Rightarrow> bytes" where
  "to_be 0 w = []"
| "to_be (Suc n) w = to_be n (drop_bit 8 w) @ [ucast w]"

definition from_be :: "bytes \<Rightarrow> 'a::len word" where
  "from_be bs = foldl (\<lambda>acc b. push_bit 8 acc OR ucast b) 0 bs"

lemma length_to_be [simp, wire_simps]: "length (to_be n w) = n"
  by (induction n arbitrary: w) auto

lemma to_be_bytes:
  fixes w :: "'a::len word"
  shows "to_be 2 w = [ucast (drop_bit 8 w), ucast w]"
    "to_be 4 w = [ucast (drop_bit 24 w), ucast (drop_bit 16 w), ucast (drop_bit 8 w), ucast w]"
proof -
  have 2: "to_be 2 v = [ucast (drop_bit 8 v), ucast v]" for v :: "'a word"
    unfolding numeral_2_eq_2 by simp
  show "to_be 2 w = [ucast (drop_bit 8 w), ucast w]" by (rule 2)
  have "to_be 4 w = to_be (Suc (Suc 2)) w" by simp
  then show "to_be 4 w = [ucast (drop_bit 24 w), ucast (drop_bit 16 w), ucast (drop_bit 8 w), ucast w]"
    by (simp only: to_be.simps 2) simp
qed

lemma from_be_Nil [simp]: "from_be [] = 0"
  by (simp add: from_be_def)

lemma from_be_snoc: "from_be (bs @ [b]) = push_bit 8 (from_be bs) OR ucast b"
  by (simp add: from_be_def)

lemma from_be_to_be: "from_be (to_be n w) = take_bit (8 * n) (w :: 'a::len word)"
proof (induction n arbitrary: w)
  case 0
  then show ?case by simp
next
  case (Suc n)
  show ?case
    by (rule bit_word_eqI)
      (auto simp: from_be_snoc Suc.IH bit_simps not_less Suc_diff_le add.commute)
qed

lemma take_bit_full_word: "LENGTH('a) \<le> n \<Longrightarrow> take_bit n (w :: 'a::len word) = w"
  by (rule bit_word_eqI) (auto simp: bit_simps)

lemma from_be_to_be_full [simp, wire_simps]:
  "from_be (to_be 2 (w :: u16)) = w"
  "from_be (to_be 4 (v :: u32)) = v"
  "from_be (to_be 8 (u :: u64)) = u"
  by (simp_all add: from_be_to_be take_bit_full_word)

lemma bit_from_be_bound: "bit (from_be bs :: 'a::len word) i \<Longrightarrow> i < 8 * length bs"
proof (induction bs arbitrary: i rule: rev_induct)
  case Nil
  then show ?case by simp
next
  case (snoc b bs)
  then show ?case
    by (fastforce simp: from_be_snoc bit_simps dest: bit_imp_le_length)
qed

lemma to_be_from_be:
  "8 * length bs \<le> LENGTH('a) \<Longrightarrow> to_be (length bs) (from_be bs :: 'a::len word) = bs"
proof (induction bs rule: rev_induct)
  case Nil
  then show ?case by simp
next
  case (snoc b bs)
  let ?w = "from_be bs :: 'a word"
  have dropped: "drop_bit 8 (push_bit 8 ?w OR ucast b) = ?w"
    using snoc.prems bit_from_be_bound [of bs]
    by (intro bit_word_eqI) (fastforce simp: bit_simps dest: bit_imp_le_length)
  have low: "ucast (push_bit 8 ?w OR ucast b) = b"
    using snoc.prems by (intro bit_word_eqI) (auto simp: bit_simps)
  show ?case
    using snoc
    by (simp only: from_be_snoc length_append_singleton to_be.simps dropped low) simp
qed

subsection \<open>Text\<close>

text \<open>The bytes of a string or byte-string literal of the source.\<close>

definition ascii :: "string \<Rightarrow> bytes" where
  "ascii s = map of_char s"

lemma length_ascii [simp]: "length (ascii s) = length s"
  by (simp add: ascii_def)

definition to_ascii_lowercase :: "bytes \<Rightarrow> bytes" where
  "to_ascii_lowercase bs = map (\<lambda>b. if 65 \<le> b \<and> b \<le> 90 then b OR 32 else b) bs"

definition eq_ignore_ascii_case :: "bytes \<Rightarrow> bytes \<Rightarrow> bool" where
  "eq_ignore_ascii_case a b \<longleftrightarrow> to_ascii_lowercase a = to_ascii_lowercase b"

text \<open>
  UTF-8 validation as the standard library performs it: the code points of a byte string,
  or \<open>None\<close> when it is not well-formed (overlong forms, surrogates and values above
  \<open>0x10FFFF\<close> included).
\<close>

definition utf8_cont :: "byte \<Rightarrow> bool" where
  "utf8_cont b \<longleftrightarrow> 128 \<le> unat b \<and> unat b < 192"

definition utf8_second3 :: "byte \<Rightarrow> byte \<Rightarrow> bool" where
  "utf8_second3 a b \<longleftrightarrow>
     (if a = 0xE0 then 0xA0 \<le> unat b \<and> unat b < 192
      else if a = 0xED then 128 \<le> unat b \<and> unat b < 0xA0
      else utf8_cont b)"

definition utf8_second4 :: "byte \<Rightarrow> byte \<Rightarrow> bool" where
  "utf8_second4 a b \<longleftrightarrow>
     (if a = 0xF0 then 0x90 \<le> unat b \<and> unat b < 192
      else if a = 0xF4 then 128 \<le> unat b \<and> unat b < 0x90
      else utf8_cont b)"

fun utf8_decode :: "bytes \<Rightarrow> nat list option" where
  "utf8_decode [] = Some []"
| "utf8_decode (a # bs) =
     (let x = unat a in
      if x < 128 then map_option ((#) x) (utf8_decode bs)
      else if 0xC2 \<le> x \<and> x < 0xE0 then
        (case bs of
           b # cs \<Rightarrow>
             if utf8_cont b
             then map_option ((#) ((x mod 32) * 64 + unat b mod 64)) (utf8_decode cs)
             else None
         | [] \<Rightarrow> None)
      else if 0xE0 \<le> x \<and> x < 0xF0 then
        (case bs of
           b # c # ds \<Rightarrow>
             if utf8_second3 a b \<and> utf8_cont c
             then map_option ((#) ((x mod 16) * 4096 + (unat b mod 64) * 64 + unat c mod 64))
                    (utf8_decode ds)
             else None
         | _ \<Rightarrow> None)
      else if 0xF0 \<le> x \<and> x < 0xF5 then
        (case bs of
           b # c # d # es \<Rightarrow>
             if utf8_second4 a b \<and> utf8_cont c \<and> utf8_cont d
             then map_option ((#) ((x mod 8) * 262144 + (unat b mod 64) * 4096
                                    + (unat c mod 64) * 64 + unat d mod 64))
                    (utf8_decode es)
             else None
         | _ \<Rightarrow> None)
      else None)"

definition utf8_valid :: "bytes \<Rightarrow> bool" where
  "utf8_valid bs \<longleftrightarrow> utf8_decode bs \<noteq> None"

lemma utf8_decode_ascii: "list_all (\<lambda>b. unat b < 128) bs \<Longrightarrow> utf8_decode bs = Some (map unat bs)"
  by (induction bs) auto

lemma utf8_valid_ascii: "list_all (\<lambda>b. unat b < 128) bs \<Longrightarrow> utf8_valid bs"
  by (simp add: utf8_valid_def utf8_decode_ascii)

text \<open>The Unicode \<^verbatim>\<open>White_Space\<close> code points, which \<^verbatim>\<open>str::trim\<close> strips.\<close>

definition is_whitespace :: "nat \<Rightarrow> bool" where
  "is_whitespace c \<longleftrightarrow>
     9 \<le> c \<and> c \<le> 13 \<or> c = 0x20 \<or> c = 0x85 \<or> c = 0xA0 \<or> c = 0x1680
     \<or> 0x2000 \<le> c \<and> c \<le> 0x200A \<or> c = 0x2028 \<or> c = 0x2029 \<or> c = 0x202F
     \<or> c = 0x205F \<or> c = 0x3000"

definition trim :: "nat list \<Rightarrow> nat list" where
  "trim cs = rev (dropWhile is_whitespace (rev (dropWhile is_whitespace cs)))"

lemma trim_id:
  assumes "cs \<noteq> []" and "\<not> is_whitespace (hd cs)" and "\<not> is_whitespace (last cs)"
  shows "trim cs = cs"
proof -
  have "dropWhile is_whitespace cs = cs"
    using assms by (cases cs) auto
  moreover have "dropWhile is_whitespace (rev cs) = rev cs"
    using assms by (cases cs rule: rev_cases) auto
  ultimately show ?thesis by (simp add: trim_def)
qed

subsection \<open>Searching slices\<close>

text \<open>\<^verbatim>\<open>iter().position(p)\<close>.\<close>

primrec position :: "('a \<Rightarrow> bool) \<Rightarrow> 'a list \<Rightarrow> nat option" where
  "position p [] = None"
| "position p (x # xs) = (if p x then Some 0 else map_option Suc (position p xs))"

lemma position_Some:
  "position p xs = Some i \<longleftrightarrow> i < length xs \<and> p (xs ! i) \<and> (\<forall>j < i. \<not> p (xs ! j))"
proof (induction xs arbitrary: i)
  case Nil
  then show ?case by simp
next
  case (Cons x xs)
  show ?case
    by (cases i) (auto simp: Cons.IH less_Suc_eq_0_disj)
qed

lemma position_None: "position p xs = None \<longleftrightarrow> list_all (\<lambda>x. \<not> p x) xs"
  by (induction xs) auto

lemma position_append:
  assumes "list_all (\<lambda>x. \<not> p x) xs" and "p y"
  shows "position p (xs @ y # ys) = Some (length xs)"
  using assms by (induction xs) auto

text \<open>\<^verbatim>\<open>windows(pat.len()).position(|w| w == pat)\<close> for a non-empty pattern.\<close>

primrec find_window :: "'a list \<Rightarrow> 'a list \<Rightarrow> nat option" where
  "find_window pat [] = None"
| "find_window pat (x # xs) =
     (if take (length pat) (x # xs) = pat then Some 0
      else map_option Suc (find_window pat xs))"

lemma find_window_Some:
  "find_window pat xs = Some i \<Longrightarrow> i < length xs \<and> take (length pat) (drop i xs) = pat"
  by (induction xs arbitrary: i) (auto split: if_splits)

lemma find_window_bound:
  assumes "find_window pat xs = Some i"
  shows "i + length pat \<le> length xs"
proof -
  have "take (length pat) (drop i xs) = pat" and i: "i < length xs"
    using find_window_Some [OF assms] by auto
  then have "min (length xs - i) (length pat) = length pat"
    by (metis length_take length_drop)
  then show ?thesis using i by linarith
qed

text \<open>The first occurrence: no earlier window is the pattern.\<close>

lemma find_window_first:
  "find_window pat xs = Some i \<Longrightarrow> j < i \<Longrightarrow> take (length pat) (drop j xs) \<noteq> pat"
proof (induction xs arbitrary: i j)
  case Nil
  then show ?case by simp
next
  case (Cons x xs)
  then show ?case
    by (cases j) (auto split: if_splits)
qed

lemma find_window_prefix_free:
  assumes "pat = p # ps" and "p \<notin> set pre"
  shows "find_window pat (pre @ pat @ post) = Some (length pre)"
  using assms by (induction pre) auto

lemma find_window_skip:
  "p \<notin> set pre \<Longrightarrow> find_window (p # ps) (pre @ ys) = map_option ((+) (length pre)) (find_window (p # ps) ys)"
proof (induction pre)
  case (Cons a pre)
  then show ?case by (cases "find_window (p # ps) ys") auto
qed (cases "find_window (p # ps) ys"; simp)

lemma find_window_append: "find_window pat xs = Some i \<Longrightarrow> find_window pat (xs @ ys) = Some i"
proof (induction xs arbitrary: i)
  case (Cons x xs)
  show ?case
  proof (cases "take (length pat) (x # xs) = pat")
    case True
    then have "length pat \<le> length (x # xs)" by (metis length_take min.absorb_iff1 min.commute)
    then have "take (length pat) ((x # xs) @ ys) = take (length pat) (x # xs)" by (simp only: take_append) simp
    then show ?thesis using True Cons.prems by simp
  next
    case False
    then obtain j where j: "find_window pat xs = Some j" "i = Suc j" using Cons.prems by auto
    moreover have "take (length pat) (x # xs @ ys) \<noteq> pat"
    proof
      assume eq: "take (length pat) (x # xs @ ys) = pat"
      have "length pat \<le> length xs" using find_window_bound [OF j(1)] by simp
      then have "take (length pat) ((x # xs) @ ys) = take (length pat) (x # xs)" by (simp only: take_append) simp
      then show False using eq False by simp
    qed
    ultimately show ?thesis using Cons.IH by simp
  qed
qed simp

lemma find_window_appendD:
  "find_window pat (xs @ ys) = Some i \<Longrightarrow> i + length pat \<le> length xs \<Longrightarrow> pat \<noteq> []
    \<Longrightarrow> find_window pat xs = Some i"
proof (induction xs arbitrary: i)
  case (Cons x xs)
  show ?case
  proof (cases "find_window pat (x # xs)")
    case None
    have "take (length pat) (drop i ((x # xs) @ ys)) = pat" using find_window_Some [OF Cons.prems(1)] by simp
    moreover have "take (length pat) (drop i ((x # xs) @ ys)) = take (length pat) (drop i (x # xs))"
      using Cons.prems(2) by (simp only: drop_append take_append) simp
    ultimately have "take (length pat) (drop i (x # xs)) = pat" by simp
    then show ?thesis
      using None Cons by (cases i) (auto split: if_splits)
  next
    case (Some j)
    then show ?thesis using find_window_append [OF Some, of ys] Cons.prems(1) by simp
  qed
qed simp

subsection \<open>Lists updated by index\<close>

lemma mset_list_update_concat:
  "i < length xs \<Longrightarrow> mset (concat (xs[i := ys])) + mset (xs ! i) = mset (concat xs) + mset ys"
  by (induction xs arbitrary: i) (auto split: nat.split simp: ac_simps)

end
