(* ===== verification/Timer_Wheel.thy ===== *)
theory Timer_Wheel
  imports Prelude
begin

text \<open>
  The hierarchical timer wheel of the runtime (\<^verbatim>\<open>moduvex-runtime/src/time/wheel.rs\<close>).

  An \<^verbatim>\<open>Instant\<close> is a number of nanoseconds on the monotonic clock and a tick is a number of
  milliseconds since the origin of the wheel; both are \<open>nat\<close>, since a \<^verbatim>\<open>u64\<close> of
  milliseconds is longer than any uptime. The saturation of \<open>instant_to_ms\<close> and the
  \<^verbatim>\<open>checked_add\<close> of the cascade are written out. A waker is the number of the task it
  wakes.

  What is shown: every operation keeps the index consistent with the slots; a tick loses
  no timer and fires none before its millisecond; a tick fires every due timer of a wheel
  whose timers are well placed; a tick that advances by at most one millisecond keeps them
  well placed. A longer tick does not, and a concrete run shows a timer missing its
  deadline because of it.
\<close>

subsection \<open>Data\<close>

type_synonym instant = nat
type_synonym waker = nat

definition SLOTS :: nat where
  "SLOTS = 64"

definition SLOTS_MASK :: nat where
  "SLOTS_MASK = SLOTS - 1"

definition LEVELS :: nat where
  "LEVELS = 6"

definition LEVEL0_MS :: nat where
  "LEVEL0_MS = 1"

definition slot_width_ms :: "nat \<Rightarrow> nat" where
  "slot_width_ms level = LEVEL0_MS * SLOTS ^ level"

lemma slot_width_pos [simp]: "0 < slot_width_ms level"
  by (simp add: slot_width_ms_def LEVEL0_MS_def SLOTS_def)

record timer_entry =
  te_id :: nat
  te_deadline :: instant
  te_waker :: waker

datatype timer_id = TimerId nat

record timer_wheel =
  tw_origin :: instant
  tw_wheel :: "timer_entry list list list"
  tw_index :: "nat \<rightharpoonup> nat \<times> nat"
  tw_next_id :: nat
  tw_last_tick_ms :: nat

subsection \<open>Operations\<close>

definition timer_wheel_new :: "instant \<Rightarrow> timer_wheel" where
  "timer_wheel_new origin =
     \<lparr>tw_origin = origin,
      tw_wheel = replicate LEVELS (replicate SLOTS []),
      tw_index = Map.empty,
      tw_next_id = 1,
      tw_last_tick_ms = 0\<rparr>"

definition instant_to_ms :: "timer_wheel \<Rightarrow> instant \<Rightarrow> nat" where
  "instant_to_ms w t = min ((t - tw_origin w) div 1000000) (2 ^ 64 - 1)"

text \<open>The loop of \<^verbatim>\<open>level_slot\<close> over the levels still to try.\<close>

fun level_slot_loop :: "nat \<Rightarrow> nat \<Rightarrow> nat list \<Rightarrow> nat \<times> nat" where
  "level_slot_loop delta deadline_ms [] = (LEVELS - 1, 0)"
| "level_slot_loop delta deadline_ms (level # levels) =
     (let width = slot_width_ms level; range = width * SLOTS in
      if delta < range \<or> level = LEVELS - 1
      then (level, (deadline_ms div width) AND SLOTS_MASK)
      else level_slot_loop delta deadline_ms levels)"

definition level_slot :: "timer_wheel \<Rightarrow> nat \<Rightarrow> nat \<times> nat" where
  "level_slot w deadline_ms =
     level_slot_loop (deadline_ms - tw_last_tick_ms w) deadline_ms [0..<LEVELS]"

definition set_slot :: "nat \<Rightarrow> nat \<Rightarrow> timer_entry list \<Rightarrow> timer_wheel \<Rightarrow> timer_wheel" where
  "set_slot level slot es w =
     w\<lparr>tw_wheel := (tw_wheel w)[level := (tw_wheel w ! level)[slot := es]]\<rparr>"

definition slot_entries :: "timer_wheel \<Rightarrow> nat \<Rightarrow> nat \<Rightarrow> timer_entry list" where
  "slot_entries w level slot = tw_wheel w ! level ! slot"

definition timer_insert :: "timer_wheel \<Rightarrow> instant \<Rightarrow> waker \<Rightarrow> timer_id \<times> timer_wheel" where
  "timer_insert w deadline wk =
     (let i = tw_next_id w;
          w1 = w\<lparr>tw_next_id := i + 1\<rparr>;
          deadline_ms = instant_to_ms w1 deadline;
          effective_ms = max deadline_ms (tw_last_tick_ms w1);
          (level, slot) = level_slot w1 effective_ms;
          e = \<lparr>te_id = i, te_deadline = deadline, te_waker = wk\<rparr>;
          w2 = set_slot level slot (slot_entries w1 level slot @ [e]) w1
      in (TimerId i, w2\<lparr>tw_index := (tw_index w2)(i \<mapsto> (level, slot))\<rparr>))"

definition timer_cancel :: "timer_wheel \<Rightarrow> timer_id \<Rightarrow> bool \<times> timer_wheel" where
  "timer_cancel w tid = (case tid of TimerId i \<Rightarrow>
     (case tw_index w i of
        None \<Rightarrow> (False, w)
      | Some (level, slot) \<Rightarrow>
          let w1 = w\<lparr>tw_index := (tw_index w)(i := None)\<rparr>;
              bucket = slot_entries w1 level slot;
              bucket' = filter (\<lambda>e. te_id e \<noteq> i) bucket
          in (length bucket' < length bucket, set_slot level slot bucket' w1)))"

definition insert_raw :: "timer_wheel \<Rightarrow> timer_entry \<Rightarrow> timer_wheel" where
  "insert_raw w e =
     (let deadline_ms = instant_to_ms w (te_deadline e);
          effective_ms = max deadline_ms (tw_last_tick_ms w);
          (level, slot) = level_slot w effective_ms;
          w1 = w\<lparr>tw_index := (tw_index w)(te_id e \<mapsto> (level, slot))\<rparr>
      in set_slot level slot (slot_entries w1 level slot @ [e]) w1)"

text \<open>The loop of \<^verbatim>\<open>drain_slot\<close> over the entries taken out of the slot.\<close>

fun drain_entries ::
  "nat \<Rightarrow> timer_entry list \<Rightarrow> timer_wheel \<times> waker list \<Rightarrow> timer_wheel \<times> waker list" where
  "drain_entries now_ms [] s = s"
| "drain_entries now_ms (e # es) (w, fired) =
     (let w1 = w\<lparr>tw_index := (tw_index w)(te_id e := None)\<rparr> in
      if instant_to_ms w1 (te_deadline e) \<le> now_ms
      then drain_entries now_ms es (w1, fired @ [te_waker e])
      else drain_entries now_ms es (insert_raw w1 e, fired))"

definition drain_slot ::
  "nat \<Rightarrow> nat \<times> nat \<Rightarrow> timer_wheel \<times> waker list \<Rightarrow> timer_wheel \<times> waker list" where
  "drain_slot now_ms ls s =
     (let (level, slot) = ls; (w, fired) = s in
      drain_entries now_ms (slot_entries w level slot) (set_slot level slot [] w, fired))"

text \<open>The level-0 slots a tick drains, in the order the code drains them.\<close>

definition level0_slots :: "nat \<Rightarrow> nat \<Rightarrow> nat list" where
  "level0_slots from to =
     (let from_slot0 = from AND SLOTS_MASK;
          to_slot0 = to AND SLOTS_MASK;
          span = to - from
      in if SLOTS \<le> span then [0..<SLOTS]
         else if from_slot0 \<le> to_slot0 then [from_slot0..<Suc to_slot0]
         else [from_slot0..<SLOTS] @ [0..<Suc to_slot0])"

text \<open>The \<^verbatim>\<open>while boundary <= to\<close> loop of one higher level.\<close>

function cascade_level ::
  "nat \<Rightarrow> nat \<Rightarrow> nat \<Rightarrow> timer_wheel \<times> waker list \<Rightarrow> timer_wheel \<times> waker list" where
  "cascade_level level boundary to s =
     (if boundary \<le> to then
        (let width = slot_width_ms level;
             slot = (boundary div width) AND SLOTS_MASK;
             s' = drain_slot to (level, slot) s
         in if boundary + width < 2 ^ 64
            then cascade_level level (boundary + width) to s'
            else s')
      else s)"
  by pat_completeness auto
termination
  by (relation "measure (\<lambda>(level, boundary, to, s). Suc to - boundary)")
    (auto intro: diff_less_mono2)

declare cascade_level.simps [simp del]

definition first_boundary :: "nat \<Rightarrow> nat \<Rightarrow> nat" where
  "first_boundary from width =
     (if from mod width = 0 then from else (from div width + 1) * width)"

definition cascade ::
  "nat \<Rightarrow> nat \<Rightarrow> timer_wheel \<times> waker list \<Rightarrow> timer_wheel \<times> waker list" where
  "cascade from to s =
     fold (\<lambda>level. cascade_level level (first_boundary from (slot_width_ms level)) to)
       [1..<LEVELS] s"

definition timer_tick :: "timer_wheel \<Rightarrow> instant \<Rightarrow> timer_wheel \<times> waker list" where
  "timer_tick w now =
     (let now_ms = instant_to_ms w now;
          from = tw_last_tick_ms w;
          to = now_ms
      in if to < from then (w, [])
         else
           let s0 = fold (\<lambda>slot. drain_slot to (0, slot)) (level0_slots from to) (w, []);
               (w1, fired) = cascade from to s0
           in (w1\<lparr>tw_last_tick_ms := to\<rparr>, fired))"

definition next_deadline :: "timer_wheel \<Rightarrow> instant option" where
  "next_deadline w =
     fold (\<lambda>level. fold (\<lambda>slot. fold (\<lambda>e earliest.
         case earliest of
           None \<Rightarrow> Some (te_deadline e)
         | Some d \<Rightarrow> Some (min d (te_deadline e))) slot) level) (tw_wheel w) None"


subsection \<open>Slots and pending timers\<close>

definition pending :: "timer_wheel \<Rightarrow> timer_entry list" where
  "pending w = concat (concat (tw_wheel w))"

definition wheel_shape :: "timer_wheel \<Rightarrow> bool" where
  "wheel_shape w \<longleftrightarrow>
     length (tw_wheel w) = LEVELS \<and> (\<forall>l < LEVELS. length (tw_wheel w ! l) = SLOTS)"

text \<open>Milliseconds of an entry's deadline, and the slot \<open>insert_raw\<close> gives it.\<close>

definition entry_ms :: "timer_wheel \<Rightarrow> timer_entry \<Rightarrow> nat" where
  "entry_ms w e = instant_to_ms w (te_deadline e)"

definition place :: "timer_wheel \<Rightarrow> timer_entry \<Rightarrow> nat \<times> nat" where
  "place w e = level_slot w (max (entry_ms w e) (tw_last_tick_ms w))"

lemma set_slot_frame [simp]:
  "tw_origin (set_slot l s es w) = tw_origin w"
  "tw_index (set_slot l s es w) = tw_index w"
  "tw_next_id (set_slot l s es w) = tw_next_id w"
  "tw_last_tick_ms (set_slot l s es w) = tw_last_tick_ms w"
  by (simp_all add: set_slot_def)

lemma instant_to_ms_frame:
  "tw_origin w' = tw_origin w \<Longrightarrow> instant_to_ms w' t = instant_to_ms w t"
  by (simp add: instant_to_ms_def)

lemma level_slot_frame:
  "tw_last_tick_ms w' = tw_last_tick_ms w \<Longrightarrow> level_slot w' d = level_slot w d"
  by (simp add: level_slot_def)

lemma place_frame:
  "tw_origin w' = tw_origin w \<Longrightarrow> tw_last_tick_ms w' = tw_last_tick_ms w \<Longrightarrow> place w' e = place w e"
  by (simp add: place_def entry_ms_def instant_to_ms_frame [of w' w] level_slot_frame [of w' w])

lemma and_mask_mod [simp]: "x AND SLOTS_MASK = x mod SLOTS"
  using take_bit_eq_mask [of 6 x] by (simp add: SLOTS_MASK_def SLOTS_def take_bit_eq_mod mask_eq_exp_minus_1)

lemma SLOTS_pos [simp]: "0 < SLOTS"
  by (simp add: SLOTS_def)

lemma upt_LEVELS: "[0..<LEVELS] = [0, 1, 2, 3, 4, 5]"
  by (simp add: LEVELS_def upt_conv_Cons)

text \<open>The level of a timer: level 0, or one whose slot is no wider than the delay.\<close>

lemma level_slot_spec:
  assumes "level_slot w d = (l, s)"
  shows "l < LEVELS" and "s = (d div slot_width_ms l) mod SLOTS"
    and "0 < l \<Longrightarrow> slot_width_ms l \<le> d - tw_last_tick_ms w"
  using assms unfolding level_slot_def upt_LEVELS
  by (auto simp: LEVELS_def slot_width_ms_def LEVEL0_MS_def SLOTS_def Let_def split: if_splits)

lemma place_range:
  assumes "place w e = (l, s)"
  shows "l < LEVELS" and "s < SLOTS"
  using level_slot_spec [OF assms [unfolded place_def]] by simp_all

lemma slot_entries_set_slot:
  assumes "wheel_shape w" and "l0 < LEVELS" and "s0 < SLOTS"
  shows "slot_entries (set_slot l0 s0 es w) l s
           = (if l = l0 \<and> s = s0 then es else slot_entries w l s)"
  using assms by (auto simp: slot_entries_def set_slot_def wheel_shape_def nth_list_update)

lemma wheel_shape_set_slot [simp]: "wheel_shape w \<Longrightarrow> wheel_shape (set_slot l s es w)"
  by (cases "l < LEVELS") (auto simp: wheel_shape_def set_slot_def nth_list_update)

lemma slot_entries_frame [simp]:
  "slot_entries (w\<lparr>tw_index := m\<rparr>) l s = slot_entries w l s"
  "slot_entries (w\<lparr>tw_next_id := n\<rparr>) l s = slot_entries w l s"
  "slot_entries (w\<lparr>tw_last_tick_ms := t\<rparr>) l s = slot_entries w l s"
  by (simp_all add: slot_entries_def)

lemma wheel_shape_frame [simp]:
  "wheel_shape (w\<lparr>tw_index := m\<rparr>) = wheel_shape w"
  "wheel_shape (w\<lparr>tw_next_id := n\<rparr>) = wheel_shape w"
  "wheel_shape (w\<lparr>tw_last_tick_ms := t\<rparr>) = wheel_shape w"
  by (simp_all add: wheel_shape_def)

lemma pending_frame [simp]:
  "pending (w\<lparr>tw_index := m\<rparr>) = pending w"
  "pending (w\<lparr>tw_next_id := n\<rparr>) = pending w"
  "pending (w\<lparr>tw_last_tick_ms := t\<rparr>) = pending w"
  by (simp_all add: pending_def)

lemma concat_concat: "concat (concat xss) = concat (map concat xss)"
  by (induction xss) auto

lemma mset_exchange:
  fixes M :: "'a multiset"
  assumes "M' + R = M + R'" and "R' + r = R + e"
  shows "M' + r = M + e"
proof -
  have "(M' + r) + R = (M' + R) + r" by (simp add: ac_simps)
  also have "\<dots> = M + (R' + r)" by (simp add: assms(1) ac_simps)
  also have "\<dots> = (M + e) + R" by (simp add: assms(2) ac_simps)
  finally show ?thesis by simp
qed

lemma mset_pending_set_slot:
  assumes "wheel_shape w" and "l < LEVELS" and "s < SLOTS"
  shows "mset (pending (set_slot l s es w)) + mset (slot_entries w l s)
           = mset (pending w) + mset es"
proof -
  let ?W = "tw_wheel w"
  let ?row = "(?W ! l)[s := es]"
  have row: "mset (concat ?row) + mset (?W ! l ! s) = mset (concat (?W ! l)) + mset es"
    using assms by (intro mset_list_update_concat) (auto simp: wheel_shape_def)
  have "mset (concat ((map concat ?W)[l := concat ?row])) + mset (map concat ?W ! l)
          = mset (concat (map concat ?W)) + mset (concat ?row)"
    using assms by (intro mset_list_update_concat) (auto simp: wheel_shape_def)
  moreover have "map concat ?W ! l = concat (?W ! l)"
    using assms by (simp add: wheel_shape_def)
  ultimately have "mset (concat (map concat (?W[l := ?row]))) + mset (concat (?W ! l))
          = mset (concat (map concat ?W)) + mset (concat ?row)"
    by (simp add: map_update)
  from this row have "mset (concat (map concat (?W[l := ?row]))) + mset (?W ! l ! s)
      = mset (concat (map concat ?W)) + mset es"
    by (rule mset_exchange)
  then show ?thesis
    by (simp add: pending_def concat_concat set_slot_def slot_entries_def)
qed

lemma set_pending:
  assumes "wheel_shape w"
  shows "set (pending w) = (\<Union>l < LEVELS. \<Union>s < SLOTS. set (slot_entries w l s))"
proof -
  have rows: "set xs = (\<Union>i < length xs. {xs ! i})" for xs :: "'b list"
    by (auto simp: in_set_conv_nth)
  show ?thesis
    using assms
    by (auto simp: pending_def wheel_shape_def slot_entries_def rows [of "tw_wheel w"]
        in_set_conv_nth Bex_def) (metis nth_mem)+
qed

subsection \<open>What draining does\<close>

lemma insert_raw_frame [simp]:
  "tw_origin (insert_raw w e) = tw_origin w"
  "tw_next_id (insert_raw w e) = tw_next_id w"
  "tw_last_tick_ms (insert_raw w e) = tw_last_tick_ms w"
  by (simp_all add: insert_raw_def Let_def split: prod.split)

lemma insert_raw_unfold:
  "place w e = (l, s) \<Longrightarrow>
     insert_raw w e = set_slot l s (slot_entries w l s @ [e])
       (w\<lparr>tw_index := (tw_index w)(te_id e \<mapsto> (l, s))\<rparr>)"
  by (simp add: insert_raw_def place_def entry_ms_def Let_def)

lemma insert_raw_slots:
  assumes "wheel_shape w"
  shows "wheel_shape (insert_raw w e)"
    and "slot_entries (insert_raw w e) l s
           = slot_entries w l s @ (if place w e = (l, s) then [e] else [])"
    and "tw_index (insert_raw w e) = (tw_index w)(te_id e \<mapsto> place w e)"
    and "mset (pending (insert_raw w e)) = add_mset e (mset (pending w))"
proof -
  obtain l0 s0 where p: "place w e = (l0, s0)" by (cases "place w e")
  note r = place_range [OF p]
  let ?w = "w\<lparr>tw_index := (tw_index w)(te_id e \<mapsto> (l0, s0))\<rparr>"
  show "wheel_shape (insert_raw w e)"
    using assms by (simp add: insert_raw_unfold [OF p])
  show "slot_entries (insert_raw w e) l s
          = slot_entries w l s @ (if place w e = (l, s) then [e] else [])"
    using assms r by (auto simp: insert_raw_unfold [OF p] slot_entries_set_slot p)
  show "tw_index (insert_raw w e) = (tw_index w)(te_id e \<mapsto> place w e)"
    by (simp add: insert_raw_unfold [OF p] p)
  have "mset (pending (insert_raw w e)) + mset (slot_entries w l0 s0)
          = mset (pending w) + mset (slot_entries w l0 s0 @ [e])"
    using mset_pending_set_slot [of ?w l0 s0 "slot_entries w l0 s0 @ [e]"] assms r
    by (simp add: insert_raw_unfold [OF p])
  then show "mset (pending (insert_raw w e)) = add_mset e (mset (pending w))" by simp
qed

text \<open>Draining fires the due entries of the slot, in order, and places the others anew.\<close>

lemma drain_entries_spec:
  assumes "wheel_shape w" and "drain_entries now es (w, f) = (w', f')"
  shows "f' = f @ map te_waker (filter (\<lambda>e. entry_ms w e \<le> now) es)
    \<and> wheel_shape w'
    \<and> tw_origin w' = tw_origin w \<and> tw_next_id w' = tw_next_id w
    \<and> tw_last_tick_ms w' = tw_last_tick_ms w
    \<and> (\<forall>l s. slot_entries w' l s = slot_entries w l s
           @ filter (\<lambda>e. now < entry_ms w e \<and> place w e = (l, s)) es)
    \<and> mset (pending w') + mset (filter (\<lambda>e. entry_ms w e \<le> now) es)
           = mset (pending w) + mset es"
  using assms
proof (induction es arbitrary: w f)
  case Nil
  then show ?case by simp
next
  case (Cons e es)
  let ?w1 = "w\<lparr>tw_index := (tw_index w)(te_id e := None)\<rparr>"
  let ?w2 = "insert_raw ?w1 e"
  have frames: "entry_ms ?w1 = entry_ms w" "place ?w1 = place w"
      "entry_ms ?w2 = entry_ms w" "place ?w2 = place w"
    by (auto simp: entry_ms_def instant_to_ms_def place_def level_slot_def)
  have sh: "wheel_shape ?w1" "wheel_shape ?w2"
    using Cons.prems(1) by (simp_all add: insert_raw_slots)
  note ins = insert_raw_slots [OF sh(1), of e, unfolded frames]
  have ms: "instant_to_ms ?w1 (te_deadline e) = entry_ms w e"
    by (simp add: entry_ms_def instant_to_ms_def)
  show ?case
  proof (cases "entry_ms w e \<le> now")
    case True
    with Cons.prems(2) ms have "drain_entries now es (?w1, f @ [te_waker e]) = (w', f')"
      by (simp add: Let_def)
    from Cons.IH [OF sh(1) this] True show ?thesis by (simp add: frames)
  next
    case False
    with Cons.prems(2) ms have "drain_entries now es (?w2, f) = (w', f')"
      by (simp add: Let_def)
    from Cons.IH [OF sh(2) this] False show ?thesis by (auto simp: frames ins)
  qed
qed

lemma drain_slot_spec:
  assumes "wheel_shape w" and "l0 < LEVELS" and "s0 < SLOTS"
    and "drain_slot now (l0, s0) (w, f) = (w', f')"
  shows "f' = f @ map te_waker (filter (\<lambda>e. entry_ms w e \<le> now) (slot_entries w l0 s0))"
    and "wheel_shape w'"
    and "tw_origin w' = tw_origin w" and "tw_next_id w' = tw_next_id w"
    and "tw_last_tick_ms w' = tw_last_tick_ms w"
    and "slot_entries w' l s = (if l = l0 \<and> s = s0 then [] else slot_entries w l s)
           @ filter (\<lambda>e. now < entry_ms w e \<and> place w e = (l, s)) (slot_entries w l0 s0)"
    and "mset (pending w') + mset (filter (\<lambda>e. entry_ms w e \<le> now) (slot_entries w l0 s0))
           = mset (pending w)"
proof -
  let ?w1 = "set_slot l0 s0 [] w" and ?es = "slot_entries w l0 s0"
  have ms: "entry_ms ?w1 = entry_ms w" and pl: "place ?w1 = place w"
    by (auto simp: entry_ms_def instant_to_ms_def place_def level_slot_def)
  have "drain_entries now ?es (?w1, f) = (w', f')" and sh: "wheel_shape ?w1"
    using assms by (simp_all add: drain_slot_def)
  note d = drain_entries_spec [OF sh this(1), unfolded ms pl]
  then have slots: "slot_entries w' l s = slot_entries ?w1 l s
      @ filter (\<lambda>e. now < entry_ms w e \<and> place w e = (l, s)) ?es"
    by blast
  show "f' = f @ map te_waker (filter (\<lambda>e. entry_ms w e \<le> now) ?es)"
    and "wheel_shape w'" and "tw_origin w' = tw_origin w" and "tw_next_id w' = tw_next_id w"
    and "tw_last_tick_ms w' = tw_last_tick_ms w"
    using d by simp_all
  show "slot_entries w' l s = (if l = l0 \<and> s = s0 then [] else slot_entries w l s)
          @ filter (\<lambda>e. now < entry_ms w e \<and> place w e = (l, s)) ?es"
    using slots assms by (simp add: slot_entries_set_slot)
  have "mset (pending ?w1) + mset ?es = mset (pending w)"
    using mset_pending_set_slot [OF assms(1-3), of "[]"] by simp
  then show "mset (pending w') + mset (filter (\<lambda>e. entry_ms w e \<le> now) ?es) = mset (pending w)"
    using d by simp
qed

subsection \<open>A tick is a sequence of drained slots\<close>

definition boundary_slot :: "nat \<Rightarrow> nat \<Rightarrow> nat \<times> nat" where
  "boundary_slot level boundary = (level, (boundary div slot_width_ms level) AND SLOTS_MASK)"

function boundaries :: "nat \<Rightarrow> nat \<Rightarrow> nat \<Rightarrow> nat list" where
  "boundaries level boundary to =
     (if boundary \<le> to then
        boundary # (if boundary + slot_width_ms level < 2 ^ 64
                    then boundaries level (boundary + slot_width_ms level) to else [])
      else [])"
  by pat_completeness auto
termination
  by (relation "measure (\<lambda>(level, boundary, to). Suc to - boundary)")
    (auto intro: diff_less_mono2)

declare boundaries.simps [simp del]

definition drain_plan :: "nat \<Rightarrow> nat \<Rightarrow> (nat \<times> nat) list" where
  "drain_plan from to =
     map (Pair 0) (level0_slots from to)
     @ concat (map (\<lambda>l. map (boundary_slot l)
                          (boundaries l (first_boundary from (slot_width_ms l)) to)) [1..<LEVELS])"

lemma cascade_level_fold:
  "cascade_level level b to = fold (drain_slot to) (map (boundary_slot level) (boundaries level b to))"
proof
  fix s
  show "cascade_level level b to s
      = fold (drain_slot to) (map (boundary_slot level) (boundaries level b to)) s"
  proof (induction level b to s rule: cascade_level.induct)
    case (1 level b to s)
    then show ?case
      by (simp add: cascade_level.simps [of level b] boundaries.simps [of level b] boundary_slot_def
          Let_def del: and_mask_mod)
  qed
qed

lemma fold_concat_map: "fold (\<lambda>x. fold g (h x)) xs = fold g (concat (map h xs))"
  by (induction xs) (simp_all add: fun_eq_iff)

lemma cascade_fold:
  "cascade t to = fold (drain_slot to)
     (concat (map (\<lambda>l. map (boundary_slot l)
        (boundaries l (first_boundary t (slot_width_ms l)) to)) [1..<LEVELS]))"
  by (rule ext) (simp add: cascade_def cascade_level_fold fold_concat_map)

lemma timer_tick_plan:
  assumes "tw_last_tick_ms w \<le> instant_to_ms w now"
  shows "timer_tick w now =
     (let (w1, fired) = fold (drain_slot (instant_to_ms w now))
            (drain_plan (tw_last_tick_ms w) (instant_to_ms w now)) (w, [])
      in (w1\<lparr>tw_last_tick_ms := instant_to_ms w now\<rparr>, fired))"
  using assms
  by (simp add: timer_tick_def cascade_fold drain_plan_def fold_map comp_def Let_def)

lemma timer_tick_past: "instant_to_ms w now < tw_last_tick_ms w \<Longrightarrow> timer_tick w now = (w, [])"
  by (simp add: timer_tick_def)

lemma level0_slots_range: "s \<in> set (level0_slots from to) \<Longrightarrow> s < SLOTS"
  by (auto simp: level0_slots_def Let_def less_Suc_eq_le split: if_splits
      intro: le_less_trans [of _ "to mod SLOTS"])

lemma drain_plan_range:
  assumes "(l, s) \<in> set (drain_plan from to)"
  shows "l < LEVELS \<and> s < SLOTS"
  using assms level0_slots_range
  by (auto simp: drain_plan_def boundary_slot_def LEVELS_def)

text \<open>The plan covers the slot of every millisecond in the range, at every level.\<close>

lemma boundaries_cover:
  assumes "b + k * slot_width_ms l \<le> to" and "to < 2 ^ 64"
  shows "b + k * slot_width_ms l \<in> set (boundaries l b to)"
  using assms
proof (induction k arbitrary: b)
  case 0
  then show ?case by (subst boundaries.simps) simp
next
  case (Suc k)
  have "b \<le> to" and step: "b + slot_width_ms l < 2 ^ 64"
    using Suc.prems by simp_all
  moreover have "(b + slot_width_ms l) + k * slot_width_ms l
      \<in> set (boundaries l (b + slot_width_ms l) to)"
    using Suc by (intro Suc.IH) (simp_all add: ac_simps)
  ultimately show ?case
    by (subst boundaries.simps) (simp add: ac_simps)
qed

lemma mod_shift:
  assumes "i < (n::nat)"
  shows "(a + i) mod n = (if a mod n + i < n then a mod n + i else a mod n + i - n)"
proof -
  have "a mod n < n" using assms by simp
  then have "a mod n + i - n < n" using assms by linarith
  moreover have "(a + i) mod n = (a mod n + i) mod n" by (simp add: mod_simps)
  ultimately show ?thesis by (auto simp: le_mod_geq not_less)
qed

lemma window_cover:
  assumes "q < n" and "i \<le> j" and "j < (n::nat)"
    and "T = (if q + j < n then q + j else q + j - n)"
  shows "(if q + i < n then q + i else q + i - n)
    \<in> set (if q \<le> T then [q..<Suc T] else [q..<n] @ [0..<Suc T])"
  using assms by (cases "q + j < n") auto

lemma level0_slots_cover:
  assumes "t \<le> d" and "d \<le> to"
  shows "d mod SLOTS \<in> set (level0_slots t to)"
proof (cases "to - t < SLOTS")
  case True
  with assms have i: "d - t < SLOTS" and ij: "d - t \<le> to - t" by simp_all
  have q: "t mod SLOTS < SLOTS" by simp
  have to: "to mod SLOTS = (if t mod SLOTS + (to - t) < SLOTS then t mod SLOTS + (to - t)
      else t mod SLOTS + (to - t) - SLOTS)"
    using mod_shift [OF True, of t] assms by simp
  have "d mod SLOTS = (if t mod SLOTS + (d - t) < SLOTS then t mod SLOTS + (d - t)
      else t mod SLOTS + (d - t) - SLOTS)"
    using mod_shift [OF i, of t] assms by simp
  then show ?thesis
    using window_cover [OF q ij True to] True by (simp add: level0_slots_def Let_def del: upt_Suc)
next
  case False
  then show ?thesis by (simp add: level0_slots_def)
qed

lemma first_boundary_cover:
  assumes "0 < w" and "t \<le> m * w"
  shows "\<exists>k. m * w = first_boundary t w + k * w"
proof -
  have "\<exists>q \<le> m. first_boundary t w = q * w"
  proof (cases "t mod w = 0")
    case True
    then have "t = (t div w) * w" by auto
    moreover from this have "t div w \<le> m"
      using assms by (metis mult_le_cancel2)
    ultimately show ?thesis using True by (auto simp: first_boundary_def)
  next
    case False
    then have "(t div w) * w < t"
      by (metis div_mult_mod_eq less_add_same_cancel1 neq0_conv)
    then have "t div w < m"
      using assms by (meson less_le_trans mult_less_cancel2)
    with False show ?thesis
      by (intro exI [of _ "t div w + 1"]) (auto simp: first_boundary_def)
  qed
  then obtain q where "q \<le> m" and q: "first_boundary t w = q * w" by blast
  then have "m * w = q * w + (m - q) * w"
    by (simp add: add_mult_distrib [symmetric])
  then show ?thesis using q by metis
qed

text \<open>
  A slot that holds a millisecond \<open>d\<close> of the range and starts inside the range is
  drained.
\<close>

lemma drain_plan_cover:
  assumes "l < LEVELS" and "t \<le> (d div slot_width_ms l) * slot_width_ms l"
    and "d \<le> to" and "to < 2 ^ 64"
  shows "(l, (d div slot_width_ms l) mod SLOTS) \<in> set (drain_plan t to)"
proof (cases "l = 0")
  case True
  with assms have "t \<le> d" by (simp add: slot_width_ms_def LEVEL0_MS_def)
  with assms True show ?thesis
    using level0_slots_cover [of t d to]
    by (simp add: drain_plan_def slot_width_ms_def LEVEL0_MS_def)
next
  case False
  let ?w = "slot_width_ms l" and ?b = "(d div slot_width_ms l) * slot_width_ms l"
  obtain k where k: "?b = first_boundary t ?w + k * ?w"
    using first_boundary_cover [OF slot_width_pos assms(2)] by blast
  have "?b \<le> to" using assms(3) by (meson div_times_less_eq_dividend le_trans)
  then have "?b \<in> set (boundaries l (first_boundary t ?w) to)"
    using boundaries_cover assms(4) k by metis
  moreover have "boundary_slot l ?b = (l, (d div ?w) mod SLOTS)"
    by (simp add: boundary_slot_def)
  ultimately have "(l, (d div ?w) mod SLOTS)
      \<in> set (map (boundary_slot l) (boundaries l (first_boundary t ?w) to))"
    by (metis image_eqI set_map)
  then show ?thesis
    using False assms(1) by (auto simp: drain_plan_def)
qed

subsection \<open>Effect of a tick on the slots\<close>

text \<open>
  After a sequence of drains up to \<open>to\<close>: the fired entries were due, nothing is lost, no
  due entry is left in a drained slot, and an entry found in a slot either was there in a
  slot that was not drained or lies in the future and was placed there anew.
\<close>

definition drained_to ::
  "nat \<Rightarrow> (nat \<times> nat) list \<Rightarrow> timer_wheel \<Rightarrow> timer_wheel \<Rightarrow> timer_entry list \<Rightarrow> bool" where
  "drained_to to ps w w' F \<longleftrightarrow>
     wheel_shape w' \<and> tw_origin w' = tw_origin w \<and> tw_next_id w' = tw_next_id w
     \<and> tw_last_tick_ms w' = tw_last_tick_ms w
     \<and> (\<forall>e \<in> set F. entry_ms w e \<le> to)
     \<and> mset (pending w) = mset F + mset (pending w')
     \<and> (\<forall>l s. \<forall>e \<in> set (slot_entries w' l s).
           e \<in> set (slot_entries w l s) \<and> (l, s) \<notin> set ps
           \<or> to < entry_ms w e \<and> place w e = (l, s))
     \<and> (\<forall>l s. (l, s) \<notin> set ps \<longrightarrow> set (slot_entries w l s) \<subseteq> set (slot_entries w' l s))"

lemma fold_drain_spec:
  assumes "wheel_shape w" and "\<forall>(l, s) \<in> set ps. l < LEVELS \<and> s < SLOTS"
    and "fold (drain_slot to) ps (w, f) = (w', f')"
  shows "\<exists>F. f' = f @ map te_waker F \<and> drained_to to ps w w' F"
  using assms
proof (induction ps arbitrary: w f)
  case Nil
  then show ?case by (auto simp: drained_to_def)
next
  case (Cons p ps)
  obtain l0 s0 where p: "p = (l0, s0)" by (cases p)
  obtain w1 f1 where d: "drain_slot to (l0, s0) (w, f) = (w1, f1)"
    by (cases "drain_slot to (l0, s0) (w, f)")
  let ?due = "filter (\<lambda>e. entry_ms w e \<le> to) (slot_entries w l0 s0)"
  have r: "l0 < LEVELS" "s0 < SLOTS" using Cons.prems(2) p by auto
  note ds = drain_slot_spec [OF Cons.prems(1) r d]
  have frames: "entry_ms w1 = entry_ms w" "place w1 = place w"
    using ds(3,5) by (auto simp: entry_ms_def instant_to_ms_def place_def level_slot_def)
  have "fold (drain_slot to) ps (w1, f1) = (w', f')"
    using Cons.prems(3) p d by simp
  then obtain F where F: "f' = f1 @ map te_waker F" "drained_to to ps w1 w' F"
    using Cons.IH [OF ds(2)] Cons.prems(2) by auto
  have "f' = f @ map te_waker (?due @ F)" using F ds(1) by simp
  moreover have "drained_to to (p # ps) w w' (?due @ F)"
  proof -
    have left: "e \<in> set (slot_entries w l s) \<and> (l, s) \<notin> set (p # ps)
        \<or> to < entry_ms w e \<and> place w e = (l, s)"
      if "e \<in> set (slot_entries w' l s)" for e l s
    proof -
      have "e \<in> set (slot_entries w1 l s) \<and> (l, s) \<notin> set ps
          \<or> to < entry_ms w e \<and> place w e = (l, s)"
        using F(2) that unfolding drained_to_def frames by blast
      then show ?thesis
        unfolding ds(6) [of l s] p by (auto split: if_splits)
    qed
    have kept: "set (slot_entries w l s) \<subseteq> set (slot_entries w' l s)"
      if "(l, s) \<notin> set (p # ps)" for l s
    proof -
      have "set (slot_entries w l s) \<subseteq> set (slot_entries w1 l s)"
        using that by (auto simp: ds(6) p)
      also have "\<dots> \<subseteq> set (slot_entries w' l s)"
        using F(2) that unfolding drained_to_def by simp
      finally show ?thesis .
    qed
    show ?thesis
      using F(2) ds(3-5) ds(7) left kept unfolding drained_to_def frames
      by (auto simp: ac_simps)
  qed
  ultimately show ?case by blast
qed

text \<open>An entry is well placed for a tick from \<open>t\<close> when its slot starts at or after \<open>t\<close>.\<close>

definition well_placed :: "timer_wheel \<Rightarrow> nat \<Rightarrow> nat \<Rightarrow> timer_entry \<Rightarrow> bool" where
  "well_placed w l s e \<longleftrightarrow>
     (let d = max (entry_ms w e) (tw_last_tick_ms w); b = d div slot_width_ms l in
      s = b mod SLOTS \<and> tw_last_tick_ms w \<le> b * slot_width_ms l)"

definition all_well_placed :: "timer_wheel \<Rightarrow> bool" where
  "all_well_placed w \<longleftrightarrow>
     (\<forall>l < LEVELS. \<forall>s < SLOTS. \<forall>e \<in> set (slot_entries w l s). well_placed w l s e)"

lemma div_mult_gt: "0 < w \<Longrightarrow> w \<le> d - t \<Longrightarrow> t < (d div w) * w" for d t w :: nat
  using mod_less_divisor [of w d] div_mult_mod_eq [of d w] by linarith

text \<open>A freshly placed entry starts strictly after the last tick, unless on level 0.\<close>

lemma place_start:
  assumes "place w e = (l, s)" and "0 < l"
  shows "tw_last_tick_ms w
    < (max (entry_ms w e) (tw_last_tick_ms w) div slot_width_ms l) * slot_width_ms l"
  using level_slot_spec(3) [OF assms(1) [unfolded place_def] assms(2)]
  by (intro div_mult_gt) simp_all

lemma place_well_placed: "place w e = (l, s) \<Longrightarrow> well_placed w l s e"
  using place_start [of w e l s] level_slot_spec(2) [of w _ l s]
  by (cases "l = 0") (auto simp: well_placed_def place_def Let_def slot_width_ms_def LEVEL0_MS_def)

lemma tick_drained:
  assumes "wheel_shape w" and "tw_last_tick_ms w \<le> instant_to_ms w now"
    and "timer_tick w now = (w', fired)"
  obtains F w1 where "fired = map te_waker F" and "w' = w1\<lparr>tw_last_tick_ms := instant_to_ms w now\<rparr>"
    and "drained_to (instant_to_ms w now) (drain_plan (tw_last_tick_ms w) (instant_to_ms w now)) w w1 F"
proof -
  let ?to = "instant_to_ms w now" and ?plan = "drain_plan (tw_last_tick_ms w) (instant_to_ms w now)"
  obtain w1 f1 where f: "fold (drain_slot ?to) ?plan (w, []) = (w1, f1)"
    by (cases "fold (drain_slot ?to) ?plan (w, [])")
  moreover have "\<forall>(l, s) \<in> set ?plan. l < LEVELS \<and> s < SLOTS"
    using drain_plan_range by auto
  ultimately obtain F where "f1 = map te_waker F" "drained_to ?to ?plan w w1 F"
    using fold_drain_spec [OF assms(1)] by fastforce
  moreover have "w' = w1\<lparr>tw_last_tick_ms := ?to\<rparr>" "fired = f1"
    using timer_tick_plan [OF assms(2)] assms(3) f by auto
  ultimately show ?thesis using that by blast
qed

lemma instant_to_ms_limit: "instant_to_ms w t < 2 ^ 64"
  by (auto simp: instant_to_ms_def min_def)

lemma tick_leaves_future:
  assumes "wheel_shape w" and "all_well_placed w" and "tw_last_tick_ms w \<le> instant_to_ms w now"
    and "timer_tick w now = (w', fired)" and "l < LEVELS" and "s < SLOTS"
    and "e \<in> set (slot_entries w' l s)"
  shows "instant_to_ms w now < entry_ms w e"
proof (rule ccontr)
  let ?to = "instant_to_ms w now"
  assume due: "\<not> ?to < entry_ms w e"
  obtain F w1 where w': "w' = w1\<lparr>tw_last_tick_ms := ?to\<rparr>"
    and d: "drained_to ?to (drain_plan (tw_last_tick_ms w) ?to) w w1 F"
    using tick_drained [OF assms(1,3,4)] by metis
  have in_w1: "e \<in> set (slot_entries w1 l s)" using assms(7) w' by simp
  then have e: "e \<in> set (slot_entries w l s)"
    and out: "(l, s) \<notin> set (drain_plan (tw_last_tick_ms w) ?to)"
    using d due unfolding drained_to_def by blast+
  from e assms(2,5,6) have "well_placed w l s e" by (simp add: all_well_placed_def)
  then have "(l, s) \<in> set (drain_plan (tw_last_tick_ms w) ?to)"
    using drain_plan_cover [OF assms(5), of "tw_last_tick_ms w" "max (entry_ms w e) (tw_last_tick_ms w)" ?to]
      due assms(3) instant_to_ms_limit by (simp add: well_placed_def Let_def)
  with out show False by contradiction
qed

text \<open>
  A tick by at most one millisecond keeps every entry well placed: an entry that was not
  drained starts after the previous tick, hence at or after this one.
\<close>

lemma tick_keeps_well_placed:
  assumes "wheel_shape w" and "all_well_placed w" and "tw_last_tick_ms w \<le> instant_to_ms w now"
    and step: "instant_to_ms w now \<le> Suc (tw_last_tick_ms w)"
    and "timer_tick w now = (w', fired)"
  shows "all_well_placed w'"
  unfolding all_well_placed_def
proof (intro allI impI ballI)
  fix l s e
  assume l: "l < LEVELS" and s: "s < SLOTS" and e: "e \<in> set (slot_entries w' l s)"
  let ?from = "tw_last_tick_ms w" and ?to = "instant_to_ms w now"
  obtain F w1 where w': "w' = w1\<lparr>tw_last_tick_ms := ?to\<rparr>"
    and d: "drained_to ?to (drain_plan ?from ?to) w w1 F"
    using tick_drained [OF assms(1,3,5)] by metis
  have future: "?to < entry_ms w e"
    using tick_leaves_future [OF assms(1-3,5) l s e] .
  have ms: "entry_ms w' e = entry_ms w e" "tw_last_tick_ms w' = ?to"
    using d w' by (simp_all add: drained_to_def entry_ms_def instant_to_ms_def)
  let ?b = "entry_ms w e div slot_width_ms l"
  have max_from: "max (entry_ms w e) ?from = entry_ms w e"
    using future assms(3) by simp
  have "s = ?b mod SLOTS \<and> ?to \<le> ?b * slot_width_ms l"
  proof (cases "place w e = (l, s)")
    case True
    then have "s = ?b mod SLOTS"
      using place_well_placed [OF True] max_from by (simp add: well_placed_def Let_def)
    moreover have "?to \<le> ?b * slot_width_ms l"
      using place_start [OF True] max_from step future
      by (cases "l = 0") (simp_all add: slot_width_ms_def LEVEL0_MS_def)
    ultimately show ?thesis by simp
  next
    case False
    then have "e \<in> set (slot_entries w l s)" and out: "(l, s) \<notin> set (drain_plan ?from ?to)"
      using d e w' unfolding drained_to_def by auto
    then have "well_placed w l s e" using assms(2) l s by (simp add: all_well_placed_def)
    then have wp: "s = ?b mod SLOTS" "?from \<le> ?b * slot_width_ms l"
      using max_from by (simp_all add: well_placed_def Let_def)
    moreover have "?b * slot_width_ms l \<noteq> ?from"
    proof
      assume b: "?b * slot_width_ms l = ?from"
      then have "?from div slot_width_ms l = ?b"
        by (metis nonzero_mult_div_cancel_right not_less_zero slot_width_pos)
      with out show False
        using drain_plan_cover [OF l, of ?from ?from ?to] b wp assms(3) instant_to_ms_limit by simp
    qed
    ultimately show ?thesis using step by simp
  qed
  then show "well_placed w' l s e"
    using future ms by (simp add: well_placed_def Let_def)
qed

subsection \<open>The index agrees with the slots\<close>

text \<open>
  The invariant, for a wheel some of whose entries (\<open>es\<close>) are taken out and wait to be
  fired or placed: identifiers are unique and below the counter, every entry in a slot is
  indexed at that slot, and nothing else is indexed.
\<close>

definition wheel_inv_with :: "timer_entry list \<Rightarrow> timer_wheel \<Rightarrow> bool" where
  "wheel_inv_with es w \<longleftrightarrow>
     wheel_shape w
     \<and> distinct (map te_id (pending w @ es))
     \<and> (\<forall>e \<in> set (pending w @ es). te_id e < tw_next_id w)
     \<and> (\<forall>l < LEVELS. \<forall>s < SLOTS. \<forall>e \<in> set (slot_entries w l s).
           tw_index w (te_id e) = Some (l, s))
     \<and> dom (tw_index w) \<subseteq> te_id ` set (pending w @ es)"

abbreviation wheel_inv :: "timer_wheel \<Rightarrow> bool" where
  "wheel_inv w \<equiv> wheel_inv_with [] w"

lemma slot_entry_pending:
  "wheel_shape w \<Longrightarrow> l < LEVELS \<Longrightarrow> s < SLOTS \<Longrightarrow> e \<in> set (slot_entries w l s) \<Longrightarrow> e \<in> set (pending w)"
  by (auto simp: set_pending)

lemma wheel_inv_shape: "wheel_inv_with es w \<Longrightarrow> wheel_shape w"
  by (simp add: wheel_inv_with_def)

lemma wheel_inv_index:
  "wheel_inv_with es w \<Longrightarrow> l < LEVELS \<Longrightarrow> s < SLOTS \<Longrightarrow> e \<in> set (slot_entries w l s)
     \<Longrightarrow> tw_index w (te_id e) = Some (l, s)"
  by (simp add: wheel_inv_with_def)

lemma wheel_inv_dom:
  assumes "wheel_inv_with es w" and "tw_index w i = Some p"
  shows "i \<in> te_id ` set (pending w @ es)"
proof -
  have "i \<in> dom (tw_index w)" using assms(2) by blast
  then show ?thesis using assms(1) unfolding wheel_inv_with_def by blast
qed

lemma wheel_inv_id_bound: "wheel_inv_with es w \<Longrightarrow> e \<in> set (pending w) \<Longrightarrow> te_id e < tw_next_id w"
  by (simp add: wheel_inv_with_def)

lemma wheel_inv_fresh_id:
  assumes "wheel_inv_with (e # es) w" and "l < LEVELS" and "s < SLOTS"
    and "x \<in> set (slot_entries w l s)"
  shows "te_id x \<noteq> te_id e"
proof -
  have "x \<in> set (pending w)"
    using assms slot_entry_pending by (simp add: wheel_inv_with_def)
  then have "te_id x \<in> te_id ` set (pending w)" by simp
  moreover have "te_id e \<notin> te_id ` set (pending w)"
    using assms(1) by (simp add: wheel_inv_with_def)
  ultimately show ?thesis by metis
qed

lemma wheel_inv_insert_raw:
  assumes inv: "wheel_inv_with (e # es) w"
  shows "wheel_inv_with es (insert_raw w e)"
proof -
  have sh: "wheel_shape w" using inv by (simp add: wheel_inv_with_def)
  note ins = insert_raw_slots [OF sh, of e]
  have ms: "mset (pending (insert_raw w e) @ es) = mset (pending w @ e # es)"
    using ins(4) by simp
  have ids: "mset (map te_id (pending (insert_raw w e) @ es)) = mset (map te_id (pending w @ e # es))"
    using ms by (metis mset_map)
  have "distinct (map te_id (pending (insert_raw w e) @ es))"
    using mset_eq_imp_distinct_iff [OF ids] inv by (simp add: wheel_inv_with_def)
  moreover have sets: "set (pending (insert_raw w e) @ es) = set (pending w @ e # es)"
    using ms by (metis set_mset_mset)
  moreover have "tw_index (insert_raw w e) (te_id x) = Some (l, s)"
    if "l < LEVELS" "s < SLOTS" "x \<in> set (slot_entries (insert_raw w e) l s)" for l s x
  proof (cases "x \<in> set (slot_entries w l s)")
    case True
    then have "te_id x \<noteq> te_id e" using wheel_inv_fresh_id inv that by blast
    then show ?thesis using True inv that by (simp add: ins(3) wheel_inv_with_def)
  next
    case False
    then show ?thesis using that by (auto simp: ins(2,3) split: if_splits)
  qed
  moreover have "dom (tw_index (insert_raw w e)) \<subseteq> te_id ` set (pending (insert_raw w e) @ es)"
    using inv unfolding sets ins(3) by (auto simp: wheel_inv_with_def)
  moreover have "\<forall>x \<in> set (pending (insert_raw w e) @ es). te_id x < tw_next_id (insert_raw w e)"
    using inv unfolding sets by (auto simp: wheel_inv_with_def)
  ultimately show ?thesis
    using ins(1) unfolding wheel_inv_with_def by blast
qed

lemma wheel_inv_unindex:
  assumes "wheel_inv_with (e # es) w"
  shows "wheel_inv_with (e # es) (w\<lparr>tw_index := (tw_index w)(te_id e := None)\<rparr>)"
    and "wheel_inv_with es (w\<lparr>tw_index := (tw_index w)(te_id e := None)\<rparr>)"
proof -
  have "te_id x \<noteq> te_id e" if "l < LEVELS" "s < SLOTS" "x \<in> set (slot_entries w l s)" for l s x
    using wheel_inv_fresh_id assms that by blast
  then show "wheel_inv_with (e # es) (w\<lparr>tw_index := (tw_index w)(te_id e := None)\<rparr>)"
    and "wheel_inv_with es (w\<lparr>tw_index := (tw_index w)(te_id e := None)\<rparr>)"
    using assms by (auto simp: wheel_inv_with_def)
qed

lemma wheel_inv_drain_entries:
  "wheel_inv_with es w \<Longrightarrow> wheel_inv (fst (drain_entries now es (w, f)))"
proof (induction es arbitrary: w f)
  case (Cons e es)
  then show ?case
    using wheel_inv_unindex [OF Cons.prems] by (auto simp: Let_def intro!: Cons.IH wheel_inv_insert_raw)
qed simp

lemma wheel_inv_take_slot:
  assumes "wheel_inv w" and "l < LEVELS" and "s < SLOTS"
  shows "wheel_inv_with (slot_entries w l s) (set_slot l s [] w)"
proof -
  have sh: "wheel_shape w" using assms by (simp add: wheel_inv_with_def)
  have ms: "mset (pending (set_slot l s [] w) @ slot_entries w l s) = mset (pending w)"
    using mset_pending_set_slot [OF sh assms(2,3), of "[]"] by simp
  then have ids: "mset (map te_id (pending (set_slot l s [] w) @ slot_entries w l s))
      = mset (map te_id (pending w))"
    by (metis mset_map)
  have "set (pending (set_slot l s [] w) @ slot_entries w l s) = set (pending w)"
    using ms by (metis set_mset_mset)
  then show ?thesis
    using assms sh mset_eq_imp_distinct_iff [OF ids] unfolding wheel_inv_with_def
    by (auto simp: slot_entries_set_slot split: if_splits simp del: set_append map_append)
qed

lemma wheel_inv_drain_slot:
  assumes "wheel_inv w" and "l < LEVELS" and "s < SLOTS"
  shows "wheel_inv (fst (drain_slot now (l, s) (w, f)))"
  using wheel_inv_drain_entries [OF wheel_inv_take_slot [OF assms]]
  by (simp add: drain_slot_def)

lemma wheel_inv_fold_drain:
  assumes "wheel_inv w" and "\<forall>(l, s) \<in> set ps. l < LEVELS \<and> s < SLOTS"
  shows "wheel_inv (fst (fold (drain_slot now) ps (w, f)))"
  using assms
proof (induction ps arbitrary: w f)
  case (Cons p ps)
  obtain w1 f1 where "drain_slot now p (w, f) = (w1, f1)" by (cases "drain_slot now p (w, f)")
  moreover from this have "wheel_inv w1"
    using wheel_inv_drain_slot [of w "fst p" "snd p" now f] Cons.prems by (cases p) auto
  ultimately show ?case using Cons by simp
qed simp

lemma wheel_inv_tick:
  assumes "wheel_inv w"
  shows "wheel_inv (fst (timer_tick w now))"
proof (cases "tw_last_tick_ms w \<le> instant_to_ms w now")
  case True
  let ?to = "instant_to_ms w now" and ?plan = "drain_plan (tw_last_tick_ms w) (instant_to_ms w now)"
  obtain w1 f1 where f: "fold (drain_slot ?to) ?plan (w, []) = (w1, f1)"
    by (cases "fold (drain_slot ?to) ?plan (w, [])")
  have "\<forall>(l, s) \<in> set ?plan. l < LEVELS \<and> s < SLOTS"
    using drain_plan_range by auto
  then have "wheel_inv w1"
    using wheel_inv_fold_drain [OF assms, of ?plan ?to "[]"] f by simp
  then have "wheel_inv (w1\<lparr>tw_last_tick_ms := ?to\<rparr>)"
    by (simp add: wheel_inv_with_def)
  then show ?thesis using f by (simp add: timer_tick_plan [OF True])
next
  case False
  then show ?thesis using assms by (simp add: timer_tick_past)
qed

subsection \<open>Insertion and cancellation\<close>

definition new_entry :: "timer_wheel \<Rightarrow> instant \<Rightarrow> waker \<Rightarrow> timer_entry" where
  "new_entry w deadline wk = \<lparr>te_id = tw_next_id w, te_deadline = deadline, te_waker = wk\<rparr>"

lemma timer_insert_raw:
  "timer_insert w deadline wk =
     (TimerId (tw_next_id w),
      insert_raw (w\<lparr>tw_next_id := Suc (tw_next_id w)\<rparr>) (new_entry w deadline wk))"
  by (auto simp: timer_insert_def insert_raw_def new_entry_def set_slot_def Let_def split: prod.split)

lemma wheel_inv_insert:
  assumes "wheel_inv w"
  shows "wheel_inv (snd (timer_insert w deadline wk))"
proof -
  let ?e = "new_entry w deadline wk"
  have "te_id ?e \<notin> te_id ` set (pending w)"
    using wheel_inv_id_bound [OF assms] by (auto simp: new_entry_def) (meson less_irrefl)
  moreover have "\<forall>e \<in> set (pending w @ [?e]). te_id e < Suc (tw_next_id w)"
    using wheel_inv_id_bound [OF assms] by (auto simp: new_entry_def less_SucI)
  ultimately have "wheel_inv_with [?e] (w\<lparr>tw_next_id := Suc (tw_next_id w)\<rparr>)"
    using assms by (simp add: wheel_inv_with_def subset_insertI2)
  then show ?thesis by (simp add: timer_insert_raw wheel_inv_insert_raw)
qed

lemma timer_insert_pending:
  assumes "wheel_shape w"
  shows "mset (pending (snd (timer_insert w deadline wk)))
           = add_mset (new_entry w deadline wk) (mset (pending w))"
  using insert_raw_slots(4) [of "w\<lparr>tw_next_id := Suc (tw_next_id w)\<rparr>"] assms
  by (simp add: timer_insert_raw)

lemma all_well_placed_insert:
  assumes "wheel_shape w" and "all_well_placed w"
  shows "all_well_placed (snd (timer_insert w deadline wk))"
proof -
  let ?w = "w\<lparr>tw_next_id := Suc (tw_next_id w)\<rparr>" and ?e = "new_entry w deadline wk"
  have frame: "well_placed (insert_raw ?w ?e) l s e = well_placed w l s e" for l s e
    by (simp add: well_placed_def entry_ms_def instant_to_ms_def)
  have pl: "place ?w ?e = place w ?e"
    by (rule place_frame) simp_all
  have slots: "slot_entries (insert_raw ?w ?e) l s
      = slot_entries w l s @ (if place w ?e = (l, s) then [?e] else [])" for l s
    using insert_raw_slots(2) [of ?w ?e l s] assms(1) unfolding pl by simp
  have "well_placed w l s e"
    if "l < LEVELS" "s < SLOTS" "e \<in> set (slot_entries (insert_raw ?w ?e) l s)" for l s e
  proof (cases "e \<in> set (slot_entries w l s)")
    case True
    then show ?thesis using assms(2) that by (simp add: all_well_placed_def)
  next
    case False
    then have "e = ?e" and "place w ?e = (l, s)"
      using that(3) by (auto simp: slots split: if_splits)
    then show ?thesis by (simp add: place_well_placed)
  qed
  then show ?thesis by (simp add: timer_insert_raw all_well_placed_def frame)
qed

lemma cancel_slot:
  assumes inv: "wheel_inv w" and idx: "tw_index w i = Some (l, s)"
  shows "l < LEVELS" and "s < SLOTS" and "\<exists>e \<in> set (slot_entries w l s). te_id e = i"
proof -
  obtain e where e: "e \<in> set (pending w)" "te_id e = i"
    using wheel_inv_dom [OF inv idx] by auto
  then obtain l' s' where r: "l' < LEVELS" "s' < SLOTS" "e \<in> set (slot_entries w l' s')"
    using wheel_inv_shape [OF inv] by (auto simp: set_pending)
  then have "l' = l" "s' = s"
    using wheel_inv_index [OF inv r] e idx by simp_all
  then show "l < LEVELS" and "s < SLOTS" and "\<exists>e \<in> set (slot_entries w l s). te_id e = i"
    using r e by auto
qed

lemma unindexed_not_pending:
  assumes inv: "wheel_inv w" and "tw_index w i = None"
  shows "i \<notin> te_id ` set (pending w)"
proof
  assume "i \<in> te_id ` set (pending w)"
  then obtain e l s where "l < LEVELS" "s < SLOTS" "e \<in> set (slot_entries w l s)" "te_id e = i"
    using wheel_inv_shape [OF inv] by (auto simp: set_pending)
  then show False using wheel_inv_index [OF inv] assms(2) by fastforce
qed

text \<open>The wheel after a cancellation that found the timer in the slot \<open>(l, s)\<close>.\<close>

lemma cancel_unfold:
  assumes "tw_index w i = Some (l, s)"
  shows "timer_cancel w (TimerId i) =
    (length (filter (\<lambda>e. te_id e \<noteq> i) (slot_entries w l s)) < length (slot_entries w l s),
     set_slot l s (filter (\<lambda>e. te_id e \<noteq> i) (slot_entries w l s))
       (w\<lparr>tw_index := (tw_index w)(i := None)\<rparr>))"
  using assms by (simp add: timer_cancel_def Let_def)

lemma cancel_slot_entries:
  assumes inv: "wheel_inv w" and idx: "tw_index w i = Some (l, s)"
    and r': "l' < LEVELS" "s' < SLOTS"
  shows "slot_entries (snd (timer_cancel w (TimerId i))) l' s'
           = filter (\<lambda>e. te_id e \<noteq> i) (slot_entries w l' s')"
proof -
  note r = cancel_slot [OF inv idx]
  have "te_id e \<noteq> i" if "(l', s') \<noteq> (l, s)" "e \<in> set (slot_entries w l' s')" for e
    using wheel_inv_index [OF inv r' that(2)] idx that(1) by auto
  then have "(l', s') \<noteq> (l, s) \<Longrightarrow> filter (\<lambda>e. te_id e \<noteq> i) (slot_entries w l' s') = slot_entries w l' s'"
    by (auto simp: filter_id_conv)
  then show ?thesis
    using r wheel_inv_shape [OF inv] by (auto simp: cancel_unfold [OF idx] slot_entries_set_slot)
qed

lemma pending_cancel:
  assumes inv: "wheel_inv w"
  shows "mset (pending (snd (timer_cancel w (TimerId i)))) = mset (filter (\<lambda>e. te_id e \<noteq> i) (pending w))"
proof (cases "tw_index w i")
  case None
  then have "filter (\<lambda>e. te_id e \<noteq> i) (pending w) = pending w"
    using unindexed_not_pending [OF inv] by (auto simp: filter_id_conv)
  with None show ?thesis by (simp add: timer_cancel_def)
next
  case (Some ls)
  obtain l s where ls: "ls = (l, s)" by (cases ls)
  let ?P = "\<lambda>e. te_id e \<noteq> i" and ?w' = "snd (timer_cancel w (TimerId i))"
  note idx = Some [unfolded ls] and sh = wheel_inv_shape [OF inv]
  note r = cancel_slot [OF inv idx]
  have sh': "wheel_shape ?w'" using sh by (simp add: cancel_unfold [OF idx])
  have "?P e" if "e \<in> set (pending ?w')" for e
    using that cancel_slot_entries [OF inv idx] by (auto simp: set_pending [OF sh'])
  then have no_i: "filter_mset ?P (mset (pending ?w')) = mset (pending ?w')"
    by (simp add: filter_mset_eq_conv)
  have "mset (pending ?w') + mset (slot_entries w l s)
      = mset (pending w) + mset (filter ?P (slot_entries w l s))"
    using mset_pending_set_slot [of "w\<lparr>tw_index := (tw_index w)(i := None)\<rparr>" l s] sh r
    by (simp add: cancel_unfold [OF idx])
  then have "filter_mset ?P (mset (pending ?w') + mset (slot_entries w l s))
      = filter_mset ?P (mset (pending w) + mset (filter ?P (slot_entries w l s)))"
    by simp
  then show ?thesis using no_i by (simp add: filter_filter_mset)
qed

lemma cancel_result:
  assumes inv: "wheel_inv w"
  shows "fst (timer_cancel w (TimerId i)) \<longleftrightarrow> i \<in> te_id ` set (pending w)"
proof (cases "tw_index w i")
  case None
  then show ?thesis using unindexed_not_pending [OF inv] by (simp add: timer_cancel_def)
next
  case (Some ls)
  obtain l s where ls: "ls = (l, s)" by (cases ls)
  note r = cancel_slot [OF inv Some [unfolded ls]]
  obtain e where e: "e \<in> set (slot_entries w l s)" "te_id e = i" using r(3) by blast
  then have "i \<in> te_id ` set (pending w)"
    using slot_entry_pending [OF wheel_inv_shape [OF inv] r(1,2)] by blast
  moreover have "length (filter (\<lambda>e. te_id e \<noteq> i) (slot_entries w l s)) < length (slot_entries w l s)"
    using e by (intro length_filter_less) auto
  ultimately show ?thesis using Some ls by (simp add: cancel_unfold)
qed

lemma wheel_inv_cancel:
  assumes inv: "wheel_inv w"
  shows "wheel_inv (snd (timer_cancel w (TimerId i)))"
proof (cases "tw_index w i")
  case None
  then show ?thesis using inv by (simp add: timer_cancel_def)
next
  case (Some ls)
  obtain l s where ls: "ls = (l, s)" by (cases ls)
  let ?P = "\<lambda>e. te_id e \<noteq> i" and ?w' = "snd (timer_cancel w (TimerId i))"
  note idx = Some [unfolded ls]
  have frame: "tw_next_id ?w' = tw_next_id w" "tw_index ?w' = (tw_index w)(i := None)"
      "wheel_shape ?w'"
    using wheel_inv_shape [OF inv] by (simp_all add: cancel_unfold [OF idx])
  have sets: "set (pending ?w') = set (filter ?P (pending w))"
    using pending_cancel [OF inv, of i] by (metis set_mset_mset)
  have "mset (map te_id (pending ?w')) = mset (map te_id (filter ?P (pending w)))"
    using pending_cancel [OF inv, of i] by (metis mset_map)
  from mset_eq_imp_distinct_iff [OF this] have "distinct (map te_id (pending ?w'))"
    using inv by (simp add: wheel_inv_with_def distinct_map_filter)
  moreover have "dom (tw_index ?w') \<subseteq> te_id ` set (pending ?w')"
    using wheel_inv_dom [OF inv] by (fastforce simp: frame sets split: if_splits)
  moreover have "tw_index ?w' (te_id e) = Some (l', s')"
    if "l' < LEVELS" "s' < SLOTS" "e \<in> set (slot_entries ?w' l' s')" for l' s' e
    using that cancel_slot_entries [OF inv idx that(1,2)] wheel_inv_index [OF inv that(1,2)]
    by (simp add: frame)
  ultimately show ?thesis
    using wheel_inv_id_bound [OF inv] by (simp add: wheel_inv_with_def frame sets)
qed

lemma all_well_placed_cancel:
  assumes inv: "wheel_inv w" and wp: "all_well_placed w"
  shows "all_well_placed (snd (timer_cancel w (TimerId i)))"
proof (cases "tw_index w i")
  case None
  then show ?thesis using wp by (simp add: timer_cancel_def)
next
  case (Some ls)
  obtain l s where idx: "tw_index w i = Some (l, s)" using Some by (cases ls) auto
  have "well_placed (snd (timer_cancel w (TimerId i))) l' s' e = well_placed w l' s' e" for l' s' e
    by (simp add: cancel_unfold [OF idx] well_placed_def entry_ms_def instant_to_ms_def)
  then show ?thesis
    using wp cancel_slot_entries [OF inv idx] by (simp add: all_well_placed_def)
qed

subsection \<open>Runs of the wheel\<close>

text \<open>
  The wheels that arise from a new one by insertions, cancellations and ticks, where
  \<open>ok t t'\<close> says which advances of the clock (in milliseconds) the executor makes.
\<close>

inductive wheel_run :: "(nat \<Rightarrow> nat \<Rightarrow> bool) \<Rightarrow> timer_wheel \<Rightarrow> bool" for ok where
  run_new: "wheel_run ok (timer_wheel_new origin)"
| run_insert: "wheel_run ok w \<Longrightarrow> wheel_run ok (snd (timer_insert w deadline wk))"
| run_cancel: "wheel_run ok w \<Longrightarrow> wheel_run ok (snd (timer_cancel w i))"
| run_tick: "wheel_run ok w \<Longrightarrow> ok (tw_last_tick_ms w) (instant_to_ms w now)
    \<Longrightarrow> wheel_run ok (fst (timer_tick w now))"

abbreviation any_advance :: "nat \<Rightarrow> nat \<Rightarrow> bool" where
  "any_advance t t' \<equiv> True"

abbreviation each_ms :: "nat \<Rightarrow> nat \<Rightarrow> bool" where
  "each_ms t t' \<equiv> t' \<le> Suc t"

lemma new_slot_entries: "l < LEVELS \<Longrightarrow> s < SLOTS \<Longrightarrow> slot_entries (timer_wheel_new origin) l s = []"
  by (simp add: slot_entries_def timer_wheel_new_def)

lemma new_shape: "wheel_shape (timer_wheel_new origin)"
  by (simp add: wheel_shape_def timer_wheel_new_def)

lemma new_pending: "pending (timer_wheel_new origin) = []"
  by (simp add: pending_def timer_wheel_new_def)

lemma wheel_inv_new: "wheel_inv (timer_wheel_new origin)"
  by (simp add: wheel_inv_with_def new_shape new_pending new_slot_entries)
    (simp add: timer_wheel_new_def)

lemma wheel_run_inv: "wheel_run ok w \<Longrightarrow> wheel_inv w"
proof (induction rule: wheel_run.induct)
  case (run_cancel w i)
  then show ?case by (cases i) (simp add: wheel_inv_cancel)
qed (simp_all add: wheel_inv_new wheel_inv_insert wheel_inv_tick)

lemma wheel_run_well_placed: "wheel_run each_ms w \<Longrightarrow> all_well_placed w"
proof (induction rule: wheel_run.induct)
  case (run_new origin)
  then show ?case by (simp add: all_well_placed_def new_slot_entries)
next
  case (run_insert w deadline wk)
  then show ?case
    by (intro all_well_placed_insert) (auto dest: wheel_run_inv wheel_inv_shape)
next
  case (run_cancel w i)
  then show ?case
    by (cases i) (auto intro: all_well_placed_cancel dest: wheel_run_inv)
next
  case (run_tick w now)
  have sh: "wheel_shape w" using run_tick(1) by (auto dest: wheel_run_inv wheel_inv_shape)
  show ?case
  proof (cases "tw_last_tick_ms w \<le> instant_to_ms w now")
    case True
    then show ?thesis
      using tick_keeps_well_placed [OF sh run_tick(3) True run_tick(2)] by (metis prod.collapse)
  next
    case False
    then show ?thesis using run_tick(3) by (simp add: timer_tick_past)
  qed
qed

subsection \<open>Properties\<close>

text \<open>
  A tick loses no timer and invents none, however far the clock advances: the timers
  pending before it are the fired ones together with those pending after it, each fired
  timer's deadline has been reached at millisecond resolution, and the wakers returned are
  those of the fired timers.
\<close>

theorem tick_loses_no_timer:
  assumes "wheel_run any_advance w" and "timer_tick w now = (w', fired)"
  shows "\<exists>F. fired = map te_waker F
    \<and> mset (pending w) = mset F + mset (pending w')
    \<and> (\<forall>e \<in> set F. instant_to_ms w (te_deadline e) \<le> instant_to_ms w now)"
proof (cases "tw_last_tick_ms w \<le> instant_to_ms w now")
  case True
  have "wheel_shape w" using assms(1) by (auto dest: wheel_run_inv wheel_inv_shape)
  from tick_drained [OF this True assms(2)] obtain F w1
    where "fired = map te_waker F" and "w' = w1\<lparr>tw_last_tick_ms := instant_to_ms w now\<rparr>"
      and "drained_to (instant_to_ms w now)
             (drain_plan (tw_last_tick_ms w) (instant_to_ms w now)) w w1 F" .
  then show ?thesis by (auto simp: drained_to_def entry_ms_def)
next
  case False
  then show ?thesis using assms(2) by (simp add: timer_tick_past)
qed

lemma tick_fires_due:
  assumes "wheel_run each_ms w" and "tw_last_tick_ms w \<le> instant_to_ms w now"
    and "timer_tick w now = (w', fired)"
  shows "mset fired = image_mset te_waker
      {#e \<in># mset (pending w). instant_to_ms w (te_deadline e) \<le> instant_to_ms w now#}
    \<and> mset (pending w') =
      {#e \<in># mset (pending w). instant_to_ms w now < instant_to_ms w (te_deadline e)#}"
proof -
  let ?to = "instant_to_ms w now"
  have sh: "wheel_shape w" and wp: "all_well_placed w"
    using assms(1) by (auto dest: wheel_run_inv wheel_inv_shape wheel_run_well_placed)
  from tick_drained [OF sh assms(2,3)] obtain F w1
    where F: "fired = map te_waker F" and w': "w' = w1\<lparr>tw_last_tick_ms := ?to\<rparr>"
      and d: "drained_to ?to (drain_plan (tw_last_tick_ms w) ?to) w w1 F" .
  have sh': "wheel_shape w'" using d w' by (simp add: drained_to_def)
  have ms: "mset (pending w) = mset F + mset (pending w')" and due: "\<forall>e \<in> set F. entry_ms w e \<le> ?to"
    using d w' by (simp_all add: drained_to_def)
  have later: "?to < entry_ms w e" if "e \<in> set (pending w')" for e
    using that tick_leaves_future [OF sh wp assms(2,3)] by (auto simp: set_pending [OF sh'])
  have F_all: "{#e \<in># mset F. entry_ms w e \<le> ?to#} = mset F" "{#e \<in># mset F. ?to < entry_ms w e#} = {#}"
    using due by (auto simp: filter_mset_eq_conv not_less)
  have rest: "{#e \<in># mset (pending w'). entry_ms w e \<le> ?to#} = {#}"
      "{#e \<in># mset (pending w'). ?to < entry_ms w e#} = mset (pending w')"
    using later by (auto simp: filter_mset_eq_conv not_le)
  have "mset fired = image_mset te_waker
      {#e \<in># mset (pending w). instant_to_ms w (te_deadline e) \<le> ?to#}"
    unfolding ms by (simp add: F F_all rest flip: entry_ms_def)
  moreover have "mset (pending w')
      = {#e \<in># mset (pending w). ?to < instant_to_ms w (te_deadline e)#}"
    unfolding ms by (simp add: F_all rest flip: entry_ms_def)
  ultimately show ?thesis by blast
qed

text \<open>
  C13: While the executor ticks the wheel every millisecond, each tick fires exactly the
  timers whose deadline has come and leaves exactly the others.
\<close>

theorem tick_fires_exactly_due:
  assumes "wheel_run each_ms w" and "tw_last_tick_ms w \<le> instant_to_ms w now"
    and "timer_tick w now = (w', fired)"
  shows "mset fired = image_mset te_waker
      {#e \<in># mset (pending w). instant_to_ms w (te_deadline e) \<le> instant_to_ms w now#}
    \<and> mset (pending w') =
      {#e \<in># mset (pending w). instant_to_ms w now < instant_to_ms w (te_deadline e)#}"
  by (rule tick_fires_due [OF assms])

text \<open>
  Cancelling returns \<open>true\<close> exactly for a pending timer, removes that timer and no
  other, and the index still agrees with the slots.
\<close>

theorem cancel_removes_exactly:
  assumes "wheel_run any_advance w" and "timer_cancel w (TimerId i) = (found, w')"
  shows "(found \<longleftrightarrow> (\<exists>e \<in> set (pending w). te_id e = i))
    \<and> mset (pending w') = {#e \<in># mset (pending w). te_id e \<noteq> i#}
    \<and> wheel_inv w'"
proof -
  have inv: "wheel_inv w" using assms(1) by (rule wheel_run_inv)
  have "found \<longleftrightarrow> (\<exists>e \<in> set (pending w). te_id e = i)"
    using cancel_result [OF inv, of i] assms(2) by auto
  moreover have "mset (pending w') = {#e \<in># mset (pending w). te_id e \<noteq> i#}"
    using pending_cancel [OF inv, of i] assms(2) by simp
  moreover have "wheel_inv w'"
    using wheel_inv_cancel [OF inv, of i] assms(2) by simp
  ultimately show ?thesis by blast
qed

subsection \<open>A concrete run\<close>

text \<open>One timer of 130 ms, registered at time 0.\<close>

definition demo_wheel :: timer_wheel where
  "demo_wheel = snd (timer_insert (timer_wheel_new 0) 130000000 7)"

lemma demo_run: "wheel_run ok demo_wheel"
  unfolding demo_wheel_def by (intro wheel_run.intros)

lemma demo_fields [simp]: "tw_origin demo_wheel = 0" "tw_last_tick_ms demo_wheel = 0"
  by (simp_all add: demo_wheel_def timer_insert_raw) (simp_all add: timer_wheel_new_def)

abbreviation demo_entry :: timer_entry where
  "demo_entry \<equiv> \<lparr>te_id = 1, te_deadline = 130000000, te_waker = 7\<rparr>"

lemma demo_pending: "mset (pending demo_wheel) = {#demo_entry#}"
  using timer_insert_pending [OF new_shape, of 0 130000000 7]
  by (simp add: demo_wheel_def new_pending) (simp add: new_entry_def timer_wheel_new_def)

lemma demo_ms [simp]: "instant_to_ms demo_wheel t = min (t div 1000000) (2 ^ 64 - 1)"
  by (simp add: instant_to_ms_def)

theorem tick_loses_no_timer_witness:
  "\<exists>F. snd (timer_tick demo_wheel 129000000) = map te_waker F
    \<and> {#demo_entry#} = mset F + mset (pending (fst (timer_tick demo_wheel 129000000)))
    \<and> (\<forall>e \<in> set F. instant_to_ms demo_wheel (te_deadline e) \<le> 129)"
proof -
  have eq: "timer_tick demo_wheel 129000000
      = (fst (timer_tick demo_wheel 129000000), snd (timer_tick demo_wheel 129000000))" by simp
  show ?thesis
    using tick_loses_no_timer [OF demo_run eq] by (simp add: demo_pending)
qed

theorem tick_fires_exactly_due_witness:
  "mset (snd (timer_tick demo_wheel 130000000)) = {#7#}
    \<and> pending (fst (timer_tick demo_wheel 130000000)) = []"
proof -
  have le: "tw_last_tick_ms demo_wheel \<le> instant_to_ms demo_wheel 130000000" by simp
  have eq: "timer_tick demo_wheel 130000000
      = (fst (timer_tick demo_wheel 130000000), snd (timer_tick demo_wheel 130000000))" by simp
  show ?thesis
    using tick_fires_exactly_due [OF demo_run le eq] by (simp add: demo_pending)
qed

theorem cancel_removes_exactly_witness:
  "fst (timer_cancel demo_wheel (TimerId 1)) \<and> pending (snd (timer_cancel demo_wheel (TimerId 1))) = []
    \<and> \<not> fst (timer_cancel demo_wheel (TimerId 2))"
proof -
  have eq: "timer_cancel demo_wheel (TimerId i)
      = (fst (timer_cancel demo_wheel (TimerId i)), snd (timer_cancel demo_wheel (TimerId i)))" for i
    by simp
  have "set (pending demo_wheel) = {demo_entry}"
    using demo_pending by (metis set_mset_mset set_mset_single)
  then show ?thesis
    using cancel_removes_exactly [OF demo_run eq [of 1]] cancel_removes_exactly [OF demo_run eq [of 2]]
    by (simp add: demo_pending)
qed

text \<open>The wheel after a tick at 129 ms: the timer is back in the slot it was drained from.\<close>

abbreviation demo_late :: timer_wheel where
  "demo_late \<equiv> fst (timer_tick demo_wheel 129000000)"

lemma demo_place: "place demo_wheel demo_entry = (1, 2)"
  unfolding place_def level_slot_def upt_LEVELS
  by (simp add: entry_ms_def slot_width_ms_def LEVEL0_MS_def SLOTS_def LEVELS_def Let_def)

lemma demo_index: "tw_index demo_wheel 1 = Some (1, 2)"
proof -
  let ?w = "(timer_wheel_new 0)\<lparr>tw_next_id := Suc (tw_next_id (timer_wheel_new 0))\<rparr>"
  have e: "new_entry (timer_wheel_new 0) 130000000 7 = demo_entry"
    by (simp add: new_entry_def timer_wheel_new_def)
  have "place ?w demo_entry = place demo_wheel demo_entry"
    by (rule place_frame) (simp_all add: timer_wheel_new_def)
  then have pl: "place ?w demo_entry = (1, 2)" using demo_place by metis
  have "wheel_shape ?w" using new_shape by simp
  then have "tw_index demo_wheel = (tw_index ?w)(te_id demo_entry \<mapsto> place ?w demo_entry)"
    using insert_raw_slots(3) [of ?w demo_entry]
    unfolding demo_wheel_def timer_insert_raw e snd_conv by blast
  then show ?thesis unfolding pl by simp
qed

lemma demo_late_spec:
  "wheel_run any_advance demo_late" "tw_origin demo_late = 0" "tw_last_tick_ms demo_late = 129"
  "mset (pending demo_late) = {#demo_entry#}" "demo_entry \<in> set (slot_entries demo_late 1 2)"
proof -
  have inv: "wheel_inv demo_wheel" using demo_run by (rule wheel_run_inv)
  have le: "tw_last_tick_ms demo_wheel \<le> instant_to_ms demo_wheel 129000000" by simp
  have at: "instant_to_ms demo_wheel 129000000 = 129" by simp
  obtain F w1 where w1: "demo_late = w1\<lparr>tw_last_tick_ms := 129\<rparr>"
    and d: "drained_to 129 (drain_plan 0 129) demo_wheel w1 F"
    using tick_drained [OF wheel_inv_shape [OF inv] le surjective_pairing, unfolded at demo_fields]
    by blast
  have ms: "{#demo_entry#} = mset F + mset (pending w1)"
    and due: "\<forall>e \<in> set F. entry_ms demo_wheel e \<le> 129"
    using d by (simp_all add: drained_to_def demo_pending)
  have "demo_entry \<notin> set F" using due by (auto simp: entry_ms_def)
  moreover have "set F \<subseteq> {demo_entry}"
    using arg_cong [OF ms, of set_mset] by auto
  ultimately have "F = []" by (cases F) auto
  with ms show "mset (pending demo_late) = {#demo_entry#}" by (simp add: w1)
  have "set (pending w1) = {demo_entry}"
    using ms \<open>F = []\<close> by (metis add_cancel_left_left mset.simps(1) set_mset_mset set_mset_single)
  moreover have "wheel_shape w1" using d by (simp add: drained_to_def)
  ultimately have "demo_entry \<in> (\<Union>l < LEVELS. \<Union>s < SLOTS. set (slot_entries w1 l s))"
    using set_pending by (metis singletonI)
  then obtain l s where ls: "l < LEVELS" "s < SLOTS" "demo_entry \<in> set (slot_entries w1 l s)"
    by blast
  moreover have "(l, s) = (1, 2)"
  proof (cases "demo_entry \<in> set (slot_entries demo_wheel l s)")
    case True
    then show ?thesis using wheel_inv_index [OF inv ls(1,2)] demo_index by fastforce
  next
    case False
    then show ?thesis using d ls(3) demo_place unfolding drained_to_def by metis
  qed
  ultimately show "demo_entry \<in> set (slot_entries demo_late 1 2)" by (simp add: w1)
  show "wheel_run any_advance demo_late" by (intro wheel_run.run_tick demo_run) simp
  show "tw_origin demo_late = 0" "tw_last_tick_ms demo_late = 129"
    using d by (simp_all add: w1 drained_to_def)
qed

lemma demo_plan: "(1, 2) \<notin> set (drain_plan 129 130)"
proof -
  have "boundaries 1 (first_boundary 129 (slot_width_ms 1)) 130 = []"
    by (subst boundaries.simps)
      (simp add: first_boundary_def slot_width_ms_def LEVEL0_MS_def SLOTS_def)
  then show ?thesis by (auto simp: drain_plan_def boundary_slot_def)
qed

text \<open>
  A timer can miss its deadline. Draining places the entries that are not due relative
  to the previous tick, not to the one in progress; an entry can so return to the slot it
  came from, whose boundary then lies in the past. Here a 130 ms timer survives a tick at
  129 ms and is not fired by the tick at 130 ms, although it is pending and due.
\<close>

theorem tick_misses_deadline:
  "wheel_run any_advance demo_late
   \<and> (\<exists>e \<in> set (pending demo_late). te_deadline e = 130000000)
   \<and> instant_to_ms demo_late 130000000 = 130
   \<and> snd (timer_tick demo_late 130000000) = []"
proof -
  note late = demo_late_spec
  have inv: "wheel_inv demo_late" using late(1) by (rule wheel_run_inv)
  have at: "instant_to_ms demo_late 130000000 = 130" by (simp add: instant_to_ms_def late)
  have le: "tw_last_tick_ms demo_late \<le> instant_to_ms demo_late 130000000"
    by (simp add: at late)
  obtain F w1 where F: "snd (timer_tick demo_late 130000000) = map te_waker F"
    and d: "drained_to 130 (drain_plan 129 130) demo_late w1 F"
    using tick_drained [OF wheel_inv_shape [OF inv] le surjective_pairing, unfolded at late(3)]
    by blast
  have "demo_entry \<in> set (slot_entries w1 1 2)"
    using d late(5) demo_plan unfolding drained_to_def by blast
  then have "demo_entry \<in> set (pending w1)"
    using d slot_entry_pending [of w1 1 2] by (simp add: drained_to_def LEVELS_def SLOTS_def)
  moreover have "{#demo_entry#} = mset F + mset (pending w1)"
    using d late(4) by (simp add: drained_to_def)
  ultimately have "F = []"
    using arg_cong [of "{#demo_entry#}" "mset F + mset (pending w1)" size]
    by (cases F; cases "pending w1") auto
  moreover have "demo_entry \<in> set (pending demo_late)"
    using late(4) by (metis set_mset_mset set_mset_single singletonI)
  ultimately show ?thesis using F at late(1) by force
qed

end
