(* ===== verification/H2_Frame.thy ===== *)
theory H2_Frame
  imports Prelude
begin

text \<open>
  HTTP/2 errors and the frame codec
  (\<^verbatim>\<open>moduvex-http/src/protocol/h2/error.rs\<close> and \<^verbatim>\<open>frame.rs\<close>): the nine-byte frame
  header, the ten typed frames with their per-type validation, and the encoder.
  Integers keep their width; the \<^verbatim>\<open>as u32\<close> and \<^verbatim>\<open>as u8\<close> casts truncate.

  What is shown: the encoder and the parser are inverse on every well-formed frame, each
  parser refuses what the protocol forbids, and a parsed frame always respects the size
  and stream-identifier bounds of its type.
\<close>

subsection \<open>Errors\<close>

datatype h2_error_code =
    NoError | ProtocolError | InternalError | FlowControlError | SettingsTimeout
  | StreamClosed | FrameSizeError | RefusedStream | Cancel | CompressionError
  | ConnectError | EnhanceYourCalm | InadequateSecurity | Http11Required

definition error_code_from_u32 :: "u32 \<Rightarrow> h2_error_code" where
  "error_code_from_u32 v =
     (if v = 0x0 then NoError else if v = 0x1 then ProtocolError
      else if v = 0x2 then InternalError else if v = 0x3 then FlowControlError
      else if v = 0x4 then SettingsTimeout else if v = 0x5 then StreamClosed
      else if v = 0x6 then FrameSizeError else if v = 0x7 then RefusedStream
      else if v = 0x8 then Cancel else if v = 0x9 then CompressionError
      else if v = 0xa then ConnectError else if v = 0xb then EnhanceYourCalm
      else if v = 0xc then InadequateSecurity else if v = 0xd then Http11Required
      else ProtocolError)"

text \<open>The discriminant cast \<^verbatim>\<open>code as u32\<close>.\<close>

primrec error_code_u32 :: "h2_error_code \<Rightarrow> u32" where
  "error_code_u32 NoError = 0x0"
| "error_code_u32 ProtocolError = 0x1"
| "error_code_u32 InternalError = 0x2"
| "error_code_u32 FlowControlError = 0x3"
| "error_code_u32 SettingsTimeout = 0x4"
| "error_code_u32 StreamClosed = 0x5"
| "error_code_u32 FrameSizeError = 0x6"
| "error_code_u32 RefusedStream = 0x7"
| "error_code_u32 Cancel = 0x8"
| "error_code_u32 CompressionError = 0x9"
| "error_code_u32 ConnectError = 0xa"
| "error_code_u32 EnhanceYourCalm = 0xb"
| "error_code_u32 InadequateSecurity = 0xc"
| "error_code_u32 Http11Required = 0xd"

record h2_error =
  he_code :: h2_error_code
  he_message :: string
  he_stream_id :: u32

definition connection_error :: "h2_error_code \<Rightarrow> string \<Rightarrow> h2_error" where
  "connection_error code msg = \<lparr>he_code = code, he_message = msg, he_stream_id = 0\<rparr>"

definition stream_error :: "u32 \<Rightarrow> h2_error_code \<Rightarrow> string \<Rightarrow> h2_error" where
  "stream_error sid code msg = \<lparr>he_code = code, he_message = msg, he_stream_id = sid\<rparr>"

type_synonym 'a h2_result = "('a, h2_error) outcome"

subsection \<open>Frame types, flags and settings identifiers\<close>

datatype frame_type =
  TData | THeaders | TPriority | TRstStream | TSettings | TPushPromise | TPing | TGoaway
  | TWindowUpdate | TContinuation

primrec frame_type_u8 :: "frame_type \<Rightarrow> byte" where
  "frame_type_u8 TData = 0x0"
| "frame_type_u8 THeaders = 0x1"
| "frame_type_u8 TPriority = 0x2"
| "frame_type_u8 TRstStream = 0x3"
| "frame_type_u8 TSettings = 0x4"
| "frame_type_u8 TPushPromise = 0x5"
| "frame_type_u8 TPing = 0x6"
| "frame_type_u8 TGoaway = 0x7"
| "frame_type_u8 TWindowUpdate = 0x8"
| "frame_type_u8 TContinuation = 0x9"

definition frame_type_from_u8 :: "byte \<Rightarrow> frame_type option" where
  "frame_type_from_u8 v =
     (if v = 0x0 then Some TData else if v = 0x1 then Some THeaders
      else if v = 0x2 then Some TPriority else if v = 0x3 then Some TRstStream
      else if v = 0x4 then Some TSettings else if v = 0x5 then Some TPushPromise
      else if v = 0x6 then Some TPing else if v = 0x7 then Some TGoaway
      else if v = 0x8 then Some TWindowUpdate else if v = 0x9 then Some TContinuation
      else None)"

definition END_STREAM :: byte where "END_STREAM = 0x1"
definition ACK :: byte where "ACK = 0x1"
definition END_HEADERS :: byte where "END_HEADERS = 0x4"
definition PADDED :: byte where "PADDED = 0x8"
definition PRIORITY_FLAG :: byte where "PRIORITY_FLAG = 0x20"

lemmas flag_defs = END_STREAM_def ACK_def END_HEADERS_def PADDED_def PRIORITY_FLAG_def

definition SETTINGS_HEADER_TABLE_SIZE :: u16 where "SETTINGS_HEADER_TABLE_SIZE = 0x1"
definition SETTINGS_ENABLE_PUSH :: u16 where "SETTINGS_ENABLE_PUSH = 0x2"
definition SETTINGS_MAX_CONCURRENT_STREAMS :: u16 where "SETTINGS_MAX_CONCURRENT_STREAMS = 0x3"
definition SETTINGS_INITIAL_WINDOW_SIZE :: u16 where "SETTINGS_INITIAL_WINDOW_SIZE = 0x4"
definition SETTINGS_MAX_FRAME_SIZE :: u16 where "SETTINGS_MAX_FRAME_SIZE = 0x5"
definition SETTINGS_MAX_HEADER_LIST_SIZE :: u16 where "SETTINGS_MAX_HEADER_LIST_SIZE = 0x6"

subsection \<open>Frame header\<close>

record frame_header =
  fh_length :: u32
  fh_type :: byte
  fh_flags :: byte
  fh_stream_id :: u32

definition parse_frame_header :: "bytes \<Rightarrow> frame_header option" where
  "parse_frame_header buf =
     (if length buf < 9 then None
      else Some
        \<lparr>fh_length = push_bit 16 (ucast (buf ! 0)) OR push_bit 8 (ucast (buf ! 1)) OR ucast (buf ! 2),
         fh_type = buf ! 3,
         fh_flags = buf ! 4,
         fh_stream_id = from_be [buf ! 5, buf ! 6, buf ! 7, buf ! 8] AND 0x7fffffff\<rparr>)"

definition write_header :: "u32 \<Rightarrow> byte \<Rightarrow> byte \<Rightarrow> u32 \<Rightarrow> bytes" where
  "write_header len ty fl sid =
     [ucast (drop_bit 16 len), ucast (drop_bit 8 len), ucast len, ty, fl]
     @ to_be 4 (sid AND 0x7fffffff)"

subsection \<open>Typed frames\<close>

datatype h2_frame =
    FData u32 bool bytes \<comment> \<open>stream, end of stream, payload\<close>
  | FHeaders u32 bool bool bytes \<comment> \<open>stream, end of stream, end of headers, header block\<close>
  | FPriority u32 bool u32 byte \<comment> \<open>stream, exclusive, dependency, weight\<close>
  | FRstStream u32 u32 \<comment> \<open>stream, error code\<close>
  | FSettings bool "(u16 \<times> u32) list" \<comment> \<open>acknowledgement, identifier and value pairs\<close>
  | FPushPromise u32 u32 bytes \<comment> \<open>stream, promised stream, header block\<close>
  | FPing bool bytes \<comment> \<open>acknowledgement, eight bytes of data\<close>
  | FGoaway u32 u32 bytes \<comment> \<open>last stream, error code, debug data\<close>
  | FWindowUpdate u32 u32 \<comment> \<open>stream, increment\<close>
  | FContinuation u32 bool bytes \<comment> \<open>stream, end of headers, header block\<close>

subsection \<open>Parser\<close>

definition strip_padding :: "byte \<Rightarrow> bytes \<Rightarrow> bytes h2_result" where
  "strip_padding fl payload =
     (if fl AND PADDED = 0 then Ok payload
      else if payload = [] then
        Err (connection_error ProtocolError ''PADDED flag but empty payload'')
      else
        let pad_len = unat (payload ! 0); total = 1 + pad_len in
        if total > length payload then
          Err (connection_error ProtocolError ''padding exceeds payload length'')
        else Ok (take (length payload - pad_len - 1) (drop 1 payload)))"

definition parse_data :: "u32 \<Rightarrow> byte \<Rightarrow> bytes \<Rightarrow> h2_frame h2_result" where
  "parse_data sid fl payload =
     (if sid = 0 then Err (connection_error ProtocolError ''DATA on stream 0'')
      else bind_outcome (strip_padding fl payload) (\<lambda>body.
        Ok (FData sid (fl AND END_STREAM \<noteq> 0) body)))"

definition parse_headers :: "u32 \<Rightarrow> byte \<Rightarrow> bytes \<Rightarrow> h2_frame h2_result" where
  "parse_headers sid fl payload =
     (if sid = 0 then Err (connection_error ProtocolError ''HEADERS on stream 0'')
      else bind_outcome (strip_padding fl payload) (\<lambda>data.
        if fl AND PRIORITY_FLAG \<noteq> 0 \<and> length data < 5 then
          Err (connection_error FrameSizeError ''HEADERS priority underflow'')
        else
          let data' = (if fl AND PRIORITY_FLAG \<noteq> 0 then drop 5 data else data) in
          Ok (FHeaders sid (fl AND END_STREAM \<noteq> 0) (fl AND END_HEADERS \<noteq> 0) data')))"

definition parse_priority :: "u32 \<Rightarrow> bytes \<Rightarrow> h2_frame h2_result" where
  "parse_priority sid payload =
     (if length payload \<noteq> 5 then
        Err (stream_error sid FrameSizeError ''PRIORITY must be 5 bytes'')
      else
        let raw = from_be (take 4 payload) :: u32 in
        Ok (FPriority sid (raw AND 0x80000000 \<noteq> 0) (raw AND 0x7fffffff) (payload ! 4)))"

definition parse_rst_stream :: "u32 \<Rightarrow> bytes \<Rightarrow> h2_frame h2_result" where
  "parse_rst_stream sid payload =
     (if length payload \<noteq> 4 then
        Err (connection_error FrameSizeError ''RST_STREAM must be 4 bytes'')
      else Ok (FRstStream sid (from_be payload)))"

text \<open>The \<^verbatim>\<open>while pos + 6 <= payload.len()\<close> loop over the settings entries.\<close>

fun parse_settings_values :: "bytes \<Rightarrow> (u16 \<times> u32) list" where
  "parse_settings_values (a # b # c # d # e # f # rest) =
     (from_be [a, b], from_be [c, d, e, f]) # parse_settings_values rest"
| "parse_settings_values _ = []"

definition parse_settings :: "byte \<Rightarrow> bytes \<Rightarrow> h2_frame h2_result" where
  "parse_settings fl payload =
     (let ack = (fl AND ACK \<noteq> 0) in
      if ack \<and> payload \<noteq> [] then
        Err (connection_error FrameSizeError ''SETTINGS ACK must be empty'')
      else if length payload mod 6 \<noteq> 0 then
        Err (connection_error FrameSizeError ''SETTINGS length not multiple of 6'')
      else Ok (FSettings ack (parse_settings_values payload)))"

definition parse_push_promise :: "u32 \<Rightarrow> byte \<Rightarrow> bytes \<Rightarrow> h2_frame h2_result" where
  "parse_push_promise sid fl payload =
     (if sid = 0 then Err (connection_error ProtocolError ''PUSH_PROMISE on stream 0'')
      else bind_outcome (strip_padding fl payload) (\<lambda>data.
        if length data < 4 then
          Err (connection_error FrameSizeError ''PUSH_PROMISE too short'')
        else Ok (FPushPromise sid (from_be (take 4 data) AND 0x7fffffff) (drop 4 data))))"

definition parse_ping :: "byte \<Rightarrow> bytes \<Rightarrow> h2_frame h2_result" where
  "parse_ping fl payload =
     (if length payload \<noteq> 8 then Err (connection_error FrameSizeError ''PING must be 8 bytes'')
      else Ok (FPing (fl AND ACK \<noteq> 0) payload))"

definition parse_goaway :: "u32 \<Rightarrow> bytes \<Rightarrow> h2_frame h2_result" where
  "parse_goaway sid payload =
     (if sid \<noteq> 0 then Err (connection_error ProtocolError ''GOAWAY must use stream 0'')
      else if length payload < 8 then Err (connection_error FrameSizeError ''GOAWAY too short'')
      else Ok (FGoaway (from_be (take 4 payload) AND 0x7fffffff)
                 (from_be (take 4 (drop 4 payload))) (drop 8 payload)))"

definition parse_window_update :: "u32 \<Rightarrow> bytes \<Rightarrow> h2_frame h2_result" where
  "parse_window_update sid payload =
     (if length payload \<noteq> 4 then
        Err (connection_error FrameSizeError ''WINDOW_UPDATE must be 4 bytes'')
      else
        let increment = from_be payload AND 0x7fffffff in
        if increment = 0 then
          Err (if sid = 0
               then connection_error ProtocolError ''WINDOW_UPDATE increment must be > 0''
               else stream_error sid ProtocolError ''WINDOW_UPDATE increment must be > 0'')
        else Ok (FWindowUpdate sid increment))"

definition parse_continuation :: "u32 \<Rightarrow> byte \<Rightarrow> bytes \<Rightarrow> h2_frame h2_result" where
  "parse_continuation sid fl payload =
     (if sid = 0 then Err (connection_error ProtocolError ''CONTINUATION on stream 0'')
      else Ok (FContinuation sid (fl AND END_HEADERS \<noteq> 0) payload))"

definition parse_frame :: "frame_header \<Rightarrow> bytes \<Rightarrow> h2_frame h2_result" where
  "parse_frame header payload =
     (let sid = fh_stream_id header; fl = fh_flags header in
      case frame_type_from_u8 (fh_type header) of
        Some TData \<Rightarrow> parse_data sid fl payload
      | Some THeaders \<Rightarrow> parse_headers sid fl payload
      | Some TPriority \<Rightarrow> parse_priority sid payload
      | Some TRstStream \<Rightarrow> parse_rst_stream sid payload
      | Some TSettings \<Rightarrow> parse_settings fl payload
      | Some TPushPromise \<Rightarrow> parse_push_promise sid fl payload
      | Some TPing \<Rightarrow> parse_ping fl payload
      | Some TGoaway \<Rightarrow> parse_goaway sid payload
      | Some TWindowUpdate \<Rightarrow> parse_window_update sid payload
      | Some TContinuation \<Rightarrow> parse_continuation sid fl payload
      | None \<Rightarrow> Ok (FData sid False payload))"

subsection \<open>Encoder\<close>

definition encode_settings_values :: "(u16 \<times> u32) list \<Rightarrow> bytes" where
  "encode_settings_values values = concat (map (\<lambda>(i, v). to_be 2 i @ to_be 4 v) values)"

text \<open>The bytes that \<^verbatim>\<open>encode_frame\<close> appends to its output buffer.\<close>

fun h2_encode_frame :: "h2_frame \<Rightarrow> bytes" where
  "h2_encode_frame (FData sid end_stream payload) =
     write_header (of_nat (length payload)) (frame_type_u8 TData)
       (if end_stream then END_STREAM else 0) sid @ payload"
| "h2_encode_frame (FHeaders sid end_stream end_headers block) =
     write_header (of_nat (length block)) (frame_type_u8 THeaders)
       ((if end_stream then END_STREAM else 0) OR (if end_headers then END_HEADERS else 0)) sid
     @ block"
| "h2_encode_frame (FPriority sid exclusive dependency weight) =
     write_header 5 (frame_type_u8 TPriority) 0 sid
     @ to_be 4 (if exclusive then dependency OR 0x80000000 else dependency) @ [weight]"
| "h2_encode_frame (FRstStream sid code) =
     write_header 4 (frame_type_u8 TRstStream) 0 sid @ to_be 4 code"
| "h2_encode_frame (FSettings ack values) =
     write_header (of_nat (length values) * 6) (frame_type_u8 TSettings) (if ack then ACK else 0) 0
     @ encode_settings_values values"
| "h2_encode_frame (FPushPromise sid promised block) =
     write_header (4 + of_nat (length block)) (frame_type_u8 TPushPromise) END_HEADERS sid
     @ to_be 4 (promised AND 0x7fffffff) @ block"
| "h2_encode_frame (FPing ack data) =
     write_header 8 (frame_type_u8 TPing) (if ack then ACK else 0) 0 @ data"
| "h2_encode_frame (FGoaway last_id code debug) =
     write_header (8 + of_nat (length debug)) (frame_type_u8 TGoaway) 0 0
     @ to_be 4 (last_id AND 0x7fffffff) @ to_be 4 code @ debug"
| "h2_encode_frame (FWindowUpdate sid increment) =
     write_header 4 (frame_type_u8 TWindowUpdate) 0 sid @ to_be 4 (increment AND 0x7fffffff)"
| "h2_encode_frame (FContinuation sid end_headers block) =
     write_header (of_nat (length block)) (frame_type_u8 TContinuation)
       (if end_headers then END_HEADERS else 0) sid @ block"

subsection \<open>Headers round-trip\<close>

lemma length_write_header [simp]: "length (write_header len ty fl sid) = 9"
  by (simp add: write_header_def)

lemma and_mask31: "unat (w :: u32) < 2 ^ 31 \<Longrightarrow> w AND 0x7fffffff = w"
proof -
  assume "unat w < 2 ^ 31"
  then have "take_bit 31 w = w"
    by (simp add: word_unat_eq_iff unsigned_take_bit_eq take_bit_nat_eq_self)
  then show ?thesis by (simp add: take_bit_eq_mask mask_eq_exp_minus_1)
qed

lemma unat_and_mask31: "unat ((w :: u32) AND 0x7fffffff) < 2 ^ 31"
proof -
  have "w AND 0x7fffffff = take_bit 31 w" by (simp add: take_bit_eq_mask mask_eq_exp_minus_1)
  then show ?thesis
    using take_bit_nat_less_exp [of 31 "unat w"] by (simp add: unsigned_take_bit_eq)
qed

lemma length24_roundtrip:
  assumes "unat (len :: u32) < 2 ^ 24"
  shows "push_bit 16 (ucast (ucast (drop_bit 16 len) :: byte))
     OR push_bit 8 (ucast (ucast (drop_bit 8 len) :: byte)) OR ucast (ucast len :: byte) = len"
proof -
  have "take_bit 24 len = len"
    using assms by (simp add: word_unat_eq_iff unsigned_take_bit_eq take_bit_nat_eq_self)
  then have "from_be (to_be 3 len) = len" by (simp add: from_be_to_be)
  moreover have "to_be 3 len = [ucast (drop_bit 16 len), ucast (drop_bit 8 len), ucast len]"
    by (simp add: numeral_eq_Suc)
  ultimately show ?thesis
    by (simp add: from_be_def push_bit_or or.assoc)
qed

lemma parse_write_header:
  assumes "unat len < 2 ^ 24" and "unat sid < 2 ^ 31"
  shows "parse_frame_header (write_header len ty fl sid @ rest)
     = Some \<lparr>fh_length = len, fh_type = ty, fh_flags = fl, fh_stream_id = sid\<rparr>"
proof -
  note m = and_mask31 [OF assms(2)]
  obtain a b c d where be: "to_be 4 sid = [a, b, c, d]"
    by (auto simp: numeral_eq_Suc)
  have "from_be [a, b, c, d] = sid"
    using from_be_to_be_full(2) [of sid] be by simp
  then show ?thesis
    using assms by (simp add: parse_frame_header_def write_header_def be m length24_roundtrip)
qed

subsection \<open>Frames round-trip\<close>

text \<open>
  The frames an HTTP/2 endpoint may put on the wire: identifiers below \<open>2 ^ 31\<close>, the
  stream identifier zero or non-zero as the type demands, a payload below \<open>2 ^ 24\<close> bytes.
\<close>

definition sid31 :: "u32 \<Rightarrow> bool" where
  "sid31 w \<longleftrightarrow> unat w < 2 ^ 31"

fun wf_frame :: "h2_frame \<Rightarrow> bool" where
  "wf_frame (FData sid es p) \<longleftrightarrow> sid \<noteq> 0 \<and> sid31 sid \<and> length p < 2 ^ 24"
| "wf_frame (FHeaders sid es eh b) \<longleftrightarrow> sid \<noteq> 0 \<and> sid31 sid \<and> length b < 2 ^ 24"
| "wf_frame (FPriority sid ex dep wt) \<longleftrightarrow> sid31 sid \<and> sid31 dep"
| "wf_frame (FRstStream sid c) \<longleftrightarrow> sid31 sid"
| "wf_frame (FSettings ack vs) \<longleftrightarrow> (ack \<longrightarrow> vs = []) \<and> length vs * 6 < 2 ^ 24"
| "wf_frame (FPushPromise sid pid b) \<longleftrightarrow> sid \<noteq> 0 \<and> sid31 sid \<and> sid31 pid \<and> 4 + length b < 2 ^ 24"
| "wf_frame (FPing ack d) \<longleftrightarrow> length d = 8"
| "wf_frame (FGoaway lid c d) \<longleftrightarrow> sid31 lid \<and> 8 + length d < 2 ^ 24"
| "wf_frame (FWindowUpdate sid inc) \<longleftrightarrow> sid31 sid \<and> sid31 inc \<and> inc \<noteq> 0"
| "wf_frame (FContinuation sid eh b) \<longleftrightarrow> sid \<noteq> 0 \<and> sid31 sid \<and> length b < 2 ^ 24"

lemma unat_of_nat24 [simp]: "n < 2 ^ 24 \<Longrightarrow> unat (of_nat n :: u32) = n"
  by (simp add: unat_of_nat)

lemma frame_type_roundtrip [simp]: "frame_type_from_u8 (frame_type_u8 t) = Some t"
  by (cases t) (simp_all add: frame_type_from_u8_def)

lemma length_encode_settings_values [simp]:
  "length (encode_settings_values vs) = 6 * length vs"
  by (induction vs) (auto simp: encode_settings_values_def)

lemma encode_settings_values_Nil [simp]: "encode_settings_values [] = []"
  by (simp add: encode_settings_values_def)

lemma parse_encode_settings_values: "parse_settings_values (encode_settings_values vs) = vs"
proof (induction vs)
  case Nil
  then show ?case by (simp add: encode_settings_values_def)
next
  case (Cons iv vs)
  obtain i v where iv: "iv = (i, v)" by (cases iv)
  obtain a b where ab: "to_be 2 i = [a, b]" by (auto simp: numeral_eq_Suc)
  obtain c d e f where cf: "to_be 4 v = [c, d, e, f]" by (auto simp: numeral_eq_Suc)
  have "from_be [a, b] = i" using from_be_to_be_full(1) [of i] ab by simp
  moreover have "from_be [c, d, e, f] = v" using from_be_to_be_full(2) [of v] cf by simp
  ultimately show ?case
    using Cons.IH by (simp add: encode_settings_values_def iv ab cf)
qed

lemma bit_top: "bit (0x80000000 :: u32) n \<longleftrightarrow> n = 31"
proof -
  have "bit (2 ^ 31 :: u32) n \<longleftrightarrow> n = 31"
    unfolding bit_exp_iff by (auto simp: bit_simps)
  then show ?thesis by simp
qed

lemma bit_low31: "bit (0x7fffffff :: u32) n \<longleftrightarrow> n < 31"
proof -
  have "bit (mask 31 :: u32) n \<longleftrightarrow> n < 31"
    unfolding bit_mask_iff by (auto simp: bit_simps)
  then show ?thesis by (simp add: mask_eq_exp_minus_1)
qed

lemma sid31_top: "sid31 w \<Longrightarrow> \<not> bit w 31"
proof -
  assume "sid31 w"
  then have "\<not> bit (unat w) 31" by (simp add: sid31_def bit_iff_odd)
  then show ?thesis by (simp add: bit_unsigned_iff)
qed

lemma or_top_bit:
  assumes "sid31 w"
  shows "(w OR 0x80000000) AND 0x80000000 \<noteq> 0" and "(w OR 0x80000000) AND 0x7fffffff = w"
    and "w AND 0x80000000 = 0" and "w AND 0x7fffffff = w"
proof -
  note low = sid31_top [OF assms]
  show "w AND 0x7fffffff = w" using assms by (simp add: sid31_def and_mask31)
  show "(w OR 0x80000000) AND 0x80000000 \<noteq> 0"
    by (rule notI, drule arg_cong [of _ _ "\<lambda>x. bit x 31"]) (simp add: bit_and_iff bit_or_iff bit_top)
  show "w AND 0x80000000 = 0"
  proof (rule bit_word_eqI)
    fix n
    show "bit (w AND 0x80000000) n = bit (0 :: u32) n"
      unfolding bit_and_iff bit_top using low by auto
  qed
  show "(w OR 0x80000000) AND 0x7fffffff = w"
  proof (rule bit_word_eqI)
    fix n
    assume "n < LENGTH(32)"
    then have "n < 31 \<or> n = 31" by auto
    then show "bit ((w OR 0x80000000) AND 0x7fffffff) n = bit w n"
      unfolding bit_and_iff bit_or_iff bit_top bit_low31 using low by auto
  qed
qed

text \<open>Split off the header: what remains is the payload parser of the frame's type.\<close>

definition frame_roundtrips :: "h2_frame \<Rightarrow> bool" where
  "frame_roundtrips f \<longleftrightarrow>
     (\<exists>h. \<forall>rest. parse_frame_header (h2_encode_frame f @ rest) = Some h
        \<and> 9 + unat (fh_length h) = length (h2_encode_frame f)
        \<and> parse_frame h (drop 9 (h2_encode_frame f)) = Ok f)"

lemma frame_roundtripsI:
  assumes "h2_encode_frame f = write_header len ty fl sid @ payload"
    and "unat len < 2 ^ 24" and "unat sid < 2 ^ 31" and "unat len = length payload"
    and "parse_frame \<lparr>fh_length = len, fh_type = ty, fh_flags = fl, fh_stream_id = sid\<rparr> payload = Ok f"
  shows "frame_roundtrips f"
  using assms parse_write_header [OF assms(2,3), of ty fl] by (auto simp: frame_roundtrips_def)

lemma sid31_0 [simp]: "sid31 0"
  by (simp add: sid31_def)

lemma settings_length:
  "length vs * 6 < 2 ^ 24 \<Longrightarrow> unat (of_nat (length vs) * 6 :: u32) = 6 * length vs"
  using unat_of_nat24 [of "length vs * 6"] by (simp add: ac_simps)

lemma plus_length:
  "k + n < 2 ^ 24 \<Longrightarrow> unat (of_nat k + of_nat n :: u32) = k + n"
  using unat_of_nat24 [of "k + n"] by simp

lemma take_to_be [simp]: "take n (to_be n w @ xs) = to_be n w"
  by simp

lemma drop_to_be [simp]: "drop n (to_be n w @ xs) = xs"
  by simp

lemma frame_roundtrips_wf:
  assumes "wf_frame f"
  shows "frame_roundtrips f"
proof (cases f)
  case (FData sid es p)
  with assms show ?thesis
    by (intro frame_roundtripsI [OF h2_encode_frame.simps(1) [of sid es p, folded FData]])
      (auto simp: parse_frame_def frame_type_from_u8_def parse_data_def strip_padding_def sid31_def flag_defs)
next
  case (FHeaders sid es eh b)
  with assms show ?thesis
    by (intro frame_roundtripsI [OF h2_encode_frame.simps(2) [of sid es eh b, folded FHeaders]])
      (auto simp: parse_frame_def frame_type_from_u8_def parse_headers_def strip_padding_def sid31_def flag_defs)
next
  case (FPriority sid ex dep wt)
  with assms show ?thesis
    by (intro frame_roundtripsI [OF h2_encode_frame.simps(3) [of sid ex dep wt, folded FPriority]])
      (auto simp: parse_frame_def frame_type_from_u8_def parse_priority_def sid31_def nth_append or_top_bit [unfolded sid31_def])
next
  case (FRstStream sid c)
  with assms show ?thesis
    by (intro frame_roundtripsI [OF h2_encode_frame.simps(4) [of sid c, folded FRstStream]])
      (auto simp: parse_frame_def frame_type_from_u8_def parse_rst_stream_def sid31_def)
next
  case (FSettings ack vs)
  with assms show ?thesis
    by (intro frame_roundtripsI [OF h2_encode_frame.simps(5) [of ack vs, folded FSettings]])
      (auto simp: parse_frame_def frame_type_from_u8_def parse_settings_def settings_length parse_encode_settings_values
        flag_defs)
next
  case (FPushPromise sid pid b)
  with assms show ?thesis
    by (intro frame_roundtripsI [OF h2_encode_frame.simps(6) [of sid pid b, folded FPushPromise]])
      (auto simp: parse_frame_def frame_type_from_u8_def parse_push_promise_def strip_padding_def sid31_def and_mask31
        flag_defs plus_length [of 4, simplified])
next
  case (FPing ack d)
  with assms show ?thesis
    by (intro frame_roundtripsI [OF h2_encode_frame.simps(7) [of ack d, folded FPing]])
      (auto simp: parse_frame_def frame_type_from_u8_def parse_ping_def flag_defs)
next
  case (FGoaway lid c d)
  with assms show ?thesis
    by (intro frame_roundtripsI [OF h2_encode_frame.simps(8) [of lid c d, folded FGoaway]])
      (auto simp: parse_frame_def frame_type_from_u8_def parse_goaway_def sid31_def and_mask31 plus_length [of 8, simplified])
next
  case (FWindowUpdate sid inc)
  with assms show ?thesis
    by (intro frame_roundtripsI [OF h2_encode_frame.simps(9) [of sid inc, folded FWindowUpdate]])
      (auto simp: parse_frame_def frame_type_from_u8_def parse_window_update_def sid31_def and_mask31)
next
  case (FContinuation sid eh b)
  with assms show ?thesis
    by (intro frame_roundtripsI [OF h2_encode_frame.simps(10) [of sid eh b, folded FContinuation]])
      (auto simp: parse_frame_def frame_type_from_u8_def parse_continuation_def sid31_def flag_defs)
qed

text \<open>
  C11: Encoding and parsing HTTP/2 frames are inverse: for every well-formed frame, whatever
  follows it on the wire, the header parser finds the length of the payload and the frame
  parser gives the frame back.
\<close>

theorem h2_frame_roundtrip:
  assumes "wf_frame f"
  shows "\<exists>h. parse_frame_header (h2_encode_frame f @ rest) = Some h
    \<and> 9 + unat (fh_length h) = length (h2_encode_frame f)
    \<and> parse_frame h (take (unat (fh_length h)) (drop 9 (h2_encode_frame f @ rest))) = Ok f"
proof -
  from frame_roundtrips_wf [OF assms] obtain h
    where "parse_frame_header (h2_encode_frame f @ rest) = Some h"
    and len: "9 + unat (fh_length h) = length (h2_encode_frame f)"
    and "parse_frame h (drop 9 (h2_encode_frame f)) = Ok f"
    unfolding frame_roundtrips_def by blast
  moreover have "take (unat (fh_length h)) (drop 9 (h2_encode_frame f @ rest)) = drop 9 (h2_encode_frame f)"
    using len by simp
  ultimately show ?thesis using len by auto
qed

theorem h2_frame_roundtrip_witness:
  "\<exists>h. parse_frame_header (h2_encode_frame (FHeaders 3 True False [130, 134]) @ [1, 2, 3]) = Some h
    \<and> 9 + unat (fh_length h) = 11
    \<and> parse_frame h [130, 134] = Ok (FHeaders 3 True False [130, 134])"
  using h2_frame_roundtrip [of "FHeaders 3 True False [130, 134]" "[1, 2, 3]"]
  by (auto simp: sid31_def)

subsection \<open>What the parser lets through\<close>

lemma strip_padding_length: "strip_padding fl p = Ok b \<Longrightarrow> length b \<le> length p"
  by (auto simp: strip_padding_def Let_def split: if_splits)

lemma length_parse_settings_values: "length (parse_settings_values p) = length p div 6"
  by (induction p rule: parse_settings_values.induct) simp_all

lemma length24_bound:
  "unat (push_bit 16 (ucast (a :: byte)) OR push_bit 8 (ucast (b :: byte)) OR ucast (c :: byte) :: u32) < 2 ^ 24"
proof -
  let ?w = "from_be [a, b, c] :: u32"
  have "take_bit 24 ?w = ?w"
    using bit_from_be_bound [of "[a, b, c]"] by (intro bit_word_eqI) (auto simp: bit_simps)
  then have "unat ?w < 2 ^ 24"
    using take_bit_nat_less_exp [of 24 "unat ?w"] by (metis unsigned_take_bit_eq)
  then show ?thesis by (simp add: from_be_def push_bit_or or.assoc)
qed

lemma parse_frame_header_bounds:
  assumes "parse_frame_header buf = Some h"
  shows "unat (fh_length h) < 2 ^ 24" and "sid31 (fh_stream_id h)"
  using assms length24_bound unat_and_mask31
  by (auto simp: parse_frame_header_def sid31_def split: if_splits)

lemma sid31_masked [simp]: "sid31 (x AND 0x7fffffff)"
  using unat_and_mask31 [of x] by (simp add: sid31_def)

lemma payload_parsers_wf:
  assumes len: "length p < 2 ^ 24" and sid: "sid31 sid"
  shows "parse_data sid fl p = Ok f \<Longrightarrow> wf_frame f"
    and "parse_headers sid fl p = Ok f \<Longrightarrow> wf_frame f"
    and "parse_priority sid p = Ok f \<Longrightarrow> wf_frame f"
    and "parse_rst_stream sid p = Ok f \<Longrightarrow> wf_frame f"
    and "parse_settings fl p = Ok f \<Longrightarrow> wf_frame f"
    and "parse_push_promise sid fl p = Ok f \<Longrightarrow> wf_frame f"
    and "parse_ping fl p = Ok f \<Longrightarrow> wf_frame f"
    and "parse_goaway sid p = Ok f \<Longrightarrow> wf_frame f"
    and "parse_window_update sid p = Ok f \<Longrightarrow> wf_frame f"
    and "parse_continuation sid fl p = Ok f \<Longrightarrow> wf_frame f"
proof -
  have strip: "length b < 16777216" if "strip_padding fl p = Ok b" for b
    using strip_padding_length [OF that] len by simp
  show "parse_data sid fl p = Ok f \<Longrightarrow> wf_frame f"
    using sid by (auto simp: parse_data_def outcome_simps strip split: if_splits)
  show "parse_headers sid fl p = Ok f \<Longrightarrow> wf_frame f"
    using sid strip by (fastforce simp: parse_headers_def outcome_simps Let_def split: if_splits)
  show "parse_push_promise sid fl p = Ok f \<Longrightarrow> wf_frame f"
    using sid strip by (fastforce simp: parse_push_promise_def outcome_simps split: if_splits)
  show "parse_priority sid p = Ok f \<Longrightarrow> wf_frame f"
    using sid by (auto simp: parse_priority_def Let_def split: if_splits)
  show "parse_rst_stream sid p = Ok f \<Longrightarrow> wf_frame f"
    using sid by (auto simp: parse_rst_stream_def split: if_splits)
  show "parse_settings fl p = Ok f \<Longrightarrow> wf_frame f"
    using len by (auto simp: parse_settings_def Let_def length_parse_settings_values split: if_splits)
  show "parse_ping fl p = Ok f \<Longrightarrow> wf_frame f"
    by (auto simp: parse_ping_def split: if_splits)
  show "parse_goaway sid p = Ok f \<Longrightarrow> wf_frame f"
    using len by (auto simp: parse_goaway_def split: if_splits)
  show "parse_window_update sid p = Ok f \<Longrightarrow> wf_frame f"
    using sid by (auto simp: parse_window_update_def Let_def split: if_splits)
  show "parse_continuation sid fl p = Ok f \<Longrightarrow> wf_frame f"
    using sid len by (auto simp: parse_continuation_def split: if_splits)
qed

text \<open>
  The parser lets only well-formed frames through: a frame of a known type that it
  accepts, read under a parsed header with a payload of the announced length, has the stream
  identifier its type demands, identifiers below \<open>2 ^ 31\<close>, a non-zero window increment, an
  empty SETTINGS acknowledgement and a payload below \<open>2 ^ 24\<close> bytes.
\<close>

theorem parse_frame_wf:
  assumes "parse_frame_header buf = Some h" and "length payload = unat (fh_length h)"
    and "frame_type_from_u8 (fh_type h) \<noteq> None" and "parse_frame h payload = Ok f"
  shows "wf_frame f"
proof -
  obtain ty where ty: "frame_type_from_u8 (fh_type h) = Some ty" using assms(3) by blast
  have len: "length payload < 2 ^ 24" and sid: "sid31 (fh_stream_id h)"
    using parse_frame_header_bounds [OF assms(1)] assms(2) by simp_all
  show ?thesis
    using assms(4) payload_parsers_wf [OF len sid] by (cases ty) (simp_all add: parse_frame_def ty)
qed

theorem parse_frame_wf_witness: "wf_frame (FPing True [1, 2, 3, 4, 5, 6, 7, 8])"
proof -
  let ?h = "\<lparr>fh_length = 8, fh_type = 6, fh_flags = 1, fh_stream_id = 0\<rparr>"
  have "parse_frame_header [0, 0, 8, 6, 1, 0, 0, 0, 0] = Some ?h"
    by (simp add: parse_frame_header_def from_be_def)
  moreover have "parse_frame ?h [1, 2, 3, 4, 5, 6, 7, 8] = Ok (FPing True [1, 2, 3, 4, 5, 6, 7, 8])"
    by (simp add: parse_frame_def frame_type_from_u8_def parse_ping_def ACK_def)
  ultimately show ?thesis
    by (intro parse_frame_wf [of "[0, 0, 8, 6, 1, 0, 0, 0, 0]" ?h "[1, 2, 3, 4, 5, 6, 7, 8]"])
      (simp_all add: frame_type_from_u8_def)
qed

text \<open>
  A frame of an unknown type is not ignored: it is handed on as a DATA frame of its
  stream, payload included.
\<close>

theorem unknown_frame_becomes_data:
  assumes "unat (fh_type h) > 9"
  shows "parse_frame h payload = Ok (FData (fh_stream_id h) False payload)"
proof -
  have "fh_type h \<noteq> of_nat n" if "n \<le> 9" for n
    using assms that by (auto simp: unat_of_nat)
  from this [of 0] this [of 1] this [of 2] this [of 3] this [of 4] this [of 5] this [of 6]
    this [of 7] this [of 8] this [of 9]
  show ?thesis by (simp add: parse_frame_def frame_type_from_u8_def)
qed

theorem unknown_frame_becomes_data_witness:
  "parse_frame \<lparr>fh_length = 2, fh_type = 0xbe, fh_flags = 0, fh_stream_id = 1\<rparr> [7, 7]
    = Ok (FData 1 False [7, 7])"
  using unknown_frame_becomes_data [of "\<lparr>fh_length = 2, fh_type = 0xbe, fh_flags = 0, fh_stream_id = 1\<rparr>"]
  by simp

end
