(* ===== verification/Framing.thy ===== *)
theory Framing
  imports Prelude "HOL-Library.Sublist"
begin

text \<open>
  The interfaces of the wire formats. Huffman codes, HPACK integers and strings and WebSocket
  frames are decoded from a buffer, HTTP/2 frames and PostgreSQL messages are read from a
  connection; all of them are self-delimiting. The locales state what an encoder and its
  decoder promise each other, and derive that the bytes of a sequence determine it and that
  reading the sequence gives it back. They are interpreted in the theories of the codecs.
\<close>

subsection \<open>Prefix codes\<close>

locale prefix_code =
  fixes code :: "'s \<Rightarrow> 'b list" and S :: "'s set"
  assumes code_nonempty: "s \<in> S \<Longrightarrow> code s \<noteq> []"
    and prefix_free: "s \<in> S \<Longrightarrow> t \<in> S \<Longrightarrow> prefix (code s) (code t) \<Longrightarrow> s = t"
begin

lemma head_unique:
  assumes "s \<in> S" and "t \<in> S" and "code s @ u = code t @ v"
  shows "s = t"
proof -
  have "prefix (code s) (code t @ v)" using assms(3) by (metis prefixI)
  then have "prefix (code s) (code t) \<or> prefix (code t) (code s)"
    by (meson prefixI prefix_same_cases)
  then show ?thesis using assms(1,2) prefix_free by blast
qed

text \<open>
  A stream that begins with the codes of \<open>ys\<close>, goes on with an incomplete code \<open>r\<close>, and is
  as a whole the encoding of \<open>xs\<close> with a padding that holds no code: \<open>ys\<close> is an initial part
  of \<open>xs\<close> and \<open>r\<close> is shorter than the next code, or all of \<open>xs\<close> was read.
\<close>

lemma unique_parse:
  assumes "set ys \<subseteq> S" and "set xs \<subseteq> S"
    and r: "\<And>s. s \<in> S \<Longrightarrow> \<not> prefix (code s) r"
    and pad: "\<And>s. s \<in> S \<Longrightarrow> \<not> prefix (code s) pad"
    and eq: "concat (map code ys) @ r @ rem = concat (map code xs) @ pad"
  shows "(\<exists>z zs. xs = ys @ z # zs \<and> length r < length (code z)) \<or> xs = ys \<and> r @ rem = pad"
  using assms(1,2) eq
proof (induction ys arbitrary: xs)
  case Nil
  show ?case
  proof (cases xs)
    case (Cons z zs)
    have "length r < length (code z)"
    proof (rule ccontr)
      assume "\<not> length r < length (code z)"
      moreover have "prefix (code z) (r @ rem)"
        using Nil.prems(3) Cons by (intro prefixI [of _ _ "concat (map code zs) @ pad"]) simp
      moreover have "prefix r (r @ rem)" by simp
      ultimately have "prefix (code z) r" by (meson leI prefix_length_prefix)
      then show False using r Nil.prems(2) Cons by simp
    qed
    then show ?thesis using Cons by simp
  qed (use Nil in simp)
next
  case (Cons y ys)
  show ?case
  proof (cases xs)
    case Nil
    then have "prefix (code y) pad"
      using Cons.prems(3) by (intro prefixI [of _ _ "concat (map code ys) @ r @ rem"]) simp
    then show ?thesis using pad Cons.prems(1) by simp
  next
    case (Cons z zs)
    have "y = z"
      using Cons.prems Cons by (intro head_unique) auto
    then show ?thesis using Cons.IH [of zs] Cons.prems Cons by simp
  qed
qed

lemma codes_empty [simp]: "set xs \<subseteq> S \<Longrightarrow> concat (map code xs) = [] \<longleftrightarrow> xs = []"
  using code_nonempty by (cases xs) auto

lemma sequence_unique:
  assumes "set xs \<subseteq> S" and "set ys \<subseteq> S" and "concat (map code xs) = concat (map code ys)"
  shows "xs = ys"
proof -
  have none: "\<not> prefix (code s) []" if "s \<in> S" for s using code_nonempty [OF that] by simp
  from unique_parse [of ys xs "[]" "[]" "[]"] assms none
  consider z zs where "xs = ys @ z # zs" | "xs = ys" by auto
  then show ?thesis
  proof cases
    case 1
    then have "set (z # zs) \<subseteq> S" and "concat (map code (z # zs)) = []" using assms(1,3) by auto
    then show ?thesis by (simp only: codes_empty) simp
  qed
qed

end

subsection \<open>Decoders of one item\<close>

text \<open>
  The contract of a decoder that is given a buffer with an item at its front: it returns the item
  and how many bytes the item takes, whatever follows. Encodings that have such a decoder form a
  prefix code, so a sequence of items is determined by its bytes.
\<close>

locale self_delimiting =
  fixes enc :: "'m \<Rightarrow> 'b list" and ok :: "'m \<Rightarrow> bool" and dec :: "'b list \<Rightarrow> ('m \<times> nat, 'e) outcome"
  assumes dec_enc: "ok m \<Longrightarrow> dec (enc m @ rest) = Ok (m, length (enc m))"
    and enc_nonempty: "ok m \<Longrightarrow> enc m \<noteq> []"
begin

lemma enc_prefix_free: "ok m \<Longrightarrow> ok m' \<Longrightarrow> prefix (enc m) (enc m') \<Longrightarrow> m = m'"
  using dec_enc [of m] dec_enc [of m' "[]"] by (auto elim!: prefixE)

end

sublocale self_delimiting \<subseteq> items: prefix_code enc "Collect ok"
  by unfold_locales (auto dest: enc_nonempty intro: enc_prefix_free)

subsection \<open>Readers of a stream\<close>

text \<open>\<open>n\<close> successive reads, stopping at the first that fails.\<close>

fun read_n :: "('t \<Rightarrow> ('m, 'e) outcome \<times> 't) \<Rightarrow> nat \<Rightarrow> 't \<Rightarrow> ('m list, 'e) outcome \<times> 't" where
  "read_n rd 0 t = (Ok [], t)"
| "read_n rd (Suc n) t =
     (case rd t of
        (Ok m, t1) \<Rightarrow>
          (case read_n rd n t1 of
             (Ok ms, t2) \<Rightarrow> (Ok (m # ms), t2)
           | (Err e, t2) \<Rightarrow> (Err e, t2)
           | (Panic, t2) \<Rightarrow> (Panic, t2))
      | (Err e, t1) \<Rightarrow> (Err e, t1)
      | (Panic, t1) \<Rightarrow> (Panic, t1))"

text \<open>
  The contract of a reader over a stateful source: when the bytes to come begin with the encoding
  of a message, the reader returns that message and leaves the bytes behind it. \<open>avail\<close> is what
  is still to be read, and every byte string can be.
\<close>

locale message_reader =
  fixes rd :: "'t \<Rightarrow> ('m, 'e) outcome \<times> 't" and avail :: "'t \<Rightarrow> 'b list"
    and enc :: "'m \<Rightarrow> 'b list" and ok :: "'m \<Rightarrow> bool"
  assumes read_one: "ok m \<Longrightarrow> avail t = enc m @ rest \<Longrightarrow> \<exists>t'. rd t = (Ok m, t') \<and> avail t' = rest"
    and avail_surj: "\<exists>t. avail t = bs"
    and enc_nonempty: "ok m \<Longrightarrow> enc m \<noteq> []"
begin

lemma read_sequence:
  "list_all ok ms \<Longrightarrow> avail t = concat (map enc ms) @ rest \<Longrightarrow>
    \<exists>t'. read_n rd (length ms) t = (Ok ms, t') \<and> avail t' = rest"
proof (induction ms arbitrary: t)
  case (Cons m ms)
  then obtain t1 where "rd t = (Ok m, t1)" "avail t1 = concat (map enc ms) @ rest"
    using read_one [of m t "concat (map enc ms) @ rest"] by auto
  then show ?case using Cons.IH [of t1] Cons.prems by auto
qed simp

lemma enc_prefix_free: "ok m \<Longrightarrow> ok m' \<Longrightarrow> prefix (enc m) (enc m') \<Longrightarrow> m = m'"
  using avail_surj [of "enc m'"] read_one [of m] read_one [of m' _ "[]"] by (fastforce elim!: prefixE)

end

sublocale message_reader \<subseteq> messages: prefix_code enc "Collect ok"
  by unfold_locales (auto dest: enc_nonempty intro: enc_prefix_free)

end
