(* ===== verification/H2_IO.thy ===== *)
theory H2_IO
  imports H2_Frame Framing
begin

text \<open>
  The HTTP/2 I/O helpers (\<^verbatim>\<open>moduvex-http/src/protocol/h2/connection_io.rs\<close>) over a
  transport that delivers and accepts bytes in pieces. A transport is what the peer and the
  socket will do: the successive results of \<^verbatim>\<open>poll_read\<close> (bytes that have arrived, an
  error; no more events or an empty arrival is end of file), the successive capacities of
  \<^verbatim>\<open>poll_write\<close>, and the bytes written so far.

  What is shown: the result of reading a frame depends only on the bytes of the stream and
  not on how they arrive, a write puts on the wire exactly the frame's bytes or fails after
  a prefix of them, and both loops end.
\<close>

subsection \<open>Transport\<close>

datatype read_event = RBytes bytes | RError string
datatype write_event = WAccept nat | WError string

record transport =
  rx :: "read_event list"
  wr :: "write_event list"
  tx :: bytes

text \<open>\<^verbatim>\<open>poll_read\<close> into a buffer of \<open>n\<close> bytes: at most \<open>n\<close> of the bytes that arrived.\<close>

fun poll_read_events :: "read_event list \<Rightarrow> nat \<Rightarrow> (bytes, string) outcome \<times> read_event list" where
  "poll_read_events [] n = (Ok [], [])"
| "poll_read_events (RError e # es) n = (Err e, es)"
| "poll_read_events (RBytes bs # es) n =
     (if length bs \<le> n then (Ok bs, es) else (Ok (take n bs), RBytes (drop n bs) # es))"

definition poll_read :: "transport \<Rightarrow> nat \<Rightarrow> (bytes, string) outcome \<times> transport" where
  "poll_read t n = (let (r, es) = poll_read_events (rx t) n in (r, t\<lparr>rx := es\<rparr>))"

text \<open>\<^verbatim>\<open>poll_write\<close> of a buffer: the number of bytes taken.\<close>

definition poll_write :: "transport \<Rightarrow> bytes \<Rightarrow> (nat, string) outcome \<times> transport" where
  "poll_write t buf =
     (case wr t of
        [] \<Rightarrow> (Ok (length buf), t\<lparr>tx := tx t @ buf\<rparr>)
      | WError e # es \<Rightarrow> (Err e, t\<lparr>wr := es\<rparr>)
      | WAccept n # es \<Rightarrow>
          (Ok (min n (length buf)), t\<lparr>wr := es, tx := tx t @ take (min n (length buf)) buf\<rparr>))"

subsection \<open>Reading\<close>

text \<open>The \<^verbatim>\<open>while pos < n\<close> loop; \<open>acc\<close> is the filled part of the buffer.\<close>

function read_loop :: "transport \<Rightarrow> nat \<Rightarrow> bytes \<Rightarrow> bytes h2_result \<times> transport" where
  "read_loop t n acc =
     (if length acc < n then
        (case poll_read t (n - length acc) of
           (Err e, t') \<Rightarrow> (Err (connection_error InternalError (''io read: '' @ e)), t')
         | (Panic, t') \<Rightarrow> (Panic, t')
         | (Ok chunk, t') \<Rightarrow>
             if chunk = [] then
               (Err (connection_error InternalError ''connection closed mid-frame''), t')
             else read_loop t' n (acc @ chunk))
      else (Ok acc, t))"
  by pat_completeness auto
termination
  by (relation "measure (\<lambda>(t, n, acc). n - length acc)") (auto intro!: diff_less_mono2)

declare read_loop.simps [simp del]

definition read_exact_with_prefix :: "transport \<Rightarrow> nat \<Rightarrow> bytes \<Rightarrow> bytes h2_result \<times> transport" where
  "read_exact_with_prefix t n pre =
     (let prefix_len = min (length pre) n in read_loop t n (take prefix_len pre))"

definition read_exact :: "transport \<Rightarrow> nat \<Rightarrow> bytes h2_result \<times> transport" where
  "read_exact t n = read_exact_with_prefix t n []"

definition read_frame :: "transport \<Rightarrow> h2_frame h2_result \<times> transport" where
  "read_frame t =
     (case read_exact t 9 of
        (Err e, t1) \<Rightarrow> (Err e, t1)
      | (Panic, t1) \<Rightarrow> (Panic, t1)
      | (Ok header_bytes, t1) \<Rightarrow>
          (case parse_frame_header header_bytes of
             None \<Rightarrow> (Err (connection_error InternalError ''header parse failed''), t1)
           | Some header \<Rightarrow>
               if 0 < fh_length header then
                 (case read_exact t1 (unat (fh_length header)) of
                    (Err e, t2) \<Rightarrow> (Err e, t2)
                  | (Panic, t2) \<Rightarrow> (Panic, t2)
                  | (Ok payload, t2) \<Rightarrow> (parse_frame header payload, t2))
               else (parse_frame header [], t1)))"

subsection \<open>Writing\<close>

function write_all :: "transport \<Rightarrow> bytes \<Rightarrow> unit h2_result \<times> transport" where
  "write_all t buf =
     (if buf = [] then (Ok (), t)
      else
        (case poll_write t buf of
           (Err e, t') \<Rightarrow> (Err (connection_error InternalError (''io write: '' @ e)), t')
         | (Panic, t') \<Rightarrow> (Panic, t')
         | (Ok n, t') \<Rightarrow>
             if n = 0 then
               (Err (connection_error InternalError ''write returned 0 bytes''), t')
             else write_all t' (drop n buf)))"
  by pat_completeness auto
termination
  by (relation "measure (\<lambda>(t, buf). length buf)") auto

declare write_all.simps [simp del]

definition write_frame :: "transport \<Rightarrow> h2_frame \<Rightarrow> unit h2_result \<times> transport" where
  "write_frame t frame = write_all t (h2_encode_frame frame)"

subsection \<open>The stream behind the events\<close>

text \<open>The bytes a reader can obtain before end of file or an error.\<close>

fun stream_bytes :: "read_event list \<Rightarrow> bytes" where
  "stream_bytes [] = []"
| "stream_bytes (RError e # es) = []"
| "stream_bytes (RBytes bs # es) = (if bs = [] then [] else bs @ stream_bytes es)"

lemma poll_read_stream:
  assumes "0 < n" and "stream_bytes es \<noteq> []"
  shows "\<exists>chunk es'. poll_read_events es n = (Ok chunk, es') \<and> chunk \<noteq> [] \<and> length chunk \<le> n
    \<and> stream_bytes es = chunk @ stream_bytes es'"
  using assms by (cases es rule: stream_bytes.cases) (auto split: if_splits)

lemma read_loop_stream:
  assumes "length acc \<le> n" and "n - length acc \<le> length (stream_bytes (rx t))"
  shows "\<exists>t'. read_loop t n acc = (Ok (acc @ take (n - length acc) (stream_bytes (rx t))), t')
    \<and> stream_bytes (rx t') = drop (n - length acc) (stream_bytes (rx t))
    \<and> wr t' = wr t \<and> tx t' = tx t"
  using assms
proof (induction t n acc rule: read_loop.induct)
  case (1 t n acc)
  show ?case
  proof (cases "length acc < n")
    case True
    then have "stream_bytes (rx t) \<noteq> []" using "1.prems"(2) by auto
    from poll_read_stream [OF _ this, of "n - length acc"] True obtain chunk es'
      where p: "poll_read_events (rx t) (n - length acc) = (Ok chunk, es')" and ne: "chunk \<noteq> []"
        and le: "length chunk \<le> n - length acc" and st: "stream_bytes (rx t) = chunk @ stream_bytes es'"
      by auto
    let ?t = "t\<lparr>rx := es'\<rparr>"
    have pr: "poll_read t (n - length acc) = (Ok chunk, ?t)" by (simp add: poll_read_def p)
    have "\<exists>t'. read_loop ?t n (acc @ chunk)
          = (Ok ((acc @ chunk) @ take (n - length (acc @ chunk)) (stream_bytes (rx ?t))), t')
        \<and> stream_bytes (rx t') = drop (n - length (acc @ chunk)) (stream_bytes (rx ?t))
        \<and> wr t' = wr ?t \<and> tx t' = tx ?t"
      using "1.prems"(2) le True
      by (intro "1.IH" [OF True pr [symmetric] refl ne]) (simp_all add: st)
    then show ?thesis
      using True ne le by (subst read_loop.simps) (simp add: pr st)
  next
    case False
    then show ?thesis using "1.prems" by (subst read_loop.simps) simp
  qed
qed

lemma read_exact_stream:
  assumes "n \<le> length (stream_bytes (rx t))"
  shows "\<exists>t'. read_exact t n = (Ok (take n (stream_bytes (rx t))), t')
    \<and> stream_bytes (rx t') = drop n (stream_bytes (rx t))"
  using read_loop_stream [of "[]" n t] assms
  by (auto simp: read_exact_def read_exact_with_prefix_def)

lemma read_frame_stream:
  assumes "wf_frame f" and "stream_bytes (rx t) = h2_encode_frame f @ rest"
  shows "\<exists>t'. read_frame t = (Ok f, t') \<and> stream_bytes (rx t') = rest"
proof -
  let ?enc = "h2_encode_frame f"
  from frame_roundtrips_wf [OF assms(1)] obtain h
    where rt: "parse_frame_header (?enc @ []) = Some h"
    and len: "9 + unat (fh_length h) = length ?enc"
    and fr: "parse_frame h (drop 9 ?enc) = Ok f"
    unfolding frame_roundtrips_def by blast
  have h: "parse_frame_header (take 9 ?enc) = Some h"
    using rt len by (simp add: parse_frame_header_def)
  have l9: "9 \<le> length (stream_bytes (rx t))" and tk: "take 9 (stream_bytes (rx t)) = take 9 ?enc"
    using assms(2) len by simp_all
  obtain t1 where t1: "read_exact t 9 = (Ok (take 9 ?enc), t1)"
      "stream_bytes (rx t1) = drop 9 ?enc @ rest"
    using read_exact_stream [OF l9] tk assms(2) len by auto
  show ?thesis
  proof (cases "0 < fh_length h")
    case True
    have "unat (fh_length h) \<le> length (stream_bytes (rx t1))"
      using t1(2) len by simp
    from read_exact_stream [OF this] obtain t2
      where "read_exact t1 (unat (fh_length h)) = (Ok (drop 9 ?enc), t2)"
        "stream_bytes (rx t2) = rest"
      using t1(2) len by auto
    then show ?thesis using t1(1) h fr True by (simp add: read_frame_def)
  next
    case False
    then have "fh_length h = 0" by (simp add: word_greater_zero_iff)
    then have "drop 9 ?enc = []" using len by simp
    then show ?thesis using t1 h fr False by (simp add: read_frame_def)
  qed
qed

lemma stream_bytes_surj: "\<exists>t :: transport. stream_bytes (rx t) = bs"
  by (rule exI [of _ "\<lparr>rx = (if bs = [] then [] else [RBytes bs]), wr = [], tx = []\<rparr>"]) simp

interpretation frames: message_reader read_frame "\<lambda>t. stream_bytes (rx t)" h2_encode_frame wf_frame
proof (unfold_locales, goal_cases)
  case (3 f)
  from frame_roundtrips_wf [OF this] show ?case by (auto simp: frame_roundtrips_def)
qed (simp_all add: read_frame_stream stream_bytes_surj)

text \<open>
  Reading a frame depends on the bytes of the stream only: however the bytes of an
  encoded frame arrive, in whatever pieces, \<open>read_frame\<close> returns that frame and leaves
  exactly the bytes behind it.
\<close>

theorem read_frame_any_chunking:
  assumes "wf_frame f" and "stream_bytes (rx t) = h2_encode_frame f @ rest"
  shows "\<exists>t'. read_frame t = (Ok f, t') \<and> stream_bytes (rx t') = rest"
  using assms by (rule read_frame_stream)

theorem read_frame_any_chunking_witness:
  "\<exists>t'. read_frame \<lparr>rx = [RBytes [0, 0], RBytes [4, 8, 0, 0, 0], RBytes [0, 0, 0, 0, 1], RBytes [44, 9]],
      wr = [], tx = []\<rparr> = (Ok (FWindowUpdate 0 300), t') \<and> stream_bytes (rx t') = [9]"
proof -
  have "h2_encode_frame (FWindowUpdate 0 300) = [0, 0, 4, 8, 0, 0, 0, 0, 0, 0, 0, 1, 44]"
    by (simp add: write_header_def to_be_bytes)
  then show ?thesis
    by (intro read_frame_any_chunking) (simp_all add: sid31_def)
qed

subsection \<open>What is on the wire after a write\<close>

lemma write_all_wire:
  "write_all t buf = (r, t') \<Longrightarrow> rx t' = rx t
    \<and> (\<exists>k. tx t' = tx t @ take k buf)
    \<and> (r = Ok () \<longrightarrow> tx t' = tx t @ buf) \<and> r \<noteq> Panic"
proof (induction t buf arbitrary: r t' rule: write_all.induct)
  case (1 t buf)
  show ?case
  proof (cases "buf = []")
    case True
    then show ?thesis using "1.prems" by (auto simp: write_all.simps)
  next
    case False
    show ?thesis
    proof (cases "\<exists>n t1. poll_write t buf = (Ok n, t1) \<and> n \<noteq> 0")
      case True
      then obtain n t1 where p: "poll_write t buf = (Ok n, t1)" "n \<noteq> 0" by blast
      have ih: "rx t' = rx t1 \<and> (\<exists>k. tx t' = tx t1 @ take k (drop n buf))
          \<and> (r = Ok () \<longrightarrow> tx t' = tx t1 @ drop n buf) \<and> r \<noteq> Panic"
        using False p "1.prems"
        by (intro "1.IH" [OF False p(1) [symmetric] refl p(2)]) (simp add: write_all.simps)
      have t1: "rx t1 = rx t" "tx t1 = tx t @ take n buf"
        using p(1) by (auto simp: poll_write_def min_def split: list.splits write_event.splits if_splits)
      have "take n buf @ take k (drop n buf) = take (n + k) buf" for k
        by (simp add: take_add)
      then show ?thesis using ih t1 by (auto intro: exI)
    next
      case no: False
      then show ?thesis
        using False "1.prems"
        by (subst (asm) write_all.simps)
          (auto simp: poll_write_def split: list.splits write_event.splits if_splits intro: exI [of _ 0])
    qed
  qed
qed

lemma write_all_accepting:
  "list_all (\<lambda>e. \<exists>n > 0. e = WAccept n) (wr t) \<Longrightarrow> fst (write_all t buf) = Ok ()"
proof (induction t buf rule: write_all.induct)
  case (1 t buf)
  show ?case
  proof (cases "buf = []")
    case True
    then show ?thesis by (simp add: write_all.simps)
  next
    case False
    obtain n t1 where p: "poll_write t buf = (Ok n, t1)" "n \<noteq> 0"
        "list_all (\<lambda>e. \<exists>n > 0. e = WAccept n) (wr t1)"
      using "1.prems" False by (cases "wr t") (auto simp: poll_write_def)
    show ?thesis
      using False p "1.IH" [OF False p(1) [symmetric] refl p(2,3)]
      by (simp add: write_all.simps [of t buf])
  qed
qed

text \<open>
  What one endpoint writes the other one reads. A successful \<open>write_frame\<close> puts exactly
  the bytes of the frame behind what was already sent, whatever sizes the socket accepted at
  a time, so a peer to which the wire delivers these bytes, in pieces of any size, reads that
  very frame; a failing one has sent a prefix of them, and as long as the socket takes some
  bytes on every call the write succeeds.
\<close>

theorem write_frame_read_frame:
  assumes "wf_frame f" and "write_frame t f = (r, t')"
  shows "(\<exists>sent. tx t' = tx t @ sent
      \<and> (r = Ok () \<longrightarrow> (\<forall>peer. stream_bytes (rx peer) = sent \<longrightarrow>
            (\<exists>peer'. read_frame peer = (Ok f, peer') \<and> stream_bytes (rx peer') = [])))
      \<and> (\<exists>k. sent = take k (h2_encode_frame f)))
    \<and> (list_all (\<lambda>e. \<exists>n > 0. e = WAccept n) (wr t) \<longrightarrow> r = Ok ())"
proof -
  have w: "write_all t (h2_encode_frame f) = (r, t')"
    using assms(2) by (simp add: write_frame_def)
  note wire = write_all_wire [OF w]
  obtain sent where sent: "tx t' = tx t @ sent" "\<exists>k. sent = take k (h2_encode_frame f)"
    using wire by auto
  moreover have "sent = h2_encode_frame f" if "r = Ok ()" using wire sent(1) that by simp
  ultimately show ?thesis
    using read_frame_stream [OF assms(1), where rest = "[]"] write_all_accepting [of t "h2_encode_frame f"] w
    by auto
qed

theorem write_frame_read_frame_witness:
  "write_frame \<lparr>rx = [], wr = [WAccept 5, WAccept 100], tx = []\<rparr> (FWindowUpdate 0 300)
     = (Ok (), \<lparr>rx = [], wr = [], tx = [0, 0, 4, 8, 0, 0, 0, 0, 0, 0, 0, 1, 44]\<rparr>)
   \<and> (\<exists>peer'. read_frame \<lparr>rx = [RBytes [0, 0, 4, 8, 0, 0, 0, 0, 0, 0, 0, 1, 44]], wr = [], tx = []\<rparr>
        = (Ok (FWindowUpdate 0 300), peer') \<and> stream_bytes (rx peer') = [])"
proof -
  let ?bs = "[0, 0, 4, 8, 0, 0, 0, 0, 0, 0, 0, 1, 44] :: bytes"
  have enc: "h2_encode_frame (FWindowUpdate 0 300) = ?bs"
    by (simp add: write_header_def to_be_bytes)
  have w: "write_frame \<lparr>rx = [], wr = [WAccept 5, WAccept 100], tx = []\<rparr> (FWindowUpdate 0 300)
     = (Ok (), \<lparr>rx = [], wr = [], tx = ?bs\<rparr>)"
    unfolding write_frame_def enc by (simp add: write_all.simps poll_write_def)
  show ?thesis
    using w write_frame_read_frame [OF _ w] by (simp add: sid31_def)
qed

end
