(* ===== verification/H2_Stream.thy ===== *)
theory H2_Stream
  imports H2_Frame
begin

text \<open>
  HTTP/2 streams (\<^verbatim>\<open>moduvex-http/src/protocol/h2/stream.rs\<close>) and connection-level flow
  control (\<^verbatim>\<open>flow_control.rs\<close>). The windows are \<^verbatim>\<open>i64\<close> in the code; they start at a
  32-bit value, never exceed \<open>2 ^ 31 - 1\<close> upwards and fall by less than \<open>2 ^ 32\<close> per call, and
  are modelled as integers. Operations return their result and the new state, since a failing
  call has already changed the window.

  The accounting contract that the four windows share is a locale, interpreted on each of
  them; the life cycle of a stream is a transition relation.
\<close>

subsection \<open>Flow controller\<close>

definition DEFAULT_WINDOW_SIZE :: u32 where "DEFAULT_WINDOW_SIZE = 65535"
definition MAX_WINDOW :: int where "MAX_WINDOW = 2 ^ 31 - 1"
definition WINDOW_UPDATE_THRESHOLD :: int where "WINDOW_UPDATE_THRESHOLD = uint DEFAULT_WINDOW_SIZE div 2"

record flow_controller =
  fc_send_window :: int
  fc_recv_window :: int
  fc_initial_window_size :: u32

definition flow_new :: "u32 \<Rightarrow> flow_controller" where
  "flow_new w = \<lparr>fc_send_window = uint w, fc_recv_window = uint w, fc_initial_window_size = w\<rparr>"

definition consume_send :: "flow_controller \<Rightarrow> u32 \<Rightarrow> unit h2_result \<times> flow_controller" where
  "consume_send f len =
     (let f' = f\<lparr>fc_send_window := fc_send_window f - uint len\<rparr>
      in if fc_send_window f' < 0
         then (Err (connection_error FlowControlError ''connection send window exceeded''), f')
         else (Ok (), f'))"

definition consume_recv :: "flow_controller \<Rightarrow> u32 \<Rightarrow> unit h2_result \<times> flow_controller" where
  "consume_recv f len =
     (let f' = f\<lparr>fc_recv_window := fc_recv_window f - uint len\<rparr>
      in if fc_recv_window f' < 0
         then (Err (connection_error FlowControlError ''connection recv window exceeded''), f')
         else (Ok (), f'))"

definition flow_window_update :: "flow_controller \<Rightarrow> u32 \<Rightarrow> unit h2_result \<times> flow_controller" where
  "flow_window_update f increment =
     (let new_val = fc_send_window f + uint increment
      in if MAX_WINDOW < new_val
         then (Err (connection_error FlowControlError ''connection send window overflow''), f)
         else (Ok (), f\<lparr>fc_send_window := new_val\<rparr>))"

definition maybe_send_window_update :: "flow_controller \<Rightarrow> u32 option \<times> flow_controller" where
  "maybe_send_window_update f =
     (if fc_recv_window f \<le> WINDOW_UPDATE_THRESHOLD then
        (Some (of_int (uint (fc_initial_window_size f) - fc_recv_window f)),
         f\<lparr>fc_recv_window := uint (fc_initial_window_size f)\<rparr>)
      else (None, f))"

subsection \<open>Streams\<close>

datatype stream_state = Idle | Open | HalfClosedRemote | HalfClosedLocal | Closed

definition is_open :: "stream_state \<Rightarrow> bool" where
  "is_open s \<longleftrightarrow> s \<in> {Open, HalfClosedRemote, HalfClosedLocal}"

record h2_stream =
  st_id :: u32
  st_state :: stream_state
  st_recv_window :: int
  st_send_window :: int
  st_headers :: "(bytes \<times> bytes) list"
  st_body :: bytes
  st_headers_complete :: bool

definition stream_new :: "u32 \<Rightarrow> u32 \<Rightarrow> h2_stream" where
  "stream_new sid initial =
     \<lparr>st_id = sid, st_state = Idle, st_recv_window = uint initial, st_send_window = uint initial,
      st_headers = [], st_body = [], st_headers_complete = False\<rparr>"

definition recv_headers :: "h2_stream \<Rightarrow> unit h2_result \<times> h2_stream" where
  "recv_headers s =
     (case st_state s of
        Idle \<Rightarrow> (Ok (), s\<lparr>st_state := Open\<rparr>)
      | _ \<Rightarrow> (Err (stream_error (st_id s) StreamClosed ''HEADERS received on non-idle stream''), s))"

definition recv_end_stream :: "h2_stream \<Rightarrow> unit h2_result \<times> h2_stream" where
  "recv_end_stream s =
     (case st_state s of
        Open \<Rightarrow> (Ok (), s\<lparr>st_state := HalfClosedRemote\<rparr>)
      | HalfClosedLocal \<Rightarrow> (Ok (), s\<lparr>st_state := Closed\<rparr>)
      | _ \<Rightarrow> (Err (stream_error (st_id s) StreamClosed ''END_STREAM received in invalid state''), s))"

definition send_end_stream :: "h2_stream \<Rightarrow> unit h2_result \<times> h2_stream" where
  "send_end_stream s =
     (case st_state s of
        Open \<Rightarrow> (Ok (), s\<lparr>st_state := HalfClosedLocal\<rparr>)
      | HalfClosedRemote \<Rightarrow> (Ok (), s\<lparr>st_state := Closed\<rparr>)
      | _ \<Rightarrow> (Err (stream_error (st_id s) StreamClosed ''cannot send END_STREAM in current state''), s))"

definition stream_reset :: "h2_stream \<Rightarrow> h2_stream" where
  "stream_reset s = s\<lparr>st_state := Closed\<rparr>"

definition consume_recv_window :: "h2_stream \<Rightarrow> u32 \<Rightarrow> unit h2_result \<times> h2_stream" where
  "consume_recv_window s len =
     (let s' = s\<lparr>st_recv_window := st_recv_window s - uint len\<rparr>
      in if st_recv_window s' < 0
         then (Err (stream_error (st_id s) FlowControlError ''stream recv window exceeded''), s')
         else (Ok (), s'))"

definition consume_send_window :: "h2_stream \<Rightarrow> u32 \<Rightarrow> unit h2_result \<times> h2_stream" where
  "consume_send_window s len =
     (let s' = s\<lparr>st_send_window := st_send_window s - uint len\<rparr>
      in if st_send_window s' < 0
         then (Err (stream_error (st_id s) FlowControlError ''stream send window exceeded''), s')
         else (Ok (), s'))"

definition add_send_window :: "h2_stream \<Rightarrow> u32 \<Rightarrow> unit h2_result \<times> h2_stream" where
  "add_send_window s increment =
     (let new_val = st_send_window s + uint increment
      in if MAX_WINDOW < new_val
         then (Err (stream_error (st_id s) FlowControlError ''stream send window overflow''), s)
         else (Ok (), s\<lparr>st_send_window := new_val\<rparr>))"

subsection \<open>Accounting\<close>

text \<open>A sequence of deductions, stopping at the first refusal.\<close>

fun consume_all :: "('s \<Rightarrow> u32 \<Rightarrow> unit h2_result \<times> 's) \<Rightarrow> 's \<Rightarrow> u32 list \<Rightarrow> unit h2_result \<times> 's" where
  "consume_all consume s [] = (Ok (), s)"
| "consume_all consume s (n # ns) =
     (case consume s n of (Ok u, s') \<Rightarrow> consume_all consume s' ns | (r, s') \<Rightarrow> (r, s'))"

locale credit_window =
  fixes window :: "'s \<Rightarrow> int" and consume :: "'s \<Rightarrow> u32 \<Rightarrow> unit h2_result \<times> 's"
  assumes window_consume: "window (snd (consume s n)) = window s - uint n"
    and consume_ok: "fst (consume s n) = Ok () \<longleftrightarrow> uint n \<le> window s"
begin

lemma consume_cases:
  "(\<exists>s'. consume s n = (Ok (), s') \<and> uint n \<le> window s \<and> window s' = window s - uint n)
    \<or> fst (consume s n) \<noteq> Ok () \<and> window s < uint n"
  using window_consume [of s n] consume_ok [of s n] by (cases "consume s n") auto

text \<open>The grants never exceed the credit, and what is within the credit is granted.\<close>

lemma consume_all_exact:
  "0 \<le> window s \<Longrightarrow> fst (consume_all consume s ns) = Ok () \<longleftrightarrow> sum_list (map uint ns) \<le> window s"
proof (induction ns arbitrary: s)
  case (Cons n ns)
  have nonneg: "0 \<le> sum_list (map uint ns)" by (induction ns) auto
  from consume_cases [of s n] show ?case
  proof
    assume "\<exists>s'. consume s n = (Ok (), s') \<and> uint n \<le> window s \<and> window s' = window s - uint n"
    then obtain s' where "consume s n = (Ok (), s')" "uint n \<le> window s" "window s' = window s - uint n"
      by blast
    then show ?thesis using Cons.IH [of s'] by auto
  next
    assume no: "fst (consume s n) \<noteq> Ok () \<and> window s < uint n"
    then have "fst (consume_all consume s (n # ns)) \<noteq> Ok ()"
      by (auto split: prod.splits outcome.splits)
    then show ?thesis using no nonneg by auto
  qed
qed simp

lemma consume_all_window:
  "fst (consume_all consume s ns) = Ok () \<Longrightarrow>
    window (snd (consume_all consume s ns)) = window s - sum_list (map uint ns)"
proof (induction ns arbitrary: s)
  case (Cons n ns)
  obtain s' where c: "consume s n = (Ok (), s')"
    using Cons.prems by (auto split: prod.splits outcome.splits)
  then show ?case
    using Cons.IH [of s'] Cons.prems window_consume [of s n] by simp
qed simp

end

interpretation conn_send: credit_window fc_send_window consume_send
  by unfold_locales (simp_all add: consume_send_def Let_def)

interpretation conn_recv: credit_window fc_recv_window consume_recv
  by unfold_locales (simp_all add: consume_recv_def Let_def)

interpretation stream_recv: credit_window st_recv_window consume_recv_window
  by unfold_locales (simp_all add: consume_recv_window_def Let_def)

interpretation stream_send: credit_window st_send_window consume_send_window
  by unfold_locales (simp_all add: consume_send_window_def Let_def)



subsection \<open>Life cycle\<close>

inductive stream_trans :: "stream_state \<Rightarrow> stream_state \<Rightarrow> bool" where
  "stream_trans Idle Open"
| "stream_trans Open HalfClosedRemote"
| "stream_trans Open HalfClosedLocal"
| "stream_trans HalfClosedRemote Closed"
| "stream_trans HalfClosedLocal Closed"
| "stream_trans s Closed"

inductive_simps stream_trans_simps [simp]:
  "stream_trans Idle s" "stream_trans Open s" "stream_trans HalfClosedRemote s"
  "stream_trans HalfClosedLocal s" "stream_trans Closed s"



end
