(* ===== verification/Hpack_Huffman.thy ===== *)
theory Hpack_Huffman
  imports H2_Frame Framing
begin

text \<open>
  HPACK Huffman coding (\<^verbatim>\<open>moduvex-http/src/protocol/h2/hpack/huffman.rs\<close>): the code
  table, the encoder, which packs codes into a 64-bit buffer and flushes whole bytes, and the
  decoder, which searches the table for a code that matches the top bits of its buffer.

  The table of the source is an instance of the locale of prefix codes. What is shown: the table is a prefix code, the encoder emits the concatenated codes padded with
  ones, and the decoder accepts a byte string with a result exactly when it is the encoding
  of that result; a run of ones makes its buffer exceed 64 bits.
\<close>

subsection \<open>The code table\<close>

definition HUFFMAN_TABLE_low :: "(u32 \<times> nat) list" where
  "HUFFMAN_TABLE_low = [
    (0x1ff8, 13), (0x7fffd8, 23), (0xfffffe2, 28), (0xfffffe3, 28), (0xfffffe4, 28), (0xfffffe5, 28),
    (0xfffffe6, 28), (0xfffffe7, 28), (0xfffffe8, 28), (0xffffea, 24), (0x3ffffffc, 30), (0xfffffe9, 28),
    (0xfffffea, 28), (0x3ffffffd, 30), (0xfffffeb, 28), (0xfffffec, 28), (0xfffffed, 28), (0xfffffee, 28),
    (0xfffffef, 28), (0xffffff0, 28), (0xffffff1, 28), (0xffffff2, 28), (0x3ffffffe, 30), (0xffffff3, 28),
    (0xffffff4, 28), (0xffffff5, 28), (0xffffff6, 28), (0xffffff7, 28), (0xffffff8, 28), (0xffffff9, 28),
    (0xffffffa, 28), (0xffffffb, 28), (0x14, 6), (0x3f8, 10), (0x3f9, 10), (0xffa, 12),
    (0x1ff9, 13), (0x15, 6), (0xf8, 8), (0x7fa, 11), (0x3fa, 10), (0x3fb, 10),
    (0xf9, 8), (0x7fb, 11), (0xfa, 8), (0x16, 6), (0x17, 6), (0x18, 6),
    (0x0, 5), (0x1, 5), (0x2, 5), (0x19, 6), (0x1a, 6), (0x1b, 6),
    (0x1c, 6), (0x1d, 6), (0x1e, 6), (0x1f, 6), (0x5c, 7), (0xfb, 8),
    (0x7ffc, 15), (0x20, 6), (0xffb, 12), (0x3fc, 10), (0x1ffa, 13), (0x21, 6),
    (0x5d, 7), (0x5e, 7), (0x5f, 7), (0x60, 7), (0x61, 7), (0x62, 7),
    (0x63, 7), (0x64, 7), (0x65, 7), (0x66, 7), (0x67, 7), (0x68, 7),
    (0x69, 7), (0x6a, 7), (0x6b, 7), (0x6c, 7), (0x6d, 7), (0x6e, 7),
    (0x6f, 7), (0x70, 7), (0x71, 7), (0x72, 7), (0xfc, 8), (0x73, 7),
    (0xfd, 8), (0x1ffb, 13), (0x7fff0, 19), (0x1ffc, 13), (0x3ffc, 14), (0x22, 6),
    (0x7ffd, 15), (0x3, 5), (0x23, 6), (0x4, 5), (0x24, 6), (0x5, 5),
    (0x25, 6), (0x26, 6), (0x27, 6), (0x6, 5), (0x74, 7), (0x75, 7),
    (0x28, 6), (0x29, 6), (0x2a, 6), (0x7, 5), (0x2b, 6), (0x76, 7),
    (0x2c, 6), (0x8, 5), (0x9, 5), (0x2d, 6), (0x77, 7), (0x78, 7),
    (0x79, 7), (0x7a, 7), (0x7b, 7), (0x7ffe, 15), (0x7fc, 11), (0x3ffd, 14),
    (0x1ffd, 13), (0xffffffc, 28)]"

definition HUFFMAN_TABLE_high :: "(u32 \<times> nat) list" where
  "HUFFMAN_TABLE_high = [
    (0xfffe6, 20), (0x3fffd2, 22), (0xfffe7, 20), (0xfffe8, 20), (0x3fffd3, 22), (0x3fffd4, 22),
    (0x3fffd5, 22), (0x7fffd9, 23), (0x3fffd6, 22), (0x7fffda, 23), (0x7fffdb, 23), (0x7fffdc, 23),
    (0x7fffdd, 23), (0x7fffde, 23), (0xffffeb, 24), (0x7fffdf, 23), (0xffffec, 24), (0xffffed, 24),
    (0x3fffd7, 22), (0x7fffe0, 23), (0xffffee, 24), (0x7fffe1, 23), (0x7fffe2, 23), (0x7fffe3, 23),
    (0x7fffe4, 23), (0x1fffdc, 21), (0x3fffd8, 22), (0x7fffe5, 23), (0x3fffd9, 22), (0x7fffe6, 23),
    (0x7fffe7, 23), (0xffffef, 24), (0x3fffda, 22), (0x1fffdd, 21), (0xfffe9, 20), (0x3fffdb, 22),
    (0x3fffdc, 22), (0x7fffe8, 23), (0x7fffe9, 23), (0x1fffde, 21), (0x7fffea, 23), (0x3fffdd, 22),
    (0x3fffde, 22), (0xfffff0, 24), (0x1fffdf, 21), (0x3fffdf, 22), (0x7fffeb, 23), (0x7fffec, 23),
    (0x1fffe0, 21), (0x1fffe1, 21), (0x3fffe0, 22), (0x1fffe2, 21), (0x7fffed, 23), (0x3fffe1, 22),
    (0x7fffee, 23), (0x7fffef, 23), (0xfffea, 20), (0x3fffe2, 22), (0x3fffe3, 22), (0x3fffe4, 22),
    (0x7ffff0, 23), (0x3fffe5, 22), (0x3fffe6, 22), (0x7ffff1, 23), (0x3ffffe0, 26), (0x3ffffe1, 26),
    (0xfffeb, 20), (0x7fff1, 19), (0x3fffe7, 22), (0x7ffff2, 23), (0x3fffe8, 22), (0x1ffffec, 25),
    (0x3ffffe2, 26), (0x3ffffe3, 26), (0x3ffffe4, 26), (0x7ffffde, 27), (0x7ffffdf, 27), (0x3ffffe5, 26),
    (0xfffff1, 24), (0x1ffffed, 25), (0x7fff2, 19), (0x1fffe3, 21), (0x3ffffe6, 26), (0x7ffffe0, 27),
    (0x7ffffe1, 27), (0x3ffffe7, 26), (0x7ffffe2, 27), (0xfffff2, 24), (0x1fffe4, 21), (0x1fffe5, 21),
    (0x3ffffe8, 26), (0x3ffffe9, 26), (0xffffffd, 28), (0x7ffffe3, 27), (0x7ffffe4, 27), (0x7ffffe5, 27),
    (0xfffec, 20), (0xfffff3, 24), (0xfffed, 20), (0x1fffe6, 21), (0x3fffe9, 22), (0x1fffe7, 21),
    (0x1fffe8, 21), (0x7ffff3, 23), (0x3fffea, 22), (0x3fffeb, 22), (0x1ffffee, 25), (0x1ffffef, 25),
    (0xfffff4, 24), (0xfffff5, 24), (0x3ffffea, 26), (0x7ffff4, 23), (0x3ffffeb, 26), (0x7ffffe6, 27),
    (0x3ffffec, 26), (0x3ffffed, 26), (0x7ffffe7, 27), (0x7ffffe8, 27), (0x7ffffe9, 27), (0x7ffffea, 27),
    (0x7ffffeb, 27), (0xffffffe, 28), (0x7ffffec, 27), (0x7ffffed, 27), (0x7ffffee, 27), (0x7ffffef, 27),
    (0x7fffff0, 27), (0x3ffffee, 26), (0x3fffffff, 30)]"

definition HUFFMAN_TABLE :: "(u32 \<times> nat) list" where
  "HUFFMAN_TABLE = HUFFMAN_TABLE_low @ HUFFMAN_TABLE_high"

subsection \<open>Encoder\<close>

text \<open>\<^verbatim>\<open>while bits_in_buf >= 8\<close>: the bytes flushed and the bits left in the buffer.\<close>

fun huffman_flush :: "u64 \<Rightarrow> nat \<Rightarrow> bytes \<times> nat" where
  "huffman_flush bit_buf bits_in_buf =
     (if 8 \<le> bits_in_buf then
        (let (bs, n) = huffman_flush bit_buf (bits_in_buf - 8)
         in (ucast (drop_bit (bits_in_buf - 8) bit_buf) # bs, n))
      else ([], bits_in_buf))"

declare huffman_flush.simps [simp del]

primrec huffman_encode_loop :: "bytes \<Rightarrow> u64 \<Rightarrow> nat \<Rightarrow> bytes \<times> u64 \<times> nat" where
  "huffman_encode_loop [] bit_buf bits_in_buf = ([], bit_buf, bits_in_buf)"
| "huffman_encode_loop (b # bs) bit_buf bits_in_buf =
     (let (code, len) = HUFFMAN_TABLE ! unat b;
          bit_buf' = push_bit len bit_buf OR ucast code;
          (flushed, n) = huffman_flush bit_buf' (bits_in_buf + len);
          (rest, buf, n') = huffman_encode_loop bs bit_buf' n
      in (flushed @ rest, buf, n'))"

definition huffman_encode :: "bytes \<Rightarrow> bytes" where
  "huffman_encode input =
     (let (bs, bit_buf, bits_in_buf) = huffman_encode_loop input 0 0
      in if 0 < bits_in_buf then
           (let pad = 8 - bits_in_buf
            in bs @ [ucast (push_bit pad bit_buf OR (push_bit pad 1 - 1))])
         else bs)"

subsection \<open>Decoder\<close>

text \<open>
  The search for a symbol: codes longer than the available bits are skipped; a shift by 64 or
  more is an overflow.
\<close>

fun find_symbol :: "(u32 \<times> nat) list \<Rightarrow> nat \<Rightarrow> u64 \<Rightarrow> nat \<Rightarrow> (nat \<times> nat) option h2_result" where
  "find_symbol [] idx bit_buf bits_avail = Ok None"
| "find_symbol ((code, len) # tbl) idx bit_buf bits_avail =
     (if bits_avail < len then find_symbol tbl (Suc idx) bit_buf bits_avail
      else
        (let shift = bits_avail - len
         in if 64 \<le> shift then Panic
            else if drop_bit shift bit_buf = ucast code then Ok (Some (idx, len))
            else find_symbol tbl (Suc idx) bit_buf bits_avail))"

lemma find_symbol_entry:
  "find_symbol tbl idx buf avail = Ok (Some (s, n)) \<Longrightarrow>
    idx \<le> s \<and> s < idx + length tbl \<and> n = snd (tbl ! (s - idx)) \<and> n \<le> avail \<and> avail - n < 64
    \<and> drop_bit (avail - n) buf = ucast (fst (tbl ! (s - idx)))"
proof (induction tbl idx buf avail rule: find_symbol.induct)
  case (1 idx buf avail)
  then show ?case by simp
next
  case (2 code len tbl idx buf avail)
  then show ?case
    by (auto simp: Let_def nth_Cons' split: if_splits)
qed

lemma code_lens: "list_all (\<lambda>e. 5 \<le> snd e \<and> snd e \<le> 30) HUFFMAN_TABLE"
  by (simp add: HUFFMAN_TABLE_def HUFFMAN_TABLE_low_def HUFFMAN_TABLE_high_def)

lemma length_HUFFMAN_TABLE [simp]: "length HUFFMAN_TABLE = 257"
  by (simp add: HUFFMAN_TABLE_def HUFFMAN_TABLE_low_def HUFFMAN_TABLE_high_def)

lemma code_len: "s < 257 \<Longrightarrow> 5 \<le> snd (HUFFMAN_TABLE ! s) \<and> snd (HUFFMAN_TABLE ! s) \<le> 30"
  using code_lens by (simp add: list_all_length)

text \<open>The labelled inner loop: symbols are taken out as long as one matches.\<close>

function drain_symbols :: "u64 \<Rightarrow> nat \<Rightarrow> bytes \<Rightarrow> (bytes \<times> u64 \<times> nat) h2_result" where
  "drain_symbols bit_buf bits_avail out =
     (case find_symbol (take 256 HUFFMAN_TABLE) 0 bit_buf bits_avail of
        Panic \<Rightarrow> Panic
      | Err e \<Rightarrow> Err e
      | Ok None \<Rightarrow> Ok (out, bit_buf, bits_avail)
      | Ok (Some (idx, len)) \<Rightarrow>
          drain_symbols (bit_buf AND (push_bit (bits_avail - len) 1 - 1)) (bits_avail - len)
            (out @ [of_nat idx]))"
  by pat_completeness auto
termination
proof (relation "measure (\<lambda>(buf, avail, out). avail)", simp, clarsimp)
  fix buf avail s n
  assume "find_symbol (take 256 HUFFMAN_TABLE) 0 buf avail = Ok (Some (s, n))"
  from find_symbol_entry [OF this] have "s < 256" "n = snd (HUFFMAN_TABLE ! s)" "n \<le> avail"
    by auto
  then show "avail - n < avail"
    using code_len [of s] by simp
qed

declare drain_symbols.simps [simp del]

primrec huffman_decode_loop :: "bytes \<Rightarrow> u64 \<Rightarrow> nat \<Rightarrow> bytes \<Rightarrow> (bytes \<times> u64 \<times> nat) h2_result" where
  "huffman_decode_loop [] bit_buf bits_avail out = Ok (out, bit_buf, bits_avail)"
| "huffman_decode_loop (b # bs) bit_buf bits_avail out =
     (if 256 \<le> bits_avail + 8 then Panic
      else
        bind_outcome (drain_symbols (push_bit 8 bit_buf OR ucast b) (bits_avail + 8) out)
          (\<lambda>(out', buf, avail). huffman_decode_loop bs buf avail out'))"

definition huffman_decode :: "bytes \<Rightarrow> bytes h2_result" where
  "huffman_decode input =
     bind_outcome (huffman_decode_loop input 0 0 [])
       (\<lambda>(out, bit_buf, bits_avail).
          if 7 < bits_avail then
            Err (connection_error CompressionError ''huffman: excess padding bits'')
          else if 0 < bits_avail
            \<and> bit_buf AND (push_bit bits_avail 1 - 1) \<noteq> push_bit bits_avail 1 - 1 then
            Err (connection_error CompressionError ''huffman: invalid padding'')
          else Ok out)"

subsection \<open>Bit strings\<close>

text \<open>The low \<open>n\<close> bits of a word, most significant first.\<close>

definition bits_msb :: "nat \<Rightarrow> 'a::len word \<Rightarrow> bool list" where
  "bits_msb n w = map (bit w) (rev [0..<n])"

definition byte_bits :: "bytes \<Rightarrow> bool list" where
  "byte_bits bs = concat (map (bits_msb 8) bs)"

lemma length_bits_msb [simp]: "length (bits_msb n w) = n"
  by (simp add: bits_msb_def)

lemma nth_bits_msb: "i < n \<Longrightarrow> bits_msb n w ! i = bit w (n - 1 - i)"
  by (simp add: bits_msb_def rev_nth)

lemma bits_msb_0 [simp]: "bits_msb 0 w = []"
  by (simp add: bits_msb_def)

lemma bits_msb_eq_iff: "bits_msb n v = bits_msb n w \<longleftrightarrow> (\<forall>i < n. bit v i = bit w i)"
  by (auto simp: bits_msb_def)

lemma bits_msb_add:
  "bits_msb (m + n) w = bits_msb m (drop_bit n w) @ bits_msb n w"
  by (rule nth_equalityI) (auto simp: nth_append nth_bits_msb bit_simps add.commute)

lemma bits_msb_split:
  "n \<le> m \<Longrightarrow> bits_msb m w = bits_msb n (drop_bit (m - n) w) @ bits_msb (m - n) w"
  using bits_msb_add [of n "m - n" w] by simp

lemma bits_msb_cong: "(\<And>i. i < n \<Longrightarrow> bit v i = bit w i) \<Longrightarrow> bits_msb n v = bits_msb n w"
  by (simp add: bits_msb_eq_iff)

lemma bits_msb_push:
  fixes w :: "'a::len word" and c :: "'b::len word"
  assumes "m + n \<le> LENGTH('a)" and c: "\<And>i. bit c i \<Longrightarrow> i < n"
  shows "bits_msb (m + n) (push_bit n w OR ucast c) = bits_msb m w @ bits_msb n c"
proof -
  have "bits_msb m (drop_bit n (push_bit n w OR ucast c)) = bits_msb m w"
    using assms by (intro bits_msb_cong) (auto simp: bit_simps)
  moreover have "bits_msb n (push_bit n w OR ucast c) = bits_msb n c"
    using assms(1) by (auto simp: bits_msb_eq_iff bit_simps)
  ultimately show ?thesis by (simp add: bits_msb_add)
qed

lemma bits_msb_mask:
  fixes w :: "'a::len word"
  assumes "n \<le> m" and "m < LENGTH('a)"
  shows "bits_msb n (w AND (push_bit m 1 - 1)) = bits_msb n w"
  using assms by (intro bits_msb_cong) (simp add: bit_simps flip: mask_eq_exp_minus_1)

lemma byte_bits_Nil [simp]: "byte_bits [] = []"
  and byte_bits_Cons [simp]: "byte_bits (b # bs) = bits_msb 8 b @ byte_bits bs"
  and byte_bits_append [simp]: "byte_bits (bs @ cs) = byte_bits bs @ byte_bits cs"
  by (simp_all add: byte_bits_def)

lemma length_byte_bits [simp]: "length (byte_bits bs) = 8 * length bs"
  by (induction bs) auto

lemma bits_msb_8_inj: "bits_msb 8 a = bits_msb 8 b \<longleftrightarrow> a = (b :: byte)"
proof
  assume "bits_msb 8 a = bits_msb 8 b"
  then show "a = b" by (intro bit_word_eqI) (simp add: bits_msb_eq_iff)
qed simp

lemma byte_bits_inj: "byte_bits bs = byte_bits cs \<longleftrightarrow> bs = cs"
proof (induction bs arbitrary: cs)
  case Nil
  show ?case by (cases cs) (auto simp: bits_msb_def)
next
  case (Cons b bs)
  show ?case
    by (cases cs) (auto simp: Cons.IH bits_msb_8_inj, simp add: bits_msb_def)
qed

subsection \<open>The table is a prefix code\<close>

definition huff_code :: "byte \<Rightarrow> bool list" where
  "huff_code b = (let (c, n) = HUFFMAN_TABLE ! unat b in bits_msb n c)"

text \<open>
  A code of length \<open>n\<close> stands for an interval of 30-bit numbers. The code is canonical: the
  intervals of the codes of length \<open>n\<close> lie between \<open>code_bounds ! n\<close> and
  \<open>code_bounds ! Suc n\<close>.
\<close>

definition code_bounds :: "int list" where
  "code_bounds = [
    0, 0, 0, 0, 0, 0, 335544320, 771751936,
    1040187392, 1065353216, 1065353216, 1070596096, 1072168960, 1072693248, 1073479680, 1073610752,
    1073709056, 1073709056, 1073709056, 1073709056, 1073715200, 1073723392, 1073730048, 1073736704,
    1073740416, 1073741184, 1073741312, 1073741552, 1073741704, 1073741820, 1073741820, 1073741824]"

definition canonical_entry :: "u32 \<times> nat \<Rightarrow> bool" where
  "canonical_entry = (\<lambda>(c, n).
     code_bounds ! n \<le> uint c * 2 ^ (30 - n) \<and> (uint c + 1) * 2 ^ (30 - n) \<le> code_bounds ! Suc n)"

lemmas huffman_table_defs = HUFFMAN_TABLE_def HUFFMAN_TABLE_low_def HUFFMAN_TABLE_high_def

lemma code_bounds_sorted: "sorted code_bounds"
  by (simp add: code_bounds_def)

lemma entries_canonical: "list_all canonical_entry HUFFMAN_TABLE"
  by (simp add: huffman_table_defs canonical_entry_def code_bounds_def)

lemma code_values: "list_all (\<lambda>(c, n). uint c + 1 < 2 ^ n) (take 256 HUFFMAN_TABLE)"
  by (simp add: huffman_table_defs)

lemma EOS_entry: "HUFFMAN_TABLE ! 256 = (0x3fffffff, 30)"
  by (simp add: huffman_table_defs)

text \<open>
  The canonical decoding table: for each length the first code of that length and the symbols
  of the codes that follow it. It is a left inverse of the code table.
\<close>

definition canonical_symbols :: "(int \<times> int list) list" where
  "canonical_symbols = [
    (0x0, []),
    (0x0, []),
    (0x0, []),
    (0x0, []),
    (0x0, []),
    (0x0, [48, 49, 50, 97, 99, 101, 105, 111, 115, 116]),
    (0x14, [32, 37, 45, 46, 47, 51, 52, 53, 54, 55, 56, 57, 61, 65, 95, 98, 100, 102, 103,
       104, 108, 109, 110, 112, 114, 117]),
    (0x5c, [58, 66, 67, 68, 69, 70, 71, 72, 73, 74, 75, 76, 77, 78, 79, 80, 81, 82, 83, 84,
       85, 86, 87, 89, 106, 107, 113, 118, 119, 120, 121, 122]),
    (0xf8, [38, 42, 44, 59, 88, 90]),
    (0x0, []),
    (0x3f8, [33, 34, 40, 41, 63]),
    (0x7fa, [39, 43, 124]),
    (0xffa, [35, 62]),
    (0x1ff8, [0, 36, 64, 91, 93, 126]),
    (0x3ffc, [94, 125]),
    (0x7ffc, [60, 96, 123]),
    (0x0, []),
    (0x0, []),
    (0x0, []),
    (0x7fff0, [92, 195, 208]),
    (0xfffe6, [128, 130, 131, 162, 184, 194, 224, 226]),
    (0x1fffdc, [153, 161, 167, 172, 176, 177, 179, 209, 216, 217, 227, 229, 230]),
    (0x3fffd2, [129, 132, 133, 134, 136, 146, 154, 156, 160, 163, 164, 169, 170, 173, 178,
       181, 185, 186, 187, 189, 190, 196, 198, 228, 232, 233]),
    (0x7fffd8, [1, 135, 137, 138, 139, 140, 141, 143, 147, 149, 150, 151, 152, 155, 157,
       158, 165, 166, 168, 174, 175, 180, 182, 183, 188, 191, 197, 231, 239]),
    (0xffffea, [9, 142, 144, 145, 148, 159, 171, 206, 215, 225, 236, 237]),
    (0x1ffffec, [199, 207, 234, 235]),
    (0x3ffffe0, [192, 193, 200, 201, 202, 205, 210, 213, 218, 219, 238, 240, 242, 243, 255]),
    (0x7ffffde, [203, 204, 211, 212, 214, 221, 222, 223, 241, 244, 245, 246, 247, 248, 250,
       251, 252, 253, 254]),
    (0xfffffe2, [2, 3, 4, 5, 6, 7, 8, 11, 12, 14, 15, 16, 17, 18, 19, 20, 21, 23, 24, 25,
       26, 27, 28, 29, 30, 31, 127, 220, 249]),
    (0x0, []),
    (0x3ffffffc, [10, 13, 22, 256])]"

primrec inverse_on :: "(u32 \<times> nat) list \<Rightarrow> int \<Rightarrow> bool" where
  "inverse_on [] i \<longleftrightarrow> True"
| "inverse_on (e # es) i \<longleftrightarrow>
     (case canonical_symbols ! snd e of
        (first, symbols) \<Rightarrow> symbols ! nat (uint (fst e) - first) = i)
     \<and> inverse_on es (i + 1)"

lemma table_inverse: "inverse_on HUFFMAN_TABLE 0"
  by (simp add: huffman_table_defs canonical_symbols_def)

lemma inverse_on_nth:
  "inverse_on es i \<Longrightarrow> k < length es \<Longrightarrow>
    (case canonical_symbols ! snd (es ! k) of
       (first, symbols) \<Rightarrow> symbols ! nat (uint (fst (es ! k)) - first) = i + int k)"
proof (induction es arbitrary: i k)
  case (Cons e es)
  show ?case
    using Cons.prems Cons.IH [of "i + 1" "k - 1"] by (cases k) (auto split: prod.splits)
qed simp

lemma table_inj:
  assumes "i < 257" and "j < 257" and "HUFFMAN_TABLE ! i = HUFFMAN_TABLE ! j"
  shows "i = j"
  using inverse_on_nth [OF table_inverse, of i] inverse_on_nth [OF table_inverse, of j] assms
  by (simp split: prod.splits)

lemma entry_facts:
  assumes "HUFFMAN_TABLE ! i = (c, n)" and "i < 257"
  shows "5 \<le> n" and "n \<le> 30" and "uint c < 2 ^ n" and "canonical_entry (c, n)"
    and "i < 256 \<Longrightarrow> uint c + 1 < 2 ^ n"
proof -
  show "5 \<le> n" and "n \<le> 30" using code_len [of i] assms by simp_all
  show c: "uint c + 1 < 2 ^ n" if "i < 256"
    using code_values that assms by (auto simp: list_all_length)
  show "uint c < 2 ^ n"
  proof (cases "i < 256")
    case True
    then show ?thesis using c by simp
  next
    case False
    then have "i = 256" using assms(2) by simp
    then show ?thesis using assms(1) by (simp add: EOS_entry)
  qed
  show "canonical_entry (c, n)"
    using entries_canonical [unfolded list_all_length, rule_format, of i] assms by simp
qed

lemma byte_index [simp]: "unat (b :: byte) < 256" "unat (b :: byte) < 257"
proof -
  show "unat b < 256" using unsigned_less [of b, where 'a = nat] by simp
  then show "unat b < 257" by simp
qed

text \<open>The interval of the \<open>i\<close>-th entry; two of them never overlap.\<close>

definition entry_interval :: "nat \<Rightarrow> int set" where
  "entry_interval i =
     (case HUFFMAN_TABLE ! i of (c, n) \<Rightarrow> {uint c * 2 ^ (30 - n) ..< (uint c + 1) * 2 ^ (30 - n)})"

lemma interval_div:
  assumes "v \<in> {k * 2 ^ m ..< (k + 1) * 2 ^ m}"
  shows "v div 2 ^ m = (k :: int)"
  using assms by (intro int_div_pos_eq [where r = "v - k * 2 ^ m"]) (auto simp: algebra_simps)

lemma intervals_disjoint:
  assumes "i < 257" and "j < 257" and "v \<in> entry_interval i" and "v \<in> entry_interval j"
  shows "i = j"
proof -
  have same: "a = b" if ab: "HUFFMAN_TABLE ! a = (c, n)" "HUFFMAN_TABLE ! b = (d, m)" "n \<le> m"
      "a < 257" "b < 257" "v \<in> entry_interval a" "v \<in> entry_interval b" for a b c d n m
  proof -
    have vc: "v \<in> {uint c * 2 ^ (30 - n) ..< (uint c + 1) * 2 ^ (30 - n)}"
      and vd: "v \<in> {uint d * 2 ^ (30 - m) ..< (uint d + 1) * 2 ^ (30 - m)}"
      using ab by (simp_all add: entry_interval_def)
    note ce = entry_facts [OF ab(1,4)] and de = entry_facts [OF ab(2,5)]
    have "n = m"
    proof (rule ccontr)
      assume "n \<noteq> m"
      then have "code_bounds ! Suc n \<le> code_bounds ! m"
        using code_bounds_sorted ab(3) de(2) by (intro sorted_nth_mono) (simp_all add: code_bounds_def)
      then show False using vc vd ce(4) de(4) by (simp add: canonical_entry_def)
    qed
    moreover have "c = d" using interval_div [OF vc] interval_div [OF vd] \<open>n = m\<close> by (simp add: word_uint_eq_iff)
    ultimately show "a = b" using ab by (intro table_inj) simp_all
  qed
  obtain c n d m where "HUFFMAN_TABLE ! i = (c, n)" "HUFFMAN_TABLE ! j = (d, m)"
    by (metis surj_pair)
  then show ?thesis using same [of i c n j d m] same [of j d m i c n] assms by (cases "n \<le> m") auto
qed

lemma bit_uint_less:
  assumes "uint (c :: 'a::len word) < 2 ^ n" and "bit c i"
  shows "i < n"
proof (rule ccontr)
  assume "\<not> i < n"
  have "take_bit n (uint c) = uint c" using assms(1) by (simp add: take_bit_int_eq_self)
  then have "bit (take_bit n (uint c)) i"
    using assms(2) by (simp add: bit_uint_iff bit_imp_le_length)
  then show False using \<open>\<not> i < n\<close> by (simp add: bit_take_bit_iff)
qed

lemma bits_msb_unique:
  assumes "bits_msb n v = bits_msb n w" and "\<And>i. bit v i \<Longrightarrow> i < n" and "\<And>i. bit w i \<Longrightarrow> i < n"
  shows "v = w"
  using assms by (intro bit_word_eqI) (metis bits_msb_eq_iff)

lemma prefix_bits_msb_iff:
  "prefix (bits_msb n c) (bits_msb m d) \<longleftrightarrow> n \<le> m \<and> bits_msb n (drop_bit (m - n) d) = bits_msb n c"
proof (cases "n \<le> m")
  case True
  then show ?thesis
    by (subst bits_msb_split [OF True]) (auto simp: prefix_def append_eq_append_conv_if)
next
  case False
  then show ?thesis by (auto dest: prefix_length_le)
qed

lemma uint_drop_bit: "uint (drop_bit k (w :: 'a::len word)) = uint w div 2 ^ k"
proof -
  have "take_bit LENGTH('a) (uint w) = uint w"
    using unsigned_less [of w] by (simp add: take_bit_int_eq_self)
  then show ?thesis by (simp add: unsigned_drop_bit_eq flip: drop_bit_eq_div)
qed

lemma huff_code_prefix_free:
  assumes "prefix (huff_code a) (huff_code b)"
  shows "a = b"
proof -
  obtain c n d m where c: "HUFFMAN_TABLE ! unat a = (c, n)" and d: "HUFFMAN_TABLE ! unat b = (d, m)"
    by (metis surj_pair)
  note ce = entry_facts [OF c byte_index(2)] and de = entry_facts [OF d byte_index(2)]
  have le: "n \<le> m" and bits: "bits_msb n (drop_bit (m - n) d) = bits_msb n c"
    using assms c d by (simp_all add: huff_code_def prefix_bits_msb_iff)
  have "i < n" if "bit (drop_bit (m - n) d) i" for i
    using bit_uint_less [OF de(3), of "i + (m - n)"] that le by (auto simp: bit_simps add.commute)
  then have "drop_bit (m - n) d = c"
    using bits bit_uint_less [OF ce(3)] by (intro bits_msb_unique [of n]) auto
  then have div: "uint d div 2 ^ (m - n) = uint c" by (auto simp: uint_drop_bit)
  have p: "(2::int) ^ (30 - n) = 2 ^ (m - n) * 2 ^ (30 - m)"
    using le de(2) by (simp flip: power_add)
  have "uint d mod 2 ^ (m - n) < 2 ^ (m - n)" "0 \<le> uint d mod 2 ^ (m - n)" by simp_all
  then have "uint d < (uint c + 1) * 2 ^ (m - n)" and "uint c * 2 ^ (m - n) \<le> uint d"
    using div_mult_mod_eq [of "uint d" "2 ^ (m - n)"] unfolding div distrib_right by linarith+
  then have "uint d * 2 ^ (30 - m) \<in> entry_interval (unat a)"
    by (simp add: entry_interval_def c p flip: mult.assoc)
  moreover have "uint d * 2 ^ (30 - m) \<in> entry_interval (unat b)"
    by (simp add: entry_interval_def d)
  ultimately have "unat a = unat b" using intervals_disjoint by simp
  then show ?thesis by (rule unsigned_word_eqI)
qed

lemma huff_code_length: "5 \<le> length (huff_code b)" "length (huff_code b) \<le> 30"
  using code_len [of "unat b"] by (simp_all add: huff_code_def case_prod_beta)

interpretation huff: prefix_code huff_code UNIV
proof
  show "huff_code s \<noteq> []" for s using huff_code_length(1) [of s] by auto
  show "s = t" if "prefix (huff_code s) (huff_code t)" for s t
    using that by (rule huff_code_prefix_free)
qed

lemma bits_msb_ones: "n \<le> LENGTH('a::len) \<Longrightarrow> bits_msb n (mask n :: 'a word) = replicate n True"
  by (rule nth_equalityI) (auto simp: nth_bits_msb bit_simps)

lemma ones_hold_no_code: "\<not> prefix (huff_code b) (replicate k True)"
proof
  assume pre: "prefix (huff_code b) (replicate k True)"
  obtain c n where c: "HUFFMAN_TABLE ! unat b = (c, n)" by (metis surj_pair)
  note ce = entry_facts [OF c byte_index(2)]
  have "set (huff_code b) \<subseteq> {True}"
    using set_mono_prefix [OF pre] by (auto split: if_splits)
  then have "huff_code b = replicate n True"
    using c by (intro replicate_eqI) (auto simp: huff_code_def)
  then have "bits_msb n c = bits_msb n (mask n :: u32)"
    using c ce(2) by (simp add: huff_code_def bits_msb_ones)
  then have "c = mask n"
    using bit_uint_less [OF ce(3)] by (intro bits_msb_unique [of n]) (auto simp: bit_simps)
  then have "uint c = 2 ^ n - 1"
    using ce(2) by (simp add: uint_mask_eq min_def flip: mask_eq_exp_minus_1)
  then show False using ce(5) by simp
qed

subsection \<open>The code is complete\<close>

lemma kraft_sum: "sum_list (map (\<lambda>(c, n). 2 ^ (30 - n)) HUFFMAN_TABLE) = (2 ^ 30 :: nat)"
  by (simp add: huffman_table_defs)

lemma card_entry_interval: "card (entry_interval i) = (case HUFFMAN_TABLE ! i of (c, n) \<Rightarrow> 2 ^ (30 - n))"
proof (cases "HUFFMAN_TABLE ! i")
  case (Pair c n)
  have "(uint c + 1) * 2 ^ (30 - n) - uint c * 2 ^ (30 - n) = (2::int) ^ (30 - n)"
    by (simp add: distrib_right)
  then show ?thesis using Pair by (simp add: entry_interval_def nat_power_eq)
qed

lemma intervals_cover:
  assumes "0 \<le> v" and "v < 2 ^ 30"
  shows "\<exists>i < 257. v \<in> entry_interval i"
proof -
  let ?U = "\<Union>i \<in> {0..<257}. entry_interval i"
  have sub: "?U \<subseteq> {0..<2 ^ 30}"
  proof
    fix x assume "x \<in> ?U"
    then obtain i where i: "i < 257" "x \<in> entry_interval i" by auto
    obtain c n where c: "HUFFMAN_TABLE ! i = (c, n)" by (metis surj_pair)
    note ce = entry_facts [OF c i(1)]
    have "(uint c + 1) * 2 ^ (30 - n) \<le> 2 ^ n * (2::int) ^ (30 - n)"
      using ce(3) by (intro mult_right_mono) simp_all
    also have "\<dots> = 2 ^ 30" using ce(2) by (simp flip: power_add)
    finally show "x \<in> {0..<2 ^ 30}"
      using i(2) c by (auto simp: entry_interval_def intro: order_trans [rotated])
  qed
  have "card ?U = (\<Sum>i = 0..<257. card (entry_interval i))"
  proof (intro card_UN_disjoint ballI impI)
    show "finite (entry_interval i)" for i by (simp add: entry_interval_def split: prod.split)
    show "entry_interval i \<inter> entry_interval j = {}" if "i \<in> {0..<257}" "j \<in> {0..<257}" "i \<noteq> j" for i j
      using intervals_disjoint [of i j] that by auto
  qed simp
  also have "\<dots> = sum_list (map (\<lambda>(c, n). 2 ^ (30 - n)) HUFFMAN_TABLE)"
    by (simp add: sum_list_sum_nth card_entry_interval)
  also have "\<dots> = card {0..<2 ^ 30 :: int}" by (simp only: kraft_sum) simp
  finally have "?U = {0..<2 ^ 30}" using sub by (intro card_subset_eq) simp_all
  then have "v \<in> ?U" using assms by simp
  then show ?thesis by auto
qed

lemma bits_as_word:
  assumes "length l \<le> LENGTH('a::len)"
  shows "\<exists>w :: 'a word. bits_msb (length l) w = l \<and> (\<forall>i. bit w i \<longrightarrow> i < length l)"
proof (intro exI conjI)
  let ?w = "horner_sum of_bool 2 (rev l) :: 'a word"
  show "bits_msb (length l) ?w = l"
    using assms by (intro nth_equalityI) (auto simp: nth_bits_msb bit_horner_sum_bit_word_iff rev_nth)
  show "\<forall>i. bit ?w i \<longrightarrow> i < length l" by (simp add: bit_horner_sum_bit_word_iff)
qed

lemma uint_clean_less:
  assumes "\<And>i. bit (w :: 'a::len word) i \<Longrightarrow> i < n"
  shows "uint w < 2 ^ n"
proof -
  have "take_bit n w = w" using assms by (intro bit_word_eqI) (auto simp: bit_simps)
  then have "uint w = take_bit n (uint w)" by (metis unsigned_take_bit_eq)
  also have "\<dots> < 2 ^ n" by (rule take_bit_int_less_exp)
  finally show ?thesis .
qed

text \<open>Thirty bits without a code at their head are the EOS symbol.\<close>

lemma incomplete_is_ones:
  assumes "30 \<le> length r" and no: "\<And>s. \<not> prefix (huff_code s) r"
  shows "take 30 r = replicate 30 True"
proof -
  obtain w :: u32 where w: "bits_msb 30 w = take 30 r" and clean: "\<And>i. bit w i \<Longrightarrow> i < 30"
    using bits_as_word [of "take 30 r", where 'a = 32] assms(1) by auto
  have "uint w < 2 ^ 30" using uint_clean_less [of w 30] clean by simp
  from intervals_cover [OF _ this] obtain i where i: "i < 257" "uint w \<in> entry_interval i" by auto
  obtain c n where c: "HUFFMAN_TABLE ! i = (c, n)" by (metis surj_pair)
  have "uint w div 2 ^ (30 - n) = uint c"
    using i(2) c by (intro interval_div) (simp add: entry_interval_def)
  then have dw: "drop_bit (30 - n) w = c" by (simp add: word_uint_eq_iff uint_drop_bit)
  show ?thesis
  proof (cases "i = 256")
    case True
    then have "w = mask 30"
      using dw c by (auto simp: EOS_entry mask_eq_exp_minus_1)
    then show ?thesis using w bits_msb_ones [of 30, where 'a = 32] by simp
  next
    case False
    let ?s = "of_nat i :: byte"
    have "unat ?s = i" using False i(1) by (simp add: unat_of_nat)
    then have "huff_code ?s = bits_msb n c" using c by (simp add: huff_code_def)
    moreover have "prefix (bits_msb n c) (bits_msb 30 w)"
      using dw entry_facts(2) [OF c i(1)] by (simp add: prefix_bits_msb_iff)
    ultimately have "prefix (huff_code ?s) (take 30 r)" using w by simp
    then show ?thesis using no [of ?s] by (metis prefix_order.trans take_is_prefix)
  qed
qed

subsection \<open>The encoder emits the codes\<close>

lemma bits_msb_ucast8: "bits_msb 8 (ucast w :: byte) = bits_msb 8 (w :: 'a::len word)"
  by (simp add: bits_msb_eq_iff bits_msb_def bit_simps)

lemma flush_bits:
  "huffman_flush buf n = (bs, m) \<Longrightarrow> m < 8 \<and> bits_msb n buf = byte_bits bs @ bits_msb m buf"
proof (induction buf n arbitrary: bs m rule: huffman_flush.induct)
  case (1 buf n)
  show ?case
  proof (cases "8 \<le> n")
    case True
    obtain bs' m' where rec: "huffman_flush buf (n - 8) = (bs', m')" by (metis surj_pair)
    show ?thesis
      using "1.prems" "1.IH" [OF True rec] True rec bits_msb_split [OF True, of buf]
      by (auto simp: huffman_flush.simps [of buf n] bits_msb_ucast8)
  next
    case False
    then show ?thesis using "1.prems" by (auto simp: huffman_flush.simps)
  qed
qed

lemma encode_loop_bits:
  "huffman_encode_loop bs buf m = (out, buf', m') \<Longrightarrow> m < 8 \<Longrightarrow>
    m' < 8 \<and> bits_msb m buf @ concat (map huff_code bs) = byte_bits out @ bits_msb m' buf'"
proof (induction bs arbitrary: buf m out)
  case Nil
  then show ?case by simp
next
  case (Cons b bs)
  obtain c n where c: "HUFFMAN_TABLE ! unat b = (c, n)" by (metis surj_pair)
  note ce = entry_facts [OF c byte_index(2)]
  let ?buf = "push_bit n buf OR ucast c"
  obtain fl k where fl: "huffman_flush ?buf (m + n) = (fl, k)" by (metis surj_pair)
  obtain rest where rec: "huffman_encode_loop bs ?buf k = (rest, buf', m')" and out: "out = fl @ rest"
    using Cons.prems(1) c fl by (auto split: prod.splits)
  have "bits_msb m buf @ huff_code b = bits_msb (m + n) ?buf"
    using bits_msb_push [of m n c buf] bit_uint_less [OF ce(3)] Cons.prems(2) ce(2) c
    by (simp add: huff_code_def)
  then have "(bits_msb m buf @ huff_code b) @ concat (map huff_code bs)
      = byte_bits fl @ bits_msb k ?buf @ concat (map huff_code bs)"
    using flush_bits [OF fl] by simp
  then show ?case
    using flush_bits [OF fl] Cons.IH [OF rec] out by simp
qed

lemma huffman_encode_bits:
  "\<exists>k < 8. byte_bits (huffman_encode xs) = concat (map huff_code xs) @ replicate k True"
proof -
  obtain bs buf m where enc: "huffman_encode_loop xs 0 0 = (bs, buf, m)" by (metis surj_pair)
  have m: "m < 8" and bits: "concat (map huff_code xs) = byte_bits bs @ bits_msb m buf"
    using encode_loop_bits [OF enc] by simp_all
  show ?thesis
  proof (cases "m = 0")
    case True
    then show ?thesis using enc bits by (intro exI [of _ 0]) (simp add: huffman_encode_def)
  next
    case False
    let ?b = "push_bit (8 - m) buf OR ucast (mask (8 - m) :: byte)"
    have "ucast (mask (8 - m) :: byte) = (mask (8 - m) :: u64)"
      using m by (intro bit_word_eqI) (auto simp: bit_simps)
    then have last: "huffman_encode xs = bs @ [ucast ?b]"
      using enc False by (simp add: huffman_encode_def Let_def flip: mask_eq_exp_minus_1)
    have "bits_msb (m + (8 - m)) ?b = bits_msb m buf @ bits_msb (8 - m) (mask (8 - m) :: byte)"
      using m by (intro bits_msb_push) (auto simp: bit_simps)
    then have "bits_msb 8 ?b = bits_msb m buf @ replicate (8 - m) True"
      using m by (simp add: bits_msb_ones)
    then show ?thesis
      using last bits False by (intro exI [of _ "8 - m"]) (simp add: bits_msb_ucast8)
  qed
qed

subsection \<open>The decoder reads the codes\<close>

lemma find_symbol_None:
  "find_symbol tbl idx buf avail = Ok None \<Longrightarrow> k < length tbl \<Longrightarrow> snd (tbl ! k) \<le> avail \<Longrightarrow>
    drop_bit (avail - snd (tbl ! k)) buf \<noteq> ucast (fst (tbl ! k))"
proof (induction tbl idx buf avail arbitrary: k rule: find_symbol.induct)
  case (2 code len tbl idx buf avail)
  then show ?case
    by (cases k) (auto simp: Let_def split: if_splits)
qed simp

lemma find_symbol_total:
  "avail \<le> 64 \<Longrightarrow> list_all (\<lambda>e. 0 < snd e) tbl \<Longrightarrow> \<exists>res. find_symbol tbl idx buf avail = Ok res"
  by (induction tbl idx buf avail rule: find_symbol.induct) (auto simp: Let_def)

definition clean :: "u64 \<Rightarrow> nat \<Rightarrow> bool" where
  "clean buf avail \<longleftrightarrow> (\<forall>i. bit buf i \<longrightarrow> i < avail)"

lemma prefix_huff_code_iff:
  assumes c: "HUFFMAN_TABLE ! unat s = (c, n)" and "clean buf avail"
  shows "prefix (huff_code s) (bits_msb avail buf) \<longleftrightarrow> n \<le> avail \<and> drop_bit (avail - n) buf = ucast c"
proof -
  note ce = entry_facts [OF c byte_index(2)]
  have uc: "bits_msb n (ucast c :: u64) = bits_msb n c"
    using ce(2) by (auto simp: bits_msb_def bit_simps)
  have "drop_bit (avail - n) buf = ucast c"
    if le: "n \<le> avail" and eq: "bits_msb n (drop_bit (avail - n) buf) = bits_msb n c"
  proof (rule bits_msb_unique [of n])
    show "bits_msb n (drop_bit (avail - n) buf) = bits_msb n (ucast c :: u64)" using eq uc by simp
    show "i < n" if "bit (drop_bit (avail - n) buf) i" for i
      using that assms(2) le by (auto simp: clean_def bit_simps)
    show "i < n" if "bit (ucast c :: u64) i" for i
      using that bit_uint_less [OF ce(3)] by (auto simp: bit_simps)
  qed
  then show ?thesis
    using c uc by (auto simp: huff_code_def prefix_bits_msb_iff)
qed

lemma drain_symbols_spec:
  "clean buf avail \<Longrightarrow> avail \<le> 64 \<Longrightarrow>
    \<exists>ys buf' avail'. drain_symbols buf avail out = Ok (out @ ys, buf', avail')
      \<and> bits_msb avail buf = concat (map huff_code ys) @ bits_msb avail' buf'
      \<and> clean buf' avail' \<and> (\<forall>s. \<not> prefix (huff_code s) (bits_msb avail' buf'))"
proof (induction buf avail out rule: drain_symbols.induct)
  case (1 buf avail out)
  let ?tbl = "take 256 HUFFMAN_TABLE"
  have "list_all (\<lambda>e. 0 < snd e) ?tbl"
    using code_lens by (fastforce simp: list_all_iff dest: in_set_takeD)
  from find_symbol_total [OF "1.prems"(2) this] obtain res
    where res: "find_symbol ?tbl 0 buf avail = Ok res" by blast
  show ?case
  proof (cases res)
    case None
    have "\<not> prefix (huff_code s) (bits_msb avail buf)" for s
    proof -
      obtain c n where c: "HUFFMAN_TABLE ! unat s = (c, n)" by (metis surj_pair)
      show ?thesis
        using find_symbol_None [OF res [unfolded None], of "unat s"] c "1.prems"(1)
        by (auto simp: prefix_huff_code_iff [OF c])
    qed
    then show ?thesis
      using res None "1.prems" by (intro exI [of _ "[]"]) (simp add: drain_symbols.simps [of buf])
  next
    case (Some sn)
    obtain k n where sn: "sn = (k, n)" by (cases sn)
    let ?s = "of_nat k :: byte" and ?buf = "buf AND (push_bit (avail - n) 1 - 1)"
    from find_symbol_entry [OF res [unfolded Some sn]]
    have k: "k < 256" "n = snd (HUFFMAN_TABLE ! k)" "n \<le> avail"
        "drop_bit (avail - n) buf = ucast (fst (HUFFMAN_TABLE ! k))" by auto
    have us: "unat ?s = k" using k(1) by (simp add: unat_of_nat)
    have n: "5 \<le> n" using code_len [of k] k by simp
    have code: "huff_code ?s = bits_msb n (drop_bit (avail - n) buf)"
      using k code_len [of k] us
      by (auto simp: huff_code_def case_prod_beta bits_msb_def bit_simps)
    have "clean ?buf (avail - n)"
      using "1.prems"(2) n by (auto simp: clean_def bit_simps simp flip: mask_eq_exp_minus_1)
    moreover have "avail - n \<le> 64" using "1.prems"(2) by simp
    ultimately obtain ys buf' avail' where
      ih: "drain_symbols ?buf (avail - n) (out @ [?s]) = Ok ((out @ [?s]) @ ys, buf', avail')"
        "bits_msb (avail - n) ?buf = concat (map huff_code ys) @ bits_msb avail' buf'"
        "clean buf' avail'" "\<forall>s. \<not> prefix (huff_code s) (bits_msb avail' buf')"
      using "1.IH" [OF res Some sn [symmetric]] by blast
    have "bits_msb avail buf = huff_code ?s @ bits_msb (avail - n) ?buf"
      using bits_msb_split [OF k(3), of buf] code n "1.prems"(2) by (simp add: bits_msb_mask [simplified])
    then show ?thesis
      using ih res Some sn by (intro exI [of _ "?s # ys"]) (simp add: drain_symbols.simps [of buf])
  qed
qed

text \<open>
  A stream never leaves more than 56 bits undecoded: wherever it is cut into codes and a rest
  that holds no code, the rest is short.
\<close>

definition short_rests :: "bool list \<Rightarrow> bool" where
  "short_rests B \<longleftrightarrow>
     (\<forall>ys r rem. concat (map huff_code ys) @ r @ rem = B \<longrightarrow> (\<forall>s. \<not> prefix (huff_code s) r)
        \<longrightarrow> length r \<le> 56)"

lemma short_restsD:
  "short_rests B \<Longrightarrow> concat (map huff_code ys) @ r @ rem = B \<Longrightarrow> \<forall>s. \<not> prefix (huff_code s) r
    \<Longrightarrow> length r \<le> 56"
  unfolding short_rests_def by blast

lemma huffman_decode_loop_spec:
  assumes "short_rests B" and "B = concat (map huff_code out) @ bits_msb avail buf @ byte_bits bs"
    and "clean buf avail" and "\<forall>s. \<not> prefix (huff_code s) (bits_msb avail buf)"
  shows "\<exists>out' buf' avail'. huffman_decode_loop bs buf avail out = Ok (out', buf', avail')
    \<and> B = concat (map huff_code out') @ bits_msb avail' buf' \<and> clean buf' avail'
    \<and> (\<forall>s. \<not> prefix (huff_code s) (bits_msb avail' buf')) \<and> avail' \<le> 56"
  using assms(2-4)
proof (induction bs arbitrary: out buf avail)
  case Nil
  have "avail \<le> 56"
    using short_restsD [OF assms(1), of out "bits_msb avail buf" "[]"] Nil by simp
  then show ?case using Nil by simp
next
  case (Cons b bs)
  have avail: "avail \<le> 56"
    using short_restsD [OF assms(1), of out "bits_msb avail buf" "byte_bits (b # bs)"] Cons.prems by simp
  let ?buf = "push_bit 8 buf OR ucast b"
  have bits: "bits_msb (avail + 8) ?buf = bits_msb avail buf @ bits_msb 8 b"
    using avail by (intro bits_msb_push) (auto dest: bit_imp_le_length)
  have "clean ?buf (avail + 8)"
    using Cons.prems(2) avail by (auto simp: clean_def bit_simps dest: bit_imp_le_length)
  from drain_symbols_spec [OF this, of out] avail obtain ys buf' avail' where
    d: "drain_symbols ?buf (avail + 8) out = Ok (out @ ys, buf', avail')"
      "bits_msb (avail + 8) ?buf = concat (map huff_code ys) @ bits_msb avail' buf'"
      "clean buf' avail'" "\<forall>s. \<not> prefix (huff_code s) (bits_msb avail' buf')"
    by auto
  have "(bits_msb avail buf @ bits_msb 8 b) @ byte_bits bs
      = concat (map huff_code ys) @ bits_msb avail' buf' @ byte_bits bs"
    using d(2) bits by simp
  then have "B = concat (map huff_code (out @ ys)) @ bits_msb avail' buf' @ byte_bits bs"
    using Cons.prems(1) by simp
  from Cons.IH [OF this d(3,4)] show ?case using d(1) avail by simp
qed

lemma ones_test:
  assumes "clean buf n" and "n \<le> 56"
  shows "buf AND (push_bit n 1 - 1) = push_bit n 1 - 1 \<longleftrightarrow> bits_msb n buf = replicate n True"
proof -
  have "bits_msb n buf = replicate n True \<longleftrightarrow> buf = mask n"
    using assms bits_msb_ones [of n, where 'a = 64] bits_msb_unique [of n buf "mask n"]
    by (auto simp: clean_def bit_simps)
  moreover have "buf AND mask n = buf"
    using assms(1) by (intro bit_word_eqI) (auto simp: clean_def bit_simps)
  ultimately show ?thesis by (simp flip: mask_eq_exp_minus_1)
qed

lemma huffman_decode_spec:
  assumes "short_rests (byte_bits bs)"
  shows "\<exists>ys r. byte_bits bs = concat (map huff_code ys) @ r \<and> (\<forall>s. \<not> prefix (huff_code s) r)
    \<and> huffman_decode bs \<noteq> Panic
    \<and> (\<forall>out. huffman_decode bs = Ok out \<longleftrightarrow> out = ys \<and> length r \<le> 7 \<and> r = replicate (length r) True)"
proof -
  have "\<forall>s. \<not> prefix (huff_code s) (bits_msb 0 (0 :: u64))"
    using huff.code_nonempty by simp
  from huffman_decode_loop_spec [OF assms, of "[]" 0 0 bs, OF _ _ this] obtain out buf avail where
    d: "huffman_decode_loop bs 0 0 [] = Ok (out, buf, avail)"
      "byte_bits bs = concat (map huff_code out) @ bits_msb avail buf" "clean buf avail"
      "\<forall>s. \<not> prefix (huff_code s) (bits_msb avail buf)" "avail \<le> 56"
    by (auto simp: clean_def)
  have "huffman_decode bs =
      (if 7 < avail then Err (connection_error CompressionError ''huffman: excess padding bits'')
       else if bits_msb avail buf \<noteq> replicate avail True then
         Err (connection_error CompressionError ''huffman: invalid padding'')
       else Ok out)"
    using d(1) ones_test [OF d(3,5)] by (simp add: huffman_decode_def)
  then show ?thesis
    using d(2,4) by (intro exI [of _ out] exI [of _ "bits_msb avail buf"]) (auto split: if_splits)
qed

lemma short_rests_encoded:
  assumes "B = concat (map huff_code xs) @ replicate k True" and "k < 8"
  shows "short_rests B"
  unfolding short_rests_def
proof (intro allI impI)
  fix ys r rem
  assume "concat (map huff_code ys) @ r @ rem = B" and "\<forall>s. \<not> prefix (huff_code s) r"
  then have "(\<exists>z zs. xs = ys @ z # zs \<and> length r < length (huff_code z)) \<or> xs = ys \<and> r @ rem = replicate k True"
    using assms(1) ones_hold_no_code by (intro huff.unique_parse) auto
  then show "length r \<le> 56"
  proof
    assume "\<exists>z zs. xs = ys @ z # zs \<and> length r < length (huff_code z)"
    then obtain z where "length r < length (huff_code z)" by blast
    then show ?thesis using huff_code_length(2) [of z] by simp
  next
    assume "xs = ys \<and> r @ rem = replicate k True"
    then have "length r \<le> k" by (metis le_add1 length_append length_replicate)
    then show ?thesis using assms(2) by simp
  qed
qed

text \<open>The input holds the EOS code nowhere, whatever the alignment.\<close>

definition holds_EOS :: "bytes \<Rightarrow> bool" where
  "holds_EOS bs \<longleftrightarrow> sublist (replicate 30 True) (byte_bits bs)"

lemma short_rests_no_EOS:
  assumes "\<not> holds_EOS bs"
  shows "short_rests (byte_bits bs)"
  unfolding short_rests_def
proof (intro allI impI, rule ccontr)
  fix ys r rem
  assume eq: "concat (map huff_code ys) @ r @ rem = byte_bits bs"
    and no: "\<forall>s. \<not> prefix (huff_code s) r" and long: "\<not> length r \<le> 56"
  have "take 30 r = replicate 30 True" using long no by (intro incomplete_is_ones) auto
  then have "r = replicate 30 True @ drop 30 r" by (metis append_take_drop_id)
  then have "byte_bits bs = concat (map huff_code ys) @ replicate 30 True @ (drop 30 r @ rem)"
    using eq by (metis append.assoc)
  then show False using assms unfolding holds_EOS_def by (metis sublist_appendI)
qed

lemma huffman_decode_encode: "huffman_decode (huffman_encode xs) = Ok xs"
proof -
  obtain k where k: "k < 8" "byte_bits (huffman_encode xs) = concat (map huff_code xs) @ replicate k True"
    using huffman_encode_bits by blast
  from huffman_decode_spec [OF short_rests_encoded [OF k(2,1)]] obtain ys r where
    d: "byte_bits (huffman_encode xs) = concat (map huff_code ys) @ r"
      "\<forall>s. \<not> prefix (huff_code s) r"
      "\<forall>out. huffman_decode (huffman_encode xs) = Ok out
        \<longleftrightarrow> out = ys \<and> length r \<le> 7 \<and> r = replicate (length r) True"
    by blast
  have "(\<exists>z zs. xs = ys @ z # zs \<and> length r < length (huff_code z)) \<or> xs = ys \<and> r @ [] = replicate k True"
    using d(1,2) k(2) ones_hold_no_code by (intro huff.unique_parse) auto
  moreover have False if "xs = ys @ z # zs" "length r < length (huff_code z)" for z zs
  proof -
    show False using arg_cong [OF d(1), of length] arg_cong [OF k(2), of length] that by simp
  qed
  ultimately have "xs = ys" "r = replicate k True" by auto
  then show ?thesis using d(3) k(1) by simp
qed

subsection \<open>Runs of the decoder\<close>

text \<open>
  One byte of a run, checked on the bits: the buffer holds the codes of \<open>ys\<close> and then
  \<open>n\<close> bits \<open>w\<close> whose head is a run of ones, which no code begins with.
\<close>

definition drains :: "u64 \<Rightarrow> nat \<Rightarrow> bytes \<Rightarrow> u64 \<Rightarrow> nat \<Rightarrow> bool" where
  "drains buf avail ys w n \<longleftrightarrow>
     avail \<le> 64 \<and> drop_bit avail buf = 0 \<and> n \<le> 64 \<and> drop_bit n w = 0
     \<and> bits_msb avail buf = concat (map huff_code ys) @ bits_msb n w
     \<and> take 30 (bits_msb n w) = replicate (min 30 n) True"

lemma clean_drop_bit: "drop_bit n w = 0 \<Longrightarrow> clean w n"
  unfolding clean_def
proof (intro allI impI, rule ccontr)
  fix i assume "drop_bit n w = 0" and "bit w i" and "\<not> i < n"
  then have "bit (drop_bit n w) (i - n)"
    using bit_drop_bit_eq [of n w] by (metis comp_apply le_add_diff_inverse not_less)
  then show False using \<open>drop_bit n w = 0\<close> by simp
qed

lemma ones_head_hold_no_code:
  assumes "take 30 r = replicate (min 30 (length r)) True"
  shows "\<not> prefix (huff_code s) r"
proof
  assume "prefix (huff_code s) r"
  moreover have "prefix (take 30 r) r" by (rule take_is_prefix)
  ultimately have "prefix (huff_code s) (take 30 r)"
    using huff_code_length(2) [of s] prefix_length_le [of "huff_code s" r]
    by (auto intro: prefix_length_prefix)
  then show False using assms ones_hold_no_code by metis
qed

lemma drains_run:
  assumes "drains buf avail ys w n"
  shows "drain_symbols buf avail out = Ok (out @ ys, w, n)"
proof -
  have c: "clean buf avail" "clean w n" and bits: "bits_msb avail buf = concat (map huff_code ys) @ bits_msb n w"
    and no: "\<not> prefix (huff_code s) (bits_msb n w)" for s
    using assms clean_drop_bit ones_head_hold_no_code [of "bits_msb n w"] by (auto simp: drains_def)
  from drain_symbols_spec [OF c(1), of out] assms obtain zs w' n' where
    d: "drain_symbols buf avail out = Ok (out @ zs, w', n')"
      "bits_msb avail buf = concat (map huff_code zs) @ bits_msb n' w'"
      "clean w' n'" "\<forall>s. \<not> prefix (huff_code s) (bits_msb n' w')"
    by (auto simp: drains_def)
  have "(\<exists>z zs'. ys = zs @ z # zs' \<and> length (bits_msb n' w') < length (huff_code z))
      \<or> ys = zs \<and> bits_msb n' w' @ [] = bits_msb n w"
    using bits d(2,4) no by (intro huff.unique_parse) auto
  moreover have False if "ys = zs @ z # zs'" "length (bits_msb n' w') < length (huff_code z)" for z zs'
    using arg_cong [OF bits, of length] arg_cong [OF d(2), of length] that by simp
  ultimately have eq: "ys = zs" "bits_msb n' w' = bits_msb n w" by auto
  have "n' = n" using arg_cong [OF eq(2), of length] by simp
  moreover have "w' = w"
    using eq(2) c(2) d(3) \<open>n' = n\<close> by (intro bits_msb_unique [of n]) (auto simp: clean_def)
  ultimately show ?thesis using d(1) eq(1) by simp
qed

lemma decode_loop_byte:
  assumes "drains (push_bit 8 buf OR ucast b) (avail + 8) ys w n"
  shows "huffman_decode_loop (b # bs) buf avail out = huffman_decode_loop bs w n (out @ ys)"
  using assms drains_run [OF assms, of out] by (simp add: drains_def)

lemma EOS_run_bytes:
  "drains (push_bit 8 0 OR ucast (83 :: byte)) (0 + 8) [32] 0x3 2"
  "drains (push_bit 8 0x3 OR ucast (255 :: byte)) (2 + 8) [] 0x3ff 10"
  "drains (push_bit 8 0x3ff OR ucast (255 :: byte)) (10 + 8) [] 0x3ffff 18"
  "drains (push_bit 8 0x3ffff OR ucast (255 :: byte)) (18 + 8) [] 0x3ffffff 26"
  "drains (push_bit 8 0x3ffffff OR ucast (245 :: byte)) (26 + 8) [] 0x3fffffff5 34"
  "drains (push_bit 8 0x3fffffff5 OR ucast (63 :: byte)) (34 + 8) [] 0x3fffffff53f 42"
  "drains (push_bit 8 0x3fffffff53f OR ucast (255 :: byte)) (42 + 8) [] 0x3fffffff53fff 50"
  "drains (push_bit 8 0x3fffffff53fff OR ucast (236 :: byte)) (50 + 8) [] 0x3fffffff53fffec 58"
  by code_simp+

lemma EOS_run_overflow: "find_symbol (take 256 HUFFMAN_TABLE) 0 0xfffffff53fffec7f 66 = Ok (Some (111, 5))"
  by code_simp

lemma EOS_run_rest: "drains 0x1ffffff53fffec7f 61 [30, 104, 123, 72] 0x1f 5"
  by code_simp

lemma EOS_run_last_byte:
  "huffman_decode_loop [127] 0x3fffffff53fffec 58 [32] = Ok ([32, 111, 30, 104, 123, 72], 0x1f, 5)"
proof -
  have buf: "push_bit 8 0x3fffffff53fffec OR ucast (127 :: byte) = (0xfffffff53fffec7f :: u64)"
    by code_simp
  have "drain_symbols 0xfffffff53fffec7f 66 [32] = drain_symbols 0x1ffffff53fffec7f 61 ([32] @ [111])"
    by (subst drain_symbols.simps) (simp add: EOS_run_overflow)
  then show ?thesis by (simp only: huffman_decode_loop.simps buf) (simp add: drains_run [OF EOS_run_rest])
qed

lemma ones_run_bytes:
  "drains (push_bit 8 0 OR ucast (255 :: byte)) (0 + 8) [] 0xff 8"
  "drains (push_bit 8 0xff OR ucast (255 :: byte)) (8 + 8) [] 0xffff 16"
  "drains (push_bit 8 0xffff OR ucast (255 :: byte)) (16 + 8) [] 0xffffff 24"
  "drains (push_bit 8 0xffffff OR ucast (255 :: byte)) (24 + 8) [] 0xffffffff 32"
  "drains (push_bit 8 0xffffffff OR ucast (255 :: byte)) (32 + 8) [] 0xffffffffff 40"
  "drains (push_bit 8 0xffffffffff OR ucast (255 :: byte)) (40 + 8) [] 0xffffffffffff 48"
  "drains (push_bit 8 0xffffffffffff OR ucast (255 :: byte)) (48 + 8) [] 0xffffffffffffff 56"
  "drains (push_bit 8 0xffffffffffffff OR ucast (255 :: byte)) (56 + 8) [] 0xffffffffffffffff 64"
  by code_simp+

lemma ones_run_last_byte: "huffman_decode_loop [255] 0xffffffffffffffff 64 [] = Panic"
proof -
  have buf: "push_bit 8 0xffffffffffffffff OR ucast (255 :: byte) = (0xffffffffffffffff :: u64)"
    by code_simp
  have "find_symbol (take 256 HUFFMAN_TABLE) 0 0xffffffffffffffff 72 = Panic"
    by code_simp
  then have "drain_symbols 0xffffffffffffffff 72 [] = Panic"
    by (subst drain_symbols.simps) simp
  then show ?thesis by (simp only: huffman_decode_loop.simps buf) simp
qed

subsection \<open>Correctness\<close>

text \<open>
  Huffman decoding inverts Huffman encoding, for every byte string: codes that straddle
  bytes, codes of up to 30 bits and every length of padding included.
\<close>

theorem huffman_roundtrip: "huffman_decode (huffman_encode xs) = Ok xs"
  by (rule huffman_decode_encode)

text \<open>
  On inputs without the EOS code the decoder is exact: it does not panic, and it returns
  \<open>out\<close> only for the one byte string that encodes \<open>out\<close>, so every other input (an incomplete
  code, a padding that is too long or not of ones) is rejected.
\<close>

theorem huffman_decode_exact:
  assumes "\<not> holds_EOS bs"
  shows "huffman_decode bs \<noteq> Panic \<and> (\<forall>out. huffman_decode bs = Ok out \<longleftrightarrow> huffman_encode out = bs)"
proof -
  from huffman_decode_spec [OF short_rests_no_EOS [OF assms]] obtain ys r where
    d: "byte_bits bs = concat (map huff_code ys) @ r" "huffman_decode bs \<noteq> Panic"
      "\<forall>out. huffman_decode bs = Ok out \<longleftrightarrow> out = ys \<and> length r \<le> 7 \<and> r = replicate (length r) True"
    by blast
  have "huffman_encode out = bs" if ok: "huffman_decode bs = Ok out" for out
  proof -
    have r: "out = ys" "length r \<le> 7" "r = replicate (length r) True" using ok d(3) by simp_all
    obtain k where k: "k < 8" "byte_bits (huffman_encode ys) = concat (map huff_code ys) @ replicate k True"
      using huffman_encode_bits by blast
    have "8 * length (huffman_encode ys) + length r = 8 * length bs + k"
      using arg_cong [OF k(2), of length] arg_cong [OF d(1), of length] by simp
    then have "length r = k" using k(1) r(2) by presburger
    then have "byte_bits (huffman_encode ys) = byte_bits bs" using k(2) d(1) r(3) by simp
    then show ?thesis using r(1) by (simp add: byte_bits_inj)
  qed
  then show ?thesis using d(2) huffman_decode_encode by metis
qed

theorem huffman_decode_exact_witness:
  "huffman_encode [97] = [0x1f] \<and> huffman_decode [0x1f] = Ok [97]"
proof -
  have enc: "huffman_encode [97] = [0x1f]" by code_simp
  have "\<not> holds_EOS [0x1f]" by (auto simp: holds_EOS_def dest: sublist_length_le)
  then show ?thesis using huffman_decode_exact [of "[0x1f]"] enc by simp
qed

text \<open>
  The EOS code is not rejected. Nine bytes that hold it (a space, EOS, further codes)
  overflow the 64-bit buffer, the decoder takes what is left of EOS for other symbols and
  returns a string that encodes to different bytes; nine bytes of ones make the shift distance
  exceed 63, which is an overflow panic.
\<close>

theorem huffman_decode_overflow:
  "holds_EOS [83, 255, 255, 255, 245, 63, 255, 236, 127]
   \<and> huffman_decode [83, 255, 255, 255, 245, 63, 255, 236, 127] = Ok [32, 111, 30, 104, 123, 72]
   \<and> huffman_encode [32, 111, 30, 104, 123, 72] \<noteq> [83, 255, 255, 255, 245, 63, 255, 236, 127]
   \<and> huffman_decode [255, 255, 255, 255, 255, 255, 255, 255, 255] = Panic"
proof (intro conjI)
  let ?bs = "[83, 255, 255, 255, 245, 63, 255, 236, 127] :: bytes"
  have "byte_bits ?bs = take 6 (byte_bits ?bs) @ replicate 30 True @ drop 36 (byte_bits ?bs)"
    by code_simp
  then show "holds_EOS ?bs" unfolding holds_EOS_def by (metis sublist_appendI)
  show "huffman_decode ?bs = Ok [32, 111, 30, 104, 123, 72]"
    by (simp add: huffman_decode_def decode_loop_byte [OF EOS_run_bytes(1)] decode_loop_byte [OF EOS_run_bytes(2)]
      decode_loop_byte [OF EOS_run_bytes(3)] decode_loop_byte [OF EOS_run_bytes(4)]
      decode_loop_byte [OF EOS_run_bytes(5)] decode_loop_byte [OF EOS_run_bytes(6)]
      decode_loop_byte [OF EOS_run_bytes(7)] decode_loop_byte [OF EOS_run_bytes(8)] EOS_run_last_byte
      del: huffman_decode_loop.simps)
  show "huffman_encode [32, 111, 30, 104, 123, 72] \<noteq> ?bs" by code_simp
  show "huffman_decode [255, 255, 255, 255, 255, 255, 255, 255, 255] = Panic"
    by (simp add: huffman_decode_def decode_loop_byte [OF ones_run_bytes(1)] decode_loop_byte [OF ones_run_bytes(2)]
      decode_loop_byte [OF ones_run_bytes(3)] decode_loop_byte [OF ones_run_bytes(4)]
      decode_loop_byte [OF ones_run_bytes(5)] decode_loop_byte [OF ones_run_bytes(6)]
      decode_loop_byte [OF ones_run_bytes(7)] decode_loop_byte [OF ones_run_bytes(8)] ones_run_last_byte
      del: huffman_decode_loop.simps)
qed

end
