(* ===== verification/Hpack.thy ===== *)
theory Hpack
  imports Hpack_Huffman
begin

text \<open>
  HPACK header compression (\<^verbatim>\<open>moduvex-http/src/protocol/h2/hpack\<close>): the static and the
  dynamic table (\<^verbatim>\<open>table.rs\<close>), the decoder (\<^verbatim>\<open>decoder.rs\<close>) and the encoder
  (\<^verbatim>\<open>encoder.rs\<close>).

  What is shown: the dynamic table holds exactly the newest entries that fit its size limit
  and its size counter is exact; integers and strings are read back as they were written;
  decoding an encoded header list gives that list and leaves the table alone; a string length
  near the top of the range panics.
\<close>

subsection \<open>Tables\<close>

definition STATIC_TABLE_text :: "(string \<times> string) list" where
  "STATIC_TABLE_text = [
    ('''', ''''),
    ('':authority'', ''''),
    ('':method'', ''GET''),
    ('':method'', ''POST''),
    ('':path'', ''/''),
    ('':path'', ''/index.html''),
    ('':scheme'', ''http''),
    ('':scheme'', ''https''),
    ('':status'', ''200''),
    ('':status'', ''204''),
    ('':status'', ''206''),
    ('':status'', ''304''),
    ('':status'', ''400''),
    ('':status'', ''404''),
    ('':status'', ''500''),
    (''accept-charset'', ''''),
    (''accept-encoding'', ''gzip, deflate''),
    (''accept-language'', ''''),
    (''accept-ranges'', ''''),
    (''accept'', ''''),
    (''access-control-allow-origin'', ''''),
    (''age'', ''''),
    (''allow'', ''''),
    (''authorization'', ''''),
    (''cache-control'', ''''),
    (''content-disposition'', ''''),
    (''content-encoding'', ''''),
    (''content-language'', ''''),
    (''content-length'', ''''),
    (''content-location'', ''''),
    (''content-range'', ''''),
    (''content-type'', ''''),
    (''cookie'', ''''),
    (''date'', ''''),
    (''etag'', ''''),
    (''expect'', ''''),
    (''expires'', ''''),
    (''from'', ''''),
    (''host'', ''''),
    (''if-match'', ''''),
    (''if-modified-since'', ''''),
    (''if-none-match'', ''''),
    (''if-range'', ''''),
    (''if-unmodified-since'', ''''),
    (''last-modified'', ''''),
    (''link'', ''''),
    (''location'', ''''),
    (''max-forwards'', ''''),
    (''proxy-authenticate'', ''''),
    (''proxy-authorization'', ''''),
    (''range'', ''''),
    (''referer'', ''''),
    (''refresh'', ''''),
    (''retry-after'', ''''),
    (''server'', ''''),
    (''set-cookie'', ''''),
    (''strict-transport-security'', ''''),
    (''transfer-encoding'', ''''),
    (''user-agent'', ''''),
    (''vary'', ''''),
    (''via'', ''''),
    (''www-authenticate'', '''')]"

definition STATIC_TABLE :: "(bytes \<times> bytes) list" where
  "STATIC_TABLE = map (\<lambda>(n, v). (ascii n, ascii v)) STATIC_TABLE_text"

record dynamic_table =
  dt_entries :: "(bytes \<times> bytes) list"
  current_size :: nat
  max_size :: nat

definition table_new :: "nat \<Rightarrow> dynamic_table" where
  "table_new m = \<lparr>dt_entries = [], current_size = 0, max_size = m\<rparr>"

definition entry_size :: "bytes \<Rightarrow> bytes \<Rightarrow> nat" where
  "entry_size name val = length name + length val + 32"

definition table_lookup :: "dynamic_table \<Rightarrow> nat \<Rightarrow> (bytes \<times> bytes) option" where
  "table_lookup t i = (if i < length (dt_entries t) then Some (dt_entries t ! i) else None)"

definition table_get :: "dynamic_table \<Rightarrow> nat \<Rightarrow> (bytes \<times> bytes) option" where
  "table_get t i =
     (if i = 0 then None
      else if i \<le> 61 then Some (STATIC_TABLE ! i)
      else table_lookup t (i - 62))"

text \<open>\<^verbatim>\<open>evict\<close>: oldest entries leave at the back until the size is within the limit.\<close>

function evict :: "dynamic_table \<Rightarrow> dynamic_table" where
  "evict t =
     (if max_size t < current_size t \<and> dt_entries t \<noteq> [] then
        evict (t\<lparr>dt_entries := butlast (dt_entries t),
                 current_size := current_size t
                   - entry_size (fst (last (dt_entries t))) (snd (last (dt_entries t)))\<rparr>)
      else t)"
  by pat_completeness auto
termination
  by (relation "measure (\<lambda>t. length (dt_entries t))") auto

declare evict.simps [simp del]

definition table_insert :: "dynamic_table \<Rightarrow> bytes \<Rightarrow> bytes \<Rightarrow> dynamic_table" where
  "table_insert t name val =
     (let sz = entry_size name val
      in if max_size t < sz then t\<lparr>dt_entries := [], current_size := 0\<rparr>
         else evict (t\<lparr>current_size := current_size t + sz, dt_entries := (name, val) # dt_entries t\<rparr>))"

definition table_resize :: "dynamic_table \<Rightarrow> nat \<Rightarrow> dynamic_table" where
  "table_resize t new_max = evict (t\<lparr>max_size := new_max\<rparr>)"

subsection \<open>Integers\<close>

definition compression_err :: "string \<Rightarrow> h2_error" where
  "compression_err msg = connection_error CompressionError msg"

text \<open>
  The continuation bytes: \<open>value += ((byte & 0x7f) as u64) << shift\<close> with the overflow check
  of the addition; bits shifted out are lost.
\<close>

fun decode_integer_loop :: "bytes \<Rightarrow> u64 \<Rightarrow> nat \<Rightarrow> nat \<Rightarrow> (u64 \<times> nat) h2_result" where
  "decode_integer_loop [] val shift pos = Err (compression_err ''integer: truncated'')"
| "decode_integer_loop (b # bs) val shift pos =
     (let add = push_bit shift (ucast (b AND 0x7f))
      in if 2 ^ 64 \<le> unat val + unat add then Panic
         else if b AND 0x80 = 0 then Ok (val + add, Suc pos)
         else if 63 < shift + 7 then Err (compression_err ''integer: overflow'')
         else decode_integer_loop bs (val + add) (shift + 7) (Suc pos))"

definition decode_integer :: "bytes \<Rightarrow> nat \<Rightarrow> (u64 \<times> nat) h2_result" where
  "decode_integer buf prefix_bits =
     (case buf of
        [] \<Rightarrow> Err (compression_err ''integer: buffer empty'')
      | b # bs \<Rightarrow>
          (let msk = push_bit prefix_bits 1 - 1;
               prefix_val = ucast (b AND msk) :: u64
           in if prefix_val < ucast msk then Ok (prefix_val, 1)
              else decode_integer_loop bs prefix_val 0 1))"

function encode_integer_loop :: "u64 \<Rightarrow> bytes" where
  "encode_integer_loop remainder =
     (if 128 \<le> remainder then
        ((ucast remainder AND 0x7f) OR 0x80) # encode_integer_loop (drop_bit 7 remainder)
      else [ucast remainder])"
  by pat_completeness auto
termination
proof (relation "measure unat", simp, clarsimp)
  fix r :: u64 assume "128 \<le> r"
  then have "0 < unat r" by (simp add: word_le_nat_alt)
  moreover have "unat (drop_bit 7 r) = unat r div 2 ^ 7"
    by (simp only: unat_drop_bit_eq) (simp only: drop_bit_eq_div)
  ultimately show "unat (drop_bit 7 r) < unat r" by simp
qed

declare encode_integer_loop.simps [simp del]

definition encode_integer :: "u64 \<Rightarrow> nat \<Rightarrow> byte \<Rightarrow> bytes" where
  "encode_integer val prefix_bits first_byte_flags =
     (let max_prefix = push_bit prefix_bits 1 - 1
      in if val < max_prefix then [first_byte_flags OR ucast val]
         else (first_byte_flags OR ucast max_prefix) # encode_integer_loop (val - max_prefix))"

subsection \<open>Strings\<close>

definition decode_string :: "bytes \<Rightarrow> (bytes \<times> nat) h2_result" where
  "decode_string buf =
     (case buf of
        [] \<Rightarrow> Err (compression_err ''string: buffer empty'')
      | b # _ \<Rightarrow>
          bind_outcome (decode_integer buf 7)
            (\<lambda>(len, header_len).
               bind_outcome (usize_add header_len (unat len))
                 (\<lambda>end_pos.
                    if length buf < end_pos then Err (compression_err ''string: truncated'')
                    else
                      (let raw = take (unat len) (drop header_len buf)
                       in bind_outcome (if b AND 0x80 \<noteq> 0 then huffman_decode raw else Ok raw)
                            (\<lambda>result. Ok (result, end_pos))))))"

definition encode_string :: "bytes \<Rightarrow> bytes" where
  "encode_string val = encode_integer (of_nat (length val)) 7 0 @ val"

subsection \<open>Decoder\<close>

definition decode_literal :: "dynamic_table \<Rightarrow> bytes \<Rightarrow> nat \<Rightarrow> (bytes \<times> bytes \<times> nat) h2_result" where
  "decode_literal t buf prefix_bits =
     bind_outcome (decode_integer buf prefix_bits)
       (\<lambda>(name_idx, consumed).
          bind_outcome
            (if name_idx = 0 then
               bind_outcome (decode_string (drop consumed buf)) (\<lambda>(s, n). Ok (s, consumed + n))
             else
               bind_outcome
                 (ok_or (table_get t (unat name_idx)) (compression_err ''literal: name index out of bounds''))
                 (\<lambda>(n, _). Ok (n, consumed)))
            (\<lambda>(name, pos).
               bind_outcome (decode_string (drop pos buf)) (\<lambda>(val, n). Ok (name, val, pos + n))))"

lemma decode_integer_loop_consumed:
  "decode_integer_loop bs val shift pos = Ok (v, n) \<Longrightarrow> pos < n \<and> n \<le> pos + length bs"
  by (induction bs val shift pos rule: decode_integer_loop.induct)
    (auto simp: Let_def split: if_splits)

lemma decode_integer_consumed: "decode_integer buf k = Ok (v, n) \<Longrightarrow> 0 < n \<and> n \<le> length buf"
  by (auto simp: decode_integer_def Let_def dest: decode_integer_loop_consumed
    split: list.splits if_splits)

lemma decode_literal_consumed: "decode_literal t buf k = Ok (a, b, n) \<Longrightarrow> 0 < n"
  by (auto simp: decode_literal_def outcome_simps dest!: decode_integer_consumed split: if_splits)

text \<open>
  The loop over a header block from position \<open>pos\<close>; the dynamic table keeps the changes made
  before an error.
\<close>

function hpack_decode_loop ::
  "dynamic_table \<Rightarrow> bytes \<Rightarrow> nat \<Rightarrow> (bytes \<times> bytes) list \<Rightarrow> (bytes \<times> bytes) list h2_result \<times> dynamic_table"
where
  "hpack_decode_loop t block pos headers =
     (if pos < length block then
        (let b = block ! pos in
         if b AND 0x80 \<noteq> 0 then
           (case decode_integer (drop pos block) 7 of
              Panic \<Rightarrow> (Panic, t)
            | Err e \<Rightarrow> (Err e, t)
            | Ok (idx, consumed) \<Rightarrow>
                if idx = 0 then (Err (compression_err ''indexed header: index 0 is invalid''), t)
                else
                  (case table_get t (unat idx) of
                     None \<Rightarrow> (Err (compression_err ''indexed header: index out of bounds''), t)
                   | Some e \<Rightarrow> hpack_decode_loop t block (pos + consumed) (headers @ [e])))
         else if b AND 0xc0 = 0x40 then
           (case decode_literal t (drop pos block) 6 of
              Panic \<Rightarrow> (Panic, t)
            | Err e \<Rightarrow> (Err e, t)
            | Ok (name, val, consumed) \<Rightarrow>
                hpack_decode_loop (table_insert t name val) block (pos + consumed) (headers @ [(name, val)]))
         else if b AND 0xe0 = 0x20 then
           (case decode_integer (drop pos block) 5 of
              Panic \<Rightarrow> (Panic, t)
            | Err e \<Rightarrow> (Err e, t)
            | Ok (new_size, consumed) \<Rightarrow>
                hpack_decode_loop (table_resize t (unat new_size)) block (pos + consumed) headers)
         else
           (case decode_literal t (drop pos block) 4 of
              Panic \<Rightarrow> (Panic, t)
            | Err e \<Rightarrow> (Err e, t)
            | Ok (name, val, consumed) \<Rightarrow>
                hpack_decode_loop t block (pos + consumed) (headers @ [(name, val)])))
      else (Ok headers, t))"
  by pat_completeness auto
termination
  by (relation "measure (\<lambda>(t, block, pos, headers). length block - pos)")
    (auto dest!: decode_integer_consumed decode_literal_consumed)

declare hpack_decode_loop.simps [simp del]

definition hpack_decode :: "dynamic_table \<Rightarrow> bytes \<Rightarrow> (bytes \<times> bytes) list h2_result \<times> dynamic_table" where
  "hpack_decode t block = hpack_decode_loop t block 0 []"

subsection \<open>Encoder\<close>

datatype static_match = Full nat | NameOnly nat | NoMatch

text \<open>The scan of the static table from entry \<open>i\<close> on; \<open>found\<close> is the first name match (0: none).\<close>

fun static_lookup_loop :: "(bytes \<times> bytes) list \<Rightarrow> nat \<Rightarrow> nat \<Rightarrow> bytes \<Rightarrow> bytes \<Rightarrow> static_match" where
  "static_lookup_loop [] i found name val = (if 0 < found then NameOnly found else NoMatch)"
| "static_lookup_loop ((sn, sv) # es) i found name val =
     (if sn = name then
        (if sv = val then Full i
         else static_lookup_loop es (Suc i) (if found = 0 then i else found) name val)
      else static_lookup_loop es (Suc i) found name val)"

definition static_lookup :: "bytes \<Rightarrow> bytes \<Rightarrow> static_match" where
  "static_lookup name val = static_lookup_loop (drop 1 STATIC_TABLE) 1 0 name val"

definition encode_indexed :: "nat \<Rightarrow> bytes" where
  "encode_indexed i = encode_integer (of_nat i) 7 0x80"

definition encode_literal_indexed_name :: "nat \<Rightarrow> bytes \<Rightarrow> bytes" where
  "encode_literal_indexed_name name_index val = encode_integer (of_nat name_index) 4 0 @ encode_string val"

definition encode_literal_new_name :: "bytes \<Rightarrow> bytes \<Rightarrow> bytes" where
  "encode_literal_new_name name val = 0 # encode_string name @ encode_string val"

definition encode_header :: "bytes \<times> bytes \<Rightarrow> bytes" where
  "encode_header h =
     (case static_lookup (fst h) (snd h) of
        Full idx \<Rightarrow> encode_indexed idx
      | NameOnly idx \<Rightarrow> encode_literal_indexed_name idx (snd h)
      | NoMatch \<Rightarrow> encode_literal_new_name (fst h) (snd h))"

definition hpack_encode :: "(bytes \<times> bytes) list \<Rightarrow> bytes" where
  "hpack_encode headers = concat (map encode_header headers)"

subsection \<open>Integers are read back\<close>

lemma unat_push_bit:
  fixes w :: "'a::len word"
  shows "unat w * 2 ^ n < 2 ^ LENGTH('a) \<Longrightarrow> unat (push_bit n w) = unat w * 2 ^ n"
  by (simp only: unsigned_push_bit_eq) (simp add: take_bit_nat_eq_self push_bit_eq_mult)

lemma byte_low7:
  fixes b :: byte
  shows "((b AND 0x7f) OR 0x80) AND 0x7f = b AND 0x7f"
    and "((b AND 0x7f) OR 0x80) AND 0x80 \<noteq> 0"
    and "ucast (ucast (r :: u64) AND 0x7f :: byte) = take_bit 7 r"
    and "uint (r :: u64) < 2 ^ 7 \<Longrightarrow> (ucast r :: byte) AND 0x80 = 0"
proof -
  have m: "(0x7f :: byte) = mask 7" "(0x80 :: byte) = push_bit 7 1" by (simp_all add: mask_eq_exp_minus_1)
  show "((b AND 0x7f) OR 0x80) AND 0x7f = b AND 0x7f"
    unfolding m by (intro bit_word_eqI) (auto simp: bit_simps simp del: push_bit_of_1)
  have "bit (((b AND 0x7f) OR 0x80) AND 0x80) 7"
    unfolding m by (simp add: bit_simps del: push_bit_of_1)
  then show "((b AND 0x7f) OR 0x80) AND 0x80 \<noteq> 0" by (metis bit_0_eq bot_apply bot_bool_def)
  show "ucast (ucast (r :: u64) AND 0x7f :: byte) = take_bit 7 r"
    unfolding m by (intro bit_word_eqI) (auto simp: bit_simps)
  show "(ucast r :: byte) AND 0x80 = 0" if "uint r < 2 ^ 7"
    unfolding m using bit_uint_less [OF that]
    by (intro bit_word_eqI) (force simp: bit_simps simp del: push_bit_of_1)
qed

lemma decode_integer_loop_roundtrip:
  "unat val + unat r * 2 ^ shift < 2 ^ 64 \<Longrightarrow> shift \<le> 63 \<Longrightarrow>
    decode_integer_loop (encode_integer_loop r @ rest) val shift pos
      = Ok (val + push_bit shift r, pos + length (encode_integer_loop r))"
proof (induction r arbitrary: val shift pos rule: encode_integer_loop.induct)
  case (1 r)
  show ?case
  proof (cases "128 \<le> r")
    case True
    let ?b = "(ucast r AND 0x7f :: byte) OR 0x80"
    let ?add = "push_bit shift (take_bit 7 r)"
    have split: "unat r = unat (take_bit 7 r) + unat (drop_bit 7 r) * 2 ^ 7"
      by (simp only: unsigned_take_bit_eq unat_drop_bit_eq) (simp only: take_bit_eq_mod drop_bit_eq_div mod_div_mult_eq)
    have small: "unat (take_bit 7 r) * 2 ^ shift + unat (drop_bit 7 r) * 2 ^ (shift + 7) = unat r * 2 ^ shift"
      by (simp add: split power_add algebra_simps)
    have add: "unat ?add = unat (take_bit 7 r) * 2 ^ shift"
      using "1.prems"(1) small by (intro unat_push_bit) simp
    have sum: "unat (val + ?add) = unat val + unat ?add"
      using "1.prems"(1) small add by (intro unat_add_lem [THEN iffD1]) simp
    have "2 ^ (shift + 7) \<le> unat r * 2 ^ shift"
      using True by (simp add: word_le_nat_alt power_add)
    then have "(2 :: nat) ^ (shift + 7) < 2 ^ 64" using "1.prems"(1) by simp
    then have sh: "shift + 7 < 64" by (rule power_less_imp_less_exp [rotated]) simp
    have "val + ?add + push_bit (shift + 7) (drop_bit 7 r) = val + push_bit shift r"
    proof -
      have "take_bit 7 r + push_bit 7 (drop_bit 7 r) = r"
        by (metis add.commute bits_ident)
      then have "push_bit shift r = ?add + push_bit shift (push_bit 7 (drop_bit 7 r))"
        by (metis push_bit_add)
      then show ?thesis by (simp add: add.commute)
    qed
    moreover have "decode_integer_loop (encode_integer_loop (drop_bit 7 r) @ rest) (val + ?add) (shift + 7) (Suc pos)
        = Ok (val + ?add + push_bit (shift + 7) (drop_bit 7 r), Suc pos + length (encode_integer_loop (drop_bit 7 r)))"
      using "1.prems"(1) small add sum sh by (intro "1.IH" [OF True]) simp_all
    ultimately show ?thesis
      using True add small sh "1.prems"(1) byte_low7(1,2) [of "ucast r"] byte_low7(3) [of r]
      by (simp add: encode_integer_loop.simps [of r] Let_def)
  next
    case False
    then have r: "uint r < 2 ^ 7" by (simp add: word_le_def)
    then have "take_bit 7 r = r" using bit_uint_less [OF r] by (intro bit_word_eqI) (auto simp: bit_simps)
    then show ?thesis
      using False "1.prems" unat_push_bit [of r shift] byte_low7(3) [of r] byte_low7(4) [OF r]
      by (simp add: encode_integer_loop.simps [of r] Let_def)
  qed
qed

lemma less_mask_uint:
  assumes "v < (mask k :: u64)" and "k \<le> 7"
  shows "uint v < 2 ^ k"
proof -
  have "uint v < uint (mask k :: u64)" using assms(1) by (simp add: word_less_def)
  also have "\<dots> < 2 ^ k"
    unfolding uint_mask_eq using assms(2) by (simp add: mask_eq_exp_minus_1 min_def)
  finally show ?thesis .
qed

lemma decode_integer_roundtrip:
  assumes k: "k \<le> 7" and flags: "flags AND mask k = 0"
  shows "decode_integer (encode_integer v k flags @ rest) k = Ok (v, length (encode_integer v k flags))"
proof -
  have msk: "ucast (mask k :: byte) = (mask k :: u64)" "ucast (mask k :: u64) = (mask k :: byte)"
    using k by (intro bit_word_eqI; auto simp: bit_simps)+
  show ?thesis
  proof (cases "v < mask k")
    case True
    then have v: "uint v < 2 ^ k" using k by (rule less_mask_uint)
    have "(flags OR ucast v) AND mask k = ucast v"
      using bit_uint_less [OF v] flags
      by (simp add: bit.conj_disj_distrib2) (intro bit_word_eqI; auto simp: bit_simps)
    moreover have "ucast (ucast v :: byte) = v"
      using bit_uint_less [OF v] k by (intro bit_word_eqI) (force simp: bit_simps)
    ultimately show ?thesis
      using True msk
      by (simp add: encode_integer_def decode_integer_def Let_def flip: mask_eq_exp_minus_1)
  next
    case False
    have "(flags OR mask k) AND mask k = mask k" by (simp add: and.commute or.commute)
    moreover have "unat (mask k :: u64) + unat (v - mask k) = unat v"
      using False by (simp add: unat_sub not_less word_le_nat_alt)
    ultimately show ?thesis
      using False msk unsigned_less [of v, where 'a = nat]
        decode_integer_loop_roundtrip [of "mask k" "v - mask k" 0 rest 1]
      by (simp add: encode_integer_def decode_integer_def Let_def flip: mask_eq_exp_minus_1)
  qed
qed

lemma encode_integer_nonempty [simp]: "encode_integer v k flags \<noteq> []"
  by (simp add: encode_integer_def Let_def)

text \<open>The flag bits survive in the first byte.\<close>

lemma encode_integer_hd:
  assumes "k \<le> 7" and "f AND mask k = 0"
  shows "hd (encode_integer v k flags @ rest) AND f = flags AND f"
proof -
  have m: "(mask k :: byte) AND f = 0" using assms(2) by (simp add: and.commute)
  have "x AND f = 0" if "x AND mask k = x" for x :: byte
    using m that by (metis and.assoc and_zero_eq)
  moreover have "ucast v AND mask k = (ucast v :: byte)" if "v < mask k"
  proof -
    have v: "uint v < 2 ^ k" using that assms(1) by (rule less_mask_uint)
    show ?thesis using bit_uint_less [OF v] by (intro bit_word_eqI) (auto simp: bit_simps)
  qed
  moreover have "ucast (mask k :: u64) = (mask k :: byte)"
    using assms(1) by (intro bit_word_eqI) (auto simp: bit_simps)
  ultimately show ?thesis
    using m by (simp add: encode_integer_def Let_def bit.conj_disj_distrib2 flip: mask_eq_exp_minus_1)
qed

lemma encode_integer_length_bound: "length (encode_integer_loop r) \<le> 10"
proof -
  have "unat r < 2 ^ (7 * n) \<Longrightarrow> 0 < n \<Longrightarrow> length (encode_integer_loop r) \<le> n" for n
  proof (induction r arbitrary: n rule: encode_integer_loop.induct)
    case (1 r)
    show ?case
    proof (cases "128 \<le> r")
      case True
      obtain m where n: "n = Suc m" using "1.prems" by (cases n) auto
      have d: "unat (drop_bit 7 r) = unat r div 2 ^ 7"
        by (simp only: unat_drop_bit_eq) (simp only: drop_bit_eq_div)
      have r: "128 \<le> unat r" using True by (simp add: word_le_nat_alt)
      then have "0 < m" using "1.prems"(1) n by (cases m) auto
      moreover have "unat (drop_bit 7 r) < 2 ^ (7 * m)"
        unfolding d using "1.prems"(1) n by (intro less_mult_imp_div_less) (simp add: power_add mult.commute)
      ultimately have "length (encode_integer_loop (drop_bit 7 r)) \<le> m" by (intro "1.IH" [OF True])
      then show ?thesis using True n by (simp add: encode_integer_loop.simps [of r])
    next
      case False
      then show ?thesis using "1.prems" by (simp add: encode_integer_loop.simps [of r])
    qed
  qed
  moreover have "unat r < 2 ^ (7 * 10)" using unsigned_less [of r, where 'a = nat] by simp
  ultimately show ?thesis by simp
qed

subsection \<open>Header lists are read back\<close>

lemma decode_string_roundtrip:
  assumes "length s + 11 < 2 ^ 64"
  shows "decode_string (encode_string s @ rest) = Ok (s, length (encode_string s))"
proof -
  let ?n = "encode_integer (of_nat (length s)) 7 0"
  obtain b bs where b: "?n = b # bs" by (cases ?n) auto
  have "b AND 0x80 = 0"
    using encode_integer_hd [of 7 "0x80" "of_nat (length s)" 0 "[]"] b by (simp add: mask_eq_exp_minus_1)
  moreover have "decode_integer (encode_string s @ rest) 7 = Ok (of_nat (length s), length ?n)"
    using decode_integer_roundtrip [of 7 0 "of_nat (length s)" "s @ rest"] by (simp add: encode_string_def)
  moreover have "unat (of_nat (length s) :: u64) = length s"
    using assms by (simp add: unat_of_nat)
  moreover have "length ?n \<le> 11"
    using encode_integer_length_bound by (simp add: encode_integer_def Let_def)
  ultimately show ?thesis
    using assms b by (simp add: decode_string_def encode_string_def usize_limit_def)
qed

interpretation hpack_strings: self_delimiting encode_string "\<lambda>s. length s + 11 < 2 ^ 64" decode_string
proof (unfold_locales, goal_cases)
  case (2 s)
  show ?case by (simp add: encode_string_def encode_integer_def Let_def)
qed (rule decode_string_roundtrip)

text \<open>A name and a value written one after the other are told apart.\<close>

lemma field_strings_unique:
  assumes "length n + 11 < 2 ^ 64" "length v + 11 < 2 ^ 64" "length n' + 11 < 2 ^ 64" "length v' + 11 < 2 ^ 64"
    and "encode_string n @ encode_string v = encode_string n' @ encode_string v'"
  shows "n = n' \<and> v = v'"
  using hpack_strings.items.sequence_unique [of "[n, v]" "[n', v']"] assms by auto

lemma static_lookup_loop_Full:
  "static_lookup_loop es i found name val = Full j \<Longrightarrow> i \<le> j \<and> j < i + length es \<and> es ! (j - i) = (name, val)"
  by (induction es i found name val rule: static_lookup_loop.induct)
    (auto simp: nth_Cons' split: if_splits)

lemma static_lookup_loop_NameOnly:
  "static_lookup_loop es i found name val = NameOnly j \<Longrightarrow> 0 < i \<Longrightarrow>
    0 < found \<and> j = found \<or> i \<le> j \<and> j < i + length es \<and> fst (es ! (j - i)) = name"
proof (induction es i found name val rule: static_lookup_loop.induct)
  case (1 i found name val)
  then show ?case by (simp split: if_splits)
next
  case (2 sn sv es i found name val)
  then show ?case by (fastforce simp: nth_Cons' split: if_splits)
qed

lemma length_STATIC_TABLE [simp]: "length STATIC_TABLE = 62"
  by (simp add: STATIC_TABLE_def STATIC_TABLE_text_def)

lemma static_lookup_Full:
  "static_lookup name val = Full j \<Longrightarrow> 1 \<le> j \<and> j \<le> 61 \<and> STATIC_TABLE ! j = (name, val)"
  unfolding static_lookup_def by (drule static_lookup_loop_Full) (auto simp: nth_drop)

lemma static_lookup_NameOnly:
  "static_lookup name val = NameOnly j \<Longrightarrow> 1 \<le> j \<and> j \<le> 61 \<and> fst (STATIC_TABLE ! j) = name"
  unfolding static_lookup_def by (drule static_lookup_loop_NameOnly) (auto simp: nth_drop)

lemma unat_small_index: "j \<le> 61 \<Longrightarrow> unat (of_nat j :: u64) = j"
  by (simp add: unat_of_nat)

lemma drop_length_append: "pos = length pre \<Longrightarrow> drop pos (pre @ xs) = xs"
  by simp

lemma masks: "(mask 4 :: byte) = 0xf" "(mask 5 :: byte) = 0x1f" "(mask 7 :: byte) = 0x7f"
  by (simp_all add: mask_eq_exp_minus_1)

lemma decode_header_step:
  assumes name: "length (fst h) + 11 < 2 ^ 64" and val: "length (snd h) + 11 < 2 ^ 64"
    and block: "block = pre @ encode_header h @ post" and pos: "pos = length pre"
  shows "hpack_decode_loop t block pos hs = hpack_decode_loop t block (pos + length (encode_header h)) (hs @ [h])"
proof -
  have at: "drop pos block = encode_header h @ post" using block pos by simp
  have ne: "encode_header h \<noteq> []"
    by (simp add: encode_header_def encode_indexed_def encode_literal_indexed_name_def
      encode_literal_new_name_def split: static_match.split)
  have lt: "pos < length block" using block pos ne by simp
  have first: "block ! pos = hd (encode_header h @ post)"
    using at lt by (metis hd_drop_conv_nth)
  show ?thesis
  proof (cases "static_lookup (fst h) (snd h)")
    case (Full j)
    note j = static_lookup_Full [OF Full]
    have enc: "encode_header h = encode_integer (of_nat j) 7 0x80"
      using Full by (simp add: encode_header_def encode_indexed_def)
    have "block ! pos AND 0x80 \<noteq> 0"
      using encode_integer_hd [of 7 "0x80" "of_nat j" "0x80" post] first enc by (simp add: masks)
    moreover have "decode_integer (drop pos block) 7 = Ok (of_nat j, length (encode_header h))"
      using decode_integer_roundtrip [of 7 "0x80" "of_nat j" post] at enc by (simp add: masks)
    moreover have "(of_nat j :: u64) \<noteq> 0" using unat_small_index [of j] j by auto
    moreover have "table_get t j = Some h" using j by (simp add: table_get_def)
    ultimately show ?thesis
      using lt j by (subst hpack_decode_loop.simps) (simp add: Let_def unat_small_index)
  next
    case (NameOnly j)
    note j = static_lookup_NameOnly [OF NameOnly]
    have enc: "encode_header h = encode_integer (of_nat j) 4 0 @ encode_string (snd h)"
      using NameOnly by (simp add: encode_header_def encode_literal_indexed_name_def)
    have flags: "block ! pos AND 0x80 = 0" "block ! pos AND 0xc0 = 0" "block ! pos AND 0xe0 = 0"
      using encode_integer_hd [of 4 _ "of_nat j" 0 "encode_string (snd h) @ post"] first enc
      by (simp_all add: masks)
    have "decode_integer (drop pos block) 4 = Ok (of_nat j, length (encode_integer (of_nat j) 4 0))"
      using decode_integer_roundtrip [of 4 0 "of_nat j" "encode_string (snd h) @ post"] at enc by simp
    moreover have "(of_nat j :: u64) \<noteq> 0" using unat_small_index [of j] j by auto
    moreover have "table_get t j = Some (fst h, snd (STATIC_TABLE ! j))"
      using j by (cases "STATIC_TABLE ! j") (simp add: table_get_def)
    moreover have "decode_string (drop (length (encode_integer (of_nat j) 4 0)) (drop pos block))
        = Ok (snd h, length (encode_string (snd h)))"
      unfolding at enc using decode_string_roundtrip [OF val, of post] by simp
    ultimately have "decode_literal t (drop pos block) 4 = Ok (fst h, snd h, length (encode_header h))"
      using enc j by (simp add: decode_literal_def unat_small_index add.commute)
    then show ?thesis
      using lt flags by (subst hpack_decode_loop.simps) (simp add: Let_def)
  next
    case NoMatch
    have enc: "encode_header h = 0 # encode_string (fst h) @ encode_string (snd h)"
      using NoMatch by (simp add: encode_header_def encode_literal_new_name_def)
    have flags: "block ! pos = 0" using first enc by simp
    have "decode_integer (drop pos block) 4 = Ok (0, 1)"
      using at enc by (simp add: decode_integer_def)
    moreover have "decode_string (drop 1 (drop pos block)) = Ok (fst h, length (encode_string (fst h)))"
      unfolding at enc using decode_string_roundtrip [OF name, of "encode_string (snd h) @ post"] by simp
    moreover have "decode_string (drop (1 + length (encode_string (fst h))) (drop pos block))
        = Ok (snd h, length (encode_string (snd h)))"
      unfolding at enc using decode_string_roundtrip [OF val, of post] by simp
    ultimately have "decode_literal t (drop pos block) 4 = Ok (fst h, snd h, length (encode_header h))"
      using enc by (simp add: decode_literal_def add.commute)
    then show ?thesis
      using lt flags by (subst hpack_decode_loop.simps) (simp add: Let_def)
  qed
qed

definition headers_fit :: "(bytes \<times> bytes) list \<Rightarrow> bool" where
  "headers_fit hs \<longleftrightarrow> list_all (\<lambda>h. length (fst h) + 11 < 2 ^ 64 \<and> length (snd h) + 11 < 2 ^ 64) hs"

lemma decode_headers:
  "headers_fit hs \<Longrightarrow> block = pre @ hpack_encode hs \<Longrightarrow>
    hpack_decode_loop t block (length pre) acc = (Ok (acc @ hs), t)"
proof (induction hs arbitrary: pre acc)
  case Nil
  then show ?case by (simp add: hpack_encode_def hpack_decode_loop.simps)
next
  case (Cons h hs)
  have "hpack_decode_loop t block (length pre) acc
      = hpack_decode_loop t block (length pre + length (encode_header h)) (acc @ [h])"
    using Cons.prems by (intro decode_header_step) (auto simp: headers_fit_def hpack_encode_def)
  also have "\<dots> = (Ok ((acc @ [h]) @ hs), t)"
    using Cons.IH [of "pre @ encode_header h" "acc @ [h]"] Cons.prems
    by (simp add: headers_fit_def hpack_encode_def)
  finally show ?case by simp
qed

subsection \<open>The dynamic table holds the newest entries that fit\<close>

definition table_size :: "(bytes \<times> bytes) list \<Rightarrow> nat" where
  "table_size es = sum_list (map (\<lambda>(n, v). entry_size n v) es)"

fun newest_within :: "nat \<Rightarrow> (bytes \<times> bytes) list \<Rightarrow> (bytes \<times> bytes) list" where
  "newest_within m [] = []"
| "newest_within m (e # es) =
     (if entry_size (fst e) (snd e) \<le> m
      then e # newest_within (m - entry_size (fst e) (snd e)) es else [])"

definition table_inv :: "dynamic_table \<Rightarrow> bool" where
  "table_inv t \<longleftrightarrow> current_size t = table_size (dt_entries t) \<and> current_size t \<le> max_size t"

lemma table_size_simps [simp]:
  "table_size [] = 0"
  "table_size (e # es) = entry_size (fst e) (snd e) + table_size es"
  "table_size (es @ fs) = table_size es + table_size fs"
  by (simp_all add: table_size_def case_prod_beta)

lemma newest_within_all: "table_size es \<le> m \<Longrightarrow> newest_within m es = es"
  by (induction es arbitrary: m) auto

lemma newest_within_snoc: "m < table_size (es @ [e]) \<Longrightarrow> newest_within m (es @ [e]) = newest_within m es"
  by (induction es arbitrary: m) auto

lemma newest_within_size: "table_size (newest_within m es) \<le> m"
  by (induction m es rule: newest_within.induct) auto

lemma newest_within_newest_within:
  "k \<le> m \<Longrightarrow> newest_within k (newest_within m es) = newest_within k es"
  by (induction es arbitrary: k m) auto

lemma newest_within_prefix: "prefix (newest_within m es) es"
  by (induction m es rule: newest_within.induct) auto

lemma evict_newest:
  "current_size t = table_size (dt_entries t) \<Longrightarrow>
    evict t = t\<lparr>dt_entries := newest_within (max_size t) (dt_entries t),
                current_size := table_size (newest_within (max_size t) (dt_entries t))\<rparr>"
proof (induction t rule: evict.induct)
  case (1 t)
  show ?case
  proof (cases "max_size t < current_size t \<and> dt_entries t \<noteq> []")
    case True
    let ?e = "last (dt_entries t)"
    let ?t = "t\<lparr>dt_entries := butlast (dt_entries t),
        current_size := current_size t - entry_size (fst ?e) (snd ?e)\<rparr>"
    have es: "dt_entries t = butlast (dt_entries t) @ [?e]" using True by simp
    have sz: "table_size (dt_entries t) = table_size (butlast (dt_entries t)) + entry_size (fst ?e) (snd ?e)"
      by (subst es) simp
    have nw: "newest_within (max_size t) (dt_entries t) = newest_within (max_size t) (butlast (dt_entries t))"
      using newest_within_snoc [of "max_size t" "butlast (dt_entries t)" ?e] True "1.prems" sz
      by (subst es) simp
    have "evict ?t = ?t\<lparr>dt_entries := newest_within (max_size ?t) (dt_entries ?t),
        current_size := table_size (newest_within (max_size ?t) (dt_entries ?t))\<rparr>"
      using "1.prems" sz by (intro "1.IH" [OF True]) simp
    then show ?thesis using True nw by (subst evict.simps) simp
  next
    case False
    have "table_size (dt_entries t) \<le> max_size t" using False "1.prems" by (cases "dt_entries t") auto
    then show ?thesis using False "1.prems" by (subst evict.simps) (simp add: newest_within_all)
  qed
qed

lemma table_insert_newest:
  assumes "table_inv t"
  shows "dt_entries (table_insert t n v) = newest_within (max_size t) ((n, v) # dt_entries t)"
    and "table_inv (table_insert t n v)" and "max_size (table_insert t n v) = max_size t"
proof -
  let ?t = "t\<lparr>current_size := current_size t + entry_size n v, dt_entries := (n, v) # dt_entries t\<rparr>"
  have ev: "evict ?t = ?t\<lparr>dt_entries := newest_within (max_size ?t) (dt_entries ?t),
      current_size := table_size (newest_within (max_size ?t) (dt_entries ?t))\<rparr>"
    using assms by (intro evict_newest) (simp add: table_inv_def)
  show "dt_entries (table_insert t n v) = newest_within (max_size t) ((n, v) # dt_entries t)"
    by (simp add: table_insert_def ev Let_def)
  show "table_inv (table_insert t n v)"
    using newest_within_size [of "max_size t" "(n, v) # dt_entries t"]
    by (auto simp: table_insert_def ev table_inv_def Let_def simp del: newest_within.simps)
  show "max_size (table_insert t n v) = max_size t" by (simp add: table_insert_def ev Let_def)
qed

lemma table_resize_newest:
  assumes "table_inv t"
  shows "dt_entries (table_resize t m) = newest_within m (dt_entries t)"
    and "table_inv (table_resize t m)" and "max_size (table_resize t m) = m"
proof -
  have ev: "table_resize t m = t\<lparr>max_size := m, dt_entries := newest_within m (dt_entries t),
      current_size := table_size (newest_within m (dt_entries t))\<rparr>"
    using assms evict_newest [of "t\<lparr>max_size := m\<rparr>"] by (simp add: table_resize_def table_inv_def)
  show "dt_entries (table_resize t m) = newest_within m (dt_entries t)" by (simp add: ev)
  show "table_inv (table_resize t m)" using newest_within_size by (simp add: ev table_inv_def)
  show "max_size (table_resize t m) = m" by (simp add: ev)
qed

lemma hpack_decode_loop_inv:
  "table_inv t \<Longrightarrow> table_inv (snd (hpack_decode_loop t block pos hs))"
proof (induction t block pos hs rule: hpack_decode_loop.induct)
  case (1 t block pos hs)
  show ?case
  proof (cases "pos < length block")
    case lt: True
    let ?b = "block ! pos" and ?rest = "drop pos block"
    note unfold = hpack_decode_loop.simps [of t block pos hs] lt Let_def "1.prems"
    consider (indexed) "?b AND 0x80 \<noteq> 0"
      | (insert) "?b AND 0x80 = 0" "?b AND 0xc0 = 0x40"
      | (resize) "?b AND 0x80 = 0" "?b AND 0xc0 \<noteq> 0x40" "?b AND 0xe0 = 0x20"
      | (literal) "?b AND 0x80 = 0" "?b AND 0xc0 \<noteq> 0x40" "?b AND 0xe0 \<noteq> 0x20"
      by blast
    then show ?thesis
    proof cases
      case indexed
      then show ?thesis
        using "1.IH"(1) [OF lt refl indexed _ refl] "1.prems"
        by (cases "decode_integer ?rest 7") (auto simp: unfold split: option.split)
    next
      case insert
      then show ?thesis
        using "1.IH"(2) [OF lt refl _ insert(2) _ refl refl] "1.prems" table_insert_newest(2)
        by (cases "decode_literal t ?rest 6") (auto simp: unfold)
    next
      case resize
      then show ?thesis
        using "1.IH"(3) [OF lt refl _ resize(2,3) _ refl] "1.prems" table_resize_newest(2)
        by (cases "decode_integer ?rest 5") (auto simp: unfold)
    next
      case literal
      then show ?thesis
        using "1.IH"(4) [OF lt refl _ literal(2,3) _ refl refl] "1.prems"
        by (cases "decode_literal t ?rest 4") (auto simp: unfold)
    qed
  next
    case False
    then show ?thesis using "1.prems" by (simp add: hpack_decode_loop.simps)
  qed
qed

subsection \<open>Correctness\<close>

text \<open>
  C5: The decoder reads every encoded header list back, in order and with duplicates, whatever
  its dynamic table holds, and leaves that table as it was; this covers indexed fields, literals
  with an indexed name, literals with a new name, and lengths that need continuation bytes.
\<close>

theorem hpack_roundtrip:
  assumes "headers_fit hs"
  shows "hpack_decode t (hpack_encode hs) = (Ok hs, t)"
  using decode_headers [OF assms, of "hpack_encode hs" "[]" t "[]"] by (simp add: hpack_decode_def)

theorem hpack_roundtrip_witness:
  "hpack_decode (table_new 4096) (hpack_encode [(ascii '':method'', ascii ''GET''), (ascii ''x'', [7]), (ascii ''x'', [])])
     = (Ok [(ascii '':method'', ascii ''GET''), (ascii ''x'', [7]), (ascii ''x'', [])], table_new 4096)"
  by (rule hpack_roundtrip) (simp add: headers_fit_def)

text \<open>
  Prefix-coded integers are read back for every 64-bit value and every prefix of at most
  seven bits: the decoder neither overflows nor rejects one, it consumes exactly the bytes
  written, and flag bits above the prefix do not disturb it.
\<close>

theorem integer_roundtrip:
  assumes "k \<le> 7" and "flags AND mask k = 0"
  shows "decode_integer (encode_integer v k flags @ rest) k = Ok (v, length (encode_integer v k flags))"
  using assms by (rule decode_integer_roundtrip)

theorem integer_roundtrip_witness:
  "decode_integer (encode_integer 1337 5 0x20 @ [9]) 5 = Ok (1337, length (encode_integer 1337 5 0x20))"
  by (rule integer_roundtrip) (simp_all add: masks)

text \<open>
  The dynamic table is the newest entries that fit. After any sequence of insertions into
  an empty table of limit \<open>m\<close> it holds exactly the longest initial part of the history, newest
  first, whose RFC size is within \<open>m\<close>; the size counter is that size, and index \<open>62 + i\<close> is the
  \<open>i\<close>-th newest entry while the indices beyond it are free.
\<close>

theorem table_holds_newest:
  "let t = foldl (\<lambda>t (n, v). table_insert t n v) (table_new m) hs
   in dt_entries t = newest_within m (rev hs) \<and> prefix (dt_entries t) (rev hs)
      \<and> current_size t = table_size (dt_entries t) \<and> current_size t \<le> m
      \<and> (\<forall>i. table_get t (62 + i) = (if i < length (dt_entries t) then Some (rev hs ! i) else None))"
proof -
  let ?run = "\<lambda>hs. foldl (\<lambda>t (n, v). table_insert t n v) (table_new m) hs"
  have run: "dt_entries (?run hs) = newest_within m (rev hs) \<and> table_inv (?run hs) \<and> max_size (?run hs) = m"
  proof (induction hs rule: rev_induct)
    case Nil
    then show ?case by (simp add: table_new_def table_inv_def)
  next
    case (snoc h hs)
    obtain n v where h: "h = (n, v)" by (cases h)
    have "newest_within m ((n, v) # newest_within m (rev hs)) = newest_within m ((n, v) # rev hs)"
      by (simp add: newest_within_newest_within)
    then show ?case using snoc table_insert_newest [of "?run hs" n v] by (simp add: h)
  qed
  moreover have "newest_within m (rev hs) ! i = rev hs ! i" if "i < length (newest_within m (rev hs))" for i
    using newest_within_prefix [of m "rev hs"] that by (metis nth_append prefix_def)
  ultimately show ?thesis
    by (simp add: Let_def table_inv_def newest_within_prefix newest_within_size table_get_def table_lookup_def)
qed

text \<open>
  Decoding keeps the size limit: for every header block, well-formed or not, and also when
  the decoder stops at an error, the table's size counter is exact and within the limit.
\<close>

theorem hpack_decode_table_inv:
  assumes "table_inv t"
  shows "table_inv (snd (hpack_decode t block))"
  using hpack_decode_loop_inv [OF assms] by (simp add: hpack_decode_def)

theorem hpack_decode_table_inv_witness:
  "table_inv (snd (hpack_decode (table_new 4096) [0x40, 1, 97, 1, 98, 0x80]))"
  by (rule hpack_decode_table_inv) (simp add: table_inv_def table_new_def)

text \<open>
  A dynamic table size update takes any value the peer sends as the new limit; it is not
  compared with the limit the decoder was created with.
\<close>

theorem hpack_size_update_unbounded:
  "hpack_decode t (encode_integer n 5 0x20) = (Ok [], table_resize t (unat n))"
proof -
  let ?block = "encode_integer n 5 0x20"
  have hd: "?block ! 0 AND 0x80 = 0" "?block ! 0 AND 0xc0 = 0" "?block ! 0 AND 0xe0 = 0x20"
    using encode_integer_hd [of 5 _ n "0x20" "[]"] by (simp_all add: masks hd_conv_nth [symmetric])
  have dec: "decode_integer ?block 5 = Ok (n, length ?block)"
    using decode_integer_roundtrip [of 5 "0x20" n "[]"] by (simp add: masks)
  have "hpack_decode_loop (table_resize t (unat n)) ?block (length ?block) [] = (Ok [], table_resize t (unat n))"
    by (simp add: hpack_decode_loop.simps)
  then show ?thesis
    using hd dec by (simp add: hpack_decode_def hpack_decode_loop.simps [of t ?block 0] Let_def)
qed

text \<open>
  A header block of a dozen bytes makes the decoder panic: the length of a string is added
  to the length of its header without a check, and a length of \<open>2 ^ 64 - 1\<close> overflows.
\<close>

theorem hpack_length_overflow_panics:
  "hpack_decode t (0 # encode_integer (- 1) 7 0) = (Panic, t)"
proof -
  let ?n = "encode_integer (- 1) 7 0"
  obtain b bs where b: "?n = b # bs" by (cases ?n) auto
  have "decode_integer ?n 7 = Ok (- 1, length ?n)"
    using decode_integer_roundtrip [of 7 0 "- 1" "[]"] by simp
  moreover have "usize_add (length ?n) (unat (- 1 :: u64)) = (Panic :: nat h2_result)"
    using b by (simp add: usize_add_def usize_limit_def unsigned_minus_1_eq_mask mask_eq_exp_minus_1)
  ultimately have "decode_string ?n = Panic"
    using b by (simp add: decode_string_def)
  moreover have "decode_integer (0 # ?n) 4 = Ok (0, 1)" by (simp add: decode_integer_def)
  ultimately have "decode_literal t (0 # ?n) 4 = Panic" by (simp add: decode_literal_def)
  then show ?thesis by (simp add: hpack_decode_def hpack_decode_loop.simps [of t "0 # ?n" 0])
qed

end
