(* ===== verification/Http_Types.thy ===== *)
theory Http_Types
  imports Prelude
begin

text \<open>
  The HTTP vocabulary shared by both protocol versions: methods
  (\<^verbatim>\<open>routing/method.rs\<close>), versions, requests (\<^verbatim>\<open>request.rs\<close>), the header map
  (\<^verbatim>\<open>header.rs\<close>), bodies (\<^verbatim>\<open>body.rs\<close>), status codes (\<^verbatim>\<open>status.rs\<close>) and
  responses (\<^verbatim>\<open>response.rs\<close>), all under \<^verbatim>\<open>moduvex-http/src\<close>.

  Strings are their UTF-8 bytes. The type-erased extension map and the peer address of a
  request are not part of the record. The laws of the header map are a locale, which the
  clients of the map (the HTTP/1 parser and the HTTP/2 request builder) use.
\<close>

subsection \<open>Methods and versions\<close>

datatype http_method = GET | POST | PUT | DELETE | PATCH | HEAD | OPTIONS | TRACE

definition method_from_bytes :: "bytes \<Rightarrow> http_method option" where
  "method_from_bytes b =
     (if b = ascii ''GET'' then Some GET
      else if b = ascii ''POST'' then Some POST
      else if b = ascii ''PUT'' then Some PUT
      else if b = ascii ''DELETE'' then Some DELETE
      else if b = ascii ''PATCH'' then Some PATCH
      else if b = ascii ''HEAD'' then Some HEAD
      else if b = ascii ''OPTIONS'' then Some OPTIONS
      else if b = ascii ''TRACE'' then Some TRACE
      else None)"

primrec method_as_str :: "http_method \<Rightarrow> bytes" where
  "method_as_str GET = ascii ''GET''"
| "method_as_str POST = ascii ''POST''"
| "method_as_str PUT = ascii ''PUT''"
| "method_as_str DELETE = ascii ''DELETE''"
| "method_as_str PATCH = ascii ''PATCH''"
| "method_as_str HEAD = ascii ''HEAD''"
| "method_as_str OPTIONS = ascii ''OPTIONS''"
| "method_as_str TRACE = ascii ''TRACE''"

definition is_safe :: "http_method \<Rightarrow> bool" where
  "is_safe m \<longleftrightarrow> m \<in> {GET, HEAD, OPTIONS, TRACE}"

definition is_idempotent :: "http_method \<Rightarrow> bool" where
  "is_idempotent m \<longleftrightarrow> m \<in> {GET, HEAD, PUT, DELETE, OPTIONS, TRACE}"

lemma method_roundtrip: "method_from_bytes (method_as_str m) = Some m"
  by (cases m) (simp_all add: method_from_bytes_def ascii_def)

datatype http_version = Http10 | Http11 | Http2

primrec version_as_str :: "http_version \<Rightarrow> bytes" where
  "version_as_str Http10 = ascii ''HTTP/1.0''"
| "version_as_str Http11 = ascii ''HTTP/1.1''"
| "version_as_str Http2 = ascii ''HTTP/2.0''"

subsection \<open>Header map\<close>

type_synonym header_map = "(bytes \<times> bytes) list"

text \<open>
  \<^verbatim>\<open>retain_mut\<close> with the \<^verbatim>\<open>replaced\<close> flag: the first entry of that name takes the new
  value, later ones go.
\<close>

fun header_replace :: "header_map \<Rightarrow> bytes \<Rightarrow> bytes \<Rightarrow> bool \<Rightarrow> header_map \<times> bool" where
  "header_replace [] name val replaced = ([], replaced)"
| "header_replace ((n, v) # es) name val replaced =
     (if n = name then
        (if \<not> replaced then
           (let (rest, r) = header_replace es name val True in ((n, val) # rest, r))
         else header_replace es name val replaced)
      else
        (let (rest, r) = header_replace es name val replaced in ((n, v) # rest, r)))"

definition header_insert :: "header_map \<Rightarrow> bytes \<Rightarrow> bytes \<Rightarrow> header_map" where
  "header_insert m name val =
     (let lower = to_ascii_lowercase name;
          (m', replaced) = header_replace m lower val False
      in if replaced then m' else m' @ [(lower, val)])"

definition header_append :: "header_map \<Rightarrow> bytes \<Rightarrow> bytes \<Rightarrow> header_map" where
  "header_append m name val = m @ [(to_ascii_lowercase name, val)]"

definition header_get :: "header_map \<Rightarrow> bytes \<Rightarrow> bytes option" where
  "header_get m name = map_option snd (find (\<lambda>e. fst e = to_ascii_lowercase name) m)"

definition header_get_str :: "header_map \<Rightarrow> bytes \<Rightarrow> bytes option" where
  "header_get_str m name =
     (case header_get m name of None \<Rightarrow> None | Some v \<Rightarrow> if utf8_valid v then Some v else None)"

definition header_get_all :: "header_map \<Rightarrow> bytes \<Rightarrow> bytes list" where
  "header_get_all m name = map snd (filter (\<lambda>e. fst e = to_ascii_lowercase name) m)"

definition header_remove :: "header_map \<Rightarrow> bytes \<Rightarrow> header_map" where
  "header_remove m name = filter (\<lambda>e. fst e \<noteq> to_ascii_lowercase name) m"

definition header_contains :: "header_map \<Rightarrow> bytes \<Rightarrow> bool" where
  "header_contains m name \<longleftrightarrow> list_ex (\<lambda>e. fst e = to_ascii_lowercase name) m"

subsection \<open>Bodies\<close>

text \<open>A streaming body is what has been pushed into its channel and whether it was closed.\<close>

datatype body = Empty | Fixed bytes | Stream "bytes list" bool

definition body_from_bytes :: "bytes \<Rightarrow> body" where
  "body_from_bytes v = (if v = [] then Empty else Fixed v)"

primrec body_into_bytes :: "body \<Rightarrow> bytes" where
  "body_into_bytes Empty = []"
| "body_into_bytes (Fixed v) = v"
| "body_into_bytes (Stream chunks closed) = concat chunks"

primrec body_content_length :: "body \<Rightarrow> nat option" where
  "body_content_length Empty = Some 0"
| "body_content_length (Fixed v) = Some (length v)"
| "body_content_length (Stream chunks closed) = None"

primrec body_is_empty :: "body \<Rightarrow> bool" where
  "body_is_empty Empty \<longleftrightarrow> True"
| "body_is_empty (Fixed v) \<longleftrightarrow> v = []"
| "body_is_empty (Stream chunks closed) \<longleftrightarrow> False"

definition body_channel :: body where
  "body_channel = Stream [] False"

text \<open>\<^verbatim>\<open>BodySender::send\<close>, \<^verbatim>\<open>close\<close> and \<^verbatim>\<open>BodyReceiver::next_chunk\<close> on the channel.\<close>

fun body_send :: "body \<Rightarrow> bytes \<Rightarrow> body" where
  "body_send (Stream chunks closed) chunk = (if closed then Stream chunks closed else Stream (chunks @ [chunk]) closed)"
| "body_send b chunk = b"

fun body_close :: "body \<Rightarrow> body" where
  "body_close (Stream chunks closed) = Stream chunks True"
| "body_close b = b"

fun body_next_chunk :: "body \<Rightarrow> bytes option \<times> body" where
  "body_next_chunk (Stream (c # cs) closed) = (Some c, Stream cs closed)"
| "body_next_chunk b = (None, b)"

lemma body_roundtrip [simp]: "body_into_bytes (body_from_bytes v) = v"
  by (simp add: body_from_bytes_def)

subsection \<open>Status codes\<close>

definition status_constants :: "nat list" where
  "status_constants = [
    100, 101, 102, 103, 200, 201, 202, 203, 204, 205,
    206, 207, 208, 226, 300, 301, 302, 303, 304, 305,
    307, 308, 400, 401, 402, 403, 404, 405, 406, 407,
    408, 409, 410, 411, 412, 413, 414, 415, 416, 417,
    418, 421, 422, 423, 424, 425, 426, 428, 429, 431,
    451, 500, 501, 502, 503, 504, 505, 506, 507, 508,
    510, 511]"

definition status_from_u16 :: "nat \<Rightarrow> nat option" where
  "status_from_u16 code = (if 100 \<le> code \<and> code < 600 then Some code else None)"

definition is_success :: "nat \<Rightarrow> bool" where
  "is_success c \<longleftrightarrow> 200 \<le> c \<and> c < 300"

definition is_client_error :: "nat \<Rightarrow> bool" where
  "is_client_error c \<longleftrightarrow> 400 \<le> c \<and> c < 500"

definition is_server_error :: "nat \<Rightarrow> bool" where
  "is_server_error c \<longleftrightarrow> 500 \<le> c \<and> c < 600"

definition canonical_reasons :: "(nat \<times> string) list" where
  "canonical_reasons = [
    (100, ''Continue''),
    (101, ''Switching Protocols''),
    (102, ''Processing''),
    (103, ''Early Hints''),
    (200, ''OK''),
    (201, ''Created''),
    (202, ''Accepted''),
    (203, ''Non-Authoritative Information''),
    (204, ''No Content''),
    (205, ''Reset Content''),
    (206, ''Partial Content''),
    (207, ''Multi-Status''),
    (208, ''Already Reported''),
    (226, ''IM Used''),
    (300, ''Multiple Choices''),
    (301, ''Moved Permanently''),
    (302, ''Found''),
    (303, ''See Other''),
    (304, ''Not Modified''),
    (305, ''Use Proxy''),
    (307, ''Temporary Redirect''),
    (308, ''Permanent Redirect''),
    (400, ''Bad Request''),
    (401, ''Unauthorized''),
    (402, ''Payment Required''),
    (403, ''Forbidden''),
    (404, ''Not Found''),
    (405, ''Method Not Allowed''),
    (406, ''Not Acceptable''),
    (407, ''Proxy Authentication Required''),
    (408, ''Request Timeout''),
    (409, ''Conflict''),
    (410, ''Gone''),
    (411, ''Length Required''),
    (412, ''Precondition Failed''),
    (413, ''Content Too Large''),
    (414, ''URI Too Long''),
    (415, ''Unsupported Media Type''),
    (416, ''Range Not Satisfiable''),
    (417, ''Expectation Failed''),
    (418, ''I'' @ [CHR 0x27] @ ''m a Teapot''),
    (421, ''Misdirected Request''),
    (422, ''Unprocessable Content''),
    (423, ''Locked''),
    (424, ''Failed Dependency''),
    (425, ''Too Early''),
    (426, ''Upgrade Required''),
    (428, ''Precondition Required''),
    (429, ''Too Many Requests''),
    (431, ''Request Header Fields Too Large''),
    (451, ''Unavailable For Legal Reasons''),
    (500, ''Internal Server Error''),
    (501, ''Not Implemented''),
    (502, ''Bad Gateway''),
    (503, ''Service Unavailable''),
    (504, ''Gateway Timeout''),
    (505, ''HTTP Version Not Supported''),
    (506, ''Variant Also Negotiates''),
    (507, ''Insufficient Storage''),
    (508, ''Loop Detected''),
    (510, ''Not Extended''),
    (511, ''Network Authentication Required'')]"

definition canonical_reason :: "nat \<Rightarrow> bytes" where
  "canonical_reason c = (case map_of canonical_reasons c of Some r \<Rightarrow> ascii r | None \<Rightarrow> [])"

subsection \<open>Numbers as text\<close>

text \<open>Decimal digits, as \<^verbatim>\<open>to_string\<close> writes them, and the integer parser of \<^verbatim>\<open>core\<close>:
  an optional plus sign and at least one digit, \<open>None\<close> on overflow.\<close>

fun decimal :: "nat \<Rightarrow> bytes" where
  "decimal n = (if n < 10 then [of_nat (48 + n)] else decimal (n div 10) @ [of_nat (48 + n mod 10)])"

declare decimal.simps [simp del]

definition digit_value :: "nat \<Rightarrow> nat \<Rightarrow> nat option" where
  "digit_value radix c =
     (let d = (if 48 \<le> c \<and> c \<le> 57 then c - 48
               else if 97 \<le> c \<and> c \<le> 122 then c - 87
               else if 65 \<le> c \<and> c \<le> 90 then c - 55 else 36)
      in if d < radix then Some d else None)"

fun parse_digits :: "nat \<Rightarrow> nat \<Rightarrow> nat list \<Rightarrow> nat \<Rightarrow> nat option" where
  "parse_digits radix limit [] acc = Some acc"
| "parse_digits radix limit (c # cs) acc =
     (case digit_value radix c of
        None \<Rightarrow> None
      | Some d \<Rightarrow> (let v = acc * radix + d in if v < limit then parse_digits radix limit cs v else None))"

definition parse_uint :: "nat \<Rightarrow> nat \<Rightarrow> nat list \<Rightarrow> nat option" where
  "parse_uint radix limit cs =
     (case cs of
        [] \<Rightarrow> None
      | c # rest \<Rightarrow>
          if c = 43 then (if rest = [] then None else parse_digits radix limit rest 0)
          else parse_digits radix limit cs 0)"

subsection \<open>Requests and responses\<close>

record request =
  req_method :: http_method
  req_path :: bytes
  req_query :: "bytes option"
  req_version :: http_version
  req_headers :: header_map
  req_body :: body

definition request_new :: "http_method \<Rightarrow> bytes \<Rightarrow> request" where
  "request_new m p = \<lparr>req_method = m, req_path = p, req_query = None, req_version = Http11,
     req_headers = [], req_body = Empty\<rparr>"

definition request_uri :: "request \<Rightarrow> bytes" where
  "request_uri r = (case req_query r of Some q \<Rightarrow> req_path r @ ascii ''?'' @ q | None \<Rightarrow> req_path r)"

definition str_contains :: "bytes \<Rightarrow> bytes \<Rightarrow> bool" where
  "str_contains s pat \<longleftrightarrow> find_window pat s \<noteq> None"

definition is_keep_alive :: "request \<Rightarrow> bool" where
  "is_keep_alive r =
     (let default = (req_version r = Http11)
      in case header_get_str (req_headers r) (ascii ''connection'') of
           None \<Rightarrow> default
         | Some v \<Rightarrow>
             (let l = to_ascii_lowercase v
              in if str_contains l (ascii ''close'') then False
                 else if str_contains l (ascii ''keep-alive'') then True
                 else default))"

definition request_content_length :: "request \<Rightarrow> nat option" where
  "request_content_length r =
     (case header_get (req_headers r) (ascii ''content-length'') of
        None \<Rightarrow> None
      | Some v \<Rightarrow>
          (case utf8_decode v of None \<Rightarrow> None | Some cs \<Rightarrow> parse_uint 10 (2 ^ 64) (trim cs)))"

record response =
  resp_status :: nat
  resp_headers :: header_map
  resp_body :: body

definition response_new :: "nat \<Rightarrow> response" where
  "response_new st = \<lparr>resp_status = st, resp_headers = [], resp_body = Empty\<rparr>"

definition response_with_body :: "nat \<Rightarrow> bytes \<Rightarrow> response" where
  "response_with_body st b = \<lparr>resp_status = st, resp_headers = [], resp_body = body_from_bytes b\<rparr>"

definition response_header :: "response \<Rightarrow> bytes \<Rightarrow> bytes \<Rightarrow> response" where
  "response_header r name val = r\<lparr>resp_headers := header_insert (resp_headers r) name val\<rparr>"

definition response_content_type :: "response \<Rightarrow> bytes \<Rightarrow> response" where
  "response_content_type r ct = response_header r (ascii ''content-type'') ct"

definition response_text :: "bytes \<Rightarrow> response" where
  "response_text b = response_content_type (response_with_body 200 b) (ascii ''text/plain; charset=utf-8'')"

definition response_json :: "bytes \<Rightarrow> response" where
  "response_json b = response_content_type (response_with_body 200 b) (ascii ''application/json'')"

definition response_not_found :: response where
  "response_not_found =
     response_content_type (response_with_body 404 (ascii ''404 Not Found'')) (ascii ''text/plain; charset=utf-8'')"

definition response_internal_error :: response where
  "response_internal_error =
     response_content_type (response_with_body 500 (ascii ''500 Internal Server Error''))
       (ascii ''text/plain; charset=utf-8'')"

subsection \<open>Laws of the header map\<close>

lemma upper_case_or_32: "65 \<le> (c :: byte) \<Longrightarrow> c \<le> 90 \<Longrightarrow> \<not> (65 \<le> c OR 32 \<and> c OR 32 \<le> 90)"
proof -
  have all: "\<forall>n \<in> set (map of_nat [65..<91]). \<not> (65 \<le> n OR 32 \<and> n OR 32 \<le> (90 :: byte))"
    by code_simp
  assume "65 \<le> c" "c \<le> 90"
  then have "unat c \<in> set [65..<91]" unfolding set_upt by (simp add: word_le_nat_alt)
  then have "(of_nat (unat c) :: byte) \<in> set (map of_nat [65..<91])"
    unfolding set_map by (rule imageI)
  moreover have "of_nat (unat c) = c" by simp
  ultimately show ?thesis using all by metis
qed

lemma to_ascii_lowercase_idem [simp]: "to_ascii_lowercase (to_ascii_lowercase b) = to_ascii_lowercase b"
  using upper_case_or_32 by (auto simp: to_ascii_lowercase_def)

lemma header_replace_True:
  "header_replace m name val True = (filter (\<lambda>e. fst e \<noteq> name) m, True)"
  by (induction m name val True rule: header_replace.induct) auto

lemma header_replace_False:
  "header_replace m name val False = (m', r) \<Longrightarrow>
    r = list_ex (\<lambda>e. fst e = name) m
    \<and> filter (\<lambda>e. fst e \<noteq> name) m' = filter (\<lambda>e. fst e \<noteq> name) m
    \<and> filter (\<lambda>e. fst e = name) m' = (if r then [(name, val)] else [])"
proof (induction m arbitrary: m')
  case (Cons e es)
  obtain n v where e: "e = (n, v)" by (cases e)
  obtain es' r' where rec: "header_replace es name val False = (es', r')" by (metis surj_pair)
  show ?case
    using Cons.prems Cons.IH [of es'] rec by (auto simp: e header_replace_True split: if_splits)
qed simp

lemma find_filter: "find P xs = (case filter P xs of [] \<Rightarrow> None | x # _ \<Rightarrow> Some x)"
  by (induction xs) auto

lemma header_get_filter:
  "header_get m name =
    (case filter (\<lambda>e. fst e = to_ascii_lowercase name) m of [] \<Rightarrow> None | e # _ \<Rightarrow> Some (snd e))"
  by (simp add: header_get_def find_filter split: list.split)

lemma header_insert_filter:
  "filter (\<lambda>e. fst e = k) (header_insert m name val) =
    (if k = to_ascii_lowercase name then [(k, val)] else filter (\<lambda>e. fst e = k) m)"
proof -
  let ?n = "to_ascii_lowercase name"
  obtain m' r where rec: "header_replace m ?n val False = (m', r)" by (metis surj_pair)
  note spec = header_replace_False [OF rec]
  have "filter (\<lambda>e. fst e = k) m' = filter (\<lambda>e. fst e = k) m" if "k \<noteq> ?n"
  proof -
    have "filter (\<lambda>e. fst e = k) (filter (\<lambda>e. fst e \<noteq> ?n) m') = filter (\<lambda>e. fst e = k) (filter (\<lambda>e. fst e \<noteq> ?n) m)"
      using spec by simp
    moreover have "filter (\<lambda>e. fst e = k) (filter (\<lambda>e. fst e \<noteq> ?n) xs) = filter (\<lambda>e. fst e = k) xs"
      for xs :: header_map using that by (auto intro: filter_cong)
    ultimately show ?thesis by simp
  qed
  then show ?thesis using rec spec by (auto simp: header_insert_def)
qed

text \<open>
  What a client of the map relies on: a lookup sees the last value put under a name, whatever
  its case; added values are all kept, in order.
\<close>

locale header_store =
  fixes get :: "'m \<Rightarrow> 'k \<Rightarrow> 'v option" and put :: "'m \<Rightarrow> 'k \<Rightarrow> 'v \<Rightarrow> 'm" and norm :: "'k \<Rightarrow> 'k"
  assumes get_put: "get (put m k v) k' = (if norm k = norm k' then Some v else get m k')"
begin

lemma get_puts:
  "get (foldl (\<lambda>m (k, v). put m k v) m kvs) k'
    = (case filter (\<lambda>(k, v). norm k = norm k') kvs of [] \<Rightarrow> get m k' | es \<Rightarrow> Some (snd (last es)))"
proof (induction kvs rule: rev_induct)
  case (snoc kv kvs)
  obtain k v where kv: "kv = (k, v)" by (cases kv)
  show ?case
  proof (cases "norm k = norm k'")
    case True
    then obtain e es where "filter (\<lambda>(k, v). norm k = norm k') (kvs @ [kv]) = e # es" "last (e # es) = kv"
      using kv by (cases "filter (\<lambda>(k, v). norm k = norm k') kvs") auto
    then show ?thesis using True kv by (simp only: list.case) (simp add: get_put)
  next
    case False
    then show ?thesis using snoc kv by (simp add: get_put)
  qed
qed simp

end

locale header_multi = header_store +
  fixes add :: "'m \<Rightarrow> 'k \<Rightarrow> 'v \<Rightarrow> 'm" and get_all :: "'m \<Rightarrow> 'k \<Rightarrow> 'v list"
  assumes get_all_add: "get_all (add m k v) k' = get_all m k' @ (if norm k = norm k' then [v] else [])"
    and get_first: "get m k' = (case get_all m k' of [] \<Rightarrow> None | v # _ \<Rightarrow> Some v)"
begin

lemma get_all_adds:
  "get_all (foldl (\<lambda>m (k, v). add m k v) m kvs) k'
    = get_all m k' @ map snd (filter (\<lambda>(k, v). norm k = norm k') kvs)"
  by (induction kvs rule: rev_induct) (auto simp: get_all_add)

lemma get_adds_first:
  "get_all m k' = [] \<Longrightarrow> get (foldl (\<lambda>m (k, v). add m k v) m kvs) k'
    = (case filter (\<lambda>(k, v). norm k = norm k') kvs of [] \<Rightarrow> None | e # _ \<Rightarrow> Some (snd e))"
  by (simp add: get_first get_all_adds split: list.split)

end

lemma header_get_all_first: "header_get m k = (case header_get_all m k of [] \<Rightarrow> None | v # _ \<Rightarrow> Some v)"
  by (simp add: header_get_filter header_get_all_def split: list.split)

interpretation headers: header_multi header_get header_insert to_ascii_lowercase header_append header_get_all
proof unfold_locales
  show "header_get (header_insert m k v) k' =
      (if to_ascii_lowercase k = to_ascii_lowercase k' then Some v else header_get m k')" for m k v k'
    unfolding header_get_filter header_insert_filter by auto
qed (auto simp: header_get_all_def header_append_def header_get_all_first [unfolded header_get_all_def])

subsection \<open>Numbers are read back\<close>

lemma parse_digits_append:
  "parse_digits radix limit (xs @ ys) acc =
    (case parse_digits radix limit xs acc of None \<Rightarrow> None | Some v \<Rightarrow> parse_digits radix limit ys v)"
  by (induction xs arbitrary: acc) (auto simp: Let_def split: option.split)

lemma unat_digit: "d < 10 \<Longrightarrow> unat (of_nat (48 + d) :: byte) = 48 + d"
  unfolding unat_of_nat by simp

lemma parse_digits_decimal: "n < limit \<Longrightarrow> parse_digits 10 limit (map unat (decimal n)) 0 = Some n"
proof (induction n rule: decimal.induct)
  case (1 n)
  show ?case
  proof (cases "n < 10")
    case True
    then show ?thesis
      using "1.prems" unat_digit [of n] by (simp add: decimal.simps [of n] digit_value_def)
  next
    case False
    have d: "digit_value 10 (48 + n mod 10) = Some (n mod 10)" by (simp add: digit_value_def)
    have "parse_digits 10 limit (map unat (decimal (n div 10))) 0 = Some (n div 10)"
      using "1.IH" False "1.prems" by simp
    then show ?thesis
      using False "1.prems" d unat_digit [of "n mod 10"]
      by (simp add: decimal.simps [of n] parse_digits_append)
  qed
qed

lemma decimal_nonempty [simp]: "decimal n \<noteq> []"
  by (simp add: decimal.simps [of n])

lemma decimal_digits: "b \<in> set (decimal n) \<Longrightarrow> 48 \<le> unat b \<and> unat b \<le> 57"
proof (induction n rule: decimal.induct)
  case (1 n)
  then show ?case
    using unat_digit [of n] unat_digit [of "n mod 10"]
    by (subst (asm) decimal.simps) (auto split: if_splits)
qed

lemma parse_uint_decimal:
  assumes "n < limit"
  shows "parse_uint 10 limit (map unat (decimal n)) = Some n"
proof -
  obtain b bs where b: "decimal n = b # bs" by (cases "decimal n") auto
  then have "unat b \<noteq> 43" using decimal_digits [of b n] by simp
  then show ?thesis using parse_digits_decimal [OF assms] b by (simp add: parse_uint_def)
qed

lemma decimal_not_whitespace: "b \<in> set (decimal n) \<Longrightarrow> \<not> is_whitespace (unat b)"
  using decimal_digits [of b n] by (auto simp: is_whitespace_def)

lemma trim_decimal: "trim (map unat (decimal n)) = map unat (decimal n)"
proof (rule trim_id)
  show "\<not> is_whitespace (hd (map unat (decimal n)))"
    using decimal_not_whitespace [of "hd (decimal n)" n] by (simp add: hd_map)
  show "\<not> is_whitespace (last (map unat (decimal n)))"
    using decimal_not_whitespace [of "last (decimal n)" n] by (simp add: last_map)
qed simp

lemma utf8_decode_decimal: "utf8_decode (decimal n) = Some (map unat (decimal n))"
  by (rule utf8_decode_ascii) (force simp: list_all_iff dest: decimal_digits)

end
