(* ===== verification/H2_Conn.thy ===== *)
theory H2_Conn
  imports H2_IO H2_Stream Hpack Http_Types "HOL-Library.AList"
begin

text \<open>
  The HTTP/2 connection manager (\<^verbatim>\<open>moduvex-http/src/protocol/h2/connection.rs\<close>, and
  \<^verbatim>\<open>apply_settings\<close> of \<^verbatim>\<open>connection_io.rs\<close>) and the loop that drives it
  (\<^verbatim>\<open>moduvex-http/src/server/h2_handler.rs\<close>). The stream table is an association list
  with distinct keys; the encoder has no state.

  Every operation returns its result together with the new connection (and transport), since a
  failing call keeps the changes made before the failure.
\<close>

subsection \<open>Settings\<close>

definition H2_PREFACE :: bytes where
  "H2_PREFACE = ascii ''PRI * HTTP/2.0'' @ [13, 10, 13, 10] @ ascii ''SM'' @ [13, 10, 13, 10]"

definition DEFAULT_MAX_CONCURRENT_STREAMS :: u32 where "DEFAULT_MAX_CONCURRENT_STREAMS = 100"
definition DEFAULT_MAX_FRAME_SIZE :: u32 where "DEFAULT_MAX_FRAME_SIZE = 16384"
definition DEFAULT_HEADER_TABLE_SIZE :: u32 where "DEFAULT_HEADER_TABLE_SIZE = 4096"
definition DEFAULT_MAX_HEADER_LIST_SIZE :: u32 where "DEFAULT_MAX_HEADER_LIST_SIZE = 65536"

record h2_settings =
  header_table_size :: u32
  enable_push :: bool
  max_concurrent_streams :: u32
  initial_window_size :: u32
  max_frame_size :: u32
  max_header_list_size :: u32

definition settings_default :: h2_settings where
  "settings_default =
     \<lparr>header_table_size = DEFAULT_HEADER_TABLE_SIZE, enable_push = True,
      max_concurrent_streams = DEFAULT_MAX_CONCURRENT_STREAMS,
      initial_window_size = DEFAULT_WINDOW_SIZE, max_frame_size = DEFAULT_MAX_FRAME_SIZE,
      max_header_list_size = DEFAULT_MAX_HEADER_LIST_SIZE\<rparr>"

fun apply_settings :: "h2_settings \<Rightarrow> (u16 \<times> u32) list \<Rightarrow> unit h2_result \<times> h2_settings" where
  "apply_settings s [] = (Ok (), s)"
| "apply_settings s ((ident, val) # values) =
     (if ident = SETTINGS_HEADER_TABLE_SIZE then apply_settings (s\<lparr>header_table_size := val\<rparr>) values
      else if ident = SETTINGS_ENABLE_PUSH then
        (if 1 < val then (Err (connection_error ProtocolError ''ENABLE_PUSH must be 0 or 1''), s)
         else apply_settings (s\<lparr>enable_push := (val = 1)\<rparr>) values)
      else if ident = SETTINGS_MAX_CONCURRENT_STREAMS then
        apply_settings (s\<lparr>max_concurrent_streams := val\<rparr>) values
      else if ident = SETTINGS_INITIAL_WINDOW_SIZE then
        (if 2 ^ 31 - 1 < uint val
         then (Err (connection_error FlowControlError ''INITIAL_WINDOW_SIZE too large''), s)
         else apply_settings (s\<lparr>initial_window_size := val\<rparr>) values)
      else if ident = SETTINGS_MAX_FRAME_SIZE then
        (if val < 16384 \<or> 16777215 < val
         then (Err (connection_error ProtocolError ''MAX_FRAME_SIZE out of range''), s)
         else apply_settings (s\<lparr>max_frame_size := val\<rparr>) values)
      else if ident = SETTINGS_MAX_HEADER_LIST_SIZE then
        apply_settings (s\<lparr>max_header_list_size := val\<rparr>) values
      else apply_settings s values)"

subsection \<open>Connection state\<close>

record h2_conn =
  streams :: "(u32 \<times> h2_stream) list"
  decoder :: dynamic_table
  local_settings :: h2_settings
  remote_settings :: h2_settings
  flow :: flow_controller
  last_stream_id :: u32
  goaway_sent :: bool

definition conn_new :: h2_conn where
  "conn_new =
     \<lparr>streams = [], decoder = table_new (unat DEFAULT_HEADER_TABLE_SIZE),
      local_settings = settings_default, remote_settings = settings_default,
      flow = flow_new (initial_window_size settings_default), last_stream_id = 0,
      goaway_sent = False\<rparr>"

definition put_stream :: "h2_conn \<Rightarrow> u32 \<Rightarrow> h2_stream \<Rightarrow> h2_conn" where
  "put_stream c sid s = c\<lparr>streams := AList.update sid s (streams c)\<rparr>"

subsection \<open>Request builder\<close>

record request_parts =
  rp_method :: http_method
  rp_path :: bytes
  rp_query :: "bytes option"
  rp_headers :: header_map

definition build_path :: "request_parts \<Rightarrow> bytes \<Rightarrow> request_parts" where
  "build_path r val =
     (let full = (if utf8_valid val then val else ascii ''/'')
      in case position (\<lambda>b. b = 63) full of
           Some pos \<Rightarrow>
             (let q = drop (pos + 1) full;
                  r' = r\<lparr>rp_path := take pos full\<rparr>
              in if q \<noteq> [] then r'\<lparr>rp_query := Some q\<rparr> else r')
         | None \<Rightarrow> r\<lparr>rp_path := full\<rparr>)"

definition build_field :: "request_parts \<Rightarrow> bytes \<times> bytes \<Rightarrow> request_parts" where
  "build_field r nv =
     (let (name, val) = nv in
      if name = ascii '':method'' then
        r\<lparr>rp_method := (case method_from_bytes val of Some m \<Rightarrow> m | None \<Rightarrow> GET)\<rparr>
      else if name = ascii '':path'' then build_path r val
      else if name = ascii '':authority'' then
        r\<lparr>rp_headers := header_insert (rp_headers r) (ascii ''host'') val\<rparr>
      else if take 1 name = ascii '':'' then r
      else
        r\<lparr>rp_headers :=
            header_insert (rp_headers r) (if utf8_valid name then name else []) val\<rparr>)"

definition build_request :: "h2_stream \<Rightarrow> request" where
  "build_request s =
     (let r = foldl build_field
                \<lparr>rp_method = GET, rp_path = ascii ''/'', rp_query = None, rp_headers = []\<rparr> (st_headers s)
      in \<lparr>req_method = rp_method r, req_path = rp_path r, req_query = rp_query r, req_version = Http2,
          req_headers = rp_headers r,
          req_body = (if st_body s = [] then Empty else Fixed (st_body s))\<rparr>)"

subsection \<open>Incoming frames\<close>

type_synonym frame_result = "(u32 \<times> request) option h2_result \<times> h2_conn"

definition active_streams :: "h2_conn \<Rightarrow> nat" where
  "active_streams c = length (filter (\<lambda>(k, s). is_open (st_state s)) (streams c))"

definition process_settings :: "h2_conn \<Rightarrow> (u16 \<times> u32) list \<Rightarrow> frame_result" where
  "process_settings c values =
     (case apply_settings (remote_settings c) values of
        (Ok u, s) \<Rightarrow> (Ok None, c\<lparr>remote_settings := s\<rparr>)
      | (Err e, s) \<Rightarrow> (Err e, c\<lparr>remote_settings := s\<rparr>)
      | (Panic, s) \<Rightarrow> (Panic, c\<lparr>remote_settings := s\<rparr>))"

text \<open>The part of the HEADERS arm behind the stream limit; \<open>s\<close> is the stream found or created.\<close>

definition headers_on_stream :: "h2_conn \<Rightarrow> u32 \<Rightarrow> h2_stream \<Rightarrow> bool \<Rightarrow> bool \<Rightarrow> bytes \<Rightarrow> frame_result" where
  "headers_on_stream c sid s end_stream end_headers block =
     (case recv_headers s of
        (Err e, s1) \<Rightarrow> (Err e, put_stream c sid s1)
      | (Panic, s1) \<Rightarrow> (Panic, put_stream c sid s1)
      | (Ok u, s1) \<Rightarrow>
          (case hpack_decode (decoder c) block of
             (Err e, d) \<Rightarrow> (Err e, (put_stream c sid s1)\<lparr>decoder := d\<rparr>)
           | (Panic, d) \<Rightarrow> (Panic, (put_stream c sid s1)\<lparr>decoder := d\<rparr>)
           | (Ok decoded, d) \<Rightarrow>
               (let s2 = s1\<lparr>st_headers := st_headers s1 @ decoded\<rparr>;
                    s3 = (if end_headers then s2\<lparr>st_headers_complete := True\<rparr> else s2);
                    c' = c\<lparr>decoder := d\<rparr>
                in case (if end_stream then recv_end_stream s3 else (Ok (), s3)) of
                     (Err e, s4) \<Rightarrow> (Err e, put_stream c' sid s4)
                   | (Panic, s4) \<Rightarrow> (Panic, put_stream c' sid s4)
                   | (Ok u, s4) \<Rightarrow>
                       (if st_headers_complete s4 \<and> st_state s4 \<in> {HalfClosedRemote, Open} \<and> end_stream
                        then Ok (Some (sid, build_request s4)) else Ok None,
                        put_stream c' sid s4))))"

definition process_headers :: "h2_conn \<Rightarrow> u32 \<Rightarrow> bool \<Rightarrow> bool \<Rightarrow> bytes \<Rightarrow> frame_result" where
  "process_headers c sid end_stream end_headers block =
     (let c1 = c\<lparr>last_stream_id := max (last_stream_id c) sid\<rparr>;
          active = (of_nat (active_streams c1) :: u32)
      in if map_of (streams c1) sid = None \<and> max_concurrent_streams (local_settings c1) \<le> active
         then (Err (stream_error sid RefusedStream ''MAX_CONCURRENT_STREAMS exceeded''), c1)
         else
           headers_on_stream c1 sid
             (case map_of (streams c1) sid of
                Some s \<Rightarrow> s
              | None \<Rightarrow> stream_new sid (initial_window_size (remote_settings c1)))
             end_stream end_headers block)"

definition process_continuation :: "h2_conn \<Rightarrow> u32 \<Rightarrow> bool \<Rightarrow> bytes \<Rightarrow> frame_result" where
  "process_continuation c sid end_headers block =
     (case map_of (streams c) sid of
        None \<Rightarrow> (Err (connection_error ProtocolError ''CONTINUATION on unknown stream''), c)
      | Some s \<Rightarrow>
          (case hpack_decode (decoder c) block of
             (Err e, d) \<Rightarrow> (Err e, c\<lparr>decoder := d\<rparr>)
           | (Panic, d) \<Rightarrow> (Panic, c\<lparr>decoder := d\<rparr>)
           | (Ok decoded, d) \<Rightarrow>
               (let s2 = s\<lparr>st_headers := st_headers s @ decoded\<rparr>;
                    s3 = (if end_headers then s2\<lparr>st_headers_complete := True\<rparr> else s2)
                in (Ok None, put_stream (c\<lparr>decoder := d\<rparr>) sid s3))))"

definition process_data :: "h2_conn \<Rightarrow> u32 \<Rightarrow> bool \<Rightarrow> bytes \<Rightarrow> frame_result" where
  "process_data c sid end_stream payload =
     (let len = (of_nat (length payload) :: u32) in
      case consume_recv (flow c) len of
        (Err e, f) \<Rightarrow> (Err e, c\<lparr>flow := f\<rparr>)
      | (Panic, f) \<Rightarrow> (Panic, c\<lparr>flow := f\<rparr>)
      | (Ok u, f) \<Rightarrow>
          (let c1 = c\<lparr>flow := f\<rparr> in
           case map_of (streams c1) sid of
             None \<Rightarrow> (Err (stream_error sid StreamClosed ''DATA on unknown stream''), c1)
           | Some s \<Rightarrow>
               (case consume_recv_window s len of
                  (Err e, s1) \<Rightarrow> (Err e, put_stream c1 sid s1)
                | (Panic, s1) \<Rightarrow> (Panic, put_stream c1 sid s1)
                | (Ok u, s1) \<Rightarrow>
                    (let s2 = s1\<lparr>st_body := st_body s1 @ payload\<rparr> in
                     if end_stream then
                       (case recv_end_stream s2 of
                          (Err e, s3) \<Rightarrow> (Err e, put_stream c1 sid s3)
                        | (Panic, s3) \<Rightarrow> (Panic, put_stream c1 sid s3)
                        | (Ok u, s3) \<Rightarrow> (Ok (Some (sid, build_request s3)), put_stream c1 sid s3))
                     else (Ok None, put_stream c1 sid s2)))))"

definition process_window_update :: "h2_conn \<Rightarrow> u32 \<Rightarrow> u32 \<Rightarrow> frame_result" where
  "process_window_update c sid increment =
     (if sid = 0 then
        (case flow_window_update (flow c) increment of
           (Ok u, f) \<Rightarrow> (Ok None, c\<lparr>flow := f\<rparr>)
         | (Err e, f) \<Rightarrow> (Err e, c\<lparr>flow := f\<rparr>)
         | (Panic, f) \<Rightarrow> (Panic, c\<lparr>flow := f\<rparr>))
      else
        (case map_of (streams c) sid of
           None \<Rightarrow> (Ok None, c)
         | Some s \<Rightarrow>
             (case add_send_window s increment of
                (Ok u, s1) \<Rightarrow> (Ok None, put_stream c sid s1)
              | (Err e, s1) \<Rightarrow> (Err e, put_stream c sid s1)
              | (Panic, s1) \<Rightarrow> (Panic, put_stream c sid s1))))"

definition process_rst_stream :: "h2_conn \<Rightarrow> u32 \<Rightarrow> frame_result" where
  "process_rst_stream c sid =
     (case map_of (streams c) sid of
        None \<Rightarrow> (Ok None, c)
      | Some s \<Rightarrow> (Ok None, put_stream c sid (stream_reset s)))"

fun process_frame :: "h2_conn \<Rightarrow> h2_frame \<Rightarrow> frame_result" where
  "process_frame c (FSettings ack values) = (if ack then (Ok None, c) else process_settings c values)"
| "process_frame c (FHeaders sid end_stream end_headers block) =
     process_headers c sid end_stream end_headers block"
| "process_frame c (FContinuation sid end_headers block) = process_continuation c sid end_headers block"
| "process_frame c (FData sid end_stream payload) = process_data c sid end_stream payload"
| "process_frame c (FWindowUpdate sid increment) = process_window_update c sid increment"
| "process_frame c (FPing ack data) = (Ok None, c)"
| "process_frame c (FGoaway last_id code debug) = (Ok None, c\<lparr>goaway_sent := True\<rparr>)"
| "process_frame c (FRstStream sid code) = process_rst_stream c sid"
| "process_frame c (FPushPromise sid promised block) =
     (Err (stream_error sid ProtocolError ''clients may not send PUSH_PROMISE''), c)"
| "process_frame c (FPriority sid ex dep weight) = (Ok None, c)"

subsection \<open>Preface\<close>

definition our_settings :: "h2_conn \<Rightarrow> h2_frame" where
  "our_settings c =
     FSettings False
       [(SETTINGS_MAX_CONCURRENT_STREAMS, max_concurrent_streams (local_settings c)),
        (SETTINGS_INITIAL_WINDOW_SIZE, initial_window_size (local_settings c)),
        (SETTINGS_MAX_FRAME_SIZE, max_frame_size (local_settings c))]"

definition handle_preface :: "h2_conn \<Rightarrow> transport \<Rightarrow> bytes \<Rightarrow> unit h2_result \<times> h2_conn \<times> transport" where
  "handle_preface c t pre_read =
     (case read_exact_with_prefix t (length H2_PREFACE) pre_read of
        (Err e, t1) \<Rightarrow> (Err e, c, t1)
      | (Panic, t1) \<Rightarrow> (Panic, c, t1)
      | (Ok magic, t1) \<Rightarrow>
          if magic \<noteq> H2_PREFACE then
            (Err (connection_error ProtocolError ''invalid connection preface''), c, t1)
          else
            (case read_frame t1 of
               (Err e, t2) \<Rightarrow> (Err e, c, t2)
             | (Panic, t2) \<Rightarrow> (Panic, c, t2)
             | (Ok (FSettings False values), t2) \<Rightarrow>
                 (case apply_settings (remote_settings c) values of
                    (Err e, s) \<Rightarrow> (Err e, c\<lparr>remote_settings := s\<rparr>, t2)
                  | (Panic, s) \<Rightarrow> (Panic, c\<lparr>remote_settings := s\<rparr>, t2)
                  | (Ok u, s) \<Rightarrow>
                      (let c1 = c\<lparr>remote_settings := s\<rparr> in
                       case write_frame t2 (our_settings c1) of
                         (Err e, t3) \<Rightarrow> (Err e, c1, t3)
                       | (Panic, t3) \<Rightarrow> (Panic, c1, t3)
                       | (Ok u, t3) \<Rightarrow>
                           (let (r, t4) = write_frame t3 (FSettings True []) in (r, c1, t4))))
             | (Ok f, t2) \<Rightarrow>
                 (Err (connection_error ProtocolError ''expected SETTINGS after preface''), c, t2)))"

subsection \<open>Outgoing frames\<close>

type_synonym send_result = "unit h2_result \<times> h2_conn \<times> transport"

definition mark_end_sent :: "h2_conn \<Rightarrow> u32 \<Rightarrow> h2_conn" where
  "mark_end_sent c sid =
     (case map_of (streams c) sid of
        None \<Rightarrow> c
      | Some s \<Rightarrow> put_stream c sid (snd (send_end_stream s)))"

definition consume_stream_send :: "h2_conn \<Rightarrow> u32 \<Rightarrow> u32 \<Rightarrow> unit h2_result \<times> h2_conn" where
  "consume_stream_send c sid len =
     (case map_of (streams c) sid of
        None \<Rightarrow> (Ok (), c)
      | Some s \<Rightarrow> (let (r, s1) = consume_send_window s len in (r, put_stream c sid s1)))"

text \<open>
  The loop of \<^verbatim>\<open>send_data\<close> from \<open>offset\<close> on; with a chunk size of zero it never ends, which
  is the value \<open>None\<close>.
\<close>

partial_function (option) send_data_loop ::
  "h2_conn \<Rightarrow> u32 \<Rightarrow> bytes \<Rightarrow> transport \<Rightarrow> nat \<Rightarrow> nat \<Rightarrow> send_result option" where
  [code]: "send_data_loop c sid data t max_chunk offset =
     (if offset < length data then
        (let end_pos = min (offset + max_chunk) (length data);
             chunk = take (end_pos - offset) (drop offset data);
             end_stream = (end_pos = length data)
         in case consume_send (flow c) (of_nat (length chunk)) of
              (Err e, f) \<Rightarrow> Some (Err e, c\<lparr>flow := f\<rparr>, t)
            | (Panic, f) \<Rightarrow> Some (Panic, c\<lparr>flow := f\<rparr>, t)
            | (Ok u, f) \<Rightarrow>
                (case consume_stream_send (c\<lparr>flow := f\<rparr>) sid (of_nat (length chunk)) of
                   (Err e, c1) \<Rightarrow> Some (Err e, c1, t)
                 | (Panic, c1) \<Rightarrow> Some (Panic, c1, t)
                 | (Ok u, c1) \<Rightarrow>
                     (case write_frame t (FData sid end_stream chunk) of
                        (Err e, t1) \<Rightarrow> Some (Err e, c1, t1)
                      | (Panic, t1) \<Rightarrow> Some (Panic, c1, t1)
                      | (Ok u, t1) \<Rightarrow>
                          send_data_loop (if end_stream then mark_end_sent c1 sid else c1) sid data t1
                            max_chunk end_pos)))
      else Some (Ok (), c, t))"

definition send_data :: "h2_conn \<Rightarrow> u32 \<Rightarrow> bytes \<Rightarrow> transport \<Rightarrow> send_result option" where
  "send_data c sid data t = send_data_loop c sid data t (unat (max_frame_size (local_settings c))) 0"

definition remove_closed :: "h2_conn \<Rightarrow> u32 \<Rightarrow> h2_conn" where
  "remove_closed c sid =
     (case map_of (streams c) sid of
        None \<Rightarrow> c
      | Some s \<Rightarrow> if st_state s = Closed then c\<lparr>streams := AList.delete sid (streams c)\<rparr> else c)"

definition response_fields :: "response \<Rightarrow> (bytes \<times> bytes) list" where
  "response_fields resp = (ascii '':status'', decimal (resp_status resp)) # resp_headers resp"

definition send_response :: "h2_conn \<Rightarrow> u32 \<Rightarrow> response \<Rightarrow> transport \<Rightarrow> send_result option" where
  "send_response c sid resp t =
     (let header_block = hpack_encode (response_fields resp);
          body_bytes = body_into_bytes (resp_body resp);
          has_body = (body_bytes \<noteq> [])
      in case write_frame t (FHeaders sid (\<not> has_body) True header_block) of
           (Err e, t1) \<Rightarrow> Some (Err e, c, t1)
         | (Panic, t1) \<Rightarrow> Some (Panic, c, t1)
         | (Ok u, t1) \<Rightarrow>
             (let c1 = (if \<not> has_body then mark_end_sent c sid else c)
              in case (if has_body then send_data c1 sid body_bytes t1 else Some (Ok (), c1, t1)) of
                   None \<Rightarrow> None
                 | Some (Err e, c2, t2) \<Rightarrow> Some (Err e, c2, t2)
                 | Some (Panic, c2, t2) \<Rightarrow> Some (Panic, c2, t2)
                 | Some (Ok u, c2, t2) \<Rightarrow> Some (Ok (), remove_closed c2 sid, t2)))"

definition send_goaway :: "h2_conn \<Rightarrow> transport \<Rightarrow> h2_error_code \<Rightarrow> send_result" where
  "send_goaway c t code =
     (case write_frame t (FGoaway (last_stream_id c) (error_code_u32 code) []) of
        (Ok u, t1) \<Rightarrow> (Ok (), c\<lparr>goaway_sent := True\<rparr>, t1)
      | (r, t1) \<Rightarrow> (r, c, t1))"

subsection \<open>The frame loop\<close>

text \<open>
  Steps 3 and 4 of one turn of \<^verbatim>\<open>run_h2_connection\<close> on a frame that was read: the PING
  answer, \<^verbatim>\<open>process_frame\<close>, RST\_STREAM or GOAWAY for its error, the SETTINGS acknowledgement
  and the test for the end of the loop. The results of the writes are dropped, as in the code.
\<close>

datatype loop_turn = Continue | Break | Crash

definition handle_frame ::
  "h2_conn \<Rightarrow> transport \<Rightarrow> h2_frame \<Rightarrow> loop_turn \<times> (u32 \<times> request) option \<times> h2_conn \<times> transport" where
  "handle_frame c t frame =
     (case frame of
        FPing False data \<Rightarrow> (Continue, None, c, snd (write_frame t (FPing True data)))
      | _ \<Rightarrow>
          (let needs_settings_ack = (case frame of FSettings ack values \<Rightarrow> \<not> ack | _ \<Rightarrow> False);
               finish = (\<lambda>req c1 t1.
                 let t2 = (if needs_settings_ack then snd (write_frame t1 (FSettings True [])) else t1)
                 in (if goaway_sent c1 then Break else Continue, req, c1, t2))
           in case process_frame c frame of
                (Panic, c1) \<Rightarrow> (Crash, None, c1, t)
              | (Ok req, c1) \<Rightarrow> finish req c1 t
              | (Err e, c1) \<Rightarrow>
                  if he_stream_id e = 0 then
                    (let (r, c2, t2) = send_goaway c1 t (he_code e) in (Break, None, c2, t2))
                  else
                    finish None c1 (snd (write_frame t (FRstStream (he_stream_id e) (error_code_u32 (he_code e)))))))"

text \<open>One turn of the loop once the finished responses were sent: read a frame and handle it.\<close>

definition h2_turn :: "h2_conn \<Rightarrow> transport \<Rightarrow> loop_turn \<times> (u32 \<times> request) option \<times> h2_conn \<times> transport" where
  "h2_turn c t =
     (case read_frame t of
        (Ok frame, t1) \<Rightarrow> handle_frame c t1 frame
      | (Err e, t1) \<Rightarrow> (let (r, c2, t2) = send_goaway c t1 (he_code e) in (Break, None, c2, t2))
      | (Panic, t1) \<Rightarrow> (Crash, None, c, t1))"

definition is_h2_preface :: "bytes \<Rightarrow> bool" where
  "is_h2_preface buf \<longleftrightarrow> take 3 buf = ascii ''PRI''"

subsection \<open>The stream table\<close>

lemma set_AList_update: "set (AList.update k v al) \<subseteq> insert (k, v) (set al)"
  by (induction al) auto

lemma filter_update_le:
  "length (filter P (AList.update k v al)) \<le> Suc (length (filter P al))"
  by (induction al) auto

lemma filter_update_same:
  "map_of al k = Some w \<Longrightarrow> (P (k, v) \<Longrightarrow> P (k, w)) \<Longrightarrow>
    length (filter P (AList.update k v al)) \<le> length (filter P al)"
  by (induction al) (auto split: if_splits)

lemma filter_update_closed:
  "\<not> P (k, v) \<Longrightarrow> length (filter P (AList.update k v al)) \<le> length (filter P al)"
  by (induction al) auto

lemma map_of_put [simp]:
  "map_of (streams (put_stream c sid s)) k = (if k = sid then Some s else map_of (streams c) k)"
  by (simp add: put_stream_def update_conv')

lemma put_stream_simps [simp]:
  "decoder (put_stream c sid s) = decoder c" "local_settings (put_stream c sid s) = local_settings c"
  "remote_settings (put_stream c sid s) = remote_settings c" "flow (put_stream c sid s) = flow c"
  "last_stream_id (put_stream c sid s) = last_stream_id c" "goaway_sent (put_stream c sid s) = goaway_sent c"
  by (simp_all add: put_stream_def)

definition stream_ok :: "u32 \<times> h2_stream \<Rightarrow> bool" where
  "stream_ok ks \<longleftrightarrow>
     st_id (snd ks) = fst ks \<and> st_send_window (snd ks) \<le> MAX_WINDOW \<and> st_state (snd ks) \<noteq> Idle"

definition conn_inv :: "h2_conn \<Rightarrow> bool" where
  "conn_inv c \<longleftrightarrow>
     distinct (map fst (streams c)) \<and> list_all stream_ok (streams c) \<and> table_inv (decoder c)
     \<and> active_streams c \<le> unat (max_concurrent_streams (local_settings c))
     \<and> uint (initial_window_size (remote_settings c)) \<le> MAX_WINDOW
     \<and> fc_send_window (flow c) \<le> MAX_WINDOW
     \<and> local_settings c = settings_default"

lemma conn_inv_put:
  assumes "conn_inv c" and "stream_ok (sid, s)"
    and "is_open (st_state s) \<Longrightarrow>
      (\<exists>s0. map_of (streams c) sid = Some s0 \<and> is_open (st_state s0))
      \<or> active_streams c < unat (max_concurrent_streams (local_settings c))"
  shows "conn_inv (put_stream c sid s)"
proof -
  let ?P = "\<lambda>(k, s). is_open (st_state s)"
  have bound: "active_streams c \<le> unat (max_concurrent_streams (local_settings c))"
    using assms(1) by (auto simp: conn_inv_def)
  have "active_streams (put_stream c sid s) \<le> unat (max_concurrent_streams (local_settings c))"
  proof (cases "is_open (st_state s)")
    case False
    then show ?thesis
      using filter_update_closed [of ?P sid s "streams c"] bound
      by (simp add: active_streams_def put_stream_def)
  next
    case True
    from assms(3) [OF True] show ?thesis
    proof
      assume "\<exists>s0. map_of (streams c) sid = Some s0 \<and> is_open (st_state s0)"
      then show ?thesis
        using filter_update_same [of "streams c" sid _ ?P s] bound
        by (fastforce simp: active_streams_def put_stream_def)
    next
      assume "active_streams c < unat (max_concurrent_streams (local_settings c))"
      then show ?thesis
        using filter_update_le [of ?P sid s "streams c"]
        by (simp add: active_streams_def put_stream_def)
    qed
  qed
  moreover have "list_all stream_ok (streams (put_stream c sid s))"
    using assms(1,2) set_AList_update [of sid s "streams c"]
    by (auto simp: put_stream_def conn_inv_def list_all_iff)
  moreover have "distinct (map fst (streams (put_stream c sid s)))"
    using assms(1) by (simp add: put_stream_def conn_inv_def distinct_update)
  ultimately show ?thesis using assms(1) by (auto simp: conn_inv_def)
qed

lemma conn_inv_lookup: "conn_inv c \<Longrightarrow> map_of (streams c) sid = Some s \<Longrightarrow> stream_ok (sid, s)"
  by (auto simp: conn_inv_def list_all_iff dest: map_of_SomeD)

lemma conn_inv_other [simp]:
  "conn_inv (c\<lparr>last_stream_id := n\<rparr>) = conn_inv c" "conn_inv (c\<lparr>goaway_sent := b\<rparr>) = conn_inv c"
  by (simp_all add: conn_inv_def active_streams_def)

lemma conn_inv_decoder [intro]: "conn_inv c \<Longrightarrow> table_inv d \<Longrightarrow> conn_inv (c\<lparr>decoder := d\<rparr>)"
  by (auto simp: conn_inv_def active_streams_def)

lemma conn_inv_flow [intro]: "conn_inv c \<Longrightarrow> fc_send_window f \<le> MAX_WINDOW \<Longrightarrow> conn_inv (c\<lparr>flow := f\<rparr>)"
  by (auto simp: conn_inv_def active_streams_def)

lemma conn_inv_remote [intro]:
  "conn_inv c \<Longrightarrow> uint (initial_window_size r) \<le> MAX_WINDOW \<Longrightarrow> conn_inv (c\<lparr>remote_settings := r\<rparr>)"
  by (auto simp: conn_inv_def active_streams_def)

lemma conn_inv_new: "conn_inv conn_new"
  by (simp add: conn_inv_def conn_new_def active_streams_def table_inv_def table_new_def flow_new_def
    settings_default_def DEFAULT_WINDOW_SIZE_def MAX_WINDOW_def)

lemma conn_invD:
  assumes "conn_inv c"
  shows "table_inv (decoder c)" "uint (initial_window_size (remote_settings c)) \<le> MAX_WINDOW"
    "fc_send_window (flow c) \<le> MAX_WINDOW"
  using assms by (simp_all add: conn_inv_def)

subsection \<open>Every frame keeps the invariant\<close>

lemma apply_settings_window:
  "uint (initial_window_size s) \<le> MAX_WINDOW \<Longrightarrow>
    uint (initial_window_size (snd (apply_settings s vs))) \<le> MAX_WINDOW"
  by (induction s vs rule: apply_settings.induct) (auto simp: MAX_WINDOW_def)

lemma process_settings_inv: "conn_inv c \<Longrightarrow> conn_inv (snd (process_settings c vs))"
  using apply_settings_window [OF conn_invD(2), of c vs]
  by (auto simp: process_settings_def split: prod.split outcome.split)

lemma hpack_decode_inv: "table_inv t \<Longrightarrow> hpack_decode t block = (r, d) \<Longrightarrow> table_inv d"
  using hpack_decode_loop_inv [of t block 0 "[]"] by (simp add: hpack_decode_def)

lemma recv_headers_cases:
  "recv_headers s = (r, s') \<Longrightarrow>
    r = Ok () \<and> st_state s = Idle \<and> s' = s\<lparr>st_state := Open\<rparr> \<or> (\<exists>e. r = Err e) \<and> st_state s \<noteq> Idle \<and> s' = s"
  by (auto simp: recv_headers_def split: stream_state.splits)

lemma recv_end_stream_cases:
  "recv_end_stream s = (r, s') \<Longrightarrow>
    r = Ok () \<and> (st_state s = Open \<and> s' = s\<lparr>st_state := HalfClosedRemote\<rparr>
      \<or> st_state s = HalfClosedLocal \<and> s' = s\<lparr>st_state := Closed\<rparr>)
    \<or> (\<exists>e. r = Err e) \<and> s' = s \<and> st_state s \<in> {Idle, HalfClosedRemote, Closed}"
  by (auto simp: recv_end_stream_def split: stream_state.splits)

lemma headers_on_stream_inv:
  assumes inv: "conn_inv c" and ok: "st_id s = sid" "st_send_window s \<le> MAX_WINDOW"
    and room: "st_state s = Idle \<Longrightarrow> active_streams c < unat (max_concurrent_streams (local_settings c))"
    and same: "st_state s \<noteq> Idle \<Longrightarrow> map_of (streams c) sid = Some s"
  shows "conn_inv (snd (headers_on_stream c sid s es eh block))"
proof (cases "recv_headers s")
  case (Pair r s1)
  from recv_headers_cases [OF Pair] consider
    (ok) "r = Ok ()" "st_state s = Idle" "s1 = s\<lparr>st_state := Open\<rparr>"
    | (err) e where "r = Err e" "st_state s \<noteq> Idle" "s1 = s" by blast
  then show ?thesis
  proof cases
    case err
    then show ?thesis
      using Pair same ok by (auto simp: headers_on_stream_def stream_ok_def intro!: conn_inv_put [OF inv])
  next
    case ok': ok
    obtain r2 d where dec: "hpack_decode (decoder c) block = (r2, d)" by (metis surj_pair)
    have d: "table_inv d" using hpack_decode_inv [OF conn_invD(1) [OF inv] dec] .
    have put: "conn_inv (put_stream (c\<lparr>decoder := d'\<rparr>) sid s')"
      if "stream_ok (sid, s')" "table_inv d'" for s' d'
      using that room [OF ok'(2)]
      by (intro conn_inv_put conn_inv_decoder inv) (auto simp: active_streams_def)
    have put': "conn_inv ((put_stream c sid s1)\<lparr>decoder := d\<rparr>)"
      using room [OF ok'(2)] ok ok'(3) d
      by (intro conn_inv_decoder conn_inv_put inv) (auto simp: stream_ok_def)
    show ?thesis
    proof (cases r2)
      case (Ok decoded)
      let ?s3 = "if eh then s1\<lparr>st_headers := st_headers s1 @ decoded, st_headers_complete := True\<rparr>
        else s1\<lparr>st_headers := st_headers s1 @ decoded\<rparr>"
      have s3: "stream_ok (sid, ?s3)" using ok ok'(3) by (simp add: stream_ok_def)
      obtain r4 s4 where s4: "(if es then recv_end_stream ?s3 else (Ok (), ?s3)) = (r4, s4)"
        by (metis surj_pair)
      then have "stream_ok (sid, s4)"
        using s3 recv_end_stream_cases [of ?s3 r4 s4] by (auto simp: stream_ok_def split: if_splits)
      then have "conn_inv (put_stream (c\<lparr>decoder := d\<rparr>) sid s4)" using d by (rule put)
      then show ?thesis
        using Pair ok'(1) dec Ok s4
        by (auto simp: headers_on_stream_def Let_def split: outcome.split if_splits)
    qed (use Pair ok'(1) dec put' in \<open>auto simp: headers_on_stream_def\<close>)
  qed
qed

lemma process_headers_inv:
  assumes "conn_inv c"
  shows "conn_inv (snd (process_headers c sid es eh block))"
proof -
  let ?c = "c\<lparr>last_stream_id := max (last_stream_id c) sid\<rparr>"
  let ?max = "max_concurrent_streams (local_settings ?c)"
  let ?s = "case map_of (streams ?c) sid of Some s \<Rightarrow> s
    | None \<Rightarrow> stream_new sid (initial_window_size (remote_settings ?c))"
  have inv: "conn_inv ?c" using assms by simp
  have bound: "active_streams ?c \<le> unat ?max" using inv by (auto simp: conn_inv_def)
  have active: "unat (of_nat (active_streams ?c) :: u32) = active_streams ?c"
    using bound unsigned_less [of ?max, where 'a = nat] by (simp add: unat_of_nat)
  show ?thesis
  proof (cases "map_of (streams ?c) sid = None \<and> ?max \<le> of_nat (active_streams ?c)")
    case True
    then show ?thesis using inv by (simp add: process_headers_def Let_def)
  next
    case False
    have "conn_inv (snd (headers_on_stream ?c sid ?s es eh block))"
    proof (cases "map_of (streams ?c) sid")
      case None
      then have "active_streams ?c < unat ?max" using False active by (simp add: word_le_nat_alt)
      then show ?thesis
        using None inv conn_invD(2) [OF inv]
        by (intro headers_on_stream_inv) (auto simp: stream_ok_def stream_new_def)
    next
      case (Some s)
      then show ?thesis
        using inv conn_inv_lookup [OF inv Some]
        by (intro headers_on_stream_inv) (auto simp: stream_ok_def)
    qed
    then show ?thesis using False assms by (simp add: process_headers_def Let_def)
  qed
qed

lemma process_continuation_inv:
  assumes inv: "conn_inv c"
  shows "conn_inv (snd (process_continuation c sid eh block))"
proof (cases "map_of (streams c) sid")
  case None
  then show ?thesis using inv by (simp add: process_continuation_def)
next
  case (Some s)
  obtain r d where dec: "hpack_decode (decoder c) block = (r, d)" by (metis surj_pair)
  have d: "conn_inv (c\<lparr>decoder := d\<rparr>)"
    using hpack_decode_inv [OF conn_invD(1) [OF inv] dec] inv by blast
  have "conn_inv (put_stream (c\<lparr>decoder := d\<rparr>) sid s')"
    if "st_state s' = st_state s" "st_id s' = st_id s" "st_send_window s' = st_send_window s" for s'
    using that Some conn_inv_lookup [OF inv Some]
    by (intro conn_inv_put d) (auto simp: stream_ok_def)
  then show ?thesis
    using Some dec d by (auto simp: process_continuation_def Let_def split: outcome.split)
qed

lemma process_data_inv:
  assumes inv: "conn_inv c"
  shows "conn_inv (snd (process_data c sid es payload))"
proof -
  let ?len = "of_nat (length payload) :: u32"
  obtain r f where f: "consume_recv (flow c) ?len = (r, f)" by (metis surj_pair)
  have fw: "fc_send_window f = fc_send_window (flow c)"
    using f by (auto simp: consume_recv_def Let_def split: if_splits)
  let ?c = "c\<lparr>flow := f\<rparr>"
  have inv1: "conn_inv ?c" using inv fw conn_invD(3) [OF inv] by auto
  have put: "conn_inv (put_stream ?c sid s')"
    if "map_of (streams c) sid = Some s" "st_id s' = sid" "st_send_window s' = st_send_window s"
      "st_state s' \<noteq> Idle" "is_open (st_state s') \<Longrightarrow> is_open (st_state s)" for s s'
    using that conn_inv_lookup [OF inv that(1)] by (intro conn_inv_put inv1) (auto simp: stream_ok_def)
  show ?thesis
  proof (cases "map_of (streams c) sid")
    case None
    then show ?thesis using f inv1 by (auto simp: process_data_def Let_def split: outcome.split)
  next
    case (Some s)
    have sok: "st_id s = sid" "st_state s \<noteq> Idle" using conn_inv_lookup [OF inv Some] by (simp_all add: stream_ok_def)
    obtain r1 s1 where s1: "consume_recv_window s ?len = (r1, s1)" by (metis surj_pair)
    then have s1': "st_id s1 = sid" "st_state s1 = st_state s" "st_send_window s1 = st_send_window s"
      using sok by (auto simp: consume_recv_window_def Let_def split: if_splits)
    let ?s2 = "s1\<lparr>st_body := st_body s1 @ payload\<rparr>"
    obtain r3 s3 where s3: "recv_end_stream ?s2 = (r3, s3)" by (metis surj_pair)
    have "conn_inv (put_stream ?c sid s1)" "conn_inv (put_stream ?c sid ?s2)"
      by (rule put [OF Some]; use s1' sok in simp)+
    moreover have "conn_inv (put_stream ?c sid s3)"
      using recv_end_stream_cases [OF s3] s1' sok by (intro put [OF Some]) (auto simp: is_open_def)
    ultimately show ?thesis
      using f Some s1 s3 inv1 by (auto simp: process_data_def Let_def split: outcome.split)
  qed
qed

lemma process_window_update_inv:
  assumes inv: "conn_inv c"
  shows "conn_inv (snd (process_window_update c sid increment))"
proof (cases "sid = 0")
  case True
  have "fc_send_window (snd (flow_window_update (flow c) increment)) \<le> MAX_WINDOW"
    using conn_invD(3) [OF inv] by (simp add: flow_window_update_def Let_def)
  then show ?thesis
    using True inv by (auto simp: process_window_update_def split: prod.split outcome.split)
next
  case False
  show ?thesis
  proof (cases "map_of (streams c) sid")
    case (Some s)
    let ?s = "snd (add_send_window s increment)"
    have "stream_ok (sid, ?s)" and "st_state ?s = st_state s"
      using conn_inv_lookup [OF inv Some] by (auto simp: add_send_window_def stream_ok_def Let_def)
    then have "conn_inv (put_stream c sid ?s)" using Some by (intro conn_inv_put inv) auto
    then show ?thesis
      using False Some by (auto simp: process_window_update_def split: prod.split outcome.split)
  qed (use False inv in \<open>simp add: process_window_update_def\<close>)
qed

lemma process_rst_stream_inv: "conn_inv c \<Longrightarrow> conn_inv (snd (process_rst_stream c sid))"
  by (auto simp: process_rst_stream_def stream_reset_def stream_ok_def is_open_def split: option.split
    intro!: conn_inv_put dest: conn_inv_lookup)

lemma process_frame_inv: "conn_inv c \<Longrightarrow> conn_inv (snd (process_frame c f))"
  by (cases f)
    (simp_all add: process_settings_inv process_headers_inv process_continuation_inv process_data_inv
      process_window_update_inv process_rst_stream_inv)

subsection \<open>Sending keeps the invariant\<close>

lemma mark_end_sent_inv: "conn_inv c \<Longrightarrow> conn_inv (mark_end_sent c sid)"
  by (auto simp: mark_end_sent_def send_end_stream_def stream_ok_def is_open_def
    split: option.split stream_state.split intro!: conn_inv_put dest: conn_inv_lookup)

lemma minus_uint_le: "w \<le> m \<Longrightarrow> w - uint (n :: u32) \<le> m"
  using unsigned_greater_eq [of n, where 'a = int] by linarith

lemma consume_stream_send_inv:
  assumes "conn_inv c"
  shows "conn_inv (snd (consume_stream_send c sid len))"
proof (cases "map_of (streams c) sid")
  case (Some s)
  let ?s = "snd (consume_send_window s len)"
  have "stream_ok (sid, ?s)" and "st_state ?s = st_state s"
    using conn_inv_lookup [OF assms Some]
    by (auto simp: consume_send_window_def stream_ok_def Let_def minus_uint_le)
  then have "conn_inv (put_stream c sid ?s)" using Some by (intro conn_inv_put assms) auto
  then show ?thesis using Some by (simp add: consume_stream_send_def case_prod_beta)
qed (use assms in \<open>simp add: consume_stream_send_def\<close>)

lemma consume_send_inv: "conn_inv c \<Longrightarrow> conn_inv (c\<lparr>flow := snd (consume_send (flow c) len)\<rparr>)"
  using conn_send.window_consume [of "flow c" len] conn_invD(3) [of c]
  by (intro conn_inv_flow) (simp_all add: minus_uint_le)

lemma mark_end_sent_flow [simp]: "flow (mark_end_sent c sid) = flow c"
  by (simp add: mark_end_sent_def split: option.split)

lemma consume_stream_send_flow: "consume_stream_send (c\<lparr>flow := f\<rparr>) sid n = (r, c') \<Longrightarrow> flow c' = f"
  by (auto simp: consume_stream_send_def split: option.splits prod.splits)

lemma send_data_loop_returns:
  assumes "0 < m"
  shows "\<exists>r c' t'. send_data_loop c sid data t m off = Some (r, c', t') \<and> (conn_inv c \<longrightarrow> conn_inv c')
    \<and> fc_recv_window (flow c') = fc_recv_window (flow c)"
proof (induction "length data - off" arbitrary: c t off rule: less_induct)
  case less
  show ?case
  proof (cases "off < length data")
    case True
    let ?e = "min (off + m) (length data)"
    let ?chunk = "take (?e - off) (drop off data)"
    let ?n = "of_nat (length ?chunk) :: u32"
    obtain r1 f where f: "consume_send (flow c) ?n = (r1, f)" by (metis surj_pair)
    obtain r2 c2 where c2: "consume_stream_send (c\<lparr>flow := f\<rparr>) sid ?n = (r2, c2)" by (metis surj_pair)
    obtain r3 t3 where t3: "write_frame t (FData sid (?e = length data) ?chunk) = (r3, t3)" by (metis surj_pair)
    let ?c3 = "if ?e = length data then mark_end_sent c2 sid else c2"
    have inv1: "conn_inv (c\<lparr>flow := f\<rparr>)" if "conn_inv c" using consume_send_inv [OF that, of ?n] f by simp
    have inv2: "conn_inv c2" if "conn_inv c"
      using consume_stream_send_inv [OF inv1 [OF that], of sid ?n] c2 by simp
    have inv3: "conn_inv ?c3" if "conn_inv c" using inv2 [OF that] mark_end_sent_inv by simp
    have w1: "fc_recv_window f = fc_recv_window (flow c)"
      using f by (auto simp: consume_send_def Let_def split: if_splits)
    moreover have w2: "flow c2 = f" using c2 by (rule consume_stream_send_flow)
    ultimately have w3: "fc_recv_window (flow ?c3) = fc_recv_window (flow c)" by simp
    have "length data - ?e < length data - off" using True assms by auto
    from less [OF this, of ?c3 t3] obtain r' c' t' where
      "send_data_loop ?c3 sid data t3 m ?e = Some (r', c', t')" "conn_inv ?c3 \<longrightarrow> conn_inv c'"
      "fc_recv_window (flow c') = fc_recv_window (flow ?c3)"
      by blast
    then show ?thesis
      using True f c2 t3 inv1 inv2 inv3 w1 w2 w3
      by (subst send_data_loop.simps) (cases r1; cases r2; cases r3; simp add: Let_def)
  next
    case False
    then show ?thesis by (subst send_data_loop.simps) simp
  qed
qed

lemma chunk_size_pos: "conn_inv c \<Longrightarrow> 0 < unat (max_frame_size (local_settings c))"
  by (auto simp: conn_inv_def settings_default_def DEFAULT_MAX_FRAME_SIZE_def)

lemma remove_closed_inv: "conn_inv c \<Longrightarrow> conn_inv (remove_closed c sid)"
proof -
  assume inv: "conn_inv c"
  have "length (filter P (AList.delete sid al)) \<le> length (filter P al)" for P and al :: "(u32 \<times> h2_stream) list"
    unfolding AList.delete_eq by (induction al) auto
  then have "active_streams (c\<lparr>streams := AList.delete sid (streams c)\<rparr>) \<le> active_streams c"
    by (simp add: active_streams_def)
  moreover have "set (AList.delete sid (streams c)) \<subseteq> set (streams c)" by (auto simp: AList.delete_eq)
  ultimately show ?thesis
    using inv by (auto simp: remove_closed_def conn_inv_def list_all_iff distinct_delete split: option.split)
qed

lemma send_response_returns:
  assumes "conn_inv c"
  shows "\<exists>r c' t'. send_response c sid resp t = Some (r, c', t') \<and> conn_inv c'
    \<and> fc_recv_window (flow c') = fc_recv_window (flow c)"
proof -
  let ?body = "body_into_bytes (resp_body resp)"
  let ?c1 = "if ?body = [] then mark_end_sent c sid else c"
  obtain r1 t1 where wr: "write_frame t (FHeaders sid (?body = []) True (hpack_encode (response_fields resp))) = (r1, t1)"
    by (metis surj_pair)
  have inv1: "conn_inv ?c1" using assms mark_end_sent_inv by simp
  obtain r2 c2 t2 where
    d: "(if ?body \<noteq> [] then send_data ?c1 sid ?body t1 else Some (Ok (), ?c1, t1)) = Some (r2, c2, t2)" "conn_inv c2"
    and w: "fc_recv_window (flow c2) = fc_recv_window (flow c)"
  proof (cases "?body = []")
    case False
    obtain r2 c2 t2 where "send_data ?c1 sid ?body t1 = Some (r2, c2, t2)" "conn_inv c2"
        "fc_recv_window (flow c2) = fc_recv_window (flow ?c1)"
      using send_data_loop_returns [OF chunk_size_pos [OF inv1], of ?c1 sid ?body t1 0] inv1
      unfolding send_data_def by blast
    then show ?thesis using that False by simp
  qed (use that inv1 in simp)
  have "conn_inv (remove_closed c2 sid)" by (rule remove_closed_inv [OF d(2)])
  moreover have "flow (remove_closed c2 sid) = flow c2" by (simp add: remove_closed_def split: option.split)
  ultimately show ?thesis
    using wr d assms w
    by (cases r1; cases r2; cases "?body = []") (simp_all add: send_response_def Let_def)
qed

lemma send_goaway_inv: "conn_inv c \<Longrightarrow> conn_inv (fst (snd (send_goaway c t code)))"
  by (simp add: send_goaway_def split: prod.split outcome.split)

lemma handle_preface_inv:
  assumes "conn_inv c"
  shows "conn_inv (fst (snd (handle_preface c t pre)))"
proof -
  have "conn_inv (c\<lparr>remote_settings := s\<rparr>)" if "apply_settings (remote_settings c) vs = (r, s)" for vs r s
    using apply_settings_window [OF conn_invD(2) [OF assms], of vs] that assms by auto
  then show ?thesis
    using assms
    by (auto simp: handle_preface_def Let_def split: prod.splits outcome.splits h2_frame.splits bool.splits)
qed

subsection \<open>Reachable connections\<close>

text \<open>
  The connections the server can reach, with the number of DATA bytes accepted so far: the
  preface, any frame that the parser delivers, responses and GOAWAY, in any order.
\<close>

definition accepted_bytes :: "h2_frame \<Rightarrow> (u32 \<times> request) option h2_result \<Rightarrow> nat" where
  "accepted_bytes f r =
     (case f of FData sid es p \<Rightarrow> (case r of Ok _ \<Rightarrow> length p | _ \<Rightarrow> 0) | _ \<Rightarrow> 0)"

inductive conn_run :: "h2_conn \<Rightarrow> nat \<Rightarrow> bool" where
  run_new: "conn_run conn_new 0"
| run_preface: "conn_run c n \<Longrightarrow> handle_preface c t pre = (r, c', t') \<Longrightarrow> conn_run c' n"
| run_frame: "conn_run c n \<Longrightarrow> wf_frame f \<Longrightarrow> process_frame c f = (r, c') \<Longrightarrow> conn_run c' (n + accepted_bytes f r)"
| run_response: "conn_run c n \<Longrightarrow> send_response c sid resp t = Some (r, c', t') \<Longrightarrow> conn_run c' n"
| run_goaway: "conn_run c n \<Longrightarrow> send_goaway c t code = (r, c', t') \<Longrightarrow> conn_run c' n"

lemma conn_run_inv: "conn_run c n \<Longrightarrow> conn_inv c"
proof (induction rule: conn_run.induct)
  case run_new
  show ?case by (rule conn_inv_new)
next
  case (run_preface c n t pre r c' t')
  then show ?case using handle_preface_inv [of c t pre] by simp
next
  case (run_frame c n f r c')
  then show ?case using process_frame_inv [of c f] by simp
next
  case (run_response c n sid resp t r c' t')
  then show ?case using send_response_returns [of c sid resp t] by auto
next
  case (run_goaway c n t code r c' t')
  then show ?case using send_goaway_inv [of c t code] by simp
qed

text \<open>
  C6: On every reachable connection at most 100 streams are open at a time (the advertised
  limit), stream identifiers are unique and match their streams, no send window exceeds
  \<open>2 ^ 31 - 1\<close>, and the HPACK table is within its limit; sending a response always returns.
\<close>

theorem reachable_connection_invariant:
  assumes "conn_run c n"
  shows "active_streams c \<le> 100 \<and> distinct (map fst (streams c))
    \<and> list_all stream_ok (streams c) \<and> fc_send_window (flow c) \<le> MAX_WINDOW \<and> table_inv (decoder c)
    \<and> (\<exists>r c' t'. send_response c sid resp t = Some (r, c', t'))"
proof -
  have inv: "conn_inv c" using conn_run_inv [OF assms] .
  then have "unat (max_concurrent_streams (local_settings c)) = 100"
    by (simp add: conn_inv_def settings_default_def DEFAULT_MAX_CONCURRENT_STREAMS_def)
  then have "active_streams c \<le> 100" using inv by (auto simp: conn_inv_def)
  then show ?thesis
    using inv send_response_returns [OF inv, of sid resp t] by (auto simp: conn_inv_def)
qed

theorem reachable_connection_invariant_witness:
  "active_streams (snd (process_frame conn_new (FHeaders 1 False True [0x82]))) \<le> 100"
proof -
  let ?f = "FHeaders 1 False True [0x82]"
  have "wf_frame ?f" by (simp add: sid31_def)
  then have "conn_run (snd (process_frame conn_new ?f)) (0 + accepted_bytes ?f (fst (process_frame conn_new ?f)))"
    by (rule run_frame [OF run_new]) simp
  from reachable_connection_invariant [OF this] show ?thesis by blast
qed

subsection \<open>The receive window is never refilled\<close>

lemma headers_on_stream_flow [simp]: "flow (snd (headers_on_stream c sid s es eh block)) = flow c"
  by (auto simp: headers_on_stream_def Let_def split: prod.split outcome.split)

lemma process_data_window:
  assumes "length p < 2 ^ 32" and "process_data c sid es p = (r, c')"
  shows "int (accepted_bytes (FData sid es p) r) + fc_recv_window (flow c') \<le> fc_recv_window (flow c)
    \<and> (accepted_bytes (FData sid es p) r \<noteq> 0 \<longrightarrow> 0 \<le> fc_recv_window (flow c'))
    \<and> (fc_recv_window (flow c) < int (length p) \<longrightarrow> (\<exists>e. r = Err e \<and> he_stream_id e = 0))"
proof -
  let ?len = "of_nat (length p) :: u32"
  obtain r1 f where f: "consume_recv (flow c) ?len = (r1, f)" by (metis surj_pair)
  have len: "uint ?len = int (length p)" using assms(1) by (simp add: unsigned_of_nat take_bit_nat_eq_self)
  have fw: "fc_recv_window f = fc_recv_window (flow c) - int (length p)"
    using conn_recv.window_consume [of "flow c" ?len] f len by simp
  have ok: "r1 = Ok () \<longleftrightarrow> int (length p) \<le> fc_recv_window (flow c)"
    using conn_recv.consume_ok [of "flow c" ?len] f len by simp
  have err: "\<exists>e. r1 = Err e \<and> he_stream_id e = 0" if "r1 \<noteq> Ok ()"
    using f that by (auto simp: consume_recv_def Let_def connection_error_def split: if_splits)
  have flow': "flow c' = f"
    using assms(2) f
    by (auto simp: process_data_def Let_def split: outcome.splits option.splits prod.splits if_splits)
  show ?thesis
  proof (cases "r1 = Ok ()")
    case True
    then show ?thesis using fw ok flow' by (auto simp: accepted_bytes_def split: outcome.split)
  next
    case False
    then obtain e where "r1 = Err e" "he_stream_id e = 0" using err by blast
    moreover have "r = Err e" using assms(2) f calculation(1) by (simp add: process_data_def)
    ultimately show ?thesis using fw flow' by (simp add: accepted_bytes_def)
  qed
qed

lemma process_frame_window:
  assumes "wf_frame f" and "process_frame c f = (r, c')"
  shows "int (accepted_bytes f r) + fc_recv_window (flow c') \<le> fc_recv_window (flow c)
    \<and> (accepted_bytes f r \<noteq> 0 \<longrightarrow> 0 \<le> fc_recv_window (flow c'))"
proof (cases f)
  case (FData sid es p)
  then show ?thesis using process_data_window [of p c sid es r c'] assms by simp
next
  case (FWindowUpdate sid increment)
  have "fc_recv_window (snd (flow_window_update (flow c) increment)) = fc_recv_window (flow c)"
    by (simp add: flow_window_update_def Let_def)
  then have "fc_recv_window (flow c') = fc_recv_window (flow c)"
    using assms(2) FWindowUpdate
    by (auto simp: process_window_update_def split: if_splits prod.splits outcome.splits option.splits)
  then show ?thesis using FWindowUpdate by (simp add: accepted_bytes_def)
qed (use assms in \<open>auto simp: accepted_bytes_def process_settings_def process_headers_def process_continuation_def
  process_rst_stream_def Let_def split: if_splits prod.splits outcome.splits option.splits
  dest!: arg_cong [where f = "\<lambda>x. flow (snd x)"]\<close>)

lemma conn_run_window:
  "conn_run c n \<Longrightarrow> int n + fc_recv_window (flow c) \<le> 65535 \<and> n \<le> 65535"
proof (induction rule: conn_run.induct)
  case run_new
  then show ?case by (simp add: conn_new_def flow_new_def settings_default_def DEFAULT_WINDOW_SIZE_def)
next
  case (run_preface c n t pre r c' t')
  have "flow (fst (snd (handle_preface c t pre))) = flow c"
    by (auto simp: handle_preface_def Let_def split: prod.split outcome.split h2_frame.split bool.split)
  then show ?case using run_preface by simp
next
  case (run_frame c n f r c')
  then show ?case using process_frame_window [of f c r c'] by auto
next
  case (run_response c n sid resp t r c' t')
  then show ?case using send_response_returns [OF conn_run_inv, of c n sid resp t] by auto
next
  case (run_goaway c n t code r c' t')
  have "flow (fst (snd (send_goaway c t code))) = flow c"
    by (simp add: send_goaway_def split: prod.split outcome.split)
  then show ?case using run_goaway by simp
qed

text \<open>
  A connection accepts at most 65535 bytes of request bodies in its whole life, over all
  streams: no step refills the connection's receive window (\<open>maybe_send_window_update\<close> is never
  called), and the DATA frame that goes beyond the initial window is answered with a
  connection error.
\<close>

theorem recv_window_never_refilled:
  assumes "conn_run c n"
  shows "n \<le> 65535
    \<and> (\<forall>sid es p. wf_frame (FData sid es p) \<and> 65535 < n + length p \<longrightarrow>
         (\<exists>e. fst (process_frame c (FData sid es p)) = Err e \<and> he_stream_id e = 0))"
proof (intro conjI allI impI)
  note w = conn_run_window [OF assms]
  then show "n \<le> 65535" by simp
  fix sid es p assume p: "wf_frame (FData sid es p) \<and> 65535 < n + length p"
  obtain r c' where r: "process_data c sid es p = (r, c')" by (metis surj_pair)
  have "fc_recv_window (flow c) < int (length p)" using w p by linarith
  moreover have "length p < 2 ^ 32" using p by simp
  ultimately show "\<exists>e. fst (process_frame c (FData sid es p)) = Err e \<and> he_stream_id e = 0"
    using process_data_window [OF _ r] r by simp
qed

theorem recv_window_never_refilled_witness:
  "\<exists>e. fst (process_frame conn_new (FData 1 True (replicate 65536 0))) = Err e \<and> he_stream_id e = 0"
  using recv_window_never_refilled [OF run_new] by (simp add: sid31_def)

end
