(* ===== verification/H2_Session.thy ===== *)
theory H2_Session
  imports H2_Conn
begin

text \<open>
  Sessions of the HTTP/2 connection manager, composed from the frame codec, the transport, HPACK
  and the stream table: what a peer reads of a response, which requests are delivered to the
  application, and how the stream table grows.
\<close>

subsection \<open>Frames in sequence\<close>

text \<open>The first \<open>n\<close> frames a peer reads.\<close>

abbreviation read_frames :: "nat \<Rightarrow> transport \<Rightarrow> h2_frame list h2_result \<times> transport" where
  "read_frames \<equiv> read_n read_frame"

abbreviation accepting :: "transport \<Rightarrow> bool" where
  "accepting t \<equiv> list_all (\<lambda>e. \<exists>n > 0. e = WAccept n) (wr t)"

lemma write_all_keeps_accepting: "accepting t \<Longrightarrow> accepting (snd (write_all t buf))"
proof (induction t buf rule: write_all.induct)
  case (1 t buf)
  show ?case
  proof (cases "buf = []")
    case True
    then show ?thesis using "1.prems" by (simp add: write_all.simps)
  next
    case False
    obtain n t1 where p: "poll_write t buf = (Ok n, t1)" "n \<noteq> 0" "accepting t1"
      using "1.prems" False by (cases "wr t") (auto simp: poll_write_def)
    show ?thesis
      using False p "1.IH" [OF False p(1) [symmetric] refl p(2,3)] by (simp add: write_all.simps [of t buf])
  qed
qed

lemma write_frame_accepting:
  assumes "accepting t"
  shows "\<exists>t'. write_frame t f = (Ok (), t') \<and> tx t' = tx t @ h2_encode_frame f \<and> accepting t'"
proof -
  obtain r t' where w: "write_all t (h2_encode_frame f) = (r, t')" by (metis surj_pair)
  then have "r = Ok ()" using write_all_accepting [OF assms, of "h2_encode_frame f"] by simp
  then show ?thesis
    using w write_all_wire [OF w] write_all_keeps_accepting [OF assms, of "h2_encode_frame f"]
    by (simp add: write_frame_def)
qed

subsection \<open>A response on the wire\<close>

function chunks :: "nat \<Rightarrow> bytes \<Rightarrow> bytes list" where
  "chunks m d = (if m = 0 \<or> length d \<le> m then [d] else take m d # chunks m (drop m d))"
  by pat_completeness auto
termination by (relation "measure (\<lambda>(m, d). length d)") auto

declare chunks.simps [simp del]

fun data_frames :: "u32 \<Rightarrow> bytes list \<Rightarrow> h2_frame list" where
  "data_frames sid [] = []"
| "data_frames sid [c] = [FData sid True c]"
| "data_frames sid (c # cs) = FData sid False c # data_frames sid cs"

lemma chunks_concat: "concat (chunks m d) = d" and chunks_nonempty [simp]: "chunks m d \<noteq> []"
proof -
  show "concat (chunks m d) = d"
    by (induction m d rule: chunks.induct) (subst chunks.simps, auto)
  show "chunks m d \<noteq> []" by (subst chunks.simps) auto
qed

lemma chunks_size:
  "0 < m \<Longrightarrow> d \<noteq> [] \<Longrightarrow> c \<in> set (chunks m d) \<Longrightarrow> 0 < length c \<and> length c \<le> m"
proof (induction m d rule: chunks.induct)
  case (1 m d)
  show ?case
  proof (cases "length d \<le> m")
    case True
    then show ?thesis using "1.prems" by (subst (asm) chunks.simps) auto
  next
    case False
    then show ?thesis
      using "1.IH" "1.prems" by (subst (asm) (2) chunks.simps) (auto simp: not_le)
  qed
qed

lemma data_frames_Cons: "cs \<noteq> [] \<Longrightarrow> data_frames sid (c # cs) = FData sid False c # data_frames sid cs"
  by (cases cs) auto

lemma data_frames_wf:
  assumes "sid \<noteq> 0" and "sid31 sid" and "\<And>c. c \<in> set cs \<Longrightarrow> length c < 2 ^ 24"
  shows "list_all wf_frame (data_frames sid cs)"
  using assms by (induction sid cs rule: data_frames.induct) auto

definition window_covers :: "h2_conn \<Rightarrow> u32 \<Rightarrow> nat \<Rightarrow> bool" where
  "window_covers c sid n \<longleftrightarrow>
     int n \<le> fc_send_window (flow c) \<and> (\<forall>s. map_of (streams c) sid = Some s \<longrightarrow> int n \<le> st_send_window s)"

lemma send_data_loop_wire:
  assumes m: "0 < m" "m < 2 ^ 24"
  shows "off < length data \<Longrightarrow> window_covers c sid (length data - off) \<Longrightarrow> accepting t \<Longrightarrow>
    \<exists>c' t'. send_data_loop c sid data t m off = Some (Ok (), c', t') \<and> accepting t'
      \<and> tx t' = tx t @ concat (map h2_encode_frame (data_frames sid (chunks m (drop off data))))"
proof (induction "length data - off" arbitrary: c t off rule: less_induct)
  case less
  let ?e = "min (off + m) (length data)"
  let ?chunk = "take (?e - off) (drop off data)"
  let ?n = "of_nat (length ?chunk) :: u32"
  have chunk: "?chunk = take m (drop off data)" "length ?chunk = ?e - off"
    using less.prems(1) by (auto simp: min_def)
  have n: "uint ?n = int (?e - off)"
    using chunk m by (simp add: unsigned_of_nat take_bit_nat_eq_self min_def)
  have le: "int (?e - off) \<le> fc_send_window (flow c)" using less.prems(1,2) by (auto simp: window_covers_def)
  then have "\<not> fc_send_window (flow c) < uint ?n" using n by linarith
  then obtain f where f: "consume_send (flow c) ?n = (Ok (), f)" "fc_send_window f = fc_send_window (flow c) - uint ?n"
    using conn_send.consume_cases [of "flow c" ?n] by blast
  obtain c2 where c2: "consume_stream_send (c\<lparr>flow := f\<rparr>) sid ?n = (Ok (), c2)" "flow c2 = f"
      "\<And>s. map_of (streams c2) sid = Some s \<Longrightarrow> int (length data - ?e) \<le> st_send_window s"
  proof (cases "map_of (streams c) sid")
    case None
    then show ?thesis using that by (simp add: consume_stream_send_def)
  next
    case (Some s)
    then have "int (length data - off) \<le> st_send_window s" using less.prems(2) by (simp add: window_covers_def)
    moreover from this have "\<not> st_send_window s < uint ?n" using n by linarith
    then obtain s1 where "consume_send_window s ?n = (Ok (), s1)" "st_send_window s1 = st_send_window s - uint ?n"
      using stream_send.consume_cases [of s ?n] by blast
    moreover have "int (?e - off) = int ?e - int off" "int (length data - ?e) = int (length data) - int ?e"
        "int (length data - off) = int (length data) - int off"
      using less.prems(1) by (simp_all add: of_nat_diff)
    ultimately have s1: "consume_send_window s ?n = (Ok (), s1)" "int (length data - ?e) \<le> st_send_window s1"
      using n by linarith+
    have "consume_stream_send (c\<lparr>flow := f\<rparr>) sid ?n = (Ok (), put_stream (c\<lparr>flow := f\<rparr>) sid s1)"
      using Some s1(1) by (simp add: consume_stream_send_def)
    then show ?thesis using that [of "put_stream (c\<lparr>flow := f\<rparr>) sid s1"] s1(2) by simp
  qed
  obtain t1 where t1: "write_frame t (FData sid (?e = length data) ?chunk) = (Ok (), t1)"
      "tx t1 = tx t @ h2_encode_frame (FData sid (?e = length data) ?chunk)" "accepting t1"
    using write_frame_accepting [OF less.prems(3)] by blast
  have unfold: "send_data_loop c sid data t m off =
      send_data_loop (if ?e = length data then mark_end_sent c2 sid else c2) sid data t1 m ?e"
    using less.prems(1) f c2 t1 by (subst send_data_loop.simps) (simp add: Let_def)
  show ?case
  proof (cases "?e = length data")
    case True
    then have "chunks m (drop off data) = [drop off data]" "?chunk = drop off data"
      using chunk(1) by (subst chunks.simps, auto simp: min_def split: if_splits)
    moreover have "send_data_loop (mark_end_sent c2 sid) sid data t1 m (length data) = Some (Ok (), mark_end_sent c2 sid, t1)"
      by (subst send_data_loop.simps) simp
    ultimately show ?thesis using unfold True t1 by simp
  next
    case False
    then have e: "?e = off + m" "off + m < length data" by auto
    have "window_covers c2 sid (length data - ?e)"
      using f(2) c2 less.prems(2) e n by (auto simp: window_covers_def)
    moreover have "length data - ?e < length data - off" using e m(1) by simp
    ultimately obtain c' t' where "send_data_loop c2 sid data t1 m ?e = Some (Ok (), c', t')" "accepting t'"
        "tx t' = tx t1 @ concat (map h2_encode_frame (data_frames sid (chunks m (drop ?e data))))"
      using less.hyps [of ?e c2 t1] e t1(3) by auto
    moreover have "chunks m (drop off data) = take m (drop off data) # chunks m (drop ?e data)"
      using e m by (subst chunks.simps) (auto simp: add.commute)
    ultimately show ?thesis using unfold False t1(2) chunk(1) e by (simp add: data_frames_Cons)
  qed
qed

lemma length_data_frames [simp]: "length (data_frames sid cs) = length cs"
  by (induction sid cs rule: data_frames.induct) auto

lemma hpack_decode_encode: "headers_fit hs \<Longrightarrow> hpack_decode d (hpack_encode hs) = (Ok hs, d)"
  using decode_headers [of hs "hpack_encode hs" "[]" d "[]"] by (simp add: hpack_decode_def)

lemma mark_end_sent_window: "window_covers (mark_end_sent c sid) sid n = window_covers c sid n"
  by (auto simp: window_covers_def mark_end_sent_def send_end_stream_def split: option.split stream_state.split)

lemma send_response_wire:
  assumes "conn_inv c" and "window_covers c sid (length (body_into_bytes (resp_body resp)))" and "accepting t"
  shows "\<exists>c' t' cs. send_response c sid resp t = Some (Ok (), c', t')
    \<and> tx t' = tx t @ concat (map h2_encode_frame
        (FHeaders sid (body_into_bytes (resp_body resp) = []) True (hpack_encode (response_fields resp))
         # data_frames sid cs))
    \<and> concat cs = body_into_bytes (resp_body resp) \<and> (\<forall>c \<in> set cs. length c \<le> 16384)"
proof -
  let ?body = "body_into_bytes (resp_body resp)" and ?blk = "hpack_encode (response_fields resp)"
  obtain t1 where t1: "write_frame t (FHeaders sid (?body = []) True ?blk) = (Ok (), t1)"
      "tx t1 = tx t @ h2_encode_frame (FHeaders sid (?body = []) True ?blk)" "accepting t1"
    using write_frame_accepting [OF assms(3)] by blast
  have m: "unat (max_frame_size (local_settings c)) = 16384"
    using assms(1) by (simp add: conn_inv_def settings_default_def DEFAULT_MAX_FRAME_SIZE_def)
  show ?thesis
  proof (cases "?body = []")
    case True
    then show ?thesis using t1 by (intro exI [of _ "[]"] exI) (auto simp: send_response_def Let_def)
  next
    case False
    obtain c2 t2 where "send_data c sid ?body t1 = Some (Ok (), c2, t2)"
        "tx t2 = tx t1 @ concat (map h2_encode_frame (data_frames sid (chunks 16384 ?body)))"
      using send_data_loop_wire [of 16384 0 ?body c sid t1] False assms(2) t1(3) m by (auto simp: send_data_def)
    moreover have "\<forall>c \<in> set (chunks 16384 ?body). length c \<le> 16384"
      using chunks_size [of 16384 ?body] False by simp
    ultimately show ?thesis
      using t1 False
      by (intro exI [of _ "remove_closed c2 sid"] exI [of _ t2] exI [of _ "chunks 16384 ?body"])
        (simp add: send_response_def Let_def chunks_concat)
  qed
qed



subsection \<open>Requests that are never delivered\<close>

text \<open>The requests the connection hands to the application while it processes a list of frames.\<close>

fun delivered :: "h2_conn \<Rightarrow> h2_frame list \<Rightarrow> (u32 \<times> request) list" where
  "delivered c [] = []"
| "delivered c (f # fs) =
     (case process_frame c f of
        (Ok (Some req), c') \<Rightarrow> req # delivered c' fs
      | (_, c') \<Rightarrow> delivered c' fs)"

definition remote_closed :: "h2_conn \<Rightarrow> u32 \<Rightarrow> bool" where
  "remote_closed c sid \<longleftrightarrow> (\<exists>s. map_of (streams c) sid = Some s \<and> st_state s \<in> {HalfClosedRemote, Closed})"

lemma remote_closed_put:
  "remote_closed (put_stream c k s) sid \<longleftrightarrow>
    (if k = sid then st_state s \<in> {HalfClosedRemote, Closed} else remote_closed c sid)"
  by (auto simp: remote_closed_def)

lemma remote_closed_other [simp]:
  "remote_closed (c\<lparr>decoder := d\<rparr>) sid = remote_closed c sid"
  "remote_closed (c\<lparr>flow := f\<rparr>) sid = remote_closed c sid"
  "remote_closed (c\<lparr>remote_settings := r\<rparr>) sid = remote_closed c sid"
  "remote_closed (c\<lparr>last_stream_id := n\<rparr>) sid = remote_closed c sid"
  "remote_closed (c\<lparr>goaway_sent := b\<rparr>) sid = remote_closed c sid"
  by (simp_all add: remote_closed_def)

definition silent :: "u32 \<Rightarrow> (u32 \<times> request) option h2_result \<times> h2_conn \<Rightarrow> bool" where
  "silent sid rc \<longleftrightarrow> (\<forall>req. fst rc \<noteq> Ok (Some (sid, req))) \<and> remote_closed (snd rc) sid"

lemma silent_headers: "remote_closed c sid \<Longrightarrow> silent sid (process_headers c k es eh blk)"
proof -
  assume rc: "remote_closed c sid"
  have on: "silent sid (headers_on_stream c' k s es eh blk)"
    if "remote_closed c' sid" "k = sid \<Longrightarrow> st_state s \<in> {HalfClosedRemote, Closed}" for c' s
  proof (cases "k = sid")
    case True
    then have "recv_headers s = (Err (stream_error (st_id s) StreamClosed ''HEADERS received on non-idle stream''), s)"
      using that(2) by (auto simp: recv_headers_def)
    then show ?thesis using True that by (simp add: headers_on_stream_def silent_def remote_closed_put)
  next
    case False
    then show ?thesis
      using that(1)
      by (auto simp: headers_on_stream_def silent_def Let_def remote_closed_put split: prod.split outcome.split)
  qed
  obtain s where s: "map_of (streams c) sid = Some s" "st_state s \<in> {HalfClosedRemote, Closed}"
    using rc by (auto simp: remote_closed_def)
  show ?thesis
    using rc s by (auto simp: process_headers_def Let_def intro!: on) (simp_all add: silent_def)
qed

lemma silent_data: "remote_closed c sid \<Longrightarrow> silent sid (process_data c k es p)"
proof (cases "map_of (streams c) k")
  case None
  assume "remote_closed c sid"
  then show ?thesis
    using None by (auto simp: process_data_def silent_def Let_def split: prod.split outcome.split)
next
  case (Some s)
  assume rc: "remote_closed c sid"
  let ?len = "of_nat (length p) :: u32"
  obtain r1 f where f: "consume_recv (flow c) ?len = (r1, f)" by (metis surj_pair)
  obtain r2 s1 where s1: "consume_recv_window s ?len = (r2, s1)" by (metis surj_pair)
  have st: "st_state s1 = st_state s"
    using s1 by (auto simp: consume_recv_window_def Let_def split: if_splits)
  let ?s2 = "s1\<lparr>st_body := st_body s1 @ p\<rparr>"
  obtain r3 s3 where s3: "recv_end_stream ?s2 = (r3, s3)" by (metis surj_pair)
  have same: "st_state s \<in> {HalfClosedRemote, Closed} \<and> (\<exists>e. r3 = Err e) \<and> st_state s3 = st_state s" if "k = sid"
    using rc Some that recv_end_stream_cases [OF s3] st by (auto simp: remote_closed_def)
  show ?thesis
    using rc f Some s1 s3 st same
    by (cases r1; cases r2; cases r3) (auto simp: process_data_def silent_def Let_def remote_closed_put)
qed

lemma silent_frame:
  assumes "remote_closed c sid"
  shows "silent sid (process_frame c f)"
proof (cases f)
  case (FHeaders k es eh blk)
  then show ?thesis using silent_headers [OF assms] by simp
next
  case (FData k es p)
  then show ?thesis using silent_data [OF assms] by simp
next
  case (FContinuation k eh blk)
  then show ?thesis
    using assms
    by (auto simp: process_continuation_def silent_def Let_def remote_closed_put remote_closed_def
      split: option.split prod.split outcome.split)
next
  case (FWindowUpdate k inc)
  have "st_state s' = st_state s" if "add_send_window s inc = (r, s')" for s s' r
    using that by (auto simp: add_send_window_def Let_def split: if_splits)
  then show ?thesis
    using assms FWindowUpdate
    by (fastforce simp: process_window_update_def silent_def remote_closed_put remote_closed_def
      split: option.split prod.splits outcome.split)
next
  case (FRstStream k code)
  then show ?thesis
    using assms
    by (auto simp: process_rst_stream_def silent_def stream_reset_def remote_closed_put remote_closed_def
      split: option.split)
next
  case (FSettings ack vs)
  then show ?thesis
    using assms by (auto simp: process_settings_def silent_def split: prod.split outcome.split)
qed (use assms in \<open>simp_all add: silent_def\<close>)

lemma delivered_silent: "remote_closed c sid \<Longrightarrow> (sid, req) \<notin> set (delivered c fs)"
proof (induction fs arbitrary: c)
  case (Cons f fs)
  obtain r c' where "process_frame c f = (r, c')" by (metis surj_pair)
  then show ?case
    using silent_frame [OF Cons.prems, of f] Cons.IH [of c']
    by (auto simp: silent_def split: outcome.splits option.splits)
qed simp

text \<open>
  A request without a body whose header block is continued is lost. When the HEADERS frame
  has END\_STREAM but not END\_HEADERS, neither it nor any sequence of frames after it, the
  CONTINUATION that completes the headers included, delivers a request on that stream.
\<close>

theorem continued_request_never_delivered:
  assumes "process_frame c (FHeaders sid True False blk) = (Ok res, c')" and "map_of (streams c) sid = None"
  shows "res = None \<and> (\<forall>fs req. (sid, req) \<notin> set (delivered c' fs))"
proof -
  let ?c = "c\<lparr>last_stream_id := max (last_stream_id c) sid\<rparr>"
  let ?s = "stream_new sid (initial_window_size (remote_settings ?c))"
  have h: "headers_on_stream ?c sid ?s True False blk = (Ok res, c')"
    using assms by (auto simp: process_headers_def Let_def split: if_splits)
  have "res = None \<and> remote_closed c' sid"
    using h
    by (auto simp: headers_on_stream_def recv_headers_def recv_end_stream_def stream_new_def Let_def
      remote_closed_put split: prod.splits outcome.splits)
  then show ?thesis using delivered_silent by blast
qed

theorem continued_request_never_delivered_witness:
  "fst (process_frame conn_new (FHeaders 1 True False [])) = Ok None
   \<and> (\<forall>req. (1, req) \<notin> set (delivered (snd (process_frame conn_new (FHeaders 1 True False []))) [FContinuation 1 True [0x82]]))"
proof -
  obtain res c' where p: "process_frame conn_new (FHeaders 1 True False []) = (Ok res, c')"
    by (simp add: process_headers_def headers_on_stream_def hpack_decode_def hpack_decode_loop.simps
      conn_new_def stream_new_def recv_headers_def recv_end_stream_def Let_def active_streams_def
      settings_default_def DEFAULT_MAX_CONCURRENT_STREAMS_def)
  have "map_of (streams conn_new) 1 = None" by (simp add: conn_new_def)
  from continued_request_never_delivered [OF p this] show ?thesis
    using p by (simp del: delivered.simps process_frame.simps)
qed

subsection \<open>Growth of the stream table\<close>

fun process_all :: "h2_conn \<Rightarrow> h2_frame list \<Rightarrow> h2_conn" where
  "process_all c [] = c"
| "process_all c (f # fs) = process_all (snd (process_frame c f)) fs"

fun all_accepted :: "h2_conn \<Rightarrow> h2_frame list \<Rightarrow> bool" where
  "all_accepted c [] \<longleftrightarrow> True"
| "all_accepted c (f # fs) \<longleftrightarrow> fst (process_frame c f) = Ok None \<and> all_accepted (snd (process_frame c f)) fs"

lemma process_all_append [simp]: "process_all c (fs @ gs) = process_all (process_all c fs) gs"
  by (induction fs arbitrary: c) auto

lemma all_accepted_append [simp]:
  "all_accepted c (fs @ gs) \<longleftrightarrow> all_accepted c fs \<and> all_accepted (process_all c fs) gs"
  by (induction fs arbitrary: c) auto

text \<open>A client that opens a stream and resets it at once, \<open>n\<close> times.\<close>

definition open_and_reset :: "u32 \<Rightarrow> h2_frame list" where
  "open_and_reset sid = [FHeaders sid False True [], FRstStream sid (error_code_u32 Cancel)]"

definition rapid_reset :: "nat \<Rightarrow> h2_frame list" where
  "rapid_reset n = concat (map (\<lambda>i. open_and_reset (of_nat (2 * i + 1))) [0..<n])"

lemma update_absent: "map_of al k = None \<Longrightarrow> AList.update k v al = al @ [(k, v)]"
  by (induction al) auto

lemma update_last: "map_of al k = None \<Longrightarrow> AList.update k w (al @ [(k, v)]) = al @ [(k, w)]"
  by (induction al) auto

lemma open_and_reset_run:
  assumes "map_of (streams c) sid = None" and "active_streams c < unat (max_concurrent_streams (local_settings c))"
  shows "all_accepted c (open_and_reset sid)
    \<and> (\<exists>s. streams (process_all c (open_and_reset sid)) = streams c @ [(sid, s)] \<and> \<not> is_open (st_state s))
    \<and> local_settings (process_all c (open_and_reset sid)) = local_settings c"
proof -
  let ?c = "c\<lparr>last_stream_id := max (last_stream_id c) sid\<rparr>"
  let ?s = "(stream_new sid (initial_window_size (remote_settings c)))\<lparr>st_state := Open, st_headers_complete := True\<rparr>"
  have act: "active_streams ?c = active_streams c" by (simp add: active_streams_def)
  have lim: "\<not> max_concurrent_streams (local_settings c) \<le> of_nat (active_streams c)"
    using assms(2) unsigned_less [of "max_concurrent_streams (local_settings c)", where 'a = nat]
    by (simp add: word_le_nat_alt unat_of_nat)
  have dec: "hpack_decode d [] = (Ok [], d)" for d by (simp add: hpack_decode_def hpack_decode_loop.simps)
  have h: "process_frame c (FHeaders sid False True []) = (Ok None, put_stream ?c sid ?s)"
    using assms(1) lim act dec
    by (simp add: process_headers_def headers_on_stream_def recv_headers_def stream_new_def Let_def)
  have r: "process_frame (put_stream ?c sid ?s) (FRstStream sid code)
      = (Ok None, put_stream (put_stream ?c sid ?s) sid (stream_reset ?s))" for code
    by (simp add: process_rst_stream_def)
  have "streams (put_stream (put_stream ?c sid ?s) sid (stream_reset ?s)) = streams c @ [(sid, stream_reset ?s)]"
    using assms(1) by (simp add: put_stream_def update_absent update_last)
  then show ?thesis
    using h r by (auto simp: open_and_reset_def stream_reset_def is_open_def)
qed

lemma rapid_reset_run:
  assumes "n \<le> 2 ^ 31"
  shows "let c = process_all conn_new (rapid_reset n)
    in all_accepted conn_new (rapid_reset n) \<and> map fst (streams c) = map (\<lambda>i. of_nat (2 * i + 1)) [0..<n]
       \<and> active_streams c = 0 \<and> local_settings c = settings_default"
  using assms
proof (induction n)
  case 0
  then show ?case by (simp add: rapid_reset_def conn_new_def active_streams_def)
next
  case (Suc n)
  let ?c = "process_all conn_new (rapid_reset n)" and ?sid = "of_nat (2 * n + 1) :: u32"
  have ih: "all_accepted conn_new (rapid_reset n)" "map fst (streams ?c) = map (\<lambda>i. of_nat (2 * i + 1)) [0..<n]"
      "active_streams ?c = 0" "local_settings ?c = settings_default"
    using Suc by (simp_all add: Let_def)
  have "?sid \<noteq> of_nat (2 * i + 1)" if "i < n" for i
  proof
    assume "?sid = of_nat (2 * i + 1)"
    then have "unat ?sid = unat (of_nat (2 * i + 1) :: u32)" by simp
    then show False using that Suc.prems unfolding unat_of_nat by simp
  qed
  then have "?sid \<notin> fst ` set (streams ?c)"
    using arg_cong [OF ih(2), of set] by (auto simp: image_iff)
  then have none: "map_of (streams ?c) ?sid = None" by (simp add: map_of_eq_None_iff)
  have lim: "active_streams ?c < unat (max_concurrent_streams (local_settings ?c))"
    using ih(3,4) by (simp add: settings_default_def DEFAULT_MAX_CONCURRENT_STREAMS_def)
  have split: "rapid_reset (Suc n) = rapid_reset n @ open_and_reset ?sid" by (simp add: rapid_reset_def)
  obtain s where s: "streams (process_all ?c (open_and_reset ?sid)) = streams ?c @ [(?sid, s)]" "\<not> is_open (st_state s)"
    using open_and_reset_run [OF none lim] by blast
  show ?case
    using ih s open_and_reset_run [OF none lim] by (simp add: split Let_def active_streams_def)
qed

text \<open>
  The stream table is not bounded by the stream limit. A client that opens streams and
  resets each at once is never refused, and after \<open>n\<close> such pairs the table holds \<open>n\<close> streams,
  none of them active: a reset stream is only removed when a response is sent on it.
\<close>

theorem rapid_reset_grows_table:
  assumes "n \<le> 2 ^ 31"
  shows "all_accepted conn_new (rapid_reset n)
    \<and> length (streams (process_all conn_new (rapid_reset n))) = n
    \<and> active_streams (process_all conn_new (rapid_reset n)) = 0"
proof -
  have "map fst (streams (process_all conn_new (rapid_reset n))) = map (\<lambda>i. of_nat (2 * i + 1)) [0..<n]"
    using rapid_reset_run [OF assms] by (simp add: Let_def)
  from arg_cong [OF this, of length] show ?thesis
    using rapid_reset_run [OF assms] by (simp add: Let_def)
qed

theorem rapid_reset_grows_table_witness:
  "length (streams (process_all conn_new (rapid_reset 1000000))) = 1000000"
  using rapid_reset_grows_table [of 1000000] by simp

subsection \<open>Header fields of a request\<close>

text \<open>The fields of a header block that enter the header map, under the names they are put.\<close>

fun map_field :: "bytes \<times> bytes \<Rightarrow> (bytes \<times> bytes) list" where
  "map_field (n, v) =
     (if n = ascii '':method'' \<or> n = ascii '':path'' then []
      else if n = ascii '':authority'' then [(ascii ''host'', v)]
      else if take 1 n = ascii '':'' then []
      else [(if utf8_valid n then n else [], v)])"

lemma build_path_headers [simp]: "rp_headers (build_path r v) = rp_headers r"
  by (simp add: build_path_def Let_def split: option.split)

lemma build_fields_headers:
  "rp_headers (foldl build_field r hs)
    = foldl (\<lambda>m (k, v). header_insert m k v) (rp_headers r) (concat (map map_field hs))"
proof (induction hs arbitrary: r)
  case (Cons h hs)
  obtain n v where h: "h = (n, v)" by (cases h)
  have "rp_headers (build_field r (n, v)) = foldl (\<lambda>m (k, v). header_insert m k v) (rp_headers r) (map_field (n, v))"
    by (simp add: build_field_def)
  then show ?case using Cons.IH h by simp
qed simp

text \<open>
  A header of an HTTP/2 request is the last field of that name. For every name, whatever
  its case, the map of the built request returns the value of the last field with that name
  (\<open>:authority\<close> counts as \<open>host\<close>), and it keeps no other: repeated fields do not accumulate.
\<close>

theorem built_request_last_field_wins:
  "header_get (req_headers (build_request s)) k
     = (case filter (\<lambda>(n, v). to_ascii_lowercase n = to_ascii_lowercase k) (concat (map map_field (st_headers s))) of
          [] \<Rightarrow> None | es \<Rightarrow> Some (snd (last es)))
   \<and> length (header_get_all (req_headers (build_request s)) k) \<le> 1"
proof -
  let ?kvs = "concat (map map_field (st_headers s))"
  let ?m = "foldl (\<lambda>m (k, v). header_insert m k v) [] ?kvs"
  have m: "req_headers (build_request s) = ?m"
    by (simp add: build_request_def Let_def build_fields_headers)
  have "length (filter (\<lambda>e. fst e = to_ascii_lowercase k) (foldl (\<lambda>m (k, v). header_insert m k v) [] kvs)) \<le> 1" for kvs
    by (induction kvs rule: rev_induct) (auto simp: header_insert_filter)
  moreover have "header_get [] k = None" by (simp add: header_get_def)
  ultimately show ?thesis
    using headers.get_puts [of "[]" ?kvs k] by (simp add: m header_get_all_def cong: list.case_cong)
qed

end
