(* ===== verification/H1_Parser.thy ===== *)
theory H1_Parser
  imports Http_Types
begin

text \<open>
  The HTTP/1.1 request-head parser (\<^verbatim>\<open>moduvex-http/src/protocol/h1/parser.rs\<close>): limits,
  errors, the request line, header lines and the checks against request smuggling. Borrowed
  slices are byte lists; a \<^verbatim>\<open>&str\<close> is a byte list that passed UTF-8 validation.

  What is shown: every head the parser accepts is safe (one way to frame the body, no control
  bytes, the limits), the verdict on a buffer that holds the end of the head does not depend on
  what follows, and a printed head is parsed back.
\<close>

subsection \<open>Limits, errors and results\<close>

record parse_limits =
  max_request_line :: nat
  max_header_value :: nat
  max_header_block :: nat
  max_header_count :: nat

definition parse_limits_default :: parse_limits where
  "parse_limits_default = \<lparr>max_request_line = 8 * 1024, max_header_value = 8 * 1024,
     max_header_block = 64 * 1024, max_header_count = 100\<rparr>"

datatype parse_error =
    RequestLineTooLong | HeadersTooLarge | TooManyHeaders | HeaderValueTooLong | BadRequestLine
  | UnknownMethod | UnsupportedVersion | BadHeader | HeaderInjection | MissingHost | AmbiguousBody
  | MultipleContentLength

record parsed_head =
  ph_method :: http_method
  ph_path :: bytes
  ph_query :: "bytes option"
  ph_version :: http_version
  ph_headers :: "(bytes \<times> bytes) list"
  ph_head_len :: nat
  ph_has_chunked_te :: bool
  ph_content_length :: "nat option"

datatype parse_status = Complete parsed_head | Partial | Error parse_error

subsection \<open>Helpers\<close>

definition CRLF :: bytes where
  "CRLF = [13, 10]"

definition find_header_end :: "bytes \<Rightarrow> nat option" where
  "find_header_end buf = map_option (\<lambda>p. p + 4) (find_window (CRLF @ CRLF) buf)"

text \<open>The iterator \<^verbatim>\<open>SplitCrlf\<close>; the argument is what is left of the data.\<close>

function split_crlf_lines :: "bytes \<Rightarrow> bytes list" where
  "split_crlf_lines rest =
     (if rest = [] then []
      else case find_window CRLF rest of
        Some e \<Rightarrow> take e rest # split_crlf_lines (drop (e + 2) rest)
      | None \<Rightarrow> [rest])"
  by pat_completeness auto
termination by (relation "measure length") auto

declare split_crlf_lines.simps [simp del]

definition parse_request_line ::
  "bytes \<Rightarrow> (http_method \<times> bytes \<times> bytes option \<times> http_version, parse_error) outcome" where
  "parse_request_line line =
     bind_outcome (ok_or (position (\<lambda>b. b = 32) line) BadRequestLine) (\<lambda>sp1.
     bind_outcome (ok_or (method_from_bytes (take sp1 line)) UnknownMethod) (\<lambda>meth.
     (let rest = drop (sp1 + 1) line in
      bind_outcome (ok_or (position (\<lambda>b. b = 32) rest) BadRequestLine) (\<lambda>sp2.
      (let uri = take sp2 rest in
       if \<not> utf8_valid uri then Err BadRequestLine
       else
         (let (path, query) =
                (case position (\<lambda>b. b = 63) uri of
                   Some q \<Rightarrow> (take q uri, Some (drop (q + 1) uri))
                 | None \<Rightarrow> (uri, None));
              ver_bytes = drop (sp2 + 1) rest
          in if ver_bytes = ascii ''HTTP/1.1'' then Ok (meth, path, query, Http11)
             else if ver_bytes = ascii ''HTTP/1.0'' then Ok (meth, path, query, Http10)
             else Err UnsupportedVersion))))))"

definition is_ows :: "byte \<Rightarrow> bool" where
  "is_ows c \<longleftrightarrow> c = 32 \<or> c = 9"

text \<open>\<^verbatim>\<open>rposition\<close> is the position from the other end.\<close>

definition trim_ows :: "bytes \<Rightarrow> bytes" where
  "trim_ows b =
     (let start = (case position (\<lambda>c. \<not> is_ows c) b of Some i \<Rightarrow> i | None \<Rightarrow> length b);
          endp = (case position (\<lambda>c. \<not> is_ows c) (rev b) of Some i \<Rightarrow> length b - 1 - i + 1 | None \<Rightarrow> 0)
      in if endp \<le> start then [] else drop start (take endp b))"

definition parse_header_line :: "bytes \<Rightarrow> (bytes \<times> bytes, parse_error) outcome" where
  "parse_header_line line =
     bind_outcome (ok_or (position (\<lambda>b. b = 58) line) BadHeader) (\<lambda>colon.
       (let name = take colon line;
            val = trim_ows (drop (colon + 1) line)
        in if \<not> utf8_valid name then Err BadHeader
           else if list_ex (\<lambda>b. b \<le> 32 \<or> b = 127) name then Err BadHeader
           else Ok (name, val)))"

definition contains_forbidden :: "bytes \<Rightarrow> bool" where
  "contains_forbidden b \<longleftrightarrow> list_ex (\<lambda>c. c = 0 \<or> c = 13 \<or> c = 10) b"

subsection \<open>The header loop\<close>

text \<open>The local variables of the loop over the header lines.\<close>

record head_scan =
  hs_headers :: "(bytes \<times> bytes) list"
  hs_has_host :: bool
  hs_has_te :: bool
  hs_cl_value :: "nat option"
  hs_multi_cl :: bool
  hs_has_chunked_te :: bool

definition scan_start :: head_scan where
  "scan_start = \<lparr>hs_headers = [], hs_has_host = False, hs_has_te = False, hs_cl_value = None,
     hs_multi_cl = False, hs_has_chunked_te = False\<rparr>"

definition cl_number :: "bytes \<Rightarrow> nat option" where
  "cl_number v =
     parse_uint 10 (2 ^ 64) (trim (case utf8_decode v of Some cs \<Rightarrow> cs | None \<Rightarrow> []))"

definition value_is_chunked :: "bytes \<Rightarrow> bool" where
  "value_is_chunked v \<longleftrightarrow> find_window (ascii ''chunked'') (to_ascii_lowercase v) \<noteq> None"

text \<open>What one field does to the flags: \<^verbatim>\<open>Host\<close>, \<^verbatim>\<open>Transfer-Encoding\<close>, \<^verbatim>\<open>Content-Length\<close>.\<close>

definition note_field :: "head_scan \<Rightarrow> bytes \<Rightarrow> bytes \<Rightarrow> (head_scan, parse_error) outcome" where
  "note_field s name val =
     (let s1 = (if eq_ignore_ascii_case name (ascii ''host'') then s\<lparr>hs_has_host := True\<rparr> else s);
          s2 = (if eq_ignore_ascii_case name (ascii ''transfer-encoding'')
                then s1\<lparr>hs_has_te := True,
                        hs_has_chunked_te := hs_has_chunked_te s1 \<or> value_is_chunked val\<rparr>
                else s1)
      in if eq_ignore_ascii_case name (ascii ''content-length'') then
           (case cl_number val of
              Some n \<Rightarrow>
                (case hs_cl_value s2 of
                   Some prev \<Rightarrow> Ok (if prev \<noteq> n then s2\<lparr>hs_multi_cl := True\<rparr> else s2)
                 | None \<Rightarrow> Ok (s2\<lparr>hs_cl_value := Some n\<rparr>))
            | None \<Rightarrow> Err BadHeader)
         else Ok s2)"

definition scan_header :: "parse_limits \<Rightarrow> head_scan \<Rightarrow> bytes \<Rightarrow> (head_scan, parse_error) outcome" where
  "scan_header lim s line =
     (if max_header_count lim \<le> length (hs_headers s) then Err TooManyHeaders
      else if max_header_value lim < length line then Err HeaderValueTooLong
      else bind_outcome (parse_header_line line) (\<lambda>(name, val).
        if contains_forbidden name \<or> contains_forbidden val then Err HeaderInjection
        else bind_outcome (note_field s name val)
               (\<lambda>s'. Ok (s'\<lparr>hs_headers := hs_headers s' @ [(name, val)]\<rparr>))))"

primrec scan_headers :: "parse_limits \<Rightarrow> bytes list \<Rightarrow> head_scan \<Rightarrow> (head_scan, parse_error) outcome" where
  "scan_headers lim [] s = Ok s"
| "scan_headers lim (line # lines) s =
     (if line = [] then Ok s
      else bind_outcome (scan_header lim s line) (scan_headers lim lines))"

subsection \<open>The parser\<close>

definition parse_head_lines ::
  "parse_limits \<Rightarrow> nat \<Rightarrow> bytes list \<Rightarrow> (parsed_head, parse_error) outcome" where
  "parse_head_lines lim header_end lines =
     (case lines of
        [] \<Rightarrow> Err BadRequestLine
      | request_line # header_lines \<Rightarrow>
          if max_request_line lim < length request_line then Err RequestLineTooLong
          else bind_outcome (parse_request_line request_line) (\<lambda>(meth, path, query, version).
            bind_outcome (scan_headers lim header_lines scan_start) (\<lambda>s.
              if version = Http11 \<and> \<not> hs_has_host s then Err MissingHost
              else if hs_has_te s \<and> hs_cl_value s \<noteq> None then Err AmbiguousBody
              else if hs_multi_cl s then Err MultipleContentLength
              else Ok \<lparr>ph_method = meth, ph_path = path, ph_query = query, ph_version = version,
                 ph_headers = hs_headers s, ph_head_len = header_end,
                 ph_has_chunked_te = hs_has_chunked_te s, ph_content_length = hs_cl_value s\<rparr>)))"

definition parse_request_head :: "bytes \<Rightarrow> parse_limits \<Rightarrow> parse_status" where
  "parse_request_head buf lim =
     (case find_header_end buf of
        None \<Rightarrow> if max_header_block lim < length buf then Error HeadersTooLarge else Partial
      | Some header_end \<Rightarrow>
          (case parse_head_lines lim header_end (split_crlf_lines (take header_end buf)) of
             Ok h \<Rightarrow> Complete h
           | Err e \<Rightarrow> Error e
           | Panic \<Rightarrow> Error BadRequestLine))"

subsection \<open>What the header loop computes\<close>

text \<open>The values of the fields of one name, and what the loop's flags say of them.\<close>

definition fields_named :: "(bytes \<times> bytes) list \<Rightarrow> string \<Rightarrow> bytes list" where
  "fields_named hs k = map snd (filter (\<lambda>(n, v). eq_ignore_ascii_case n (ascii k)) hs)"

definition field_clean :: "bytes \<times> bytes \<Rightarrow> bool" where
  "field_clean f \<longleftrightarrow> list_all (\<lambda>b. 32 < b \<and> b \<noteq> 127 \<and> b \<noteq> 58) (fst f) \<and> utf8_valid (fst f)
     \<and> \<not> contains_forbidden (snd f) \<and> trim_ows (snd f) = snd f"

definition cl_seen :: "(bytes \<times> bytes) list \<Rightarrow> nat option \<Rightarrow> bool \<Rightarrow> bool" where
  "cl_seen hs cl multi \<longleftrightarrow>
     (\<exists>ns. map cl_number (fields_named hs ''content-length'') = map Some ns
        \<and> cl = (case ns of [] \<Rightarrow> None | n # _ \<Rightarrow> Some n)
        \<and> (multi \<longleftrightarrow> (\<exists>n \<in> set ns. n \<noteq> hd ns)))"

definition scan_inv :: "head_scan \<Rightarrow> bool" where
  "scan_inv s \<longleftrightarrow>
     (hs_has_host s \<longleftrightarrow> fields_named (hs_headers s) ''host'' \<noteq> [])
     \<and> (hs_has_te s \<longleftrightarrow> fields_named (hs_headers s) ''transfer-encoding'' \<noteq> [])
     \<and> (hs_has_chunked_te s \<longleftrightarrow> list_ex value_is_chunked (fields_named (hs_headers s) ''transfer-encoding''))
     \<and> cl_seen (hs_headers s) (hs_cl_value s) (hs_multi_cl s)"

lemma fields_named_append [simp]:
  "fields_named (hs @ [(n, v)]) k
    = fields_named hs k @ (if eq_ignore_ascii_case n (ascii k) then [v] else [])"
  by (simp add: fields_named_def)

lemma scan_inv_start [simp]: "scan_inv scan_start"
  by (simp add: scan_inv_def scan_start_def fields_named_def cl_seen_def)

lemma eq_ignore_ascii_case_length: "eq_ignore_ascii_case a b \<Longrightarrow> length a = length b"
  unfolding eq_ignore_ascii_case_def to_ascii_lowercase_def by (rule map_eq_imp_length_eq)

text \<open>The three names are different, so a field sets the flags of at most one of them.\<close>

lemma special_names_differ:
  "eq_ignore_ascii_case n (ascii ''host'') \<Longrightarrow> \<not> eq_ignore_ascii_case n (ascii ''transfer-encoding'')"
  "eq_ignore_ascii_case n (ascii ''host'') \<Longrightarrow> \<not> eq_ignore_ascii_case n (ascii ''content-length'')"
  "eq_ignore_ascii_case n (ascii ''transfer-encoding'') \<Longrightarrow> \<not> eq_ignore_ascii_case n (ascii ''content-length'')"
  by (auto dest!: eq_ignore_ascii_case_length)

lemma note_field_headers: "note_field s name val = Ok s' \<Longrightarrow> hs_headers s' = hs_headers s"
  by (auto simp: note_field_def Let_def split: if_splits option.splits)

lemma scan_header_Ok:
  assumes "scan_header lim s line = Ok s'"
  obtains name val s1 where "parse_header_line line = Ok (name, val)" and "note_field s name val = Ok s1"
    and "s' = s1\<lparr>hs_headers := hs_headers s @ [(name, val)]\<rparr>"
    and "\<not> contains_forbidden name" and "\<not> contains_forbidden val"
    and "length (hs_headers s) < max_header_count lim" and "length line \<le> max_header_value lim"
proof -
  have guards: "\<not> max_header_count lim \<le> length (hs_headers s)" "\<not> max_header_value lim < length line"
    using assms by (auto simp: scan_header_def split: if_splits)
  obtain name val where line: "parse_header_line line = Ok (name, val)"
    using assms guards by (cases "parse_header_line line") (auto simp: scan_header_def)
  have clean: "\<not> contains_forbidden name" "\<not> contains_forbidden val"
    using assms guards line by (simp_all add: scan_header_def split: if_splits)
  obtain s1 where s1: "note_field s name val = Ok s1"
    using assms guards line clean by (cases "note_field s name val") (auto simp: scan_header_def)
  have "s' = s1\<lparr>hs_headers := hs_headers s @ [(name, val)]\<rparr>"
    using assms guards line clean s1 note_field_headers [OF s1] by (simp add: scan_header_def)
  then show ?thesis
    using that line s1 clean guards by simp
qed

lemma cl_seen_add:
  assumes "cl_seen hs cl multi" and "eq_ignore_ascii_case name (ascii ''content-length'')"
    and "cl_number val = Some n"
  shows "cl_seen (hs @ [(name, val)]) (case cl of None \<Rightarrow> Some n | Some m \<Rightarrow> Some m)
    (multi \<or> (\<exists>m. cl = Some m \<and> m \<noteq> n))"
proof -
  obtain ns where ns: "map cl_number (fields_named hs ''content-length'') = map Some ns"
      "cl = (case ns of [] \<Rightarrow> None | n # _ \<Rightarrow> Some n)" "multi \<longleftrightarrow> (\<exists>n \<in> set ns. n \<noteq> hd ns)"
    using assms(1) unfolding cl_seen_def by blast
  have "map cl_number (fields_named (hs @ [(name, val)]) ''content-length'') = map Some (ns @ [n])"
    using assms ns(1) by simp
  then show ?thesis
    unfolding cl_seen_def ns(2,3) by (intro exI [of _ "ns @ [n]"]) (auto split: list.split)
qed

lemma cl_seen_other:
  "cl_seen hs cl multi \<Longrightarrow> \<not> eq_ignore_ascii_case name (ascii ''content-length'')
    \<Longrightarrow> cl_seen (hs @ [(name, val)]) cl multi"
  by (simp add: cl_seen_def)

lemma note_field_inv:
  assumes inv: "scan_inv s" and nf: "note_field s name val = Ok s'"
  shows "scan_inv (s'\<lparr>hs_headers := hs_headers s @ [(name, val)]\<rparr>)"
proof (cases "eq_ignore_ascii_case name (ascii ''content-length'')")
  case True
  then have other: "\<not> eq_ignore_ascii_case name (ascii ''host'')"
      "\<not> eq_ignore_ascii_case name (ascii ''transfer-encoding'')"
    using special_names_differ by blast+
  then obtain n where n: "cl_number val = Some n"
    using nf True by (cases "cl_number val") (auto simp: note_field_def)
  have s': "hs_has_host s' = hs_has_host s \<and> hs_has_te s' = hs_has_te s
      \<and> hs_has_chunked_te s' = hs_has_chunked_te s
      \<and> hs_cl_value s' = (case hs_cl_value s of None \<Rightarrow> Some n | Some m \<Rightarrow> Some m)
      \<and> hs_multi_cl s' = (hs_multi_cl s \<or> (\<exists>m. hs_cl_value s = Some m \<and> m \<noteq> n))"
    using nf True other n by (auto simp: note_field_def split: option.splits if_splits)
  show ?thesis
    using inv other cl_seen_add [OF _ True n] s' by (simp add: scan_inv_def)
next
  case False
  then have s': "s' = (if eq_ignore_ascii_case name (ascii ''host'') then s\<lparr>hs_has_host := True\<rparr>
      else if eq_ignore_ascii_case name (ascii ''transfer-encoding'')
      then s\<lparr>hs_has_te := True, hs_has_chunked_te := hs_has_chunked_te s \<or> value_is_chunked val\<rparr> else s)"
    using nf special_names_differ(1) [of name] by (auto simp: note_field_def)
  show ?thesis
    using inv cl_seen_other [OF _ False] special_names_differ(1) [of name]
    by (auto simp: scan_inv_def s')
qed

lemma scan_header_inv: "scan_inv s \<Longrightarrow> scan_header lim s line = Ok s' \<Longrightarrow> scan_inv s'"
  by (erule scan_header_Ok) (simp add: note_field_inv)

lemma scan_headers_inv: "scan_headers lim lines s = Ok s' \<Longrightarrow> scan_inv s \<Longrightarrow> scan_inv s'"
proof (induction lines arbitrary: s)
  case (Cons l ls)
  then show ?case by (auto simp: outcome_simps split: if_splits dest: scan_header_inv)
qed simp

text \<open>\<open>trim_ows\<close> is the part between the white space at both ends.\<close>

lemma trim_ows_parts:
  assumes "list_all is_ows pre" and "list_all is_ows post"
    and "mid = [] \<or> \<not> is_ows (hd mid) \<and> \<not> is_ows (last mid)"
  shows "trim_ows (pre @ mid @ post) = mid"
proof (cases "mid = []")
  case True
  then have "position (\<lambda>c. \<not> is_ows c) (pre @ mid @ post) = None"
    using assms by (auto simp: position_None list_all_iff)
  then show ?thesis
    using True by (auto simp: trim_ows_def Let_def split: option.split)
next
  case False
  have f: "position (\<lambda>c. \<not> is_ows c) (pre @ mid @ post) = Some (length pre)"
    using False assms position_append [of "\<lambda>c. \<not> is_ows c" pre "hd mid" "tl mid @ post"]
    by (cases mid) auto
  have r: "rev (pre @ mid @ post) = rev post @ last mid # rev (butlast mid) @ rev pre"
    using False by (cases mid rule: rev_cases) auto
  have l: "position (\<lambda>c. \<not> is_ows c) (rev (pre @ mid @ post)) = Some (length post)"
    unfolding r using False assms position_append [of "\<lambda>c. \<not> is_ows c" "rev post" "last mid"] by simp
  have "length (pre @ mid @ post) - 1 - length post + 1 = length pre + length mid"
    using False by (cases mid) auto
  then show ?thesis unfolding trim_ows_def f l Let_def using False by simp
qed

lemma ows_parts:
  obtains pre mid post where "b = pre @ mid @ post" and "list_all is_ows pre" and "list_all is_ows post"
    and "mid = [] \<or> \<not> is_ows (hd mid) \<and> \<not> is_ows (last mid)"
proof -
  let ?m = "dropWhile is_ows b"
  let ?mid = "rev (dropWhile is_ows (rev ?m))"
  let ?post = "rev (takeWhile is_ows (rev ?m))"
  have m: "?m = ?mid @ ?post"
    by (metis rev_append rev_rev_ident takeWhile_dropWhile_id)
  have b: "b = takeWhile is_ows b @ ?mid @ ?post"
    using m by simp
  have "?mid = [] \<or> \<not> is_ows (hd ?mid) \<and> \<not> is_ows (last ?mid)"
  proof (cases "?mid = []")
    case False
    then have "\<not> is_ows (last ?mid)"
      by (simp add: last_rev hd_dropWhile)
    moreover have "hd ?m = hd ?mid"
      using False m by (metis hd_append2)
    moreover have "?m \<noteq> []"
      using False by (intro notI) simp
    ultimately show ?thesis
      using hd_dropWhile [of is_ows b] by simp
  qed simp
  then show ?thesis
    using b by (intro that [of "takeWhile is_ows b" ?mid ?post]) (auto simp: list_all_iff dest: set_takeWhileD)
qed

lemma trim_ows_idem [simp]: "trim_ows (trim_ows b) = trim_ows b"
proof -
  obtain pre mid post where b: "b = pre @ mid @ post" "list_all is_ows pre" "list_all is_ows post"
    and mid: "mid = [] \<or> \<not> is_ows (hd mid) \<and> \<not> is_ows (last mid)"
    by (rule ows_parts)
  then show ?thesis
    using trim_ows_parts [of pre post mid] trim_ows_parts [of "[]" "[]" mid] by simp
qed

lemma parse_header_line_Ok:
  assumes "parse_header_line line = Ok (name, val)"
  shows "list_all (\<lambda>b. 32 < b \<and> b \<noteq> 127 \<and> b \<noteq> 58) name \<and> utf8_valid name \<and> trim_ows val = val"
proof -
  obtain i where i: "position (\<lambda>b. b = 58) line = Some i" and n: "name = take i line"
    and u: "utf8_valid name" and c: "\<not> list_ex (\<lambda>b. b \<le> 32 \<or> b = 127) name"
    and v: "val = trim_ows (drop (i + 1) line)"
    using assms by (auto simp: parse_header_line_def outcome_simps Let_def split: if_splits)
  have "list_all (\<lambda>b. b \<noteq> 58) name"
    using i unfolding n position_Some by (auto simp: list_all_iff in_set_conv_nth)
  then show ?thesis
    using u c v trim_ows_idem by (auto simp: list_all_iff list_ex_iff)
qed

lemma scan_headers_clean:
  "scan_headers lim lines s = Ok s' \<Longrightarrow> list_all field_clean (hs_headers s)
    \<Longrightarrow> length (hs_headers s) \<le> max_header_count lim
    \<Longrightarrow> list_all field_clean (hs_headers s') \<and> length (hs_headers s') \<le> max_header_count lim"
proof (induction lines arbitrary: s)
  case (Cons l ls)
  show ?case
  proof (cases "l = []")
    case False
    then obtain s1 where s1: "scan_header lim s l = Ok s1" and rest: "scan_headers lim ls s1 = Ok s'"
      using Cons.prems(1) by (auto simp: outcome_simps)
    obtain name val where "parse_header_line l = Ok (name, val)" "hs_headers s1 = hs_headers s @ [(name, val)]"
      "\<not> contains_forbidden val" "length (hs_headers s) < max_header_count lim"
      using s1 by (rule scan_header_Ok) auto
    then show ?thesis
      using Cons.IH [OF rest] Cons.prems parse_header_line_Ok [of l name val]
      by (simp add: field_clean_def)
  qed (use Cons.prems in simp)
qed simp

lemma scan_headers_no_panic: "scan_headers lim lines s \<noteq> Panic"
proof (induction lines arbitrary: s)
  case (Cons l ls)
  have "parse_header_line l \<noteq> Panic"
    by (auto simp: parse_header_line_def outcome_simps Let_def)
  moreover have "note_field s n v \<noteq> Panic" for n v
    by (auto simp: note_field_def Let_def split: option.split)
  ultimately have "scan_header lim s l \<noteq> Panic"
    by (auto simp: scan_header_def outcome_simps)
  then show ?case using Cons.IH by (auto simp: outcome_simps)
qed simp

lemma parse_head_lines_no_panic: "parse_head_lines lim n lines \<noteq> Panic"
proof -
  have "parse_request_line l \<noteq> Panic" for l
    by (auto simp: parse_request_line_def outcome_simps Let_def split: option.splits)
  then show ?thesis
    by (auto simp: parse_head_lines_def outcome_simps scan_headers_no_panic split: list.split)
qed

lemma parse_head_lines_Ok:
  assumes "parse_head_lines lim n lines = Ok h"
  obtains l ls s where "lines = l # ls" and "length l \<le> max_request_line lim"
    and "parse_request_line l = Ok (ph_method h, ph_path h, ph_query h, ph_version h)"
    and "scan_headers lim ls scan_start = Ok s" and "ph_version h = Http11 \<longrightarrow> hs_has_host s"
    and "hs_has_te s \<longrightarrow> hs_cl_value s = None" and "\<not> hs_multi_cl s"
    and "ph_headers h = hs_headers s" and "ph_head_len h = n"
    and "ph_has_chunked_te h = hs_has_chunked_te s" and "ph_content_length h = hs_cl_value s"
proof -
  obtain l ls where lines: "lines = l # ls" "\<not> max_request_line lim < length l"
    using assms by (auto simp: parse_head_lines_def split: list.splits if_splits)
  obtain m pa q v where rl: "parse_request_line l = Ok (m, pa, q, v)"
    using assms lines by (cases "parse_request_line l") (auto simp: parse_head_lines_def)
  obtain s where s: "scan_headers lim ls scan_start = Ok s"
    using assms lines rl by (cases "scan_headers lim ls scan_start") (auto simp: parse_head_lines_def)
  show ?thesis
    using assms lines rl s by (intro that [of l ls s]) (auto simp: parse_head_lines_def split: if_splits)
qed

subsection \<open>Printing a head\<close>

text \<open>The wire form of a head, and the heads that have one.\<close>

definition print_request_line :: "parsed_head \<Rightarrow> bytes" where
  "print_request_line h = method_as_str (ph_method h) @ 32 #
     (ph_path h @ (case ph_query h of None \<Rightarrow> [] | Some q \<Rightarrow> 63 # q)) @ 32 # version_as_str (ph_version h)"

definition print_field :: "bytes \<times> bytes \<Rightarrow> bytes" where
  "print_field f = fst f @ 58 # 32 # snd f"

definition print_lines :: "bytes list \<Rightarrow> bytes" where
  "print_lines ls = concat (map (\<lambda>l. l @ CRLF) ls)"

definition print_head :: "parsed_head \<Rightarrow> bytes" where
  "print_head h = print_lines (print_request_line h # map print_field (ph_headers h)) @ CRLF"

definition uri_byte :: "byte \<Rightarrow> bool" where
  "uri_byte b \<longleftrightarrow> 33 \<le> unat b \<and> unat b \<le> 126"

definition wf_uri :: "parsed_head \<Rightarrow> bool" where
  "wf_uri h \<longleftrightarrow> list_all (\<lambda>b. uri_byte b \<and> b \<noteq> 63) (ph_path h)
     \<and> (case ph_query h of None \<Rightarrow> True | Some q \<Rightarrow> list_all uri_byte q)"

definition wf_framing :: "parsed_head \<Rightarrow> bool" where
  "wf_framing h \<longleftrightarrow>
     (fields_named (ph_headers h) ''transfer-encoding'' = [] \<or> fields_named (ph_headers h) ''content-length'' = [])
     \<and> list_all (\<lambda>v. cl_number v = ph_content_length h) (fields_named (ph_headers h) ''content-length'')
     \<and> (ph_content_length h = None \<longleftrightarrow> fields_named (ph_headers h) ''content-length'' = [])
     \<and> (ph_has_chunked_te h \<longleftrightarrow> list_ex value_is_chunked (fields_named (ph_headers h) ''transfer-encoding''))"

definition wf_head :: "parse_limits \<Rightarrow> parsed_head \<Rightarrow> bool" where
  "wf_head lim h \<longleftrightarrow>
     wf_uri h \<and> ph_version h \<noteq> Http2
     \<and> length (print_request_line h) \<le> max_request_line lim
     \<and> list_all (\<lambda>f. field_clean f \<and> length (print_field f) \<le> max_header_value lim) (ph_headers h)
     \<and> length (ph_headers h) \<le> max_header_count lim
     \<and> (ph_version h = Http11 \<longrightarrow> fields_named (ph_headers h) ''host'' \<noteq> [])
     \<and> wf_framing h \<and> ph_head_len h = length (print_head h)"

text \<open>The end of the head is found behind the last line, the lines being non-empty and without CR.\<close>

lemma find_header_end_lines:
  assumes "list_all (\<lambda>l. l \<noteq> [] \<and> 13 \<notin> set l) ls" and "ls \<noteq> []"
  shows "find_window (CRLF @ CRLF) (print_lines ls @ CRLF @ rest) = Some (length (print_lines ls) - 2)"
  using assms
proof (induction ls)
  case (Cons l ls)
  have skip: "find_window (CRLF @ CRLF) (l @ ys) = map_option ((+) (length l)) (find_window (CRLF @ CRLF) ys)" for ys
    using Cons.prems find_window_skip [of 13 l "[10, 13, 10]" ys] by (simp add: CRLF_def)
  show ?case
  proof (cases ls)
    case Nil
    then show ?thesis using skip [of "CRLF @ CRLF @ rest"] by (simp add: print_lines_def CRLF_def)
  next
    case (Cons l' ls')
    then obtain b bs where b: "l' = b # bs" "b \<noteq> 13"
      using Cons.prems by (cases l') auto
    have "find_window (CRLF @ CRLF) (CRLF @ print_lines ls @ CRLF @ rest)
        = map_option ((+) 2) (find_window (CRLF @ CRLF) (print_lines ls @ CRLF @ rest))"
      unfolding Cons b print_lines_def using b(2) by (simp add: CRLF_def option.map_comp comp_def)
    moreover have "2 \<le> length (print_lines ls)"
      by (simp add: Cons print_lines_def CRLF_def)
    ultimately show ?thesis
      using Cons.IH Cons.prems Cons skip [of "CRLF @ print_lines ls @ CRLF @ rest"]
      by (simp add: print_lines_def CRLF_def)
  qed
qed simp

lemma split_crlf_print_lines:
  "list_all (\<lambda>l. 13 \<notin> set l) ls \<Longrightarrow> split_crlf_lines (print_lines ls @ CRLF) = ls @ [[]]"
proof (induction ls)
  case Nil
  show ?case by (simp add: print_lines_def CRLF_def split_crlf_lines.simps)
next
  case (Cons l ls)
  have "find_window CRLF (l @ CRLF @ ys) = Some (length l)" for ys
    using Cons.prems find_window_skip [of 13 l "[10]" "CRLF @ ys"] by (simp add: CRLF_def)
  then have "split_crlf_lines (l @ CRLF @ ys) = l # split_crlf_lines ys" for ys
    by (subst split_crlf_lines.simps) (simp add: CRLF_def)
  then show ?case using Cons by (simp add: print_lines_def)
qed

lemma method_no_space: "list_all (\<lambda>b. b \<noteq> 32 \<and> b \<noteq> 13) (method_as_str m)"
  by (cases m) (simp_all add: ascii_def)

lemma version_no_cr: "13 \<notin> set (version_as_str v)"
  by (cases v) (simp_all add: ascii_def)

lemma parse_print_request_line:
  assumes uri: "wf_uri h" and v: "ph_version h \<noteq> Http2"
  shows "parse_request_line (print_request_line h) = Ok (ph_method h, ph_path h, ph_query h, ph_version h)"
proof -
  define u where "u = ph_path h @ (case ph_query h of None \<Rightarrow> [] | Some q \<Rightarrow> 63 # q)"
  have u: "list_all uri_byte u"
    using uri by (auto simp: u_def wf_uri_def uri_byte_def list_all_iff split: option.splits)
  then have "list_all (\<lambda>b. b \<noteq> 32) u" by (auto simp: list_all_iff uri_byte_def)
  then have sp2: "position (\<lambda>b. b = 32) (u @ 32 # ys) = Some (length u)" for ys
    by (intro position_append) auto
  have sp1: "position (\<lambda>b. b = 32) (method_as_str m @ 32 # ys) = Some (length (method_as_str m))" for m ys
    using method_no_space [of m] by (intro position_append) (auto simp: list_all_iff)
  have valid: "utf8_valid u" using u by (intro utf8_valid_ascii) (auto simp: list_all_iff uri_byte_def)
  have q: "(case position (\<lambda>b. b = 63) u of Some q \<Rightarrow> (take q u, Some (drop (q + 1) u)) | None \<Rightarrow> (u, None))
      = (ph_path h, ph_query h)"
  proof (cases "ph_query h")
    case None
    then have "position (\<lambda>b. b = 63) u = None" using uri by (simp add: u_def position_None wf_uri_def list_all_iff)
    then show ?thesis using None by (simp add: u_def)
  next
    case (Some q)
    have "list_all (\<lambda>b. b \<noteq> 63) (ph_path h)" using uri by (simp add: wf_uri_def list_all_iff)
    then have "position (\<lambda>b. b = 63) u = Some (length (ph_path h))"
      unfolding u_def Some by (simp add: position_append)
    then show ?thesis using Some by (simp add: u_def)
  qed
  have "print_request_line h = method_as_str (ph_method h) @ 32 # u @ 32 # version_as_str (ph_version h)"
    by (simp add: print_request_line_def u_def)
  then show ?thesis
    using v valid q by (cases "ph_version h")
      (simp_all add: parse_request_line_def sp1 sp2 method_roundtrip, simp_all add: ascii_def)
qed

lemma print_request_line_no_cr: "wf_uri h \<Longrightarrow> print_request_line h \<noteq> [] \<and> 13 \<notin> set (print_request_line h)"
  using method_no_space [of "ph_method h"] version_no_cr [of "ph_version h"]
  by (auto simp: print_request_line_def wf_uri_def list_all_iff uri_byte_def split: option.splits)

lemma field_clean_no_cr: "field_clean f \<Longrightarrow> 13 \<notin> set (print_field f)"
  by (auto simp: field_clean_def print_field_def list_all_iff list_ex_iff contains_forbidden_def)

lemma trim_ows_space: "trim_ows v = v \<Longrightarrow> trim_ows (32 # v) = v"
proof -
  assume v: "trim_ows v = v"
  obtain pre mid post where p: "v = pre @ mid @ post" "list_all is_ows pre" "list_all is_ows post"
    and mid: "mid = [] \<or> \<not> is_ows (hd mid) \<and> \<not> is_ows (last mid)" by (rule ows_parts)
  have "trim_ows v = mid" using trim_ows_parts [OF p(2,3) mid] p(1) by simp
  then show ?thesis
    using v mid trim_ows_parts [of "[32]" "[]" v] by (simp add: is_ows_def)
qed

lemma parse_print_field:
  assumes "field_clean f"
  shows "parse_header_line (print_field f) = Ok f"
proof -
  have "position (\<lambda>b. b = 58) (print_field f) = Some (length (fst f))"
    using assms unfolding print_field_def
    by (intro position_append) (auto simp: field_clean_def list_all_iff)
  moreover have "\<not> list_ex (\<lambda>b. b \<le> 32 \<or> b = 127) (fst f)"
    using assms by (auto simp: field_clean_def list_all_iff list_ex_iff)
  moreover have "take (length (fst f)) (print_field f) = fst f"
    and "drop (length (fst f) + 1) (print_field f) = 32 # snd f"
    by (simp_all add: print_field_def)
  ultimately show ?thesis
    using assms by (simp add: parse_header_line_def field_clean_def trim_ows_space)
qed

lemma field_clean_name: "field_clean f \<Longrightarrow> \<not> contains_forbidden (fst f)"
  by (auto simp: field_clean_def contains_forbidden_def list_all_iff list_ex_iff)

lemma note_field_total:
  assumes "eq_ignore_ascii_case n (ascii ''content-length'') \<longrightarrow> cl_number v \<noteq> None"
  shows "\<exists>s'. note_field s n v = Ok s'"
  using assms by (auto simp: note_field_def Let_def split: option.split)

lemma scan_print_fields:
  "list_all (\<lambda>f. field_clean f \<and> length (print_field f) \<le> max_header_value lim) hs
    \<Longrightarrow> length (hs_headers s) + length hs \<le> max_header_count lim
    \<Longrightarrow> list_all (\<lambda>v. cl_number v \<noteq> None) (fields_named hs ''content-length'')
    \<Longrightarrow> \<exists>s'. scan_headers lim (map print_field hs @ [[]]) s = Ok s' \<and> hs_headers s' = hs_headers s @ hs"
proof (induction hs arbitrary: s)
  case (Cons f hs)
  have "eq_ignore_ascii_case (fst f) (ascii ''content-length'') \<longrightarrow> cl_number (snd f) \<noteq> None"
    using Cons.prems by (cases f) (auto simp: fields_named_def)
  then obtain s1 where s1: "note_field s (fst f) (snd f) = Ok s1"
    using note_field_total by blast
  let ?s = "s1\<lparr>hs_headers := hs_headers s @ [f]\<rparr>"
  have "scan_header lim s (print_field f) = Ok ?s"
    using Cons.prems s1 field_clean_name [of f] note_field_headers [OF s1]
    by (cases f) (simp add: scan_header_def parse_print_field, simp add: field_clean_def)
  moreover have "print_field f \<noteq> []" by (simp add: print_field_def)
  moreover obtain s' where "scan_headers lim (map print_field hs @ [[]]) ?s = Ok s'"
      "hs_headers s' = hs_headers s @ f # hs"
    using Cons.IH [of ?s] Cons.prems by (cases f) (auto simp: fields_named_def split: if_splits)
  ultimately show ?case by simp
qed simp

lemma scan_wf_head:
  assumes "wf_head lim h"
  shows "\<exists>s. scan_headers lim (map print_field (ph_headers h) @ [[]]) scan_start = Ok s
    \<and> hs_headers s = ph_headers h \<and> (ph_version h = Http11 \<longrightarrow> hs_has_host s)
    \<and> (hs_has_te s \<longrightarrow> hs_cl_value s = None) \<and> \<not> hs_multi_cl s
    \<and> hs_has_chunked_te s = ph_has_chunked_te h \<and> hs_cl_value s = ph_content_length h"
proof -
  let ?cl = "fields_named (ph_headers h) ''content-length''"
  have wf: "wf_framing h" using assms by (simp add: wf_head_def)
  have cl: "list_all (\<lambda>v. cl_number v = ph_content_length h \<and> cl_number v \<noteq> None) ?cl"
    using wf by (cases ?cl) (auto simp: wf_framing_def list_all_iff)
  have "list_all (\<lambda>v. cl_number v \<noteq> None) ?cl"
    using cl by (rule list.pred_mono_strong) blast
  moreover have "hs_headers scan_start = []" by (simp add: scan_start_def)
  ultimately obtain s where s: "scan_headers lim (map print_field (ph_headers h) @ [[]]) scan_start = Ok s"
      "hs_headers s = ph_headers h"
    using scan_print_fields [of lim "ph_headers h" scan_start] assms by (auto simp: wf_head_def)
  have inv: "scan_inv s" using scan_headers_inv [OF s(1)] by simp
  obtain ns where ns: "map cl_number ?cl = map Some ns"
      "hs_cl_value s = (case ns of [] \<Rightarrow> None | n # _ \<Rightarrow> Some n)" "hs_multi_cl s \<longleftrightarrow> (\<exists>n \<in> set ns. n \<noteq> hd ns)"
    using inv unfolding scan_inv_def cl_seen_def s(2) by blast
  have all: "Some n = ph_content_length h" if "n \<in> set ns" for n
  proof -
    have "Some n \<in> set (map cl_number ?cl)" using that ns(1) by simp
    then show ?thesis using cl by (auto simp: list_all_iff)
  qed
  have "ns = [] \<longleftrightarrow> ?cl = []" using ns(1) by (metis map_is_Nil_conv)
  then have "hs_cl_value s = ph_content_length h"
    using ns(2) all wf by (cases ns) (auto simp: wf_framing_def)
  moreover have "\<not> hs_multi_cl s" using ns(3) all by (cases ns) (auto, metis option.inject)
  ultimately show ?thesis
    using s inv assms wf by (auto simp: scan_inv_def wf_head_def wf_framing_def)
qed

lemma parse_print_head:
  assumes wf: "wf_head lim h"
  shows "parse_request_head (print_head h @ rest) lim = Complete h"
proof -
  let ?lines = "print_request_line h # map print_field (ph_headers h)"
  have uri: "wf_uri h" and v: "ph_version h \<noteq> Http2" using wf by (auto simp: wf_head_def)
  have lines: "list_all (\<lambda>l. l \<noteq> [] \<and> 13 \<notin> set l) ?lines"
    using wf print_request_line_no_cr [OF uri] field_clean_no_cr
    by (auto simp: wf_head_def list_all_iff print_field_def)
  have len: "length (print_head h) = length (print_lines ?lines) - 2 + 4"
    by (simp add: print_head_def print_lines_def CRLF_def)
  have e: "find_header_end (print_head h @ rest) = Some (length (print_head h))"
    using find_header_end_lines [OF lines, of rest] unfolding len
    by (simp add: find_header_end_def print_head_def)
  have sp: "split_crlf_lines (print_head h) = ?lines @ [[]]"
    unfolding print_head_def using lines by (intro split_crlf_print_lines) (auto simp: list_all_iff)
  obtain s where "scan_headers lim (map print_field (ph_headers h) @ [[]]) scan_start = Ok s"
    "hs_headers s = ph_headers h" "ph_version h = Http11 \<longrightarrow> hs_has_host s"
    "hs_has_te s \<longrightarrow> hs_cl_value s = None" "\<not> hs_multi_cl s"
    "hs_has_chunked_te s = ph_has_chunked_te h" "hs_cl_value s = ph_content_length h"
    using scan_wf_head [OF wf] by blast
  then have "parse_head_lines lim (length (print_head h)) (?lines @ [[]]) = Ok h"
    using wf parse_print_request_line [OF uri v]
    by (auto simp: parse_head_lines_def wf_head_def)
  then show ?thesis
    by (simp add: parse_request_head_def e sp)
qed

text \<open>Bytes behind a complete head do not matter, and before it is complete the parser waits.\<close>

lemma parse_pieces:
  "(\<forall>h. parse_request_head buf lim = Complete h \<longrightarrow> parse_request_head (buf @ more_bytes) lim = Complete h)
   \<and> (\<forall>h. parse_request_head (buf @ more_bytes) lim = Complete h \<and> length buf \<le> max_header_block lim
        \<longrightarrow> parse_request_head buf lim = (if ph_head_len h \<le> length buf then Complete h else Partial))"
proof (intro conjI allI impI)
  fix h assume "parse_request_head buf lim = Complete h"
  then obtain e where "find_header_end buf = Some e" "find_header_end (buf @ more_bytes) = Some e"
      "e \<le> length buf"
    using find_window_append find_window_bound [of "CRLF @ CRLF" buf]
    by (fastforce simp: parse_request_head_def find_header_end_def CRLF_def split: option.splits if_splits)
  then show "parse_request_head (buf @ more_bytes) lim = Complete h"
    using \<open>parse_request_head buf lim = Complete h\<close> by (simp add: parse_request_head_def)
next
  fix h assume h: "parse_request_head (buf @ more_bytes) lim = Complete h \<and> length buf \<le> max_header_block lim"
  then obtain e where e: "find_header_end (buf @ more_bytes) = Some e"
      "parse_head_lines lim e (split_crlf_lines (take e (buf @ more_bytes))) = Ok h"
    by (auto simp: parse_request_head_def split: option.splits if_splits outcome.splits)
  have len: "ph_head_len h = e" using e(2) by (rule parse_head_lines_Ok)
  show "parse_request_head buf lim = (if ph_head_len h \<le> length buf then Complete h else Partial)"
  proof (cases "e \<le> length buf")
    case True
    then have "find_header_end buf = Some e"
      using e(1) find_window_appendD [of "CRLF @ CRLF" buf more_bytes] by (auto simp: find_header_end_def CRLF_def)
    then show ?thesis using e(2) True len by (simp add: parse_request_head_def)
  next
    case False
    have "find_header_end buf = None"
    proof (rule ccontr)
      assume "find_header_end buf \<noteq> None"
      then obtain p where "find_window (CRLF @ CRLF) buf = Some p" by (auto simp: find_header_end_def)
      then show False
        using find_window_append find_window_bound [of "CRLF @ CRLF" buf p] e(1) False
        by (fastforce simp: find_header_end_def CRLF_def)
    qed
    then show ?thesis using False len h by (simp add: parse_request_head_def)
  qed
qed

subsection \<open>Properties\<close>

text \<open>
  C14: A request head that the parser accepts is safe to act on. There is one way to frame the
  body: \<^verbatim>\<open>Transfer-Encoding\<close> and \<^verbatim>\<open>Content-Length\<close> never occur together, and all
  \<^verbatim>\<open>Content-Length\<close> fields are numbers equal to the reported length, which is absent exactly
  when there is none. Names hold no control bytes, spaces or colons, values no NUL, CR or LF;
  an HTTP/1.1 request has a host, the number of fields is within the limit, and the consumed
  length ends at the first empty line of the buffer.
\<close>

theorem parsed_head_safe:
  assumes "parse_request_head buf lim = Complete h"
  shows "\<not> (fields_named (ph_headers h) ''transfer-encoding'' \<noteq> []
           \<and> fields_named (ph_headers h) ''content-length'' \<noteq> [])
    \<and> (\<forall>v \<in> set (fields_named (ph_headers h) ''content-length''). cl_number v = ph_content_length h)
    \<and> (ph_content_length h = None \<longleftrightarrow> fields_named (ph_headers h) ''content-length'' = [])
    \<and> (ph_has_chunked_te h \<longleftrightarrow> list_ex value_is_chunked (fields_named (ph_headers h) ''transfer-encoding''))
    \<and> (ph_version h = Http11 \<longrightarrow> fields_named (ph_headers h) ''host'' \<noteq> [])
    \<and> list_all field_clean (ph_headers h) \<and> length (ph_headers h) \<le> max_header_count lim
    \<and> 4 \<le> ph_head_len h \<and> ph_head_len h \<le> length buf
    \<and> find_window (CRLF @ CRLF) buf = Some (ph_head_len h - 4)"
proof -
  obtain e where e: "find_header_end buf = Some e"
    and h: "parse_head_lines lim e (split_crlf_lines (take e buf)) = Ok h"
    using assms by (auto simp: parse_request_head_def split: option.splits if_splits outcome.splits)
  obtain ls s where s: "scan_headers lim ls scan_start = Ok s" "ph_version h = Http11 \<longrightarrow> hs_has_host s"
    "hs_has_te s \<longrightarrow> hs_cl_value s = None" "\<not> hs_multi_cl s" "ph_headers h = hs_headers s"
    "ph_head_len h = e" "ph_has_chunked_te h = hs_has_chunked_te s" "ph_content_length h = hs_cl_value s"
    using h by (rule parse_head_lines_Ok)
  have inv: "scan_inv s" using scan_headers_inv [OF s(1)] by simp
  have clean: "list_all field_clean (hs_headers s) \<and> length (hs_headers s) \<le> max_header_count lim"
    using scan_headers_clean [OF s(1)] by (simp add: scan_start_def)
  obtain ns where ns: "map cl_number (fields_named (hs_headers s) ''content-length'') = map Some ns"
      "hs_cl_value s = (case ns of [] \<Rightarrow> None | n # _ \<Rightarrow> Some n)" "\<forall>n \<in> set ns. n = hd ns"
    using inv s(4) unfolding scan_inv_def cl_seen_def by blast
  have "cl_number v = hs_cl_value s" if "v \<in> set (fields_named (hs_headers s) ''content-length'')" for v
  proof -
    have "cl_number v \<in> set (map Some ns)" using that ns(1) [symmetric] by simp
    then show ?thesis using ns(2,3) by (cases ns) auto
  qed
  moreover have "hs_cl_value s = None \<longleftrightarrow> fields_named (hs_headers s) ''content-length'' = []"
    using ns(1,2) by (cases ns) auto
  moreover have "4 \<le> e \<and> e \<le> length buf \<and> find_window (CRLF @ CRLF) buf = Some (e - 4)"
    using e find_window_bound [of "CRLF @ CRLF" buf] by (auto simp: find_header_end_def CRLF_def)
  ultimately show ?thesis
    using inv clean s by (auto simp: scan_inv_def)
qed


text \<open>A request with a body of five bytes.\<close>

definition sample_head :: parsed_head where
  "sample_head = \<lparr>ph_method = POST, ph_path = ascii ''/a'', ph_query = Some (ascii ''b''),
     ph_version = Http11, ph_headers = [(ascii ''Host'', ascii ''x''), (ascii ''Content-Length'', decimal 5)],
     ph_head_len = 50, ph_has_chunked_te = False, ph_content_length = Some 5\<rparr>"

lemma cl_number_decimal: "n < 2 ^ 64 \<Longrightarrow> cl_number (decimal n) = Some n"
  by (simp add: cl_number_def utf8_decode_decimal trim_decimal parse_uint_decimal)

lemma sample_fields:
  "fields_named (ph_headers sample_head) ''content-length'' = [decimal 5]"
  "fields_named (ph_headers sample_head) ''transfer-encoding'' = []"
  "fields_named (ph_headers sample_head) ''host'' = [ascii ''x'']"
  by code_simp+

lemma sample_wf: "wf_head parse_limits_default sample_head"
proof -
  have "wf_framing sample_head"
    unfolding wf_framing_def sample_fields
    by (simp add: sample_head_def cl_number_decimal)
  moreover have "wf_uri sample_head" by code_simp
  moreover have "list_all (\<lambda>f. field_clean f \<and> length (print_field f) \<le> 17) (ph_headers sample_head)"
    by code_simp
  then have "list_all (\<lambda>f. field_clean f \<and> length (print_field f) \<le> max_header_value parse_limits_default)
      (ph_headers sample_head)"
    by (rule list.pred_mono_strong) (simp add: parse_limits_default_def)
  moreover have "length (print_request_line sample_head) = 18" and "length (print_head sample_head) = 50"
    by code_simp+
  moreover have "ph_version sample_head = Http11" "length (ph_headers sample_head) = 2" "ph_head_len sample_head = 50"
    by (simp_all add: sample_head_def)
  ultimately show ?thesis
    by (simp add: wf_head_def sample_fields) (simp add: parse_limits_default_def)
qed

theorem parsed_head_safe_witness:
  "parse_request_head (print_head sample_head @ ascii ''hello'') parse_limits_default = Complete sample_head
   \<and> list_all (\<lambda>v. cl_number v = Some 5) (fields_named (ph_headers sample_head) ''content-length'')"
  using parsed_head_safe [OF parse_print_head [OF sample_wf, of "ascii ''hello''"]]
    parse_print_head [OF sample_wf]
  by (simp add: sample_head_def list_all_iff)

text \<open>
  The parser reads back what a client prints. A head whose fields are clean and within the
  limits, printed as a request line, one line per field and an empty line, is parsed to exactly
  that head, whatever bytes follow it on the connection.
\<close>

theorem request_head_roundtrip:
  assumes "wf_head lim h"
  shows "parse_request_head (print_head h @ rest) lim = Complete h"
  using assms by (rule parse_print_head)

theorem request_head_roundtrip_witness:
  "wf_head parse_limits_default sample_head
   \<and> parse_request_head (print_head sample_head @ ascii ''hello'') parse_limits_default = Complete sample_head"
  using request_head_roundtrip [OF sample_wf] sample_wf by blast

text \<open>
  C21: Parsing a head that arrives in pieces gives the same result as parsing it whole. Bytes
  that arrive after a complete head do not change it, and before the head is complete (and
  within the block limit) the answer is \<open>Partial\<close>, never an error or a different head.
\<close>

theorem parse_incremental:
  "(\<forall>h. parse_request_head buf lim = Complete h \<longrightarrow> parse_request_head (buf @ more_bytes) lim = Complete h)
   \<and> (\<forall>h. parse_request_head (buf @ more_bytes) lim = Complete h \<and> length buf \<le> max_header_block lim
        \<longrightarrow> parse_request_head buf lim = (if ph_head_len h \<le> length buf then Complete h else Partial))"
  by (rule parse_pieces)

theorem parse_incremental_witness:
  "parse_request_head (print_head sample_head @ ascii ''hello'') parse_limits_default = Complete sample_head
   \<and> parse_request_head (take 20 (print_head sample_head)) parse_limits_default = Partial"
proof -
  have len: "length (print_head sample_head) = 50" "ph_head_len sample_head = 50"
    using sample_wf by (simp_all add: wf_head_def) (simp_all add: sample_head_def)
  let ?x = "print_head sample_head" and ?lim = parse_limits_default
  have whole: "parse_request_head ?x ?lim = Complete sample_head"
    using parse_print_head [OF sample_wf, of "[]"] by simp
  have cut: "parse_request_head (take 20 ?x @ drop 20 ?x) ?lim = Complete sample_head
      \<and> length (take 20 ?x) \<le> max_header_block ?lim"
    using whole by (simp add: parse_limits_default_def)
  have "parse_request_head (take 20 ?x) ?lim
      = (if ph_head_len sample_head \<le> length (take 20 ?x) then Complete sample_head else Partial)"
    using parse_incremental [of "take 20 ?x" ?lim "drop 20 ?x"] cut by blast
  then have "parse_request_head (take 20 ?x) ?lim = Partial"
    unfolding length_take len by simp
  moreover have "parse_request_head (?x @ ascii ''hello'') ?lim = Complete sample_head"
    using parse_incremental [of ?x ?lim "ascii ''hello''"] whole by blast
  ultimately show ?thesis by blast
qed

end
