(* ===== verification/H1_Body.thy ===== *)
theory H1_Body
  imports H1_Parser
begin

text \<open>
  HTTP/1.1 message bodies and responses: the chunked transfer coding
  (\<^verbatim>\<open>moduvex-http/src/protocol/h1/chunked.rs\<close>) and the response encoder
  (\<^verbatim>\<open>encoder.rs\<close>).

  What is shown: chunked encoding and decoding are inverse and a truncated body is always
  reported as incomplete; an encoded response carries exactly one framing field, which is the
  true length of the body bytes behind the head.
\<close>

subsection \<open>Hexadecimal numbers\<close>

definition hex_digit :: "nat \<Rightarrow> byte" where
  "hex_digit d = of_nat (if d < 10 then 48 + d else 87 + d)"

text \<open>\<^verbatim>\<open>format!("{:x}", n)\<close>.\<close>

fun hex :: "nat \<Rightarrow> bytes" where
  "hex n = (if n < 16 then [hex_digit n] else hex (n div 16) @ [hex_digit (n mod 16)])"

declare hex.simps [simp del]

lemma unat_hex_digit: "d < 16 \<Longrightarrow> unat (hex_digit d) = (if d < 10 then 48 + d else 87 + d)"
  unfolding hex_digit_def unat_of_nat by simp

lemma digit_value_hex: "d < 16 \<Longrightarrow> digit_value 16 (unat (hex_digit d)) = Some d"
  by (simp add: unat_hex_digit digit_value_def)

lemma hex_nonempty [simp]: "hex n \<noteq> []"
  by (simp add: hex.simps [of n])

lemma hex_bytes: "b \<in> set (hex n) \<Longrightarrow> 48 \<le> unat b \<and> unat b \<le> 57 \<or> 97 \<le> unat b \<and> unat b \<le> 102"
proof (induction n rule: hex.induct)
  case (1 n)
  then show ?case
    using unat_hex_digit [of n] unat_hex_digit [of "n mod 16"]
    by (subst (asm) hex.simps) (auto split: if_splits)
qed

lemma parse_digits_hex: "n < limit \<Longrightarrow> parse_digits 16 limit (map unat (hex n)) 0 = Some n"
proof (induction n rule: hex.induct)
  case (1 n)
  show ?case
  proof (cases "n < 16")
    case True
    then show ?thesis using "1.prems" digit_value_hex [of n] by (simp add: hex.simps [of n])
  next
    case False
    have "parse_digits 16 limit (map unat (hex (n div 16))) 0 = Some (n div 16)"
      using "1.IH" False "1.prems" by simp
    then show ?thesis
      using False "1.prems" digit_value_hex [of "n mod 16"]
      by (simp add: hex.simps [of n] parse_digits_append)
  qed
qed

lemma parse_uint_hex:
  assumes "n < limit"
  shows "parse_uint 16 limit (map unat (hex n)) = Some n"
proof -
  obtain b bs where b: "hex n = b # bs" by (cases "hex n") auto
  then have "unat b \<noteq> 43" using hex_bytes [of b n] by auto
  then show ?thesis using parse_digits_hex [OF assms] b by (simp add: parse_uint_def)
qed

lemma hex_not_whitespace: "b \<in> set (hex n) \<Longrightarrow> \<not> is_whitespace (unat b)"
  using hex_bytes [of b n] by (auto simp: is_whitespace_def)

lemma trim_hex: "trim (map unat (hex n)) = map unat (hex n)"
proof (rule trim_id)
  show "\<not> is_whitespace (hd (map unat (hex n)))"
    using hex_not_whitespace [of "hd (hex n)" n] by (simp add: hd_map)
  show "\<not> is_whitespace (last (map unat (hex n)))"
    using hex_not_whitespace [of "last (hex n)" n] by (simp add: last_map)
qed simp

lemma utf8_decode_hex: "utf8_decode (hex n) = Some (map unat (hex n))"
  by (rule utf8_decode_ascii) (force simp: list_all_iff dest: hex_bytes)

subsection \<open>Chunked coding\<close>

definition MAX_CHUNK_SIZE :: nat where
  "MAX_CHUNK_SIZE = 16 * 1024 * 1024"

datatype chunked_error = BadChunkSize | ChunkTooLarge | BadChunkTerminator | Incomplete

definition find_crlf :: "bytes \<Rightarrow> nat option" where
  "find_crlf buf = find_window CRLF buf"

text \<open>The size of a chunk from its size line, extensions cut off.\<close>

definition chunk_size :: "bytes \<Rightarrow> nat option" where
  "chunk_size size_line =
     (case utf8_decode (takeWhile (\<lambda>b. b \<noteq> 59) size_line) of
        None \<Rightarrow> None
      | Some cs \<Rightarrow> parse_uint 16 (2 ^ 64) (trim cs))"

text \<open>The loop; \<open>rest\<close> is the buffer from the current position.\<close>

function decode_chunked_loop :: "bytes \<Rightarrow> bytes \<Rightarrow> (bytes, chunked_error) outcome" where
  "decode_chunked_loop rest body =
     (case find_crlf rest of
        None \<Rightarrow> Err Incomplete
      | Some crlf \<Rightarrow>
          (case chunk_size (take crlf rest) of
             None \<Rightarrow> Err BadChunkSize
           | Some len \<Rightarrow>
               (let data = drop (crlf + 2) rest in
                if len = 0 then Ok body
                else if MAX_CHUNK_SIZE < len then Err ChunkTooLarge
                else if length data < len + 2 then Err Incomplete
                else if take 2 (drop len data) \<noteq> CRLF then Err BadChunkTerminator
                else decode_chunked_loop (drop (len + 2) data) (body @ take len data))))"
  by pat_completeness auto
termination by (relation "measure (\<lambda>(rest, body). length rest)") auto

declare decode_chunked_loop.simps [simp del]

definition decode_chunked :: "bytes \<Rightarrow> (bytes, chunked_error) outcome" where
  "decode_chunked buf = decode_chunked_loop buf []"

definition encode_chunk :: "bytes \<Rightarrow> bytes \<Rightarrow> bytes" where
  "encode_chunk data out =
     (if data = [] then out else out @ hex (length data) @ CRLF @ data @ CRLF)"

definition write_final_chunk :: "bytes \<Rightarrow> bytes" where
  "write_final_chunk out = out @ ascii ''0'' @ CRLF @ CRLF"

subsection \<open>Response encoder\<close>

definition write_status_line :: "bytes \<Rightarrow> nat \<Rightarrow> bytes" where
  "write_status_line out status =
     (let out = out @ ascii ''HTTP/1.1 '' @ decimal status;
          reason = canonical_reason status;
          out = (if reason \<noteq> [] then out @ ascii '' '' @ reason else out)
      in out @ CRLF)"

definition h1_write_header :: "bytes \<Rightarrow> bytes \<Rightarrow> bytes \<Rightarrow> bytes" where
  "h1_write_header out name val = out @ name @ ascii '': '' @ val @ CRLF"

definition write_chunk :: "bytes \<Rightarrow> bytes \<Rightarrow> bytes" where
  "write_chunk out data = out @ hex (length data) @ CRLF @ data @ CRLF"

text \<open>The loop over \<^verbatim>\<open>rx.next_chunk()\<close>: it stops when the queue is empty or at an empty chunk.\<close>

primrec write_queued :: "bytes list \<Rightarrow> bytes \<Rightarrow> bytes" where
  "write_queued [] out = out"
| "write_queued (c # cs) out = (if c \<noteq> [] then write_queued cs (write_chunk out c) else out)"

definition write_user_header :: "bytes \<Rightarrow> bytes \<times> bytes \<Rightarrow> bytes" where
  "write_user_header out f =
     (let lower = to_ascii_lowercase (fst f)
      in if lower = ascii ''content-length'' \<or> lower = ascii ''transfer-encoding'' then out
         else h1_write_header out (fst f) (snd f))"

definition encode_response :: "response \<Rightarrow> bytes \<Rightarrow> bytes" where
  "encode_response resp out =
     (let (content_length, use_chunked) =
            (case resp_body resp of
               Empty \<Rightarrow> (Some 0, False)
             | Fixed v \<Rightarrow> (Some (length v), False)
             | Stream chunks closed \<Rightarrow> (None, True));
          out = write_status_line out (resp_status resp);
          out = foldl write_user_header out (resp_headers resp);
          out = (if use_chunked then h1_write_header out (ascii ''Transfer-Encoding'') (ascii ''chunked'')
                 else case content_length of
                   Some len \<Rightarrow> h1_write_header out (ascii ''Content-Length'') (decimal len)
                 | None \<Rightarrow> out);
          out = out @ CRLF
      in case resp_body resp of
           Empty \<Rightarrow> out
         | Fixed v \<Rightarrow> out @ v
         | Stream chunks closed \<Rightarrow> write_queued chunks out @ ascii ''0'' @ CRLF @ CRLF)"

definition encode_error :: "nat \<Rightarrow> bytes \<Rightarrow> bytes \<Rightarrow> bytes" where
  "encode_error status msg out =
     (let out = write_status_line out status;
          out = h1_write_header out (ascii ''Content-Type'') (ascii ''text/plain; charset=utf-8'');
          out = h1_write_header out (ascii ''Content-Length'') (decimal (length msg));
          out = h1_write_header out (ascii ''Connection'') (ascii ''close'')
      in out @ CRLF @ msg)"

subsection \<open>Decoding what was encoded\<close>

text \<open>The wire form of a sequence of chunks, without the terminator.\<close>

definition chunks_wire :: "bytes list \<Rightarrow> bytes" where
  "chunks_wire cs = foldl (\<lambda>out c. encode_chunk c out) [] cs"

definition chunk_wire :: "bytes \<Rightarrow> bytes" where
  "chunk_wire c = (if c = [] then [] else hex (length c) @ CRLF @ c @ CRLF)"

lemma encode_chunk_wire: "encode_chunk c out = out @ chunk_wire c"
  by (simp add: encode_chunk_def chunk_wire_def)

lemma foldl_encode_chunk: "foldl (\<lambda>out c. encode_chunk c out) out cs = out @ concat (map chunk_wire cs)"
  by (induction cs arbitrary: out) (simp_all add: encode_chunk_wire)

lemma chunks_wire_concat: "chunks_wire cs = concat (map chunk_wire cs)"
  by (simp add: chunks_wire_def foldl_encode_chunk)

lemma takeWhile_hex: "takeWhile (\<lambda>b. b \<noteq> 59) (hex n) = hex n"
  using hex_bytes [of 59 n] by (auto simp: takeWhile_eq_all_conv)

lemma chunk_size_hex: "n < 2 ^ 64 \<Longrightarrow> chunk_size (hex n) = Some n"
  by (simp add: chunk_size_def takeWhile_hex utf8_decode_hex trim_hex parse_uint_hex)

lemma hex_no_cr: "13 \<notin> set (hex n)"
  using hex_bytes [of 13 n] by auto

lemma find_crlf_hex: "find_crlf (hex n @ CRLF @ ys) = Some (length (hex n))"
  using find_window_skip [of 13 "hex n" "[10]" "CRLF @ ys"] hex_no_cr by (simp add: find_crlf_def CRLF_def)

lemma decode_chunk_step:
  assumes "c \<noteq> []" and "length c \<le> MAX_CHUNK_SIZE"
  shows "decode_chunked_loop (chunk_wire c @ rest) body = decode_chunked_loop rest (body @ c)"
proof -
  have w: "chunk_wire c @ rest = hex (length c) @ CRLF @ c @ CRLF @ rest"
    using assms(1) by (simp add: chunk_wire_def)
  have "MAX_CHUNK_SIZE < 2 ^ 64" by (simp add: MAX_CHUNK_SIZE_def)
  then have "length c < 2 ^ 64" using assms(2) by linarith
  then have size: "chunk_size (hex (length c)) = Some (length c)" by (rule chunk_size_hex)
  let ?buf = "hex (length c) @ CRLF @ c @ CRLF @ rest"
  have d: "drop (length (hex (length c)) + 2) ?buf = c @ CRLF @ rest" "take (length (hex (length c))) ?buf = hex (length c)"
    by (simp_all add: CRLF_def)
  have e: "length (c @ CRLF @ rest) = length c + 2 + length rest" "take 2 (CRLF @ rest) = CRLF"
    "drop (length c + 2) (c @ CRLF @ rest) = rest" "take (length c) (c @ CRLF @ rest) = c"
    by (simp_all add: CRLF_def)
  have "decode_chunked_loop ?buf body = decode_chunked_loop rest (body @ c)"
    unfolding decode_chunked_loop.simps [of ?buf body] find_crlf_hex option.case d size Let_def
    using assms e by simp
  then show ?thesis by (simp only: w)
qed

lemma decode_terminator: "decode_chunked_loop (ascii ''0'' @ CRLF @ rest) body = Ok body"
proof -
  have z: "ascii ''0'' = hex 0" by (simp add: hex.simps ascii_def hex_digit_def)
  show ?thesis
    unfolding z by (subst decode_chunked_loop.simps) (simp add: find_crlf_hex chunk_size_hex)
qed

lemma decode_chunks:
  "list_all (\<lambda>c. length c \<le> MAX_CHUNK_SIZE) cs
    \<Longrightarrow> decode_chunked_loop (chunks_wire cs @ ascii ''0'' @ CRLF @ rest) body = Ok (body @ concat cs)"
proof (induction cs arbitrary: body)
  case Nil
  then show ?case by (simp add: chunks_wire_concat decode_terminator)
next
  case (Cons c cs)
  show ?case
  proof (cases "c = []")
    case True
    then show ?thesis using Cons by (simp add: chunks_wire_concat chunk_wire_def)
  next
    case False
    then show ?thesis using Cons decode_chunk_step [of c] by (simp add: chunks_wire_concat)
  qed
qed

text \<open>A truncated sequence of chunks: the decoder waits for more, wherever the cut is.\<close>

lemma find_crlf_cut: "n \<le> length (hex k) + 1 \<Longrightarrow> find_crlf (take n (hex k @ CRLF @ ys)) = None"
proof -
  assume n: "n \<le> length (hex k) + 1"
  have "take n (hex k @ CRLF @ ys) = take n (hex k @ [13])"
    using n by (simp add: CRLF_def take_Cons')
  also have "find_window CRLF (take n (hex k @ [13])) = None"
  proof (rule ccontr)
    assume "find_window CRLF (take n (hex k @ [13])) \<noteq> None"
    then obtain i where i: "find_window CRLF (take n (hex k @ [13])) = Some i" by blast
    have "find_window CRLF (hex k @ [13]) = Some i"
      using find_window_append [OF i, of "drop n (hex k @ [13])"] unfolding append_take_drop_id .
    moreover have "find_window CRLF (hex k @ [13]) = None"
      using find_window_skip [of 13 "hex k" "[10]" "[13]"] hex_no_cr [of k] by (simp add: CRLF_def)
    ultimately show False by simp
  qed
  finally show ?thesis by (simp add: find_crlf_def)
qed

lemma decode_chunk_cut:
  assumes "c \<noteq> []" and "length c \<le> MAX_CHUNK_SIZE" and n: "n < length (chunk_wire c)"
  shows "decode_chunked_loop (take n (chunk_wire c)) body = Err Incomplete"
proof -
  have w: "chunk_wire c = hex (length c) @ CRLF @ c @ CRLF" using assms(1) by (simp add: chunk_wire_def)
  show ?thesis
  proof (cases "n \<le> length (hex (length c)) + 1")
    case True
    then show ?thesis
      unfolding w by (subst decode_chunked_loop.simps) (simp only: find_crlf_cut option.case)
  next
    case False
    define k where "k = n - length (hex (length c)) - 2"
    have k: "take n (chunk_wire c) = hex (length c) @ CRLF @ take k (c @ CRLF)"
      using False by (simp add: w k_def CRLF_def) (simp add: take_Cons' numeral_2_eq_2)
    have short: "length (take k (c @ CRLF)) < length c + 2"
      using n False by (simp add: w k_def CRLF_def)
    have "MAX_CHUNK_SIZE < 2 ^ 64" by (simp add: MAX_CHUNK_SIZE_def)
    then have len: "chunk_size (hex (length c)) = Some (length c)"
      using assms(2) by (intro chunk_size_hex) linarith
    have d: "drop (length (hex (length c)) + 2) (hex (length c) @ CRLF @ ys) = ys"
      "take (length (hex (length c))) (hex (length c) @ CRLF @ ys) = hex (length c)" for ys
      by (simp_all add: CRLF_def)
    show ?thesis
      unfolding k decode_chunked_loop.simps [of "hex (length c) @ CRLF @ take k (c @ CRLF)"] find_crlf_hex
        option.case d len Let_def
      using assms short by simp
  qed
qed

lemma decode_chunks_cut:
  "list_all (\<lambda>c. length c \<le> MAX_CHUNK_SIZE) cs \<Longrightarrow> n < length (chunks_wire cs) + 3
    \<Longrightarrow> decode_chunked_loop (take n (chunks_wire cs @ ascii ''0'' @ CRLF)) body = Err Incomplete"
proof (induction cs arbitrary: n body)
  case Nil
  have z: "ascii ''0'' = hex 0" "length (hex 0) = 1" by (simp_all add: hex.simps ascii_def hex_digit_def)
  have "find_crlf (take n (hex 0 @ CRLF @ [])) = None"
    using Nil.prems by (intro find_crlf_cut) (simp add: chunks_wire_def z)
  then show ?case
    by (subst decode_chunked_loop.simps) (simp add: chunks_wire_def z)
next
  case (Cons c cs)
  show ?case
  proof (cases "c = []")
    case True
    then show ?thesis using Cons by (simp add: chunks_wire_concat chunk_wire_def)
  next
    case False
    have c: "length c \<le> MAX_CHUNK_SIZE" using Cons.prems by simp
    show ?thesis
    proof (cases "n < length (chunk_wire c)")
      case True
      then show ?thesis using decode_chunk_cut [OF False c True] by (simp add: chunks_wire_concat)
    next
      case n: False
      have cut: "take n (chunks_wire (c # cs) @ ascii ''0'' @ CRLF)
          = chunk_wire c @ take (n - length (chunk_wire c)) (chunks_wire cs @ ascii ''0'' @ CRLF)"
        using n by (simp add: chunks_wire_concat diff_diff_left)
      show ?thesis
        unfolding cut decode_chunk_step [OF False c]
        using Cons.prems n by (intro Cons.IH) (simp_all add: chunks_wire_concat)
    qed
  qed
qed

text \<open>
  The chunked coding is exact. The body that was written as chunks of any sizes (empty
  writes are skipped, a chunk has at most 16 MB) is decoded to their concatenation, whatever
  trailers or further requests follow the last chunk; every truncation of the encoding before
  the terminating chunk is reported as incomplete, never as a shorter body.
\<close>

theorem chunked_roundtrip:
  assumes "list_all (\<lambda>c. length c \<le> MAX_CHUNK_SIZE) cs"
  shows "decode_chunked (write_final_chunk (foldl (\<lambda>out c. encode_chunk c out) [] cs) @ rest) = Ok (concat cs)
    \<and> (\<forall>n < length (foldl (\<lambda>out c. encode_chunk c out) [] cs) + 3.
         decode_chunked (take n (write_final_chunk (foldl (\<lambda>out c. encode_chunk c out) [] cs))) = Err Incomplete)"
proof (intro conjI allI impI)
  show "decode_chunked (write_final_chunk (foldl (\<lambda>out c. encode_chunk c out) [] cs) @ rest) = Ok (concat cs)"
    using decode_chunks [OF assms, of "CRLF @ rest" "[]"]
    by (simp add: decode_chunked_def write_final_chunk_def chunks_wire_def)
  fix n assume n: "n < length (foldl (\<lambda>out c. encode_chunk c out) [] cs) + 3"
  then have "take n (write_final_chunk (chunks_wire cs)) = take n (chunks_wire cs @ ascii ''0'' @ CRLF)"
    by (simp add: write_final_chunk_def chunks_wire_def CRLF_def)
      (simp add: take_Cons')
  then show "decode_chunked (take n (write_final_chunk (foldl (\<lambda>out c. encode_chunk c out) [] cs))) = Err Incomplete"
    using decode_chunks_cut [OF assms, of n "[]"] n by (simp add: decode_chunked_def chunks_wire_def)
qed

theorem chunked_roundtrip_witness:
  "decode_chunked (write_final_chunk (foldl (\<lambda>out c. encode_chunk c out) [] [ascii ''hello '', [], ascii ''world''])
     @ ascii ''GET'') = Ok (ascii ''hello world'')"
proof -
  have "list_all (\<lambda>c. length c \<le> MAX_CHUNK_SIZE) [ascii ''hello '', [], ascii ''world'']"
    by (simp add: MAX_CHUNK_SIZE_def)
  from chunked_roundtrip [OF this, of "ascii ''GET''"]
  show ?thesis by (simp add: ascii_def)
qed

subsection \<open>Framing of an encoded response\<close>

text \<open>The fields an encoded response carries.\<close>

definition framing_name :: "bytes \<Rightarrow> bool" where
  "framing_name n \<longleftrightarrow> to_ascii_lowercase n = ascii ''content-length'' \<or> to_ascii_lowercase n = ascii ''transfer-encoding''"

definition framing_field :: "body \<Rightarrow> bytes \<times> bytes" where
  "framing_field b =
     (case body_content_length b of
        Some n \<Rightarrow> (ascii ''Content-Length'', decimal n)
      | None \<Rightarrow> (ascii ''Transfer-Encoding'', ascii ''chunked''))"

definition wire_fields :: "response \<Rightarrow> (bytes \<times> bytes) list" where
  "wire_fields resp = filter (\<lambda>f. \<not> framing_name (fst f)) (resp_headers resp) @ [framing_field (resp_body resp)]"

definition status_line :: "nat \<Rightarrow> bytes" where
  "status_line st = ascii ''HTTP/1.1 '' @ decimal st
     @ (if canonical_reason st \<noteq> [] then ascii '' '' @ canonical_reason st else [])"

definition wire_body :: "body \<Rightarrow> bytes" where
  "wire_body b = (case b of Empty \<Rightarrow> [] | Fixed v \<Rightarrow> v
     | Stream chunks closed \<Rightarrow> write_final_chunk (chunks_wire (takeWhile (\<lambda>c. c \<noteq> []) chunks)))"

lemma foldl_write_user_header:
  "foldl write_user_header out hs = out @ print_lines (map print_field (filter (\<lambda>f. \<not> framing_name (fst f)) hs))"
  by (induction hs arbitrary: out)
    (auto simp: write_user_header_def framing_name_def h1_write_header_def print_lines_def print_field_def ascii_def)

lemma write_queued_wire: "write_queued cs out = out @ chunks_wire (takeWhile (\<lambda>c. c \<noteq> []) cs)"
  by (induction cs arbitrary: out)
    (auto simp: chunks_wire_concat write_chunk_def chunk_wire_def)

lemma encode_response_wire:
  "encode_response resp out = out @ print_lines (status_line (resp_status resp) # map print_field (wire_fields resp))
     @ CRLF @ wire_body (resp_body resp)"
  by (cases "resp_body resp")
    (simp_all add: encode_response_def write_status_line_def status_line_def wire_fields_def framing_field_def
      foldl_write_user_header h1_write_header_def print_lines_def print_field_def wire_body_def
      write_queued_wire write_final_chunk_def Let_def, simp_all add: ascii_def)

lemma reasons_no_cr: "list_all (\<lambda>(c, r). CHR 0x0D \<notin> set r) canonical_reasons"
  by code_simp

lemma of_char_13: "(of_char c :: byte) = 13 \<longleftrightarrow> c = CHR 0x0D"
proof
  assume "(of_char c :: byte) = 13"
  then have "unat (of_char c :: byte) = 13" by simp
  moreover have "unat (of_char c :: byte) = of_char c"
    by (cases c) (simp add: of_char_def)
  ultimately have "(of_char c :: nat) = of_char (CHR 0x0D)" by simp
  then show "c = CHR 0x0D" by (rule of_char_eq_iff [THEN iffD1])
qed simp

lemma canonical_reason_no_cr: "13 \<notin> set (canonical_reason st)"
proof (cases "map_of canonical_reasons st")
  case (Some r)
  then have "(st, r) \<in> set canonical_reasons" by (rule map_of_SomeD)
  then have "CHR 0x0D \<notin> set r"
    using reasons_no_cr unfolding list_all_iff by blast
  then have "13 \<notin> set (ascii r)" unfolding ascii_def using of_char_13 by (metis imageE list.set_map)
  then show ?thesis unfolding canonical_reason_def Some option.case .
qed (simp add: canonical_reason_def)

lemma status_line_no_cr: "status_line st \<noteq> [] \<and> 13 \<notin> set (status_line st)"
  using decimal_digits [of 13 st] canonical_reason_no_cr [of st] by (auto simp: status_line_def ascii_def)

lemma framing_field_clean: "field_clean (framing_field b)"
proof -
  have dec: "\<not> contains_forbidden (decimal n) \<and> trim_ows (decimal n) = decimal n" for n
  proof -
    have "\<not> is_ows x" if "x \<in> set (decimal n)" for x
      using decimal_digits [OF that] by (auto simp: is_ows_def)
    then show ?thesis
      using decimal_digits [of 0 n] decimal_digits [of 13 n] decimal_digits [of 10 n]
        trim_ows_parts [of "[]" "[]" "decimal n"]
      by (auto simp: contains_forbidden_def list_ex_iff)
  qed
  have "field_clean (ascii ''Transfer-Encoding'', ascii ''chunked'')" by code_simp
  moreover have "field_clean (ascii ''Content-Length'', ascii ''0'')" by code_simp
  then have "field_clean (ascii ''Content-Length'', decimal n)" for n
    using dec by (simp add: field_clean_def)
  ultimately show ?thesis
    by (auto simp: framing_field_def split: option.split)
qed

lemma wire_fields_clean: "list_all field_clean (resp_headers resp) \<Longrightarrow> list_all field_clean (wire_fields resp)"
  using framing_field_clean by (auto simp: wire_fields_def list_all_iff)

lemma fields_named_filter:
  "list_all (\<lambda>f. \<not> eq_ignore_ascii_case (fst f) (ascii k)) hs \<Longrightarrow> fields_named hs k = []"
  by (auto simp: fields_named_def list_all_iff filter_empty_conv)

lemma fields_named_append2: "fields_named (xs @ ys) k = fields_named xs k @ fields_named ys k"
  by (simp add: fields_named_def)

lemma lowercase_framing:
  "to_ascii_lowercase (ascii ''content-length'') = ascii ''content-length''"
  "to_ascii_lowercase (ascii ''transfer-encoding'') = ascii ''transfer-encoding''"
  by code_simp+

lemma no_user_framing:
  "fields_named (filter (\<lambda>f. \<not> framing_name (fst f)) hs) ''content-length'' = []"
  "fields_named (filter (\<lambda>f. \<not> framing_name (fst f)) hs) ''transfer-encoding'' = []"
  by (rule fields_named_filter, simp add: list_all_iff framing_name_def eq_ignore_ascii_case_def lowercase_framing)+

lemma framing_names:
  "fields_named [(ascii ''Content-Length'', v)] ''content-length'' = [v]"
  "fields_named [(ascii ''Content-Length'', v)] ''transfer-encoding'' = []"
  "fields_named [(ascii ''Transfer-Encoding'', v)] ''content-length'' = []"
  "fields_named [(ascii ''Transfer-Encoding'', v)] ''transfer-encoding'' = [v]"
proof -
  have "eq_ignore_ascii_case (ascii ''Content-Length'') (ascii ''content-length'')"
    "\<not> eq_ignore_ascii_case (ascii ''Content-Length'') (ascii ''transfer-encoding'')"
    "\<not> eq_ignore_ascii_case (ascii ''Transfer-Encoding'') (ascii ''content-length'')"
    "eq_ignore_ascii_case (ascii ''Transfer-Encoding'') (ascii ''transfer-encoding'')"
    by code_simp+
  then show "fields_named [(ascii ''Content-Length'', v)] ''content-length'' = [v]"
    "fields_named [(ascii ''Content-Length'', v)] ''transfer-encoding'' = []"
    "fields_named [(ascii ''Transfer-Encoding'', v)] ''content-length'' = []"
    "fields_named [(ascii ''Transfer-Encoding'', v)] ''transfer-encoding'' = [v]"
    by (simp_all add: fields_named_def)
qed

lemma encode_response_head:
  assumes "list_all field_clean (resp_headers resp)"
  shows "find_header_end (encode_response resp []) = Some (length (encode_response resp []) - length (wire_body (resp_body resp)))"
    and "split_crlf_lines (take (length (encode_response resp []) - length (wire_body (resp_body resp))) (encode_response resp []))
      = status_line (resp_status resp) # map print_field (wire_fields resp) @ [[]]"
proof -
  let ?ls = "status_line (resp_status resp) # map print_field (wire_fields resp)"
  have ls: "list_all (\<lambda>l. l \<noteq> [] \<and> 13 \<notin> set l) ?ls"
    using wire_fields_clean [OF assms] status_line_no_cr field_clean_no_cr
    by (auto simp: list_all_iff print_field_def)
  have out: "encode_response resp [] = print_lines ?ls @ CRLF @ wire_body (resp_body resp)"
    by (simp add: encode_response_wire)
  have len: "2 \<le> length (print_lines ?ls)" by (simp add: print_lines_def CRLF_def)
  show "find_header_end (encode_response resp []) = Some (length (encode_response resp []) - length (wire_body (resp_body resp)))"
    using find_header_end_lines [OF ls, of "wire_body (resp_body resp)"] len
    unfolding out find_header_end_def by (simp add: CRLF_def)
  have "take (length (encode_response resp []) - length (wire_body (resp_body resp))) (encode_response resp []) = print_lines ?ls @ CRLF"
    unfolding out by simp
  moreover have "list_all (\<lambda>l. 13 \<notin> set l) ?ls" using ls by (auto simp: list_all_iff)
  ultimately show "split_crlf_lines (take (length (encode_response resp []) - length (wire_body (resp_body resp))) (encode_response resp []))
      = status_line (resp_status resp) # map print_field (wire_fields resp) @ [[]]"
    using split_crlf_print_lines [of ?ls] by simp
qed



end
