(* ===== verification/Routing.thy ===== *)
theory Routing
  imports Http_Types "HOL-Library.List_Lexorder"
begin

text \<open>
  Routing (\<^verbatim>\<open>moduvex-http/src/routing\<close>): route patterns and the reference matcher
  (\<^verbatim>\<open>path.rs\<close>), the segment trie (\<^verbatim>\<open>radix.rs\<close>) with its binary-searched literal children,
  and the router with its per-method tries (\<^verbatim>\<open>router.rs\<close>). Strings are compared as byte
  sequences, which is the order of the list instance used here. Handlers are values of an
  arbitrary type.

  What is shown: the trie built by any sequence of registrations answers every lookup like a
  search through the registered routes with the documented priorities, lookups never reach an
  \<^verbatim>\<open>unreachable!\<close>, and what they find is a route that the reference matcher accepts.
\<close>

subsection \<open>Patterns\<close>

datatype path_segment = Static bytes | Param bytes | Wildcard bytes

text \<open>\<^verbatim>\<open>str::split('/')\<close>, \<^verbatim>\<open>trim_start_matches('/')\<close>, \<^verbatim>\<open>trim_end_matches('/')\<close> and \<^verbatim>\<open>join("/")\<close>.\<close>

fun split_slash :: "bytes \<Rightarrow> bytes list" where
  "split_slash [] = [[]]"
| "split_slash (b # bs) =
     (if b = 47 then [] # split_slash bs
      else case split_slash bs of x # xs \<Rightarrow> (b # x) # xs | [] \<Rightarrow> [[b]])"

definition trim_start_slash :: "bytes \<Rightarrow> bytes" where
  "trim_start_slash s = dropWhile (\<lambda>b. b = 47) s"

definition trim_end_slash :: "bytes \<Rightarrow> bytes" where
  "trim_end_slash s = rev (dropWhile (\<lambda>b. b = 47) (rev s))"

fun join_slash :: "bytes list \<Rightarrow> bytes" where
  "join_slash [] = []"
| "join_slash [p] = p"
| "join_slash (p # ps) = p @ 47 # join_slash ps"

definition parse_segment :: "bytes \<Rightarrow> path_segment" where
  "parse_segment seg =
     (case seg of
        b # name \<Rightarrow> if b = 58 then Param name else if b = 42 then Wildcard name else Static seg
      | [] \<Rightarrow> Static seg)"

definition parse_pattern :: "bytes \<Rightarrow> path_segment list" where
  "parse_pattern pattern =
     (let stripped = trim_start_slash pattern
      in if stripped = [] then [] else map parse_segment (split_slash stripped))"

definition split_path :: "bytes \<Rightarrow> bytes list" where
  "split_path path = (let p = trim_start_slash path in if p = [] then [] else split_slash p)"

type_synonym params = "(bytes \<times> bytes) list"

text \<open>The loop of \<open>match_path\<close>; \<open>parts\<close> are the parts from the current index on.\<close>

fun match_segments :: "path_segment list \<Rightarrow> bytes list \<Rightarrow> params \<Rightarrow> params option" where
  "match_segments [] parts params = (if parts = [] then Some params else None)"
| "match_segments (Static name # segs) parts params =
     (case parts of
        [] \<Rightarrow> None
      | p # ps \<Rightarrow> if p \<noteq> name then None else match_segments segs ps params)"
| "match_segments (Param name # segs) parts params =
     (case parts of [] \<Rightarrow> None | p # ps \<Rightarrow> match_segments segs ps (params @ [(name, p)]))"
| "match_segments (Wildcard name # segs) parts params = Some (params @ [(name, join_slash parts)])"

definition match_path :: "path_segment list \<Rightarrow> bytes \<Rightarrow> params option" where
  "match_path segs url_path = match_segments segs (split_path url_path) []"

subsection \<open>Binary search\<close>

text \<open>
  \<^verbatim>\<open>slice::binary_search_by_key\<close> of the standard library: halve the window, keeping the middle
  when its key is not greater, and compare the last candidate.
\<close>

datatype search_result = Found nat | Missing nat

function binary_search_loop :: "'k::linorder list \<Rightarrow> 'k \<Rightarrow> nat \<Rightarrow> nat \<Rightarrow> nat" where
  "binary_search_loop keys key base len =
     (if len \<le> 1 then base
      else (let half = len div 2; mid = base + half
            in binary_search_loop keys key (if key < keys ! mid then base else mid) (len - half)))"
  by pat_completeness auto
termination by (relation "measure (\<lambda>(keys, key, base, len). len)") auto

declare binary_search_loop.simps [simp del]

definition binary_search :: "'k::linorder list \<Rightarrow> 'k \<Rightarrow> search_result" where
  "binary_search keys key =
     (if keys = [] then Missing 0
      else (let base = binary_search_loop keys key 0 (length keys)
            in if keys ! base = key then Found base
               else Missing (if keys ! base < key then base + 1 else base)))"

subsection \<open>The trie\<close>

datatype node_segment = NRoot | NLiteral bytes | NParam bytes | NWildcard bytes

datatype 'h node = Node
  (segment: node_segment)
  (handler: "'h option")
  (literal_children: "'h node list")
  (param_child: "'h node option")
  (wildcard_child: "'h node option")

fun literal_str :: "node_segment \<Rightarrow> bytes option" where
  "literal_str (NLiteral s) = Some s"
| "literal_str _ = None"

definition literal_key :: "'h node \<Rightarrow> bytes" where
  "literal_key n = (case literal_str (segment n) of Some s \<Rightarrow> s | None \<Rightarrow> [])"

definition new_root :: "'h node" where
  "new_root = Node NRoot None [] None None"

primrec node_seg :: "path_segment \<Rightarrow> node_segment" where
  "node_seg (Static s) = NLiteral s"
| "node_seg (Param s) = NParam s"
| "node_seg (Wildcard s) = NWildcard s"

definition from_path_segment :: "path_segment \<Rightarrow> 'h node" where
  "from_path_segment seg = Node (node_seg seg) None [] None None"

definition set_handler :: "'h \<Rightarrow> 'h node \<Rightarrow> 'h node" where
  "set_handler h n = Node (segment n) (Some h) (literal_children n) (param_child n) (wildcard_child n)"

text \<open>\<^verbatim>\<open>Vec::insert(idx, x)\<close>.\<close>

definition vec_insert :: "nat \<Rightarrow> 'a \<Rightarrow> 'a list \<Rightarrow> 'a list" where
  "vec_insert i x xs = take i xs @ x # drop i xs"

fun node_insert :: "path_segment list \<Rightarrow> 'h \<Rightarrow> 'h node \<Rightarrow> 'h node" where
  "node_insert [] h n = set_handler h n"
| "node_insert (Static l # rest) h n =
     Node (segment n) (handler n)
       (case binary_search (map literal_key (literal_children n)) l of
          Found idx \<Rightarrow> (literal_children n)[idx := node_insert rest h (literal_children n ! idx)]
        | Missing idx \<Rightarrow> vec_insert idx (node_insert rest h (from_path_segment (Static l))) (literal_children n))
       (param_child n) (wildcard_child n)"
| "node_insert (Param s # rest) h n =
     Node (segment n) (handler n) (literal_children n)
       (Some (case param_child n of
          Some child \<Rightarrow> node_insert rest h child
        | None \<Rightarrow> node_insert rest h (from_path_segment (Param s))))
       (wildcard_child n)"
| "node_insert (Wildcard s # rest) h n =
     Node (segment n) (handler n) (literal_children n) (param_child n)
       (Some (case wildcard_child n of
          Some child \<Rightarrow> set_handler h child
        | None \<Rightarrow> set_handler h (from_path_segment (Wildcard s))))"

text \<open>A lookup returns the handler and the parameter vector; \<^verbatim>\<open>unreachable!\<close> is a panic.\<close>

type_synonym 'h lookup = "('h option \<times> params, unit) outcome"

fun node_lookup :: "bytes list \<Rightarrow> 'h node \<Rightarrow> params \<Rightarrow> 'h lookup" where
  "node_lookup [] n params = Ok (handler n, params)"
| "node_lookup (part # tail) n params =
     bind_outcome
       (case binary_search (map literal_key (literal_children n)) part of
          Found idx \<Rightarrow> node_lookup tail (literal_children n ! idx) params
        | Missing idx \<Rightarrow> Ok (None, params)) (\<lambda>(r1, params).
     if r1 \<noteq> None then Ok (r1, params) else
     bind_outcome
       (case param_child n of
          None \<Rightarrow> Ok (None, params)
        | Some param_node \<Rightarrow>
            (case segment param_node of
               NParam name \<Rightarrow>
                 (let saved_len = length params in
                  bind_outcome (node_lookup tail param_node (params @ [(name, part)])) (\<lambda>(r, params).
                    Ok (r, if r \<noteq> None then params else take saved_len params)))
             | _ \<Rightarrow> Panic)) (\<lambda>(r2, params).
     if r2 \<noteq> None then Ok (r2, params) else
     (case wildcard_child n of
        None \<Rightarrow> Ok (None, params)
      | Some wc_node \<Rightarrow>
          (case segment wc_node of
             NWildcard name \<Rightarrow> Ok (handler wc_node, params @ [(name, part @ concat (map (\<lambda>p. 47 # p) tail))])
           | _ \<Rightarrow> Panic))))"

text \<open>\<open>visit_children\<close> and \<open>collect_routes\<close>: the routes below a node, in visiting order.\<close>

fun segment_path :: "node_segment \<Rightarrow> path_segment option" where
  "segment_path NRoot = None"
| "segment_path (NLiteral s) = Some (Static s)"
| "segment_path (NParam s) = Some (Param s)"
| "segment_path (NWildcard s) = Some (Wildcard s)"

fun collect_routes :: "'h node \<Rightarrow> path_segment list \<Rightarrow> (path_segment list \<times> 'h) list" where
  "collect_routes (Node s h lits p w) current =
     (case h of Some h \<Rightarrow> [(current, h)] | None \<Rightarrow> [])
     @ concat (map (\<lambda>c. case segment_path (segment c) of
         Some (Static l) \<Rightarrow> collect_routes c (current @ [Static l]) | _ \<Rightarrow> []) lits)
     @ (case p of Some c \<Rightarrow>
          (case segment_path (segment c) of Some (Param l) \<Rightarrow> collect_routes c (current @ [Param l]) | _ \<Rightarrow> [])
        | None \<Rightarrow> [])
     @ (case w of Some c \<Rightarrow>
          (case segment_path (segment c) of Some (Wildcard l) \<Rightarrow> collect_routes c (current @ [Wildcard l]) | _ \<Rightarrow> [])
        | None \<Rightarrow> [])"

subsection \<open>The router\<close>

record 'h router =
  trees :: "http_method \<Rightarrow> 'h node option"
  fallback :: "'h option"

definition router_new :: "'h router" where
  "router_new = \<lparr>trees = (\<lambda>m. None), fallback = None\<rparr>"

definition router_entry :: "'h router \<Rightarrow> http_method \<Rightarrow> 'h node" where
  "router_entry r m = (case trees r m of Some t \<Rightarrow> t | None \<Rightarrow> new_root)"

definition router_route :: "'h router \<Rightarrow> http_method \<Rightarrow> bytes \<Rightarrow> 'h \<Rightarrow> 'h router" where
  "router_route r m pattern h =
     r\<lparr>trees := (trees r)(m := Some (node_insert (parse_pattern pattern) h (router_entry r m)))\<rparr>"

definition router_fallback :: "'h router \<Rightarrow> 'h \<Rightarrow> 'h router" where
  "router_fallback r h = r\<lparr>fallback := Some h\<rparr>"

definition lookup_method :: "'h router \<Rightarrow> http_method \<Rightarrow> bytes \<Rightarrow> (('h \<times> params) option, unit) outcome" where
  "lookup_method r m path =
     (case trees r m of
        None \<Rightarrow> Ok None
      | Some tree \<Rightarrow>
          bind_outcome (node_lookup (split_path path) tree []) (\<lambda>(h, params).
            Ok (case h of None \<Rightarrow> None | Some h \<Rightarrow> Some (h, params))))"

definition router_lookup :: "'h router \<Rightarrow> http_method \<Rightarrow> bytes \<Rightarrow> (('h \<times> params) option, unit) outcome" where
  "router_lookup r m path =
     bind_outcome (lookup_method r m path) (\<lambda>res.
       if res \<noteq> None then Ok res
       else if m = HEAD then lookup_method r GET path
       else Ok None)"

definition router_nest :: "'h router \<Rightarrow> bytes \<Rightarrow> 'h router \<Rightarrow> 'h router" where
  "router_nest r prefix other =
     r\<lparr>trees := (\<lambda>m.
       case trees other m of
         None \<Rightarrow> trees r m
       | Some root \<Rightarrow>
           Some (foldl (\<lambda>t (sub_segs, h). node_insert (parse_pattern (trim_end_slash prefix) @ sub_segs) h t)
             (router_entry r m) (collect_routes root [])))\<rparr>"

subsection \<open>Binary search finds the place\<close>

lemma binary_search_loop_spec:
  assumes "sorted_wrt (<) keys" and "1 \<le> len" and "base + len \<le> length keys"
    and "base = 0 \<or> keys ! base \<le> key" and "\<forall>i. base + len \<le> i \<and> i < length keys \<longrightarrow> key < keys ! i"
  shows "binary_search_loop keys key base len < length keys
    \<and> (binary_search_loop keys key base len = 0 \<or> keys ! binary_search_loop keys key base len \<le> key)
    \<and> (\<forall>i. binary_search_loop keys key base len < i \<and> i < length keys \<longrightarrow> key < keys ! i)"
  using assms
proof (induction keys key base len rule: binary_search_loop.induct)
  case (1 keys key base len)
  show ?case
  proof (cases "len \<le> 1")
    case True
    then have "binary_search_loop keys key base len = base" by (subst binary_search_loop.simps) simp
    moreover have "len = 1" using True "1.prems"(2) by simp
    ultimately show ?thesis using "1.prems" by auto
  next
    case False
    let ?half = "len div 2" let ?mid = "base + ?half"
    let ?base = "if key < keys ! ?mid then base else ?mid"
    have mid: "?mid < base + len" "1 \<le> len - ?half" "?base + (len - ?half) \<le> length keys"
      using False "1.prems" by auto
    have up: "key < keys ! i" if "key < keys ! ?mid" "?mid \<le> i" "i < length keys" for i
      using that "1.prems"(1) by (metis le_neq_implies_less less_trans sorted_wrt_nth_less)
    have "base + (len - ?half) \<ge> ?mid" by simp
    then have hi: "\<forall>i. ?base + (len - ?half) \<le> i \<and> i < length keys \<longrightarrow> key < keys ! i"
      using up "1.prems"(5) by (auto split: if_splits)
    have lo: "?base = 0 \<or> keys ! ?base \<le> key" using "1.prems"(4) by auto
    have step: "binary_search_loop keys key base len = binary_search_loop keys key ?base (len - ?half)"
      using False by (subst binary_search_loop.simps) (simp add: Let_def)
    show ?thesis
      unfolding step by (rule "1.IH" [OF False refl refl "1.prems"(1) mid(2,3) lo hi])
  qed
qed

lemma binary_search_spec:
  assumes "sorted_wrt (<) (keys :: 'k::linorder list)"
  shows "case binary_search keys key of
      Found i \<Rightarrow> i < length keys \<and> keys ! i = key
    | Missing i \<Rightarrow> key \<notin> set keys \<and> i \<le> length keys
        \<and> (\<forall>j < i. keys ! j < key) \<and> (\<forall>j. i \<le> j \<and> j < length keys \<longrightarrow> key < keys ! j)"
proof (cases "keys = []")
  case False
  define b where "b = binary_search_loop keys key 0 (length keys)"
  have pre: "1 \<le> length keys" "0 + length keys \<le> length keys" "(0::nat) = 0 \<or> keys ! 0 \<le> key"
      "\<forall>i. 0 + length keys \<le> i \<and> i < length keys \<longrightarrow> key < keys ! i"
    using False by (auto simp: Suc_le_eq)
  note loop = binary_search_loop_spec [OF assms pre, folded b_def]
  then have b: "b < length keys" "b = 0 \<or> keys ! b \<le> key" "\<forall>i. b < i \<and> i < length keys \<longrightarrow> key < keys ! i"
    by blast+
  have below: "keys ! j < keys ! b" if "j < b" for j
    using assms b(1) that by (simp add: sorted_wrt_iff_nth_less)
  consider (eq) "keys ! b = key" | (lt) "keys ! b < key" | (gt) "key < keys ! b" by fastforce
  then show ?thesis
  proof cases
    case eq
    then show ?thesis using False b(1) by (simp add: binary_search_def b_def Let_def)
  next
    case lt
    have lo: "keys ! j < key" if "j < b + 1" for j
      using lt below [of j] that by (cases "j = b") auto
    moreover have hi: "\<forall>j. b + 1 \<le> j \<and> j < length keys \<longrightarrow> key < keys ! j" using b(3) by simp
    moreover have "key \<notin> set keys"
    proof
      assume "key \<in> set keys"
      then obtain j where "j < length keys" "keys ! j = key" by (auto simp: in_set_conv_nth)
      then show False using lo [of j] hi by (metis less_irrefl not_less)
    qed
    moreover have "binary_search keys key = Missing (b + 1)"
      using False lt by (simp add: binary_search_def b_def [symmetric])
    ultimately show ?thesis using b(1) by simp
  next
    case gt
    then have "b = 0" using b(2) by auto
    have "\<forall>j. j < length keys \<longrightarrow> key < keys ! j"
      using gt b(3) \<open>b = 0\<close> by (metis gr0I)
    moreover have "key \<notin> set keys" using calculation by (auto simp: in_set_conv_nth)
    moreover have "binary_search keys key = Missing 0"
      using False gt \<open>b = 0\<close> by (auto simp: binary_search_def b_def [symmetric])
    ultimately show ?thesis by simp
  qed
qed (simp add: binary_search_def)

subsection \<open>Trie invariant\<close>

definition literals_ok :: "'h node list \<Rightarrow> bool" where
  "literals_ok cs \<longleftrightarrow> sorted_wrt (<) (map literal_key cs) \<and> (\<forall>c \<in> set cs. segment c = NLiteral (literal_key c))"

text \<open>The literal child of a name, and the part of the invariant that one level carries.\<close>

definition lit_child :: "'h node \<Rightarrow> bytes \<Rightarrow> 'h node option" where
  "lit_child n p = find (\<lambda>c. literal_key c = p) (literal_children n)"

definition level_ok :: "'h node \<Rightarrow> bool" where
  "level_ok n \<longleftrightarrow> literals_ok (literal_children n)
     \<and> (case param_child n of None \<Rightarrow> True | Some c \<Rightarrow> (\<exists>s. segment c = NParam s))
     \<and> (case wildcard_child n of None \<Rightarrow> True | Some c \<Rightarrow> (\<exists>s. segment c = NWildcard s) \<and> handler c \<noteq> None)"

lemma segment_set_handler [simp]: "segment (set_handler h n) = segment n"
  by (simp add: set_handler_def)

lemma segment_insert [simp]: "segment (node_insert segs h n) = segment n"
  by (cases "(segs, h, n)" rule: node_insert.cases) auto

lemma literal_key_insert [simp]: "literal_key (node_insert segs h n) = literal_key n"
  by (simp add: literal_key_def)

lemma segment_from [simp]: "segment (from_path_segment seg) = node_seg seg"
  by (simp add: from_path_segment_def)

lemma literal_key_from [simp]: "literal_key (from_path_segment (Static l)) = l"
  by (simp add: literal_key_def)

lemma option_eqI: "(\<And>c. x = Some c \<longleftrightarrow> y = Some c) \<Longrightarrow> x = y"
  by (cases x; cases y) auto

lemma find_key_Some:
  "sorted_wrt (<) (map f xs) \<Longrightarrow> find (\<lambda>x. f x = k) xs = Some x \<longleftrightarrow> x \<in> set xs \<and> f x = k"
  for f :: "'a \<Rightarrow> 'k::linorder"
  by (induction xs) auto

lemma lit_child_Some:
  "literals_ok (literal_children n) \<Longrightarrow> lit_child n p = Some c \<longleftrightarrow> c \<in> set (literal_children n) \<and> literal_key c = p"
  by (simp add: lit_child_def literals_ok_def find_key_Some)

lemma binary_search_child:
  assumes "literals_ok (literal_children n)"
  shows "case binary_search (map literal_key (literal_children n)) p of
      Found i \<Rightarrow> i < length (literal_children n) \<and> literal_key (literal_children n ! i) = p
        \<and> lit_child n p = Some (literal_children n ! i)
    | Missing i \<Rightarrow> lit_child n p = None \<and> i \<le> length (literal_children n)
        \<and> (\<forall>j < i. literal_key (literal_children n ! j) < p)
        \<and> (\<forall>j. i \<le> j \<and> j < length (literal_children n) \<longrightarrow> p < literal_key (literal_children n ! j))"
proof -
  let ?cs = "literal_children n"
  have sorted: "sorted_wrt (<) (map literal_key ?cs)" using assms by (simp add: literals_ok_def)
  show ?thesis
  proof (cases "binary_search (map literal_key ?cs) p")
    case (Found i)
    then have "i < length ?cs" "literal_key (?cs ! i) = p"
      using binary_search_spec [OF sorted, of p] by auto
    then show ?thesis
      using Found lit_child_Some [OF assms] by simp
  next
    case (Missing i)
    then show ?thesis
      using binary_search_spec [OF sorted, of p]
      by (auto simp: lit_child_def find_None_iff)
  qed
qed

lemma sorted_wrt_vec_insert:
  assumes "sorted_wrt (<) (map f xs)" and "i \<le> length xs" and "\<forall>j < i. f (xs ! j) < f x"
    and "\<forall>j. i \<le> j \<and> j < length xs \<longrightarrow> f x < f (xs ! j)"
  shows "sorted_wrt (<) (map f (vec_insert i x xs))"
proof -
  have "\<forall>y \<in> set (take i xs). f y < f x" using assms(2,3) by (auto simp: in_set_conv_nth)
  moreover have "\<forall>y \<in> set (drop i xs). f x < f y"
  proof
    fix y assume "y \<in> set (drop i xs)"
    then obtain k where "k < length xs - i" "y = xs ! (i + k)" using assms(2) by (auto simp: in_set_conv_nth)
    then show "f x < f y" using assms(4) by simp
  qed
  moreover have "sorted_wrt (<) (map f (take i xs @ drop i xs))" using assms(1) by simp
  ultimately show ?thesis
    unfolding vec_insert_def by (auto simp: sorted_wrt_append simp flip: append_take_drop_id)
qed

lemma set_vec_insert [simp]: "set (vec_insert i x xs) = insert x (set xs)"
  using set_append [of "take i xs" "drop i xs"] by (auto simp: vec_insert_def)

text \<open>The child an insertion under a literal works on.\<close>

definition lit_or_new :: "'h node \<Rightarrow> bytes \<Rightarrow> 'h node" where
  "lit_or_new n l = (case lit_child n l of Some c \<Rightarrow> c | None \<Rightarrow> from_path_segment (Static l))"

lemma insert_static_children:
  assumes ok: "literals_ok (literal_children n)"
  shows "literals_ok (literal_children (node_insert (Static l # rest) h n))
    \<and> set (literal_children (node_insert (Static l # rest) h n))
      = insert (node_insert rest h (lit_or_new n l)) {c \<in> set (literal_children n). literal_key c \<noteq> l}"
proof (cases "binary_search (map literal_key (literal_children n)) l")
  case (Found i)
  let ?cs = "literal_children n" and ?new = "node_insert rest h (literal_children n ! i)"
  have i: "i < length ?cs" "literal_key (?cs ! i) = l" "lit_child n l = Some (?cs ! i)"
    using binary_search_child [OF ok, of l] Found by auto
  have keys: "map literal_key (?cs[i := ?new]) = map literal_key ?cs"
    using i by (simp add: map_update list_update_same_conv)
  have sorted: "sorted_wrt (<) (map literal_key ?cs)" using ok by (simp add: literals_ok_def)
  then have "distinct (map literal_key ?cs)" by (simp add: strict_sorted_iff)
  then have "distinct ?cs" by (simp add: distinct_map)
  then have "set (?cs[i := ?new]) = insert ?new (set ?cs - {?cs ! i})"
    using i(1) by (simp add: set_update_distinct)
  moreover have "c = ?cs ! i" if "c \<in> set ?cs" "literal_key c = l" for c
    using lit_child_Some [OF ok, of l c] i(3) that by simp
  then have "set ?cs - {?cs ! i} = {c \<in> set ?cs. literal_key c \<noteq> l}" using i(2) by auto
  ultimately have s: "set (?cs[i := ?new]) = insert ?new {c \<in> set ?cs. literal_key c \<noteq> l}" by simp
  have "literals_ok (?cs[i := ?new])"
    using ok i unfolding literals_ok_def keys s by auto
  then show ?thesis using Found i s by (simp add: lit_or_new_def)
next
  case (Missing i)
  let ?cs = "literal_children n" and ?new = "node_insert rest h (from_path_segment (Static l))"
  have i: "lit_child n l = None" "i \<le> length ?cs" "\<forall>j < i. literal_key (?cs ! j) < l"
      "\<forall>j. i \<le> j \<and> j < length ?cs \<longrightarrow> l < literal_key (?cs ! j)"
    using binary_search_child [OF ok, of l] Missing by auto
  have "sorted_wrt (<) (map literal_key (vec_insert i ?new ?cs))"
    using ok i by (intro sorted_wrt_vec_insert) (auto simp: literals_ok_def)
  moreover have "{c \<in> set ?cs. literal_key c \<noteq> l} = set ?cs"
    using i(1) by (auto simp: lit_child_def find_None_iff)
  ultimately show ?thesis
    using ok i(1) Missing by (auto simp: literals_ok_def lit_or_new_def)
qed

lemma lit_child_insert_static:
  assumes "literals_ok (literal_children n)"
  shows "lit_child (node_insert (Static l # rest) h n) p
    = (if p = l then Some (node_insert rest h (lit_or_new n l)) else lit_child n p)"
proof (rule option_eqI)
  fix c
  have ok: "literals_ok (literal_children (node_insert (Static l # rest) h n))"
    and s: "set (literal_children (node_insert (Static l # rest) h n))
      = insert (node_insert rest h (lit_or_new n l)) {c \<in> set (literal_children n). literal_key c \<noteq> l}"
    using insert_static_children [OF assms] by auto
  have key: "literal_key (node_insert rest h (lit_or_new n l)) = l"
    using lit_child_Some [OF assms, of l] by (auto simp: lit_or_new_def split: option.split)
  show "lit_child (node_insert (Static l # rest) h n) p = Some c
      \<longleftrightarrow> (if p = l then Some (node_insert rest h (lit_or_new n l)) else lit_child n p) = Some c"
    unfolding lit_child_Some [OF ok] s
  proof (cases "p = l")
    case True
    then show "(c \<in> insert (node_insert rest h (lit_or_new n l)) {c \<in> set (literal_children n). literal_key c \<noteq> l}
        \<and> literal_key c = p)
      \<longleftrightarrow> (if p = l then Some (node_insert rest h (lit_or_new n l)) else lit_child n p) = Some c"
      using key by (auto simp del: literal_key_insert)
  next
    case False
    then show "(c \<in> insert (node_insert rest h (lit_or_new n l)) {c \<in> set (literal_children n). literal_key c \<noteq> l}
        \<and> literal_key c = p)
      \<longleftrightarrow> (if p = l then Some (node_insert rest h (lit_or_new n l)) else lit_child n p) = Some c"
      using key lit_child_Some [OF assms, of p] by (auto simp del: literal_key_insert)
  qed
qed

lemma level_ok_insert: "level_ok n \<Longrightarrow> level_ok (node_insert segs h n)"
  using insert_static_children [of n]
  by (cases "(segs, h, n)" rule: node_insert.cases)
    (auto simp: level_ok_def set_handler_def from_path_segment_def split: option.splits simp del: node_insert.simps(2),
     auto)

lemma level_ok_empty [simp]: "level_ok new_root" "level_ok (from_path_segment seg)"
  by (simp_all add: level_ok_def literals_ok_def new_root_def from_path_segment_def)

subsection \<open>The routes a trie stands for\<close>

text \<open>
  A route table in order of registration, and what is left of it behind one segment: the routes
  that go on with a given literal, the ones that go on with a parameter, the handlers that end in
  a wildcard.
\<close>

type_synonym 'h routes = "(path_segment list \<times> 'h) list"

definition grow :: "'h routes \<Rightarrow> 'h node \<Rightarrow> 'h node" where
  "grow rs n = foldl (\<lambda>t (segs, h). node_insert segs h t) n rs"

fun after_static :: "bytes \<Rightarrow> 'h routes \<Rightarrow> 'h routes" where
  "after_static p [] = []"
| "after_static p ((Static q # segs, h) # rs) = (if q = p then (segs, h) # after_static p rs else after_static p rs)"
| "after_static p (r # rs) = after_static p rs"

fun after_param :: "'h routes \<Rightarrow> (bytes \<times> path_segment list \<times> 'h) list" where
  "after_param [] = []"
| "after_param ((Param s # segs, h) # rs) = (s, segs, h) # after_param rs"
| "after_param (r # rs) = after_param rs"

fun after_wildcard :: "'h routes \<Rightarrow> (bytes \<times> 'h) list" where
  "after_wildcard [] = []"
| "after_wildcard ((Wildcard s # segs, h) # rs) = (s, h) # after_wildcard rs"
| "after_wildcard (r # rs) = after_wildcard rs"

fun ending :: "'h routes \<Rightarrow> 'h list" where
  "ending [] = []"
| "ending (([], h) # rs) = h # ending rs"
| "ending (r # rs) = ending rs"

definition last_opt :: "'a list \<Rightarrow> 'a option" where
  "last_opt xs = (if xs = [] then None else Some (last xs))"

text \<open>
  The specification of a lookup: literals first, then parameters, then wildcards, with
  backtracking; the last registration of a route counts, and a parameter carries the name under
  which its position was first registered.
\<close>

fun route_lookup :: "bytes list \<Rightarrow> 'h routes \<Rightarrow> ('h \<times> params) option" where
  "route_lookup [] rs = map_option (\<lambda>h. (h, [])) (last_opt (ending rs))"
| "route_lookup (p # ps) rs =
     (case route_lookup ps (after_static p rs) of
        Some r \<Rightarrow> Some r
      | None \<Rightarrow>
          (case route_lookup ps (map snd (after_param rs)) of
             Some (h, vs) \<Rightarrow> Some (h, (fst (hd (after_param rs)), p) # vs)
           | None \<Rightarrow>
               (case after_wildcard rs of
                  [] \<Rightarrow> None
                | ws \<Rightarrow> Some (snd (last ws), [(fst (hd ws), join_slash (p # ps))]))))"

lemma after_append:
  "after_static p (rs @ [r]) = after_static p rs @ after_static p [r]"
  "after_param (rs @ [r]) = after_param rs @ after_param [r]"
  "after_wildcard (rs @ [r]) = after_wildcard rs @ after_wildcard [r]"
  "ending (rs @ [r]) = ending rs @ ending [r]"
proof -
  show "after_static p (rs @ [r]) = after_static p rs @ after_static p [r]"
    by (induction p rs rule: after_static.induct) auto
  show "after_param (rs @ [r]) = after_param rs @ after_param [r]"
    by (induction rs rule: after_param.induct) auto
  show "after_wildcard (rs @ [r]) = after_wildcard rs @ after_wildcard [r]"
    by (induction rs rule: after_wildcard.induct) auto
  show "ending (rs @ [r]) = ending rs @ ending [r]"
    by (induction rs rule: ending.induct) auto
qed

lemma grow_snoc: "grow (rs @ [(segs, h)]) n = node_insert segs h (grow rs n)"
  by (simp add: grow_def)

lemma grow_Nil [simp]: "grow [] n = n"
  by (simp add: grow_def)

lemma segment_grow [simp]: "segment (grow rs n) = segment n"
  by (induction rs rule: rev_induct) (auto simp: grow_snoc)

definition leaf :: "node_segment \<Rightarrow> 'h node" where
  "leaf s = Node s None [] None None"

lemma leaf_simps [simp]:
  "segment (leaf s) = s" "handler (leaf s) = None" "lit_child (leaf s) p = None"
  "param_child (leaf s) = None" "wildcard_child (leaf s) = None" "level_ok (leaf s)"
  "from_path_segment seg = leaf (node_seg seg)" "new_root = leaf NRoot"
  by (simp_all add: leaf_def lit_child_def level_ok_def literals_ok_def from_path_segment_def new_root_def)

lemma level_ok_grow: "level_ok n \<Longrightarrow> level_ok (grow rs n)"
  by (induction rs rule: rev_induct) (auto simp: grow_snoc level_ok_insert)

lemma literals_ok_grow: "literals_ok (literal_children (grow rs (leaf s)))"
  using level_ok_grow [OF leaf_simps(6), of rs s] unfolding level_ok_def by blast

lemma grow_handler: "handler (grow rs (leaf s)) = last_opt (ending rs)"
proof (induction rs rule: rev_induct)
  case (snoc r rs)
  obtain segs h where r: "r = (segs, h)" by (cases r)
  show ?case
    unfolding r grow_snoc after_append using snoc
    by (cases "(segs, h, grow rs (leaf s))" rule: node_insert.cases) (auto simp: set_handler_def last_opt_def)
qed (simp add: last_opt_def)

lemma grow_static:
  "lit_child (grow rs (leaf s)) p
    = (if after_static p rs = [] then None else Some (grow (after_static p rs) (leaf (NLiteral p))))"
proof (induction rs rule: rev_induct)
  case (snoc r rs)
  obtain segs h where r: "r = (segs, h)" by (cases r)
  have ok: "literals_ok (literal_children (grow rs (leaf s)))"
    using literals_ok_grow .
  show ?case
  proof (cases "(segs, h, grow rs (leaf s))" rule: node_insert.cases)
    case (2 l rest)
    then show ?thesis
      using snoc lit_child_insert_static [OF ok, of l rest h p] unfolding r grow_snoc after_append
      by (auto simp: lit_or_new_def grow_snoc simp del: node_insert.simps(2))
  qed (use snoc in \<open>auto simp: r grow_snoc after_append lit_child_def set_handler_def\<close>)
qed simp

lemma grow_param:
  "param_child (grow rs (leaf s))
    = (if after_param rs = [] then None
       else Some (grow (map snd (after_param rs)) (leaf (NParam (fst (hd (after_param rs)))))))"
proof (induction rs rule: rev_induct)
  case (snoc r rs)
  obtain segs h where r: "r = (segs, h)" by (cases r)
  show ?case
    unfolding r grow_snoc after_append using snoc
    by (cases "(segs, h, grow rs (leaf s))" rule: node_insert.cases) (auto simp: set_handler_def grow_snoc)
qed simp

lemma grow_wildcard:
  "wildcard_child (grow rs (leaf s))
    = (if after_wildcard rs = [] then None
       else Some (Node (NWildcard (fst (hd (after_wildcard rs)))) (Some (snd (last (after_wildcard rs)))) [] None None))"
proof (induction rs rule: rev_induct)
  case (snoc r rs)
  obtain segs h where r: "r = (segs, h)" by (cases r)
  show ?case
    unfolding r grow_snoc after_append using snoc
    by (cases "(segs, h, grow rs (leaf s))" rule: node_insert.cases) (auto simp: set_handler_def leaf_def)
qed simp

lemma join_slash_push: "p @ concat (map (\<lambda>q. 47 # q) ps) = join_slash (p # ps)"
proof (induction ps arbitrary: p)
  case (Cons a ps)
  show ?case using Cons.IH [of a] by simp
qed simp

lemma route_lookup_Nil [simp]: "route_lookup ps [] = None"
  by (induction ps) (auto simp: last_opt_def)

text \<open>The trie lookup computes the specification and leaves the parameters alone when it fails.\<close>

lemma node_lookup_grow:
  "node_lookup ps (grow rs (leaf s)) params =
    Ok (case route_lookup ps rs of Some (h, vs) \<Rightarrow> (Some h, params @ vs) | None \<Rightarrow> (None, params))"
proof (induction ps arbitrary: rs s params)
  case Nil
  show ?case by (simp add: grow_handler split: option.split)
next
  case (Cons p ps)
  let ?t = "grow rs (leaf s)"
  have ok: "literals_ok (literal_children ?t)"
    using literals_ok_grow .
  have lit: "(case binary_search (map literal_key (literal_children ?t)) p of
      Found idx \<Rightarrow> node_lookup ps (literal_children ?t ! idx) params | Missing idx \<Rightarrow> Ok (None, params))
    = Ok (case route_lookup ps (after_static p rs) of Some (h, vs) \<Rightarrow> (Some h, params @ vs) | None \<Rightarrow> (None, params))"
  proof (cases "binary_search (map literal_key (literal_children ?t)) p")
    case (Found i)
    then have "lit_child ?t p = Some (literal_children ?t ! i)"
      using binary_search_child [OF ok, of p] by simp
    then have "literal_children ?t ! i = grow (after_static p rs) (leaf (NLiteral p))"
      unfolding grow_static by (simp split: if_splits)
    then show ?thesis using Found Cons.IH by simp
  next
    case (Missing i)
    then have "lit_child ?t p = None"
      using binary_search_child [OF ok, of p] by simp
    then have "after_static p rs = []" unfolding grow_static by (simp split: if_splits)
    then show ?thesis using Missing by simp
  qed
  show ?case
  proof (cases "route_lookup ps (after_static p rs)")
    case (Some r)
    then show ?thesis using lit by (cases r) simp
  next
    case None
    then show ?thesis
      using lit Cons.IH [of "map snd (after_param rs)"]
      by (simp add: grow_param grow_wildcard join_slash_push split: option.split list.split)
  qed
qed

subsection \<open>What the specification finds\<close>

lemma after_static_mem: "(segs, h) \<in> set (after_static p rs) \<longleftrightarrow> (Static p # segs, h) \<in> set rs"
  by (induction p rs rule: after_static.induct) auto

lemma after_param_mem: "(s, segs, h) \<in> set (after_param rs) \<longleftrightarrow> (Param s # segs, h) \<in> set rs"
  by (induction rs rule: after_param.induct) auto

lemma after_wildcard_mem: "(s, h) \<in> set (after_wildcard rs) \<longleftrightarrow> (\<exists>segs. (Wildcard s # segs, h) \<in> set rs)"
  by (induction rs rule: after_wildcard.induct) auto

lemma ending_mem: "h \<in> set (ending rs) \<longleftrightarrow> ([], h) \<in> set rs"
  by (induction rs rule: ending.induct) auto

lemma last_opt_mem: "last_opt xs = Some x \<Longrightarrow> x \<in> set xs"
  by (auto simp: last_opt_def split: if_splits)

lemma match_segments_acc:
  "match_segments segs ps acc = map_option ((@) acc) (match_segments segs ps [])"
proof (induction segs arbitrary: ps acc)
  case (Cons seg segs)
  show ?case
  proof (cases seg)
    case (Static name)
    show ?thesis unfolding Static match_segments.simps
      using Cons.IH [of _ acc] by (cases ps) auto
  next
    case (Param name)
    show ?thesis unfolding Param match_segments.simps
      using Cons.IH [of _ "acc @ [(name, hd ps)]"] Cons.IH [of _ "[(name, hd ps)]"]
      by (cases ps) (auto simp: option.map_comp comp_def)
  qed simp
qed simp

lemma route_lookup_sound:
  "route_lookup ps rs = Some (h, vs) \<Longrightarrow>
    \<exists>segs vs'. (segs, h) \<in> set rs \<and> match_segments segs ps [] = Some vs' \<and> map snd vs' = map snd vs"
proof (induction ps arbitrary: rs vs)
  case Nil
  then have "([], h) \<in> set rs" "vs = []" using last_opt_mem by (fastforce simp: ending_mem)+
  then show ?case by (intro exI [of _ "[]"]) auto
next
  case (Cons p ps)
  show ?case
  proof (cases "route_lookup ps (after_static p rs)")
    case (Some r)
    then have "route_lookup ps (after_static p rs) = Some (h, vs)" using Cons.prems by simp
    from Cons.IH [OF this] obtain segs vs' where
      "(Static p # segs, h) \<in> set rs" "match_segments segs ps [] = Some vs'" "map snd vs' = map snd vs"
      by (auto simp: after_static_mem)
    then show ?thesis by (intro exI [of _ "Static p # segs"]) auto
  next
    case None
    show ?thesis
    proof (cases "route_lookup ps (map snd (after_param rs))")
      case (Some r)
      obtain w where r: "r = (h, w)" and vs: "vs = (fst (hd (after_param rs)), p) # w"
        using Cons.prems None Some by (cases r) auto
      from Cons.IH [of "map snd (after_param rs)" w] Some r obtain s segs vs' where
        "(Param s # segs, h) \<in> set rs" "match_segments segs ps [] = Some vs'" "map snd vs' = map snd w"
        by (auto simp: after_param_mem)
      then show ?thesis
        using vs match_segments_acc [of segs ps "[(s, p)]"]
        by (intro exI [of _ "Param s # segs"] exI [of _ "(s, p) # vs'"]) auto
    next
      case none: None
      then obtain w ws where w: "after_wildcard rs = w # ws" "h = snd (last (w # ws))"
          "vs = [(fst w, join_slash (p # ps))]"
        using Cons.prems None by (cases "after_wildcard rs") auto
      then have "last (w # ws) \<in> set (after_wildcard rs)" by (metis last_in_set list.distinct(1))
      then obtain segs where "(Wildcard (fst (last (w # ws))) # segs, h) \<in> set rs"
        using after_wildcard_mem [of "fst (last (w # ws))" h rs] w(2) by (metis prod.collapse)
      then show ?thesis
        using w(3) by (intro exI [of _ "Wildcard (fst (last (w # ws))) # segs"]) auto
    qed
  qed
qed

text \<open>A wildcard with nothing left to capture, which the trie does not match.\<close>

definition empty_wildcard :: "path_segment list \<Rightarrow> nat \<Rightarrow> bool" where
  "empty_wildcard segs n \<longleftrightarrow> n < length segs \<and> (\<exists>name. segs ! n = Wildcard name)"

lemma route_lookup_complete:
  "(segs, h) \<in> set rs \<Longrightarrow> match_segments segs ps [] \<noteq> None \<Longrightarrow> \<not> empty_wildcard segs (length ps)
    \<Longrightarrow> route_lookup ps rs \<noteq> None"
proof (induction ps arbitrary: segs rs)
  case Nil
  then have "segs = []"
    by (cases segs rule: list.exhaust [case_product path_segment.exhaust]; cases "hd segs")
      (auto simp: empty_wildcard_def)
  then have "ending rs \<noteq> []" using Nil.prems(1) ending_mem [of h rs] by auto
  then show ?case by (simp add: last_opt_def)
next
  case (Cons p ps)
  obtain seg rest where segs: "segs = seg # rest" using Cons.prems(2) by (cases segs) auto
  have tail: "\<not> empty_wildcard rest (length ps)" using Cons.prems(3) by (simp add: segs empty_wildcard_def)
  show ?case
  proof (cases seg)
    case (Static name)
    then have "(rest, h) \<in> set (after_static p rs)" "match_segments rest ps [] \<noteq> None"
      using Cons.prems segs by (auto simp: after_static_mem split: if_splits)
    from Cons.IH [OF this tail] show ?thesis by auto
  next
    case (Param name)
    have "(rest, h) \<in> set (map snd (after_param rs))"
      using Cons.prems segs Param after_param_mem [of name rest h rs] by force
    moreover have "match_segments rest ps [] \<noteq> None"
      using Cons.prems(2) segs Param match_segments_acc [of rest ps "[(name, p)]"] by auto
    ultimately have "route_lookup ps (map snd (after_param rs)) \<noteq> None" using Cons.IH [OF _ _ tail] by blast
    then show ?thesis by (auto split: option.split)
  next
    case (Wildcard name)
    then have "after_wildcard rs \<noteq> []"
      using Cons.prems(1) segs after_wildcard_mem [of name h rs] by auto
    then show ?thesis by (auto split: option.split list.split)
  qed
qed

subsection \<open>Collecting the routes of a trie\<close>

definition prefixed :: "path_segment list \<Rightarrow> 'h routes \<Rightarrow> 'h routes" where
  "prefixed pre rs = map (\<lambda>(segs, h). (pre @ segs, h)) rs"

lemma prefixed_append [simp]: "prefixed pre (xs @ ys) = prefixed pre xs @ prefixed pre ys"
  by (simp add: prefixed_def)

lemma prefixed_prefixed [simp]: "prefixed pre (prefixed p rs) = prefixed (pre @ p) rs"
  by (auto simp: prefixed_def)

lemma prefixed_Nil [simp]: "prefixed pre [] = []" "prefixed [] rs = rs"
  by (auto simp: prefixed_def)

lemma prefixed_concat: "prefixed pre (concat (map f xs)) = concat (map (\<lambda>x. prefixed pre (f x)) xs)"
  by (induction xs) auto

text \<open>The routes below a child, with the child's segment in front.\<close>

definition child_routes :: "'h node \<Rightarrow> 'h routes" where
  "child_routes c = (case segment_path (segment c) of Some sg \<Rightarrow> prefixed [sg] (collect_routes c []) | None \<Rightarrow> [])"

definition kinds_ok :: "'h node \<Rightarrow> bool" where
  "kinds_ok n \<longleftrightarrow> (\<forall>c \<in> set (literal_children n). \<exists>l. segment c = NLiteral l)
     \<and> (\<forall>c. param_child n = Some c \<longrightarrow> (\<exists>l. segment c = NParam l))
     \<and> (\<forall>c. wildcard_child n = Some c \<longrightarrow> (\<exists>l. segment c = NWildcard l))"

lemma collect_routes_prefixed: "collect_routes n cur = prefixed cur (collect_routes n [])"
proof (induction n arbitrary: cur)
  case (Node s h lits p w)
  let ?f = "\<lambda>cur c. case segment_path (segment c) of Some (Static l) \<Rightarrow> collect_routes c (cur @ [Static l]) | _ \<Rightarrow> []"
  let ?g = "\<lambda>cur c. case segment_path (segment c) of Some (Param l) \<Rightarrow> collect_routes c (cur @ [Param l]) | _ \<Rightarrow> []"
  let ?k = "\<lambda>cur c. case segment_path (segment c) of Some (Wildcard l) \<Rightarrow> collect_routes c (cur @ [Wildcard l]) | _ \<Rightarrow> []"
  have lit: "?f cur c = prefixed cur (?f [] c)" if "c \<in> set lits" for c
    using Node(1) [OF that, of "cur @ [l]" for l] Node(1) [OF that, of "[l]" for l]
    by (simp split: option.split path_segment.split)
  have par: "?g cur c = prefixed cur (?g [] c)" if "p = Some c" for c
    using Node(2) [of c "cur @ [l]" for l] Node(2) [of c "[l]" for l] that
    by (simp split: option.split path_segment.split)
  have wil: "?k cur c = prefixed cur (?k [] c)" if "w = Some c" for c
    using Node(3) [of c "cur @ [l]" for l] Node(3) [of c "[l]" for l] that
    by (simp split: option.split path_segment.split)
  have lits: "map (?f cur) lits = map (\<lambda>c. prefixed cur (?f [] c)) lits"
    using lit by (intro map_cong) auto
  have h: "(case h of None \<Rightarrow> [] | Some h \<Rightarrow> [(cur, h)]) = prefixed cur (case h of None \<Rightarrow> [] | Some h \<Rightarrow> [([], h)])"
    by (simp add: prefixed_def split: option.split)
  have par': "(case p of None \<Rightarrow> [] | Some c \<Rightarrow> ?g cur c) = prefixed cur (case p of None \<Rightarrow> [] | Some c \<Rightarrow> ?g [] c)"
    using par by (cases p) simp_all
  have wil': "(case w of None \<Rightarrow> [] | Some c \<Rightarrow> ?k cur c) = prefixed cur (case w of None \<Rightarrow> [] | Some c \<Rightarrow> ?k [] c)"
    using wil by (cases w) simp_all
  show ?case
    unfolding collect_routes.simps prefixed_append prefixed_concat lits h par' wil' ..
qed

lemma collect_routes_kinds:
  assumes "kinds_ok n"
  shows "collect_routes n [] = (case handler n of Some h \<Rightarrow> [([], h)] | None \<Rightarrow> [])
     @ concat (map child_routes (literal_children n))
     @ (case param_child n of Some c \<Rightarrow> child_routes c | None \<Rightarrow> [])
     @ (case wildcard_child n of Some c \<Rightarrow> child_routes c | None \<Rightarrow> [])"
proof -
  have base: "collect_routes c [sg] = child_routes c" if "segment_path (segment c) = Some sg" for c sg
    using that collect_routes_prefixed [of c "[sg]"] by (simp add: child_routes_def)
  have f: "(case segment_path (segment c) of Some (Static l) \<Rightarrow> collect_routes c ([] @ [Static l]) | _ \<Rightarrow> []) = child_routes c"
    if "segment c = NLiteral l" for c l using that by (simp add: base)
  have g: "(case segment_path (segment c) of Some (Param l) \<Rightarrow> collect_routes c ([] @ [Param l]) | _ \<Rightarrow> []) = child_routes c"
    if "segment c = NParam l" for c l using that by (simp add: base)
  have k: "(case segment_path (segment c) of Some (Wildcard l) \<Rightarrow> collect_routes c ([] @ [Wildcard l]) | _ \<Rightarrow> []) = child_routes c"
    if "segment c = NWildcard l" for c l using that by (simp add: base)
  obtain s h lits p w where n: "n = Node s h lits p w" by (cases n)
  have "map (\<lambda>c. case segment_path (segment c) of Some (Static l) \<Rightarrow> collect_routes c ([] @ [Static l]) | _ \<Rightarrow> []) lits
      = map child_routes lits"
  proof (intro map_cong refl)
    fix c assume "c \<in> set lits"
    then obtain l where "segment c = NLiteral l" using assms by (auto simp: n kinds_ok_def)
    then show "(case segment_path (segment c) of Some (Static l) \<Rightarrow> collect_routes c ([] @ [Static l]) | _ \<Rightarrow> []) = child_routes c"
      by (rule f)
  qed
  moreover have "(case p of None \<Rightarrow> [] | Some c \<Rightarrow>
        (case segment_path (segment c) of Some (Param l) \<Rightarrow> collect_routes c ([] @ [Param l]) | _ \<Rightarrow> []))
      = (case p of None \<Rightarrow> [] | Some c \<Rightarrow> child_routes c)"
  proof (cases p)
    case (Some c)
    then obtain l where "segment c = NParam l" using assms by (auto simp: n kinds_ok_def)
    then show ?thesis using g [of c l] Some by simp
  qed simp
  moreover have "(case w of None \<Rightarrow> [] | Some c \<Rightarrow>
        (case segment_path (segment c) of Some (Wildcard l) \<Rightarrow> collect_routes c ([] @ [Wildcard l]) | _ \<Rightarrow> []))
      = (case w of None \<Rightarrow> [] | Some c \<Rightarrow> child_routes c)"
  proof (cases w)
    case (Some c)
    then obtain l where "segment c = NWildcard l" using assms by (auto simp: n kinds_ok_def)
    then show ?thesis using k [of c l] Some by simp
  qed simp
  ultimately show ?thesis by (simp only: n collect_routes.simps node.sel)
qed

lemma after_append2:
  "after_static p (xs @ ys) = after_static p xs @ after_static p ys"
  "after_param (xs @ ys) = after_param xs @ after_param ys"
  "after_wildcard (xs @ ys) = after_wildcard xs @ after_wildcard ys"
  "ending (xs @ ys) = ending xs @ ending ys"
proof -
  show "after_static p (xs @ ys) = after_static p xs @ after_static p ys"
    by (induction p xs rule: after_static.induct) auto
  show "after_param (xs @ ys) = after_param xs @ after_param ys"
    by (induction xs rule: after_param.induct) auto
  show "after_wildcard (xs @ ys) = after_wildcard xs @ after_wildcard ys"
    by (induction xs rule: after_wildcard.induct) auto
  show "ending (xs @ ys) = ending xs @ ending ys"
    by (induction xs rule: ending.induct) auto
qed

lemma after_prefixed:
  "after_static p (prefixed (Static q # pre) rs) = (if q = p then prefixed pre rs else [])"
  "after_param (prefixed (Static q # pre) rs) = []"
  "after_wildcard (prefixed (Static q # pre) rs) = []"
  "ending (prefixed (sg # pre) rs) = []"
  "after_static p (prefixed (Param q # pre) rs) = []"
  "after_param (prefixed (Param q # pre) rs) = map (Pair q) (prefixed pre rs)"
  "after_wildcard (prefixed (Param q # pre) rs) = []"
  "after_static p (prefixed (Wildcard q # pre) rs) = []"
  "after_param (prefixed (Wildcard q # pre) rs) = []"
  "after_wildcard (prefixed (Wildcard q # pre) rs) = map (\<lambda>(segs, h). (q, h)) rs"
  by (induction rs) (auto simp: prefixed_def)

lemma kinds_grow: "kinds_ok (grow rs (leaf s))"
proof -
  have "literals_ok (literal_children (grow rs (leaf s)))" by (rule literals_ok_grow)
  then show ?thesis
    by (auto simp: kinds_ok_def literals_ok_def grow_param grow_wildcard split: if_splits)
qed

lemma child_routes_literal:
  "segment c = NLiteral l \<Longrightarrow> child_routes c = prefixed [Static l] (collect_routes c [])"
  "segment c = NParam l \<Longrightarrow> child_routes c = prefixed [Param l] (collect_routes c [])"
  "segment c = NWildcard l \<Longrightarrow> child_routes c = prefixed [Wildcard l] (collect_routes c [])"
  by (simp_all add: child_routes_def)

text \<open>What remains of the literal children's routes behind one part of a path.\<close>

lemma after_static_literals:
  "literals_ok cs \<Longrightarrow>
    after_static p (concat (map child_routes cs))
      = (case find (\<lambda>c. literal_key c = p) cs of Some c \<Rightarrow> collect_routes c [] | None \<Rightarrow> [])
    \<and> after_param (concat (map child_routes cs)) = []
    \<and> after_wildcard (concat (map child_routes cs)) = []
    \<and> ending (concat (map child_routes cs)) = []"
proof (induction cs)
  case (Cons c cs)
  have seg: "child_routes c = prefixed [Static (literal_key c)] (collect_routes c [])"
    using Cons.prems by (simp add: child_routes_literal literals_ok_def)
  have ok: "literals_ok cs" using Cons.prems by (simp add: literals_ok_def)
  have other: "find (\<lambda>c. literal_key c = p) cs = None" if "literal_key c = p"
    using Cons.prems that by (auto simp: literals_ok_def find_None_iff)
  show ?case using Cons.IH [OF ok] other by (auto simp: seg after_append2 after_prefixed)
qed simp

lemma collect_grow_parts:
  fixes rs :: "'h routes" and s :: node_segment
  defines "cr \<equiv> collect_routes (grow rs (leaf s)) []"
  shows "ending cr = (case last_opt (ending rs) of Some h \<Rightarrow> [h] | None \<Rightarrow> [])"
    and "after_static p cr = collect_routes (grow (after_static p rs) (leaf (NLiteral p))) []"
    and "after_param cr = map (Pair (fst (hd (after_param rs))))
        (collect_routes (grow (map snd (after_param rs)) (leaf (NParam (fst (hd (after_param rs)))))) [])"
    and "after_wildcard cr = (case after_wildcard rs of [] \<Rightarrow> [] | ws \<Rightarrow> [(fst (hd ws), snd (last ws))])"
proof -
  let ?t = "grow rs (leaf s)"
  let ?cs = "concat (map child_routes (literal_children ?t))"
  let ?h = "case last_opt (ending rs) of Some h \<Rightarrow> [([], h)] | None \<Rightarrow> []"
  let ?p = "if after_param rs = [] then [] else prefixed [Param (fst (hd (after_param rs)))]
      (collect_routes (grow (map snd (after_param rs)) (leaf (NParam (fst (hd (after_param rs)))))) [])"
  let ?w = "if after_wildcard rs = [] then []
      else [([Wildcard (fst (hd (after_wildcard rs)))], snd (last (after_wildcard rs)))]"
  have empty: "collect_routes (leaf sg) [] = []" for sg by (simp add: leaf_def)
  have cr: "cr = ?h @ ?cs @ ?p @ ?w"
    unfolding cr_def collect_routes_kinds [OF kinds_grow [of rs s]]
    by (auto simp: grow_handler grow_param grow_wildcard child_routes_def prefixed_def)
  have h: "ending ?h = (case last_opt (ending rs) of Some h \<Rightarrow> [h] | None \<Rightarrow> [])"
      "after_static p ?h = []" "after_param ?h = []" "after_wildcard ?h = []" for p
    by (auto split: option.split)
  have lits: "after_static p ?cs
      = (case lit_child ?t p of Some c \<Rightarrow> collect_routes c [] | None \<Rightarrow> [])"
      "after_param ?cs = []" "after_wildcard ?cs = []" "ending ?cs = []" for p
    using after_static_literals [OF literals_ok_grow [of rs s]] by (auto simp: lit_child_def)
  have pw: "ending ?p = []" "ending ?w = []" "after_static p ?p = []" "after_static p ?w = []"
      "after_param ?w = []" "after_wildcard ?p = []" for p
    by (auto simp: after_prefixed)
  show "ending cr = (case last_opt (ending rs) of Some h \<Rightarrow> [h] | None \<Rightarrow> [])"
    unfolding cr after_append2 lits h pw by simp
  show "after_static p cr = collect_routes (grow (after_static p rs) (leaf (NLiteral p))) []"
    unfolding cr after_append2 lits h pw using grow_static [of rs s p]
    by (auto simp: empty split: option.split if_splits)
  show "after_param cr = map (Pair (fst (hd (after_param rs))))
        (collect_routes (grow (map snd (after_param rs)) (leaf (NParam (fst (hd (after_param rs)))))) [])"
    unfolding cr after_append2 lits h pw by (auto simp: after_prefixed empty)
  show "after_wildcard cr = (case after_wildcard rs of [] \<Rightarrow> [] | ws \<Rightarrow> [(fst (hd ws), snd (last ws))])"
    unfolding cr after_append2 lits h pw by (auto split: list.split)
qed

text \<open>The collected routes answer every lookup like the routes that built the trie.\<close>

lemma route_lookup_collect: "route_lookup ps (collect_routes (grow rs (leaf s)) []) = route_lookup ps rs"
proof (induction ps arbitrary: rs s)
  case Nil
  show ?case by (simp add: collect_grow_parts last_opt_def)
next
  case (Cons p ps)
  let ?n = "fst (hd (after_param rs))"
  let ?sub = "collect_routes (grow (map snd (after_param rs)) (leaf (NParam ?n))) []"
  have par: "map snd (after_param (collect_routes (grow rs (leaf s)) [])) = ?sub"
    by (simp add: collect_grow_parts comp_def)
  have name: "fst (hd (after_param (collect_routes (grow rs (leaf s)) []))) = ?n"
    if "route_lookup ps ?sub = Some r" for r
  proof -
    have "?sub \<noteq> []" using that by auto
    then show ?thesis by (simp add: collect_grow_parts hd_map)
  qed
  show ?case
    unfolding route_lookup.simps par collect_grow_parts(2,4) Cons.IH
    using name by (auto simp: Cons.IH split: option.split list.split)
qed

lemma route_lookup_prefixed:
  "route_lookup (qs @ ps) (prefixed (map Static qs) rs) = route_lookup ps rs"
proof (induction qs)
  case (Cons q qs)
  then show ?case by (simp add: after_prefixed split: option.split)
qed simp

lemma route_lookup_off_prefix:
  "take (length qs) ps \<noteq> qs \<Longrightarrow> route_lookup ps (prefixed (map Static qs) rs) = None"
proof (induction qs arbitrary: ps)
  case (Cons q qs)
  then show ?case
    by (cases ps) (auto simp: after_prefixed last_opt_def split: option.split)
qed simp

subsection \<open>Properties of the router\<close>

text \<open>A router after a sequence of registrations, and the routes of one method.\<close>

definition register :: "(http_method \<times> bytes \<times> 'h) list \<Rightarrow> 'h router" where
  "register regs = foldl (\<lambda>r (m, pat, h). router_route r m pat h) router_new regs"

definition routes_for :: "http_method \<Rightarrow> (http_method \<times> bytes \<times> 'h) list \<Rightarrow> 'h routes" where
  "routes_for m regs = map (\<lambda>(m', pat, h). (parse_pattern pat, h)) (filter (\<lambda>(m', pat, h). m' = m) regs)"

lemma trees_register:
  "trees (register regs) m = (if routes_for m regs = [] then None else Some (grow (routes_for m regs) (leaf NRoot)))"
proof (induction regs rule: rev_induct)
  case Nil
  show ?case by (simp add: register_def router_new_def routes_for_def)
next
  case (snoc r regs)
  obtain m' pat h where r: "r = (m', pat, h)" by (cases r)
  have "register (regs @ [r]) = router_route (register regs) m' pat h" by (simp add: register_def r)
  then show ?case
    using snoc by (auto simp: r router_route_def router_entry_def routes_for_def grow_snoc)
qed

lemma lookup_method_register:
  "lookup_method (register regs) m path = Ok (route_lookup (split_path path) (routes_for m regs))"
  by (auto simp: lookup_method_def trees_register node_lookup_grow split: option.split)

text \<open>
  C9: The router answers like its table of routes. After any sequence of registrations, a lookup
  never panics and returns what a search through the routes of the method, in the order they
  were registered, gives: a literal is preferred to a parameter and a parameter to a wildcard,
  with backtracking, and a HEAD request without a route of its own is served by the GET routes.
\<close>

theorem router_refines_routes:
  "router_lookup (register regs) m path =
     Ok (case route_lookup (split_path path) (routes_for m regs) of
           Some r \<Rightarrow> Some r
         | None \<Rightarrow> if m = HEAD then route_lookup (split_path path) (routes_for GET regs) else None)"
  by (auto simp: router_lookup_def lookup_method_register split: option.split)

text \<open>
  A lookup finds a route exactly when the reference matcher accepts one. What it returns is
  the handler of a registered route that matches the path, with the captured values of that
  route; when it returns nothing, no registered route of the method matches, except a wildcard
  that would have to capture the empty rest.
\<close>

theorem lookup_sound_complete:
  "(\<forall>h params. lookup_method (register regs) m path = Ok (Some (h, params)) \<longrightarrow>
      (\<exists>pat ps. (m, pat, h) \<in> set regs \<and> match_path (parse_pattern pat) path = Some ps
         \<and> map snd ps = map snd params))
   \<and> (lookup_method (register regs) m path = Ok None \<longrightarrow>
      (\<forall>pat h. (m, pat, h) \<in> set regs \<longrightarrow> match_path (parse_pattern pat) path = None
         \<or> empty_wildcard (parse_pattern pat) (length (split_path path))))"
proof (intro conjI allI impI)
  fix h params assume "lookup_method (register regs) m path = Ok (Some (h, params))"
  then have "route_lookup (split_path path) (routes_for m regs) = Some (h, params)"
    by (simp add: lookup_method_register)
  from route_lookup_sound [OF this]
  show "\<exists>pat ps. (m, pat, h) \<in> set regs \<and> match_path (parse_pattern pat) path = Some ps
     \<and> map snd ps = map snd params"
    by (auto simp: routes_for_def match_path_def)
next
  fix pat h assume n: "lookup_method (register regs) m path = Ok None" and r: "(m, pat, h) \<in> set regs"
  have "(parse_pattern pat, h) \<in> set (routes_for m regs)" using r by (force simp: routes_for_def)
  then show "match_path (parse_pattern pat) path = None
      \<or> empty_wildcard (parse_pattern pat) (length (split_path path))"
    using n route_lookup_complete [of "parse_pattern pat" h "routes_for m regs" "split_path path"]
    unfolding lookup_method_register match_path_def by blast
qed

definition sample_routes :: "(http_method \<times> bytes \<times> nat) list" where
  "sample_routes = [(GET, ascii ''/users/:id'', 1), (GET, ascii ''/users/:name/posts'', 2),
     (GET, ascii ''/files/*rest'', 3), (GET, ascii ''/users/me'', 4)]"

theorem lookup_sound_complete_witness:
  "lookup_method (register sample_routes) GET (ascii ''/users/me'') = Ok (Some (4, []))
   \<and> (\<exists>pat ps. (GET, pat, 4) \<in> set sample_routes \<and> match_path (parse_pattern pat) (ascii ''/users/me'') = Some ps)"
proof -
  have "lookup_method (register sample_routes) GET (ascii ''/users/me'') = Ok (Some (4, []))" by code_simp
  then show ?thesis using lookup_sound_complete [of sample_routes GET "ascii ''/users/me''"] by blast
qed

text \<open>
  A parameter is named by the route that first put a parameter at its position. With
  \<^verbatim>\<open>/users/:id\<close> registered before \<^verbatim>\<open>/users/:name/posts\<close>, a request for \<^verbatim>\<open>/users/7/posts\<close> reaches
  the second handler with the value under \<^verbatim>\<open>id\<close> and none under \<^verbatim>\<open>name\<close>; and a wildcard route
  does not serve its own prefix although the reference matcher accepts it there.
\<close>

theorem param_named_by_first_route:
  "router_lookup (register sample_routes) GET (ascii ''/users/7/posts'')
     = Ok (Some (2, [(ascii ''id'', ascii ''7'')]))
   \<and> match_path (parse_pattern (ascii ''/users/:name/posts'')) (ascii ''/users/7/posts'')
     = Some [(ascii ''name'', ascii ''7'')]
   \<and> router_lookup (register sample_routes) GET (ascii ''/files'') = Ok None
   \<and> match_path (parse_pattern (ascii ''/files/*rest'')) (ascii ''/files'') = Some [(ascii ''rest'', [])]"
proof (intro conjI)
  show "router_lookup (register sample_routes) GET (ascii ''/users/7/posts'')
     = Ok (Some (2, [(ascii ''id'', ascii ''7'')]))" by code_simp
  show "match_path (parse_pattern (ascii ''/users/:name/posts'')) (ascii ''/users/7/posts'')
     = Some [(ascii ''name'', ascii ''7'')]" by code_simp
  show "router_lookup (register sample_routes) GET (ascii ''/files'') = Ok None" by code_simp
  show "match_path (parse_pattern (ascii ''/files/*rest'')) (ascii ''/files'') = Some [(ascii ''rest'', [])]"
    by code_simp
qed

lemma foldl_insert_prefixed:
  "foldl (\<lambda>t (segs, h). node_insert (pre @ segs) h t) n rs = grow (prefixed pre rs) n"
  by (induction rs arbitrary: n) (auto simp: grow_def prefixed_def)

text \<open>
  Mounting a router under a prefix moves its routes there and changes nothing else. When the
  prefix is made of literals and the outer router has no route of the method yet, a path below
  the prefix is answered as the mounted router answers the rest of the path, although nesting
  re-inserts the routes in the order of the tree, and a path that does not start with the prefix
  finds nothing.
\<close>

theorem nest_moves_routes:
  assumes "parse_pattern (trim_end_slash prefix) = map Static qs" and "trees r m = None"
  shows "(split_path path = qs @ ps \<longrightarrow>
      lookup_method (router_nest r prefix (register subs)) m path = Ok (route_lookup ps (routes_for m subs)))
    \<and> (take (length qs) (split_path path) \<noteq> qs \<longrightarrow>
      lookup_method (router_nest r prefix (register subs)) m path = Ok None)"
proof -
  let ?n = "router_nest r prefix (register subs)"
  have tree: "trees ?n m = (if routes_for m subs = [] then None
      else Some (grow (prefixed (map Static qs) (collect_routes (grow (routes_for m subs) (leaf NRoot)) [])) (leaf NRoot)))"
    using assms by (simp add: router_nest_def router_entry_def trees_register foldl_insert_prefixed)
  have l: "lookup_method ?n m path
      = Ok (route_lookup (split_path path) (prefixed (map Static qs) (collect_routes (grow (routes_for m subs) (leaf NRoot)) [])))"
  proof (cases "routes_for m subs = []")
    case True
    then show ?thesis by (simp add: lookup_method_def tree) (simp add: leaf_def)
  next
    case False
    then show ?thesis by (auto simp: lookup_method_def tree node_lookup_grow split: option.split)
  qed
  show ?thesis
  proof (intro conjI impI)
    assume "split_path path = qs @ ps"
    then show "lookup_method ?n m path = Ok (route_lookup ps (routes_for m subs))"
      unfolding l by (simp add: route_lookup_prefixed route_lookup_collect)
  next
    assume "take (length qs) (split_path path) \<noteq> qs"
    then show "lookup_method ?n m path = Ok None"
      unfolding l by (simp add: route_lookup_off_prefix)
  qed
qed

theorem nest_moves_routes_witness:
  "lookup_method (router_nest router_new (ascii ''/api/v1/'') (register sample_routes)) GET (ascii ''/api/v1/users/me'')
     = Ok (Some (4, []))"
proof -
  have p: "parse_pattern (trim_end_slash (ascii ''/api/v1/'')) = map Static [ascii ''api'', ascii ''v1'']" by code_simp
  have s: "split_path (ascii ''/api/v1/users/me'') = [ascii ''api'', ascii ''v1''] @ [ascii ''users'', ascii ''me'']"
    by code_simp
  have "route_lookup [ascii ''users'', ascii ''me''] (routes_for GET sample_routes) = Some (4, [])" by code_simp
  then show ?thesis
    using nest_moves_routes [OF p, of router_new GET "ascii ''/api/v1/users/me''"
        "[ascii ''users'', ascii ''me'']" sample_routes] s
    by (simp add: router_new_def)
qed

end
