(* ===== verification/H1_Conn.thy ===== *)
theory H1_Conn
  imports H1_Body Routing H2_IO
begin

text \<open>
  The HTTP/1.1 connection loop (\<^verbatim>\<open>moduvex-http/src/server/connection.rs\<close>) and the
  middleware chain (\<^verbatim>\<open>moduvex-http/src/middleware/mod.rs\<close>) over the transport of the
  HTTP/2 part. Handlers are functions of the path parameters (which the code puts into the
  request's extensions) and the request; they return a response and whether it carries a
  WebSocket callback. Timeouts are not part of the model: an idle timeout ends the loop like a
  read error does, and a write timeout ends it after the bytes written so far. Sizes are
  natural numbers.

  What is shown: pipelined requests are all served, in order, however their bytes arrive; no
  handler sees a body above the limit; and two defects of the chunked path.
\<close>

subsection \<open>Middleware\<close>

type_synonym reply = "response \<times> bool"
type_synonym middleware = "request \<Rightarrow> (request \<Rightarrow> reply) \<Rightarrow> reply"

text \<open>\<open>Next::run\<close> at index \<open>idx\<close>.\<close>

function next_run :: "middleware list \<Rightarrow> nat \<Rightarrow> (request \<Rightarrow> reply) \<Rightarrow> request \<Rightarrow> reply" where
  "next_run middlewares idx h req =
     (if length middlewares \<le> idx then h req
      else (middlewares ! idx) req (next_run middlewares (idx + 1) h))"
  by pat_completeness auto
termination by (relation "measure (\<lambda>(ms, idx, h, req). length ms - idx)") auto

declare next_run.simps [simp del]

definition dispatch :: "middleware list \<Rightarrow> (request \<Rightarrow> reply) \<Rightarrow> request \<Rightarrow> reply" where
  "dispatch middlewares h req = (if middlewares = [] then h req else next_run middlewares 0 h req)"

subsection \<open>Configuration\<close>

record conn_config =
  max_read_buf :: nat
  max_body_size :: nat
  max_requests :: nat
  limits :: parse_limits

definition conn_config_default :: conn_config where
  "conn_config_default = \<lparr>max_read_buf = 64 * 1024, max_body_size = 2 * 1024 * 1024,
     max_requests = 1000, limits = parse_limits_default\<rparr>"

subsection \<open>Low-level I/O\<close>

definition read_some :: "transport \<Rightarrow> (bytes, string) outcome \<times> transport" where
  "read_some t = poll_read t 4096"

text \<open>
  The \<^verbatim>\<open>while sent < buf.len()\<close> loop; \<open>io\<close> converts the error of the socket and \<open>zero\<close>
  is the error when nothing is accepted.
\<close>

function write_loop :: "(string \<Rightarrow> 'e) \<Rightarrow> 'e \<Rightarrow> transport \<Rightarrow> bytes \<Rightarrow> (unit, 'e) outcome \<times> transport" where
  "write_loop io zero t buf =
     (if buf = [] then (Ok (), t)
      else
        (case poll_write t buf of
           (Err e, t') \<Rightarrow> (Err (io e), t')
         | (Panic, t') \<Rightarrow> (Panic, t')
         | (Ok n, t') \<Rightarrow> if n = 0 then (Err zero, t') else write_loop io zero t' (drop n buf)))"
  by pat_completeness auto
termination by (relation "measure (\<lambda>(io, zero, t, buf). length buf)") auto

declare write_loop.simps [simp del]

definition h1_write_all :: "transport \<Rightarrow> bytes \<Rightarrow> (unit, string) outcome \<times> transport" where
  "h1_write_all t buf = write_loop (\<lambda>e. e) ''write returned 0 bytes'' t buf"

definition send_error :: "transport \<Rightarrow> nat \<Rightarrow> string \<Rightarrow> transport" where
  "send_error t status msg = snd (h1_write_all t (encode_error status (ascii msg) []))"

subsection \<open>Helpers\<close>

primrec is_keep_alive_request :: "http_version \<Rightarrow> (bytes \<times> bytes) list \<Rightarrow> bool" where
  "is_keep_alive_request version [] \<longleftrightarrow> version = Http11"
| "is_keep_alive_request version (f # hs) \<longleftrightarrow>
     (let v = to_ascii_lowercase (if utf8_valid (snd f) then snd f else []) in
      if eq_ignore_ascii_case (fst f) (ascii ''connection'') \<and> str_contains v (ascii ''close'') then False
      else if eq_ignore_ascii_case (fst f) (ascii ''connection'') \<and> str_contains v (ascii ''keep-alive'') then True
      else is_keep_alive_request version hs)"

fun parse_error_to_status :: "parse_error \<Rightarrow> nat" where
  "parse_error_to_status RequestLineTooLong = 431"
| "parse_error_to_status HeadersTooLarge = 431"
| "parse_error_to_status TooManyHeaders = 431"
| "parse_error_to_status HeaderValueTooLong = 431"
| "parse_error_to_status UnsupportedVersion = 505"
| "parse_error_to_status _ = 400"

definition has_chunked_terminator :: "bytes \<Rightarrow> bool" where
  "has_chunked_terminator buf \<longleftrightarrow> \<not> length buf < 5 \<and> find_window (ascii ''0'' @ CRLF @ CRLF) buf \<noteq> None"

subsection \<open>Reading a request\<close>

text \<open>What is left to read, which bounds the read loops.\<close>

definition pending :: "transport \<Rightarrow> nat" where
  "pending t = sum_list (map (\<lambda>e. case e of RBytes bs \<Rightarrow> Suc (length bs) | RError e \<Rightarrow> 1) (rx t))"

lemma read_some_pending: "read_some t = (Ok chunk, t') \<Longrightarrow> chunk \<noteq> [] \<Longrightarrow> pending t' < pending t"
  by (cases "rx t" rule: stream_bytes.cases)
    (auto simp: read_some_def poll_read_def pending_def split: if_splits)

text \<open>Each reader returns its result, the transport and the read buffer.\<close>

function read_head :: "conn_config \<Rightarrow> transport \<Rightarrow> bytes \<Rightarrow> (parsed_head, unit) outcome \<times> transport \<times> bytes" where
  "read_head cfg t buf =
     (case parse_request_head buf (limits cfg) of
        Complete h \<Rightarrow> (Ok h, t, buf)
      | Error e \<Rightarrow> (Err (), send_error t (parse_error_to_status e) ''parse error'', buf)
      | Partial \<Rightarrow>
          if max_read_buf cfg \<le> length buf then (Err (), send_error t 431 ''headers too large'', buf)
          else
            (case read_some t of
               (Err e, t') \<Rightarrow> (Err (), t', buf)
             | (Panic, t') \<Rightarrow> (Panic, t', buf)
             | (Ok chunk, t') \<Rightarrow>
                 if chunk = [] then (Err (), if buf \<noteq> [] then send_error t' 400 ''unexpected EOF'' else t', buf)
                 else read_head cfg t' (buf @ chunk)))"
  by pat_completeness auto
termination
  by (relation "measure (\<lambda>(cfg, t, buf). pending t)") (auto dest: read_some_pending [OF sym])

function read_fixed_body :: "transport \<Rightarrow> bytes \<Rightarrow> nat \<Rightarrow> (body, unit) outcome \<times> transport \<times> bytes" where
  "read_fixed_body t buf len =
     (if length buf < len then
        (case read_some t of
           (Err e, t') \<Rightarrow> (Err (), t', buf)
         | (Panic, t') \<Rightarrow> (Panic, t', buf)
         | (Ok chunk, t') \<Rightarrow>
             if chunk = [] then (Err (), send_error t' 400 ''unexpected EOF in body'', buf)
             else read_fixed_body t' (buf @ chunk) len)
      else (Ok (Fixed (take len buf)), t, drop len buf))"
  by pat_completeness auto
termination
  by (relation "measure (\<lambda>(t, buf, len). pending t)") (auto dest: read_some_pending [OF sym])

function read_chunked_body :: "conn_config \<Rightarrow> transport \<Rightarrow> bytes \<Rightarrow> (body, unit) outcome \<times> transport \<times> bytes" where
  "read_chunked_body cfg t buf =
     (if has_chunked_terminator buf then
        (case decode_chunked buf of
           Ok decoded \<Rightarrow>
             if max_body_size cfg < length decoded then (Err (), send_error t 413 ''body too large'', buf)
             else (Ok (Fixed decoded), t, [])
         | Err e \<Rightarrow> (Err (), send_error t 400 ''bad chunked encoding'', buf)
         | Panic \<Rightarrow> (Panic, t, buf))
      else if max_body_size cfg + max_body_size cfg div 10 + 1024 < length buf
      then (Err (), send_error t 413 ''body too large'', buf)
      else
        (case read_some t of
           (Err e, t') \<Rightarrow> (Err (), t', buf)
         | (Panic, t') \<Rightarrow> (Panic, t', buf)
         | (Ok chunk, t') \<Rightarrow>
             if chunk = [] then (Err (), send_error t' 400 ''unexpected EOF in chunked body'', buf)
             else read_chunked_body cfg t' (buf @ chunk)))"
  by pat_completeness auto
termination
  by (relation "measure (\<lambda>(cfg, t, buf). pending t)") (auto dest: read_some_pending [OF sym])

declare read_head.simps [simp del] read_fixed_body.simps [simp del] read_chunked_body.simps [simp del]

text \<open>The body of the request whose head has been read (step 2 of the loop).\<close>

definition read_body :: "conn_config \<Rightarrow> parsed_head \<Rightarrow> transport \<Rightarrow> bytes \<Rightarrow> (body, unit) outcome \<times> transport \<times> bytes" where
  "read_body cfg h t buf =
     (if ph_has_chunked_te h then read_chunked_body cfg t buf
      else case ph_content_length h of
        Some len \<Rightarrow>
          if max_body_size cfg < len then (Err (), send_error t 413 ''body too large'', buf)
          else read_fixed_body t buf len
      | None \<Rightarrow> (Ok Empty, t, buf))"

definition h1_request :: "parsed_head \<Rightarrow> body \<Rightarrow> request" where
  "h1_request h b = (request_new (ph_method h) (ph_path h))\<lparr>req_query := ph_query h, req_version := ph_version h,
     req_headers := foldl (\<lambda>m (n, v). header_append m n v) [] (ph_headers h), req_body := b\<rparr>"

subsection \<open>Responding\<close>

type_synonym app = "(params \<Rightarrow> request \<Rightarrow> reply) router"

text \<open>Dispatch through the router (step 4); a lookup that panics takes the connection down.\<close>

definition respond :: "app \<Rightarrow> middleware list \<Rightarrow> request \<Rightarrow> (reply, unit) outcome" where
  "respond router middlewares req =
     bind_outcome (router_lookup router (req_method req) (req_path req)) (\<lambda>m.
       case m of
         Some (h, params) \<Rightarrow> Ok (dispatch middlewares (h params) req)
       | None \<Rightarrow>
           (case fallback router of
              Some fb \<Rightarrow> Ok (dispatch middlewares (fb []) req)
            | None \<Rightarrow> Ok (dispatch middlewares (\<lambda>r. (response_not_found, False)) req)))"

text \<open>A HEAD response keeps status and headers; its extensions (a callback) are dropped too.\<close>

definition strip_head_body :: "http_method \<Rightarrow> response \<Rightarrow> response" where
  "strip_head_body m resp =
     (if m = HEAD then (response_new (resp_status resp))\<lparr>resp_headers := resp_headers resp\<rparr> else resp)"

text \<open>How the loop ends: closed, or handed over to a WebSocket callback with the unread bytes.\<close>

datatype conn_end = ConnClosed | ConnUpgraded bytes | ConnPanic

function run_loop ::
  "conn_config \<Rightarrow> app \<Rightarrow> middleware list \<Rightarrow> nat \<Rightarrow> transport \<Rightarrow> bytes \<Rightarrow> conn_end \<times> transport" where
  "run_loop cfg router middlewares served t read_buf =
     (case read_head cfg t read_buf of
        (Err e, t1, b1) \<Rightarrow> (ConnClosed, t1)
      | (Panic, t1, b1) \<Rightarrow> (ConnPanic, t1)
      | (Ok h, t1, b1) \<Rightarrow>
          (case read_body cfg h t1 (drop (ph_head_len h) b1) of
             (Err e, t2, b2) \<Rightarrow> (ConnClosed, t2)
           | (Panic, t2, b2) \<Rightarrow> (ConnPanic, t2)
           | (Ok b, t2, b2) \<Rightarrow>
               (case respond router middlewares (h1_request h b) of
                  Err e \<Rightarrow> (ConnPanic, t2)
                | Panic \<Rightarrow> (ConnPanic, t2)
                | Ok (resp, callback) \<Rightarrow>
                    (let resp = strip_head_body (ph_method h) resp in
                     if resp_status resp = 101 then
                       (let t3 = snd (h1_write_all t2 (encode_response resp []))
                        in (if callback \<and> ph_method h \<noteq> HEAD then ConnUpgraded b2 else ConnClosed, t3))
                     else
                       (let keep_alive = (is_keep_alive_request (ph_version h) (ph_headers h)
                              \<and> ph_version h = Http11 \<and> served + 1 < max_requests cfg);
                            resp = response_header resp (ascii ''connection'')
                              (if keep_alive then ascii ''keep-alive'' else ascii ''close'');
                            t3 = snd (h1_write_all t2 (encode_response resp []))
                        in if \<not> keep_alive then (ConnClosed, t3)
                           else run_loop cfg router middlewares (served + 1) t3 b2)))))"
  by pat_completeness auto
termination
  by (relation "measure (\<lambda>(cfg, router, ms, served, t, buf). max_requests cfg - served)") auto

declare run_loop.simps [simp del]

text \<open>\<open>Connection::run\<close> on a new connection; \<open>pre_read\<close> are the bytes peeked before.\<close>

definition connection_run :: "conn_config \<Rightarrow> app \<Rightarrow> middleware list \<Rightarrow> transport \<Rightarrow> bytes \<Rightarrow> conn_end \<times> transport" where
  "connection_run cfg router middlewares t pre_read = run_loop cfg router middlewares 0 t pre_read"

subsection \<open>The middleware chain\<close>

text \<open>The chain by index is the composition of the middlewares around the handler.\<close>

lemma next_run_foldr: "next_run ms idx h = foldr (\<lambda>m k req. m req k) (drop idx ms) h"
proof (induction "length ms - idx" arbitrary: idx)
  case 0
  then show ?case by (simp add: fun_eq_iff next_run.simps)
next
  case (Suc k)
  then have i: "idx < length ms" and k: "k = length ms - (idx + 1)" by auto
  have "drop idx ms = ms ! idx # drop (idx + 1) ms" using i by (simp add: Cons_nth_drop_Suc)
  then show ?case
    using i by (intro ext) (simp add: next_run.simps [of ms idx] Suc.hyps(1) [OF k, simplified])
qed

lemma dispatch_foldr: "dispatch ms h = foldr (\<lambda>m k req. m req k) ms h"
  by (rule ext) (simp add: dispatch_def next_run_foldr)

subsection \<open>Writing\<close>

definition h1_accepting :: "transport \<Rightarrow> bool" where
  "h1_accepting t \<longleftrightarrow> list_all (\<lambda>e. \<exists>n > 0. e = WAccept n) (wr t)"

lemma poll_write_accepting:
  assumes "h1_accepting t" and "buf \<noteq> []"
  shows "\<exists>n t'. poll_write t buf = (Ok n, t') \<and> 0 < n \<and> tx t' = tx t @ take n buf \<and> rx t' = rx t \<and> h1_accepting t'"
  using assms
  by (cases "wr t") (auto simp: poll_write_def h1_accepting_def split: write_event.split)

lemma write_loop_accepting:
  "h1_accepting t \<Longrightarrow> \<exists>t'. write_loop io zero t buf = (Ok (), t') \<and> tx t' = tx t @ buf \<and> rx t' = rx t \<and> h1_accepting t'"
proof (induction io zero t buf rule: write_loop.induct)
  case (1 io zero t buf)
  show ?case
  proof (cases "buf = []")
    case True
    then show ?thesis using "1.prems" by (subst write_loop.simps) simp
  next
    case False
    then obtain n t1 where w: "poll_write t buf = (Ok n, t1)" "0 < n" "tx t1 = tx t @ take n buf"
        "rx t1 = rx t" "h1_accepting t1"
      using poll_write_accepting [OF "1.prems"] by blast
    then obtain t' where "write_loop io zero t1 (drop n buf) = (Ok (), t')" "tx t' = tx t1 @ drop n buf"
        "rx t' = rx t1" "h1_accepting t'"
      using "1.IH" [OF False w(1) [symmetric] refl] by auto
    then show ?thesis
      using False w by (subst write_loop.simps) simp
  qed
qed

lemmas h1_write_all_accepting = write_loop_accepting [where io = "\<lambda>e. e" and zero = "''write returned 0 bytes''", folded h1_write_all_def]

lemma write_loop_rx: "rx (snd (write_loop io zero t buf)) = rx t"
proof (induction io zero t buf rule: write_loop.induct)
  case (1 io zero t buf)
  have "rx (snd (poll_write t buf)) = rx t"
    by (simp add: poll_write_def split: list.split write_event.split)
  then show ?case
    using "1.IH" by (subst write_loop.simps) (auto split: prod.split outcome.split)
qed

subsection \<open>Reading what has arrived\<close>

lemma read_some_stream:
  assumes "stream_bytes (rx t) \<noteq> []"
  shows "\<exists>chunk t'. read_some t = (Ok chunk, t') \<and> chunk \<noteq> [] \<and> stream_bytes (rx t) = chunk @ stream_bytes (rx t')
    \<and> tx t' = tx t \<and> wr t' = wr t"
  using poll_read_stream [of 4096, OF _ assms] by (auto simp: read_some_def poll_read_def)

text \<open>
  A reader leaves the transport's output alone and moves bytes from the stream to the buffer.
\<close>

definition same_stream :: "transport \<Rightarrow> bytes \<Rightarrow> transport \<Rightarrow> bytes \<Rightarrow> bool" where
  "same_stream t buf t' buf' \<longleftrightarrow>
     buf' @ stream_bytes (rx t') = buf @ stream_bytes (rx t) \<and> tx t' = tx t \<and> wr t' = wr t"

lemma same_stream_trans: "same_stream t b t' b' \<Longrightarrow> same_stream t' b' t'' b'' \<Longrightarrow> same_stream t b t'' b''"
  by (simp add: same_stream_def)

lemma read_head_stream:
  assumes "wf_head (limits cfg) h" and "ph_head_len h \<le> max_read_buf cfg"
    and "ph_head_len h \<le> max_header_block (limits cfg)"
    and "buf @ stream_bytes (rx t) = print_head h @ rest"
  shows "\<exists>t' buf'. read_head cfg t buf = (Ok h, t', buf') \<and> same_stream t buf t' buf' \<and> ph_head_len h \<le> length buf'"
  using assms
proof (induction cfg t buf rule: read_head.induct)
  case (1 cfg t buf)
  have len: "ph_head_len h = length (print_head h)" using "1.prems"(1) by (simp add: wf_head_def)
  show ?case
  proof (cases "ph_head_len h \<le> length buf")
    case True
    have "take (ph_head_len h) (buf @ stream_bytes (rx t)) = print_head h"
      unfolding "1.prems"(4) len by simp
    then have "take (ph_head_len h) buf = print_head h" using True by simp
    then have "buf = print_head h @ drop (ph_head_len h) buf" by (metis append_take_drop_id)
    then have "parse_request_head buf (limits cfg) = Complete h"
      using parse_print_head [OF "1.prems"(1), of "drop (ph_head_len h) buf"] by simp
    then show ?thesis using True by (subst read_head.simps) (simp add: same_stream_def)
  next
    case False
    have partial: "parse_request_head buf (limits cfg) = Partial"
      using parse_pieces [of buf "limits cfg" "stream_bytes (rx t)"] parse_print_head [OF "1.prems"(1), of rest]
        "1.prems"(3,4) False by auto
    have "stream_bytes (rx t) \<noteq> []"
      using "1.prems"(4) False len by (auto dest: arg_cong [of _ _ length])
    then obtain chunk t1 where c: "read_some t = (Ok chunk, t1)" "chunk \<noteq> []"
        "stream_bytes (rx t) = chunk @ stream_bytes (rx t1)" "tx t1 = tx t" "wr t1 = wr t"
      using read_some_stream by blast
    have room: "\<not> max_read_buf cfg \<le> length buf" using "1.prems"(2) False by simp
    have "(buf @ chunk) @ stream_bytes (rx t1) = print_head h @ rest" using "1.prems"(4) c(3) by simp
    then obtain t' buf' where "read_head cfg t1 (buf @ chunk) = (Ok h, t', buf')"
        "same_stream t1 (buf @ chunk) t' buf'" "ph_head_len h \<le> length buf'"
      using "1.IH" [OF partial room c(1) [symmetric] refl c(2) "1.prems"(1-3)] by blast
    moreover have "same_stream t buf t1 (buf @ chunk)" using c by (simp add: same_stream_def)
    ultimately show ?thesis
      using partial room c same_stream_trans by (subst read_head.simps) fastforce
  qed
qed

lemma read_fixed_body_stream:
  "len \<le> length (buf @ stream_bytes (rx t)) \<Longrightarrow>
    \<exists>t' buf'. read_fixed_body t buf len = (Ok (Fixed (take len (buf @ stream_bytes (rx t)))), t', buf')
      \<and> buf' @ stream_bytes (rx t') = drop len (buf @ stream_bytes (rx t)) \<and> tx t' = tx t \<and> wr t' = wr t"
proof (induction t buf len rule: read_fixed_body.induct)
  case (1 t buf len)
  show ?case
  proof (cases "length buf < len")
    case True
    then have "stream_bytes (rx t) \<noteq> []" using "1.prems" by auto
    then obtain chunk t1 where c: "read_some t = (Ok chunk, t1)" "chunk \<noteq> []"
        "stream_bytes (rx t) = chunk @ stream_bytes (rx t1)" "tx t1 = tx t" "wr t1 = wr t"
      using read_some_stream by blast
    have "len \<le> length ((buf @ chunk) @ stream_bytes (rx t1))" using "1.prems" c(3) by simp
    from "1.IH" [OF True c(1) [symmetric] refl c(2) this] show ?thesis
      using True c by (subst read_fixed_body.simps) auto
  next
    case False
    then show ?thesis by (subst read_fixed_body.simps) simp
  qed
qed

subsection \<open>Pipelined requests\<close>

text \<open>
  A request on the wire, the body the handler sees, requests that keep the connection open, and
  the answer to one.
\<close>

definition wire_request :: "parsed_head \<times> bytes \<Rightarrow> bytes" where
  "wire_request r = print_head (fst r) @ snd r"

definition body_seen :: "parsed_head \<times> bytes \<Rightarrow> body" where
  "body_seen r = (case ph_content_length (fst r) of None \<Rightarrow> Empty | Some n \<Rightarrow> Fixed (snd r))"

definition request_ok :: "conn_config \<Rightarrow> parsed_head \<times> bytes \<Rightarrow> bool" where
  "request_ok cfg r \<longleftrightarrow>
     wf_head (limits cfg) (fst r) \<and> ph_head_len (fst r) \<le> max_read_buf cfg
     \<and> ph_head_len (fst r) \<le> max_header_block (limits cfg) \<and> \<not> ph_has_chunked_te (fst r)
     \<and> (case ph_content_length (fst r) of
          None \<Rightarrow> snd r = [] | Some n \<Rightarrow> n = length (snd r) \<and> n \<le> max_body_size cfg)
     \<and> ph_version (fst r) = Http11 \<and> is_keep_alive_request Http11 (ph_headers (fst r))"

definition answered :: "app \<Rightarrow> middleware list \<Rightarrow> parsed_head \<times> bytes \<Rightarrow> response \<Rightarrow> bool" where
  "answered router ms r resp \<longleftrightarrow>
     (\<exists>resp' cb. respond router ms (h1_request (fst r) (body_seen r)) = Ok (resp', cb)
        \<and> resp_status resp' \<noteq> 101
        \<and> resp = response_header (strip_head_body (ph_method (fst r)) resp') (ascii ''connection'') (ascii ''keep-alive''))"

lemma strip_head_body_status [simp]: "resp_status (strip_head_body m resp) = resp_status resp"
  by (simp add: strip_head_body_def response_new_def)

lemma read_body_ok:
  assumes "request_ok cfg r" and "buf @ stream_bytes (rx t) = snd r @ rest"
  shows "\<exists>t' buf'. read_body cfg (fst r) t buf = (Ok (body_seen r), t', buf')
    \<and> buf' @ stream_bytes (rx t') = rest \<and> tx t' = tx t \<and> wr t' = wr t"
proof (cases "ph_content_length (fst r)")
  case None
  then show ?thesis using assms by (simp add: request_ok_def read_body_def body_seen_def)
next
  case (Some n)
  then have n: "n = length (snd r)" "n \<le> max_body_size cfg" using assms(1) by (auto simp: request_ok_def)
  have "n \<le> length (buf @ stream_bytes (rx t))" unfolding assms(2) n(1) by simp
  from read_fixed_body_stream [OF this] obtain t' buf' where
    "read_fixed_body t buf n = (Ok (Fixed (take n (snd r @ rest))), t', buf')"
    "buf' @ stream_bytes (rx t') = drop n (snd r @ rest)" "tx t' = tx t" "wr t' = wr t"
    unfolding assms(2) by blast
  then show ?thesis
    using assms(1) Some n by (auto simp: request_ok_def read_body_def body_seen_def)
qed

lemma run_loop_request:
  assumes ok: "request_ok cfg r" and ans: "answered router ms r resp" and n: "served + 1 < max_requests cfg"
    and st: "buf @ stream_bytes (rx t) = wire_request r @ rest" and acc: "h1_accepting t"
  shows "\<exists>t' buf'. run_loop cfg router ms served t buf = run_loop cfg router ms (served + 1) t' buf'
    \<and> tx t' = tx t @ encode_response resp [] \<and> h1_accepting t' \<and> buf' @ stream_bytes (rx t') = rest"
proof -
  obtain h b where r: "r = (h, b)" by (cases r)
  have wf: "wf_head (limits cfg) h" "ph_head_len h \<le> max_read_buf cfg"
      "ph_head_len h \<le> max_header_block (limits cfg)" "ph_version h = Http11"
      "is_keep_alive_request Http11 (ph_headers h)"
    using ok by (auto simp: request_ok_def r)
  have len: "ph_head_len h = length (print_head h)" using wf(1) by (simp add: wf_head_def)
  have st': "buf @ stream_bytes (rx t) = print_head h @ b @ rest" using st by (simp add: wire_request_def r)
  obtain t1 b1 where h1: "read_head cfg t buf = (Ok h, t1, b1)" "same_stream t buf t1 b1" "ph_head_len h \<le> length b1"
    using read_head_stream [OF wf(1-3) st'] by blast
  have "b1 @ stream_bytes (rx t1) = print_head h @ b @ rest" using h1(2) st' by (simp add: same_stream_def)
  then have "drop (ph_head_len h) (b1 @ stream_bytes (rx t1)) = b @ rest" by (simp add: len)
  then have "drop (ph_head_len h) b1 @ stream_bytes (rx t1) = snd r @ rest" using h1(3) by (simp add: r)
  from read_body_ok [OF ok this] obtain t2 b2 where b2:
    "read_body cfg h t1 (drop (ph_head_len h) b1) = (Ok (body_seen r), t2, b2)"
    "b2 @ stream_bytes (rx t2) = rest" "tx t2 = tx t1" "wr t2 = wr t1"
    by (auto simp: r)
  obtain resp' cb where resp: "respond router ms (h1_request h (body_seen r)) = Ok (resp', cb)" "resp_status resp' \<noteq> 101"
      "resp = response_header (strip_head_body (ph_method h) resp') (ascii ''connection'') (ascii ''keep-alive'')"
    using ans by (auto simp: answered_def r)
  have "h1_accepting t2" using acc h1(2) b2(4) by (simp add: h1_accepting_def same_stream_def)
  from h1_write_all_accepting [OF this, of "encode_response resp []"] obtain t3 where
    t3: "h1_write_all t2 (encode_response resp []) = (Ok (), t3)" "tx t3 = tx t2 @ encode_response resp []"
      "rx t3 = rx t2" "h1_accepting t3" by blast
  have "run_loop cfg router ms served t buf = run_loop cfg router ms (served + 1) t3 b2"
    using h1(1) b2(1) resp t3(1) wf(4,5) n by (subst run_loop.simps) (simp add: Let_def)
  then show ?thesis
    using t3 b2 h1(2) by (intro exI [of _ t3] exI [of _ b2]) (simp add: same_stream_def)
qed

lemma run_loop_eof:
  assumes "buf = []" and "stream_bytes (rx t) = []" and "0 < max_read_buf cfg"
  shows "tx (snd (run_loop cfg router ms served t buf)) = tx t \<and> fst (run_loop cfg router ms served t buf) = ConnClosed"
proof -
  have p: "parse_request_head [] (limits cfg) = Partial" by (simp add: parse_request_head_def find_header_end_def)
  have "\<exists>t' e. (read_some t = (Ok [], t') \<or> read_some t = (Err e, t')) \<and> tx t' = tx t"
    using assms(2) by (cases "rx t" rule: stream_bytes.cases)
      (auto simp: read_some_def poll_read_def split: if_splits)
  then obtain t' e where r: "read_some t = (Ok [], t') \<or> read_some t = (Err e, t')" "tx t' = tx t" by blast
  then have "read_head cfg t [] = (Err (), t', [])"
    using p assms(3) by (auto simp: read_head.simps [of cfg t])
  with r(2) show ?thesis using assms(1) by (subst (1 2) run_loop.simps) simp
qed

lemma run_loop_pipeline:
  "list_all (request_ok cfg) rqs \<Longrightarrow> list_all2 (answered router ms) rqs resps
    \<Longrightarrow> served + length rqs < max_requests cfg \<Longrightarrow> 0 < max_read_buf cfg \<Longrightarrow> h1_accepting t
    \<Longrightarrow> buf @ stream_bytes (rx t) = concat (map wire_request rqs)
    \<Longrightarrow> fst (run_loop cfg router ms served t buf) = ConnClosed
      \<and> tx (snd (run_loop cfg router ms served t buf)) = tx t @ concat (map (\<lambda>r. encode_response r []) resps)"
proof (induction rqs arbitrary: resps served t buf)
  case Nil
  then show ?case using run_loop_eof [of buf t cfg router ms served] by simp
next
  case (Cons r rqs)
  obtain resp resps' where resps: "resps = resp # resps'" "answered router ms r resp"
      "list_all2 (answered router ms) rqs resps'"
    using Cons.prems(2) by (auto simp: list_all2_Cons1)
  have step: "request_ok cfg r" "served + 1 < max_requests cfg"
      "buf @ stream_bytes (rx t) = wire_request r @ concat (map wire_request rqs)"
    using Cons.prems by auto
  obtain t' buf' where t': "run_loop cfg router ms served t buf = run_loop cfg router ms (served + 1) t' buf'"
      "tx t' = tx t @ encode_response resp []" "h1_accepting t'"
      "buf' @ stream_bytes (rx t') = concat (map wire_request rqs)"
    using run_loop_request [OF step(1) resps(2) step(2,3) Cons.prems(5)] by blast
  show ?case
    using Cons.IH [of resps' "served + 1" t' buf'] Cons.prems resps t' by auto
qed

text \<open>
  C2: Pipelined requests are all answered, in order. When a client sends a sequence of well-formed
  HTTP/1.1 requests with bodies of the announced length on one connection, within the limits, and
  then closes it, the server writes exactly the answers of the handlers, one after the other, and
  closes; how the bytes arrive, in which pieces they are accepted, and how requests share a read
  make no difference.
\<close>

theorem pipelined_requests_answered:
  assumes "list_all (request_ok cfg) rqs" and "list_all2 (answered router ms) rqs resps"
    and "length rqs < max_requests cfg" and "0 < max_read_buf cfg" and "h1_accepting t"
    and "stream_bytes (rx t) = concat (map wire_request rqs)"
  shows "\<exists>t'. connection_run cfg router ms t [] = (ConnClosed, t')
    \<and> tx t' = tx t @ concat (map (\<lambda>r. encode_response r []) resps)"
  using run_loop_pipeline [of cfg rqs router ms resps 0 t "[]"] assms
  by (auto simp: connection_run_def intro!: prod_eqI exI [of _ "snd (run_loop cfg router ms 0 t [])"])

definition hello_app :: app where
  "hello_app = router_route router_new POST (ascii ''/a'') (\<lambda>params req. (response_text (ascii ''hi''), False))"

theorem pipelined_requests_answered_witness:
  "\<exists>t' resp. connection_run conn_config_default hello_app []
       \<lparr>rx = [RBytes (take 60 (wire_request (sample_head, ascii ''hello'') @ wire_request (sample_head, ascii ''hello''))),
              RBytes (drop 60 (wire_request (sample_head, ascii ''hello'') @ wire_request (sample_head, ascii ''hello'')))],
         wr = [], tx = []\<rparr> [] = (ConnClosed, t')
     \<and> tx t' = encode_response resp [] @ encode_response resp [] \<and> resp_body resp = Fixed (ascii ''hi'')"
proof -
  let ?r = "(sample_head, ascii ''hello'')" and ?cfg = conn_config_default
  let ?w = "wire_request ?r @ wire_request ?r"
  let ?t = "\<lparr>rx = [RBytes (take 60 ?w), RBytes (drop 60 ?w)], wr = [], tx = []\<rparr>"
  have lim: "limits ?cfg = parse_limits_default" "max_read_buf ?cfg = 65536" "max_body_size ?cfg = 2097152"
      "max_requests ?cfg = 1000" "max_header_block parse_limits_default = 65536"
    by (simp_all add: conn_config_default_def parse_limits_default_def)
  have sh: "ph_head_len sample_head = 50" "\<not> ph_has_chunked_te sample_head" "ph_content_length sample_head = Some 5"
      "ph_version sample_head = Http11"
    by (simp_all add: sample_head_def)
  have ka: "is_keep_alive_request Http11 (ph_headers sample_head)" by code_simp
  have ok: "request_ok ?cfg ?r"
    unfolding request_ok_def fst_conv snd_conv lim sh using sample_wf ka sh(2) by simp
  have len: "length ?w = 110"
    using sample_wf sh(1) by (simp add: wire_request_def wf_head_def)
  have st: "stream_bytes (rx ?t) = concat (map wire_request [?r, ?r])"
  proof -
    have "take 60 ?w \<noteq> []" "drop 60 ?w \<noteq> []"
      using len unfolding take_eq_Nil drop_eq_Nil by auto
    then have "stream_bytes (rx ?t) = take 60 ?w @ drop 60 ?w" by (simp del: take_append drop_append)
    then show ?thesis unfolding append_take_drop_id by simp
  qed
  have sp: "split_path (ascii ''/a'') = [ascii ''a'']" "parse_pattern (ascii ''/a'') = [Static (ascii ''a'')]" by code_simp+
  have ha: "hello_app = register [(POST, ascii ''/a'', \<lambda>params req. (response_text (ascii ''hi''), False))]"
    by (simp add: hello_app_def register_def)
  have "router_lookup hello_app POST (ascii ''/a'') = Ok (Some ((\<lambda>params req. (response_text (ascii ''hi''), False)), []))"
    unfolding ha by (simp add: router_lookup_def lookup_method_register routes_for_def sp last_opt_def)
  then have resp: "respond hello_app [] (h1_request sample_head (body_seen ?r)) = Ok (response_text (ascii ''hi''), False)"
    by (simp add: respond_def h1_request_def request_new_def sample_head_def dispatch_def)
  let ?resp = "response_header (strip_head_body POST (response_text (ascii ''hi''))) (ascii ''connection'') (ascii ''keep-alive'')"
  have body: "resp_status (response_text (ascii ''hi'')) \<noteq> 101" "resp_body ?resp = Fixed (ascii ''hi'')" by code_simp+
  have "ph_method sample_head = POST" by (simp add: sample_head_def)
  then have "answered hello_app [] ?r ?resp"
    unfolding answered_def fst_conv using resp body(1) by metis
  then show ?thesis
    using pipelined_requests_answered [of ?cfg "[?r, ?r]" hello_app "[]" "[?resp, ?resp]" ?t] ok st body(2) lim
    by (auto simp: h1_accepting_def simp del: take_append drop_append)
qed

subsection \<open>Bodies\<close>

lemma read_fixed_body_length:
  "read_fixed_body t buf len = (Ok b, t', buf') \<Longrightarrow> \<exists>v. b = Fixed v \<and> length v = len"
proof (induction t buf len rule: read_fixed_body.induct)
  case (1 t buf len)
  show ?case
    using "1.prems" "1.IH"
    by (subst (asm) (1) read_fixed_body.simps) (auto split: if_splits prod.splits outcome.splits)
qed

lemma read_chunked_body_result:
  "read_chunked_body cfg t buf = (Ok b, t', buf') \<Longrightarrow>
    (\<exists>v. b = Fixed v \<and> length v \<le> max_body_size cfg) \<and> buf' = []"
proof (induction cfg t buf rule: read_chunked_body.induct)
  case (1 cfg t buf)
  show ?case
    using "1.prems" "1.IH"
    by (subst (asm) (1) read_chunked_body.simps) (auto split: if_splits prod.splits outcome.splits)
qed

text \<open>
  A handler never sees a body above the configured limit, and a body of announced length is
  exactly that long: whatever the client sends, a body that is read successfully has at most
  \<^verbatim>\<open>max_body_size\<close> bytes (decoded bytes for the chunked coding), and \<^verbatim>\<open>Content-Length\<close> many
  when there is such a field.
\<close>

theorem body_within_limit:
  assumes "read_body cfg h t buf = (Ok b, t', buf')"
  shows "length (body_into_bytes b) \<le> max_body_size cfg
    \<and> (\<forall>n. \<not> ph_has_chunked_te h \<and> ph_content_length h = Some n \<longrightarrow> length (body_into_bytes b) = n)
    \<and> (\<not> ph_has_chunked_te h \<and> ph_content_length h = None \<longrightarrow> b = Empty \<and> buf' = buf)"
proof (cases "ph_has_chunked_te h")
  case True
  then show ?thesis
    using assms read_chunked_body_result [of cfg t buf b t' buf'] by (auto simp: read_body_def)
next
  case False
  then show ?thesis
    using assms by (fastforce simp: read_body_def split: option.splits if_splits dest: read_fixed_body_length)
qed

theorem body_within_limit_witness:
  "\<exists>b t' buf'. read_body conn_config_default sample_head \<lparr>rx = [], wr = [], tx = []\<rparr> (ascii ''hello world'') = (Ok b, t', buf')
     \<and> length (body_into_bytes b) = 5"
proof -
  let ?t = "\<lparr>rx = [], wr = [], tx = []\<rparr>"
  have sh: "\<not> ph_has_chunked_te sample_head" "ph_content_length sample_head = Some 5" by (simp_all add: sample_head_def)
  have "read_fixed_body ?t (ascii ''hello world'') 5
      = (Ok (Fixed (take 5 (ascii ''hello world''))), ?t, drop 5 (ascii ''hello world''))"
    by (subst read_fixed_body.simps) simp
  then have r: "read_body conn_config_default sample_head ?t (ascii ''hello world'')
      = (Ok (Fixed (take 5 (ascii ''hello world''))), ?t, drop 5 (ascii ''hello world''))"
    using sh by (simp add: read_body_def conn_config_default_def)
  from body_within_limit [OF r] show ?thesis using r sh by blast
qed

lemma find_window_exists: "pat \<noteq> [] \<Longrightarrow> find_window pat (pre @ pat @ post) \<noteq> None"
proof (induction pre)
  case Nil
  then show ?case by (cases pat) auto
qed auto

lemma terminator_found: "has_chunked_terminator (write_final_chunk out @ rest)"
  using find_window_exists [of "ascii ''0'' @ CRLF @ CRLF" out rest]
  by (simp add: has_chunked_terminator_def write_final_chunk_def) (simp add: CRLF_def ascii_def)

text \<open>
  A request that is pipelined behind a chunked body is lost. When the buffer holds the
  complete chunked body and the beginning of the next request, the body is read correctly and
  the bytes behind it are thrown away with it.
\<close>

theorem chunked_body_drops_pipeline:
  assumes "list_all (\<lambda>c. length c \<le> MAX_CHUNK_SIZE) cs" and "length (concat cs) \<le> max_body_size cfg"
  shows "read_chunked_body cfg t (write_final_chunk (chunks_wire cs) @ next_request) = (Ok (Fixed (concat cs)), t, [])"
proof -
  have "decode_chunked (write_final_chunk (chunks_wire cs) @ next_request) = Ok (concat cs)"
    using decode_chunks [OF assms(1), of "CRLF @ next_request" "[]"]
    by (simp add: decode_chunked_def write_final_chunk_def)
  then show ?thesis
    using assms(2) terminator_found [of "chunks_wire cs" next_request]
    by (subst read_chunked_body.simps) simp
qed

theorem chunked_body_drops_pipeline_witness:
  "\<exists>t. read_chunked_body conn_config_default t
     (write_final_chunk (chunks_wire [ascii ''hi'']) @ wire_request (sample_head, ascii ''hello'')) = (Ok (Fixed (ascii ''hi'')), t, [])"
  using chunked_body_drops_pipeline [of "[ascii ''hi'']" conn_config_default]
  by (simp add: MAX_CHUNK_SIZE_def conn_config_default_def)

text \<open>
  A correct chunked body is refused when its data holds the bytes of the terminator. If what
  has arrived so far is an incomplete body in which \<^verbatim>\<open>0\r\n\r\n\<close> occurs, the server does not
  wait for the rest: it decodes, finds the body incomplete and answers 400.
\<close>

theorem chunked_data_mistaken_for_terminator:
  assumes "list_all (\<lambda>c. length c \<le> MAX_CHUNK_SIZE) cs" and "n < length (chunks_wire cs) + 3"
    and "has_chunked_terminator (take n (write_final_chunk (chunks_wire cs)))"
  shows "read_chunked_body cfg t (take n (write_final_chunk (chunks_wire cs)))
    = (Err (), send_error t 400 ''bad chunked encoding'', take n (write_final_chunk (chunks_wire cs)))"
proof -
  have "take n (write_final_chunk (chunks_wire cs)) = take n (chunks_wire cs @ ascii ''0'' @ CRLF)"
    using assms(2) by (simp add: write_final_chunk_def CRLF_def) (simp add: take_Cons')
  then have "decode_chunked (take n (write_final_chunk (chunks_wire cs))) = Err Incomplete"
    using decode_chunks_cut [OF assms(1,2), of "[]"] by (simp add: decode_chunked_def)
  then show ?thesis
    using assms(3) by (subst read_chunked_body.simps) simp
qed

theorem chunked_data_mistaken_for_terminator_witness:
  "\<exists>buf. fst (read_chunked_body conn_config_default \<lparr>rx = [], wr = [], tx = []\<rparr> buf) = Err ()
     \<and> buf = take 9 (write_final_chunk (chunks_wire [ascii ''a0'' @ CRLF @ CRLF @ ascii ''b'']))"
proof -
  let ?cs = "[ascii ''a0'' @ CRLF @ CRLF @ ascii ''b'']"
  have "has_chunked_terminator (take 9 (write_final_chunk (chunks_wire ?cs)))"
    "9 < length (chunks_wire ?cs) + 3" by code_simp+
  moreover have "list_all (\<lambda>c. length c \<le> MAX_CHUNK_SIZE) ?cs" by (simp add: MAX_CHUNK_SIZE_def CRLF_def)
  ultimately show ?thesis
    using chunked_data_mistaken_for_terminator [of ?cs 9] by simp
qed

end
