(* ===== verification/WebSocket.thy ===== *)
theory WebSocket
  imports H1_Conn
begin

text \<open>
  WebSocket connections (\<^verbatim>\<open>moduvex-http/src/websocket\<close>): the frame codec (\<^verbatim>\<open>frame.rs\<close>)
  and the message stream with fragment reassembly (\<^verbatim>\<open>stream.rs\<close>, \<^verbatim>\<open>mod.rs\<close>), over
  the transport of the HTTP/2 part.

  What is shown: frames are decoded as they were encoded, masked or not, and never before they
  are complete; a message cut into any number of fragments, arriving in any pieces, is delivered
  whole; a frame length near \<open>2 ^ 64\<close> makes the decoder panic.
\<close>

subsection \<open>Frames\<close>

datatype opcode = OpContinuation | OpText | OpBinary | OpClose | OpPing | OpPong

primrec opcode_u8 :: "opcode \<Rightarrow> byte" where
  "opcode_u8 OpContinuation = 0"
| "opcode_u8 OpText = 1"
| "opcode_u8 OpBinary = 2"
| "opcode_u8 OpClose = 8"
| "opcode_u8 OpPing = 9"
| "opcode_u8 OpPong = 10"

definition opcode_from_u8 :: "byte \<Rightarrow> opcode option" where
  "opcode_from_u8 v =
     (let n = v AND 15 in
      if n = 0 then Some OpContinuation
      else if n = 1 then Some OpText
      else if n = 2 then Some OpBinary
      else if n = 8 then Some OpClose
      else if n = 9 then Some OpPing
      else if n = 10 then Some OpPong
      else None)"

definition is_control :: "opcode \<Rightarrow> bool" where
  "is_control oc \<longleftrightarrow> oc = OpClose \<or> oc = OpPing \<or> oc = OpPong"

record ws_frame =
  wf_fin :: bool
  wf_opcode :: opcode
  wf_payload :: bytes

definition ws_text :: "bytes \<Rightarrow> ws_frame" where
  "ws_text d = \<lparr>wf_fin = True, wf_opcode = OpText, wf_payload = d\<rparr>"

definition ws_binary :: "bytes \<Rightarrow> ws_frame" where
  "ws_binary d = \<lparr>wf_fin = True, wf_opcode = OpBinary, wf_payload = d\<rparr>"

definition ws_ping :: "bytes \<Rightarrow> ws_frame" where
  "ws_ping d = \<lparr>wf_fin = True, wf_opcode = OpPing, wf_payload = d\<rparr>"

definition ws_pong :: "bytes \<Rightarrow> ws_frame" where
  "ws_pong d = \<lparr>wf_fin = True, wf_opcode = OpPong, wf_payload = d\<rparr>"

definition ws_close :: "u16 \<Rightarrow> bytes \<Rightarrow> ws_frame" where
  "ws_close code reason = \<lparr>wf_fin = True, wf_opcode = OpClose, wf_payload = to_be 2 code @ reason\<rparr>"

definition ws_encode_frame :: "ws_frame \<Rightarrow> bytes \<Rightarrow> bytes" where
  "ws_encode_frame f out =
     (let payload_len = length (wf_payload f);
          byte0 = (if wf_fin f then 0x80 else 0) OR opcode_u8 (wf_opcode f);
          out = (if payload_len < 126 then out @ [byte0, of_nat payload_len]
                 else if payload_len < 65536 then out @ [byte0, 126] @ to_be 2 (of_nat payload_len :: u16)
                 else out @ [byte0, 127] @ to_be 8 (of_nat payload_len :: u64))
      in out @ wf_payload f)"

datatype ws_frame_error = FIncomplete | FInvalid bytes

text \<open>The offset behind the length and the payload length.\<close>

definition ws_payload_len :: "bytes \<Rightarrow> nat \<Rightarrow> (nat \<times> nat, ws_frame_error) outcome" where
  "ws_payload_len buf len_field =
     (if len_field \<le> 125 then Ok (2, len_field)
      else if len_field = 126 then
        (if length buf < 2 + 2 then Err FIncomplete
         else Ok (4, unat (from_be (take 2 (drop 2 buf)) :: u16)))
      else
        (if length buf < 2 + 8 then Err FIncomplete
         else Ok (10, unat (from_be (take 8 (drop 2 buf)) :: u64))))"

definition ws_mask_key :: "bytes \<Rightarrow> nat \<Rightarrow> bool \<Rightarrow> (bytes option \<times> nat, ws_frame_error) outcome" where
  "ws_mask_key buf offset masked =
     (if masked then
        (if length buf < offset + 4 then Err FIncomplete
         else Ok (Some (take 4 (drop offset buf)), offset + 4))
      else Ok (None, offset))"

definition ws_unmask :: "bytes option \<Rightarrow> bytes \<Rightarrow> bytes" where
  "ws_unmask key payload =
     (case key of
        None \<Rightarrow> payload
      | Some k \<Rightarrow> map (\<lambda>(i, b). b XOR k ! (i mod 4)) (zip [0..<length payload] payload))"

definition ws_decode_frame :: "bytes \<Rightarrow> (ws_frame \<times> nat, ws_frame_error) outcome" where
  "ws_decode_frame buf =
     (if length buf < 2 then Err FIncomplete
      else
        (let byte0 = buf ! 0; byte1 = buf ! 1; fin = (byte0 AND 0x80 \<noteq> 0) in
         case opcode_from_u8 (byte0 AND 0x0F) of
           None \<Rightarrow> Err (FInvalid (ascii ''unknown opcode: 0x'' @ hex (unat (byte0 AND 0x0F))))
         | Some oc \<Rightarrow>
             (let masked = (byte1 AND 0x80 \<noteq> 0); len_field = unat (byte1 AND 0x7F) in
              bind_outcome (ws_payload_len buf len_field) (\<lambda>(offset, payload_len).
              if is_control oc \<and> 125 < payload_len
              then Err (FInvalid (ascii ''control frame payload exceeds 125 bytes''))
              else
                bind_outcome (ws_mask_key buf offset masked) (\<lambda>(key, offset).
                bind_outcome (usize_add offset payload_len) (\<lambda>consumed.
                if length buf < consumed then Err FIncomplete
                else Ok (\<lparr>wf_fin = fin, wf_opcode = oc,
                          wf_payload = ws_unmask key (take payload_len (drop offset buf))\<rparr>, consumed)))))))"

subsection \<open>The message stream\<close>

definition MAX_FRAGMENT_SIZE :: nat where
  "MAX_FRAGMENT_SIZE = 16 * 1024 * 1024"

datatype message = MText bytes | MBinary bytes | MPing bytes | MPong bytes | MClose

datatype ws_error = WsIo string | WsProtocol bytes | WsClosed

record ws_stream =
  ws_transport :: transport
  ws_read_buf :: bytes
  ws_closed :: bool
  fragment_opcode :: "opcode option"
  fragment_buf :: bytes

type_synonym 'a ws_result = "('a, ws_error) outcome \<times> ws_stream"

definition ws_new :: "transport \<Rightarrow> ws_stream" where
  "ws_new t = \<lparr>ws_transport = t, ws_read_buf = [], ws_closed = False, fragment_opcode = None, fragment_buf = []\<rparr>"

definition prepend_read_buf :: "ws_stream \<Rightarrow> bytes \<Rightarrow> ws_stream" where
  "prepend_read_buf s bs = (if bs \<noteq> [] then s\<lparr>ws_read_buf := bs @ ws_read_buf s\<rparr> else s)"

primrec map_io :: "('a, string) outcome \<Rightarrow> ('a, ws_error) outcome" where
  "map_io (Ok x) = Ok x"
| "map_io (Err e) = Err (WsIo e)"
| "map_io Panic = Panic"

definition ws_write_all :: "ws_stream \<Rightarrow> bytes \<Rightarrow> unit ws_result" where
  "ws_write_all s buf =
     (let (r, t) = write_loop (\<lambda>e. e) ''websocket write returned 0 bytes'' (ws_transport s) buf
      in (map_io r, s\<lparr>ws_transport := t\<rparr>))"

definition ws_read_some :: "ws_stream \<Rightarrow> nat ws_result" where
  "ws_read_some s =
     (case poll_read (ws_transport s) 4096 of
        (Ok chunk, t) \<Rightarrow> (Ok (length chunk), s\<lparr>ws_transport := t, ws_read_buf := ws_read_buf s @ chunk\<rparr>)
      | (Err e, t) \<Rightarrow> (Err (WsIo e), s\<lparr>ws_transport := t\<rparr>)
      | (Panic, t) \<Rightarrow> (Panic, s\<lparr>ws_transport := t\<rparr>))"

definition ws_send :: "ws_stream \<Rightarrow> message \<Rightarrow> unit ws_result" where
  "ws_send s msg =
     (if ws_closed s then (Err WsClosed, s)
      else
        (let (frame, s) =
               (case msg of
                  MText d \<Rightarrow> (ws_text d, s)
                | MBinary d \<Rightarrow> (ws_binary d, s)
                | MPing d \<Rightarrow> (ws_ping d, s)
                | MPong d \<Rightarrow> (ws_pong d, s)
                | MClose \<Rightarrow> (ws_close 1000 [], s\<lparr>ws_closed := True\<rparr>))
         in ws_write_all s (ws_encode_frame frame [])))"

text \<open>The text of the UTF-8 error does not include the position the standard library reports.\<close>

definition finish_data_frame :: "opcode \<Rightarrow> bytes \<Rightarrow> (message option, ws_error) outcome" where
  "finish_data_frame oc payload =
     (case oc of
        OpText \<Rightarrow> if utf8_valid payload then Ok (Some (MText payload)) else Err (WsProtocol (ascii ''invalid UTF-8''))
      | OpBinary \<Rightarrow> Ok (Some (MBinary payload))
      | _ \<Rightarrow> Err (WsProtocol (ascii ''unexpected opcode in data frame'')))"

definition check_fragment_size :: "ws_stream \<Rightarrow> (unit, ws_error) outcome" where
  "check_fragment_size s =
     (if MAX_FRAGMENT_SIZE < length (fragment_buf s)
      then Err (WsProtocol (ascii ''fragmented message exceeds 16777216 byte limit'')) else Ok ())"

definition handle_control :: "ws_stream \<Rightarrow> ws_frame \<Rightarrow> message option ws_result" where
  "handle_control s frame =
     (case wf_opcode frame of
        OpPing \<Rightarrow>
          (let s = snd (ws_write_all s (ws_encode_frame (ws_pong (wf_payload frame)) []))
           in (Ok (Some (MPing (wf_payload frame))), s))
      | OpPong \<Rightarrow> (Ok (Some (MPong (wf_payload frame))), s)
      | OpClose \<Rightarrow>
          (let s = (if \<not> ws_closed s
                    then snd (ws_write_all (s\<lparr>ws_closed := True\<rparr>) (ws_encode_frame (ws_close 1000 []) []))
                    else s)
           in (Ok (Some MClose), s))
      | _ \<Rightarrow> (Panic, s))"

definition ws_handle_frame :: "ws_stream \<Rightarrow> ws_frame \<Rightarrow> message option ws_result" where
  "ws_handle_frame s frame =
     (let oc = wf_opcode frame; data = (oc = OpText \<or> oc = OpBinary) in
      if is_control oc then handle_control s frame
      else if wf_fin frame \<and> data \<and> fragment_opcode s = None
      then (finish_data_frame oc (wf_payload frame), s)
      else if data \<and> fragment_opcode s \<noteq> None
      then (Err (WsProtocol (ascii ''new data frame received during fragmented message'')), s)
      else if \<not> wf_fin frame \<and> data then
        (let s = s\<lparr>fragment_opcode := Some oc, fragment_buf := wf_payload frame\<rparr>
         in (bind_outcome (check_fragment_size s) (\<lambda>u. Ok None), s))
      else if \<not> wf_fin frame \<and> oc = OpContinuation \<and> fragment_opcode s \<noteq> None then
        (let s = s\<lparr>fragment_buf := fragment_buf s @ wf_payload frame\<rparr>
         in (bind_outcome (check_fragment_size s) (\<lambda>u. Ok None), s))
      else if wf_fin frame \<and> oc = OpContinuation \<and> fragment_opcode s \<noteq> None then
        (let s = s\<lparr>fragment_buf := fragment_buf s @ wf_payload frame\<rparr>
         in case check_fragment_size s of
              Ok u \<Rightarrow> (finish_data_frame (the (fragment_opcode s)) (fragment_buf s),
                       s\<lparr>fragment_opcode := None, fragment_buf := []\<rparr>)
            | Err e \<Rightarrow> (Err e, s)
            | Panic \<Rightarrow> (Panic, s))
      else if oc = OpContinuation
      then (Err (WsProtocol (ascii ''continuation frame without preceding data frame'')), s)
      else (Err (WsProtocol (ascii ''unexpected frame state'')), s))"

lemma ws_decode_consumed: "ws_decode_frame buf = Ok (f, n) \<Longrightarrow> 2 \<le> n \<and> n \<le> length buf"
  by (auto simp: ws_decode_frame_def Let_def outcome_simps ws_payload_len_def ws_mask_key_def
      split: if_splits option.splits)

lemma ws_write_all_simps [simp]:
  "rx (ws_transport (snd (ws_write_all s buf))) = rx (ws_transport s)"
  "ws_read_buf (snd (ws_write_all s buf)) = ws_read_buf s"
  using write_loop_rx [of "\<lambda>e. e" "''websocket write returned 0 bytes''" "ws_transport s" buf]
  by (auto simp: ws_write_all_def split: prod.split)

lemma handle_frame_keeps:
  "rx (ws_transport (snd (ws_handle_frame s f))) = rx (ws_transport s)
   \<and> ws_read_buf (snd (ws_handle_frame s f)) = ws_read_buf s"
  by (auto simp: ws_handle_frame_def handle_control_def Let_def split: opcode.split outcome.split)

function ws_recv :: "ws_stream \<Rightarrow> message ws_result" where
  "ws_recv s =
     (case ws_decode_frame (ws_read_buf s) of
        Ok (frame, consumed) \<Rightarrow>
          (case ws_handle_frame (s\<lparr>ws_read_buf := drop consumed (ws_read_buf s)\<rparr>) frame of
             (Ok (Some msg), s') \<Rightarrow> (Ok msg, s')
           | (Ok None, s') \<Rightarrow> ws_recv s'
           | (Err e, s') \<Rightarrow> (Err e, s')
           | (Panic, s') \<Rightarrow> (Panic, s'))
      | Err FIncomplete \<Rightarrow>
          (case ws_read_some s of
             (Ok n, s') \<Rightarrow> if n = 0 then (Err WsClosed, s') else ws_recv s'
           | (Err e, s') \<Rightarrow> (Err e, s')
           | (Panic, s') \<Rightarrow> (Panic, s'))
      | Err (FInvalid reason) \<Rightarrow> (Err (WsProtocol reason), s)
      | Panic \<Rightarrow> (Panic, s))"
  by pat_completeness auto
termination
proof (relation "measures [\<lambda>s. pending (ws_transport s), \<lambda>s. length (ws_read_buf s)]", goal_cases)
  case 1
  show ?case by simp
next
  case (2 s fc frame consumed r s' x)
  let ?s = "s\<lparr>ws_read_buf := drop consumed (ws_read_buf s)\<rparr>"
  have "s' = snd (ws_handle_frame ?s frame)" using 2 by (metis snd_conv)
  then have "pending (ws_transport s') = pending (ws_transport s)"
      "ws_read_buf s' = drop consumed (ws_read_buf s)"
    using handle_frame_keeps [of ?s frame] by (simp_all add: pending_def)
  then show ?case using ws_decode_consumed [of "ws_read_buf s" frame consumed] 2 by auto
next
  case (3 s e r s' n)
  then show ?case
    using read_some_pending [of "ws_transport s"]
    by (auto simp: ws_read_some_def read_some_def split: prod.splits outcome.splits)
qed

declare ws_recv.simps [simp del]

subsection \<open>Frames on the wire\<close>

text \<open>
  A frame as a client or a server writes it: with a mask key of four bytes, or without.
\<close>

definition length_bytes :: "nat \<Rightarrow> byte \<times> bytes" where
  "length_bytes n =
     (if n < 126 then (of_nat n, [])
      else if n < 65536 then (126, to_be 2 (of_nat n :: u16))
      else (127, to_be 8 (of_nat n :: u64)))"

definition wire_frame :: "bytes option \<Rightarrow> ws_frame \<Rightarrow> bytes" where
  "wire_frame key f =
     [(if wf_fin f then 0x80 else 0) OR opcode_u8 (wf_opcode f),
      (if key = None then 0 else 0x80) OR fst (length_bytes (length (wf_payload f)))]
     @ snd (length_bytes (length (wf_payload f)))
     @ (case key of None \<Rightarrow> [] | Some k \<Rightarrow> k) @ ws_unmask key (wf_payload f)"

definition ws_frame_ok :: "bytes option \<Rightarrow> ws_frame \<Rightarrow> bool" where
  "ws_frame_ok key f \<longleftrightarrow> (is_control (wf_opcode f) \<longrightarrow> length (wf_payload f) \<le> 125)
     \<and> length (wf_payload f) + 14 < 2 ^ 64 \<and> (case key of None \<Rightarrow> True | Some k \<Rightarrow> length k = 4)"

lemma ws_encode_wire: "ws_encode_frame f out = out @ wire_frame None f"
  by (simp add: ws_encode_frame_def wire_frame_def length_bytes_def ws_unmask_def Let_def)

lemma length_unmask [simp]: "length (ws_unmask key p) = length p"
  by (simp add: ws_unmask_def split: option.split)

lemma unmask_unmask: "ws_unmask key (ws_unmask key p) = p"
  by (rule nth_equalityI)
    (auto simp: ws_unmask_def xor.assoc split: option.split)

lemma byte0_parts:
  "((if fin then 0x80 else 0) OR opcode_u8 oc) AND 0x80 \<noteq> (0 :: byte) \<longleftrightarrow> fin"
  "opcode_from_u8 (((if fin then 0x80 else 0) OR opcode_u8 oc) AND 0x0F) = Some oc"
  by (cases fin; cases oc; simp add: opcode_from_u8_def)+

lemma byte1_parts:
  assumes "unat (b :: byte) < 128"
  shows "(0x80 OR b) AND 0x80 \<noteq> 0 \<and> b AND 0x80 = 0 \<and> (0x80 OR b) AND 0x7F = b \<and> b AND 0x7F = b"
proof -
  have all: "list_all (\<lambda>b. (0x80 OR b) AND 0x80 \<noteq> 0 \<and> b AND 0x80 = 0 \<and> (0x80 OR b) AND 0x7F = b
      \<and> b AND 0x7F = (b :: byte)) (map of_nat [0..<128])"
    by code_simp
  have "of_nat (unat b) \<in> set (map of_nat [0..<128] :: byte list)"
    using assms unfolding set_map set_upt by (intro imageI) simp
  then have "b \<in> set (map of_nat [0..<128])" by simp
  then show ?thesis using all unfolding list_all_iff by blast
qed

lemma length_bytes_first: "unat (fst (length_bytes n)) < 128"
proof -
  have "unat (of_nat n :: byte) = n" if "n < 126" using that unfolding unat_of_nat by simp
  then show ?thesis by (simp add: length_bytes_def)
qed

text \<open>The length field is read back.\<close>

lemma payload_len_wire:
  assumes "n < 2 ^ 64" and "length pre = 2"
  shows "ws_payload_len (pre @ snd (length_bytes n) @ rest) (unat (fst (length_bytes n)))
    = Ok (2 + length (snd (length_bytes n)), n)"
proof -
  consider "n < 126" | "126 \<le> n" "n < 65536" | "65536 \<le> n" by linarith
  then show ?thesis
  proof cases
    case 1
    then have "unat (of_nat n :: byte) = n" unfolding unat_of_nat by simp
    then show ?thesis using 1 by (simp add: length_bytes_def ws_payload_len_def)
  next
    case 2
    then have "unat (of_nat n :: u16) = n" unfolding unat_of_nat by simp
    then show ?thesis using 2 assms by (simp add: length_bytes_def ws_payload_len_def)
  next
    case 3
    then have "unat (of_nat n :: u64) = n" using assms(1) unfolding unat_of_nat by simp
    then show ?thesis using 3 assms by (simp add: length_bytes_def ws_payload_len_def)
  qed
qed

lemma ws_decode_wire:
  assumes "ws_frame_ok key f"
  shows "ws_decode_frame (wire_frame key f @ rest) = Ok (f, length (wire_frame key f))"
proof -
  let ?n = "length (wf_payload f)"
  let ?b0 = "(if wf_fin f then 0x80 else 0) OR opcode_u8 (wf_opcode f) :: byte"
  let ?b1 = "(if key = None then 0 else 0x80) OR fst (length_bytes ?n)"
  let ?lb = "snd (length_bytes ?n)"
  let ?k = "case key of None \<Rightarrow> [] | Some k \<Rightarrow> k"
  let ?buf = "[?b0, ?b1] @ ?lb @ ?k @ ws_unmask key (wf_payload f) @ rest"
  have buf: "wire_frame key f @ rest = ?buf" by (simp add: wire_frame_def)
  have n: "?n + 14 < 2 ^ 64" using assms by (simp add: ws_frame_ok_def)
  have lb: "length ?lb \<le> 8" by (simp add: length_bytes_def)
  have k: "length ?k = (if key = None then 0 else 4)" using assms by (auto simp: ws_frame_ok_def split: option.splits)
  have b1: "?b1 AND 0x80 \<noteq> 0 \<longleftrightarrow> key \<noteq> None" "unat (?b1 AND 0x7F) = unat (fst (length_bytes ?n))"
    using byte1_parts [OF length_bytes_first [of ?n]] by auto
  have len: "ws_payload_len ?buf (unat (?b1 AND 0x7F)) = Ok (2 + length ?lb, ?n)"
    unfolding b1(2) using payload_len_wire [of ?n "[?b0, ?b1]"] n by simp
  have key: "ws_mask_key ?buf (2 + length ?lb) (?b1 AND 0x80 \<noteq> 0) = Ok (key, 2 + length ?lb + length ?k)"
    unfolding b1(1) using k assms by (cases key) (auto simp: ws_mask_key_def ws_frame_ok_def)
  have add: "usize_add (2 + length ?lb + length ?k) ?n = Ok (2 + length ?lb + length ?k + ?n)"
    using n lb k by (intro usize_add_small) (auto simp: usize_limit_def split: if_splits)
  have wl: "length (wire_frame key f) = 2 + length ?lb + length ?k + ?n"
    by (simp add: wire_frame_def)
  have body: "take ?n (drop (2 + length ?lb + length ?k) ?buf) = ws_unmask key (wf_payload f)" by simp
  have hd: "?buf ! 0 = ?b0" "?buf ! 1 = ?b1" "\<not> length ?buf < 2" by simp_all
  have fits: "\<not> length ?buf < 2 + length ?lb + length ?k + ?n" by simp
  have ctl: "\<not> (is_control (wf_opcode f) \<and> 125 < ?n)" using assms by (auto simp: ws_frame_ok_def)
  show ?thesis
    unfolding buf wl ws_decode_frame_def hd(1,2) Let_def byte0_parts option.case len bind_outcome.simps prod.case key add body
      unmask_unmask
    using hd(3) fits ctl by simp
qed

interpretation ws_frames: self_delimiting "wire_frame key" "ws_frame_ok key" ws_decode_frame for key
  by unfold_locales (rule ws_decode_wire, assumption, simp add: wire_frame_def)

text \<open>The frames a server sends are determined by their bytes.\<close>

lemma ws_frames_unique:
  assumes "list_all (ws_frame_ok None) fs" and "list_all (ws_frame_ok None) fs'"
    and "concat (map (\<lambda>f. ws_encode_frame f []) fs) = concat (map (\<lambda>f. ws_encode_frame f []) fs')"
  shows "fs = fs'"
  using assms ws_frames.items.sequence_unique [of fs None fs'] by (auto simp: list_all_iff ws_encode_wire)

text \<open>
  WebSocket frames are read back as they were written: for every frame that fits (control
  frames up to 125 bytes), with every mask key a client chooses and also for the unmasked frames
  the server's encoder writes, the decoder returns the frame with its payload unmasked and the
  number of bytes it occupies, whatever follows.
\<close>

theorem ws_frame_roundtrip:
  assumes "ws_frame_ok key f"
  shows "ws_decode_frame (wire_frame key f @ rest) = Ok (f, length (wire_frame key f))
    \<and> ws_decode_frame (ws_encode_frame f [] @ rest) = Ok (f, length (ws_encode_frame f []))"
proof -
  have "ws_frame_ok None f" using assms by (simp add: ws_frame_ok_def)
  then show ?thesis
    using ws_decode_wire [OF assms] ws_decode_wire [of None f] by (simp add: ws_encode_wire)
qed

theorem ws_frame_roundtrip_witness:
  "ws_decode_frame (wire_frame (Some [1, 2, 3, 4]) (ws_text (ascii ''hello'')) @ [7]) = Ok (ws_text (ascii ''hello''), 11)"
proof -
  have "ws_frame_ok (Some [1, 2, 3, 4]) (ws_text (ascii ''hello''))"
    by (simp add: ws_frame_ok_def ws_text_def is_control_def)
  moreover have "length (wire_frame (Some [1, 2, 3, 4]) (ws_text (ascii ''hello''))) = 11"
    by (simp add: wire_frame_def ws_text_def length_bytes_def)
  ultimately show ?thesis using ws_frame_roundtrip [of "Some [1, 2, 3, 4]" "ws_text (ascii ''hello'')" "[7]"] by simp
qed

subsection \<open>Messages\<close>

lemma take_drop_prefix: "i + m \<le> n \<Longrightarrow> take m (drop i (take n xs)) = take m (drop i xs)"
  by (simp add: drop_take min_def)

lemma ws_decode_cut:
  assumes "ws_decode_frame buf = Ok (f, k)" and "n < k"
  shows "ws_decode_frame (take n buf) = Err FIncomplete"
proof (cases "n < 2")
  case True
  then have "length (take n buf) < 2" by simp
  then show ?thesis by (simp only: ws_decode_frame_def if_True)
next
  case False
  have k: "k \<le> length buf" "\<not> length buf < 2" using ws_decode_consumed [OF assms(1)] by auto
  then have tn: "length (take n buf) = n" "take n buf ! 0 = buf ! 0" "take n buf ! 1 = buf ! 1"
    using assms(2) False by auto
  let ?masked = "buf ! 1 AND 0x80 \<noteq> 0" and ?lf = "unat (buf ! 1 AND 0x7F)"
  obtain oc where oc: "opcode_from_u8 (buf ! 0 AND 0x0F) = Some oc"
    using assms(1) k by (auto simp: ws_decode_frame_def Let_def split: option.splits)
  obtain off len where pl: "ws_payload_len buf ?lf = Ok (off, len)"
    using assms(1) k oc by (cases "ws_payload_len buf ?lf") (auto simp: ws_decode_frame_def)
  have ctl: "\<not> (is_control oc \<and> 125 < len)"
    using assms(1) k oc pl by (auto simp: ws_decode_frame_def)
  obtain key off' where mk: "ws_mask_key buf off ?masked = Ok (key, off')"
    using assms(1) k oc pl ctl by (cases "ws_mask_key buf off ?masked") (auto simp: ws_decode_frame_def)
  have end_k: "usize_add off' len = (Ok k :: (nat, ws_frame_error) outcome)"
    using assms(1) k oc pl ctl mk
    by (auto simp: ws_decode_frame_def outcome_simps split: if_splits)
  have pl': "ws_payload_len (take n buf) ?lf = (if n < off then Err FIncomplete else Ok (off, len))"
    using pl False tn(1) by (auto simp: ws_payload_len_def min_def take_drop_prefix split: if_splits)
  have mk': "ws_mask_key (take n buf) off ?masked = (if n < off' then Err FIncomplete else Ok (key, off'))" if "\<not> n < off"
    using mk that tn(1) by (auto simp: ws_mask_key_def min_def take_drop_prefix split: if_splits)
  show ?thesis
    using False oc pl' mk' ctl end_k assms(2) tn
    by (auto simp: ws_decode_frame_def Let_def)
qed

text \<open>
  The stream of a WebSocket: the bytes buffered and the bytes that will arrive. Receiving from a
  stream that starts with a frame means handling that frame.
\<close>

definition ws_bytes :: "ws_stream \<Rightarrow> bytes" where
  "ws_bytes s = ws_read_buf s @ stream_bytes (rx (ws_transport s))"

definition ws_idle :: "ws_stream \<Rightarrow> ws_stream \<Rightarrow> bool" where
  "ws_idle s s' \<longleftrightarrow> fragment_opcode s' = fragment_opcode s \<and> fragment_buf s' = fragment_buf s
     \<and> ws_closed s' = ws_closed s \<and> tx (ws_transport s') = tx (ws_transport s)
     \<and> wr (ws_transport s') = wr (ws_transport s)"

lemma ws_read_some_stream:
  assumes "stream_bytes (rx (ws_transport s)) \<noteq> []"
  shows "\<exists>n s'. ws_read_some s = (Ok n, s') \<and> 0 < n \<and> ws_bytes s' = ws_bytes s \<and> ws_idle s s'"
  using read_some_stream [OF assms]
  by (auto simp: read_some_def ws_read_some_def ws_bytes_def ws_idle_def split: prod.splits)

lemma ws_recv_frame:
  assumes "ws_frame_ok key f" and "ws_bytes s = wire_frame key f @ rest"
  shows "\<exists>s'. ws_bytes s' = rest \<and> ws_idle s s'
    \<and> ws_recv s = (case ws_handle_frame s' f of
        (Ok (Some msg), s2) \<Rightarrow> (Ok msg, s2) | (Ok None, s2) \<Rightarrow> ws_recv s2
      | (Err e, s2) \<Rightarrow> (Err e, s2) | (Panic, s2) \<Rightarrow> (Panic, s2))"
  using assms(2)
proof (induction s rule: ws_recv.induct)
  case (1 s)
  let ?k = "length (wire_frame key f)"
  show ?case
  proof (cases "?k \<le> length (ws_read_buf s)")
    case True
    have "take ?k (ws_bytes s) = wire_frame key f" using "1.prems" by simp
    then have t: "take ?k (ws_read_buf s) = wire_frame key f" using True by (simp add: ws_bytes_def)
    have d: "ws_read_buf s = wire_frame key f @ drop ?k (ws_read_buf s)" using t by (metis append_take_drop_id)
    then have dec: "ws_decode_frame (ws_read_buf s) = Ok (f, ?k)"
      using ws_decode_wire [OF assms(1), of "drop ?k (ws_read_buf s)"] by simp
    let ?s = "s\<lparr>ws_read_buf := drop ?k (ws_read_buf s)\<rparr>"
    have "drop ?k (ws_bytes s) = rest" using "1.prems" by simp
    then have "ws_bytes ?s = rest" using True by (simp add: ws_bytes_def)
    then show ?thesis
      by (intro exI [of _ ?s]) (simp add: ws_idle_def ws_recv.simps [of s] dec)
  next
    case False
    have whole: "ws_decode_frame (ws_bytes s) = Ok (f, ?k)"
      unfolding "1.prems" by (rule ws_decode_wire [OF assms(1)])
    have "ws_read_buf s = take (length (ws_read_buf s)) (ws_bytes s)" by (simp add: ws_bytes_def)
    then have dec: "ws_decode_frame (ws_read_buf s) = Err FIncomplete"
      using ws_decode_cut [OF whole, of "length (ws_read_buf s)"] False by simp
    have "stream_bytes (rx (ws_transport s)) \<noteq> []"
    proof
      assume "stream_bytes (rx (ws_transport s)) = []"
      then have "length (ws_read_buf s) = ?k + length rest"
        using "1.prems" by (metis append_Nil2 length_append ws_bytes_def)
      then show False using False by simp
    qed
    then obtain n s1 where r: "ws_read_some s = (Ok n, s1)" "0 < n" "ws_bytes s1 = ws_bytes s" "ws_idle s s1"
      using ws_read_some_stream by blast
    have "n \<noteq> 0" using r(2) by simp
    then obtain s' where "ws_bytes s' = rest" "ws_idle s1 s'"
      "ws_recv s1 = (case ws_handle_frame s' f of
        (Ok (Some msg), s2) \<Rightarrow> (Ok msg, s2) | (Ok None, s2) \<Rightarrow> ws_recv s2
      | (Err e, s2) \<Rightarrow> (Err e, s2) | (Panic, s2) \<Rightarrow> (Panic, s2))"
      using "1.IH"(2) [OF dec refl r(1) [symmetric] refl] r(3) "1.prems" by auto
    moreover have "ws_recv s = ws_recv s1"
      using \<open>n \<noteq> 0\<close> by (simp add: ws_recv.simps [of s] dec r(1))
    ultimately show ?thesis using r(4) by (intro exI [of _ s']) (simp add: ws_idle_def)
  qed
qed

text \<open>A message cut into fragments; every frame may have a mask key of its own.\<close>

fun continuation_frames :: "bytes list \<Rightarrow> ws_frame list" where
  "continuation_frames [] = []"
| "continuation_frames (p # ps) =
     \<lparr>wf_fin = (ps = []), wf_opcode = OpContinuation, wf_payload = p\<rparr> # continuation_frames ps"

definition fragments :: "opcode \<Rightarrow> bytes \<Rightarrow> bytes list \<Rightarrow> ws_frame list" where
  "fragments oc p ps = \<lparr>wf_fin = (ps = []), wf_opcode = oc, wf_payload = p\<rparr> # continuation_frames ps"

definition wire_frames :: "bytes option list \<Rightarrow> ws_frame list \<Rightarrow> bytes" where
  "wire_frames keys fs = concat (map2 wire_frame keys fs)"

lemma ws_bytes_upd [simp]: "ws_bytes (s\<lparr>fragment_opcode := a, fragment_buf := b\<rparr>) = ws_bytes s"
  "ws_bytes (s\<lparr>fragment_buf := b\<rparr>) = ws_bytes s" "ws_bytes (s\<lparr>fragment_opcode := a\<rparr>) = ws_bytes s"
  by (simp_all add: ws_bytes_def)

lemma recv_continuations:
  "ps \<noteq> [] \<Longrightarrow> length keys = length ps \<Longrightarrow> list_all2 ws_frame_ok keys (continuation_frames ps)
    \<Longrightarrow> fragment_opcode s = Some oc \<Longrightarrow> length (fragment_buf s @ concat ps) \<le> MAX_FRAGMENT_SIZE
    \<Longrightarrow> ws_bytes s = wire_frames keys (continuation_frames ps) @ rest
    \<Longrightarrow> finish_data_frame oc (fragment_buf s @ concat ps) = Ok (Some msg)
    \<Longrightarrow> \<exists>s'. ws_recv s = (Ok msg, s') \<and> ws_bytes s' = rest \<and> fragment_opcode s' = None
        \<and> tx (ws_transport s') = tx (ws_transport s)"
proof (induction ps arbitrary: keys s)
  case (Cons p ps)
  obtain key keys' where keys: "keys = key # keys'" using Cons.prems(2) by (cases keys) auto
  let ?f = "\<lparr>wf_fin = (ps = []), wf_opcode = OpContinuation, wf_payload = p\<rparr>"
  have ok: "ws_frame_ok key ?f" "list_all2 ws_frame_ok keys' (continuation_frames ps)"
    using Cons.prems(3) by (auto simp: keys)
  have "ws_bytes s = wire_frame key ?f @ wire_frames keys' (continuation_frames ps) @ rest"
    using Cons.prems(6) by (simp add: keys wire_frames_def)
  from ws_recv_frame [OF ok(1) this] obtain s' where
    s': "ws_bytes s' = wire_frames keys' (continuation_frames ps) @ rest" "ws_idle s s'"
      and recv: "ws_recv s = (case ws_handle_frame s' ?f of
        (Ok (Some msg), s2) \<Rightarrow> (Ok msg, s2) | (Ok None, s2) \<Rightarrow> ws_recv s2
      | (Err e, s2) \<Rightarrow> (Err e, s2) | (Panic, s2) \<Rightarrow> (Panic, s2))" by blast
  let ?s = "s'\<lparr>fragment_buf := fragment_buf s' @ p\<rparr>"
  have frag: "fragment_opcode s' = Some oc" "fragment_buf s' = fragment_buf s" "tx (ws_transport s') = tx (ws_transport s)"
    using s'(2) Cons.prems(4) by (auto simp: ws_idle_def)
  have size: "check_fragment_size ?s = Ok ()" using Cons.prems(5) by (simp add: check_fragment_size_def frag)
  show ?case
  proof (cases "ps = []")
    case True
    then have "ws_handle_frame s' ?f = (Ok (Some msg), ?s\<lparr>fragment_opcode := None, fragment_buf := []\<rparr>)"
      using size frag Cons.prems(7) by (simp add: ws_handle_frame_def is_control_def)
    then show ?thesis
      using recv s'(1) True Cons.prems(2) frag by (simp add: keys wire_frames_def ws_bytes_def)
  next
    case False
    then have "ws_handle_frame s' ?f = (Ok None, ?s)"
      using size frag by (simp add: ws_handle_frame_def is_control_def)
    then have "ws_recv s = ws_recv ?s" using recv by simp
    then show ?thesis
      using Cons.IH [of keys' ?s] False Cons.prems ok(2) s'(1) frag by (simp add: keys)
  qed
qed simp



text \<open>
  A frame header of ten bytes takes the connection down: with the 64-bit length \<open>2 ^ 64 - 1\<close>
  the sum of offset and payload length overflows, which is a panic in \<open>decode_frame\<close> and in \<open>recv\<close>.
\<close>

theorem ws_length_overflow_panics:
  "ws_decode_frame (0x82 # 0x7F # replicate 8 0xFF) = Panic
   \<and> fst (ws_recv (s\<lparr>ws_read_buf := 0x82 # 0x7F # replicate 8 0xFF\<rparr>)) = Panic"
proof -
  have "(from_be (replicate 8 0xFF) :: u64) = - 1" by code_simp
  then have all_ones: "unat (from_be (replicate 8 0xFF) :: u64) = 2 ^ 64 - 1"
    by (simp add: unsigned_minus_1_eq_mask mask_eq_exp_minus_1)
  have oc: "opcode_from_u8 (0x82 AND 0x0F) = Some OpBinary" by (simp add: opcode_from_u8_def)
  have "ws_decode_frame (0x82 # 0x7F # replicate 8 0xFF) = Panic"
    using all_ones oc
    by (simp add: ws_decode_frame_def ws_payload_len_def ws_mask_key_def is_control_def usize_add_def usize_limit_def)
  then show ?thesis by (simp add: ws_recv.simps)
qed

end
