(* ===== verification/Scheduler.thy ===== *)
theory Scheduler
  imports Prelude
begin

text \<open>
  The run queues of the executor (\<^verbatim>\<open>executor/scheduler.rs\<close>,
  \<^verbatim>\<open>executor/work_stealing.rs\<close>): the ring buffer of a worker with its wrapping
  64-bit counters, the shared injection queue, and the transfers between them. The ring is
  shown to be the bounded deque of its contents across every wrap of the counters; the
  clients (stealing, spilling) are verified against that interface. A queue entry, an
  \<^verbatim>\<open>Arc<TaskHeader>\<close>, is a value of any type here. A locked queue is its content:
  every operation on it runs under its mutex.
\<close>

section \<open>Bounded deques\<close>

text \<open>
  What the owners of a run queue rely on: a push appends unless the queue is full, in which
  case the element comes back; a pop takes the newest element; a drain takes the oldest.
\<close>

locale bounded_deque =
  fixes push :: "'q \<Rightarrow> 'a \<Rightarrow> 'a option \<times> 'q"
    and pop :: "'q \<Rightarrow> 'a option \<times> 'q"
    and drain :: "'q \<Rightarrow> nat \<Rightarrow> 'a list \<times> 'q"
    and contents :: "'q \<Rightarrow> 'a list"
    and invar :: "'q \<Rightarrow> bool"
    and cap :: nat
  assumes length_contents: "invar q \<Longrightarrow> length (contents q) \<le> cap"
    and push_room: "invar q \<Longrightarrow> length (contents q) < cap \<Longrightarrow>
      fst (push q x) = None \<and> invar (snd (push q x)) \<and> contents (snd (push q x)) = contents q @ [x]"
    and push_full: "invar q \<Longrightarrow> length (contents q) = cap \<Longrightarrow> push q x = (Some x, q)"
    and pop_empty: "invar q \<Longrightarrow> contents q = [] \<Longrightarrow> pop q = (None, q)"
    and pop_newest: "invar q \<Longrightarrow> contents q \<noteq> [] \<Longrightarrow>
      fst (pop q) = Some (last (contents q)) \<and> invar (snd (pop q)) \<and>
      contents (snd (pop q)) = butlast (contents q)"
    and drain_oldest: "invar q \<Longrightarrow> n \<le> length (contents q) \<Longrightarrow>
      fst (drain q n) = take n (contents q) \<and> invar (snd (drain q n)) \<and>
      contents (snd (drain q n)) = drop n (contents q)"
begin

lemma push_mset:
  assumes "invar q"
  shows "mset (contents (snd (push q x))) + mset_set (set_option (fst (push q x)))
    = add_mset x (mset (contents q))" and "invar (snd (push q x))"
proof -
  consider "length (contents q) < cap" | "length (contents q) = cap"
    using length_contents [OF assms] by linarith
  then have "mset (contents (snd (push q x))) + mset_set (set_option (fst (push q x)))
      = add_mset x (mset (contents q)) \<and> invar (snd (push q x))"
    by cases (use push_room [OF assms, of x] push_full [OF assms, of x] assms in auto)
  then show "mset (contents (snd (push q x))) + mset_set (set_option (fst (push q x)))
    = add_mset x (mset (contents q))" "invar (snd (push q x))" by blast+
qed

lemma pop_mset:
  assumes "invar q"
  shows "mset_set (set_option (fst (pop q))) + mset (contents (snd (pop q))) = mset (contents q)"
    and "invar (snd (pop q))"
proof -
  have "mset_set (set_option (fst (pop q))) + mset (contents (snd (pop q))) = mset (contents q)
      \<and> invar (snd (pop q))"
  proof (cases "contents q = []")
    case True
    then show ?thesis using pop_empty [OF assms] assms by simp
  next
    case False
    then have "mset (butlast (contents q) @ [last (contents q)]) = mset (contents q)" by simp
    then show ?thesis using pop_newest [OF assms False] by simp
  qed
  then show "mset_set (set_option (fst (pop q))) + mset (contents (snd (pop q))) = mset (contents q)"
    "invar (snd (pop q))" by blast+
qed

text \<open>Pushing a batch keeps what fits, in order, and returns the rest, in order.\<close>

primrec push_all :: "'q \<Rightarrow> 'a list \<Rightarrow> 'a list \<times> 'q" where
  "push_all q [] = ([], q)"
| "push_all q (x # xs) =
     (let (r, q') = push q x; (over, q'') = push_all q' xs
      in ((case r of None \<Rightarrow> over | Some y \<Rightarrow> y # over), q''))"

lemma push_all_correct:
  assumes "invar q"
  shows "invar (snd (push_all q xs))
    \<and> contents (snd (push_all q xs)) = contents q @ take (cap - length (contents q)) xs
    \<and> fst (push_all q xs) = drop (cap - length (contents q)) xs"
  using assms
proof (induction xs arbitrary: q)
  case Nil
  then show ?case by simp
next
  case (Cons x xs)
  consider (room) "length (contents q) < cap" | (full) "length (contents q) = cap"
    using length_contents [OF Cons.prems] by linarith
  then show ?case
  proof cases
    case room
    from push_room [OF Cons.prems this, of x]
    obtain q' where p: "push q x = (None, q')" "invar q'" "contents q' = contents q @ [x]"
      by (metis prod.collapse)
    have "cap - length (contents q) = Suc (cap - length (contents q'))"
      using room p(3) by simp
    then show ?thesis using Cons.IH [OF p(2)] p by (simp add: split_beta)
  next
    case full
    then show ?thesis
      using Cons.IH [OF Cons.prems] push_full [OF Cons.prems full, of x] by (simp add: split_beta)
  qed
qed

end

section \<open>The local queue\<close>

definition CAPACITY :: nat where
  "CAPACITY = 256"

record 'h local_queue =
  lq_buf :: "'h option list"
  lq_head :: u64
  lq_tail :: u64

definition local_queue_new :: "'h local_queue" where
  "local_queue_new = \<lparr>lq_buf = replicate CAPACITY None, lq_head = 0, lq_tail = 0\<rparr>"

definition lq_len :: "'h local_queue \<Rightarrow> nat" where
  "lq_len q = unat (lq_tail q - lq_head q)"

definition lq_is_empty :: "'h local_queue \<Rightarrow> bool" where
  "lq_is_empty q \<longleftrightarrow> lq_len q = 0"

definition lq_is_full :: "'h local_queue \<Rightarrow> bool" where
  "lq_is_full q \<longleftrightarrow> lq_len q = CAPACITY"

definition lq_push :: "'h local_queue \<Rightarrow> 'h \<Rightarrow> 'h option \<times> 'h local_queue" where
  "lq_push q header =
     (if lq_is_full q then (Some header, q)
      else
        let idx = unat (lq_tail q) mod CAPACITY
        in (None, q\<lparr>lq_buf := (lq_buf q)[idx := Some header], lq_tail := lq_tail q + 1\<rparr>))"

definition lq_pop :: "'h local_queue \<Rightarrow> 'h option \<times> 'h local_queue" where
  "lq_pop q =
     (if lq_is_empty q then (None, q)
      else
        let tl' = lq_tail q - 1; idx = unat tl' mod CAPACITY
        in (lq_buf q ! idx, q\<lparr>lq_buf := (lq_buf q)[idx := None], lq_tail := tl'\<rparr>))"

text \<open>\<^verbatim>\<open>drain_front\<close>: the loop runs a number of times fixed before it starts.\<close>

fun lq_drain_loop :: "nat \<Rightarrow> 'h local_queue \<Rightarrow> 'h list \<times> 'h local_queue" where
  "lq_drain_loop 0 q = ([], q)"
| "lq_drain_loop (Suc n) q =
     (let idx = unat (lq_head q) mod CAPACITY;
          q' = q\<lparr>lq_buf := (lq_buf q)[idx := None], lq_head := lq_head q + 1\<rparr>;
          (items, q'') = lq_drain_loop n q'
      in ((case lq_buf q ! idx of Some item \<Rightarrow> item # items | None \<Rightarrow> items), q''))"

definition lq_drain_front :: "'h local_queue \<Rightarrow> nat \<Rightarrow> 'h list \<times> 'h local_queue" where
  "lq_drain_front q n = lq_drain_loop (min n (lq_len q)) q"

section \<open>The global queue\<close>

type_synonym 'h global_queue = "'h list"

definition gq_push_header :: "'h global_queue \<Rightarrow> 'h \<Rightarrow> 'h global_queue" where
  "gq_push_header g header = g @ [header]"

fun gq_pop :: "'h global_queue \<Rightarrow> 'h option \<times> 'h global_queue" where
  "gq_pop [] = (None, [])"
| "gq_pop (h # g) = (Some h, g)"

fun steal_loop :: "nat \<Rightarrow> 'h global_queue \<Rightarrow> 'h local_queue \<Rightarrow> nat \<Rightarrow>
    nat \<times> 'h global_queue \<times> 'h local_queue" where
  "steal_loop 0 g loc stolen = (stolen, g, loc)"
| "steal_loop (Suc n) [] loc stolen = (stolen, [], loc)"
| "steal_loop (Suc n) (h # g) loc stolen =
     (case lq_push loc h of
        (None, loc') \<Rightarrow> steal_loop n g loc' (stolen + 1)
      | (Some _, loc') \<Rightarrow> (stolen, g, loc'))"

definition steal_batch :: "'h global_queue \<Rightarrow> 'h local_queue \<Rightarrow>
    nat \<times> 'h global_queue \<times> 'h local_queue" where
  "steal_batch g loc = steal_loop (min (max (length g div 2) 1) (length g)) g loc 0"

section \<open>Stealing between workers\<close>

type_synonym 'h stealable_queue = "'h local_queue"
type_synonym 'h work_stealing_pool = "'h stealable_queue list"

text \<open>The loop of \<^verbatim>\<open>steal_from\<close>: local first, overflow to the global queue.\<close>

fun spill_loop :: "'h list \<Rightarrow> 'h local_queue \<Rightarrow> 'h global_queue \<Rightarrow> nat \<Rightarrow>
    nat \<times> 'h local_queue \<times> 'h global_queue" where
  "spill_loop [] loc g stolen = (stolen, loc, g)"
| "spill_loop (header # batch) loc g stolen =
     (case lq_push loc header of
        (Some overflow, loc') \<Rightarrow> spill_loop batch loc' (gq_push_header g overflow) (stolen + 1)
      | (None, loc') \<Rightarrow> spill_loop batch loc' g (stolen + 1))"

definition steal_from :: "'h stealable_queue \<Rightarrow> 'h local_queue \<Rightarrow> 'h global_queue \<Rightarrow>
    nat \<times> 'h stealable_queue \<times> 'h local_queue \<times> 'h global_queue" where
  "steal_from src dest_local dest_global =
     (let n = lq_len src div 2
      in if n = 0 then (0, src, dest_local, dest_global)
         else
           let (batch, src') = lq_drain_front src n;
               (stolen, dl, dg) = spill_loop batch dest_local dest_global 0
           in (stolen, src', dl, dg))"

definition add_worker :: "'h work_stealing_pool \<Rightarrow> 'h stealable_queue \<Rightarrow> 'h work_stealing_pool" where
  "add_worker pool queue = pool @ [queue]"

fun steal_scan :: "nat \<Rightarrow> 'h work_stealing_pool \<Rightarrow> nat \<Rightarrow> 'h local_queue \<Rightarrow> 'h global_queue \<Rightarrow>
    nat \<times> 'h work_stealing_pool \<times> 'h local_queue \<times> 'h global_queue" where
  "steal_scan idx [] self_idx dl dg = (0, [], dl, dg)"
| "steal_scan idx (queue # rest) self_idx dl dg =
     (if idx = self_idx then
        (let (n, rest', dl', dg') = steal_scan (Suc idx) rest self_idx dl dg
         in (n, queue # rest', dl', dg'))
      else
        let (n, queue', dl', dg') = steal_from queue dl dg
        in if n > 0 then (n, queue' # rest, dl', dg')
           else
             let (m, rest', dl'', dg'') = steal_scan (Suc idx) rest self_idx dl' dg'
             in (m, queue' # rest', dl'', dg''))"

definition steal_one :: "'h work_stealing_pool \<Rightarrow> nat \<Rightarrow> 'h local_queue \<Rightarrow> 'h global_queue \<Rightarrow>
    nat \<times> 'h work_stealing_pool \<times> 'h local_queue \<times> 'h global_queue" where
  "steal_one pool self_idx dest_local dest_global = steal_scan 0 pool self_idx dest_local dest_global"

section \<open>The ring as a bounded deque\<close>

text \<open>Slot \<open>i\<close> of the window that starts at the head counter.\<close>

definition lq_slot :: "'h local_queue \<Rightarrow> nat \<Rightarrow> nat" where
  "lq_slot q i = (unat (lq_head q) + i) mod CAPACITY"

definition lq_contents :: "'h local_queue \<Rightarrow> 'h list" where
  "lq_contents q = map (\<lambda>i. the (lq_buf q ! lq_slot q i)) [0..<lq_len q]"

text \<open>
  The slots of the window are filled and all others are empty, so the ring keeps no header
  alive that it does not hold.
\<close>

definition lq_inv :: "'h local_queue \<Rightarrow> bool" where
  "lq_inv q \<longleftrightarrow> length (lq_buf q) = CAPACITY \<and> lq_len q \<le> CAPACITY \<and>
     (\<forall>i<CAPACITY. lq_buf q ! lq_slot q i \<noteq> None \<longleftrightarrow> i < lq_len q)"

lemma unat_add_mod_cap: "unat (w + of_nat i :: u64) mod CAPACITY = (unat w + i) mod CAPACITY"
proof -
  have "unat (w + of_nat i :: u64) = (unat w + i) mod 2 ^ 64"
    by (simp add: unat_word_ariths unat_of_nat mod_add_right_eq)
  moreover have "(256 :: nat) dvd 2 ^ 64" by simp
  ultimately show ?thesis by (simp add: CAPACITY_def mod_mod_cancel)
qed

lemma lq_slot_less: "lq_slot q i < CAPACITY"
  by (simp add: lq_slot_def CAPACITY_def)

lemma mod_cap_inj: "i < CAPACITY \<Longrightarrow> j < CAPACITY \<Longrightarrow> (h + i) mod CAPACITY = (h + j) mod CAPACITY \<Longrightarrow> i = j"
proof (induction i j rule: linorder_wlog)
  case (le i j)
  then have "CAPACITY dvd (h + j) - (h + i)"
    by (metis mod_eq_dvd_iff_nat add_le_cancel_left)
  then have "CAPACITY dvd j - i" by simp
  then show ?case using le by (metis diff_is_0_eq dvd_imp_le leD le_neq_implies_less less_imp_diff_less zero_less_diff)
next
  case (sym i j)
  then show ?case by metis
qed

lemma lq_slot_inj: "i < CAPACITY \<Longrightarrow> j < CAPACITY \<Longrightarrow> lq_slot q i = lq_slot q j \<longleftrightarrow> i = j"
  unfolding lq_slot_def using mod_cap_inj by blast

lemma tail_slot: "unat (lq_tail q) mod CAPACITY = lq_slot q (lq_len q)"
proof -
  have "lq_tail q = lq_head q + of_nat (lq_len q)" by (simp add: lq_len_def)
  then show ?thesis unfolding lq_slot_def by (metis unat_add_mod_cap)
qed

lemma length_lq_contents [simp]: "length (lq_contents q) = lq_len q"
  by (simp add: lq_contents_def)

lemma lq_contents_nth: "i < lq_len q \<Longrightarrow> lq_contents q ! i = the (lq_buf q ! lq_slot q i)"
  by (simp add: lq_contents_def)

lemma lq_inv_new: "lq_inv local_queue_new" "lq_contents local_queue_new = []"
  by (simp_all add: lq_inv_def local_queue_new_def lq_len_def lq_contents_def lq_slot_less)

lemma lq_len_cap: "lq_inv q \<Longrightarrow> lq_len q \<le> CAPACITY"
  by (simp add: lq_inv_def)

lemma lq_slot_filled: "lq_inv q \<Longrightarrow> i < CAPACITY \<Longrightarrow> lq_buf q ! lq_slot q i \<noteq> None \<longleftrightarrow> i < lq_len q"
  by (auto simp: lq_inv_def)

lemma lq_push_room:
  assumes inv: "lq_inv q" and room: "lq_len q < CAPACITY"
  shows "fst (lq_push q x) = None \<and> lq_inv (snd (lq_push q x)) \<and>
    lq_contents (snd (lq_push q x)) = lq_contents q @ [x]"
proof -
  let ?s = "lq_slot q (lq_len q)"
  define q' where "q' = q\<lparr>lq_buf := (lq_buf q)[?s := Some x], lq_tail := lq_tail q + 1\<rparr>"
  have p: "lq_push q x = (None, q')"
    using room by (simp add: lq_push_def lq_is_full_def q'_def tail_slot Let_def)
  have lb: "length (lq_buf q) = CAPACITY" using inv by (simp add: lq_inv_def)
  have "lq_len q' = Suc (lq_len q)"
  proof -
    have "lq_tail q' - lq_head q' = (lq_tail q - lq_head q) + 1" by (simp add: q'_def)
    moreover have "unat (lq_tail q - lq_head q) + 1 < 2 ^ 64"
      using room by (simp add: lq_len_def CAPACITY_def)
    ultimately show ?thesis by (simp add: lq_len_def unat_word_ariths)
  qed
  note len = this
  have slot: "lq_slot q' i = lq_slot q i" for i by (simp add: lq_slot_def q'_def)
  have buf: "lq_buf q' ! lq_slot q i = (if i = lq_len q then Some x else lq_buf q ! lq_slot q i)"
    if "i < CAPACITY" for i
    using that room lb lq_slot_inj [of i "lq_len q" q] by (auto simp: q'_def lq_slot_less nth_list_update)
  have "lq_inv q'"
    unfolding lq_inv_def
    using lb room len buf lq_slot_filled [OF inv] by (auto simp: slot less_Suc_eq) (simp_all add: q'_def)
  moreover have "lq_contents q' = lq_contents q @ [x]"
    using room buf by (auto simp: lq_contents_def len slot)
  ultimately show ?thesis using p by simp
qed

lemma lq_pop_newest:
  assumes inv: "lq_inv q" and ne: "lq_len q \<noteq> 0"
  shows "fst (lq_pop q) = Some (last (lq_contents q)) \<and> lq_inv (snd (lq_pop q)) \<and>
    lq_contents (snd (lq_pop q)) = butlast (lq_contents q)"
proof -
  define n where "n = lq_len q - 1"
  have n: "lq_len q = Suc n" "n < CAPACITY" using ne lq_len_cap [OF inv] by (simp_all add: n_def)
  have lb: "length (lq_buf q) = CAPACITY" using inv by (simp add: lq_inv_def)
  have tail: "lq_tail q - 1 = lq_head q + of_nat n"
  proof -
    have "lq_tail q = lq_head q + of_nat (lq_len q)" by (simp add: lq_len_def)
    then have "lq_tail q = lq_head q + of_nat (Suc n)" by (simp only: n(1))
    then show ?thesis by simp
  qed
  have s: "unat (lq_tail q - 1) mod CAPACITY = lq_slot q n"
    unfolding tail lq_slot_def by (rule unat_add_mod_cap)
  define q' where "q' = q\<lparr>lq_buf := (lq_buf q)[lq_slot q n := None], lq_tail := lq_tail q - 1\<rparr>"
  have p: "lq_pop q = (lq_buf q ! lq_slot q n, q')"
    using ne by (simp add: lq_pop_def lq_is_empty_def q'_def s Let_def)
  have len: "lq_len q' = n"
    using n(2) by (simp add: lq_len_def q'_def tail unat_of_nat CAPACITY_def)
  have slot: "lq_slot q' i = lq_slot q i" for i by (simp add: lq_slot_def q'_def)
  have buf: "lq_buf q' ! lq_slot q i = (if i = n then None else lq_buf q ! lq_slot q i)"
    if "i < CAPACITY" for i
    using that n(2) lb lq_slot_inj [of i n q] by (auto simp: q'_def lq_slot_less nth_list_update)
  have "lq_inv q'"
    unfolding lq_inv_def
  proof (intro conjI allI impI)
    show "length (lq_buf q') = CAPACITY" using lb by (simp add: q'_def)
    show "lq_len q' \<le> CAPACITY" using len n by simp
    show "lq_buf q' ! lq_slot q' i \<noteq> None \<longleftrightarrow> i < lq_len q'" if "i < CAPACITY" for i
      using buf [OF that] lq_slot_filled [OF inv that] n(1) by (simp add: slot len less_Suc_eq)
  qed
  moreover have "lq_contents q' = butlast (lq_contents q)"
  proof -
    have "butlast (lq_contents q) = map (\<lambda>i. the (lq_buf q ! lq_slot q i)) [0..<n]"
      by (simp add: lq_contents_def n(1))
    then show ?thesis using n(2) buf by (simp add: lq_contents_def len slot)
  qed
  moreover have "lq_buf q ! lq_slot q n = Some (last (lq_contents q))"
    using lq_slot_filled [OF inv n(2)] by (simp add: lq_contents_def n(1))
  ultimately show ?thesis using p by simp
qed

text \<open>One round of the drain loop takes the oldest element.\<close>

lemma lq_drain_round:
  assumes inv: "lq_inv q" and ne: "lq_len q \<noteq> 0"
  defines "idx \<equiv> unat (lq_head q) mod CAPACITY"
  defines "q' \<equiv> q\<lparr>lq_buf := (lq_buf q)[idx := None], lq_head := lq_head q + 1\<rparr>"
  shows "lq_buf q ! idx = Some (hd (lq_contents q)) \<and> lq_inv q' \<and> lq_contents q' = tl (lq_contents q)"
proof -
  obtain n where n: "lq_len q = Suc n" "n < CAPACITY"
    using ne lq_len_cap [OF inv] by (cases "lq_len q") auto
  have lb: "length (lq_buf q) = CAPACITY" using inv by (simp add: lq_inv_def)
  have idx: "idx = lq_slot q 0" by (simp add: idx_def lq_slot_def)
  have len: "lq_len q' = n"
  proof -
    have "lq_tail q - lq_head q = of_nat (lq_len q)" by (simp add: lq_len_def)
    then have "lq_tail q - lq_head q = of_nat (Suc n)" by (simp only: n(1))
    then have "lq_tail q' - lq_head q' = of_nat n" by (simp add: q'_def algebra_simps)
    then show ?thesis using n(2) by (simp add: lq_len_def unat_of_nat CAPACITY_def)
  qed
  have slot: "lq_slot q' i = lq_slot q (Suc i)" for i
    using unat_add_mod_cap [of "lq_head q" 1] by (simp add: lq_slot_def q'_def) (metis add_Suc mod_add_left_eq mod_Suc_eq)
  have wrap: "lq_slot q CAPACITY = lq_slot q 0" by (simp add: lq_slot_def)
  have buf: "lq_buf q' ! lq_slot q i = (if i = 0 then None else lq_buf q ! lq_slot q i)"
    if "i < CAPACITY" for i
    using that lb lq_slot_inj [of i 0 q] by (auto simp: q'_def idx lq_slot_less nth_list_update)
  have filled: "lq_buf q' ! lq_slot q (Suc i) \<noteq> None \<longleftrightarrow> i < n" if "i < CAPACITY" for i
  proof (cases "Suc i = CAPACITY")
    case True
    then show ?thesis using buf [of 0] n by (simp add: wrap)
  next
    case False
    then show ?thesis using that buf [of "Suc i"] lq_slot_filled [OF inv, of "Suc i"] n by auto
  qed
  have "lq_inv q'"
    unfolding lq_inv_def using filled n lb len by (auto simp: slot) (simp_all add: q'_def)
  moreover have "lq_contents q' = tl (lq_contents q)"
    using n buf by (auto simp: lq_contents_def len slot map_tl [symmetric] tl_upt map_Suc_upt [symmetric] simp del: upt_Suc map_Suc_upt)
  moreover have "lq_buf q ! idx = Some (hd (lq_contents q))"
    using n lq_slot_filled [OF inv, of 0] by (auto simp: lq_contents_def idx hd_map upt_conv_Cons simp del: upt_Suc)
  ultimately show ?thesis by blast
qed

lemma lq_drain_loop_correct:
  assumes "lq_inv q" and "n \<le> lq_len q"
  shows "fst (lq_drain_loop n q) = take n (lq_contents q) \<and> lq_inv (snd (lq_drain_loop n q)) \<and>
    lq_contents (snd (lq_drain_loop n q)) = drop n (lq_contents q)"
  using assms
proof (induction n arbitrary: q)
  case 0
  then show ?case by simp
next
  case (Suc n)
  define idx where "idx = unat (lq_head q) mod CAPACITY"
  define q' where "q' = q\<lparr>lq_buf := (lq_buf q)[idx := None], lq_head := lq_head q + 1\<rparr>"
  have r: "lq_buf q ! idx = Some (hd (lq_contents q))" "lq_inv q'" "lq_contents q' = tl (lq_contents q)"
    using lq_drain_round [OF Suc.prems(1)] Suc.prems(2) by (simp_all add: idx_def q'_def)
  have ne: "lq_contents q \<noteq> []" using Suc.prems(2) by (metis length_0_conv length_lq_contents not_less_eq_eq zero_le)
  have "n \<le> lq_len q'"
    using Suc.prems(2) r(3) by (metis Suc_le_mono Suc_pred diff_Suc_1 le_zero_eq length_lq_contents length_tl nat.distinct(1) not_gr0)
  from Suc.IH [OF r(2) this] r(1,3) ne show ?case
    by (cases "lq_contents q") (simp_all add: idx_def [symmetric] q'_def [symmetric] Let_def split_beta)
qed

interpretation lq: bounded_deque lq_push lq_pop lq_drain_front lq_contents lq_inv CAPACITY
proof unfold_locales
  fix q :: "'a local_queue" and x n
  assume inv: "lq_inv q"
  show "length (lq_contents q) \<le> CAPACITY" using lq_len_cap [OF inv] by simp
  show "fst (lq_push q x) = None \<and> lq_inv (snd (lq_push q x)) \<and> lq_contents (snd (lq_push q x)) = lq_contents q @ [x]"
    if "length (lq_contents q) < CAPACITY" using lq_push_room [OF inv] that by simp
  show "lq_push q x = (Some x, q)" if "length (lq_contents q) = CAPACITY"
    using that by (simp add: lq_push_def lq_is_full_def)
  show "lq_pop q = (None, q)" if "lq_contents q = []"
    using that by (metis length_lq_contents list.size(3) lq_is_empty_def lq_pop_def)
  show "fst (lq_pop q) = Some (last (lq_contents q)) \<and> lq_inv (snd (lq_pop q)) \<and> lq_contents (snd (lq_pop q)) = butlast (lq_contents q)"
    if "lq_contents q \<noteq> []" using lq_pop_newest [OF inv] that by (metis length_0_conv length_lq_contents)
  show "fst (lq_drain_front q n) = take n (lq_contents q) \<and> lq_inv (snd (lq_drain_front q n)) \<and> lq_contents (snd (lq_drain_front q n)) = drop n (lq_contents q)"
    if "n \<le> length (lq_contents q)"
    using lq_drain_loop_correct [OF inv, of n] that by (simp add: lq_drain_front_def)
qed

section \<open>The ring refines the list of its contents\<close>

text \<open>The operations of a run queue as data, with what each of them returns.\<close>

datatype 'h lq_op = PushOp 'h | PopOp | DrainOp nat

datatype 'h lq_result = Pushed "'h option" | Popped "'h option" | Drained "'h list"

primrec lq_apply :: "'h lq_op \<Rightarrow> 'h local_queue \<Rightarrow> 'h lq_result \<times> 'h local_queue" where
  "lq_apply (PushOp x) q = map_prod Pushed id (lq_push q x)"
| "lq_apply PopOp q = map_prod Popped id (lq_pop q)"
| "lq_apply (DrainOp n) q = map_prod Drained id (lq_drain_front q n)"

text \<open>The specification: a list of at most \<open>CAPACITY\<close> elements, newest last.\<close>

primrec deque_apply :: "'h lq_op \<Rightarrow> 'h list \<Rightarrow> 'h lq_result \<times> 'h list" where
  "deque_apply (PushOp x) xs =
     (if length xs < CAPACITY then (Pushed None, xs @ [x]) else (Pushed (Some x), xs))"
| "deque_apply PopOp xs = (if xs = [] then (Popped None, xs) else (Popped (Some (last xs)), butlast xs))"
| "deque_apply (DrainOp n) xs = (Drained (take n xs), drop n xs)"

primrec run_ops :: "('o \<Rightarrow> 's \<Rightarrow> 'r \<times> 's) \<Rightarrow> 'o list \<Rightarrow> 's \<Rightarrow> 'r list \<times> 's" where
  "run_ops step [] s = ([], s)"
| "run_ops step (a # as) s =
     (let (r, s') = step a s; (rs, s'') = run_ops step as s' in (r # rs, s''))"

lemma run_ops_refines:
  assumes step: "\<And>a s. invar s \<Longrightarrow> invar (snd (step a s)) \<and>
      spec a (absf s) = (fst (step a s), absf (snd (step a s)))"
    and "invar s"
  shows "invar (snd (run_ops step as s)) \<and>
    run_ops spec as (absf s) = (fst (run_ops step as s), absf (snd (run_ops step as s)))"
  using assms(2)
proof (induction as arbitrary: s)
  case Nil
  then show ?case by simp
next
  case (Cons a as)
  then show ?case using step [OF Cons.prems, of a] Cons.IH [of "snd (step a s)"]
    by (simp add: split_beta)
qed

lemma lq_apply_refines:
  assumes "lq_inv q"
  shows "lq_inv (snd (lq_apply a q)) \<and>
    deque_apply a (lq_contents q) = (fst (lq_apply a q), lq_contents (snd (lq_apply a q)))"
proof (cases a)
  case (PushOp x)
  consider "length (lq_contents q) < CAPACITY" | "length (lq_contents q) = CAPACITY"
    using lq.length_contents [OF assms] by linarith
  then show ?thesis
    by cases (use PushOp assms lq.push_room [OF assms, of x] lq.push_full [OF assms, of x] in auto)
next
  case PopOp
  then show ?thesis
    using assms lq.pop_empty [OF assms] lq.pop_newest [OF assms] by (cases "lq_contents q = []") auto
next
  case (DrainOp n)
  have "lq_drain_front q n = lq_drain_front q (min n (lq_len q))" by (simp add: lq_drain_front_def)
  with lq.drain_oldest [OF assms, of "min n (lq_len q)"] DrainOp show ?thesis
    by (simp add: min_def)
qed

text \<open>
  C24: the ring buffer of a worker, whatever its counters hold (also across their wrap at
  two to the 64), behaves on every sequence of pushes, pops and drains as the list of its
  contents: same results, same contents at the end, with its invariant kept.
\<close>

theorem ring_refines_deque:
  assumes "lq_inv q"
  shows "lq_inv (snd (run_ops lq_apply ops q)) \<and>
    run_ops deque_apply ops (lq_contents q) =
      (fst (run_ops lq_apply ops q), lq_contents (snd (run_ops lq_apply ops q)))"
  using run_ops_refines [of lq_inv lq_apply deque_apply lq_contents, OF _ assms] lq_apply_refines by blast

text \<open>The counters of this ring wrap in the middle of the run.\<close>

definition wrapping_ring :: "nat local_queue" where
  "wrapping_ring = local_queue_new\<lparr>lq_head := - 1, lq_tail := - 1\<rparr>"

lemma wrapping_ring_inv: "lq_inv wrapping_ring" "lq_contents wrapping_ring = []"
  by (simp_all add: wrapping_ring_def lq_inv_def local_queue_new_def lq_len_def lq_contents_def lq_slot_less)

theorem ring_refines_deque_witness:
  "lq_inv wrapping_ring \<and>
   fst (run_ops lq_apply [PushOp 1, PushOp 2, PushOp 3, PopOp, DrainOp 1, PopOp, PopOp] wrapping_ring)
     = [Pushed None, Pushed None, Pushed None, Popped (Some 3), Drained [1], Popped (Some 2), Popped None]"
proof -
  have "CAPACITY > 2" by (simp add: CAPACITY_def)
  then show ?thesis
    using ring_refines_deque [OF wrapping_ring_inv(1),
        of "[PushOp 1, PushOp 2, PushOp 3, PopOp, DrainOp 1, PopOp, PopOp]"] wrapping_ring_inv
    by (simp add: Let_def split_beta)
qed

section \<open>Stealing moves tasks and loses none\<close>

lemma spill_loop_push_all:
  "spill_loop batch loc g stolen =
     (stolen + length batch, snd (lq.push_all loc batch), g @ fst (lq.push_all loc batch))"
  by (induction batch arbitrary: loc g stolen)
    (auto simp: gq_push_header_def split_beta split: option.splits)

lemma spill_loop_correct:
  assumes "lq_inv loc" and "spill_loop batch loc g stolen = (n, loc', g')"
  defines "room \<equiv> CAPACITY - lq_len loc"
  shows "n = stolen + length batch \<and> lq_inv loc' \<and>
    lq_contents loc' = lq_contents loc @ take room batch \<and> g' = g @ drop room batch"
  using assms(2) lq.push_all_correct [OF assms(1), of batch] by (auto simp: spill_loop_push_all room_def)

text \<open>What one worker takes from another: the older half, in order; what does not fit spills.\<close>

lemma steal_from_correct:
  assumes "lq_inv src" and "lq_inv dl" and "steal_from src dl dg = (n, src', dl', dg')"
  shows "n = lq_len src div 2 \<and> lq_inv src' \<and> lq_inv dl' \<and>
    lq_contents src' = drop n (lq_contents src) \<and>
    lq_contents dl' = lq_contents dl @ take (CAPACITY - lq_len dl) (take n (lq_contents src)) \<and>
    dg' = dg @ drop (CAPACITY - lq_len dl) (take n (lq_contents src))"
proof (cases "lq_len src div 2 = 0")
  case True
  then show ?thesis using assms by (simp add: steal_from_def)
next
  case False
  obtain batch srcx where d: "lq_drain_front src (lq_len src div 2) = (batch, srcx)" by fastforce
  obtain m dlx dgx where l: "spill_loop batch dl dg 0 = (m, dlx, dgx)" by (metis surj_pair)
  have r: "n = m" "src' = srcx" "dl' = dlx" "dg' = dgx"
    using assms(3) False d l by (auto simp: steal_from_def Let_def)
  have "batch = take (lq_len src div 2) (lq_contents src) \<and> lq_inv srcx \<and>
      lq_contents srcx = drop (lq_len src div 2) (lq_contents src)"
    using lq.drain_oldest [OF assms(1), of "lq_len src div 2"] d by simp
  then show ?thesis using spill_loop_correct [OF assms(2) l] r by simp
qed

lemma mset_take_drop: "mset (take n xs) + mset (drop n xs) = mset xs"
  by (metis append_take_drop_id mset_append)

lemma steal_from_mset:
  assumes "lq_inv src" and "lq_inv dl" and "steal_from src dl dg = (n, src', dl', dg')"
  shows "mset (lq_contents src') + mset (lq_contents dl') + mset dg'
    = mset (lq_contents src) + mset (lq_contents dl) + mset dg"
proof -
  let ?b = "take n (lq_contents src)" and ?r = "CAPACITY - lq_len dl"
  have "mset (lq_contents src') + mset (lq_contents dl') + mset dg'
      = mset (drop n (lq_contents src)) + (mset (take ?r ?b) + mset (drop ?r ?b))
        + mset (lq_contents dl) + mset dg"
    using steal_from_correct [OF assms] by (simp add: ac_simps)
  also have "\<dots> = (mset ?b + mset (drop n (lq_contents src))) + mset (lq_contents dl) + mset dg"
    unfolding mset_take_drop [of ?r ?b] by (simp add: ac_simps)
  finally show ?thesis unfolding mset_take_drop .
qed

definition pool_tasks :: "'h work_stealing_pool \<Rightarrow> 'h multiset" where
  "pool_tasks pool = sum_list (map (mset \<circ> lq_contents) pool)"

definition stealable_from :: "nat \<Rightarrow> 'h work_stealing_pool \<Rightarrow> nat \<Rightarrow> bool" where
  "stealable_from base pool self_idx \<longleftrightarrow> (\<exists>i<length pool. base + i \<noteq> self_idx \<and> 2 \<le> lq_len (pool ! i))"

lemma stealable_from_Cons:
  "stealable_from base (q # pool) self_idx \<longleftrightarrow>
     base \<noteq> self_idx \<and> 2 \<le> lq_len q \<or> stealable_from (Suc base) pool self_idx"
  unfolding stealable_from_def by (auto simp: less_Suc_eq_0_disj nth_Cons')

lemma steal_scan_correct:
  assumes "list_all lq_inv pool" and "lq_inv dl"
    and "steal_scan base pool self_idx dl dg = (n, pool', dl', dg')"
  shows "list_all lq_inv pool' \<and> lq_inv dl' \<and> length pool' = length pool \<and>
    pool_tasks pool' + mset (lq_contents dl') + mset dg' = pool_tasks pool + mset (lq_contents dl) + mset dg \<and>
    (0 < n \<longleftrightarrow> stealable_from base pool self_idx) \<and>
    (\<forall>i<length pool. base + i = self_idx \<longrightarrow> pool' ! i = pool ! i)"
  using assms
proof (induction base pool self_idx dl dg arbitrary: n pool' dl' dg' rule: steal_scan.induct)
  case (1 idx self_idx dl dg)
  then show ?case by (simp add: pool_tasks_def stealable_from_def)
next
  case (2 idx queue rest self_idx dl dg)
  show ?case
  proof (cases "idx = self_idx")
    case True
    obtain restx where r: "steal_scan (Suc idx) rest self_idx dl dg = (n, restx, dl', dg')" "pool' = queue # restx"
      using "2.prems"(3) True by (auto split: prod.splits)
    from "2.IH"(1) [OF True _ _ r(1)] "2.prems" True r(2) show ?thesis
      by (auto simp: pool_tasks_def stealable_from_Cons nth_Cons' ac_simps)
  next
    case False
    obtain k queuex dlx dgx where f: "steal_from queue dl dg = (k, queuex, dlx, dgx)" by (metis surj_pair)
    have inv: "lq_inv queue" "lq_inv dl" using "2.prems" by simp_all
    note c = steal_from_correct [OF inv f] and m = steal_from_mset [OF inv f]
    show ?thesis
    proof (cases "0 < k")
      case True
      then have "n = k" "pool' = queuex # rest" "dl' = dlx" "dg' = dgx"
        using "2.prems"(3) False f by simp_all
      then show ?thesis using True False c m "2.prems"(1)
        by (auto simp: pool_tasks_def stealable_from_Cons nth_Cons' ac_simps)
    next
      case k: False
      obtain restx where r: "steal_scan (Suc idx) rest self_idx dlx dgx = (n, restx, dl', dg')" "pool' = queuex # restx"
        using "2.prems"(3) False f k by (auto split: prod.splits)
      have small: "\<not> 2 \<le> lq_len queue" using c k by auto
      from "2.IH"(2) [OF False f [symmetric] refl refl refl k _ _ r(1)] "2.prems" False r(2) c m k small show ?thesis
        by (auto simp: pool_tasks_def stealable_from_Cons nth_Cons' ac_simps)
    qed
  qed
qed

text \<open>
  an attempt to steal neither loses nor duplicates a task: the tasks of all workers'
  queues, of the thief's local queue and of the global queue are together the same before
  and after. The thief's own queue in the pool is untouched, and the attempt reports a
  positive number exactly when another worker has at least two tasks.
\<close>

theorem stealing_conserves_tasks:
  assumes "list_all lq_inv pool" and "lq_inv dest_local"
    and "steal_one pool self_idx dest_local dest_global = (n, pool', dl', dg')"
  shows "list_all lq_inv pool' \<and> lq_inv dl' \<and>
    pool_tasks pool' + mset (lq_contents dl') + mset dg'
      = pool_tasks pool + mset (lq_contents dest_local) + mset dest_global \<and>
    (self_idx < length pool \<longrightarrow> pool' ! self_idx = pool ! self_idx) \<and>
    (0 < n \<longleftrightarrow> (\<exists>i<length pool. i \<noteq> self_idx \<and> 2 \<le> lq_len (pool ! i)))"
  using steal_scan_correct [OF assms(1,2), of 0 self_idx dest_global] assms(3)
  by (simp add: steal_one_def stealable_from_def)

definition two_task_ring :: "nat local_queue" where
  "two_task_ring = snd (lq_push (snd (lq_push local_queue_new 1)) 2)"

lemma two_task_ring_props:
  "lq_inv two_task_ring" "lq_contents two_task_ring = [1, 2]" "lq_len two_task_ring = 2"
proof -
  let ?q = "snd (lq_push local_queue_new (1::nat))"
  have len: "lq_len q = length (lq_contents q)" for q :: "nat local_queue" by simp
  have "length (lq_contents (local_queue_new :: nat local_queue)) < CAPACITY"
    by (simp only: lq_inv_new(2)) (simp add: CAPACITY_def)
  from lq.push_room [OF lq_inv_new(1) this, of 1]
  have q: "lq_inv ?q" "lq_contents ?q = [1]" by (simp_all add: lq_inv_new(2))
  have "length (lq_contents ?q) < CAPACITY" by (simp only: q(2)) (simp add: CAPACITY_def)
  from lq.push_room [OF q(1) this, of 2]
  show "lq_inv two_task_ring" and c: "lq_contents two_task_ring = [1, 2]"
    unfolding two_task_ring_def q(2) by simp_all
  show "lq_len two_task_ring = 2" by (simp only: len c) simp
qed

theorem stealing_conserves_tasks_witness:
  "0 < fst (steal_one [local_queue_new, two_task_ring] 0 local_queue_new [])"
proof -
  obtain n p d g where s: "steal_one [local_queue_new, two_task_ring] 0 local_queue_new [] = (n, p, d, g)"
    by (metis surj_pair)
  have "list_all lq_inv [local_queue_new, two_task_ring]" by (simp add: two_task_ring_props lq_inv_new)
  from stealing_conserves_tasks [OF this lq_inv_new(1) s] s show ?thesis
    using two_task_ring_props(3) by (auto simp: less_Suc_eq)
qed

section \<open>Batches from the global queue\<close>

lemma steal_loop_room:
  assumes "lq_inv loc" and "n \<le> length g" and "n \<le> CAPACITY - lq_len loc"
  shows "\<exists>loc'. steal_loop n g loc k = (k + n, drop n g, loc') \<and> lq_inv loc' \<and>
    lq_contents loc' = lq_contents loc @ take n g"
  using assms
proof (induction n g loc k rule: steal_loop.induct)
  case (3 n h g loc stolen)
  from lq.push_room [OF "3.prems"(1), of h] "3.prems"(3)
  obtain loc' where p: "lq_push loc h = (None, loc')" "lq_inv loc'" "lq_contents loc' = lq_contents loc @ [h]"
    by (cases "lq_push loc h") auto
  have "lq_len loc' = Suc (lq_len loc)" using p(3) by (metis length_append_singleton length_lq_contents)
  with "3.IH" [OF p(1) [symmetric] refl p(2)] "3.prems" p show ?case by auto
qed auto

text \<open>
  a batch from the global queue moves its older half (at least one task) in order into a
  local queue with room for it. When the local queue is full, the task taken off the global
  queue is put into neither queue: it is lost, although the call reports that nothing was
  stolen.
\<close>

theorem steal_batch_drops_on_overflow:
  assumes "lq_inv loc" and "g \<noteq> []"
  shows "(let n = max (length g div 2) 1 in n \<le> CAPACITY - lq_len loc \<longrightarrow>
      fst (steal_batch g loc) = n \<and> fst (snd (steal_batch g loc)) = drop n g \<and>
      lq_contents (snd (snd (steal_batch g loc))) = lq_contents loc @ take n g)
    \<and> (lq_len loc = CAPACITY \<longrightarrow> steal_batch g loc = (0, tl g, loc))"
proof (rule conjI)
  let ?n = "max (length g div 2) 1"
  have n: "min ?n (length g) = ?n" using assms(2) by (cases g) auto
  have "?n \<le> length g" using assms(2) by (cases g) auto
  then show "let n = ?n in n \<le> CAPACITY - lq_len loc \<longrightarrow>
      fst (steal_batch g loc) = n \<and> fst (snd (steal_batch g loc)) = drop n g \<and>
      lq_contents (snd (snd (steal_batch g loc))) = lq_contents loc @ take n g"
    using steal_loop_room [OF assms(1), of ?n g 0] by (auto simp: steal_batch_def n Let_def)
  show "lq_len loc = CAPACITY \<longrightarrow> steal_batch g loc = (0, tl g, loc)"
  proof
    assume full: "lq_len loc = CAPACITY"
    obtain h g' where g: "g = h # g'" using assms(2) by (cases g) auto
    obtain m where m: "?n = Suc m" by (metis Suc_pred max.strict_coboundedI2 zero_less_one)
    show "steal_batch g loc = (0, tl g, loc)"
      using lq.push_full [OF assms(1), of h] full by (simp only: steal_batch_def n m) (simp add: g)
  qed
qed

theorem steal_batch_drops_on_overflow_witness:
  "fst (steal_batch [5, 6, 7] two_task_ring) = 1"
  using steal_batch_drops_on_overflow [OF two_task_ring_props(1), of "[5, 6, 7]"]
  by (simp add: two_task_ring_props CAPACITY_def)

end
