(* ===== verification/Executor.thy ===== *)
theory Executor
  imports Scheduler Timer_Wheel
begin

text \<open>
  Tasks and the single-threaded executor (\<^verbatim>\<open>executor/task.rs\<close>,
  \<^verbatim>\<open>executor/waker.rs\<close>, \<^verbatim>\<open>Executor\<close> of \<^verbatim>\<open>executor/mod.rs\<close>).

  A task header is known by its address, a positive number; number 0 names the waker of
  the root future, so that a waker is the number the timer wheel stores. The code of a
  future is the user's: a parameter gives, for every task and every poll of it, what the
  poll does to the executor (the actions it can perform through the public interface) and
  whether it completes. The boxed future is then the number of polls it has had, and a null
  \<^verbatim>\<open>body_ptr\<close> is \<open>None\<close>. Polling a freed body is a panic of the model, so that
  freedom from panics is freedom from use after free.
\<close>

section \<open>Tasks\<close>

subsection \<open>Data\<close>

datatype task_state = IDLE | SCHEDULED | RUNNING | COMPLETED | CANCELLED

primrec state_u32 :: "task_state \<Rightarrow> u32" where
  "state_u32 IDLE = 0"
| "state_u32 SCHEDULED = 1"
| "state_u32 RUNNING = 2"
| "state_u32 COMPLETED = 3"
| "state_u32 CANCELLED = 4"

text \<open>
  \<^verbatim>\<open>JoinError\<close>; its other value \<^verbatim>\<open>Panic\<close> is never built by the source.
\<close>

datatype join_error = Cancelled | JoinPanic

datatype 'a poll = Ready 'a | Pending

record 'v task_header =
  h_state :: task_state
  h_join_waker :: "waker option"
  h_body :: "nat option"
  h_output :: "'v option"

text \<open>What a future can do to the executor while it is polled.\<close>

datatype action =
  Wake waker
| Spawn
| Abort nat
| Join nat waker
| InsertTimer instant waker
| CancelTimer timer_id

type_synonym 'v future = "nat \<Rightarrow> nat \<Rightarrow> action list \<times> 'v option"

record 'v executor =
  ex_local :: "nat local_queue"
  ex_global :: "nat global_queue"
  ex_tasks :: "nat set"
  ex_headers :: "nat \<Rightarrow> 'v task_header"
  ex_next :: nat
  ex_pipe :: nat
  ex_wheel :: timer_wheel

subsection \<open>Headers and wakers\<close>

definition task_new :: "'v task_header" where
  "task_new = \<lparr>h_state = SCHEDULED, h_join_waker = None, h_body = Some 0, h_output = None\<rparr>"

definition set_header :: "nat \<Rightarrow> 'v task_header \<Rightarrow> 'v executor \<Rightarrow> 'v executor" where
  "set_header tid h s = s\<lparr>ex_headers := (ex_headers s)(tid := h)\<rparr>"

text \<open>\<^verbatim>\<open>compare_exchange\<close> on the state of a header.\<close>

definition compare_exchange :: "task_state \<Rightarrow> task_state \<Rightarrow> 'v task_header \<Rightarrow> bool \<times> 'v task_header" where
  "compare_exchange old new h = (if h_state h = old then (True, h\<lparr>h_state := new\<rparr>) else (False, h))"

definition schedule_task :: "nat \<Rightarrow> 'v executor \<Rightarrow> 'v executor" where
  "schedule_task tid s =
     (let (ok, h) = compare_exchange IDLE SCHEDULED (ex_headers s tid)
      in if ok then (set_header tid h s)\<lparr>ex_global := gq_push_header (ex_global s) tid\<rparr> else s)"

text \<open>A waker either schedules its task or, for the root, writes a byte to the self-pipe.\<close>

definition wake :: "waker \<Rightarrow> 'v executor \<Rightarrow> 'v executor" where
  "wake w s = (if w = 0 then s\<lparr>ex_pipe := ex_pipe s + 1\<rparr> else schedule_task w s)"

definition wake_opt :: "waker option \<Rightarrow> 'v executor \<Rightarrow> 'v executor" where
  "wake_opt w s = (case w of Some w' \<Rightarrow> wake w' s | None \<Rightarrow> s)"

subsection \<open>Join handles\<close>

definition abort :: "nat \<Rightarrow> 'v executor \<Rightarrow> 'v executor" where
  "abort tid s =
     (let h1 = snd (compare_exchange IDLE CANCELLED (ex_headers s tid));
          h2 = snd (compare_exchange SCHEDULED CANCELLED h1)
      in set_header tid h2 s)"

definition take_output :: "nat \<Rightarrow> 'v executor \<Rightarrow> ('v, join_error) outcome \<times> 'v executor" where
  "take_output tid s =
     (let h = ex_headers s tid; s' = set_header tid (h\<lparr>h_output := None\<rparr>) s
      in case h_output h of Some v \<Rightarrow> (Ok v, s') | None \<Rightarrow> (Err Cancelled, s'))"

definition join_poll :: "nat \<Rightarrow> waker \<Rightarrow> 'v executor \<Rightarrow> ('v, join_error) outcome poll \<times> 'v executor" where
  "join_poll tid w s =
     (let h = ex_headers s tid
      in if h_state h = COMPLETED then (let (r, s') = take_output tid s in (Ready r, s'))
         else if h_state h = CANCELLED then (Ready (Err Cancelled), s)
         else (Pending, set_header tid (h\<lparr>h_join_waker := Some w\<rparr>) s))"

subsection \<open>Spawning, polling and cancelling\<close>

definition spawn :: "'v executor \<Rightarrow> nat \<times> 'v executor" where
  "spawn s =
     (let tid = ex_next s;
          s1 = (set_header tid task_new s)\<lparr>ex_next := tid + 1\<rparr>;
          s2 = s1\<lparr>ex_global := gq_push_header (ex_global s1) tid\<rparr>
      in (tid, s2\<lparr>ex_tasks := insert tid (ex_tasks s2)\<rparr>))"

primrec do_action :: "action \<Rightarrow> 'v executor \<Rightarrow> 'v executor" where
  "do_action (Wake w) s = wake w s"
| "do_action Spawn s = snd (spawn s)"
| "do_action (Abort tid) s = abort tid s"
| "do_action (Join tid w) s = snd (join_poll tid w s)"
| "do_action (InsertTimer d w) s = s\<lparr>ex_wheel := snd (timer_insert (ex_wheel s) d w)\<rparr>"
| "do_action (CancelTimer t) s = s\<lparr>ex_wheel := snd (timer_cancel (ex_wheel s) t)\<rparr>"

definition poll_task :: "'v future \<Rightarrow> nat \<Rightarrow> 'v executor \<Rightarrow> (bool \<times> 'v executor, unit) outcome" where
  "poll_task fut tid s =
     (let h = ex_headers s tid; s1 = set_header tid (h\<lparr>h_state := RUNNING\<rparr>) s
      in case h_body h of
           None \<Rightarrow> Panic
         | Some k \<Rightarrow>
             (let (acts, result) = fut tid k;
                  h1 = ex_headers s1 tid;
                  s2 = fold do_action acts (set_header tid (h1\<lparr>h_body := Some (k + 1)\<rparr>) s1);
                  h2 = ex_headers s2 tid
              in case result of
                   Some v \<Rightarrow>
                     Ok (True, wake_opt (h_join_waker h2)
                           (set_header tid (h2\<lparr>h_output := Some v, h_body := None, h_state := COMPLETED,
                              h_join_waker := None\<rparr>) s2))
                 | None \<Rightarrow> Ok (False, set_header tid (h2\<lparr>h_state := IDLE\<rparr>) s2)))"

definition cancel :: "nat \<Rightarrow> 'v executor \<Rightarrow> 'v executor" where
  "cancel tid s =
     (let h = ex_headers s tid
      in wake_opt (h_join_waker h)
           (set_header tid (h\<lparr>h_body := None, h_state := CANCELLED, h_join_waker := None\<rparr>) s))"

section \<open>The executor\<close>

definition executor_new :: "instant \<Rightarrow> 'v executor" where
  "executor_new origin =
     \<lparr>ex_local = local_queue_new, ex_global = [], ex_tasks = {}, ex_headers = (\<lambda>_. task_new),
      ex_next = 1, ex_pipe = 0, ex_wheel = timer_wheel_new origin\<rparr>"

definition next_task :: "'v executor \<Rightarrow> nat option \<times> 'v executor" where
  "next_task s =
     (case lq_pop (ex_local s) of
        (Some h, l) \<Rightarrow> (Some h, s\<lparr>ex_local := l\<rparr>)
      | (None, l) \<Rightarrow> (let (h, g) = gq_pop (ex_global s) in (h, s\<lparr>ex_local := l, ex_global := g\<rparr>)))"

text \<open>One round of the loop that drains the task queues, for the header it popped.\<close>

definition run_header :: "'v future \<Rightarrow> nat \<Rightarrow> 'v executor \<Rightarrow> ('v executor, unit) outcome" where
  "run_header fut key s =
     (let state = h_state (ex_headers s key)
      in if state = CANCELLED then
           Ok (if key \<in> ex_tasks s then cancel key (s\<lparr>ex_tasks := ex_tasks s - {key}\<rparr>) else s)
         else if state = COMPLETED then Ok (s\<lparr>ex_tasks := ex_tasks s - {key}\<rparr>)
         else if key \<in> ex_tasks s then
           bind_outcome (poll_task fut key s) (\<lambda>(completed, s').
             Ok (if completed then s'\<lparr>ex_tasks := ex_tasks s' - {key}\<rparr> else s'))
         else Ok s)"

definition drain_round :: "'v future \<Rightarrow> 'v executor \<Rightarrow> ('v executor option, unit) outcome" where
  "drain_round fut s =
     (case next_task s of
        (None, s') \<Rightarrow> Ok None
      | (Some key, s') \<Rightarrow> bind_outcome (run_header fut key s') (\<lambda>s''. Ok (Some s'')))"

text \<open>
  The drain loop ends when both queues are empty; it may run forever, so it is a partial
  function, and \<open>None\<close> is a run that does not return. The flag is \<^verbatim>\<open>did_work\<close>.
\<close>

partial_function (option) drain :: "'v future \<Rightarrow> bool \<Rightarrow> 'v executor \<Rightarrow> (bool \<times> 'v executor, unit) outcome option" where
  "drain fut did_work s =
     (case drain_round fut s of
        Panic \<Rightarrow> Some Panic
      | Err e \<Rightarrow> Some (Err e)
      | Ok None \<Rightarrow> Some (Ok (did_work, s))
      | Ok (Some s') \<Rightarrow> drain fut True s')"

text \<open>
  What the outside world contributes to one turn of the loop: the clock, the wakers other
  threads have fired when the turn starts, and the wakers that signals and descriptors fire
  while the executor is parked.
\<close>

record turn =
  tn_now :: instant
  tn_async :: "waker list"
  tn_fired :: "waker list"

definition tick_timers :: "instant \<Rightarrow> 'v executor \<Rightarrow> 'v executor" where
  "tick_timers now s =
     (let (wheel, expired) = timer_tick (ex_wheel s) now
      in fold wake expired (s\<lparr>ex_wheel := wheel\<rparr>))"

text \<open>Parking empties the self-pipe.\<close>

definition park :: "waker list \<Rightarrow> 'v executor \<Rightarrow> 'v executor" where
  "park fired s = (fold wake fired s)\<lparr>ex_pipe := 0\<rparr>"

definition poll_root :: "(nat \<Rightarrow> action list \<times> 'r option) \<Rightarrow> nat \<Rightarrow> 'r option \<Rightarrow> 'v executor \<Rightarrow>
    'r option \<times> nat \<times> 'v executor" where
  "poll_root root k out s =
     (if out = None then
        (let (acts, r) = root k in (r, k + 1, fold do_action acts s))
      else (out, k, s))"

text \<open>
  \<^verbatim>\<open>block_on\<close> over the turns the world supplies: \<open>Some (Ok None)\<close> when it is still
  running after the last of them, \<open>None\<close> when a drain does not return.
\<close>

fun block_on_loop :: "'v future \<Rightarrow> (nat \<Rightarrow> action list \<times> 'r option) \<Rightarrow> turn list \<Rightarrow> nat \<Rightarrow> 'r option \<Rightarrow>
    'v executor \<Rightarrow> (('r \<times> 'v executor) option, unit) outcome option" where
  "block_on_loop fut root [] k out s = Some (Ok None)"
| "block_on_loop fut root (tn # tns) k out s =
     (let s1 = tick_timers (tn_now tn) (fold wake (tn_async tn) s);
          (out', k', s2) = poll_root root k out s1
      in if out' \<noteq> None \<and> ex_tasks s2 = {} then Some (Ok (Some (the out', s2)))
         else
           case drain fut False s2 of
             None \<Rightarrow> None
           | Some Panic \<Rightarrow> Some Panic
           | Some (Err e) \<Rightarrow> Some (Err e)
           | Some (Ok (did_work, s3)) \<Rightarrow>
               (if out' \<noteq> None \<and> ex_tasks s3 = {} then Some (Ok (Some (the out', s3)))
                else
                  block_on_loop fut root tns k' out'
                    (if \<not> did_work \<and> lq_is_empty (ex_local s3) \<and> length (ex_global s3) = 0
                     then park (tn_fired tn) s3 else s3)))"

definition block_on :: "'v future \<Rightarrow> (nat \<Rightarrow> action list \<times> 'r option) \<Rightarrow> instant \<Rightarrow> turn list \<Rightarrow>
    (('r \<times> 'v executor) option, unit) outcome option" where
  "block_on fut root origin tns = block_on_loop fut root tns 0 None (executor_new origin)"

section \<open>The invariant of the executor\<close>

text \<open>
  What holds of an allocated header, given whether the executor owns its task, how often its
  address is queued and whether it is being polled: a task is owned exactly while its future
  is alive; it is queued once when scheduled, at most once when cancelled with its future
  still alive, and never otherwise.
\<close>

definition header_ok :: "bool \<Rightarrow> nat \<Rightarrow> bool \<Rightarrow> 'v task_header \<Rightarrow> bool" where
  "header_ok owned queued running h \<longleftrightarrow>
     (owned \<longleftrightarrow> h_body h \<noteq> None) \<and> (running \<longleftrightarrow> h_state h = RUNNING) \<and>
     (case h_state h of
        IDLE \<Rightarrow> owned \<and> queued = 0
      | SCHEDULED \<Rightarrow> owned \<and> queued = 1
      | RUNNING \<Rightarrow> owned \<and> queued = 0
      | COMPLETED \<Rightarrow> \<not> owned \<and> queued = 0
      | CANCELLED \<Rightarrow> queued \<le> (if owned then 1 else 0)) \<and>
     (h_output h \<noteq> None \<longrightarrow> h_state h = COMPLETED) \<and>
     (h_join_waker h \<noteq> None \<longrightarrow> owned)"

definition allocated :: "'v executor \<Rightarrow> nat \<Rightarrow> bool" where
  "allocated s tid \<longleftrightarrow> 0 < tid \<and> tid < ex_next s"

definition exec_inv :: "nat option \<Rightarrow> 'v executor \<Rightarrow> bool" where
  "exec_inv r s \<longleftrightarrow>
     lq_inv (ex_local s) \<and> lq_contents (ex_local s) = [] \<and> 0 < ex_next s \<and>
     (\<forall>tid. allocated s tid \<longrightarrow>
        header_ok (tid \<in> ex_tasks s) (count_list (ex_global s) tid) (r = Some tid) (ex_headers s tid)) \<and>
     (\<forall>tid. tid \<in> ex_tasks s \<or> tid \<in> set (ex_global s) \<or> r = Some tid \<or> h_state (ex_headers s tid) = IDLE
        \<longrightarrow> allocated s tid)"

lemma exec_invD:
  assumes "exec_inv r s"
  shows "allocated s tid \<Longrightarrow>
      header_ok (tid \<in> ex_tasks s) (count_list (ex_global s) tid) (r = Some tid) (ex_headers s tid)"
    and "tid \<in> ex_tasks s \<Longrightarrow> allocated s tid" and "tid \<in> set (ex_global s) \<Longrightarrow> allocated s tid"
    and "h_state (ex_headers s tid) = IDLE \<Longrightarrow> allocated s tid" and "r = Some tid \<Longrightarrow> allocated s tid"
    and "lq_inv (ex_local s)" and "lq_contents (ex_local s) = []"
  using assms unfolding exec_inv_def by blast+

text \<open>Two states that agree on everything but the pipe and the wheel satisfy it together.\<close>

lemma exec_inv_frame [simp]:
  "exec_inv r (s\<lparr>ex_pipe := p\<rparr>) \<longleftrightarrow> exec_inv r s"
  "exec_inv r (s\<lparr>ex_wheel := w\<rparr>) \<longleftrightarrow> exec_inv r s"
  by (simp_all add: exec_inv_def allocated_def)

text \<open>Replacing one header that stays in order for its place keeps the invariant.\<close>

lemma exec_inv_set_header:
  assumes inv: "exec_inv r s"
    and ok: "allocated s tid \<Longrightarrow>
      header_ok (tid \<in> ex_tasks s) (count_list (ex_global s) tid) (r = Some tid) h"
    and idle: "h_state h = IDLE \<Longrightarrow> h_state (ex_headers s tid) = IDLE \<or> allocated s tid"
  shows "exec_inv r (set_header tid h s)"
  using assms unfolding exec_inv_def set_header_def by (auto simp: allocated_def)

text \<open>
  The general step: everything but one allocated task stays as it is, and that task ends in
  order for its new place.
\<close>

lemma exec_inv_change:
  assumes inv: "exec_inv r s" and al: "allocated s key"
    and frame: "ex_local s' = ex_local s" "ex_next s' = ex_next s"
    and others: "\<And>tid. tid \<noteq> key \<Longrightarrow> ex_headers s' tid = ex_headers s tid \<and>
      (tid \<in> ex_tasks s' \<longleftrightarrow> tid \<in> ex_tasks s) \<and> count_list (ex_global s') tid = count_list (ex_global s) tid \<and>
      (r' = Some tid \<longleftrightarrow> r = Some tid)"
    and ok: "header_ok (key \<in> ex_tasks s') (count_list (ex_global s') key) (r' = Some key) (ex_headers s' key)"
  shows "exec_inv r' s'"
  unfolding exec_inv_def
proof (intro conjI allI impI)
  have al': "allocated s' tid \<longleftrightarrow> allocated s tid" for tid by (simp add: allocated_def frame)
  show "lq_inv (ex_local s')" "lq_contents (ex_local s') = []" "0 < ex_next s'"
    using inv by (simp_all add: exec_inv_def frame)
  show "header_ok (tid \<in> ex_tasks s') (count_list (ex_global s') tid) (r' = Some tid) (ex_headers s' tid)"
    if "allocated s' tid" for tid
    using ok others [of tid] exec_invD(1) [OF inv, of tid] that al' by (cases "tid = key") auto
  show "allocated s' tid"
    if "tid \<in> ex_tasks s' \<or> tid \<in> set (ex_global s') \<or> r' = Some tid \<or> h_state (ex_headers s' tid) = IDLE" for tid
  proof (cases "tid = key")
    case True
    then show ?thesis using al al' by simp
  next
    case False
    have "tid \<in> set (ex_global s') \<longleftrightarrow> tid \<in> set (ex_global s)"
      using others [OF False] by (metis count_list_0_iff)
    then have "tid \<in> ex_tasks s \<or> tid \<in> set (ex_global s) \<or> r = Some tid \<or> h_state (ex_headers s tid) = IDLE"
      using that others [OF False] by metis
    then show ?thesis using exec_invD(2,3,4,5) [OF inv, of tid] al' by blast
  qed
qed

lemma exec_inv_schedule:
  assumes "exec_inv r s"
  shows "exec_inv r (schedule_task tid s)"
proof (cases "h_state (ex_headers s tid) = IDLE")
  case True
  note ok = exec_invD(1) [OF assms exec_invD(4) [OF assms True]] and al = exec_invD(4) [OF assms True]
  have "header_ok (tid \<in> ex_tasks s) (Suc (count_list (ex_global s) tid)) (r = Some tid)
      (ex_headers s tid\<lparr>h_state := SCHEDULED\<rparr>)"
    using ok True by (auto simp: header_ok_def)
  then show ?thesis
    by (intro exec_inv_change [OF assms al])
      (simp_all add: True schedule_task_def compare_exchange_def set_header_def gq_push_header_def)
next
  case False
  then show ?thesis using assms by (simp add: schedule_task_def compare_exchange_def)
qed

lemma exec_inv_wake: "exec_inv r s \<Longrightarrow> exec_inv r (wake w s)"
  by (simp add: wake_def exec_inv_schedule)

lemma exec_inv_wake_opt: "exec_inv r s \<Longrightarrow> exec_inv r (wake_opt w s)"
  by (cases w) (simp_all add: wake_opt_def exec_inv_wake)

lemma exec_inv_wakes: "exec_inv r s \<Longrightarrow> exec_inv r (fold wake ws s)"
  by (induction ws arbitrary: s) (simp_all add: exec_inv_wake)

lemma exec_inv_abort:
  assumes "exec_inv r s"
  shows "exec_inv r (abort tid s)"
  unfolding abort_def Let_def
  by (rule exec_inv_set_header [OF assms])
    (use exec_invD(1) [OF assms, of tid] in \<open>auto simp: compare_exchange_def header_ok_def split: task_state.splits if_splits\<close>)

lemma exec_inv_join:
  assumes "exec_inv r s"
  shows "exec_inv r (snd (join_poll tid w s))"
proof -
  let ?h = "ex_headers s tid"
  note ok = exec_invD(1) [OF assms, of tid]
  have "exec_inv r (set_header tid (?h\<lparr>h_output := None\<rparr>) s)"
    by (rule exec_inv_set_header [OF assms]) (use ok in \<open>auto simp: header_ok_def split: task_state.splits\<close>)
  moreover have "exec_inv r (set_header tid (?h\<lparr>h_join_waker := Some w\<rparr>) s)"
    if "h_state ?h \<noteq> COMPLETED" "h_state ?h \<noteq> CANCELLED"
    by (rule exec_inv_set_header [OF assms])
      (use ok that in \<open>auto simp: header_ok_def split: task_state.splits\<close>)
  ultimately show ?thesis
    using assms by (auto simp: join_poll_def take_output_def Let_def split: option.splits prod.splits)
qed

lemma exec_inv_spawn:
  assumes "exec_inv r s"
  shows "exec_inv r (snd (spawn s))"
proof -
  have "\<not> allocated s (ex_next s)" by (simp add: allocated_def)
  then have new: "ex_next s \<notin> ex_tasks s" "ex_next s \<notin> set (ex_global s)" "r \<noteq> Some (ex_next s)"
    using exec_invD [OF assms] by blast+
  have "header_ok True 1 False (task_new :: 'a task_header)" by (simp add: header_ok_def task_new_def)
  then show ?thesis
    using assms new unfolding exec_inv_def
    by (auto simp: spawn_def set_header_def gq_push_header_def allocated_def task_new_def less_Suc_eq count_notin Let_def)
qed

lemma exec_inv_action: "exec_inv r s \<Longrightarrow> exec_inv r (do_action a s)"
  by (cases a) (simp_all add: exec_inv_wake exec_inv_spawn exec_inv_abort exec_inv_join)

lemma exec_inv_actions: "exec_inv r s \<Longrightarrow> exec_inv r (fold do_action as s)"
  by (induction as arbitrary: s) (simp_all add: exec_inv_action)

subsection \<open>Polling\<close>

lemma popped_header:
  assumes inv: "exec_inv None s" and g: "ex_global s = key # g"
  shows "key \<in> ex_tasks s" and "key \<notin> set g" and "h_body (ex_headers s key) \<noteq> None"
    and "h_state (ex_headers s key) = SCHEDULED \<or> h_state (ex_headers s key) = CANCELLED"
    and "h_output (ex_headers s key) = None" and "allocated s key"
proof -
  have al: "allocated s key" using exec_invD(3) [OF inv, of key] g by simp
  then have "header_ok (key \<in> ex_tasks s) (Suc (count_list g key)) False (ex_headers s key)"
    using exec_invD(1) [OF inv, of key] g by simp
  then have "key \<in> ex_tasks s \<and> count_list g key = 0 \<and> h_body (ex_headers s key) \<noteq> None
      \<and> (h_state (ex_headers s key) = SCHEDULED \<or> h_state (ex_headers s key) = CANCELLED)
      \<and> h_output (ex_headers s key) = None"
    by (auto simp: header_ok_def split: task_state.splits if_splits)
  then show "key \<in> ex_tasks s" "key \<notin> set g" "h_body (ex_headers s key) \<noteq> None"
    "h_state (ex_headers s key) = SCHEDULED \<or> h_state (ex_headers s key) = CANCELLED"
    "h_output (ex_headers s key) = None" "allocated s key"
    using al by (auto simp: count_list_0_iff)
qed

lemma exec_inv_start:
  assumes inv: "exec_inv None s" and g: "ex_global s = key # g"
    and st: "h_state (ex_headers s key) = SCHEDULED"
  shows "exec_inv (Some key)
    (set_header key (ex_headers s key\<lparr>h_state := RUNNING, h_body := Some k\<rparr>) (s\<lparr>ex_global := g\<rparr>))"
proof -
  note p = popped_header [OF inv g]
  have "header_ok True 0 True (ex_headers s key\<lparr>h_state := RUNNING, h_body := Some k\<rparr>)"
    using p(5) by (simp add: header_ok_def)
  then show ?thesis
    by (intro exec_inv_change [OF inv p(6)]) (use p g in \<open>auto simp: set_header_def count_notin\<close>)
qed

lemma exec_inv_pend:
  assumes inv: "exec_inv (Some key) s"
  shows "exec_inv None (set_header key (ex_headers s key\<lparr>h_state := IDLE\<rparr>) s)"
proof -
  have al: "allocated s key" using exec_invD(5) [OF inv] by simp
  have "header_ok (key \<in> ex_tasks s) (count_list (ex_global s) key) False (ex_headers s key\<lparr>h_state := IDLE\<rparr>)"
    using exec_invD(1) [OF inv al] by (auto simp: header_ok_def split: task_state.splits)
  then show ?thesis
    by (intro exec_inv_change [OF inv al]) (auto simp: set_header_def)
qed

text \<open>A task that completes or is cancelled leaves the map with its future dropped.\<close>

lemma exec_inv_retire:
  assumes inv: "exec_inv r s" and al: "allocated s key" and r: "r = None \<or> r = Some key"
    and q: "key \<notin> set (ex_global s)" and h: "h_body h = None" "h_join_waker h = None"
    and st: "h_state h = COMPLETED \<or> h_state h = CANCELLED \<and> h_output h = None"
  shows "exec_inv None (set_header key h (s\<lparr>ex_tasks := ex_tasks s - {key}\<rparr>))"
proof -
  have "header_ok False 0 False h" using h st by (auto simp: header_ok_def)
  then show ?thesis
    by (intro exec_inv_change [OF inv al]) (use q r in \<open>auto simp: set_header_def count_notin\<close>)
qed

lemma wake_opt_tasks: "(wake_opt w s)\<lparr>ex_tasks := T\<rparr> = wake_opt w (s\<lparr>ex_tasks := T\<rparr>)"
  by (cases w) (auto simp: wake_opt_def wake_def schedule_task_def compare_exchange_def set_header_def Let_def)

lemma set_header_tasks: "(set_header key h s)\<lparr>ex_tasks := T\<rparr> = set_header key h (s\<lparr>ex_tasks := T\<rparr>)"
  by (simp add: set_header_def)

lemma running_not_queued:
  assumes "exec_inv (Some key) s"
  shows "key \<notin> set (ex_global s)" and "key \<in> ex_tasks s" and "allocated s key"
    and "h_state (ex_headers s key) = RUNNING"
proof -
  have al: "allocated s key" using exec_invD(5) [OF assms] by simp
  with exec_invD(1) [OF assms al] have "count_list (ex_global s) key = 0 \<and> key \<in> ex_tasks s
      \<and> h_state (ex_headers s key) = RUNNING"
    by (auto simp: header_ok_def split: task_state.splits)
  then show "key \<notin> set (ex_global s)" "key \<in> ex_tasks s" "allocated s key"
    "h_state (ex_headers s key) = RUNNING"
    using al by (auto simp: count_list_0_iff)
qed

text \<open>The state in which the actions of a poll have been performed.\<close>

definition polled :: "'v future \<Rightarrow> nat \<Rightarrow> nat \<Rightarrow> 'v executor \<Rightarrow> 'v executor" where
  "polled fut key k s = fold do_action (fst (fut key k))
     (set_header key (ex_headers s key\<lparr>h_state := RUNNING, h_body := Some (Suc k)\<rparr>) s)"

lemma poll_task_eq:
  assumes "h_body (ex_headers s key) = Some k"
  shows "poll_task fut key s =
    (let s2 = polled fut key k s; h2 = ex_headers s2 key
     in case snd (fut key k) of
          Some v \<Rightarrow> Ok (True, wake_opt (h_join_waker h2)
            (set_header key (h2\<lparr>h_output := Some v, h_body := None, h_state := COMPLETED,
               h_join_waker := None\<rparr>) s2))
        | None \<Rightarrow> Ok (False, set_header key (h2\<lparr>h_state := IDLE\<rparr>) s2))"
  by (cases "snd (fut key k)") (simp_all add: poll_task_def polled_def assms Let_def split_beta set_header_def)

lemma wake_opt_frame [simp]:
  "ex_tasks (wake_opt w s) = ex_tasks s" "ex_next (wake_opt w s) = ex_next s"
  by (cases w; simp add: wake_opt_def wake_def schedule_task_def compare_exchange_def set_header_def Let_def)+

lemma set_header_frame [simp]:
  "ex_tasks (set_header key h s) = ex_tasks s" "ex_next (set_header key h s) = ex_next s"
  "ex_global (set_header key h s) = ex_global s"
  "ex_headers (set_header key h s) key = h"
  "tid \<noteq> key \<Longrightarrow> ex_headers (set_header key h s) tid = ex_headers s tid"
  by (simp_all add: set_header_def)

text \<open>One round on a scheduled task, by what its poll returns.\<close>

lemma run_header_scheduled:
  fixes fut :: "'v future"
  assumes "h_state (ex_headers s key) = SCHEDULED" and "key \<in> ex_tasks s"
    and "h_body (ex_headers s key) = Some k"
  defines "s2 \<equiv> polled fut key k s"
  defines "h2 \<equiv> ex_headers s2 key"
  shows "snd (fut key k) = None \<Longrightarrow>
      run_header fut key s = Ok (set_header key (h2\<lparr>h_state := IDLE\<rparr>) s2)"
    and "snd (fut key k) = Some v \<Longrightarrow>
      run_header fut key s = Ok (wake_opt (h_join_waker h2)
        (set_header key (h2\<lparr>h_output := Some v, h_body := None, h_state := COMPLETED, h_join_waker := None\<rparr>)
          (s2\<lparr>ex_tasks := ex_tasks s2 - {key}\<rparr>)))"
  unfolding s2_def h2_def
  by (simp_all add: run_header_def assms(1,2) poll_task_eq [OF assms(3)] Let_def wake_opt_tasks set_header_tasks)

lemma exec_inv_polled:
  assumes "exec_inv None s" and "ex_global s = key # g" and "h_state (ex_headers s key) = SCHEDULED"
  shows "exec_inv (Some key) (polled fut key k (s\<lparr>ex_global := g\<rparr>))"
  unfolding polled_def using exec_inv_actions [OF exec_inv_start [OF assms, of "Suc k"]] by simp

text \<open>The task handled by one round, popped from the front of the global queue.\<close>

lemma run_header_spec:
  assumes inv: "exec_inv None s" and g: "ex_global s = key # g"
  shows "\<exists>s'. run_header fut key (s\<lparr>ex_global := g\<rparr>) = Ok s' \<and> exec_inv None s'"
proof -
  note p = popped_header [OF inv g]
  let ?s = "s\<lparr>ex_global := g\<rparr>"
  obtain k where k: "h_body (ex_headers ?s key) = Some k" using p(3) by auto
  show ?thesis
  proof (cases "h_state (ex_headers s key) = CANCELLED")
    case True
    let ?h = "ex_headers s key\<lparr>h_body := None, h_state := CANCELLED, h_join_waker := None\<rparr>"
    have "header_ok False 0 False ?h" using p(5) by (simp add: header_ok_def)
    then have "exec_inv None (set_header key ?h (s\<lparr>ex_global := g, ex_tasks := ex_tasks s - {key}\<rparr>))"
      by (intro exec_inv_change [OF inv p(6)]) (use p g in \<open>auto simp: set_header_def count_notin\<close>)
    then show ?thesis
      using True p(1) by (auto simp: run_header_def cancel_def exec_inv_wake_opt Let_def)
  next
    case False
    then have st: "h_state (ex_headers s key) = SCHEDULED" using p(4) by simp
    note i2 = exec_inv_polled [OF inv g st, of fut k]
    note i3 = running_not_queued [OF i2]
    have st': "h_state (ex_headers ?s key) = SCHEDULED" "key \<in> ex_tasks ?s" using st p(1) by simp_all
    show ?thesis
    proof (cases "snd (fut key k)")
      case None
      then show ?thesis
        using run_header_scheduled(1) [where fut = fut, OF st' k None] exec_inv_pend [OF i2] by blast
    next
      case (Some v)
      show ?thesis
        using run_header_scheduled(2) [where fut = fut, OF st' k Some] exec_inv_retire [OF i2 i3(3) _ i3(1)]
        by (auto intro!: exec_inv_wake_opt)
    qed
  qed
qed

subsection \<open>The loops\<close>

lemma next_task_global:
  assumes "exec_inv None s"
  shows "next_task s = (case ex_global s of [] \<Rightarrow> (None, s) | key # g \<Rightarrow> (Some key, s\<lparr>ex_global := g\<rparr>))"
  using lq.pop_empty [OF exec_invD(6,7) [OF assms]]
  by (auto simp: next_task_def Let_def split: list.splits)

lemma drain_round_spec:
  assumes "exec_inv None s"
  shows "ex_global s = [] \<Longrightarrow> drain_round fut s = Ok None"
    and "ex_global s = key # g \<Longrightarrow> \<exists>s'. drain_round fut s = Ok (Some s') \<and>
      run_header fut key (s\<lparr>ex_global := g\<rparr>) = Ok s' \<and> exec_inv None s'"
  using run_header_spec [OF assms, of key g fut]
  by (auto simp: drain_round_def next_task_global [OF assms])

lemma drain_partial:
  assumes "drain fut did s = Some r" and "exec_inv None s"
  shows "\<exists>did' s'. r = Ok (did', s') \<and> exec_inv None s' \<and> ex_global s' = []"
proof -
  have "exec_inv None s \<longrightarrow> (\<exists>did' s'. r = Ok (did', s') \<and> exec_inv None s' \<and> ex_global s' = [])"
  proof (rule drain.raw_induct [where P = "\<lambda>fut did s r. exec_inv None s \<longrightarrow>
      (\<exists>did' s'. r = Ok (did', s') \<and> exec_inv None s' \<and> ex_global s' = [])", OF _ assms(1)])
    fix f :: "'a future \<Rightarrow> bool \<Rightarrow> 'a executor \<Rightarrow> (bool \<times> 'a executor, unit) outcome option"
      and fut did s r
    assume IH: "\<And>fut did s r. f fut did s = Some r \<Longrightarrow> exec_inv None s \<longrightarrow>
        (\<exists>did' s'. r = Ok (did', s') \<and> exec_inv None s' \<and> ex_global s' = [])"
      and r: "(case drain_round fut s of Panic \<Rightarrow> Some Panic | Err e \<Rightarrow> Some (Err e)
        | Ok None \<Rightarrow> Some (Ok (did, s)) | Ok (Some s') \<Rightarrow> f fut True s') = Some r"
    show "exec_inv None s \<longrightarrow> (\<exists>did' s'. r = Ok (did', s') \<and> exec_inv None s' \<and> ex_global s' = [])"
    proof
      assume inv: "exec_inv None s"
      show "\<exists>did' s'. r = Ok (did', s') \<and> exec_inv None s' \<and> ex_global s' = []"
      proof (cases "ex_global s")
        case Nil
        then show ?thesis using drain_round_spec(1) [OF inv] r inv by auto
      next
        case (Cons key g)
        then obtain s' where "drain_round fut s = Ok (Some s')" "exec_inv None s'"
          using drain_round_spec(2) [OF inv] by blast
        then show ?thesis using IH [of fut True s' r] r by simp
      qed
    qed
  qed
  then show ?thesis using assms(2) by simp
qed

section \<open>What an action leaves alone\<close>

text \<open>
  An action only appends to the global queue; it neither drops a future nor removes a task,
  and a cancelled task stays cancelled and is not queued again.
\<close>

definition extends :: "'v executor \<Rightarrow> 'v executor \<Rightarrow> bool" where
  "extends s s' \<longleftrightarrow> (\<exists>ys. ex_global s' = ex_global s @ ys \<and> ex_next s \<le> ex_next s' \<and>
     (\<forall>tid. allocated s tid \<longrightarrow> h_body (ex_headers s' tid) = h_body (ex_headers s tid) \<and>
        (tid \<in> ex_tasks s' \<longleftrightarrow> tid \<in> ex_tasks s) \<and>
        (h_state (ex_headers s tid) = CANCELLED \<longrightarrow>
           h_state (ex_headers s' tid) = CANCELLED \<and> tid \<notin> set ys)))"

lemma extends_refl: "extends s s"
  by (simp add: extends_def)

lemma extends_trans:
  assumes "extends s t" and "extends t u"
  shows "extends s u"
proof -
  obtain ys where ys: "ex_global t = ex_global s @ ys" "ex_next s \<le> ex_next t"
    "\<And>tid. allocated s tid \<Longrightarrow> h_body (ex_headers t tid) = h_body (ex_headers s tid) \<and>
        (tid \<in> ex_tasks t \<longleftrightarrow> tid \<in> ex_tasks s) \<and> (h_state (ex_headers s tid) = CANCELLED \<longrightarrow>
           h_state (ex_headers t tid) = CANCELLED \<and> tid \<notin> set ys)"
    using assms(1) unfolding extends_def by blast
  obtain zs where zs: "ex_global u = ex_global t @ zs" "ex_next t \<le> ex_next u"
    "\<And>tid. allocated t tid \<Longrightarrow> h_body (ex_headers u tid) = h_body (ex_headers t tid) \<and>
        (tid \<in> ex_tasks u \<longleftrightarrow> tid \<in> ex_tasks t) \<and> (h_state (ex_headers t tid) = CANCELLED \<longrightarrow>
           h_state (ex_headers u tid) = CANCELLED \<and> tid \<notin> set zs)"
    using assms(2) unfolding extends_def by blast
  have "allocated t tid" if "allocated s tid" for tid using that ys(2) by (simp add: allocated_def)
  then have "h_body (ex_headers u tid) = h_body (ex_headers s tid) \<and>
        (tid \<in> ex_tasks u \<longleftrightarrow> tid \<in> ex_tasks s) \<and> (h_state (ex_headers s tid) = CANCELLED \<longrightarrow>
           h_state (ex_headers u tid) = CANCELLED \<and> tid \<notin> set (ys @ zs))" if "allocated s tid" for tid
    using ys(3) zs(3) that by simp
  moreover have "ex_global u = ex_global s @ (ys @ zs)" "ex_next s \<le> ex_next u"
    using ys(1,2) zs(1,2) by simp_all
  ultimately show ?thesis unfolding extends_def by blast
qed

lemma extends_quiet:
  assumes "ex_global s' = ex_global s" "ex_next s' = ex_next s" "ex_tasks s' = ex_tasks s"
    and "\<And>tid. h_body (ex_headers s' tid) = h_body (ex_headers s tid)"
    and "\<And>tid. h_state (ex_headers s tid) = CANCELLED \<Longrightarrow> h_state (ex_headers s' tid) = CANCELLED"
  shows "extends s s'"
  using assms by (simp add: extends_def)

lemma extends_wake: "extends s (wake w s)"
proof (cases "w \<noteq> 0 \<and> h_state (ex_headers s w) = IDLE")
  case True
  then have "ex_global (wake w s) = ex_global s @ [w]"
    "\<And>tid. h_body (ex_headers (wake w s) tid) = h_body (ex_headers s tid)"
    "\<And>tid. h_state (ex_headers s tid) = CANCELLED \<Longrightarrow> h_state (ex_headers (wake w s) tid) = CANCELLED \<and> tid \<noteq> w"
    "ex_next (wake w s) = ex_next s" "ex_tasks (wake w s) = ex_tasks s"
    by (auto simp: wake_def schedule_task_def compare_exchange_def set_header_def gq_push_header_def)
  then show ?thesis unfolding extends_def by auto
next
  case False
  then show ?thesis
    by (intro extends_quiet) (auto simp: wake_def schedule_task_def compare_exchange_def)
qed

lemma extends_spawn: "extends s (snd (spawn s))"
  by (auto simp: extends_def spawn_def set_header_def gq_push_header_def allocated_def Let_def)

lemma extends_abort: "extends s (abort tid s)"
  by (rule extends_quiet) (auto simp: abort_def compare_exchange_def set_header_def Let_def)

lemma extends_join: "extends s (snd (join_poll tid w s))"
  by (rule extends_quiet)
    (auto simp: join_poll_def take_output_def set_header_def Let_def split: option.splits prod.splits)

lemma extends_action: "extends s (do_action a s)"
  by (cases a) (simp_all add: extends_wake extends_spawn extends_abort extends_join, simp_all add: extends_def)

lemma extends_actions: "extends s (fold do_action as s)"
  by (induction as arbitrary: s) (auto intro: extends_refl extends_trans extends_action)

lemma extends_wakes: "extends s (fold wake ws s)"
  by (induction ws arbitrary: s) (auto intro: extends_refl extends_trans extends_wake)

lemma extends_wake_opt: "extends s (wake_opt w s)"
  by (cases w) (simp_all add: wake_opt_def extends_refl extends_wake)

text \<open>Seen from the other tasks, a round of the drain loop is such an extension of the popped queue.\<close>

definition extends_but :: "nat \<Rightarrow> 'v executor \<Rightarrow> 'v executor \<Rightarrow> bool" where
  "extends_but key s s' \<longleftrightarrow> (\<exists>ys. ex_global s' = ex_global s @ ys \<and> ex_next s \<le> ex_next s' \<and>
     (\<forall>tid. allocated s tid \<and> tid \<noteq> key \<longrightarrow> h_body (ex_headers s' tid) = h_body (ex_headers s tid) \<and>
        (tid \<in> ex_tasks s' \<longleftrightarrow> tid \<in> ex_tasks s) \<and>
        (h_state (ex_headers s tid) = CANCELLED \<longrightarrow>
           h_state (ex_headers s' tid) = CANCELLED \<and> tid \<notin> set ys)))"

lemma extends_but_extends:
  assumes "ex_global s1 = ex_global s" "ex_next s1 = ex_next s"
    and "\<And>tid. tid \<noteq> key \<Longrightarrow> ex_headers s1 tid = ex_headers s tid \<and> (tid \<in> ex_tasks s1 \<longleftrightarrow> tid \<in> ex_tasks s)"
    and "extends s1 s2"
    and "ex_global s3 = ex_global s2" "ex_next s3 = ex_next s2"
    and "\<And>tid. tid \<noteq> key \<Longrightarrow> ex_headers s3 tid = ex_headers s2 tid \<and> (tid \<in> ex_tasks s3 \<longleftrightarrow> tid \<in> ex_tasks s2)"
    and "extends s3 s4"
  shows "extends_but key s s4"
proof -
  obtain ys where ys: "ex_global s2 = ex_global s @ ys" "ex_next s \<le> ex_next s2"
    "\<And>tid. allocated s tid \<Longrightarrow> h_body (ex_headers s2 tid) = h_body (ex_headers s1 tid) \<and>
        (tid \<in> ex_tasks s2 \<longleftrightarrow> tid \<in> ex_tasks s1) \<and> (h_state (ex_headers s1 tid) = CANCELLED \<longrightarrow>
           h_state (ex_headers s2 tid) = CANCELLED \<and> tid \<notin> set ys)"
    using assms(1,2,4) unfolding extends_def allocated_def by auto
  obtain zs where zs: "ex_global s4 = ex_global s2 @ zs" "ex_next s2 \<le> ex_next s4"
    "\<And>tid. allocated s2 tid \<Longrightarrow> h_body (ex_headers s4 tid) = h_body (ex_headers s3 tid) \<and>
        (tid \<in> ex_tasks s4 \<longleftrightarrow> tid \<in> ex_tasks s3) \<and> (h_state (ex_headers s3 tid) = CANCELLED \<longrightarrow>
           h_state (ex_headers s4 tid) = CANCELLED \<and> tid \<notin> set zs)"
    using assms(5,6,8) unfolding extends_def allocated_def by auto
  have "allocated s2 tid" if "allocated s tid" for tid using that ys(2) by (simp add: allocated_def)
  then have "h_body (ex_headers s4 tid) = h_body (ex_headers s tid) \<and>
        (tid \<in> ex_tasks s4 \<longleftrightarrow> tid \<in> ex_tasks s) \<and> (h_state (ex_headers s tid) = CANCELLED \<longrightarrow>
           h_state (ex_headers s4 tid) = CANCELLED \<and> tid \<notin> set (ys @ zs))" if "allocated s tid" "tid \<noteq> key" for tid
    using ys(3) zs(3) that assms(3) [of tid] assms(7) [of tid] by simp
  moreover have "ex_global s4 = ex_global s @ (ys @ zs)" "ex_next s \<le> ex_next s4"
    using ys(1,2) zs(1,2) by simp_all
  ultimately show ?thesis unfolding extends_but_def by blast
qed

lemma run_header_others:
  assumes inv: "exec_inv None s" and g: "ex_global s = key # g"
    and run: "run_header fut key (s\<lparr>ex_global := g\<rparr>) = Ok s'"
  shows "extends_but key (s\<lparr>ex_global := g\<rparr>) s'"
proof -
  note p = popped_header [OF inv g]
  let ?s = "s\<lparr>ex_global := g\<rparr>"
  obtain k where k: "h_body (ex_headers ?s key) = Some k" using p(3) by auto
  show ?thesis
  proof (cases "h_state (ex_headers s key) = CANCELLED")
    case True
    define h where "h = ex_headers s key\<lparr>h_body := None, h_state := CANCELLED, h_join_waker := None\<rparr>"
    have "s' = wake_opt (h_join_waker (ex_headers s key)) (set_header key h (s\<lparr>ex_global := g, ex_tasks := ex_tasks s - {key}\<rparr>))"
      using run True p(1) by (simp add: run_header_def cancel_def Let_def h_def)
    then show ?thesis
      by (auto intro!: extends_but_extends [OF _ _ _ extends_refl [of ?s] _ _ _ extends_wake_opt])
  next
    case False
    then have st: "h_state (ex_headers ?s key) = SCHEDULED" "key \<in> ex_tasks ?s" using p(1,4) by simp_all
    define s1 where "s1 = set_header key (ex_headers ?s key\<lparr>h_state := RUNNING, h_body := Some (Suc k)\<rparr>) ?s"
    have e: "extends s1 (polled fut key k ?s)" by (simp add: polled_def s1_def extends_actions)
    have s1: "ex_global s1 = ex_global ?s" "ex_next s1 = ex_next ?s"
      "\<And>tid. tid \<noteq> key \<Longrightarrow> ex_headers s1 tid = ex_headers ?s tid \<and> (tid \<in> ex_tasks s1 \<longleftrightarrow> tid \<in> ex_tasks ?s)"
      by (simp_all add: s1_def)
    show ?thesis
    proof (cases "snd (fut key k)")
      case None
      then show ?thesis
        using run run_header_scheduled(1) [where fut = fut, OF st k None]
        by (intro extends_but_extends [OF s1 e _ _ _ extends_refl]) auto
    next
      case (Some v)
      then show ?thesis
        using run run_header_scheduled(2) [where fut = fut, OF st k Some]
        by (auto intro!: extends_but_extends [OF s1 e _ _ _ extends_wake_opt])
    qed
  qed
qed

section \<open>Properties of the executor\<close>

subsection \<open>No future is used after it is freed\<close>

lemma exec_inv_new: "exec_inv None (executor_new origin)"
  by (simp add: exec_inv_def executor_new_def lq_inv_new allocated_def task_new_def)

lemma exec_inv_tick: "exec_inv None s \<Longrightarrow> exec_inv None (tick_timers now s)"
  by (simp add: tick_timers_def exec_inv_wakes split_beta)

lemma exec_inv_poll_root:
  "exec_inv None s \<Longrightarrow> poll_root root k out s = (out', k', s') \<Longrightarrow> exec_inv None s'"
  by (auto simp: poll_root_def exec_inv_actions split: if_splits prod.splits)

lemma exec_inv_park: "exec_inv None s \<Longrightarrow> exec_inv None (park fired s)"
  by (simp add: park_def exec_inv_wakes)

text \<open>One turn of \<^verbatim>\<open>block_on\<close>, once the root poll and the drain are known.\<close>

definition after_drain :: "turn \<Rightarrow> bool \<Rightarrow> 'v executor \<Rightarrow> 'v executor" where
  "after_drain tn did s =
     (if \<not> did \<and> lq_is_empty (ex_local s) \<and> length (ex_global s) = 0 then park (tn_fired tn) s else s)"

definition turn_start :: "turn \<Rightarrow> 'v executor \<Rightarrow> 'v executor" where
  "turn_start tn s = tick_timers (tn_now tn) (fold wake (tn_async tn) s)"

lemma block_on_turn:
  assumes p: "poll_root root k out (turn_start tn s) = (out', k', s2)"
  shows "out' \<noteq> None \<and> ex_tasks s2 = {} \<Longrightarrow>
      block_on_loop fut root (tn # tns) k out s = Some (Ok (Some (the out', s2)))"
    and "\<not> (out' \<noteq> None \<and> ex_tasks s2 = {}) \<Longrightarrow> drain fut False s2 = None \<Longrightarrow>
      block_on_loop fut root (tn # tns) k out s = None"
    and "\<not> (out' \<noteq> None \<and> ex_tasks s2 = {}) \<Longrightarrow> drain fut False s2 = Some (Ok (did, s3)) \<Longrightarrow>
      block_on_loop fut root (tn # tns) k out s =
        (if out' \<noteq> None \<and> ex_tasks s3 = {} then Some (Ok (Some (the out', s3)))
         else block_on_loop fut root tns k' out' (after_drain tn did s3))"
proof -
  note unfold = block_on_loop.simps turn_start_def [symmetric] p Let_def prod.case
  show "out' \<noteq> None \<and> ex_tasks s2 = {} \<Longrightarrow>
      block_on_loop fut root (tn # tns) k out s = Some (Ok (Some (the out', s2)))"
    by (simp only: unfold) simp
  show "\<not> (out' \<noteq> None \<and> ex_tasks s2 = {}) \<Longrightarrow> drain fut False s2 = None \<Longrightarrow>
      block_on_loop fut root (tn # tns) k out s = None"
    by (simp only: unfold) simp
  show "\<not> (out' \<noteq> None \<and> ex_tasks s2 = {}) \<Longrightarrow> drain fut False s2 = Some (Ok (did, s3)) \<Longrightarrow>
      block_on_loop fut root (tn # tns) k out s =
        (if out' \<noteq> None \<and> ex_tasks s3 = {} then Some (Ok (Some (the out', s3)))
         else block_on_loop fut root tns k' out' (after_drain tn did s3))"
    by (simp only: unfold after_drain_def option.case outcome.case if_False)
qed

lemma exec_inv_turn_start: "exec_inv None s \<Longrightarrow> exec_inv None (turn_start tn s)"
  by (simp add: turn_start_def exec_inv_tick exec_inv_wakes)

lemma exec_inv_after_drain: "exec_inv None s \<Longrightarrow> exec_inv None (after_drain tn did s)"
  by (simp add: after_drain_def exec_inv_park)

text \<open>
  The cases of a turn from a state that satisfies the invariant, for inductions over the
  turns: it returns, its drain does not end, or it goes on.
\<close>

lemma block_on_turn_cases:
  assumes inv: "exec_inv None s" and p: "poll_root root k out (turn_start tn s) = (out', k', s2)"
  obtains (early) "block_on_loop fut root (tn # tns) k out s = Some (Ok (Some (the out', s2)))"
      "exec_inv None s2" "ex_tasks s2 = {}"
  | (diverges) "block_on_loop fut root (tn # tns) k out s = None"
  | (late) did s3 where "drain fut False s2 = Some (Ok (did, s3))" "exec_inv None s3" "ex_tasks s3 = {}"
      "block_on_loop fut root (tn # tns) k out s = Some (Ok (Some (the out', s3)))"
  | (again) did s3 where "drain fut False s2 = Some (Ok (did, s3))" "exec_inv None (after_drain tn did s3)"
      "block_on_loop fut root (tn # tns) k out s = block_on_loop fut root tns k' out' (after_drain tn did s3)"
proof -
  have i2: "exec_inv None s2" by (rule exec_inv_poll_root [OF exec_inv_turn_start [OF inv] p])
  show thesis
  proof (cases "out' \<noteq> None \<and> ex_tasks s2 = {}")
    case True
    then show thesis using early block_on_turn(1) [OF p True] i2 by blast
  next
    case nd: False
    show thesis
    proof (cases "drain fut False s2")
      case None
      show thesis by (rule diverges) (rule block_on_turn(2) [OF p nd None])
    next
      case (Some r)
      then obtain did s3 where d: "drain fut False s2 = Some (Ok (did, s3))" and i3: "exec_inv None s3"
        using drain_partial [OF Some i2] by blast
      note t = block_on_turn(3) [OF p nd d, of tns]
      show thesis
      proof (cases "out' \<noteq> None \<and> ex_tasks s3 = {}")
        case True
        then show thesis using late [OF d i3] t by simp
      next
        case False
        then show thesis using again [OF d exec_inv_after_drain [OF i3]] t by (simp only: if_False)
      qed
    qed
  qed
qed

lemma block_on_loop_inv:
  assumes "exec_inv None s" and "block_on_loop fut root tns k out s = Some r"
  shows "r = Ok None \<or> (\<exists>v s'. r = Ok (Some (v, s')) \<and> exec_inv None s' \<and> ex_tasks s' = {})"
  using assms
proof (induction tns arbitrary: k out s)
  case Nil
  then show ?case by simp
next
  case (Cons tn tns)
  obtain out' k' s2 where p: "poll_root root k out (turn_start tn s) = (out', k', s2)" by (metis surj_pair)
  from Cons.prems(1) p show ?case
  proof (cases rule: block_on_turn_cases [where fut = fut and tns = tns])
    case (again did s3)
    then show ?thesis using Cons.IH Cons.prems(2) by simp
  qed (use Cons.prems(2) in auto)
qed


text \<open>A wheel without timers fires nothing.\<close>

lemma idle_wheel_tick:
  assumes "wheel_shape w" and "pending w = []"
  shows "snd (timer_tick w now) = [] \<and> wheel_shape (fst (timer_tick w now)) \<and> pending (fst (timer_tick w now)) = []"
proof (cases "tw_last_tick_ms w \<le> instant_to_ms w now")
  case True
  obtain w' fired where t: "timer_tick w now = (w', fired)" by fastforce
  from tick_drained [OF assms(1) True t] obtain F w1 where "fired = map te_waker F"
    "w' = w1\<lparr>tw_last_tick_ms := instant_to_ms w now\<rparr>"
    "drained_to (instant_to_ms w now) (drain_plan (tw_last_tick_ms w) (instant_to_ms w now)) w w1 F" .
  then show ?thesis using assms(2) t by (auto simp: drained_to_def)
next
  case False
  then show ?thesis using assms by (simp add: timer_tick_past)
qed

definition quiet_turn :: "turn" where
  "quiet_turn = \<lparr>tn_now = 0, tn_async = [], tn_fired = []\<rparr>"

lemma quiet_turn_start:
  assumes "wheel_shape (ex_wheel s)" and "pending (ex_wheel s) = []"
  shows "\<exists>w. turn_start quiet_turn s = s\<lparr>ex_wheel := w\<rparr> \<and> wheel_shape w \<and> pending w = []"
  using idle_wheel_tick [OF assms, of 0]
  by (auto simp: turn_start_def quiet_turn_def tick_timers_def split_beta intro!: exI)

text \<open>A root that spawns one task and joins it; the task completes at once.\<close>

definition demo_root :: "nat \<Rightarrow> action list \<times> nat option" where
  "demo_root k = (if k = 0 then ([Spawn, Join 1 0], None) else ([Join 1 0], Some 5))"

definition demo_future :: "nat future" where
  "demo_future tid k = ([], Some 7)"

lemma demo_block_on:
  "\<exists>s. block_on demo_future demo_root 0 [quiet_turn, quiet_turn] = Some (Ok (Some (5, s))) \<and> ex_next s = 2"
proof -
  let ?s0 = "executor_new 0 :: nat executor"
  obtain w where w: "turn_start quiet_turn ?s0 = ?s0\<lparr>ex_wheel := w\<rparr>" "wheel_shape w" "pending w = []"
    using quiet_turn_start [of ?s0] by (auto simp: executor_new_def new_shape new_pending)
  define s1 where "s1 = ?s0\<lparr>ex_wheel := w\<rparr>"
  have s1: "ex_global s1 = []" "ex_tasks s1 = {}" "ex_next s1 = 1" "ex_wheel s1 = w" "ex_local s1 = local_queue_new"
    by (simp_all add: s1_def executor_new_def)
  define s2 where "s2 = fold do_action [Spawn, Join 1 0] s1"
  have s2: "poll_root demo_root 0 None (turn_start quiet_turn ?s0) = (None, 1, s2)"
    by (simp add: w(1) s1_def [symmetric] poll_root_def demo_root_def s2_def)
  have s2': "ex_global s2 = [1]" "ex_tasks s2 = {1}" "ex_next s2 = 2" "ex_wheel s2 = w"
    "ex_headers s2 1 = task_new\<lparr>h_join_waker := Some 0\<rparr>" "ex_local s2 = local_queue_new"
    using s1 by (simp_all add: s2_def spawn_def join_poll_def set_header_def gq_push_header_def task_new_def Let_def)
  have pop: "lq_pop local_queue_new = (None, local_queue_new :: nat local_queue)"
    using lq.pop_empty [OF lq_inv_new] by simp
  obtain s3 where s3: "drain demo_future False s2 = Some (Ok (True, s3))"
    "ex_global s3 = []" "ex_tasks s3 = {}" "ex_next s3 = 2" "ex_wheel s3 = w"
    using s2'
    by (simp add: drain.simps drain_round_def next_task_def run_header_def poll_task_def demo_future_def
        task_new_def set_header_def wake_opt_def wake_def pop Let_def)
  obtain w' where w': "turn_start quiet_turn s3 = s3\<lparr>ex_wheel := w'\<rparr>"
    using quiet_turn_start [of s3] s3(5) w(2,3) by auto
  obtain s4 where s4: "poll_root demo_root 1 None (turn_start quiet_turn s3) = (Some 5, 2, s4)"
    "ex_tasks s4 = {}" "ex_next s4 = 2"
    using s3 by (auto simp: w' poll_root_def demo_root_def join_poll_def take_output_def set_header_def
        Let_def split: option.splits)
  have "after_drain quiet_turn True s3 = s3" by (simp add: after_drain_def)
  then show ?thesis
    using block_on_turn(3) [OF s2 _ s3(1), of "[quiet_turn]"] block_on_turn(1) [OF s4(1), of demo_future "[]"] s4
    by (simp add: block_on_def)
qed


subsection \<open>A queued task is polled\<close>

text \<open>A number of rounds of the drain loop, as long as there is work.\<close>

primrec drain_rounds :: "'v future \<Rightarrow> nat \<Rightarrow> 'v executor \<Rightarrow> ('v executor option, unit) outcome" where
  "drain_rounds fut 0 s = Ok (Some s)"
| "drain_rounds fut (Suc n) s =
     bind_outcome (drain_round fut s) (\<lambda>r. case r of None \<Rightarrow> Ok None | Some s' \<Rightarrow> drain_rounds fut n s')"

lemma run_header_progress:
  assumes inv: "exec_inv None s" and g: "ex_global s = key # g"
    and run: "run_header fut key (s\<lparr>ex_global := g\<rparr>) = Ok s'" and body: "h_body (ex_headers s key) = Some j"
  shows "h_body (ex_headers s' key) = None \<or>
    h_body (ex_headers s' key) = Some (Suc j) \<and> snd (fut key j) = None"
proof (cases "h_state (ex_headers s key) = CANCELLED")
  case True
  define h where "h = ex_headers s key\<lparr>h_body := None, h_state := CANCELLED, h_join_waker := None\<rparr>"
  define t where "t = set_header key h (s\<lparr>ex_global := g, ex_tasks := ex_tasks s - {key}\<rparr>)"
  have "s' = wake_opt (h_join_waker (ex_headers s key)) t"
    using run True popped_header(1) [OF inv g] by (simp add: run_header_def cancel_def Let_def h_def t_def)
  moreover have "allocated t key" using popped_header(6) [OF inv g] by (simp add: t_def allocated_def)
  ultimately have "h_body (ex_headers s' key) = h_body (ex_headers t key)"
    using extends_wake_opt unfolding extends_def by blast
  then show ?thesis by (simp add: t_def h_def)
next
  case False
  let ?s = "s\<lparr>ex_global := g\<rparr>"
  have st: "h_state (ex_headers ?s key) = SCHEDULED" "key \<in> ex_tasks ?s" "h_body (ex_headers ?s key) = Some j"
    using False popped_header(1,4) [OF inv g] body by simp_all
  define t where "t = set_header key (ex_headers ?s key\<lparr>h_state := RUNNING, h_body := Some (Suc j)\<rparr>) ?s"
  have al: "allocated t key" using popped_header(6) [OF inv g] by (simp add: t_def allocated_def)
  have "h_body (ex_headers (polled fut key j ?s) key) = h_body (ex_headers t key)"
    using extends_actions [of t] al unfolding extends_def polled_def t_def by blast
  then have b: "h_body (ex_headers (polled fut key j ?s) key) = Some (Suc j)" by (simp add: t_def)
  show ?thesis
  proof (cases "snd (fut key j)")
    case None
    then show ?thesis using run run_header_scheduled(1) [where fut = fut, OF st None] b by auto
  next
    case (Some v)
    define u where "u = set_header key (ex_headers (polled fut key j ?s) key\<lparr>h_output := Some v, h_body := None,
        h_state := COMPLETED, h_join_waker := None\<rparr>)
        ((polled fut key j ?s)\<lparr>ex_tasks := ex_tasks (polled fut key j ?s) - {key}\<rparr>)"
    have "ex_next ?s \<le> ex_next (polled fut key j ?s)"
      using extends_actions [of t] unfolding extends_def polled_def t_def by auto
    then have "allocated u key" using al by (auto simp: u_def allocated_def t_def)
    moreover have "s' = wake_opt (h_join_waker (ex_headers (polled fut key j ?s) key)) u"
      using run run_header_scheduled(2) [where fut = fut, OF st Some] by (simp add: u_def)
    ultimately have "h_body (ex_headers s' key) = h_body (ex_headers u key)"
      using extends_wake_opt unfolding extends_def by blast
    then show ?thesis by (simp add: u_def)
  qed
qed

text \<open>
  C25: a task at position \<open>k\<close> of the queue gets its turn after exactly \<open>k\<close> other
  rounds, whatever the tasks before it do: after \<open>k + 1\<close> rounds its future has been
  polled once more, has completed or has been dropped. No task is overtaken by one queued
  later.
\<close>

theorem queued_task_gets_its_turn:
  assumes "exec_inv None s" and "k < length (ex_global s)" and "h_body (ex_headers s (ex_global s ! k)) = Some j"
  shows "\<exists>s'. drain_rounds fut (Suc k) s = Ok (Some s') \<and>
    (h_body (ex_headers s' (ex_global s ! k)) = None \<or> h_body (ex_headers s' (ex_global s ! k)) = Some (Suc j))"
  using assms
proof (induction k arbitrary: s)
  case 0
  then obtain key g where g: "ex_global s = key # g" by (cases "ex_global s") auto
  obtain s' where "drain_round fut s = Ok (Some s')" "run_header fut key (s\<lparr>ex_global := g\<rparr>) = Ok s'"
    using drain_round_spec(2) [OF "0.prems"(1) g] by blast
  then show ?case using run_header_progress [OF "0.prems"(1) g, of fut s' j] "0.prems"(3) g by auto
next
  case (Suc k)
  then obtain key g where g: "ex_global s = key # g" by (cases "ex_global s") auto
  obtain s' where r: "drain_round fut s = Ok (Some s')" "run_header fut key (s\<lparr>ex_global := g\<rparr>) = Ok s'" "exec_inv None s'"
    using drain_round_spec(2) [OF Suc.prems(1) g] by blast
  have k: "k < length g" using Suc.prems(2) g by simp
  let ?tid = "g ! k"
  have "?tid \<noteq> key" using popped_header(2) [OF Suc.prems(1) g] k by (metis nth_mem)
  moreover have "allocated s ?tid" using exec_invD(3) [OF Suc.prems(1), of ?tid] g k by simp
  moreover obtain ys where "ex_global s' = g @ ys"
    "\<forall>tid. allocated (s\<lparr>ex_global := g\<rparr>) tid \<and> tid \<noteq> key \<longrightarrow> h_body (ex_headers s' tid) = h_body (ex_headers s tid)"
    using run_header_others [OF Suc.prems(1) g r(2)] unfolding extends_but_def by auto
  ultimately have "ex_global s' ! k = ?tid" "k < length (ex_global s')" "h_body (ex_headers s' ?tid) = Some j"
    using k Suc.prems(3) g by (auto simp: nth_append allocated_def)
  with Suc.IH [OF r(3)] r(1) g show ?case by simp
qed

text \<open>Two tasks queued by a root that spawns twice.\<close>

definition two_tasks :: "nat executor" where
  "two_tasks = snd (spawn (snd (spawn (executor_new 0))))"

lemma two_tasks_props:
  "exec_inv None two_tasks" "ex_global two_tasks = [1, 2]" "ex_headers two_tasks 2 = task_new"
  "ex_headers two_tasks 1 = task_new" "ex_tasks two_tasks = {1, 2}" "ex_next two_tasks = 3"
proof -
  show "exec_inv None two_tasks" by (simp add: two_tasks_def exec_inv_spawn exec_inv_new)
  show "ex_global two_tasks = [1, 2]" "ex_headers two_tasks 2 = task_new" "ex_headers two_tasks 1 = task_new"
    "ex_tasks two_tasks = {1, 2}" "ex_next two_tasks = 3"
    by (auto simp: two_tasks_def spawn_def executor_new_def set_header_def gq_push_header_def Let_def)
qed

theorem queued_task_gets_its_turn_witness:
  "\<exists>s'. drain_rounds (\<lambda>tid k. ([Wake 1, Spawn], None)) 2 two_tasks = Ok (Some s') \<and>
     (h_body (ex_headers s' 2) = None \<or> h_body (ex_headers s' 2) = Some 1)"
  using queued_task_gets_its_turn [OF two_tasks_props(1), of 1 0 "\<lambda>tid k. ([Wake 1, Spawn], None)"]
    two_tasks_props(3) [unfolded numeral_2_eq_2]
  by (simp add: two_tasks_props(2) task_new_def numeral_2_eq_2 del: drain_rounds.simps)

subsection \<open>Aborting an idle task\<close>

text \<open>A cancelled task that no queue holds although the executor still owns it.\<close>

definition orphan :: "nat \<Rightarrow> 'v executor \<Rightarrow> bool" where
  "orphan tid s \<longleftrightarrow> allocated s tid \<and> tid \<in> ex_tasks s \<and> tid \<notin> set (ex_global s) \<and>
     h_state (ex_headers s tid) = CANCELLED"

lemma orphan_extends: "orphan tid s \<Longrightarrow> extends s s' \<Longrightarrow> orphan tid s'"
  unfolding orphan_def extends_def by (auto simp: allocated_def)

lemma orphan_wheel [simp]: "orphan tid (s\<lparr>ex_wheel := w\<rparr>) = orphan tid s" "orphan tid (s\<lparr>ex_pipe := n\<rparr>) = orphan tid s"
  by (simp_all add: orphan_def allocated_def)

lemma orphan_drain_round:
  assumes "exec_inv None s" and "orphan tid s" and "drain_round fut s = Ok (Some s')"
  shows "orphan tid s'"
proof (cases "ex_global s")
  case Nil
  then show ?thesis using assms drain_round_spec(1) [OF assms(1)] by simp
next
  case (Cons key g)
  have run: "run_header fut key (s\<lparr>ex_global := g\<rparr>) = Ok s'"
    using drain_round_spec(2) [OF assms(1) Cons, of fut] assms(3) by auto
  have "tid \<noteq> key" using assms(2) Cons by (auto simp: orphan_def)
  then show ?thesis
    using run_header_others [OF assms(1) Cons run] assms(2) Cons
    unfolding orphan_def extends_but_def by (auto simp: allocated_def)
qed

lemma orphan_drain:
  assumes "drain fut did s = Some (Ok (did', s'))" and "exec_inv None s" and "orphan tid s"
  shows "orphan tid s'"
proof -
  let ?P = "\<lambda>(fut :: 'a future) (did :: bool) (s :: 'a executor) (r :: (bool \<times> 'a executor, unit) outcome).
      exec_inv None s \<and> orphan tid s \<longrightarrow> (\<forall>did' s'. r = Ok (did', s') \<longrightarrow> orphan tid s')"
  have "?P fut did s (Ok (did', s'))"
  proof (rule drain.raw_induct [where P = ?P, OF _ assms(1)])
    fix f :: "'a future \<Rightarrow> bool \<Rightarrow> 'a executor \<Rightarrow> (bool \<times> 'a executor, unit) outcome option"
      and fut did s r
    assume IH: "\<And>fut did s r. f fut did s = Some r \<Longrightarrow> ?P fut did s r"
      and r: "(case drain_round fut s of Panic \<Rightarrow> Some Panic | Err e \<Rightarrow> Some (Err e)
        | Ok None \<Rightarrow> Some (Ok (did, s)) | Ok (Some s') \<Rightarrow> f fut True s') = Some r"
    show "?P fut did s r"
    proof (intro impI allI)
      fix did' s' assume inv: "exec_inv None s \<and> orphan tid s" and rr: "r = Ok (did', s')"
      show "orphan tid s'"
      proof (cases "ex_global s")
        case Nil
        then show ?thesis using drain_round_spec(1) [of s fut] r rr inv by auto
      next
        case (Cons key g)
        then obtain t where t: "drain_round fut s = Ok (Some t)" "exec_inv None t"
          using drain_round_spec(2) [of s] inv by blast
        then show ?thesis using IH [of fut True t r] r rr orphan_drain_round [of s tid fut t] inv by simp
      qed
    qed
  qed
  then show ?thesis using assms(2,3) by blast
qed

lemma orphan_turn:
  assumes "orphan tid s"
  shows "orphan tid (turn_start tn s)" and "orphan tid (after_drain tn did s)"
    and "poll_root root k out s = (out', k', s') \<Longrightarrow> orphan tid s'"
proof -
  show "orphan tid (turn_start tn s)"
    unfolding turn_start_def tick_timers_def split_beta Let_def
    by (rule orphan_extends [OF _ extends_wakes]) (simp add: orphan_extends [OF assms extends_wakes])
  show "orphan tid (after_drain tn did s)"
    using assms by (simp add: after_drain_def park_def orphan_extends [OF assms extends_wakes])
  show "poll_root root k out s = (out', k', s') \<Longrightarrow> orphan tid s'"
    using assms orphan_extends [OF assms extends_actions] by (auto simp: poll_root_def split: if_splits prod.splits)
qed

lemma orphan_block_on:
  assumes "exec_inv None s" and "orphan tid s"
  shows "block_on_loop fut root tns k out s \<noteq> Some (Ok (Some (v, s')))"
  using assms
proof (induction tns arbitrary: k out s)
  case Nil
  then show ?case by simp
next
  case (Cons tn tns)
  obtain out' k' s2 where p: "poll_root root k out (turn_start tn s) = (out', k', s2)" by (metis surj_pair)
  have o2: "orphan tid s2" using orphan_turn(3) [OF orphan_turn(1) [OF Cons.prems(2)] p] .
  have i2: "exec_inv None s2" by (rule exec_inv_poll_root [OF exec_inv_turn_start [OF Cons.prems(1)] p])
  from Cons.prems(1) p show ?case
  proof (cases rule: block_on_turn_cases [where fut = fut and tns = tns])
    case early
    then show ?thesis using o2 by (simp add: orphan_def)
  next
    case (late did s3)
    then show ?thesis using orphan_drain [OF late(1) i2 o2] by (simp add: orphan_def)
  next
    case (again did s3)
    then show ?thesis using Cons.IH orphan_turn(2) [OF orphan_drain [OF again(1) i2 o2]] by simp
  qed simp
qed

text \<open>
  aborting a task while it is idle (waiting for a timer, a channel, a descriptor) marks
  it cancelled but queues it nowhere, so no scheduling pass ever drops it: its future stays
  alive and \<^verbatim>\<open>block_on\<close> never returns, whatever happens afterwards.
\<close>

theorem aborted_idle_task_blocks_forever:
  assumes "exec_inv None s" and "h_state (ex_headers s tid) = IDLE"
  shows "block_on_loop fut root tns k out (abort tid s) \<noteq> Some (Ok (Some (v, s')))"
proof -
  have al: "allocated s tid" by (rule exec_invD(4) [OF assms])
  have "orphan tid (abort tid s)"
    using exec_invD(1) [OF assms(1) al] assms(2) al
    by (auto simp: orphan_def abort_def compare_exchange_def header_ok_def allocated_def count_list_0_iff)
  then show ?thesis by (rule orphan_block_on [OF exec_inv_abort [OF assms(1)]])
qed

text \<open>An executor whose only task has been polled once and waits.\<close>

definition idle_task :: "nat executor" where
  "idle_task = (let s = snd (spawn (executor_new 0))
     in set_header 1 (task_new\<lparr>h_state := IDLE, h_body := Some 1\<rparr>) (s\<lparr>ex_global := []\<rparr>))"

lemma idle_task_props: "exec_inv None idle_task" "h_state (ex_headers idle_task 1) = IDLE"
  "ex_global idle_task = []"
  by (auto simp: idle_task_def exec_inv_def spawn_def executor_new_def set_header_def gq_push_header_def
      allocated_def header_ok_def task_new_def lq_inv_new Let_def)

theorem aborted_idle_task_blocks_forever_witness:
  "block_on_loop demo_future demo_root [quiet_turn, quiet_turn] 0 (Some 3) (abort 1 idle_task)
     \<noteq> Some (Ok (Some (3, idle_task)))"
  by (rule aborted_idle_task_blocks_forever [OF idle_task_props(1,2)])

subsection \<open>Waking a task\<close>

lemma wake_effect:
  assumes inv: "exec_inv None s"
  shows "tid \<in> ex_tasks s \<Longrightarrow> h_state (ex_headers s tid) \<noteq> CANCELLED \<Longrightarrow>
      count_list (ex_global (wake tid s)) tid = 1"
    and "ex_global s = tid # g \<Longrightarrow> h_state (ex_headers s tid) = SCHEDULED \<Longrightarrow>
      h_body (ex_headers s tid) = Some k \<Longrightarrow> fut tid k = (acts, None) \<Longrightarrow>
      \<exists>s'. drain_round fut s = Ok (Some s') \<and> h_state (ex_headers s' tid) = IDLE \<and>
        tid \<in> ex_tasks s' \<and> tid \<notin> set (ex_global s')"
proof -
  assume own: "tid \<in> ex_tasks s" and nc: "h_state (ex_headers s tid) \<noteq> CANCELLED"
  have al: "allocated s tid" by (rule exec_invD(2) [OF inv own])
  have i': "exec_inv None (wake tid s)" by (rule exec_inv_wake [OF inv])
  have st: "h_state (ex_headers (wake tid s) tid) = SCHEDULED"
    using exec_invD(1) [OF inv al] own nc al
    by (auto simp: wake_def schedule_task_def compare_exchange_def header_ok_def allocated_def split: task_state.splits)
  have al': "allocated (wake tid s) tid"
    using al extends_wake [of s tid] by (auto simp: extends_def allocated_def)
  show "count_list (ex_global (wake tid s)) tid = 1"
    using exec_invD(1) [OF i' al'] st by (auto simp: header_ok_def)
next
  assume g: "ex_global s = tid # g" and st: "h_state (ex_headers s tid) = SCHEDULED"
    and k: "h_body (ex_headers s tid) = Some k" and f: "fut tid k = (acts, None)"
  let ?s = "s\<lparr>ex_global := g\<rparr>"
  have st': "h_state (ex_headers ?s tid) = SCHEDULED" "tid \<in> ex_tasks ?s" "h_body (ex_headers ?s tid) = Some k"
    using st k popped_header(1) [OF inv g] by simp_all
  have None: "snd (fut tid k) = None" using f by simp
  note run = run_header_scheduled(1) [where fut = fut, OF st' None]
  note rn = running_not_queued [OF exec_inv_polled [OF inv g st, of fut k]]
  show "\<exists>s'. drain_round fut s = Ok (Some s') \<and> h_state (ex_headers s' tid) = IDLE \<and>
      tid \<in> ex_tasks s' \<and> tid \<notin> set (ex_global s')"
    using drain_round_spec(2) [OF inv g, of fut] run rn by auto
qed

text \<open>
  C39: a wake of a task that is neither running nor finished leaves it queued exactly once,
  so that it will be polled; but every wake that reaches a task while its own poll is under
  way is lost: when the poll returns pending the task is idle and in no queue, whatever its
  poll and the wakers it called did. A future that wakes itself and returns pending is never
  polled again on its own.
\<close>

theorem wake_during_poll_is_lost:
  assumes "exec_inv None s"
  shows "(tid \<in> ex_tasks s \<and> h_state (ex_headers s tid) \<noteq> CANCELLED \<longrightarrow>
      count_list (ex_global (wake tid s)) tid = 1) \<and>
    (ex_global s = tid # g \<and> h_state (ex_headers s tid) = SCHEDULED \<and>
      h_body (ex_headers s tid) = Some k \<and> fut tid k = (acts, None) \<longrightarrow>
      (\<exists>s'. drain_round fut s = Ok (Some s') \<and> h_state (ex_headers s' tid) = IDLE \<and>
        tid \<in> ex_tasks s' \<and> tid \<notin> set (ex_global s')))"
  using wake_effect [OF assms] by blast

text \<open>Task 1 yields: it wakes itself and returns pending.\<close>

theorem wake_during_poll_is_lost_witness:
  "\<exists>s'. drain_round (\<lambda>tid k. ([Wake tid], None)) two_tasks = Ok (Some s') \<and>
     h_state (ex_headers s' 1) = IDLE \<and> 1 \<in> ex_tasks s' \<and> 1 \<notin> set (ex_global s')"
  using wake_during_poll_is_lost [OF two_tasks_props(1), of 1 "[2]" 0 "\<lambda>tid k. ([Wake tid], None)" "[Wake 1]"]
    two_tasks_props(4) by (simp add: two_tasks_props(2) task_new_def)

subsection \<open>Joining a task\<close>

text \<open>
  a join handle polled before its task ends is pending and, when the task completes,
  its waker is woken and the next poll of the handle yields the task's value, once; a later
  poll yields the cancellation error.
\<close>

theorem join_delivers_once:
  assumes inv: "exec_inv None s" and g: "ex_global s = tid # g"
    and st: "h_state (ex_headers s tid) = SCHEDULED" and k: "h_body (ex_headers s tid) = Some k"
    and f: "fut tid k = ([], Some v)"
  shows "\<exists>s1 s2 s3. join_poll tid 0 s = (Pending, s1) \<and> drain_round fut s1 = Ok (Some s2) \<and>
    ex_pipe s2 = ex_pipe s + 1 \<and> tid \<notin> ex_tasks s2 \<and>
    join_poll tid 0 s2 = (Ready (Ok v), s3) \<and> fst (join_poll tid 0 s3) = Ready (Err Cancelled)"
proof -
  define s1 where "s1 = set_header tid (ex_headers s tid\<lparr>h_join_waker := Some 0\<rparr>) s"
  have j: "join_poll tid 0 s = (Pending, s1)" using st by (simp add: join_poll_def s1_def)
  have i1: "exec_inv None s1" using exec_inv_join [OF inv, of tid 0] j by simp
  have g1: "ex_global s1 = tid # g" using g by (simp add: s1_def)
  let ?s = "s1\<lparr>ex_global := g\<rparr>"
  have st': "h_state (ex_headers ?s tid) = SCHEDULED" "tid \<in> ex_tasks ?s" "h_body (ex_headers ?s tid) = Some k"
    using st k popped_header(1) [OF inv g] by (simp_all add: s1_def)
  have Some: "snd (fut tid k) = Some v" using f by simp
  obtain s2 where d: "drain_round fut s1 = Ok (Some s2)" "run_header fut tid ?s = Ok s2"
    using drain_round_spec(2) [OF i1 g1] by blast
  have s2: "s2 = (set_header tid ((ex_headers s1 tid)\<lparr>h_output := Some v, h_body := None, h_state := COMPLETED,
      h_join_waker := None\<rparr>) (?s\<lparr>ex_tasks := ex_tasks s1 - {tid}\<rparr>))\<lparr>ex_pipe := ex_pipe s1 + 1\<rparr>"
    using d(2) run_header_scheduled(2) [where fut = fut, OF st' Some] f
    by (simp add: polled_def wake_opt_def wake_def set_header_def s1_def)
  define s3 where "s3 = snd (join_poll tid 0 s2)"
  have "join_poll tid 0 s2 = (Ready (Ok v), s3)" "fst (join_poll tid 0 s3) = Ready (Err Cancelled)"
    by (simp_all add: s3_def s2 join_poll_def take_output_def set_header_def Let_def)
  moreover have "ex_pipe s2 = ex_pipe s + 1" "tid \<notin> ex_tasks s2"
    by (simp_all add: s2 s1_def set_header_def)
  ultimately show ?thesis using j d(1) by blast
qed

theorem join_delivers_once_witness:
  "\<exists>s1 s2 s3. join_poll 1 0 two_tasks = (Pending, s1) \<and> drain_round demo_future s1 = Ok (Some s2) \<and>
    ex_pipe s2 = ex_pipe two_tasks + 1 \<and> 1 \<notin> ex_tasks s2 \<and>
    join_poll 1 0 s2 = (Ready (Ok 7), s3) \<and> fst (join_poll 1 0 s3) = Ready (Err Cancelled)"
  by (rule join_delivers_once [OF two_tasks_props(1,2), of 0])
    (simp_all only: two_tasks_props(4) task_new_def demo_future_def task_header.simps)

subsection \<open>Draining ends\<close>

text \<open>
  Polls the tasks still need when every future completes once it has been polled \<open>n\<close> times.
\<close>

definition polls_left :: "nat \<Rightarrow> 'v executor \<Rightarrow> nat" where
  "polls_left n s = (\<Sum>tid \<in> ex_tasks s. Suc (n - the (h_body (ex_headers s tid))))"

lemma exec_inv_finite: "exec_inv r s \<Longrightarrow> finite (ex_tasks s)"
  by (rule finite_subset [of _ "{..<ex_next s}"]) (auto dest: exec_invD(2) simp: allocated_def)

lemma action_next: "a \<noteq> Spawn \<Longrightarrow> ex_next (do_action a s) = ex_next s"
  by (cases a)
    (auto simp: wake_def schedule_task_def compare_exchange_def abort_def join_poll_def take_output_def
      set_header_def Let_def split: option.splits prod.splits)

lemma actions_next: "Spawn \<notin> set as \<Longrightarrow> ex_next (fold do_action as s) = ex_next s"
  by (induction as arbitrary: s) (auto simp: action_next)

lemma run_header_next:
  assumes inv: "exec_inv None s" and g: "ex_global s = key # g"
    and run: "run_header fut key (s\<lparr>ex_global := g\<rparr>) = Ok s'" and ns: "\<And>k. Spawn \<notin> set (fst (fut key k))"
  shows "ex_next s' = ex_next s"
proof -
  let ?s = "s\<lparr>ex_global := g\<rparr>"
  note p = popped_header [OF inv g]
  obtain k where k: "h_body (ex_headers ?s key) = Some k" using p(3) by auto
  have pl: "ex_next (polled fut key k ?s) = ex_next s" by (simp add: polled_def actions_next [OF ns])
  show ?thesis
  proof (cases "h_state (ex_headers s key) = CANCELLED")
    case True
    then show ?thesis using run p(1) by (auto simp: run_header_def cancel_def Let_def)
  next
    case False
    then have st: "h_state (ex_headers ?s key) = SCHEDULED" "key \<in> ex_tasks ?s" using p(1,4) by simp_all
    show ?thesis
      by (cases "snd (fut key k)")
        (use run pl run_header_scheduled [where fut = fut, OF st k] in auto)
  qed
qed

lemma drain_round_decreases:
  assumes inv: "exec_inv None s" and d: "drain_round fut s = Ok (Some s')"
    and ns: "\<And>tid k. Spawn \<notin> set (fst (fut tid k))" and fin: "\<And>tid k. n \<le> k \<Longrightarrow> snd (fut tid k) \<noteq> None"
  shows "polls_left n s' < polls_left n s"
proof -
  obtain key g where g: "ex_global s = key # g" using d drain_round_spec(1) [OF inv] by (cases "ex_global s") auto
  have run: "run_header fut key (s\<lparr>ex_global := g\<rparr>) = Ok s'" and inv': "exec_inv None s'"
    using drain_round_spec(2) [OF inv g, of fut] d by auto
  note p = popped_header [OF inv g]
  obtain j where j: "h_body (ex_headers s key) = Some j" using p(3) by blast
  have nx: "ex_next s' = ex_next s" by (rule run_header_next [OF inv g run ns])
  have others: "h_body (ex_headers s' tid) = h_body (ex_headers s tid) \<and> (tid \<in> ex_tasks s' \<longleftrightarrow> tid \<in> ex_tasks s)"
    if "allocated s tid" "tid \<noteq> key" for tid
    using run_header_others [OF inv g run] that unfolding extends_but_def by (auto simp: allocated_def)
  let ?f = "\<lambda>s tid. Suc (n - the (h_body (ex_headers s tid)))"
  have rest: "ex_tasks s' - {key} = ex_tasks s - {key}"
  proof (rule set_eqI)
    fix tid
    have "allocated s tid" if "tid \<in> ex_tasks s \<or> tid \<in> ex_tasks s'"
      using that exec_invD(2) [OF inv, of tid] exec_invD(2) [OF inv', of tid] nx by (auto simp: allocated_def)
    then show "tid \<in> ex_tasks s' - {key} \<longleftrightarrow> tid \<in> ex_tasks s - {key}"
      using others [of tid] by blast
  qed
  have sum: "(\<Sum>tid \<in> ex_tasks s' - {key}. ?f s' tid) = (\<Sum>tid \<in> ex_tasks s - {key}. ?f s tid)"
    unfolding rest by (rule sum.cong [OF refl]) (simp add: others exec_invD(2) [OF inv])
  have old: "polls_left n s = ?f s key + (\<Sum>tid \<in> ex_tasks s - {key}. ?f s tid)"
    unfolding polls_left_def by (rule sum.remove [OF exec_inv_finite [OF inv] p(1)])
  show ?thesis
  proof (cases "key \<in> ex_tasks s'")
    case False
    then have "polls_left n s' = (\<Sum>tid \<in> ex_tasks s' - {key}. ?f s' tid)" by (simp add: polls_left_def)
    then show ?thesis using old sum by linarith
  next
    case True
    have "allocated s' key" using p(6) nx by (simp add: allocated_def)
    with exec_invD(1) [OF inv' this] True have "h_body (ex_headers s' key) \<noteq> None" by (auto simp: header_ok_def)
    then have "h_body (ex_headers s' key) = Some (Suc j)" "j < n"
      using run_header_progress [OF inv g run j] fin [of j key] by (auto simp: not_le [symmetric])
    then have "?f s' key < ?f s key" using j by simp
    moreover have "polls_left n s' = ?f s' key + (\<Sum>tid \<in> ex_tasks s' - {key}. ?f s' tid)"
      unfolding polls_left_def by (rule sum.remove [OF exec_inv_finite [OF inv'] True])
    ultimately show ?thesis using old sum by linarith
  qed
qed

text \<open>
  C26: the drain loop returns, with both queues empty, whenever every future completes after
  a bounded number of polls and the polls spawn no further tasks; however the tasks wake and
  abort each other in between.
\<close>

theorem drain_terminates:
  assumes "exec_inv None s" and "\<And>tid k. Spawn \<notin> set (fst (fut tid k))"
    and "\<And>tid k. n \<le> k \<Longrightarrow> snd (fut tid k) \<noteq> None"
  shows "\<exists>did' s'. drain fut did s = Some (Ok (did', s')) \<and> ex_global s' = [] \<and> exec_inv None s'"
  using assms(1)
proof (induction "polls_left n s" arbitrary: s did rule: less_induct)
  case less
  show ?case
  proof (cases "ex_global s")
    case Nil
    then show ?thesis using less.prems drain_round_spec(1) [OF less.prems] by (auto simp: drain.simps)
  next
    case (Cons key g)
    then obtain s' where s': "drain_round fut s = Ok (Some s')" "exec_inv None s'"
      using drain_round_spec(2) [OF less.prems] by blast
    have "polls_left n s' < polls_left n s" by (rule drain_round_decreases [OF less.prems s'(1) assms(2,3)])
    with less.hyps [OF _ s'(2)] s'(1) show ?thesis by (subst drain.simps) simp
  qed
qed

theorem drain_terminates_witness:
  "\<exists>did' s'. drain (\<lambda>tid k. ([Wake 1, Wake 2], if k < 3 then None else Some 9)) False two_tasks = Some (Ok (did', s'))
     \<and> ex_global s' = [] \<and> exec_inv None s'"
  by (rule drain_terminates [OF two_tasks_props(1), of _ 3]) auto

end
