(* ===== verification/Timers.thy ===== *)
theory Timers
  imports Executor
begin

text \<open>
  The timer futures (\<^verbatim>\<open>time/sleep.rs\<close>, \<^verbatim>\<open>time/interval.rs\<close>) on the wheel of the
  thread, and the wake-up of a sleeping task through the executor. \<^verbatim>\<open>Instant::now()\<close> is
  an argument; instants and durations are nanoseconds. The addition of a duration to an
  instant is unbounded here, where the platform's \<^verbatim>\<open>Instant\<close> panics some hundred
  billion years ahead.
\<close>

section \<open>Sleep\<close>

record sleep =
  sl_deadline :: instant
  sl_timer_id :: "timer_id option"

definition sleep_new :: "instant \<Rightarrow> sleep" where
  "sleep_new deadline = \<lparr>sl_deadline = deadline, sl_timer_id = None\<rparr>"

definition sleep_for :: "instant \<Rightarrow> nat \<Rightarrow> sleep" where
  "sleep_for now duration = sleep_new (now + duration)"

definition sleep_until :: "instant \<Rightarrow> sleep" where
  "sleep_until deadline = sleep_new deadline"

text \<open>\<^verbatim>\<open>if let Some(id) = self.timer_id.take() { w.cancel(id) }\<close>\<close>

definition cancel_opt :: "timer_id option \<Rightarrow> timer_wheel \<Rightarrow> timer_wheel" where
  "cancel_opt t w = (case t of Some i \<Rightarrow> snd (timer_cancel w i) | None \<Rightarrow> w)"

definition sleep_poll :: "instant \<Rightarrow> waker \<Rightarrow> sleep \<Rightarrow> timer_wheel \<Rightarrow> unit poll \<times> sleep \<times> timer_wheel" where
  "sleep_poll now wk sl w =
     (if sl_deadline sl \<le> now then
        (Ready (), sl\<lparr>sl_timer_id := None\<rparr>, cancel_opt (sl_timer_id sl) w)
      else
        (let (i, w') = timer_insert (cancel_opt (sl_timer_id sl) w) (sl_deadline sl) wk
         in (Pending, sl\<lparr>sl_timer_id := Some i\<rparr>, w')))"

definition sleep_drop :: "sleep \<Rightarrow> timer_wheel \<Rightarrow> timer_wheel" where
  "sleep_drop sl w = cancel_opt (sl_timer_id sl) w"

section \<open>Interval\<close>

record interval =
  iv_period :: nat
  iv_next_deadline :: instant
  iv_missed :: nat

definition interval_new :: "instant \<Rightarrow> nat \<Rightarrow> (interval, unit) outcome" where
  "interval_new now period =
     (if period = 0 then Panic
      else Ok \<lparr>iv_period = period, iv_next_deadline = now + period, iv_missed = 0\<rparr>)"

record tick_future =
  tf_interval :: interval
  tf_timer_id :: "timer_id option"

definition interval_tick :: "interval \<Rightarrow> tick_future" where
  "interval_tick iv = \<lparr>tf_interval = iv, tf_timer_id = None\<rparr>"

text \<open>\<^verbatim>\<open>Duration::MAX\<close> in nanoseconds, and \<^verbatim>\<open>checked_mul\<close> with its default.\<close>

definition duration_max :: nat where
  "duration_max = (2 ^ 64 - 1) * 1000000000 + 999999999"

definition mul_or_max :: "nat \<Rightarrow> nat \<Rightarrow> nat" where
  "mul_or_max d n = (if d * n \<le> duration_max then d * n else duration_max)"

definition tick_poll :: "instant \<Rightarrow> waker \<Rightarrow> tick_future \<Rightarrow> timer_wheel \<Rightarrow>
    (instant poll \<times> tick_future \<times> timer_wheel, unit) outcome" where
  "tick_poll now wk tf w =
     (let iv = tf_interval tf
      in if iv_next_deadline iv \<le> now then
           (let fired_at = iv_next_deadline iv;
                extra_ticks = ((now - fired_at) div iv_period iv) mod 2 ^ 64;
                advance = min (min (extra_ticks + 1) (2 ^ 64 - 1)) (2 ^ 32 - 1);
                skip = mul_or_max (iv_period iv) advance
            in bind_outcome (usize_add (iv_missed iv) extra_ticks) (\<lambda>missed.
                 Ok (Ready fired_at,
                     \<lparr>tf_interval = iv\<lparr>iv_missed := missed, iv_next_deadline := fired_at + skip\<rparr>,
                      tf_timer_id = None\<rparr>,
                     cancel_opt (tf_timer_id tf) w)))
         else
           (let (i, w') = timer_insert (cancel_opt (tf_timer_id tf) w) (iv_next_deadline iv) wk
            in Ok (Pending, tf\<lparr>tf_timer_id := Some i\<rparr>, w')))"

definition tick_drop :: "tick_future \<Rightarrow> timer_wheel \<Rightarrow> timer_wheel" where
  "tick_drop tf w = cancel_opt (tf_timer_id tf) w"

section \<open>Properties\<close>

lemma wheel_inv_cancel_opt: "wheel_inv w \<Longrightarrow> wheel_inv (cancel_opt t w)"
proof (cases t)
  case (Some tid)
  assume "wheel_inv w"
  then show ?thesis using Some by (cases tid) (simp add: cancel_opt_def wheel_inv_cancel)
qed (simp add: cancel_opt_def)

definition entry_of :: "timer_id option \<Rightarrow> timer_entry \<Rightarrow> bool" where
  "entry_of t e \<longleftrightarrow> t = Some (TimerId (te_id e))"

lemma pending_cancel_opt:
  assumes "wheel_inv w"
  shows "mset (pending (cancel_opt t w)) = {#e \<in># mset (pending w). \<not> entry_of t e#}"
proof (cases t)
  case None
  then show ?thesis by (simp add: cancel_opt_def entry_of_def)
next
  case (Some tid)
  obtain i where "tid = TimerId i" by (cases tid)
  then show ?thesis using Some pending_cancel [OF assms, of i]
    by (simp add: cancel_opt_def entry_of_def eq_commute [of i])
qed

text \<open>
  a sleep owns at most one timer: a pending poll replaces the one it had by one with the
  current waker and the sleep's deadline, a poll at or after the deadline completes and
  removes it, and dropping the future removes it; all other timers of the wheel are kept.
\<close>

theorem sleep_owns_one_timer:
  assumes "wheel_inv w" and "sleep_poll now wk sl w = (r, sl', w')"
  shows "wheel_inv w' \<and> (r = Ready () \<longleftrightarrow> sl_deadline sl \<le> now) \<and>
    mset (pending w') = {#e \<in># mset (pending w). \<not> entry_of (sl_timer_id sl) e#} +
      (if r = Pending then {#\<lparr>te_id = (case the (sl_timer_id sl') of TimerId i \<Rightarrow> i),
          te_deadline = sl_deadline sl, te_waker = wk\<rparr>#} else {#}) \<and>
    mset (pending (sleep_drop sl' w')) = {#e \<in># mset (pending w). \<not> entry_of (sl_timer_id sl) e#}"
proof (cases "sl_deadline sl \<le> now")
  case True
  then have "r = Ready ()" "sl' = sl\<lparr>sl_timer_id := None\<rparr>" "w' = cancel_opt (sl_timer_id sl) w"
    using assms(2) by (simp_all add: sleep_poll_def)
  then show ?thesis
    using True by (simp add: pending_cancel_opt assms(1) wheel_inv_cancel_opt sleep_drop_def entry_of_def)
next
  case False
  let ?w = "cancel_opt (sl_timer_id sl) w" and ?P = "{#e \<in># mset (pending w). \<not> entry_of (sl_timer_id sl) e#}"
  have inv: "wheel_inv ?w" by (rule wheel_inv_cancel_opt [OF assms(1)])
  have r: "r = Pending" "sl' = sl\<lparr>sl_timer_id := Some (TimerId (tw_next_id ?w))\<rparr>"
    "w' = snd (timer_insert ?w (sl_deadline sl) wk)"
    using assms(2) False by (auto simp: sleep_poll_def timer_insert_raw Let_def)
  have inv': "wheel_inv w'" unfolding r by (rule wheel_inv_insert [OF inv])
  have P: "mset (pending ?w) = ?P" by (rule pending_cancel_opt [OF assms(1)])
  have new: "mset (pending w') = add_mset (new_entry ?w (sl_deadline sl) wk) ?P"
    unfolding r timer_insert_pending [OF wheel_inv_shape [OF inv]] P ..
  have fresh: "\<not> entry_of (sl_timer_id sl') e" if "e \<in># ?P" for e
    using that wheel_inv_id_bound [OF inv, of e] P by (auto simp: r entry_of_def simp flip: set_mset_mset)
  have "mset (pending (sleep_drop sl' w')) = {#e \<in># mset (pending w'). \<not> entry_of (sl_timer_id sl') e#}"
    unfolding sleep_drop_def by (rule pending_cancel_opt [OF inv'])
  also have "\<dots> = {#e \<in># ?P. \<not> entry_of (sl_timer_id sl') e#}"
    unfolding new by (simp add: entry_of_def r new_entry_def)
  also have "\<dots> = ?P" using fresh by (simp add: filter_mset_eq_conv)
  finally show ?thesis using inv' new False r by (simp add: new_entry_def)
qed

definition sleep_wheel :: timer_wheel where
  "sleep_wheel = timer_wheel_new 0"

theorem sleep_owns_one_timer_witness:
  "sl_timer_id (fst (snd (sleep_poll 0 3 (sleep_for 0 5000000) sleep_wheel))) = Some (TimerId 1) \<and>
   mset (pending (snd (snd (sleep_poll 0 3 (sleep_for 0 5000000) sleep_wheel))))
     = {#\<lparr>te_id = 1, te_deadline = 5000000, te_waker = 3\<rparr>#}"
proof -
  let ?sl = "sleep_for 0 5000000"
  obtain r sl' w' where p: "sleep_poll 0 3 ?sl sleep_wheel = (r, sl', w')" by (metis surj_pair)
  have "r = Pending" "sl_timer_id sl' = Some (TimerId 1)"
    using p by (auto simp: sleep_poll_def sleep_for_def sleep_new_def cancel_opt_def timer_insert_raw
        sleep_wheel_def timer_wheel_new_def)
  then show ?thesis
    using sleep_owns_one_timer [OF wheel_inv_new p [unfolded sleep_wheel_def]] p
    by (simp add: sleep_for_def sleep_new_def new_pending)
qed

subsection \<open>Sleeping tasks are woken\<close>

lemma wake_queued:
  assumes "exec_inv None s" and "h_state (ex_headers s tid) = IDLE"
  shows "tid \<in> set (ex_global (wake tid s))"
proof -
  have "tid \<noteq> 0" using exec_invD(4) [OF assms] by (auto simp: allocated_def)
  then show ?thesis using assms(2)
    by (simp add: wake_def schedule_task_def compare_exchange_def set_header_def gq_push_header_def)
qed

lemma wakes_queued:
  assumes "exec_inv None s" and "h_state (ex_headers s tid) = IDLE" and "tid \<in> set ws"
  shows "tid \<in> set (ex_global (fold wake ws s))"
  using assms
proof (induction ws arbitrary: s)
  case Nil
  then show ?case by simp
next
  case (Cons w ws)
  show ?case
  proof (cases "w = tid")
    case True
    have "tid \<in> set (ex_global (wake tid s))" by (rule wake_queued [OF Cons.prems(1,2)])
    then show ?thesis using True extends_wakes [of "wake tid s" ws] by (auto simp: extends_def)
  next
    case False
    then have "h_state (ex_headers (wake w s) tid) = IDLE"
      using Cons.prems(2) by (simp add: wake_def schedule_task_def compare_exchange_def set_header_def)
    then show ?thesis using Cons False by (simp add: exec_inv_wake)
  qed
qed

text \<open>A task that waits is queued exactly once by a round of wakers among which is its own.\<close>

lemma wakes_queued_once:
  assumes inv: "exec_inv None s" and "h_state (ex_headers s tid) = IDLE" and "tid \<in> set ws"
  shows "count_list (ex_global (fold wake ws s)) tid = 1 \<and> exec_inv None (fold wake ws s)"
proof -
  have i: "exec_inv None (fold wake ws s)" using inv by (simp add: exec_inv_wakes)
  have q: "tid \<in> set (ex_global (fold wake ws s))" by (rule wakes_queued [OF assms])
  have "allocated (fold wake ws s) tid" by (rule exec_invD(3) [OF i q])
  moreover have "count_list (ex_global (fold wake ws s)) tid \<noteq> 0"
    using q by (simp add: count_list_0_iff)
  ultimately have "count_list (ex_global (fold wake ws s)) tid = 1"
    using exec_invD(1) [OF i, of tid] by (auto simp: header_ok_def split: task_state.splits if_splits)
  with i show ?thesis by simp
qed

text \<open>
  while the executor turns at least once per millisecond, a task that waits for a timer
  is queued, exactly once, by the first turn that starts at or after the timer's deadline;
  the drain of that turn then polls it.
\<close>

theorem due_timer_queues_its_task:
  assumes inv: "exec_inv None s" and run: "wheel_run each_ms (ex_wheel s)"
    and now: "tw_last_tick_ms (ex_wheel s) \<le> instant_to_ms (ex_wheel s) now"
    and e: "e \<in> set (pending (ex_wheel s))" "te_deadline e \<le> now"
    and idle: "h_state (ex_headers s (te_waker e)) = IDLE"
  shows "count_list (ex_global (tick_timers now s)) (te_waker e) = 1 \<and> exec_inv None (tick_timers now s)"
proof -
  obtain w' fired where t: "timer_tick (ex_wheel s) now = (w', fired)" by fastforce
  let ?s = "s\<lparr>ex_wheel := w'\<rparr>" and ?tid = "te_waker e"
  have "instant_to_ms (ex_wheel s) (te_deadline e) \<le> instant_to_ms (ex_wheel s) now"
    using e(2) by (auto simp: instant_to_ms_def intro!: min.mono div_le_mono diff_le_mono)
  then have "?tid \<in># mset fired"
    using tick_fires_due [OF run now t] e(1) by auto
  then have "?tid \<in> set fired" by simp
  then show ?thesis
    using wakes_queued_once [of ?s ?tid fired] inv idle by (simp add: tick_timers_def t)
qed

text \<open>Task 1 waits on a timer due at one millisecond.\<close>

definition timed_task :: "nat executor" where
  "timed_task = idle_task\<lparr>ex_wheel := snd (timer_insert (timer_wheel_new 0) 1000000 1)\<rparr>"

theorem due_timer_queues_its_task_witness:
  "count_list (ex_global (tick_timers 1000000 timed_task)) 1 = 1"
proof -
  let ?w = "snd (timer_insert (timer_wheel_new 0) 1000000 1)"
  let ?e = "new_entry (timer_wheel_new 0) 1000000 1"
  have "mset (pending ?w) = {#?e#}" by (simp add: timer_insert_pending new_shape new_pending)
  then have "?e \<in> set (pending ?w)" by (metis set_mset_mset union_single_eq_member add_mset_add_single empty_neutral(1))
  moreover have "exec_inv None timed_task" "h_state (ex_headers timed_task 1) = IDLE"
    using idle_task_props by (simp_all add: timed_task_def)
  moreover have "wheel_run each_ms ?w" by (rule run_insert [OF run_new])
  ultimately show ?thesis
    using due_timer_queues_its_task [of timed_task 1000000 ?e]
    by (simp add: timed_task_def new_entry_def) (simp add: timer_insert_raw timer_wheel_new_def)
qed

subsection \<open>Intervals keep their schedule\<close>

text \<open>
  a tick that is due reports its own scheduled instant and moves the schedule by whole
  periods to the first instant after now, counting the periods it skipped; the schedule
  never drifts. (The bounds: fewer than two to the 32 periods missed, and a skip within the
  range of a duration.)
\<close>

theorem interval_keeps_schedule:
  assumes "iv_next_deadline iv \<le> now" and "0 < iv_period iv"
    and "(now - iv_next_deadline iv) div iv_period iv + 1 < 2 ^ 32"
    and "now - iv_next_deadline iv + iv_period iv \<le> duration_max"
    and "iv_missed iv + 2 ^ 32 \<le> usize_limit"
  shows "\<exists>tf' w' n. tick_poll now wk \<lparr>tf_interval = iv, tf_timer_id = t\<rparr> w = Ok (Ready (iv_next_deadline iv), tf', w') \<and>
    iv_next_deadline (tf_interval tf') = iv_next_deadline iv + Suc n * iv_period iv \<and>
    iv_missed (tf_interval tf') = iv_missed iv + n \<and>
    now < iv_next_deadline (tf_interval tf') \<and> iv_next_deadline (tf_interval tf') \<le> now + iv_period iv"
proof -
  let ?d = "now - iv_next_deadline iv" and ?p = "iv_period iv"
  define n where "n = ?d div ?p"
  have n: "n + 1 < 2 ^ 32" using assms(3) by (simp add: n_def)
  have low: "n * ?p \<le> ?d" unfolding n_def by (rule div_times_less_eq_dividend)
  have high: "?d < Suc n * ?p" unfolding n_def using assms(2) by (simp add: dividend_less_div_times)
  have skip: "mul_or_max ?p (Suc n) = Suc n * ?p"
    using low assms(4) by (simp add: mul_or_max_def mult.commute)
  have adv: "n mod 2 ^ 64 = n" "min (min (n + 1) (2 ^ 64 - 1)) (2 ^ 32 - 1) = Suc n"
    using n by simp_all
  have add: "iv_missed iv + n < usize_limit" using n assms(5) by linarith
  have "tick_poll now wk \<lparr>tf_interval = iv, tf_timer_id = t\<rparr> w
      = Ok (Ready (iv_next_deadline iv),
          \<lparr>tf_interval = iv\<lparr>iv_missed := iv_missed iv + n, iv_next_deadline := iv_next_deadline iv + Suc n * ?p\<rparr>,
           tf_timer_id = None\<rparr>, cancel_opt t w)"
    using assms(1) add unfolding tick_poll_def Let_def
    by (simp only: n_def [symmetric] adv skip tick_future.simps usize_add_small bind_outcome.simps if_True)
  then show ?thesis using low high assms(1) by (auto intro!: exI [of _ n])
qed

theorem interval_keeps_schedule_witness:
  "\<exists>tf' w' n. tick_poll 35 1 \<lparr>tf_interval = \<lparr>iv_period = 10, iv_next_deadline = 10, iv_missed = 0\<rparr>, tf_timer_id = None\<rparr>
       sleep_wheel = Ok (Ready 10, tf', w') \<and> iv_next_deadline (tf_interval tf') = 10 + Suc n * 10 \<and>
     iv_missed (tf_interval tf') = 0 + n \<and> 35 < iv_next_deadline (tf_interval tf') \<and>
     iv_next_deadline (tf_interval tf') \<le> 35 + 10"
  using interval_keeps_schedule [of "\<lparr>iv_period = 10, iv_next_deadline = 10, iv_missed = 0\<rparr>" 35 1 None sleep_wheel]
  by (simp add: duration_max_def usize_limit_def)

end
