(* ===== verification/Worker.thy ===== *)
theory Worker
  imports Executor
begin

text \<open>
  The multi-threaded executor (\<^verbatim>\<open>executor/worker.rs\<close>, \<^verbatim>\<open>run_worker_0\<close> and the
  shared-state path of \<^verbatim>\<open>spawn\<close> in \<^verbatim>\<open>executor/mod.rs\<close>). How a worker finds its next
  task is a function on the queues; how workers interleave is a step relation whose steps
  are the accesses to shared state: the queue, the map of tasks (each under its lock) and
  the atomic state of a header. The actions of a poll are steps of their own, so that other
  workers and other threads' wakers may run between any two of them.
\<close>

section \<open>Finding the next task\<close>

record worker =
  wk_id :: nat
  wk_local :: "nat local_queue"
  wk_stealable :: "nat stealable_queue"

definition worker_new :: "nat \<Rightarrow> worker" where
  "worker_new i = \<lparr>wk_id = i, wk_local = local_queue_new, wk_stealable = local_queue_new\<rparr>"

text \<open>The loop that moves a drained batch to the local queue; an overflow is dropped.\<close>

fun push_batch :: "nat list \<Rightarrow> nat local_queue \<Rightarrow> nat local_queue" where
  "push_batch [] loc = loc"
| "push_batch (h # batch) loc = push_batch batch (snd (lq_push loc h))"

definition worker_next_task :: "worker \<Rightarrow> nat work_stealing_pool \<Rightarrow> nat global_queue \<Rightarrow>
    nat option \<times> worker \<times> nat work_stealing_pool \<times> nat global_queue" where
  "worker_next_task wk pool g =
     (case lq_pop (wk_local wk) of
        (Some h, l) \<Rightarrow> (Some h, wk\<lparr>wk_local := l\<rparr>, pool, g)
      | (None, l) \<Rightarrow>
          if \<not> lq_is_empty (wk_stealable wk) then
            (let (batch, sq) = lq_drain_front (wk_stealable wk) 16;
                 (h, l') = lq_pop (push_batch batch l)
             in (h, wk\<lparr>wk_local := l', wk_stealable := sq\<rparr>, pool, g))
          else
            (case gq_pop g of
               (Some h, g') \<Rightarrow> (Some h, wk\<lparr>wk_local := l\<rparr>, pool, g')
             | (None, g') \<Rightarrow>
                 (let (n, pool', l', g'') = steal_one pool (wk_id wk) l g'
                  in if n > 0 then (let (h, l'') = lq_pop l' in (h, wk\<lparr>wk_local := l''\<rparr>, pool', g''))
                     else (None, wk\<lparr>wk_local := l'\<rparr>, pool', g''))))"

text \<open>Worker 0 has no queue of its own to drain: local, global, then its peers.\<close>

definition worker0_next_task :: "nat local_queue \<Rightarrow> nat work_stealing_pool \<Rightarrow> nat global_queue \<Rightarrow>
    nat option \<times> nat local_queue \<times> nat work_stealing_pool \<times> nat global_queue" where
  "worker0_next_task l pool g =
     (case lq_pop l of
        (Some h, l1) \<Rightarrow> (Some h, l1, pool, g)
      | (None, l1) \<Rightarrow>
          (case gq_pop g of
             (Some h, g') \<Rightarrow> (Some h, l1, pool, g')
           | (None, g') \<Rightarrow>
               (let (n, pool', l2, g'') = steal_one pool 0 l1 g'
                in if n > 0 then (let (h, l3) = lq_pop l2 in (h, l3, pool', g''))
                   else (None, l2, pool', g''))))"

lemma lq_pop_shrinks:
  assumes "lq_pop q = (Some h, q')"
  shows "lq_len q' < lq_len q"
proof -
  let ?d = "lq_tail q - lq_head q"
  have ne: "?d \<noteq> 0" and t: "lq_tail q' = lq_tail q - 1" "lq_head q' = lq_head q"
    using assms by (auto simp: lq_pop_def lq_is_empty_def lq_len_def Let_def split: if_splits)
  have "lq_tail q' - lq_head q' = ?d - 1" by (simp add: t)
  then show ?thesis using unat_minus_one [OF ne] ne by (simp add: lq_len_def unat_gt_0)
qed

text \<open>At shutdown the headers still in the worker's own queues are dropped.\<close>

function pop_all :: "nat local_queue \<Rightarrow> nat local_queue" where
  "pop_all q = (case lq_pop q of (None, q') \<Rightarrow> q' | (Some h, q') \<Rightarrow> pop_all q')"
  by pat_completeness auto
termination
  by (relation "measure lq_len") (auto dest: lq_pop_shrinks [OF sym])

declare pop_all.simps [simp del]

definition drain_all_tasks :: "worker \<Rightarrow> worker" where
  "drain_all_tasks wk = wk\<lparr>wk_local := pop_all (wk_local wk), wk_stealable := pop_all (wk_stealable wk)\<rparr>"

subsection \<open>No task is lost on the way to a worker\<close>

definition opt_mset :: "'a option \<Rightarrow> 'a multiset" where
  "opt_mset x = (case x of Some y \<Rightarrow> {#y#} | None \<Rightarrow> {#})"

lemma opt_mset_set: "mset_set (set_option x) = opt_mset x"
  by (cases x) (simp_all add: opt_mset_def)

lemmas lq_pop_mset = lq.pop_mset [unfolded opt_mset_set]

lemma push_batch_push_all: "push_batch batch loc = snd (lq.push_all loc batch)"
  by (induction batch arbitrary: loc) (simp_all add: split_beta)

lemma push_batch_fits:
  assumes "lq_inv loc" and "lq_len loc + length batch \<le> CAPACITY"
  shows "lq_inv (push_batch batch loc) \<and> lq_contents (push_batch batch loc) = lq_contents loc @ batch"
  using lq.push_all_correct [OF assms(1), of batch] assms(2) by (simp add: push_batch_push_all)

definition worker_tasks :: "worker \<Rightarrow> nat multiset" where
  "worker_tasks wk = mset (lq_contents (wk_local wk)) + mset (lq_contents (wk_stealable wk))"

definition worker_inv :: "worker \<Rightarrow> bool" where
  "worker_inv wk \<longleftrightarrow> lq_inv (wk_local wk) \<and> lq_inv (wk_stealable wk)"

lemma lq_pop_None:
  assumes "lq_inv q" and "lq_pop q = (None, q')"
  shows "lq_contents q = [] \<and> q' = q"
  using assms lq.pop_newest [OF assms(1)] lq.pop_empty [OF assms(1)] by (cases "lq_contents q = []") auto

lemma gq_pop_mset: "gq_pop g = (h, g') \<Longrightarrow> mset g = opt_mset h + mset g'"
  by (cases g) (auto simp: opt_mset_def)

text \<open>The steal at the end of the search, common to all workers.\<close>

lemma steal_then_pop:
  assumes l: "lq_inv l" and pool: "list_all lq_inv pool" and st: "steal_one pool i l g = (n, pool', l', g')"
    and h: "(if n > 0 then lq_pop l' else (None, l')) = (h, l'')"
  shows "lq_inv l'' \<and> list_all lq_inv pool' \<and>
    opt_mset h + mset (lq_contents l'') + pool_tasks pool' + mset g' = mset (lq_contents l) + pool_tasks pool + mset g"
proof -
  have s: "list_all lq_inv pool'" "lq_inv l'"
    "pool_tasks pool' + mset (lq_contents l') + mset g' = pool_tasks pool + mset (lq_contents l) + mset g"
    using steal_scan_correct [OF pool l st [unfolded steal_one_def]] by blast+
  have "lq_inv l'' \<and> opt_mset h + mset (lq_contents l'') = mset (lq_contents l')"
    using h lq_pop_mset [OF s(2)] s(2) by (auto simp: opt_mset_def split: if_splits)
  then show ?thesis using s by (simp add: ac_simps)
qed

text \<open>
  the search of a worker for its next task loses and duplicates none: the task it
  returns and those left in its two queues, in the pool and in the global queue are together
  those that were there before. In particular the overflow branch that would drop a task is
  never taken: the local queue is empty when a batch of at most 16 is moved into it.
\<close>

theorem next_task_conserves_tasks:
  assumes "worker_inv wk" and "list_all lq_inv pool" and "worker_next_task wk pool g = (h, wk', pool', g')"
  shows "worker_inv wk' \<and> list_all lq_inv pool' \<and>
    opt_mset h + worker_tasks wk' + pool_tasks pool' + mset g' = worker_tasks wk + pool_tasks pool + mset g"
proof -
  have inv: "lq_inv (wk_local wk)" "lq_inv (wk_stealable wk)" using assms(1) by (simp_all add: worker_inv_def)
  obtain h0 l where p: "lq_pop (wk_local wk) = (h0, l)" by fastforce
  show ?thesis
  proof (cases h0)
    case (Some x)
    then show ?thesis
      using assms p lq_pop_mset [OF inv(1)] inv
      by (auto simp: worker_next_task_def worker_inv_def worker_tasks_def ac_simps)
  next
    case None
    have l: "l = wk_local wk" "lq_contents l = []" using lq_pop_None [OF inv(1)] p None by auto
    show ?thesis
    proof (cases "lq_is_empty (wk_stealable wk)")
      case False
      obtain batch sq where d: "lq_drain_front (wk_stealable wk) 16 = (batch, sq)" by fastforce
      obtain h1 l' where p': "lq_pop (push_batch batch l) = (h1, l')" by fastforce
      have dr: "batch = take 16 (lq_contents (wk_stealable wk))" "lq_inv sq"
        "lq_contents sq = drop 16 (lq_contents (wk_stealable wk))"
        using lq_apply_refines [OF inv(2), of "DrainOp 16"] d by simp_all
      have "lq_len l = 0" using l(2) by (metis length_lq_contents list.size(3))
      then have "lq_len l + length batch \<le> CAPACITY" by (simp add: dr(1) CAPACITY_def)
      then have pb: "lq_inv (push_batch batch l)" "lq_contents (push_batch batch l) = batch"
        using push_batch_fits [of l batch] inv(1) l by simp_all
      have r: "h = h1" "wk' = wk\<lparr>wk_local := l', wk_stealable := sq\<rparr>" "pool' = pool" "g' = g"
        using assms(3) p None False d p' by (simp_all add: worker_next_task_def)
      have "opt_mset h1 + mset (lq_contents l') = mset batch" "lq_inv l'"
        using lq_pop_mset [OF pb(1)] p' pb(2) by simp_all
      then show ?thesis
        using r dr assms(2) l mset_take_drop [of 16 "lq_contents (wk_stealable wk)"]
        by (simp add: worker_inv_def worker_tasks_def add.assoc [symmetric])
    next
      case True
      then have se: "lq_contents (wk_stealable wk) = []"
        by (metis length_0_conv length_lq_contents lq_is_empty_def)
      obtain h1 g1 where q: "gq_pop g = (h1, g1)" by fastforce
      show ?thesis
      proof (cases h1)
        case (Some x)
        then show ?thesis
          using assms p None True q gq_pop_mset [OF q] l inv
          by (auto simp: worker_next_task_def worker_inv_def worker_tasks_def opt_mset_def)
      next
        case h1: None
        obtain n pool1 l1 g2 where st: "steal_one pool (wk_id wk) l g1 = (n, pool1, l1, g2)" by (metis surj_pair)
        obtain h2 l2 where p2: "(if n > 0 then lq_pop l1 else (None, l1)) = (h2, l2)" by fastforce
        have r: "h = h2" "wk' = wk\<lparr>wk_local := l2\<rparr>" "pool' = pool1" "g' = g2"
          using assms(3) p None True q h1 st p2
          by (auto simp: worker_next_task_def Let_def split: if_splits prod.splits)
        show ?thesis
          using steal_then_pop [OF _ assms(2) st p2] inv l se r gq_pop_mset [OF q] h1
          by (auto simp: worker_inv_def worker_tasks_def opt_mset_def ac_simps)
      qed
    qed
  qed
qed

theorem next_task_conserves_tasks_witness:
  "let (h, wk', pool', g') = worker_next_task ((worker_new 1)\<lparr>wk_stealable := two_task_ring\<rparr>) [two_task_ring] [7]
   in opt_mset h + worker_tasks wk' + pool_tasks pool' + mset g' = {#1, 2, 1, 2, 7#}"
proof -
  let ?wk = "(worker_new 1)\<lparr>wk_stealable := two_task_ring\<rparr>"
  obtain h wk' pool' g' where r: "worker_next_task ?wk [two_task_ring] [7] = (h, wk', pool', g')" by (metis surj_pair)
  have "worker_inv ?wk" "list_all lq_inv [two_task_ring]"
    by (simp_all add: worker_inv_def worker_new_def lq_inv_new two_task_ring_props)
  from next_task_conserves_tasks [OF this r] r show ?thesis
    by (simp add: worker_tasks_def worker_new_def lq_inv_new two_task_ring_props pool_tasks_def)
qed

section \<open>Interleavings\<close>

text \<open>
  Where a worker is between two accesses to shared state. \<open>Popped\<close>: it holds a header and
  has not read its state; \<open>Take\<close>: it has read a state that is to be polled; \<open>Drop\<close>: it
  has removed the task and will cancel it; \<open>Poll\<close>: it has removed the task and will poll
  it; \<open>Running\<close>: its future has the listed actions still to do; \<open>Put\<close>: the poll
  returned pending and the idle state is stored, but the task is not back in the map.
\<close>

datatype 'v phase =
  Free
| Popped nat
| Take nat
| Drop nat
| Poll nat
| Running nat "action list" "'v option"
| Put nat

fun holds :: "'v phase \<Rightarrow> nat option" where
  "holds (Drop key) = Some key"
| "holds (Poll key) = Some key"
| "holds (Running key acts r) = Some key"
| "holds (Put key) = Some key"
| "holds _ = None"

type_synonym 'v machine = "'v executor \<times> (nat \<Rightarrow> 'v phase)"

text \<open>
  The steps of worker \<open>w\<close>, and the wake a thread outside the workers may perform at any
  time. A worker's local queues and its peers' are empty in the code (nothing pushes to
  them), so its next task is the front of the global queue.
\<close>

inductive mstep :: "'v future \<Rightarrow> 'v machine \<Rightarrow> 'v machine \<Rightarrow> bool" for fut where
  pop: "ph w = Free \<Longrightarrow> gq_pop (ex_global s) = (Some key, g) \<Longrightarrow>
    mstep fut (s, ph) (s\<lparr>ex_global := g\<rparr>, ph(w := Popped key))"
| load_cancelled: "ph w = Popped key \<Longrightarrow> h_state (ex_headers s key) = CANCELLED \<Longrightarrow>
    mstep fut (s, ph) (s\<lparr>ex_tasks := ex_tasks s - {key}\<rparr>,
      ph(w := if key \<in> ex_tasks s then Drop key else Free))"
| drop_task: "ph w = Drop key \<Longrightarrow> mstep fut (s, ph) (cancel key s, ph(w := Free))"
| load_completed: "ph w = Popped key \<Longrightarrow> h_state (ex_headers s key) = COMPLETED \<Longrightarrow>
    mstep fut (s, ph) (s\<lparr>ex_tasks := ex_tasks s - {key}\<rparr>, ph(w := Free))"
| load_other: "ph w = Popped key \<Longrightarrow> h_state (ex_headers s key) \<notin> {CANCELLED, COMPLETED} \<Longrightarrow>
    mstep fut (s, ph) (s, ph(w := Take key))"
| take_task: "ph w = Take key \<Longrightarrow>
    mstep fut (s, ph) (s\<lparr>ex_tasks := ex_tasks s - {key}\<rparr>,
      ph(w := if key \<in> ex_tasks s then Poll key else Free))"
| start_poll: "ph w = Poll key \<Longrightarrow> h_body (ex_headers s key) = Some k \<Longrightarrow> fut key k = (acts, r) \<Longrightarrow>
    mstep fut (s, ph) (set_header key (ex_headers s key\<lparr>h_state := RUNNING, h_body := Some (k + 1)\<rparr>) s,
      ph(w := Running key acts r))"
| act: "ph w = Running key (a # acts) r \<Longrightarrow> mstep fut (s, ph) (do_action a s, ph(w := Running key acts r))"
| ready: "ph w = Running key [] (Some v) \<Longrightarrow> h = ex_headers s key \<Longrightarrow>
    mstep fut (s, ph) (wake_opt (h_join_waker h)
        (set_header key (h\<lparr>h_output := Some v, h_body := None, h_state := COMPLETED, h_join_waker := None\<rparr>) s),
      ph(w := Free))"
| pending: "ph w = Running key [] None \<Longrightarrow>
    mstep fut (s, ph) (set_header key (ex_headers s key\<lparr>h_state := IDLE\<rparr>) s, ph(w := Put key))"
| put_back: "ph w = Put key \<Longrightarrow> mstep fut (s, ph) (s\<lparr>ex_tasks := insert key (ex_tasks s)\<rparr>, ph(w := Free))"
| outside: "mstep fut (s, ph) (do_action a s, ph)"

inductive mreach :: "'v future \<Rightarrow> 'v machine \<Rightarrow> bool" for fut where
  start: "mreach fut (executor_new origin, \<lambda>_. Free)"
| step: "mreach fut m \<Longrightarrow> mstep fut m m' \<Longrightarrow> mreach fut m'"

text \<open>
  The invariant: no two workers hold the same task, a held task is not in the map, and a
  task's future is alive exactly while the map or a worker holds the task.
\<close>

definition mach_inv :: "'v machine \<Rightarrow> bool" where
  "mach_inv m \<longleftrightarrow> (case m of (s, ph) \<Rightarrow> 0 < ex_next s \<and>
     (\<forall>w w' key. holds (ph w) = Some key \<and> holds (ph w') = Some key \<longrightarrow> w = w') \<and>
     (\<forall>w key. holds (ph w) = Some key \<longrightarrow> key \<notin> ex_tasks s \<and> allocated s key) \<and>
     (\<forall>key. key \<in> ex_tasks s \<longrightarrow> allocated s key) \<and>
     (\<forall>key. allocated s key \<longrightarrow>
        (h_body (ex_headers s key) \<noteq> None \<longleftrightarrow> key \<in> ex_tasks s \<or> (\<exists>w. holds (ph w) = Some key))) \<and>
     (\<forall>key. allocated s key \<and> h_state (ex_headers s key) = COMPLETED \<longrightarrow> h_body (ex_headers s key) = None))"

lemma mach_invD:
  assumes "mach_inv (s, ph)"
  shows "holds (ph w) = Some key \<Longrightarrow> holds (ph w') = Some key \<Longrightarrow> w = w'"
    and "holds (ph w) = Some key \<Longrightarrow> key \<notin> ex_tasks s" and "holds (ph w) = Some key \<Longrightarrow> allocated s key"
    and "key \<in> ex_tasks s \<Longrightarrow> allocated s key"
    and "allocated s key \<Longrightarrow> h_body (ex_headers s key) \<noteq> None \<longleftrightarrow> key \<in> ex_tasks s \<or> (\<exists>w. holds (ph w) = Some key)"
    and "allocated s key \<Longrightarrow> h_state (ex_headers s key) = COMPLETED \<Longrightarrow> h_body (ex_headers s key) = None"
    and "0 < ex_next s"
  using assms unfolding mach_inv_def by auto

text \<open>
  The general step of one worker: it passes at most one task, \<open>key\<close>, between the map,
  itself and nowhere; every other task keeps its future, its owner and its completion.
\<close>

lemma mach_inv_pass:
  assumes inv: "mach_inv (s, ph)" and al: "allocated s key" and nx: "ex_next s' = ex_next s"
    and others: "\<And>k. k \<noteq> key \<Longrightarrow> (h_body (ex_headers s' k) = None \<longleftrightarrow> h_body (ex_headers s k) = None) \<and>
      (k \<in> ex_tasks s' \<longleftrightarrow> k \<in> ex_tasks s) \<and>
      (h_state (ex_headers s' k) = COMPLETED \<longrightarrow> h_state (ex_headers s k) = COMPLETED)"
    and from_w: "holds (ph w) = Some key \<or> holds (ph w) = None" and to_w: "holds p = Some key \<or> holds p = None"
    and alone: "\<And>w'. w' \<noteq> w \<Longrightarrow> holds (ph w') \<noteq> Some key"
    and one: "\<not> (key \<in> ex_tasks s' \<and> holds p = Some key)"
    and alive: "h_body (ex_headers s' key) \<noteq> None \<longleftrightarrow> key \<in> ex_tasks s' \<or> holds p = Some key"
    and compl: "h_state (ex_headers s' key) = COMPLETED \<Longrightarrow> h_body (ex_headers s' key) = None"
  shows "mach_inv (s', ph(w := p))"
proof -
  have al': "allocated s' k \<longleftrightarrow> allocated s k" for k by (simp add: allocated_def nx)
  have held: "holds ((ph(w := p)) w') = Some k \<longleftrightarrow> holds (ph w') = Some k" if "k \<noteq> key" for w' k
    using that from_w to_w by auto
  have held_key: "holds ((ph(w := p)) w') = Some key \<longleftrightarrow> w' = w \<and> holds p = Some key" for w'
    using alone by auto
  show ?thesis
    unfolding mach_inv_def prod.case
  proof (intro conjI allI impI)
    show "0 < ex_next s'" using mach_invD(7) [OF inv] nx by simp
    show "w1 = w2" if "holds ((ph(w := p)) w1) = Some k \<and> holds ((ph(w := p)) w2) = Some k" for w1 w2 k
      using that held [of k] held_key mach_invD(1) [OF inv, of w1 k w2] by (cases "k = key") simp_all
    show "k \<notin> ex_tasks s'" if "holds ((ph(w := p)) w1) = Some k" for w1 k
      using that held [of k] held_key one others [of k] mach_invD(2) [OF inv, of w1 k] by (cases "k = key") simp_all
    show "allocated s' k" if "holds ((ph(w := p)) w1) = Some k" for w1 k
      using that held [of k] al al' mach_invD(3) [OF inv, of w1 k] by (cases "k = key") simp_all
    show "allocated s' k" if "k \<in> ex_tasks s'" for k
      using that others [of k] al al' mach_invD(4) [OF inv, of k] by (cases "k = key") simp_all
    show "h_body (ex_headers s' k) \<noteq> None \<longleftrightarrow> k \<in> ex_tasks s' \<or> (\<exists>w1. holds ((ph(w := p)) w1) = Some k)"
      if "allocated s' k" for k
    proof (cases "k = key")
      case True
      then show ?thesis using alive held_key by blast
    next
      case False
      then show ?thesis using that held [OF False] others [OF False] al' mach_invD(5) [OF inv, of k] by simp
    qed
    show "h_body (ex_headers s' k) = None" if "allocated s' k \<and> h_state (ex_headers s' k) = COMPLETED" for k
      using that others [of k] al' compl mach_invD(6) [OF inv, of k] by (cases "k = key") auto
  qed
qed

lemma wake_opt_body [simp]: "h_body (ex_headers (wake_opt w s) k) = h_body (ex_headers s k)"
  by (cases w) (auto simp: wake_opt_def wake_def schedule_task_def compare_exchange_def set_header_def)

lemma wake_opt_completed [simp]:
  "h_state (ex_headers (wake_opt w s) k) = COMPLETED \<longleftrightarrow> h_state (ex_headers s k) = COMPLETED"
  by (cases w) (auto simp: wake_opt_def wake_def schedule_task_def compare_exchange_def set_header_def)

lemma action_completed:
  assumes "allocated s k" and "h_state (ex_headers (do_action a s) k) = COMPLETED"
  shows "h_state (ex_headers s k) = COMPLETED"
  using assms
  by (cases a)
    (auto simp: wake_def schedule_task_def compare_exchange_def spawn_def abort_def join_poll_def take_output_def
      set_header_def allocated_def Let_def split: if_splits option.splits prod.splits)

lemma action_new:
  assumes "allocated (do_action a s) k" and "\<not> allocated s k"
  shows "k \<in> ex_tasks (do_action a s) \<and> ex_headers (do_action a s) k = task_new"
  using assms
proof (cases "a = Spawn")
  case True
  then show ?thesis using assms by (auto simp: spawn_def set_header_def allocated_def Let_def)
next
  case False
  then show ?thesis using assms by (simp add: allocated_def action_next)
qed

lemma action_tasks:
  assumes "k \<in> ex_tasks (do_action a s)"
  shows "k \<in> ex_tasks s \<or> (0 < ex_next s \<longrightarrow> allocated (do_action a s) k)"
  using assms
  by (cases a)
    (auto simp: wake_def schedule_task_def compare_exchange_def spawn_def abort_def join_poll_def take_output_def
      set_header_def allocated_def Let_def split: if_splits option.splits prod.splits)

lemma mach_inv_action:
  assumes inv: "mach_inv (s, ph)" and same: "\<And>w. holds (ph' w) = holds (ph w)"
  shows "mach_inv (do_action a s, ph')"
proof -
  let ?s = "do_action a s"
  have e: "ex_next s \<le> ex_next ?s" "\<And>k. allocated s k \<Longrightarrow> h_body (ex_headers ?s k) = h_body (ex_headers s k) \<and>
      (k \<in> ex_tasks ?s \<longleftrightarrow> k \<in> ex_tasks s)"
    using extends_action [of s a] unfolding extends_def by blast+
  have al: "allocated s k \<Longrightarrow> allocated ?s k" for k using e(1) by (auto simp: allocated_def)
  show ?thesis
    unfolding mach_inv_def prod.case same
  proof (intro conjI allI impI)
    show "0 < ex_next ?s" using mach_invD(7) [OF inv] e(1) by simp
    show "w1 = w2" if "holds (ph w1) = Some k \<and> holds (ph w2) = Some k" for w1 w2 k
      using that mach_invD(1) [OF inv] by blast
    show "k \<notin> ex_tasks ?s" if "holds (ph w1) = Some k" for w1 k
      using e(2) mach_invD(2,3) [OF inv that] by blast
    show "allocated ?s k" if "holds (ph w1) = Some k" for w1 k
      using al mach_invD(3) [OF inv that] by blast
    show "allocated ?s k" if "k \<in> ex_tasks ?s" for k
      using action_tasks [OF that] al mach_invD(4) [OF inv, of k] mach_invD(7) [OF inv] by blast
    show "h_body (ex_headers ?s k) \<noteq> None \<longleftrightarrow> k \<in> ex_tasks ?s \<or> (\<exists>w1. holds (ph w1) = Some k)"
      if "allocated ?s k" for k
    proof (cases "allocated s k")
      case True
      then show ?thesis using e(2) mach_invD(5) [OF inv True] by simp
    next
      case False
      then show ?thesis using action_new [OF that False] by (simp add: task_new_def)
    qed
    show "h_body (ex_headers ?s k) = None" if "allocated ?s k \<and> h_state (ex_headers ?s k) = COMPLETED" for k
    proof (cases "allocated s k")
      case True
      then show ?thesis using that e(2) action_completed [of s k a] mach_invD(6) [OF inv True] by simp
    next
      case False
      then show ?thesis using action_new [of a s k] that by (simp add: task_new_def)
    qed
  qed
qed

lemma mach_inv_quiet:
  assumes "mach_inv (s, ph)" and "\<And>w. holds (ph' w) = holds (ph w)"
  shows "mach_inv (s\<lparr>ex_global := g\<rparr>, ph')"
  using assms by (simp add: mach_inv_def allocated_def)

lemma mach_inv_acquire:
  assumes inv: "mach_inv (s, ph)" and own: "key \<in> ex_tasks s" and w: "holds (ph w) = None" "holds p = Some key"
  shows "mach_inv (s\<lparr>ex_tasks := ex_tasks s - {key}\<rparr>, ph(w := p))"
proof (rule mach_inv_pass [OF inv mach_invD(4) [OF inv own]])
  note al = mach_invD(4) [OF inv own]
  show "holds (ph w') \<noteq> Some key" if "w' \<noteq> w" for w'
    using mach_invD(2) [OF inv, of w' key] own by blast
  show "h_body (ex_headers (s\<lparr>ex_tasks := ex_tasks s - {key}\<rparr>) key) \<noteq> None \<longleftrightarrow>
      key \<in> ex_tasks (s\<lparr>ex_tasks := ex_tasks s - {key}\<rparr>) \<or> holds p = Some key"
    using mach_invD(5) [OF inv al] own w(2) by simp
  show "h_state (ex_headers (s\<lparr>ex_tasks := ex_tasks s - {key}\<rparr>) key) = COMPLETED \<Longrightarrow>
      h_body (ex_headers (s\<lparr>ex_tasks := ex_tasks s - {key}\<rparr>) key) = None"
    using mach_invD(6) [OF inv al] by simp
qed (use w in simp_all)

lemma mach_inv_held:
  assumes inv: "mach_inv (s, ph)" and h: "holds (ph w) = Some key" and nx: "ex_next s' = ex_next s"
    and to_w: "holds p = Some key \<or> holds p = None"
    and others: "\<And>k. k \<noteq> key \<Longrightarrow> h_body (ex_headers s' k) = h_body (ex_headers s k) \<and>
      (k \<in> ex_tasks s' \<longleftrightarrow> k \<in> ex_tasks s) \<and>
      (h_state (ex_headers s' k) = COMPLETED \<longrightarrow> h_state (ex_headers s k) = COMPLETED)"
    and one: "\<not> (key \<in> ex_tasks s' \<and> holds p = Some key)"
    and alive: "h_body (ex_headers s' key) \<noteq> None \<longleftrightarrow> key \<in> ex_tasks s' \<or> holds p = Some key"
    and compl: "h_state (ex_headers s' key) = COMPLETED \<Longrightarrow> h_body (ex_headers s' key) = None"
  shows "mach_inv (s', ph(w := p))"
proof (rule mach_inv_pass [OF inv mach_invD(3) [OF inv h] nx])
  show "(h_body (ex_headers s' k) = None \<longleftrightarrow> h_body (ex_headers s k) = None) \<and>
      (k \<in> ex_tasks s' \<longleftrightarrow> k \<in> ex_tasks s) \<and>
      (h_state (ex_headers s' k) = COMPLETED \<longrightarrow> h_state (ex_headers s k) = COMPLETED)" if "k \<noteq> key" for k
    using others [OF that] by simp
  show "holds (ph w') \<noteq> Some key" if "w' \<noteq> w" for w'
    using mach_invD(1) [OF inv, of w' key w] h that by blast
qed (use h to_w one alive compl in simp_all)

text \<open>Steps that leave the holders and the map alone.\<close>

lemma mach_inv_silent:
  assumes "mach_inv (s, ph)" and "holds p = holds (ph w)"
  shows "mach_inv (s\<lparr>ex_global := g\<rparr>, ph(w := p))" and "mach_inv (s, ph(w := p))"
    and "key \<notin> ex_tasks s \<Longrightarrow> mach_inv (s\<lparr>ex_tasks := ex_tasks s - {key}\<rparr>, ph(w := p))"
proof -
  have same: "holds ((ph(w := p)) w') = holds (ph w')" for w' using assms(2) by simp
  show "mach_inv (s\<lparr>ex_global := g\<rparr>, ph(w := p))" by (rule mach_inv_quiet [OF assms(1) same])
  show 1: "mach_inv (s, ph(w := p))"
    using mach_inv_quiet [where ph' = "ph(w := p)" and g = "ex_global s", OF assms(1) same] by simp
  show "mach_inv (s\<lparr>ex_tasks := ex_tasks s - {key}\<rparr>, ph(w := p))" if "key \<notin> ex_tasks s"
    using 1 that by simp
qed

lemma mach_inv_step:
  assumes "mstep fut m m'" and "mach_inv m"
  shows "mach_inv m'"
  using assms
proof (induction rule: mstep.induct)
  case (pop ph w s key g)
  show ?case by (rule mach_inv_silent(1) [OF pop.prems]) (simp add: pop.hyps)
next
  case (load_cancelled ph w key s)
  show ?case
    using mach_inv_acquire [OF load_cancelled.prems, of key w "Drop key"]
      mach_inv_silent(3) [OF load_cancelled.prems, of Free w key] load_cancelled.hyps
    by (cases "key \<in> ex_tasks s") simp_all
next
  case (drop_task ph w key s)
  have h: "holds (ph w) = Some key" using drop_task by simp
  show ?case
    by (rule mach_inv_held [OF drop_task.prems h])
      (use mach_invD(2) [OF drop_task.prems h] in \<open>simp_all add: cancel_def Let_def\<close>)
next
  case (load_completed ph w key s)
  note inv = load_completed.prems
  have "key \<notin> ex_tasks s"
    using mach_invD(4,5,6) [OF inv, of key] load_completed.hyps by auto
  then show ?case using mach_inv_silent(3) [OF inv, of Free w key] load_completed.hyps by simp
next
  case (load_other ph w key s)
  show ?case by (rule mach_inv_silent(2) [OF load_other.prems]) (simp add: load_other.hyps)
next
  case (take_task ph w key s)
  show ?case
    using mach_inv_acquire [OF take_task.prems, of key w "Poll key"]
      mach_inv_silent(3) [OF take_task.prems, of Free w key] take_task.hyps
    by (cases "key \<in> ex_tasks s") simp_all
next
  case (start_poll ph w key s k acts r)
  have h: "holds (ph w) = Some key" using start_poll by simp
  show ?case
    by (rule mach_inv_held [OF start_poll.prems h]) (use mach_invD(2) [OF start_poll.prems h] in simp_all)
next
  case (act ph w key a acts r s)
  show ?case by (rule mach_inv_action [OF act.prems]) (simp add: act.hyps)
next
  case (ready ph w key v h s)
  have hd: "holds (ph w) = Some key" using ready by simp
  show ?case
    by (rule mach_inv_held [OF ready.prems hd]) (use mach_invD(2) [OF ready.prems hd] in simp_all)
next
  case (pending ph w key s)
  have h: "holds (ph w) = Some key" using pending by simp
  note inv = pending.prems
  have "h_body (ex_headers s key) \<noteq> None" using mach_invD(5) [OF inv mach_invD(3) [OF inv h]] h by blast
  then show ?case by (intro mach_inv_held [OF inv h]) (use mach_invD(2) [OF inv h] in simp_all)
next
  case (put_back ph w key s)
  have h: "holds (ph w) = Some key" using put_back by simp
  note inv = put_back.prems
  have "h_body (ex_headers s key) \<noteq> None" using mach_invD(5) [OF inv mach_invD(3) [OF inv h]] h by blast
  then show ?case
    by (intro mach_inv_held [OF inv h]) (use mach_invD(6) [OF inv mach_invD(3) [OF inv h]] in auto)
next
  case (outside s ph a)
  then show ?case using mach_inv_action [OF outside.prems, of ph a] by simp
qed

lemma mach_inv_reach: "mreach fut m \<Longrightarrow> mach_inv m"
proof (induction rule: mreach.induct)
  case (start origin)
  then show ?case by (simp add: mach_inv_def executor_new_def allocated_def)
next
  case (step m m')
  then show ?case using mach_inv_step by blast
qed

text \<open>
  C7: in every interleaving of any number of workers with wakers, spawns, joins and aborts
  from any thread, no two workers hold the same task, a held task is not in the shared map,
  and a worker that is about to poll a task finds its future alive.
\<close>

theorem workers_never_share_a_task:
  assumes "mreach fut (s, ph)"
  shows "(holds (ph w) = Some key \<and> holds (ph w') = Some key \<longrightarrow> w = w') \<and>
    (holds (ph w) = Some key \<longrightarrow> key \<notin> ex_tasks s) \<and>
    (ph w = Poll key \<longrightarrow> h_body (ex_headers s key) \<noteq> None)"
proof -
  note inv = mach_inv_reach [OF assms]
  have "h_body (ex_headers s key) \<noteq> None" if "ph w = Poll key"
  proof -
    have h: "holds (ph w) = Some key" using that by simp
    then show ?thesis using mach_invD(5) [OF inv mach_invD(3) [OF inv h]] by blast
  qed
  then show ?thesis using mach_invD(1,2) [OF inv] by blast
qed

section \<open>A task lost between two workers\<close>

text \<open>The header a worker has popped and not yet acted upon.\<close>

fun pops :: "'v phase \<Rightarrow> nat option" where
  "pops (Popped key) = Some key"
| "pops (Take key) = Some key"
| "pops _ = None"

text \<open>
  A task that is owned and marked as scheduled (or cancelled) but that no queue and no
  worker knows: no waker can queue it again, since only an idle task is queued.
\<close>

definition lost :: "nat \<Rightarrow> nat \<Rightarrow> 'v machine \<Rightarrow> bool" where
  "lost key k m \<longleftrightarrow> (case m of (s, ph) \<Rightarrow> allocated s key \<and> key \<in> ex_tasks s \<and> key \<notin> set (ex_global s) \<and>
     h_body (ex_headers s key) = Some k \<and> h_state (ex_headers s key) \<in> {SCHEDULED, CANCELLED} \<and>
     (\<forall>w. pops (ph w) \<noteq> Some key \<and> holds (ph w) \<noteq> Some key))"

lemma action_keeps_lost:
  assumes "allocated s key" and "key \<in> ex_tasks s" and "key \<notin> set (ex_global s)"
    and "h_body (ex_headers s key) = Some k" and "h_state (ex_headers s key) \<in> {SCHEDULED, CANCELLED}"
  shows "allocated (do_action a s) key \<and> key \<in> ex_tasks (do_action a s) \<and> key \<notin> set (ex_global (do_action a s)) \<and>
    h_body (ex_headers (do_action a s) key) = Some k \<and>
    h_state (ex_headers (do_action a s) key) \<in> {SCHEDULED, CANCELLED}"
  using assms
  by (cases a)
    (auto simp: wake_def schedule_task_def compare_exchange_def spawn_def abort_def join_poll_def take_output_def
      set_header_def gq_push_header_def allocated_def Let_def split: if_splits option.splits prod.splits)

lemma wake_opt_keeps_lost:
  assumes "key \<notin> set (ex_global s)" and "h_state (ex_headers s key) \<in> {SCHEDULED, CANCELLED}"
  shows "key \<notin> set (ex_global (wake_opt w s)) \<and> h_state (ex_headers (wake_opt w s) key) \<in> {SCHEDULED, CANCELLED}"
  using assms
  by (cases w)
    (auto simp: wake_opt_def wake_def schedule_task_def compare_exchange_def set_header_def gq_push_header_def)

lemma lost_unknown:
  "lost key k (s, ph) \<Longrightarrow> pops (ph w) \<noteq> Some key" "lost key k (s, ph) \<Longrightarrow> holds (ph w) \<noteq> Some key"
  by (simp_all add: lost_def)

lemma lost_step:
  assumes "mstep fut m m'" and "lost key k m"
  shows "lost key k m'"
  using assms
proof (induction rule: mstep.induct)
  case (pop ph w s key' g)
  then have "ex_global s = key' # g" by (cases "ex_global s") auto
  then show ?case using pop by (auto simp: lost_def allocated_def)
next
  case (drop_task ph w key' s)
  have ne: "key \<noteq> key'" using lost_unknown(2) [OF drop_task.prems, of w] drop_task.hyps by auto
  define t where "t = set_header key' (ex_headers s key'\<lparr>h_body := None, h_state := CANCELLED, h_join_waker := None\<rparr>) s"
  have "key \<notin> set (ex_global t)" "h_state (ex_headers t key) \<in> {SCHEDULED, CANCELLED}"
    "h_body (ex_headers t key) = Some k" "key \<in> ex_tasks t" "allocated t key"
    using drop_task.prems ne by (auto simp: lost_def t_def allocated_def)
  then show ?case
    using drop_task wake_opt_keeps_lost [of key t] by (auto simp: lost_def cancel_def t_def Let_def allocated_def)
next
  case (start_poll ph w key' s k' acts r)
  have "key \<noteq> key'" using lost_unknown(2) [OF start_poll.prems, of w] start_poll.hyps by auto
  then show ?case using start_poll by (auto simp: lost_def allocated_def)
next
  case (act ph w key' a acts r s)
  have "key \<noteq> key'" using lost_unknown(2) [OF act.prems, of w] act.hyps by auto
  then show ?case using act action_keeps_lost [of s key k a] by (auto simp: lost_def)
next
  case (ready ph w key' v h s)
  have ne: "key \<noteq> key'" using lost_unknown(2) [OF ready.prems, of w] ready.hyps by auto
  define t where "t = set_header key' (h\<lparr>h_output := Some v, h_body := None, h_state := COMPLETED, h_join_waker := None\<rparr>) s"
  have "key \<notin> set (ex_global t)" "h_state (ex_headers t key) \<in> {SCHEDULED, CANCELLED}"
    "h_body (ex_headers t key) = Some k" "key \<in> ex_tasks t" "allocated t key"
    using ready.prems ne by (auto simp: lost_def t_def allocated_def)
  then show ?case
    using ready wake_opt_keeps_lost [of key t] by (auto simp: lost_def t_def allocated_def)
next
  case (pending ph w key' s)
  have "key \<noteq> key'" using lost_unknown(2) [OF pending.prems, of w] pending.hyps by auto
  then show ?case using pending by (auto simp: lost_def allocated_def)
next
  case (outside s ph a)
  then show ?case using action_keeps_lost [of s key k a] by (auto simp: lost_def)
next
  case (load_cancelled ph w key' s)
  have "key \<noteq> key'" using lost_unknown(1) [OF load_cancelled.prems, of w] load_cancelled.hyps by auto
  then show ?case using load_cancelled by (auto simp: lost_def allocated_def)
next
  case (load_completed ph w key' s)
  have "key \<noteq> key'" using lost_unknown(1) [OF load_completed.prems, of w] load_completed.hyps by auto
  then show ?case using load_completed by (auto simp: lost_def allocated_def)
next
  case (load_other ph w key' s)
  have "key \<noteq> key'" using lost_unknown(1) [OF load_other.prems, of w] load_other.hyps by auto
  then show ?case using load_other by (auto simp: lost_def)
next
  case (take_task ph w key' s)
  have "key \<noteq> key'" using lost_unknown(1) [OF take_task.prems, of w] take_task.hyps by auto
  then show ?case using take_task by (auto simp: lost_def allocated_def)
next
  case (put_back ph w key' s)
  then show ?case by (auto simp: lost_def allocated_def)
qed

lemma lost_forever: "(mstep fut)\<^sup>*\<^sup>* m m' \<Longrightarrow> lost key k m \<Longrightarrow> lost key k m'"
  by (induction rule: rtranclp_induct) (auto intro: lost_step)

subsection \<open>The run that loses it\<close>

lemma mreach_step: "mreach fut m \<Longrightarrow> mstep fut m m' \<Longrightarrow> mreach fut m'"
  by (rule mreach.step)

text \<open>A task is spawned and worker 1 takes it to poll it.\<close>

definition taken_task :: "'v executor" where
  "taken_task = (let s = snd (spawn (executor_new 0)) in s\<lparr>ex_global := [], ex_tasks := {}\<rparr>)"

lemma mreach_taken: "mreach fut (taken_task, (\<lambda>_. Free)(1 := Poll 1))"
proof -
  define s1 :: "'a executor" where "s1 = do_action Spawn (executor_new 0)"
  define s2 where "s2 = s1\<lparr>ex_global := []\<rparr>"
  note defs = s1_def s2_def executor_new_def spawn_def set_header_def gq_push_header_def task_new_def
    taken_task_def Let_def
  let ?i = "\<lambda>_. Free :: 'a phase"
  have 0: "mreach fut (executor_new 0, ?i)" by (rule mreach.start)
  have 1: "mreach fut (s1, ?i)" unfolding s1_def by (rule mreach_step [OF 0 mstep.outside])
  have 2: "mreach fut (s2, ?i(1 := Popped 1))"
    unfolding s2_def by (rule mreach_step [OF 1 mstep.pop]) (simp_all add: defs)
  have 3: "mreach fut (s2, ?i(1 := Popped 1, 1 := Take 1))"
    by (rule mreach_step [OF 2 mstep.load_other]) (simp_all add: defs)
  have 4: "mreach fut (s2\<lparr>ex_tasks := ex_tasks s2 - {1}\<rparr>, ?i(1 := Poll 1))"
    using mreach_step [OF 3 mstep.take_task [of _ 1 1]] by (simp add: defs)
  moreover have "s2\<lparr>ex_tasks := ex_tasks s2 - {1}\<rparr> = taken_task" by (simp add: defs)
  ultimately show ?thesis by simp
qed

text \<open>
  a task can be lost for good between two workers. Worker 1 polls it, stores the idle
  state and has not yet put it back into the map when another thread wakes it; worker 2 pops
  the header, finds no task in the map and forgets the header; worker 1 puts the task back.
  From then on the task is owned and marked scheduled, but in no continuation of the run is
  it polled again, whoever wakes it.
\<close>

theorem task_lost_between_workers:
  assumes "fut 1 0 = ([], None)"
  shows "\<exists>m. mreach fut m \<and> (\<forall>m'. (mstep fut)\<^sup>*\<^sup>* m m' \<longrightarrow> lost 1 1 m')"
proof -
  define s3 :: "'a executor" where "s3 = taken_task"
  define s4 where "s4 = set_header 1 (ex_headers s3 1\<lparr>h_state := RUNNING, h_body := Some (0 + 1)\<rparr>) s3"
  define s5 where "s5 = set_header 1 (ex_headers s4 1\<lparr>h_state := IDLE\<rparr>) s4"
  define s6 where "s6 = do_action (Wake 1) s5"
  define s7 where "s7 = s6\<lparr>ex_global := []\<rparr>"
  define s8 where "s8 = s7\<lparr>ex_tasks := insert 1 (ex_tasks s7)\<rparr>"
  note defs = s3_def taken_task_def s4_def s5_def s6_def s7_def s8_def executor_new_def spawn_def set_header_def
    gq_push_header_def task_new_def wake_def schedule_task_def compare_exchange_def Let_def
  let ?i = "\<lambda>_. Free :: 'a phase"
  have 4: "mreach fut (s3, ?i(1 := Poll 1))" unfolding s3_def by (rule mreach_taken)
  have 5: "mreach fut (s4, ?i(1 := Running 1 [] None))"
    using mreach_step [OF 4 mstep.start_poll [of _ 1 1 s3 0 fut "[]" None]] assms by (simp add: defs)
  have 6: "mreach fut (s5, ?i(1 := Put 1))"
    using mreach_step [OF 5 mstep.pending [of _ 1 1]] by (simp add: s5_def)
  have 7: "mreach fut (s6, ?i(1 := Put 1))" unfolding s6_def by (rule mreach_step [OF 6 mstep.outside])
  have 8: "mreach fut (s7, ?i(1 := Put 1, 2 := Popped 1))"
    unfolding s7_def by (rule mreach_step [OF 7 mstep.pop]) (simp_all add: defs)
  have 9: "mreach fut (s7, ?i(1 := Put 1, 2 := Popped 1, 2 := Take 1))"
    by (rule mreach_step [OF 8 mstep.load_other]) (simp_all add: defs)
  have 10: "mreach fut (s7, ?i(1 := Put 1, 2 := Free))"
    using mreach_step [OF 9 mstep.take_task [of _ 2 1]] by (simp add: defs)
  have 11: "mreach fut (s8, ?i(1 := Put 1, 2 := Free, 1 := Free))"
    unfolding s8_def by (rule mreach_step [OF 10 mstep.put_back]) simp
  have "lost 1 1 (s8, ?i(1 := Put 1, 2 := Free, 1 := Free))"
    by (simp add: lost_def allocated_def) (simp add: defs)
  then show ?thesis using 11 lost_forever by blast
qed

theorem task_lost_between_workers_witness:
  "\<exists>m. mreach (\<lambda>tid k. if k = 0 then ([], None) else ([], Some (5::nat))) m \<and> lost 1 1 m"
proof -
  let ?fut = "\<lambda>tid k :: nat. if k = 0 then ([], None) else ([] :: action list, Some (5::nat))"
  have "\<exists>m. mreach ?fut m \<and> (\<forall>m'. (mstep ?fut)\<^sup>*\<^sup>* m m' \<longrightarrow> lost 1 1 m')"
    by (rule task_lost_between_workers) simp
  then show ?thesis by blast
qed

theorem workers_never_share_a_task_witness:
  "h_body (ex_headers (taken_task :: nat executor) 1) \<noteq> None \<and> 1 \<notin> ex_tasks (taken_task :: nat executor)"
  using workers_never_share_a_task [OF mreach_taken [of demo_future], of 1 1 1] by simp

end
