(* ===== verification/Mpsc.thy ===== *)
theory Mpsc
  imports Executor
begin

text \<open>
  The multi-producer single-consumer channel (\<^verbatim>\<open>sync/mpsc.rs\<close>). Every operation runs
  under the mutex of the channel and is a function on its state that also returns the wakers
  it fires. A waker is an opaque value; \<^verbatim>\<open>Waker::will_wake\<close> compares the raw pointers,
  that is, equality of these values (each poll by the executor supplies a new one). Histories
  of operations by any number of senders, futures and the receiver are lists of events.
\<close>

section \<open>The channel\<close>

record ('a, 'w) mpsc_inner =
  mq_queue :: "'a list"
  mq_capacity :: "nat option"
  mq_sender_count :: nat
  mq_receiver_dropped :: bool
  mq_recv_waker :: "'w option"
  mq_send_wakers :: "'w list"

definition mpsc_new :: "nat option \<Rightarrow> ('a, 'w) mpsc_inner" where
  "mpsc_new cap =
     \<lparr>mq_queue = [], mq_capacity = cap, mq_sender_count = 1, mq_receiver_dropped = False,
      mq_recv_waker = None, mq_send_wakers = []\<rparr>"

definition has_capacity :: "('a, 'w) mpsc_inner \<Rightarrow> bool" where
  "has_capacity g = (case mq_capacity g of None \<Rightarrow> True | Some cap \<Rightarrow> length (mq_queue g) < cap)"

definition senders_closed :: "('a, 'w) mpsc_inner \<Rightarrow> bool" where
  "senders_closed g \<longleftrightarrow> mq_sender_count g = 0"

definition mpsc_is_closed :: "('a, 'w) mpsc_inner \<Rightarrow> bool" where
  "mpsc_is_closed g \<longleftrightarrow> mq_sender_count g = 0 \<or> mq_receiver_dropped g"

definition mpsc_channel :: "nat \<Rightarrow> ('a, 'w) mpsc_inner" where
  "mpsc_channel capacity = mpsc_new (Some (max capacity 1))"

definition mpsc_unbounded :: "('a, 'w) mpsc_inner" where
  "mpsc_unbounded = mpsc_new None"

subsection \<open>Senders\<close>

definition sender_clone :: "('a, 'w) mpsc_inner \<Rightarrow> ('a, 'w) mpsc_inner" where
  "sender_clone g = g\<lparr>mq_sender_count := mq_sender_count g + 1\<rparr>"

text \<open>Waking the receiver: the waker is taken out and fired.\<close>

definition take_recv_waker :: "('a, 'w) mpsc_inner \<Rightarrow> ('a, 'w) mpsc_inner \<times> 'w list" where
  "take_recv_waker g =
     (case mq_recv_waker g of Some w \<Rightarrow> (g\<lparr>mq_recv_waker := None\<rparr>, [w]) | None \<Rightarrow> (g, []))"

definition sender_drop :: "('a, 'w) mpsc_inner \<Rightarrow> (('a, 'w) mpsc_inner \<times> 'w list, unit) outcome" where
  "sender_drop g =
     (if mq_sender_count g = 0 then Panic
      else
        (let g1 = g\<lparr>mq_sender_count := mq_sender_count g - 1\<rparr>
         in Ok (if mq_sender_count g1 = 0 then take_recv_waker g1 else (g1, []))))"

definition receiver_drop :: "('a, 'w) mpsc_inner \<Rightarrow> ('a, 'w) mpsc_inner \<times> 'w list" where
  "receiver_drop g = (g\<lparr>mq_receiver_dropped := True, mq_send_wakers := []\<rparr>, mq_send_wakers g)"

subsection \<open>Sending\<close>

record ('a, 'w) send_future =
  sf_value :: "'a option"
  sf_registered :: "'w option"

definition send_new :: "'a \<Rightarrow> ('a, 'w) send_future" where
  "send_new v = \<lparr>sf_value = Some v, sf_registered = None\<rparr>"

text \<open>The first waker that wakes as \<open>old\<close> does is replaced.\<close>

fun replace_waker :: "'w \<Rightarrow> 'w \<Rightarrow> 'w list \<Rightarrow> 'w list" where
  "replace_waker old new [] = []"
| "replace_waker old new (w # ws) = (if w = old then new # ws else w # replace_waker old new ws)"

definition send_poll :: "'w \<Rightarrow> ('a, 'w) send_future \<Rightarrow> ('a, 'w) mpsc_inner \<Rightarrow>
    ((unit, 'a) outcome poll \<times> ('a, 'w) send_future \<times> ('a, 'w) mpsc_inner \<times> 'w list, unit) outcome" where
  "send_poll cx f g =
     (if mpsc_is_closed g then
        (case sf_value f of
           None \<Rightarrow> Panic
         | Some v \<Rightarrow> Ok (Ready (Err v), \<lparr>sf_value = None, sf_registered = None\<rparr>, g, []))
      else if has_capacity g then
        (case sf_value f of
           None \<Rightarrow> Panic
         | Some v \<Rightarrow>
             (let (g', woken) = take_recv_waker (g\<lparr>mq_queue := mq_queue g @ [v]\<rparr>)
              in Ok (Ready (Ok ()), \<lparr>sf_value = None, sf_registered = None\<rparr>, g', woken)))
      else
        (case sf_registered f of
           Some existing \<Rightarrow>
             if existing \<noteq> cx then
               Ok (Pending, f\<lparr>sf_registered := Some cx\<rparr>,
                   g\<lparr>mq_send_wakers := replace_waker existing cx (mq_send_wakers g)\<rparr>, [])
             else Ok (Pending, f, g, [])
         | None \<Rightarrow>
             Ok (Pending, f\<lparr>sf_registered := Some cx\<rparr>,
                 g\<lparr>mq_send_wakers := mq_send_wakers g @ [cx]\<rparr>, [])))"

definition send_future_drop :: "('a, 'w) send_future \<Rightarrow> ('a, 'w) mpsc_inner \<Rightarrow> ('a, 'w) mpsc_inner" where
  "send_future_drop f g =
     (case sf_registered f of
        Some w \<Rightarrow> g\<lparr>mq_send_wakers := remove1 w (mq_send_wakers g)\<rparr>
      | None \<Rightarrow> g)"

definition unbounded_send :: "'a \<Rightarrow> ('a, 'w) mpsc_inner \<Rightarrow> (unit, 'a) outcome \<times> ('a, 'w) mpsc_inner \<times> 'w list" where
  "unbounded_send v g =
     (if mpsc_is_closed g then (Err v, g, [])
      else (let (g', woken) = take_recv_waker (g\<lparr>mq_queue := mq_queue g @ [v]\<rparr>) in (Ok (), g', woken)))"

subsection \<open>Receiving\<close>

definition recv_poll :: "'w \<Rightarrow> ('a, 'w) mpsc_inner \<Rightarrow> 'a option poll \<times> ('a, 'w) mpsc_inner \<times> 'w list" where
  "recv_poll cx g =
     (case mq_queue g of
        v # q \<Rightarrow>
          (let g1 = g\<lparr>mq_queue := q\<rparr>
           in case mq_send_wakers g1 of
                w # ws \<Rightarrow> (Ready (Some v), g1\<lparr>mq_send_wakers := ws\<rparr>, [w])
              | [] \<Rightarrow> (Ready (Some v), g1, []))
      | [] \<Rightarrow>
          if senders_closed g then (Ready None, g, [])
          else (Pending, g\<lparr>mq_recv_waker := Some cx\<rparr>, []))"

section \<open>Histories\<close>

datatype ('a, 'w) event =
  NewSend nat 'a
| PollSend nat 'w
| DropSend nat
| UnboundedSend 'a
| PollRecv 'w
| CloneSender
| DropSender
| DropReceiver

text \<open>
  The channel with its send futures, the values accepted and received so far and the wakers
  fired. Only handles that exist are used: a poll or drop of a future that does not exist,
  a receive after the receiver is gone, and a clone or drop of a sender when there is none
  are not events of a program and change nothing.
\<close>

record ('a, 'w) mpsc_run =
  run_chan :: "('a, 'w) mpsc_inner"
  run_futures :: "nat \<rightharpoonup> ('a, 'w) send_future"
  run_accepted :: "'a list"
  run_received :: "'a list"
  run_woken :: "'w list"

definition run_start :: "('a, 'w) mpsc_inner \<Rightarrow> ('a, 'w) mpsc_run" where
  "run_start g = \<lparr>run_chan = g, run_futures = Map.empty, run_accepted = [], run_received = [], run_woken = []\<rparr>"

primrec mpsc_event :: "('a, 'w) event \<Rightarrow> ('a, 'w) mpsc_run \<Rightarrow> (('a, 'w) mpsc_run, unit) outcome" where
  "mpsc_event (NewSend i v) r =
     Ok (if run_futures r i = None then r\<lparr>run_futures := (run_futures r)(i \<mapsto> send_new v)\<rparr> else r)"
| "mpsc_event (PollSend i w) r =
     (case run_futures r i of
        None \<Rightarrow> Ok r
      | Some f \<Rightarrow>
          bind_outcome (send_poll w f (run_chan r)) (\<lambda>(p, f', g, woken).
            Ok (case p of
                  Pending \<Rightarrow> r\<lparr>run_chan := g, run_futures := (run_futures r)(i \<mapsto> f'), run_woken := run_woken r @ woken\<rparr>
                | Ready res \<Rightarrow>
                    r\<lparr>run_chan := g, run_futures := (run_futures r)(i := None), run_woken := run_woken r @ woken,
                      run_accepted := run_accepted r @ (case res of Ok _ \<Rightarrow> [the (sf_value f)] | _ \<Rightarrow> [])\<rparr>)))"
| "mpsc_event (DropSend i) r =
     Ok (case run_futures r i of
           None \<Rightarrow> r
         | Some f \<Rightarrow> r\<lparr>run_chan := send_future_drop f (run_chan r), run_futures := (run_futures r)(i := None)\<rparr>)"
| "mpsc_event (UnboundedSend v) r =
     (if mq_capacity (run_chan r) \<noteq> None then Ok r
      else
        (let (res, g, woken) = unbounded_send v (run_chan r)
         in Ok (r\<lparr>run_chan := g, run_woken := run_woken r @ woken,
                  run_accepted := run_accepted r @ (case res of Ok _ \<Rightarrow> [v] | _ \<Rightarrow> [])\<rparr>)))"
| "mpsc_event (PollRecv w) r =
     (if mq_receiver_dropped (run_chan r) then Ok r
      else
        (let (p, g, woken) = recv_poll w (run_chan r)
         in Ok (r\<lparr>run_chan := g, run_woken := run_woken r @ woken,
                  run_received := run_received r @ (case p of Ready (Some v) \<Rightarrow> [v] | _ \<Rightarrow> [])\<rparr>)))"
| "mpsc_event CloneSender r =
     Ok (if mq_sender_count (run_chan r) = 0 then r else r\<lparr>run_chan := sender_clone (run_chan r)\<rparr>)"
| "mpsc_event DropSender r =
     (if mq_sender_count (run_chan r) = 0 then Ok r
      else bind_outcome (sender_drop (run_chan r)) (\<lambda>(g, woken). Ok (r\<lparr>run_chan := g, run_woken := run_woken r @ woken\<rparr>)))"
| "mpsc_event DropReceiver r =
     (if mq_receiver_dropped (run_chan r) then Ok r
      else (let (g, woken) = receiver_drop (run_chan r) in Ok (r\<lparr>run_chan := g, run_woken := run_woken r @ woken\<rparr>)))"

primrec mpsc_events :: "('a, 'w) event list \<Rightarrow> ('a, 'w) mpsc_run \<Rightarrow> (('a, 'w) mpsc_run, unit) outcome" where
  "mpsc_events [] r = Ok r"
| "mpsc_events (e # es) r = bind_outcome (mpsc_event e r) (mpsc_events es)"

section \<open>What every history keeps\<close>

definition mpsc_inv :: "('a, 'w) mpsc_run \<Rightarrow> bool" where
  "mpsc_inv r \<longleftrightarrow>
     (let g = run_chan r in
      run_accepted r = run_received r @ mq_queue g \<and>
      (\<forall>cap. mq_capacity g = Some cap \<longrightarrow> length (mq_queue g) \<le> cap) \<and>
      (mq_recv_waker g \<noteq> None \<longrightarrow> mq_queue g = [] \<and> mq_sender_count g \<noteq> 0) \<and>
      (\<forall>i f. run_futures r i = Some f \<longrightarrow> sf_value f \<noteq> None))"

lemma mpsc_inv_start: "mpsc_inv (run_start (mpsc_new cap))"
  by (simp add: mpsc_inv_def run_start_def mpsc_new_def)

text \<open>Depositing a value: the queue grows by it and the waiting receiver is woken.\<close>

lemma take_recv_waker_spec:
  "take_recv_waker g = (g', woken) \<Longrightarrow> mq_recv_waker g' = None \<and> mq_queue g' = mq_queue g \<and>
     mq_capacity g' = mq_capacity g \<and> mq_sender_count g' = mq_sender_count g \<and>
     mq_receiver_dropped g' = mq_receiver_dropped g \<and> woken = (case mq_recv_waker g of Some w \<Rightarrow> [w] | None \<Rightarrow> [])"
  by (auto simp: take_recv_waker_def split: option.splits)

lemma mpsc_inv_value: "mpsc_inv r \<Longrightarrow> run_futures r i = Some f \<Longrightarrow> sf_value f \<noteq> None"
  unfolding mpsc_inv_def Let_def by blast

lemma mpsc_event_inv:
  assumes inv: "mpsc_inv r"
  shows "\<exists>r'. mpsc_event e r = Ok r' \<and> mpsc_inv r'"
proof (cases e)
  case (PollSend i w)
  show ?thesis
  proof (cases "run_futures r i")
    case None
    then show ?thesis using PollSend inv by simp
  next
    case (Some f)
    let ?g = "run_chan r"
    obtain v where v: "sf_value f = Some v" using mpsc_inv_value [OF inv Some] by blast
    consider "mpsc_is_closed ?g" | "\<not> mpsc_is_closed ?g" "has_capacity ?g" | "\<not> mpsc_is_closed ?g" "\<not> has_capacity ?g" by blast
    then show ?thesis
    proof cases
      case 1
      then show ?thesis using PollSend Some v inv by (auto simp: send_poll_def mpsc_inv_def Let_def)
    next
      case 2
      obtain g' woken where t: "take_recv_waker (?g\<lparr>mq_queue := mq_queue ?g @ [v]\<rparr>) = (g', woken)" by fastforce
      note s = take_recv_waker_spec [OF t]
      show ?thesis
        using PollSend Some v inv 2 t s
        by (auto simp: send_poll_def mpsc_inv_def has_capacity_def Let_def split: option.splits)
    next
      case 3
      then show ?thesis using PollSend Some v inv
        by (auto simp: send_poll_def mpsc_inv_def Let_def split: option.splits)
    qed
  qed
next
  case (UnboundedSend v)
  obtain g' woken where t: "take_recv_waker (run_chan r\<lparr>mq_queue := mq_queue (run_chan r) @ [v]\<rparr>) = (g', woken)" by fastforce
  note s = take_recv_waker_spec [OF t]
  show ?thesis using UnboundedSend inv t s by (auto simp: unbounded_send_def mpsc_inv_def Let_def)
next
  case (PollRecv w)
  then show ?thesis using inv
    by (auto simp: recv_poll_def mpsc_inv_def senders_closed_def Let_def split: list.splits)
next
  case DropSender
  let ?g = "run_chan r\<lparr>mq_sender_count := mq_sender_count (run_chan r) - 1\<rparr>"
  obtain g' woken where t: "take_recv_waker ?g = (g', woken)" by fastforce
  note s = take_recv_waker_spec [OF t]
  show ?thesis using DropSender inv t s by (auto simp: sender_drop_def mpsc_inv_def Let_def)
qed (use inv in \<open>auto simp: mpsc_inv_def send_new_def send_future_drop_def sender_clone_def receiver_drop_def Let_def
       split: option.splits\<close>)

lemma mpsc_events_inv: "mpsc_inv r \<Longrightarrow> \<exists>r'. mpsc_events es r = Ok r' \<and> mpsc_inv r'"
proof (induction es arbitrary: r)
  case (Cons e es)
  then show ?case using mpsc_event_inv [OF Cons.prems, of e] by auto
qed simp

text \<open>
  C12: in every history of sends (bounded or unbounded), receives, clones, cancellations and
  drops, no operation panics, the values accepted by the channel are exactly those already
  received followed by those in its buffer, in order, and the buffer never exceeds the
  capacity.
\<close>

theorem channel_is_fifo:
  "\<exists>r. mpsc_events es (run_start (mpsc_new cap)) = Ok r \<and>
     run_accepted r = run_received r @ mq_queue (run_chan r) \<and>
     (case mq_capacity (run_chan r) of None \<Rightarrow> True | Some n \<Rightarrow> length (mq_queue (run_chan r)) \<le> n)"
proof -
  obtain r where "mpsc_events es (run_start (mpsc_new cap)) = Ok r" "mpsc_inv r"
    using mpsc_events_inv [OF mpsc_inv_start] by blast
  then show ?thesis by (auto simp: mpsc_inv_def Let_def split: option.splits)
qed

text \<open>
  the receiver never sleeps on work: whenever its waker is registered after a history,
  the buffer is empty and a sender is still alive, so that every send that deposits a value
  and the drop of the last sender find the waker and fire it.
\<close>

theorem receiver_never_sleeps_on_work:
  assumes "mpsc_events es (run_start (mpsc_new cap)) = Ok r" and "mq_recv_waker (run_chan r) = Some w"
  shows "mq_queue (run_chan r) = [] \<and> mq_sender_count (run_chan r) \<noteq> 0 \<and>
    (\<not> mpsc_is_closed (run_chan r) \<and> has_capacity (run_chan r) \<longrightarrow>
       (\<exists>f' g. send_poll w' (send_new v) (run_chan r) = Ok (Ready (Ok ()), f', g, [w]) \<and> mq_recv_waker g = None)) \<and>
    (mq_sender_count (run_chan r) = 1 \<longrightarrow>
       (\<exists>g. sender_drop (run_chan r) = Ok (g, [w]) \<and> mq_recv_waker g = None))"
proof -
  have "mpsc_inv r" using mpsc_events_inv [OF mpsc_inv_start, of es cap] assms(1) by auto
  then show ?thesis
    using assms(2)
    by (auto simp: mpsc_inv_def send_poll_def sender_drop_def take_recv_waker_def send_new_def Let_def)
qed

theorem receiver_never_sleeps_on_work_witness:
  "\<exists>r. mpsc_events [PollRecv 4] (run_start (mpsc_new (Some 2))) = Ok (r :: (nat, nat) mpsc_run) \<and>
     mq_recv_waker (run_chan r) = Some 4 \<and> mq_queue (run_chan r) = [] \<and>
     (\<exists>g. sender_drop (run_chan r) = Ok (g, [4]) \<and> mq_recv_waker g = None)"
proof -
  obtain r :: "(nat, nat) mpsc_run" where r: "mpsc_events [PollRecv 4] (run_start (mpsc_new (Some 2))) = Ok r"
    "mq_recv_waker (run_chan r) = Some 4" "mq_sender_count (run_chan r) = 1"
    by (simp add: run_start_def mpsc_new_def recv_poll_def senders_closed_def)
  then show ?thesis using receiver_never_sleeps_on_work [OF r(1,2), of 0 0] by blast
qed

text \<open>
  a blocked sender can be forgotten. With capacity 1 and a full buffer, sender B waits;
  the receiver takes the value and wakes B, but sender C deposits first. B's next poll finds
  the buffer full again: it believes it is still registered, so it does not queue its waker
  anew. When the receiver then empties the buffer nobody is woken: B waits, with its value,
  for a channel that has room and no waiting sender.
\<close>

theorem blocked_sender_forgotten:
  "\<exists>r. mpsc_events
       [NewSend 0 (10::nat), PollSend 0 (100::nat),
        NewSend 1 20, PollSend 1 101,
        PollRecv 200, NewSend 2 30, PollSend 2 102,
        PollSend 1 103, PollRecv 201]
       (run_start (mpsc_channel 1)) = Ok r \<and>
     run_woken r = [101] \<and> run_received r = [10, 30] \<and> mq_queue (run_chan r) = [] \<and>
     run_futures r 1 = Some \<lparr>sf_value = Some 20, sf_registered = Some 103\<rparr> \<and> mq_send_wakers (run_chan r) = []"
  by (simp add: run_start_def mpsc_channel_def mpsc_new_def send_poll_def send_new_def recv_poll_def
      mpsc_is_closed_def has_capacity_def take_recv_waker_def senders_closed_def)

end
