(* ===== verification/Async_Mutex.thy ===== *)
theory Async_Mutex
  imports Mpsc
begin

text \<open>
  The asynchronous mutex (\<^verbatim>\<open>sync/mutex.rs\<close>), with the wakers of the channel's model.
  Each operation runs under the internal lock; the protected value is reached through a
  guard only and has no influence on the protocol.
\<close>

section \<open>The mutex\<close>

record 'w mutex_inner =
  mx_locked :: bool
  mx_waiters :: "'w list"

definition mutex_new :: "'w mutex_inner" where
  "mutex_new = \<lparr>mx_locked = False, mx_waiters = []\<rparr>"

text \<open>A lock future is the waker it believes it has registered.\<close>

record 'w lock_future =
  lf_registered :: "'w option"

definition mutex_lock :: "'w lock_future" where
  "mutex_lock = \<lparr>lf_registered = None\<rparr>"

definition lock_poll :: "'w \<Rightarrow> 'w lock_future \<Rightarrow> 'w mutex_inner \<Rightarrow> unit poll \<times> 'w lock_future \<times> 'w mutex_inner" where
  "lock_poll cx f g =
     (if \<not> mx_locked g then (Ready (), f\<lparr>lf_registered := None\<rparr>, g\<lparr>mx_locked := True\<rparr>)
      else
        (case lf_registered f of
           Some existing \<Rightarrow>
             if existing \<noteq> cx then
               (Pending, f\<lparr>lf_registered := Some cx\<rparr>, g\<lparr>mx_waiters := replace_waker existing cx (mx_waiters g)\<rparr>)
             else (Pending, f, g)
         | None \<Rightarrow> (Pending, f\<lparr>lf_registered := Some cx\<rparr>, g\<lparr>mx_waiters := mx_waiters g @ [cx]\<rparr>)))"

definition lock_future_drop :: "'w lock_future \<Rightarrow> 'w mutex_inner \<Rightarrow> 'w mutex_inner" where
  "lock_future_drop f g =
     (case lf_registered f of
        Some w \<Rightarrow> g\<lparr>mx_waiters := remove1 w (mx_waiters g)\<rparr>
      | None \<Rightarrow> g)"

text \<open>Dropping a guard releases the lock and fires the first waiter.\<close>

definition guard_drop :: "'w mutex_inner \<Rightarrow> 'w mutex_inner \<times> 'w list" where
  "guard_drop g =
     (let g1 = g\<lparr>mx_locked := False\<rparr>
      in case mx_waiters g1 of
           w # ws \<Rightarrow> (g1\<lparr>mx_waiters := ws\<rparr>, [w])
         | [] \<Rightarrow> (g1, []))"

section \<open>Histories\<close>

datatype 'w lock_event =
  NewLock nat
| PollLock nat 'w
| DropLock nat
| DropGuard nat

text \<open>The futures under way, the owners of live guards and the wakers fired.\<close>

record 'w lock_run =
  lr_mutex :: "'w mutex_inner"
  lr_futures :: "nat \<rightharpoonup> 'w lock_future"
  lr_guards :: "nat list"
  lr_woken :: "'w list"

definition lock_start :: "'w lock_run" where
  "lock_start = \<lparr>lr_mutex = mutex_new, lr_futures = Map.empty, lr_guards = [], lr_woken = []\<rparr>"

primrec lock_step :: "'w lock_event \<Rightarrow> 'w lock_run \<Rightarrow> 'w lock_run" where
  "lock_step (NewLock i) r =
     (if lr_futures r i = None then r\<lparr>lr_futures := (lr_futures r)(i \<mapsto> mutex_lock)\<rparr> else r)"
| "lock_step (PollLock i w) r =
     (case lr_futures r i of
        None \<Rightarrow> r
      | Some f \<Rightarrow>
          (case lock_poll w f (lr_mutex r) of
             (Ready _, f', g) \<Rightarrow> r\<lparr>lr_mutex := g, lr_futures := (lr_futures r)(i := None), lr_guards := i # lr_guards r\<rparr>
           | (Pending, f', g) \<Rightarrow> r\<lparr>lr_mutex := g, lr_futures := (lr_futures r)(i \<mapsto> f')\<rparr>))"
| "lock_step (DropLock i) r =
     (case lr_futures r i of
        None \<Rightarrow> r
      | Some f \<Rightarrow> r\<lparr>lr_mutex := lock_future_drop f (lr_mutex r), lr_futures := (lr_futures r)(i := None)\<rparr>)"
| "lock_step (DropGuard i) r =
     (if i \<in> set (lr_guards r) then
        (let (g, woken) = guard_drop (lr_mutex r)
         in r\<lparr>lr_mutex := g, lr_guards := remove1 i (lr_guards r), lr_woken := lr_woken r @ woken\<rparr>)
      else r)"

definition lock_inv :: "'w lock_run \<Rightarrow> bool" where
  "lock_inv r \<longleftrightarrow> (if mx_locked (lr_mutex r) then length (lr_guards r) = 1 else lr_guards r = [])"

lemma lock_poll_locked:
  "lock_poll w f g = (Ready u, f', g') \<Longrightarrow> \<not> mx_locked g \<and> mx_locked g'"
  "lock_poll w f g = (Pending, f', g') \<Longrightarrow> mx_locked g \<and> mx_locked g'"
  by (auto simp: lock_poll_def split: if_splits option.splits)

lemma lock_step_inv:
  assumes "lock_inv r"
  shows "lock_inv (lock_step e r)"
proof (cases e)
  case (PollLock i w)
  show ?thesis
  proof (cases "lr_futures r i")
    case None
    then show ?thesis using assms PollLock by simp
  next
    case (Some f)
    obtain p f' g where l: "lock_poll w f (lr_mutex r) = (p, f', g)" by (metis surj_pair)
    show ?thesis
    proof (cases p)
      case (Ready u)
      then have "\<not> mx_locked (lr_mutex r)" "mx_locked g" using lock_poll_locked(1) [of w f "lr_mutex r" u f' g] l by simp_all
      then show ?thesis using assms PollLock Some l Ready by (simp add: lock_inv_def)
    next
      case Pending
      then have "mx_locked (lr_mutex r)" "mx_locked g" using lock_poll_locked(2) [of w f "lr_mutex r" f' g] l by simp_all
      then show ?thesis using assms PollLock Some l Pending by (simp add: lock_inv_def)
    qed
  qed
next
  case (DropGuard i)
  show ?thesis
  proof (cases "i \<in> set (lr_guards r)")
    case True
    then have "mx_locked (lr_mutex r)" using assms by (cases "mx_locked (lr_mutex r)") (simp_all add: lock_inv_def)
    then have "length (lr_guards r) = 1" using assms by (simp add: lock_inv_def)
    then have "remove1 i (lr_guards r) = []" using True by (simp add: length_remove1 flip: length_0_conv)
    then show ?thesis using DropGuard True
      by (simp add: lock_inv_def guard_drop_def Let_def split: list.splits)
  next
    case False
    then show ?thesis using assms DropGuard by simp
  qed
qed (use assms in \<open>simp_all add: lock_inv_def lock_future_drop_def split: option.splits\<close>)

lemma lock_events_inv: "lock_inv r \<Longrightarrow> lock_inv (fold lock_step es r)"
  by (induction es arbitrary: r) (simp_all add: lock_step_inv)

text \<open>
  at most one guard of a mutex is alive after any history of lock attempts, polls,
  cancellations and releases, and the lock is marked as held exactly while one is.
\<close>

theorem mutual_exclusion:
  "length (lr_guards (fold lock_step es lock_start)) =
     (if mx_locked (lr_mutex (fold lock_step es lock_start)) then 1 else 0)"
proof -
  have "lock_inv (lock_start :: 'a lock_run)" by (simp add: lock_inv_def lock_start_def mutex_new_def)
  from lock_events_inv [OF this, of es] show ?thesis by (auto simp: lock_inv_def split: if_splits)
qed

text \<open>
  the hand-over of the mutex can be lost in two ways. A waiter that was woken and is
  cancelled before it runs takes its wake-up with it: the lock is free, another task waits,
  and nobody is woken. And a waiter that was woken but finds the lock taken by a newcomer
  does not queue itself again: when the newcomer releases the lock nobody is woken, although
  the first task still waits.
\<close>

theorem lock_handover_lost:
  "(let r = fold lock_step
       [NewLock 0, PollLock 0 (100::nat), NewLock 1, PollLock 1 101, NewLock 2, PollLock 2 102,
        DropGuard 0, DropLock 1] lock_start
   in \<not> mx_locked (lr_mutex r) \<and> mx_waiters (lr_mutex r) = [102] \<and> lr_woken r = [101] \<and> lr_futures r 1 = None)
   \<and> (let r = fold lock_step
       [NewLock 0, PollLock 0 (100::nat), NewLock 1, PollLock 1 101, DropGuard 0,
        NewLock 2, PollLock 2 102, PollLock 1 103, DropGuard 2] lock_start
   in \<not> mx_locked (lr_mutex r) \<and> mx_waiters (lr_mutex r) = [] \<and> lr_woken r = [101] \<and>
      lr_futures r 1 = Some \<lparr>lf_registered = Some 103\<rparr>)"
  by (simp add: lock_start_def mutex_new_def mutex_lock_def lock_poll_def guard_drop_def lock_future_drop_def)

end
