(* ===== verification/Oneshot.thy ===== *)
theory Oneshot
  imports Executor
begin

text \<open>
  The one-shot channel (\<^verbatim>\<open>sync/oneshot.rs\<close>). Its halves share an atomic state, a cell
  and a waker slot under a lock and run on different threads, so the model is a step
  relation: one step per access to a shared location, with the position of each half in its
  operation as part of the state. Accesses are sequentially consistent.
\<close>

section \<open>Shared state and positions\<close>

datatype os_state = EMPTY | SENT | CLOSED

primrec os_state_u8 :: "os_state \<Rightarrow> byte" where
  "os_state_u8 EMPTY = 0"
| "os_state_u8 SENT = 1"
| "os_state_u8 CLOSED = 2"

text \<open>
  The sender: alive; in \<^verbatim>\<open>send\<close> with the value in the cell; having sent, before waking;
  having failed to send, before its drop; dropped without sending, before waking; finished,
  with the value given back by a failed \<^verbatim>\<open>send\<close>.
\<close>

datatype 'a sender = SAlive | SWritten | SWake | SFailed 'a | SDropWake | SDone "'a option"

text \<open>
  The receiver: not being polled; in a poll that saw \<open>EMPTY\<close>, before and after storing
  its waker; parked with a waker after a pending poll; resolved; dropped. \<open>RPanic\<close> is the
  failed \<^verbatim>\<open>expect\<close> of a read without a value.
\<close>

datatype ('a, 'w) receiver =
  RIdle | RRegister 'w | RRecheck 'w | RParked 'w | RGot 'a | RClosed | RDropped | RPanic

record ('a, 'w) oneshot =
  os_state :: os_state
  os_value :: "'a option"
  os_waker :: "'w option"
  os_sender :: "'a sender"
  os_receiver :: "('a, 'w) receiver"
  os_woken :: "'w set"

definition oneshot_channel :: "('a, 'w) oneshot" where
  "oneshot_channel = \<lparr>os_state = EMPTY, os_value = None, os_waker = None, os_sender = SAlive,
     os_receiver = RIdle, os_woken = {}\<rparr>"

section \<open>Steps\<close>

text \<open>\<^verbatim>\<open>Sender::send\<close>: write the value, then try \<open>EMPTY\<close> to \<open>SENT\<close>.\<close>

definition send_write :: "'a \<Rightarrow> ('a, 'w) oneshot \<Rightarrow> ('a, 'w) oneshot" where
  "send_write v c = c\<lparr>os_value := Some v, os_sender := SWritten\<rparr>"

definition send_cas :: "('a, 'w) oneshot \<Rightarrow> ('a, 'w) oneshot" where
  "send_cas c =
     (if os_state c = EMPTY then c\<lparr>os_state := SENT, os_sender := SWake\<rparr>
      else c\<lparr>os_value := None, os_sender := SFailed (the (os_value c))\<rparr>)"

definition take_waker :: "('a, 'w) oneshot \<Rightarrow> ('a, 'w) oneshot" where
  "take_waker c = (case os_waker c of
     Some w \<Rightarrow> c\<lparr>os_waker := None, os_woken := insert w (os_woken c)\<rparr> | None \<Rightarrow> c)"

text \<open>\<^verbatim>\<open>Drop for Sender\<close> of a sender that has not sent.\<close>

definition oneshot_sender_drop :: "'a option \<Rightarrow> ('a, 'w) oneshot \<Rightarrow> ('a, 'w) oneshot" where
  "oneshot_sender_drop back c =
     c\<lparr>os_state := CLOSED, os_sender := (if os_state c = EMPTY then SDropWake else SDone back)\<rparr>"

text \<open>Reading the value once the state is \<open>SENT\<close>.\<close>

definition recv_take :: "('a, 'w) oneshot \<Rightarrow> ('a, 'w) oneshot" where
  "recv_take c = (case os_value c of
     Some v \<Rightarrow> c\<lparr>os_value := None, os_receiver := RGot v\<rparr> | None \<Rightarrow> c\<lparr>os_receiver := RPanic\<rparr>)"

definition recv_load :: "('a, 'w) receiver \<Rightarrow> ('a, 'w) oneshot \<Rightarrow> ('a, 'w) oneshot" where
  "recv_load next_empty c =
     (case os_state c of
        SENT \<Rightarrow> recv_take c
      | CLOSED \<Rightarrow> c\<lparr>os_receiver := RClosed\<rparr>
      | EMPTY \<Rightarrow> c\<lparr>os_receiver := next_empty\<rparr>)"

definition recv_register :: "'w \<Rightarrow> ('a, 'w) oneshot \<Rightarrow> ('a, 'w) oneshot" where
  "recv_register w c = c\<lparr>os_waker := Some w, os_receiver := RRecheck w\<rparr>"

definition oneshot_receiver_drop :: "('a, 'w) oneshot \<Rightarrow> ('a, 'w) oneshot" where
  "oneshot_receiver_drop c =
     c\<lparr>os_state := (if os_state c = EMPTY then CLOSED else os_state c), os_receiver := RDropped\<rparr>"

inductive os_step :: "('a, 'w) oneshot \<Rightarrow> ('a, 'w) oneshot \<Rightarrow> bool" where
  write_value: "os_sender c = SAlive \<Longrightarrow> os_step c (send_write v c)"
| cas: "os_sender c = SWritten \<Longrightarrow> os_step c (send_cas c)"
| sent_wake: "os_sender c = SWake \<Longrightarrow> os_step c ((take_waker c)\<lparr>os_sender := SDone None\<rparr>)"
| failed_drop: "os_sender c = SFailed v \<Longrightarrow> os_step c (oneshot_sender_drop (Some v) c)"
| sender_drop: "os_sender c = SAlive \<Longrightarrow> os_step c (oneshot_sender_drop None c)"
| drop_wake: "os_sender c = SDropWake \<Longrightarrow> os_step c ((take_waker c)\<lparr>os_sender := SDone None\<rparr>)"
| poll: "os_receiver c = RIdle \<or> os_receiver c = RParked w' \<Longrightarrow> os_step c (recv_load (RRegister w) c)"
| register: "os_receiver c = RRegister w \<Longrightarrow> os_step c (recv_register w c)"
| recheck: "os_receiver c = RRecheck w \<Longrightarrow> os_step c (recv_load (RParked w) c)"
| receiver_drop: "os_receiver c \<in> {RIdle, RGot v, RClosed, RParked w} \<Longrightarrow> os_step c (oneshot_receiver_drop c)"

inductive os_reach :: "('a, 'w) oneshot \<Rightarrow> bool" where
  start: "os_reach oneshot_channel"
| step: "os_reach c \<Longrightarrow> os_step c c' \<Longrightarrow> os_reach c'"

section \<open>The invariant\<close>

definition os_inv :: "('a, 'w) oneshot \<Rightarrow> bool" where
  "os_inv c \<longleftrightarrow>
     (case os_sender c of
        SAlive \<Rightarrow> os_state c \<noteq> SENT \<and> os_value c = None \<and> (os_state c = EMPTY \<or> os_receiver c = RDropped)
      | SWritten \<Rightarrow> os_state c \<noteq> SENT \<and> os_value c \<noteq> None \<and> (os_state c = EMPTY \<or> os_receiver c = RDropped)
      | SWake \<Rightarrow> os_state c = SENT
      | SFailed v \<Rightarrow> os_state c = CLOSED \<and> os_receiver c = RDropped
      | SDropWake \<Rightarrow> os_state c = CLOSED
      | SDone None \<Rightarrow> os_state c \<noteq> EMPTY
      | SDone (Some v) \<Rightarrow> os_state c = CLOSED \<and> os_receiver c = RDropped) \<and>
     (os_state c = CLOSED \<or> os_receiver c \<noteq> RClosed) \<and>
     (os_state c = SENT \<and> os_value c = None \<longrightarrow> os_receiver c = RDropped \<or> (\<exists>v. os_receiver c = RGot v)) \<and>
     (\<forall>v. os_receiver c = RGot v \<longrightarrow> os_state c = SENT) \<and>
     os_receiver c \<noteq> RPanic \<and>
     (\<forall>w. os_receiver c = RRecheck w \<longrightarrow> os_waker c = Some w \<or> w \<in> os_woken c) \<and>
     (\<forall>w. os_receiver c = RParked w \<longrightarrow> w \<in> os_woken c \<or>
        os_waker c = Some w \<and> (os_state c = EMPTY \<or> os_sender c = SWake \<or> os_sender c = SDropWake))"

lemmas os_defs = send_write_def send_cas_def take_waker_def oneshot_sender_drop_def recv_take_def recv_load_def
  recv_register_def oneshot_receiver_drop_def

lemma os_inv_write: "os_inv c \<Longrightarrow> os_sender c = SAlive \<Longrightarrow> os_inv (send_write v c)"
  by (simp add: os_inv_def send_write_def)

lemma os_inv_cas: "os_inv c \<Longrightarrow> os_sender c = SWritten \<Longrightarrow> os_inv (send_cas c)"
  by (cases "os_state c") (auto simp: os_inv_def send_cas_def)

lemma os_inv_wake:
  "os_inv c \<Longrightarrow> os_sender c = SWake \<or> os_sender c = SDropWake \<Longrightarrow> os_inv ((take_waker c)\<lparr>os_sender := SDone None\<rparr>)"
  by (cases "os_waker c") (auto simp: os_inv_def take_waker_def)

lemma os_inv_sender_drop:
  "os_inv c \<Longrightarrow> os_sender c = SAlive \<and> b = None \<or> os_sender c = SFailed v \<and> b = Some v \<Longrightarrow>
    os_inv (oneshot_sender_drop b c)"
  by (cases "os_state c") (auto simp: os_inv_def oneshot_sender_drop_def)

lemma os_inv_receiver_drop:
  "os_inv c \<Longrightarrow> os_receiver c \<in> {RIdle, RGot v, RClosed, RParked w} \<Longrightarrow> os_inv (oneshot_receiver_drop c)"
  by (cases "os_state c"; cases "os_sender c")
    (simp_all add: os_inv_def oneshot_receiver_drop_def split: option.splits)

lemma os_inv_register: "os_inv c \<Longrightarrow> os_receiver c = RRegister w \<Longrightarrow> os_inv (recv_register w c)"
  by (cases "os_sender c") (auto simp: os_inv_def recv_register_def split: option.splits)

lemma os_inv_poll:
  "os_inv c \<Longrightarrow> os_receiver c = RIdle \<or> os_receiver c = RParked w' \<Longrightarrow> os_inv (recv_load (RRegister w) c)"
  by (cases "os_state c"; cases "os_value c"; cases "os_sender c")
    (auto simp: os_inv_def recv_load_def recv_take_def split: option.splits)

lemma os_inv_recheck: "os_inv c \<Longrightarrow> os_receiver c = RRecheck w \<Longrightarrow> os_inv (recv_load (RParked w) c)"
  by (cases "os_state c"; cases "os_value c"; cases "os_sender c")
    (auto simp: os_inv_def recv_load_def recv_take_def split: option.splits)

lemma os_inv_step: "os_step c c' \<Longrightarrow> os_inv c \<Longrightarrow> os_inv c'"
  by (induction rule: os_step.induct)
    (simp_all add: os_inv_write os_inv_cas os_inv_wake os_inv_sender_drop os_inv_receiver_drop os_inv_register
      os_inv_recheck os_inv_poll)

lemma os_inv_reach: "os_reach c \<Longrightarrow> os_inv c"
proof (induction rule: os_reach.induct)
  case start
  then show ?case by (simp add: os_inv_def oneshot_channel_def)
next
  case (step c c')
  then show ?case using os_inv_step by blast
qed

section \<open>Properties\<close>

text \<open>
  C27: in every interleaving of the two halves of a one-shot channel, the receiver never reads
  an empty cell; a parked receiver whose channel has been filled or closed has been woken
  once the sender is through (no lost wake-up); it holds a value only if the state says that
  one was sent; and a sender that failed gets its value back only if the receiver is gone.
\<close>

theorem oneshot_no_lost_wakeup:
  assumes "os_reach c"
  shows "os_receiver c \<noteq> RPanic \<and>
    (os_receiver c = RParked w \<and> os_sender c = SDone b \<longrightarrow> w \<in> os_woken c) \<and>
    (os_receiver c = RGot v \<longrightarrow> os_state c = SENT) \<and>
    (os_sender c = SDone (Some u) \<longrightarrow> os_receiver c = RDropped)"
proof -
  have "os_inv c" by (rule os_inv_reach [OF assms])
  then show ?thesis by (cases b) (auto simp: os_inv_def)
qed

text \<open>The receiver parks; then the sender writes, sends and fires the waker.\<close>

definition parked_then_sent :: "(nat, nat) oneshot" where
  "parked_then_sent = (take_waker (send_cas (send_write 7 (recv_load (RParked 3)
     (recv_register 3 (recv_load (RRegister 3) oneshot_channel))))))\<lparr>os_sender := SDone None\<rparr>"

lemma os_reach_parked_then_sent: "os_reach parked_then_sent"
proof -
  let ?c1 = "recv_load (RRegister 3) oneshot_channel :: (nat, nat) oneshot"
  let ?c2 = "recv_register 3 ?c1" let ?c3 = "recv_load (RParked 3) ?c2" let ?c4 = "send_write 7 ?c3"
  have 1: "os_reach ?c1"
    by (rule os_reach.step [OF os_reach.start os_step.poll]) (simp add: oneshot_channel_def)
  have 2: "os_reach ?c2"
    by (rule os_reach.step [OF 1 os_step.register]) (simp add: recv_load_def oneshot_channel_def)
  have 3: "os_reach ?c3" by (rule os_reach.step [OF 2 os_step.recheck]) (simp add: recv_register_def)
  have 4: "os_reach ?c4"
    by (rule os_reach.step [OF 3 os_step.write_value]) (simp add: os_defs oneshot_channel_def)
  have 5: "os_reach (send_cas ?c4)" by (rule os_reach.step [OF 4 os_step.cas]) (simp add: send_write_def)
  show ?thesis unfolding parked_then_sent_def
    by (rule os_reach.step [OF 5 os_step.sent_wake]) (simp add: os_defs oneshot_channel_def)
qed

theorem oneshot_no_lost_wakeup_witness:
  "os_receiver parked_then_sent = RParked 3 \<and> os_sender parked_then_sent = SDone None \<and> 3 \<in> os_woken parked_then_sent"
proof -
  have "os_receiver parked_then_sent = RParked 3" "os_sender parked_then_sent = SDone None"
    by (simp_all add: parked_then_sent_def os_defs oneshot_channel_def)
  then show ?thesis using oneshot_no_lost_wakeup [OF os_reach_parked_then_sent, of 3 None] by simp
qed

end
