(* ===== verification/Pg_Wire.thy ===== *)
theory Pg_Wire
  imports H1_Conn
begin

text \<open>
  The PostgreSQL wire protocol (\<^verbatim>\<open>moduvex-db/src/protocol/postgres/wire.rs\<close>,
  \<^verbatim>\<open>codec.rs\<close>, the OID table of \<^verbatim>\<open>pg_types.rs\<close>): framing over a transport, the
  frontend messages a client sends and the decoder of the backend messages it receives,
  with every error and every index that can leave the payload. Strings are their UTF-8
  bytes; \<^verbatim>\<open>i32\<close> values are 32-bit words read with \<open>sint\<close>.
\<close>

section \<open>Messages and errors\<close>

datatype pg_type = PgBool | PgInt4 | PgInt8 | PgFloat8 | PgText | PgTimestamp | PgUuid | PgUnknown u32

definition OID_BOOL :: u32 where "OID_BOOL = 16"
definition OID_INT4 :: u32 where "OID_INT4 = 23"
definition OID_INT8 :: u32 where "OID_INT8 = 20"
definition OID_FLOAT8 :: u32 where "OID_FLOAT8 = 701"
definition OID_TEXT :: u32 where "OID_TEXT = 25"
definition OID_TIMESTAMP :: u32 where "OID_TIMESTAMP = 1114"
definition OID_UUID :: u32 where "OID_UUID = 2950"

lemmas oid_defs = OID_BOOL_def OID_INT4_def OID_INT8_def OID_FLOAT8_def OID_TEXT_def OID_TIMESTAMP_def OID_UUID_def

definition pg_type_from_oid :: "u32 \<Rightarrow> pg_type" where
  "pg_type_from_oid oid =
     (if oid = OID_BOOL then PgBool
      else if oid = OID_INT4 then PgInt4
      else if oid = OID_INT8 then PgInt8
      else if oid = OID_FLOAT8 then PgFloat8
      else if oid = OID_TEXT then PgText
      else if oid = OID_TIMESTAMP then PgTimestamp
      else if oid = OID_UUID then PgUuid
      else PgUnknown oid)"

fun pg_type_oid :: "pg_type \<Rightarrow> u32" where
  "pg_type_oid PgBool = OID_BOOL"
| "pg_type_oid PgInt4 = OID_INT4"
| "pg_type_oid PgInt8 = OID_INT8"
| "pg_type_oid PgFloat8 = OID_FLOAT8"
| "pg_type_oid PgText = OID_TEXT"
| "pg_type_oid PgTimestamp = OID_TIMESTAMP"
| "pg_type_oid PgUuid = OID_UUID"
| "pg_type_oid (PgUnknown oid) = oid"

record column_desc =
  cd_name :: bytes
  cd_type_oid :: u32
  cd_pg_type :: pg_type

type_synonym fields = "bytes option list"

datatype backend_message =
  AuthOk
| AuthMd5 bytes
| ParameterStatus bytes bytes
| ReadyForQuery byte
| RowDescription "column_desc list"
| DataRow fields
| CommandComplete bytes
| ErrorResponse bytes bytes "bytes option"
| NoticeResponse
| ParseComplete
| BindComplete
| NoData
| ParameterDescription "u32 list"

text \<open>
  \<^verbatim>\<open>DbError\<close>. \<open>ProtocolUnexpected s m\<close> is the \<^verbatim>\<open>Protocol\<close> error whose text is \<open>s\<close> followed by
  the debug print of the message \<open>m\<close>, \<open>UnsupportedMechanisms\<close> the \<^verbatim>\<open>UnsupportedAuth\<close> error whose
  text prints the list of mechanisms, and \<open>TypeMismatchValue s bs\<close> the \<^verbatim>\<open>TypeMismatch\<close> error whose text is
  \<open>s\<close>, the offending value \<open>bs\<close> and the parser's own explanation of it. \<open>MigrationFailed v f e\<close> is the
  \<^verbatim>\<open>Migration\<close> error whose text names version, file and the error \<open>e\<close>.
\<close>

datatype db_error =
  Io string
| ServerError bytes bytes "bytes option"
| AuthFailed bytes
| UnsupportedAuth bytes
| UnsupportedMechanisms "bytes list"
| Protocol bytes
| ProtocolUnexpected string backend_message
| PoolTimeout
| PoolClosed
| TypeMismatch bytes
| TypeMismatchValue string bytes
| Migration bytes
| MigrationFailed nat bytes db_error
| TransactionConsumed
| NullValue bytes
| OtherError bytes

type_synonym 'a db_result = "('a, db_error) outcome"

abbreviation protocol_error :: "string \<Rightarrow> db_error" where
  "protocol_error msg \<equiv> Protocol (ascii msg)"

text \<open>The formats \<^verbatim>\<open>{:02X}\<close> of a byte and \<^verbatim>\<open>{}\<close> of a signed number.\<close>

definition hex_upper :: "nat \<Rightarrow> byte" where
  "hex_upper d = (if d < 10 then of_nat (48 + d) else of_nat (55 + d))"

definition hex2 :: "byte \<Rightarrow> bytes" where
  "hex2 b = [hex_upper (unat b div 16), hex_upper (unat b mod 16)]"

definition int_decimal :: "int \<Rightarrow> bytes" where
  "int_decimal i = (if i < 0 then ascii ''-'' @ decimal (nat (- i)) else decimal (nat i))"

section \<open>Framing\<close>

text \<open>The \<^verbatim>\<open>while filled < n\<close> loop of \<^verbatim>\<open>read_exact\<close>.\<close>

function pg_read_loop :: "transport \<Rightarrow> nat \<Rightarrow> bytes \<Rightarrow> bytes db_result \<times> transport" where
  "pg_read_loop t n acc =
     (if length acc < n then
        (case poll_read t (n - length acc) of
           (Err e, t') \<Rightarrow> (Err (Io e), t')
         | (Panic, t') \<Rightarrow> (Panic, t')
         | (Ok chunk, t') \<Rightarrow>
             if chunk = [] then (Err (protocol_error ''unexpected EOF reading from server''), t')
             else pg_read_loop t' n (acc @ chunk))
      else (Ok acc, t))"
  by pat_completeness auto
termination
  by (relation "measure (\<lambda>(t, n, acc). n - length acc)") (auto intro!: diff_less_mono2)

declare pg_read_loop.simps [simp del]

definition pg_read_exact :: "transport \<Rightarrow> nat \<Rightarrow> bytes db_result \<times> transport" where
  "pg_read_exact t n = pg_read_loop t n []"

definition read_backend_message :: "transport \<Rightarrow> (byte \<times> bytes) db_result \<times> transport" where
  "read_backend_message t =
     (case pg_read_exact t 5 of
        (Err e, t1) \<Rightarrow> (Err e, t1)
      | (Panic, t1) \<Rightarrow> (Panic, t1)
      | (Ok hdr, t1) \<Rightarrow>
          (let msg_type = hdr ! 0; len = sint (from_be (drop 1 hdr) :: u32)
           in if len < 4 then
                (Err (Protocol (ascii ''invalid message length '' @ int_decimal len @ ascii '' for type 0x'' @ hex2 msg_type)), t1)
              else
                (let payload_len = nat (len - 4)
                 in if 0 < payload_len then
                      (case pg_read_exact t1 payload_len of
                         (Err e, t2) \<Rightarrow> (Err e, t2)
                       | (Panic, t2) \<Rightarrow> (Panic, t2)
                       | (Ok payload, t2) \<Rightarrow> (Ok (msg_type, payload), t2))
                    else (Ok (msg_type, []), t1))))"

definition pg_write_all :: "transport \<Rightarrow> bytes \<Rightarrow> unit db_result \<times> transport" where
  "pg_write_all t buf = write_loop Io (protocol_error ''zero-byte write to server'') t buf"

definition frontend_frame :: "byte \<Rightarrow> bytes \<Rightarrow> bytes" where
  "frontend_frame msg_type payload = msg_type # to_be 4 (of_nat (4 + length payload) :: u32) @ payload"

definition write_frontend_message :: "transport \<Rightarrow> byte \<Rightarrow> bytes \<Rightarrow> unit db_result \<times> transport" where
  "write_frontend_message t msg_type payload = pg_write_all t (frontend_frame msg_type payload)"

definition write_startup_message :: "transport \<Rightarrow> bytes \<Rightarrow> unit db_result \<times> transport" where
  "write_startup_message t payload =
     pg_write_all t (to_be 4 (of_nat (4 + length payload) :: u32) @ payload)"

text \<open>A NUL-terminated string at an offset, and the offset behind it.\<close>

definition read_cstring :: "bytes \<Rightarrow> nat \<Rightarrow> (bytes \<times> nat) db_result" where
  "read_cstring bs offset =
     (case position (\<lambda>b. b = 0) (drop offset bs) of
        None \<Rightarrow> Err (protocol_error ''unterminated C-string in message payload'')
      | Some k \<Rightarrow>
          (let s = take k (drop offset bs)
           in if utf8_valid s then Ok (s, offset + k + 1)
              else Err (protocol_error ''non-UTF-8 C-string in payload'')))"

definition write_cstring :: "bytes \<Rightarrow> bytes" where
  "write_cstring s = s @ [0]"

section \<open>Frontend messages\<close>

definition MSG_QUERY :: byte where "MSG_QUERY = 0x51"
definition MSG_PASSWORD :: byte where "MSG_PASSWORD = 0x70"
definition MSG_TERMINATE :: byte where "MSG_TERMINATE = 0x58"
definition MSG_PARSE :: byte where "MSG_PARSE = 0x50"
definition MSG_BIND :: byte where "MSG_BIND = 0x42"
definition MSG_DESCRIBE :: byte where "MSG_DESCRIBE = 0x44"
definition MSG_EXECUTE :: byte where "MSG_EXECUTE = 0x45"
definition MSG_SYNC :: byte where "MSG_SYNC = 0x53"
definition MSG_CLOSE :: byte where "MSG_CLOSE = 0x43"

definition encode_parse :: "bytes \<Rightarrow> bytes \<Rightarrow> u32 list \<Rightarrow> bytes" where
  "encode_parse name query param_oids =
     write_cstring name @ write_cstring query @ to_be 2 (of_nat (length param_oids) :: u16)
     @ concat (map (to_be 4) param_oids)"

text \<open>A length-prefixed field; NULL has length \<open>-1\<close>.\<close>

definition encode_field :: "bytes option \<Rightarrow> bytes" where
  "encode_field p = (case p of
     None \<Rightarrow> to_be 4 (- 1 :: u32)
   | Some data \<Rightarrow> to_be 4 (of_nat (length data) :: u32) @ data)"

definition encode_bind :: "bytes \<Rightarrow> bytes \<Rightarrow> bytes option list \<Rightarrow> bytes" where
  "encode_bind portal stmt params =
     write_cstring portal @ write_cstring stmt @ to_be 2 (0 :: u16)
     @ to_be 2 (of_nat (length params) :: u16) @ concat (map encode_field params) @ to_be 2 (0 :: u16)"

definition encode_execute :: "bytes \<Rightarrow> u32 \<Rightarrow> bytes" where
  "encode_execute portal max_rows = write_cstring portal @ to_be 4 max_rows"

definition encode_describe :: "byte \<Rightarrow> bytes \<Rightarrow> bytes" where
  "encode_describe target name = target # write_cstring name"

definition encode_sync :: bytes where
  "encode_sync = []"

definition encode_close :: "byte \<Rightarrow> bytes \<Rightarrow> bytes" where
  "encode_close target name = target # write_cstring name"

definition encode_startup :: "bytes \<Rightarrow> bytes \<Rightarrow> bytes" where
  "encode_startup user database =
     to_be 4 (0x00030000 :: u32) @ write_cstring (ascii ''user'') @ write_cstring user
     @ write_cstring (ascii ''database'') @ write_cstring database @ [0]"

definition encode_query :: "bytes \<Rightarrow> bytes" where
  "encode_query sql = write_cstring sql"

definition encode_password :: "bytes \<Rightarrow> bytes" where
  "encode_password password = write_cstring password"

section \<open>Backend messages\<close>

definition MSG_AUTH :: byte where "MSG_AUTH = 0x52"
definition MSG_PARAM_STATUS :: byte where "MSG_PARAM_STATUS = 0x53"
definition MSG_READY_FOR_QUERY :: byte where "MSG_READY_FOR_QUERY = 0x5A"
definition MSG_ROW_DESC :: byte where "MSG_ROW_DESC = 0x54"
definition MSG_DATA_ROW :: byte where "MSG_DATA_ROW = 0x44"
definition MSG_COMMAND_COMPLETE :: byte where "MSG_COMMAND_COMPLETE = 0x43"
definition MSG_ERROR_RESPONSE :: byte where "MSG_ERROR_RESPONSE = 0x45"
definition MSG_NOTICE_RESPONSE :: byte where "MSG_NOTICE_RESPONSE = 0x4E"
definition MSG_PARSE_COMPLETE :: byte where "MSG_PARSE_COMPLETE = 0x31"
definition MSG_BIND_COMPLETE :: byte where "MSG_BIND_COMPLETE = 0x32"
definition MSG_NO_DATA :: byte where "MSG_NO_DATA = 0x6E"
definition MSG_PARAM_DESCRIPTION :: byte where "MSG_PARAM_DESCRIPTION = 0x74"

lemmas backend_msg_defs = MSG_AUTH_def MSG_PARAM_STATUS_def MSG_READY_FOR_QUERY_def MSG_ROW_DESC_def
  MSG_DATA_ROW_def MSG_COMMAND_COMPLETE_def MSG_ERROR_RESPONSE_def MSG_NOTICE_RESPONSE_def
  MSG_PARSE_COMPLETE_def MSG_BIND_COMPLETE_def MSG_NO_DATA_def MSG_PARAM_DESCRIPTION_def

definition be_at :: "bytes \<Rightarrow> nat \<Rightarrow> nat \<Rightarrow> 'a::len word" where
  "be_at payload pos n = from_be (take n (drop pos payload))"

definition decode_auth :: "bytes \<Rightarrow> backend_message db_result" where
  "decode_auth payload =
     (if length payload < 4 then Err (protocol_error ''auth message too short'')
      else let sub = sint (be_at payload 0 4 :: u32)
           in if sub = 0 then Ok AuthOk
              else if sub = 5 then
                if length payload < 8 then Err (protocol_error ''MD5 auth message missing salt'')
                else Ok (AuthMd5 (take 4 (drop 4 payload)))
              else Err (UnsupportedAuth (ascii ''auth type '' @ int_decimal sub)))"

definition decode_param_status :: "bytes \<Rightarrow> backend_message db_result" where
  "decode_param_status payload =
     (case read_cstring payload 0 of
        Err e \<Rightarrow> Err e
      | Panic \<Rightarrow> Panic
      | Ok (name, off) \<Rightarrow>
          (case read_cstring payload off of
             Err e \<Rightarrow> Err e
           | Panic \<Rightarrow> Panic
           | Ok (val, _) \<Rightarrow> Ok (ParameterStatus name val)))"

definition decode_ready_for_query :: "bytes \<Rightarrow> backend_message db_result" where
  "decode_ready_for_query payload =
     (case payload of
        [] \<Rightarrow> Err (protocol_error ''ReadyForQuery payload empty'')
      | status # _ \<Rightarrow> Ok (ReadyForQuery status))"

text \<open>The loops \<^verbatim>\<open>for _ in 0..count\<close> over columns and fields, from position \<open>pos\<close>.\<close>

primrec decode_columns :: "bytes \<Rightarrow> nat \<Rightarrow> nat \<Rightarrow> column_desc list db_result" where
  "decode_columns payload 0 pos = Ok []"
| "decode_columns payload (Suc k) pos =
     (case read_cstring payload pos of
        Err e \<Rightarrow> Err e
      | Panic \<Rightarrow> Panic
      | Ok (name, pos1) \<Rightarrow>
          if length payload < pos1 + 18 then Err (protocol_error ''RowDescription column entry truncated'')
          else
            (let type_oid = be_at payload (pos1 + 6) 4
             in case decode_columns payload k (pos1 + 18) of
                  Ok cols \<Rightarrow> Ok (\<lparr>cd_name = name, cd_type_oid = type_oid, cd_pg_type = pg_type_from_oid type_oid\<rparr> # cols)
                | Err e \<Rightarrow> Err e
                | Panic \<Rightarrow> Panic))"

definition decode_row_description :: "bytes \<Rightarrow> backend_message db_result" where
  "decode_row_description payload =
     (if length payload < 2 then Err (protocol_error ''RowDescription too short'')
      else case decode_columns payload (unat (be_at payload 0 2 :: u16)) 2 of
             Ok columns \<Rightarrow> Ok (RowDescription columns)
           | Err e \<Rightarrow> Err e
           | Panic \<Rightarrow> Panic)"

text \<open>
  One field. \<^verbatim>\<open>len as usize\<close> of a negative length other than \<open>-1\<close> is \<open>2 ^ 64 + len\<close>; the sum
  \<^verbatim>\<open>pos + len\<close> then overflows (a panic with overflow checks, and without them a slice whose
  end lies before its start, which panics too) unless it stays below \<open>2 ^ 64\<close>.
\<close>

definition decode_field :: "bytes \<Rightarrow> nat \<Rightarrow> (bytes option \<times> nat) db_result" where
  "decode_field payload pos =
     (if length payload < pos + 4 then Err (protocol_error ''DataRow field length truncated'')
      else
        (let len = sint (be_at payload pos 4 :: u32); pos1 = pos + 4
         in if len = - 1 then Ok (None, pos1)
            else
              (let len1 = (if len < 0 then nat (2 ^ 64 + len) else nat len)
               in if 2 ^ 64 \<le> pos1 + len1 then Panic
                  else if length payload < pos1 + len1 then Err (protocol_error ''DataRow field data truncated'')
                  else Ok (Some (take len1 (drop pos1 payload)), pos1 + len1))))"

primrec decode_fields :: "bytes \<Rightarrow> nat \<Rightarrow> nat \<Rightarrow> fields db_result" where
  "decode_fields payload 0 pos = Ok []"
| "decode_fields payload (Suc k) pos =
     (case decode_field payload pos of
        Err e \<Rightarrow> Err e
      | Panic \<Rightarrow> Panic
      | Ok (f, pos1) \<Rightarrow>
          (case decode_fields payload k pos1 of
             Ok fs \<Rightarrow> Ok (f # fs)
           | Err e \<Rightarrow> Err e
           | Panic \<Rightarrow> Panic))"

definition decode_data_row :: "bytes \<Rightarrow> backend_message db_result" where
  "decode_data_row payload =
     (if length payload < 2 then Err (protocol_error ''DataRow too short'')
      else case decode_fields payload (unat (be_at payload 0 2 :: u16)) 2 of
             Ok fs \<Rightarrow> Ok (DataRow fs)
           | Err e \<Rightarrow> Err e
           | Panic \<Rightarrow> Panic)"

definition decode_command_complete :: "bytes \<Rightarrow> backend_message db_result" where
  "decode_command_complete payload =
     (case read_cstring payload 0 of
        Ok (tag, _) \<Rightarrow> Ok (CommandComplete tag)
      | Err e \<Rightarrow> Err e
      | Panic \<Rightarrow> Panic)"

definition decode_parameter_description :: "bytes \<Rightarrow> backend_message db_result" where
  "decode_parameter_description payload =
     (if length payload < 2 then Err (protocol_error ''ParameterDescription message too short'')
      else
        (let k = unat (be_at payload 0 2 :: u16)
         in if length payload < 2 + k * 4 then Err (protocol_error ''ParameterDescription payload truncated'')
            else Ok (ParameterDescription (map (\<lambda>i. be_at payload (2 + i * 4) 4) [0..<k]))))"

text \<open>The \<^verbatim>\<open>while pos < payload.len()\<close> loop over the fields of an error.\<close>

lemma read_cstring_advances:
  assumes "read_cstring bs offset = Ok (s, offset')"
  shows "offset < offset'"
  using assms by (auto simp: read_cstring_def Let_def split: option.splits if_splits)

function decode_error_fields :: "bytes \<Rightarrow> nat \<Rightarrow> bytes \<Rightarrow> bytes \<Rightarrow> bytes option \<Rightarrow> backend_message db_result" where
  "decode_error_fields payload pos code message detail =
     (if length payload \<le> pos \<or> payload ! pos = 0 then Ok (ErrorResponse code message detail)
      else
        (case read_cstring payload (pos + 1) of
           Err e \<Rightarrow> Err e
         | Panic \<Rightarrow> Panic
         | Ok (val, next) \<Rightarrow>
             decode_error_fields payload next
               (if payload ! pos = 0x43 then val else code)
               (if payload ! pos = 0x4D then val else message)
               (if payload ! pos = 0x44 then Some val else detail)))"
  by pat_completeness auto
termination
  by (relation "measure (\<lambda>(payload, pos, _). length payload - pos)")
    (auto dest!: sym [of "Ok _"] read_cstring_advances intro!: diff_less_mono2)

declare decode_error_fields.simps [simp del]

definition decode_error_response :: "bytes \<Rightarrow> backend_message db_result" where
  "decode_error_response payload = decode_error_fields payload 0 [] [] None"

definition decode_backend :: "byte \<Rightarrow> bytes \<Rightarrow> backend_message db_result" where
  "decode_backend msg_type payload =
     (if msg_type = MSG_AUTH then decode_auth payload
      else if msg_type = MSG_PARAM_STATUS then decode_param_status payload
      else if msg_type = MSG_READY_FOR_QUERY then decode_ready_for_query payload
      else if msg_type = MSG_ROW_DESC then decode_row_description payload
      else if msg_type = MSG_DATA_ROW then decode_data_row payload
      else if msg_type = MSG_COMMAND_COMPLETE then decode_command_complete payload
      else if msg_type = MSG_ERROR_RESPONSE then decode_error_response payload
      else if msg_type = MSG_NOTICE_RESPONSE then Ok NoticeResponse
      else if msg_type = MSG_PARSE_COMPLETE then Ok ParseComplete
      else if msg_type = MSG_BIND_COMPLETE then Ok BindComplete
      else if msg_type = MSG_NO_DATA then Ok NoData
      else if msg_type = MSG_PARAM_DESCRIPTION then decode_parameter_description payload
      else Err (Protocol (ascii ''unexpected backend message type: 0x'' @ hex2 msg_type)))"

section \<open>Decoding inverts encoding\<close>

definition cstring_ok :: "bytes \<Rightarrow> bool" where
  "cstring_ok s \<longleftrightarrow> utf8_valid s \<and> 0 \<notin> set s"

lemma read_cstring_at:
  assumes "cstring_ok s" and "drop pos bs = write_cstring s @ rest"
  shows "read_cstring bs pos = Ok (s, pos + length s + 1)"
proof -
  have "position (\<lambda>b. b = 0) (drop pos bs) = Some (length s)"
    using assms position_append [of "\<lambda>b. b = 0" s 0 rest]
    by (auto simp: write_cstring_def cstring_ok_def list_all_iff)
  then show ?thesis
    using assms by (simp add: read_cstring_def write_cstring_def cstring_ok_def Let_def)
qed

lemma be_at_to_be:
  "drop pos bs = to_be 2 (w :: u16) @ rest \<Longrightarrow> be_at bs pos 2 = w"
  "drop pos bs = to_be 4 (v :: u32) @ rest' \<Longrightarrow> be_at bs pos 4 = v"
  by (simp_all add: be_at_def)

lemma sint_of_nat_u32: "n < 2 ^ 31 \<Longrightarrow> sint (of_nat n :: u32) = int n"
  by (simp add: sint_uint unsigned_of_nat take_bit_nat_eq_self signed_take_bit_int_eq_self)


lemma decode_field_at:
  assumes "drop pos bs = encode_field f @ rest" and "pos \<le> length bs" and "length bs < 2 ^ 63"
    and "\<And>d. f = Some d \<Longrightarrow> length d < 2 ^ 31"
  shows "decode_field bs pos = Ok (f, pos + length (encode_field f))"
proof -
  have len: "length bs = pos + length (encode_field f) + length rest"
    using arg_cong [OF assms(1), of length] assms(2) by simp
  show ?thesis
  proof (cases f)
    case None
    have "be_at bs pos 4 = (- 1 :: u32)"
      using assms(1) None by (intro be_at_to_be(2)) (simp add: encode_field_def)
    then show ?thesis
      using len None by (simp add: decode_field_def encode_field_def)
  next
    case (Some d)
    have w: "be_at bs pos 4 = (of_nat (length d) :: u32)"
      using assms(1) Some by (intro be_at_to_be(2)) (simp add: encode_field_def)
    have "drop (pos + 4) bs = drop 4 (drop pos bs)" by (simp add: add.commute)
    then have "take (length d) (drop (pos + 4) bs) = d"
      using assms(1) Some by (simp add: encode_field_def)
    then show ?thesis
      using len Some w assms(3,4) sint_of_nat_u32 [of "length d"]
      by (simp add: decode_field_def encode_field_def Let_def)
  qed
qed

lemma decode_fields_at:
  assumes "drop pos bs = concat (map encode_field fs) @ rest" and "pos \<le> length bs"
    and "length bs < 2 ^ 63" and "\<forall>d. Some d \<in> set fs \<longrightarrow> length d < 2 ^ 31"
  shows "decode_fields bs (length fs) pos = Ok fs"
  using assms
proof (induction fs arbitrary: pos)
  case (Cons f fs)
  let ?n = "length (encode_field f)"
  have f: "decode_field bs pos = Ok (f, pos + ?n)"
    using Cons.prems by (intro decode_field_at [where rest = "concat (map encode_field fs) @ rest"]) auto
  have le: "pos + ?n \<le> length bs"
    using arg_cong [OF Cons.prems(1), of length] Cons.prems(2) by simp
  have "drop (pos + ?n) bs = drop ?n (drop pos bs)" by (simp add: add.commute)
  then have "drop (pos + ?n) bs = concat (map encode_field fs) @ rest"
    using Cons.prems(1) by simp
  then have "decode_fields bs (length fs) (pos + ?n) = Ok fs"
    using Cons.prems(3,4) le by (intro Cons.IH) auto
  then show ?case using f by simp
qed simp

text \<open>
  What a server sends, by the message formats of the protocol. A column entry carries six
  bytes (table and attribute number) before the type and eight bytes (size, modifier and
  format) behind it; \<open>aux\<close> gives them.
\<close>

definition encode_column :: "(column_desc \<Rightarrow> bytes \<times> bytes) \<Rightarrow> column_desc \<Rightarrow> bytes" where
  "encode_column aux c = write_cstring (cd_name c) @ fst (aux c) @ to_be 4 (cd_type_oid c) @ snd (aux c)"

fun encode_backend :: "(column_desc \<Rightarrow> bytes \<times> bytes) \<Rightarrow> backend_message \<Rightarrow> byte \<times> bytes" where
  "encode_backend aux AuthOk = (MSG_AUTH, to_be 4 (0 :: u32))"
| "encode_backend aux (AuthMd5 salt) = (MSG_AUTH, to_be 4 (5 :: u32) @ salt)"
| "encode_backend aux (ParameterStatus name val) = (MSG_PARAM_STATUS, write_cstring name @ write_cstring val)"
| "encode_backend aux (ReadyForQuery status) = (MSG_READY_FOR_QUERY, [status])"
| "encode_backend aux (RowDescription cols) =
     (MSG_ROW_DESC, to_be 2 (of_nat (length cols) :: u16) @ concat (map (encode_column aux) cols))"
| "encode_backend aux (DataRow fs) =
     (MSG_DATA_ROW, to_be 2 (of_nat (length fs) :: u16) @ concat (map encode_field fs))"
| "encode_backend aux (CommandComplete tag) = (MSG_COMMAND_COMPLETE, write_cstring tag)"
| "encode_backend aux (ErrorResponse code message detail) =
     (MSG_ERROR_RESPONSE, 0x43 # write_cstring code @ 0x4D # write_cstring message
        @ (case detail of None \<Rightarrow> [] | Some d \<Rightarrow> 0x44 # write_cstring d) @ [0])"
| "encode_backend aux NoticeResponse = (MSG_NOTICE_RESPONSE, [0])"
| "encode_backend aux ParseComplete = (MSG_PARSE_COMPLETE, [])"
| "encode_backend aux BindComplete = (MSG_BIND_COMPLETE, [])"
| "encode_backend aux NoData = (MSG_NO_DATA, [])"
| "encode_backend aux (ParameterDescription oids) =
     (MSG_PARAM_DESCRIPTION, to_be 2 (of_nat (length oids) :: u16) @ concat (map (to_be 4) oids))"

definition wf_column :: "column_desc \<Rightarrow> bool" where
  "wf_column c \<longleftrightarrow> cstring_ok (cd_name c) \<and> cd_pg_type c = pg_type_from_oid (cd_type_oid c)"

fun wf_backend :: "backend_message \<Rightarrow> bool" where
  "wf_backend (AuthMd5 salt) \<longleftrightarrow> length salt = 4"
| "wf_backend (ParameterStatus name val) \<longleftrightarrow> cstring_ok name \<and> cstring_ok val"
| "wf_backend (RowDescription cols) \<longleftrightarrow> length cols < 2 ^ 16 \<and> list_all wf_column cols"
| "wf_backend (DataRow fs) \<longleftrightarrow> length fs < 2 ^ 16 \<and> length (concat (map encode_field fs)) < 2 ^ 31"
| "wf_backend (CommandComplete tag) \<longleftrightarrow> cstring_ok tag"
| "wf_backend (ErrorResponse code message detail) \<longleftrightarrow>
     cstring_ok code \<and> cstring_ok message \<and> (case detail of None \<Rightarrow> True | Some d \<Rightarrow> cstring_ok d)"
| "wf_backend (ParameterDescription oids) \<longleftrightarrow> length oids < 2 ^ 16"
| "wf_backend _ \<longleftrightarrow> True"

lemma drop_add_append:
  "drop pos bs = xs @ rest \<Longrightarrow> drop (pos + length xs) bs = rest"
  by (metis add.commute append_eq_conv_conj drop_drop)

lemma decode_columns_at:
  assumes "drop pos bs = concat (map (encode_column aux) cols) @ rest" and "pos \<le> length bs"
    and "list_all wf_column cols" and "\<And>c. length (fst (aux c)) = 6 \<and> length (snd (aux c)) = 8"
  shows "decode_columns bs (length cols) pos = Ok cols"
  using assms(1-3)
proof (induction cols arbitrary: pos)
  case (Cons c cols)
  let ?rest = "concat (map (encode_column aux) cols) @ rest"
  let ?pos = "pos + length (cd_name c) + 1"
  have d0: "drop pos bs = write_cstring (cd_name c) @ fst (aux c) @ to_be 4 (cd_type_oid c) @ snd (aux c) @ ?rest"
    using Cons.prems(1) by (simp add: encode_column_def [of aux c])
  have name: "read_cstring bs pos = Ok (cd_name c, ?pos)"
    using d0 Cons.prems(3) by (intro read_cstring_at) (auto simp: wf_column_def)
  have d1: "drop ?pos bs = fst (aux c) @ to_be 4 (cd_type_oid c) @ snd (aux c) @ ?rest"
    using drop_add_append [OF d0] by (simp add: write_cstring_def)
  have d2: "drop (?pos + 6) bs = to_be 4 (cd_type_oid c) @ snd (aux c) @ ?rest"
    using drop_add_append [OF d1] assms(4) by simp
  have d3: "drop (?pos + 18) bs = ?rest"
    using drop_add_append [of "?pos + 6" bs "to_be 4 (cd_type_oid c) @ snd (aux c)" ?rest] d2 assms(4)
    by simp
  have len: "?pos + 18 \<le> length bs"
    using arg_cong [OF d0, of length] Cons.prems(2) assms(4) by (simp add: write_cstring_def)
  have "decode_columns bs (length cols) (?pos + 18) = Ok cols"
    using d3 len Cons.prems(3) by (intro Cons.IH) auto
  then show ?case
    using name len be_at_to_be(2) [OF d2] Cons.prems(3) by (simp add: wf_column_def Let_def)
qed simp

lemma decode_oids_at:
  assumes "drop pos bs = concat (map (to_be 4) oids) @ rest"
  shows "map (\<lambda>i. be_at bs (pos + i * 4) 4) [0..<length oids] = (oids :: u32 list)"
  using assms
proof (induction oids arbitrary: pos)
  case (Cons v oids)
  have v: "be_at bs pos 4 = v"
    using Cons.prems by (intro be_at_to_be(2)) auto
  have "drop (pos + 4) bs = concat (map (to_be 4) oids) @ rest"
    using drop_add_append [of pos bs "to_be 4 v"] Cons.prems by simp
  from Cons.IH [OF this] v show ?case
    by (simp add: upt_conv_Cons map_Suc_upt [symmetric] comp_def ac_simps del: upt_Suc)
qed simp

lemma decode_error_step:
  assumes "drop pos bs = ty # write_cstring v @ rest" and "ty \<noteq> 0" and "cstring_ok v"
  shows "decode_error_fields bs pos code message detail =
    decode_error_fields bs (pos + length v + 2)
      (if ty = 0x43 then v else code) (if ty = 0x4D then v else message)
      (if ty = 0x44 then Some v else detail)"
proof -
  have pos: "pos < length bs" "bs ! pos = ty"
    using assms(1) by (auto simp: nth_via_drop intro: ccontr)
  have "drop (pos + 1) bs = write_cstring v @ rest"
    using drop_add_append [of pos bs "[ty]"] assms(1) by simp
  then have "read_cstring bs (pos + 1) = Ok (v, pos + length v + 2)"
    using read_cstring_at [OF assms(3)] by simp
  then show ?thesis
    using pos assms(2) by (subst decode_error_fields.simps) simp
qed

lemma decode_error_end:
  "drop pos bs = 0 # rest \<Longrightarrow> decode_error_fields bs pos code message detail = Ok (ErrorResponse code message detail)"
  by (subst decode_error_fields.simps) (auto simp: nth_via_drop)

lemma decode_error_at:
  assumes "cstring_ok code" and "cstring_ok message" and "case detail of None \<Rightarrow> True | Some d \<Rightarrow> cstring_ok d"
    and "bs = 0x43 # write_cstring code @ 0x4D # write_cstring message
        @ (case detail of None \<Rightarrow> [] | Some d \<Rightarrow> 0x44 # write_cstring d) @ [0]"
  shows "decode_error_response bs = Ok (ErrorResponse code message detail)"
proof -
  let ?p1 = "0 + length code + 2" and ?p2 = "0 + length code + 2 + length message + 2"
  let ?rest = "(case detail of None \<Rightarrow> [] | Some d \<Rightarrow> 0x44 # write_cstring d) @ [0]"
  have d0: "drop 0 bs = 0x43 # write_cstring code @ 0x4D # write_cstring message @ ?rest"
    using assms(4) by simp
  have d1: "drop ?p1 bs = 0x4D # write_cstring message @ ?rest"
    using drop_add_append [of 0 bs "0x43 # write_cstring code"] d0 by (simp add: write_cstring_def)
  have d2: "drop ?p2 bs = ?rest"
    using drop_add_append [of ?p1 bs "0x4D # write_cstring message"] d1 by (simp add: write_cstring_def)
  have "decode_error_response bs = decode_error_fields bs ?p2 code message None"
    using decode_error_step [OF d0 _ assms(1), of "[]" "[]" None] decode_error_step [OF d1 _ assms(2), of code "[]" None]
    by (simp add: decode_error_response_def)
  also have "\<dots> = Ok (ErrorResponse code message detail)"
  proof (cases detail)
    case None
    then show ?thesis using decode_error_end [of ?p2 bs "[]"] d2 by simp
  next
    case (Some d)
    have d2': "drop ?p2 bs = 0x44 # write_cstring d @ [0]" using d2 Some by simp
    have "drop (?p2 + length d + 2) bs = 0 # []"
      using drop_add_append [of ?p2 bs "0x44 # write_cstring d"] d2' by (simp add: write_cstring_def)
    from decode_error_end [OF this] decode_error_step [OF d2'] assms(3) Some show ?thesis by simp
  qed
  finally show ?thesis .
qed

lemma backend_roundtrip_at:
  assumes "wf_backend m" and "\<And>c. length (fst (aux c)) = 6 \<and> length (snd (aux c)) = 8"
  shows "(case encode_backend aux m of (ty, payload) \<Rightarrow> decode_backend ty payload) = Ok m"
proof (cases m)
  case (ParameterStatus name val)
  let ?bs = "write_cstring name @ write_cstring val"
  have ok: "cstring_ok name" "cstring_ok val" using assms(1) ParameterStatus by auto
  have "drop (length name + 1) ?bs = write_cstring val @ []" by (simp add: write_cstring_def)
  then show ?thesis
    using ParameterStatus read_cstring_at [OF ok(1), of 0 ?bs] read_cstring_at [OF ok(2), of "length name + 1" ?bs "[]"]
    by (simp add: decode_backend_def backend_msg_defs decode_param_status_def)
next
  case (RowDescription cols)
  let ?bs = "to_be 2 (of_nat (length cols) :: u16) @ concat (map (encode_column aux) cols)"
  have "decode_columns ?bs (length cols) 2 = Ok cols"
    using assms RowDescription by (intro decode_columns_at [where rest = "[]" and aux = aux]) auto
  moreover have "be_at ?bs 0 2 = (of_nat (length cols) :: u16)" by (rule be_at_to_be) simp
  ultimately show ?thesis
    using assms(1) RowDescription
    by (simp add: decode_backend_def backend_msg_defs decode_row_description_def unsigned_of_nat take_bit_nat_eq_self)
next
  case (DataRow fs)
  let ?bs = "to_be 2 (of_nat (length fs) :: u16) @ concat (map encode_field fs)"
  have "length d < 2 ^ 31" if "Some d \<in> set fs" for d
  proof -
    have "length d \<le> length (encode_field (Some d))" by (simp add: encode_field_def)
    also have "\<dots> \<le> length (concat (map encode_field fs))"
      using that by (simp add: length_concat comp_def member_le_sum_list)
    finally show ?thesis using assms(1) DataRow by simp
  qed
  then have "decode_fields ?bs (length fs) 2 = Ok fs"
    using assms(1) DataRow by (intro decode_fields_at [where rest = "[]"]) auto
  moreover have "be_at ?bs 0 2 = (of_nat (length fs) :: u16)" by (rule be_at_to_be) simp
  ultimately show ?thesis
    using assms(1) DataRow
    by (simp add: decode_backend_def backend_msg_defs decode_data_row_def unsigned_of_nat take_bit_nat_eq_self)
next
  case (ErrorResponse code message detail)
  then show ?thesis
    using assms(1) decode_error_at [of code message detail]
    by (simp add: decode_backend_def backend_msg_defs)
next
  case (CommandComplete tag)
  then show ?thesis
    using assms(1) read_cstring_at [of tag 0 "write_cstring tag" "[]"]
    by (simp add: decode_backend_def backend_msg_defs decode_command_complete_def)
next
  case (ParameterDescription oids)
  let ?bs = "to_be 2 (of_nat (length oids) :: u16) @ concat (map (to_be 4) oids)"
  have "map (\<lambda>i. be_at ?bs (2 + i * 4) 4) [0..<length oids] = oids"
    by (rule decode_oids_at [where rest = "[]"]) simp
  moreover have "be_at ?bs 0 2 = (of_nat (length oids) :: u16)" by (rule be_at_to_be) simp
  ultimately show ?thesis
    using assms(1) ParameterDescription
    by (simp add: decode_backend_def backend_msg_defs decode_parameter_description_def unsigned_of_nat
        take_bit_nat_eq_self length_concat comp_def sum_list_triv)
qed (use assms in \<open>simp_all add: decode_backend_def backend_msg_defs decode_auth_def decode_ready_for_query_def
      be_at_def from_be_def to_be_bytes\<close>)

text \<open>
  The decoder understands what a server sends. For every message of the protocol that fits
  its length fields, decoding the bytes a server sends for it gives that very message:
  strings, columns with their type, rows with NULL fields and data, error fields and
  parameter types. Whatever the table, size and format bytes of a column entry are, they
  do not disturb the decoding.
\<close>

theorem backend_roundtrip:
  assumes "wf_backend m" and "\<And>c. length (fst (aux c)) = 6 \<and> length (snd (aux c)) = 8"
  shows "(case encode_backend aux m of (ty, payload) \<Rightarrow> decode_backend ty payload) = Ok m"
  using assms by (rule backend_roundtrip_at)

theorem backend_roundtrip_witness:
  "decode_backend 0x44 [0, 2, 0, 0, 0, 2, 52, 50, 255, 255, 255, 255] = Ok (DataRow [Some [52, 50], None])
   \<and> decode_backend 0x54 [0, 1, 105, 100, 0, 9, 9, 9, 9, 9, 9, 0, 0, 0, 23, 7, 7, 7, 7, 7, 7, 7, 7]
     = Ok (RowDescription [\<lparr>cd_name = [105, 100], cd_type_oid = 23, cd_pg_type = PgInt4\<rparr>])"
proof -
  let ?aux = "\<lambda>_ :: column_desc. (replicate 6 9 :: bytes, replicate 8 7 :: bytes)"
  let ?row = "DataRow [Some [52, 50], None]"
  let ?cols = "RowDescription [\<lparr>cd_name = [105, 100], cd_type_oid = 23, cd_pg_type = PgInt4\<rparr>]"
  have rep: "replicate 6 (9 :: byte) = [9, 9, 9, 9, 9, 9]" "replicate 8 (7 :: byte) = [7, 7, 7, 7, 7, 7, 7, 7]"
    by (simp_all add: numeral_eq_Suc)
  have "to_be 4 (- 1 :: u32) = [255, 255, 255, 255]" by code_simp
  then have "encode_backend ?aux ?row = (0x44, [0, 2, 0, 0, 0, 2, 52, 50, 255, 255, 255, 255])"
    by (simp add: encode_field_def to_be_bytes(2) [of "2 :: u32"] to_be_bytes(1) backend_msg_defs)
  moreover have "wf_backend ?row" by (simp add: encode_field_def)
  moreover have "encode_backend ?aux ?cols
      = (0x54, [0, 1, 105, 100, 0, 9, 9, 9, 9, 9, 9, 0, 0, 0, 23, 7, 7, 7, 7, 7, 7, 7, 7])"
    by (simp add: encode_column_def write_cstring_def to_be_bytes backend_msg_defs rep)
  moreover have "wf_backend ?cols"
    by (simp add: wf_column_def cstring_ok_def utf8_valid_ascii pg_type_from_oid_def oid_defs)
  ultimately show ?thesis
    using backend_roundtrip [of ?row ?aux] backend_roundtrip [of ?cols ?aux] by simp
qed

text \<open>
  A negative field length other than the \<open>-1\<close> of NULL brings the client down instead of
  giving a protocol error: a row whose first field announces \<open>-2\<close> bytes panics.
\<close>

theorem negative_field_length_panics:
  "decode_backend MSG_DATA_ROW (to_be 2 (1 :: u16) @ to_be 4 (- 2 :: u32)) = Panic"
proof -
  let ?bs = "to_be 2 (1 :: u16) @ to_be 4 (- 2 :: u32)"
  have "be_at ?bs 0 2 = (1 :: u16)" "be_at ?bs 2 4 = (- 2 :: u32)"
    by (rule be_at_to_be, simp)+
  then have "decode_field ?bs 2 = Panic" and "unat (be_at ?bs 0 2 :: u16) = Suc 0"
    by (simp_all add: decode_field_def Let_def)
  then show ?thesis
    by (simp add: decode_backend_def backend_msg_defs decode_data_row_def del: to_be.simps)
qed

section \<open>Framing over the transport\<close>

lemma pg_read_loop_of_read_loop:
  "read_loop t n acc = (Ok bs, t') \<Longrightarrow> pg_read_loop t n acc = (Ok bs, t')"
proof (induction t n acc rule: read_loop.induct)
  case (1 t n acc)
  then show ?case
    by (subst pg_read_loop.simps, subst (asm) (2) read_loop.simps)
      (auto split: prod.splits outcome.splits if_splits)
qed

lemma pg_read_exact_stream:
  assumes "stream_bytes (rx t) = bs @ rest"
  shows "\<exists>t'. pg_read_exact t (length bs) = (Ok bs, t') \<and> stream_bytes (rx t') = rest \<and> wr t' = wr t \<and> tx t' = tx t"
  using read_loop_stream [of "[]" "length bs" t] assms pg_read_loop_of_read_loop
  by (fastforce simp: pg_read_exact_def)

lemma read_backend_message_stream:
  assumes "stream_bytes (rx t) = frontend_frame ty payload @ rest" and "length payload + 4 < 2 ^ 31"
  shows "\<exists>t'. read_backend_message t = (Ok (ty, payload), t') \<and> stream_bytes (rx t') = rest \<and> wr t' = wr t \<and> tx t' = tx t"
proof -
  let ?hdr = "ty # to_be 4 (of_nat (4 + length payload) :: u32)"
  obtain t1 where t1: "pg_read_exact t 5 = (Ok ?hdr, t1)" "stream_bytes (rx t1) = payload @ rest" "wr t1 = wr t" "tx t1 = tx t"
    using pg_read_exact_stream [of t ?hdr "payload @ rest"] assms(1) by (auto simp: frontend_frame_def)
  have len: "sint (from_be (drop 1 ?hdr) :: u32) = 4 + int (length payload)"
    using sint_of_nat_u32 [of "4 + length payload"] assms(2) by simp
  obtain t2 where t2: "pg_read_exact t1 (length payload) = (Ok payload, t2)" "stream_bytes (rx t2) = rest"
      "wr t2 = wr t1" "tx t2 = tx t1"
    using pg_read_exact_stream [OF t1(2)] by blast
  show ?thesis
  proof (cases "payload = []")
    case True
    then show ?thesis using t1 len by (simp add: read_backend_message_def Let_def)
  next
    case False
    then show ?thesis using t1 t2 len by (simp add: read_backend_message_def Let_def)
  qed
qed

lemma pg_write_all_accepting:
  "h1_accepting t \<Longrightarrow> \<exists>t'. pg_write_all t buf = (Ok (), t') \<and> tx t' = tx t @ buf \<and> rx t' = rx t \<and> h1_accepting t'"
  unfolding pg_write_all_def by (rule write_loop_accepting)

lemma pg_write_all_rx: "pg_write_all t buf = (r, t') \<Longrightarrow> rx t' = rx t"
  using write_loop_rx [of Io _ t buf] by (metis pg_write_all_def snd_conv)

end
