(* ===== verification/Text.thy ===== *)
theory Text
  imports Http_Types
begin

text \<open>
  String operations of the standard library that several components use. A string is its bytes in
  UTF-8: splitting at a byte, prefixes and suffixes, \<^verbatim>\<open>str::trim\<close>, \<^verbatim>\<open>str::lines\<close> and
  \<^verbatim>\<open>String::from_utf8_lossy\<close>.
\<close>

section \<open>Splitting\<close>

text \<open>\<^verbatim>\<open>split(c)\<close>: the pieces between the separators, at least one.\<close>

fun split_on :: "byte \<Rightarrow> bytes \<Rightarrow> bytes list" where
  "split_on c [] = [[]]"
| "split_on c (b # bs) =
     (if b = c then [] # split_on c bs
      else case split_on c bs of x # xs \<Rightarrow> (b # x) # xs | [] \<Rightarrow> [[b]])"

lemma split_on_last: "c \<notin> set x \<Longrightarrow> split_on c x = [x]"
  by (induction x) auto

lemma split_on_first: "c \<notin> set x \<Longrightarrow> split_on c (x @ c # rest) = x # split_on c rest"
  by (induction x) auto

lemma split_on_nonempty [simp]: "split_on c s \<noteq> []"
  by (induction s) (auto split: list.splits)

text \<open>Joining with a separator, and splitting the result again.\<close>

fun join_with :: "bytes \<Rightarrow> bytes list \<Rightarrow> bytes" where
  "join_with sep [] = []"
| "join_with sep [x] = x"
| "join_with sep (x # y # xs) = x @ sep @ join_with sep (y # xs)"

lemma split_on_join:
  assumes "xs \<noteq> []" and "list_all (\<lambda>x. c \<notin> set x) xs"
  shows "split_on c (join_with [c] xs) = xs"
  using assms by (induction xs rule: induct_list012) (auto simp: split_on_last split_on_first)

text \<open>\<^verbatim>\<open>splitn(2, c)\<close>: the part in front of the first separator, and the rest when there is one.\<close>

definition split_two :: "byte \<Rightarrow> bytes \<Rightarrow> bytes \<times> bytes option" where
  "split_two c s = (takeWhile (\<lambda>b. b \<noteq> c) s, if c \<in> set s then Some (tl (dropWhile (\<lambda>b. b \<noteq> c) s)) else None)"

lemma split_two_at: "c \<notin> set x \<Longrightarrow> split_two c (x @ c # rest) = (x, Some rest)"
  by (auto simp: split_two_def takeWhile_append dropWhile_append)

definition strip_prefix :: "bytes \<Rightarrow> bytes \<Rightarrow> bytes option" where
  "strip_prefix pre s = (if take (length pre) s = pre then Some (drop (length pre) s) else None)"

definition strip_suffix :: "bytes \<Rightarrow> bytes \<Rightarrow> bytes option" where
  "strip_suffix suf s = map_option rev (strip_prefix (rev suf) (rev s))"

lemma strip_prefix_append [simp]: "strip_prefix pre (pre @ s) = Some s"
  by (simp add: strip_prefix_def)

lemma strip_suffix_append [simp]: "strip_suffix suf (s @ suf) = Some s"
  using strip_prefix_append [of "rev suf" "rev s"] by (simp add: strip_suffix_def)

text \<open>\<^verbatim>\<open>trim_matches(c)\<close> for one byte.\<close>

definition trim_matches :: "byte \<Rightarrow> bytes \<Rightarrow> bytes" where
  "trim_matches c s = rev (dropWhile (\<lambda>b. b = c) (rev (dropWhile (\<lambda>b. b = c) s)))"

lemma trim_matches_quoted:
  assumes "c \<notin> set s"
  shows "trim_matches c (c # s @ [c]) = s"
proof (cases "s = []")
  case False
  then have "hd s \<noteq> c" "last s \<noteq> c" using assms by (metis hd_in_set, metis last_in_set)
  moreover obtain x xs where "s = x # xs" using False by (cases s) auto
  moreover obtain y ys where "rev s = y # ys" "y = last s" using False by (cases s rule: rev_cases) auto
  ultimately show ?thesis by (auto simp: trim_matches_def) (metis rev_rev_ident rev.simps(2))
qed (simp add: trim_matches_def)

text \<open>\<^verbatim>\<open>str::lines\<close>: a carriage return is removed in front of a line feed only.\<close>

definition str_lines :: "bytes \<Rightarrow> bytes list" where
  "str_lines s =
     (let parts = split_on 10 s; final = last parts
      in map (\<lambda>l. case strip_suffix [13] l of Some l' \<Rightarrow> l' | None \<Rightarrow> l) (butlast parts)
         @ (if final = [] then [] else [final]))"

section \<open>Characters\<close>

text \<open>The number of bytes of a code point.\<close>

definition utf8_width :: "nat \<Rightarrow> nat" where
  "utf8_width c = (if c < 0x80 then 1 else if c < 0x800 then 2 else if c < 0x10000 then 3 else 4)"

text \<open>\<^verbatim>\<open>str::trim\<close> on the bytes: what the white space at both ends occupies is cut off.\<close>

definition str_trim :: "bytes \<Rightarrow> bytes" where
  "str_trim s =
     (case utf8_decode s of
        None \<Rightarrow> s
      | Some cs \<Rightarrow>
          (let lead = sum_list (map utf8_width (takeWhile is_whitespace cs));
               trail = sum_list (map utf8_width (takeWhile is_whitespace (rev cs)))
           in take (length s - lead - trail) (drop lead s)))"

lemma append_Cons_fun: "(@) (x # xs) = (\<lambda>ys. x # xs @ ys)"
  by (rule ext) simp

lemma utf8_decode_append:
  "utf8_decode s = Some cs \<Longrightarrow> utf8_decode (s @ t) = map_option ((@) cs) (utf8_decode t)"
proof (induction s arbitrary: cs rule: utf8_decode.induct)
  case 1
  then show ?case by (cases "utf8_decode t") auto
next
  case (2 a bs)
  show ?case
    using "2.prems" "2.IH"
    by (auto simp: Let_def option.map_comp comp_def append_Cons_fun split: if_splits list.splits)
qed

lemma utf8_valid_append: "utf8_valid s \<Longrightarrow> utf8_valid t \<Longrightarrow> utf8_valid (s @ t)"
  by (auto simp: utf8_valid_def utf8_decode_append)

text \<open>A string between two ASCII characters that are no white space loses only ASCII blanks.\<close>

lemma str_trim_ends:
  assumes s: "s = x # mid @ [y]" "utf8_valid mid"
    and x: "unat x < 128" "\<not> is_whitespace (unat x)" and y: "unat y < 128" "\<not> is_whitespace (unat y)"
  shows "str_trim s = s" and "str_trim (32 # s) = s"
proof -
  obtain cs where cs: "utf8_decode mid = Some cs" using s(2) by (auto simp: utf8_valid_def)
  have d: "utf8_decode s = Some (unat x # cs @ [unat y])"
    using x(1) y(1) utf8_decode_append [OF cs, of "[y]"] by (simp add: s(1))
  show "str_trim s = s" using x(2) y(2) by (simp add: str_trim_def d)
  have "utf8_decode (32 # s) = Some (32 # unat x # cs @ [unat y])" using d by simp
  moreover have "is_whitespace 32" by (simp add: is_whitespace_def)
  ultimately show "str_trim (32 # s) = s" using x(2) y(2) by (simp add: str_trim_def utf8_width_def)
qed

text \<open>
  \<^verbatim>\<open>String::from_utf8_lossy\<close>: every maximal prefix of a character that is not continued, and every
  byte that begins none, becomes one replacement character.
\<close>

definition REPLACEMENT :: bytes where
  "REPLACEMENT = [0xEF, 0xBF, 0xBD]"

fun utf8_lossy :: "bytes \<Rightarrow> bytes" where
  "utf8_lossy [] = []"
| "utf8_lossy (a # bs) =
     (let x = unat a in
      if x < 128 then a # utf8_lossy bs
      else if 0xC2 \<le> x \<and> x < 0xE0 then
        (case bs of
           [] \<Rightarrow> REPLACEMENT
         | b # cs \<Rightarrow> if utf8_cont b then a # b # utf8_lossy cs else REPLACEMENT @ utf8_lossy bs)
      else if 0xE0 \<le> x \<and> x < 0xF0 then
        (case bs of
           [] \<Rightarrow> REPLACEMENT
         | b # cs \<Rightarrow>
             if \<not> utf8_second3 a b then REPLACEMENT @ utf8_lossy bs
             else (case cs of
                     [] \<Rightarrow> REPLACEMENT
                   | c # ds \<Rightarrow> if utf8_cont c then a # b # c # utf8_lossy ds else REPLACEMENT @ utf8_lossy cs))
      else if 0xF0 \<le> x \<and> x < 0xF5 then
        (case bs of
           [] \<Rightarrow> REPLACEMENT
         | b # cs \<Rightarrow>
             if \<not> utf8_second4 a b then REPLACEMENT @ utf8_lossy bs
             else (case cs of
                     [] \<Rightarrow> REPLACEMENT
                   | c # ds \<Rightarrow>
                       if \<not> utf8_cont c then REPLACEMENT @ utf8_lossy cs
                       else (case ds of
                               [] \<Rightarrow> REPLACEMENT
                             | d # es \<Rightarrow>
                                 if utf8_cont d then a # b # c # d # utf8_lossy es
                                 else REPLACEMENT @ utf8_lossy ds)))
      else REPLACEMENT @ utf8_lossy bs)"

lemma utf8_lossy_valid: "utf8_valid s \<Longrightarrow> utf8_lossy s = s"
proof (induction s rule: utf8_decode.induct)
  case (2 a bs)
  consider "unat a < 128" | "0xC2 \<le> unat a \<and> unat a < 0xE0" | "0xE0 \<le> unat a \<and> unat a < 0xF0"
    | "0xF0 \<le> unat a \<and> unat a < 0xF5"
    using "2.prems" by (force simp: utf8_valid_def Let_def split: if_splits)
  then show ?case
  proof cases
    case 1
    then show ?thesis using 2 by (simp add: utf8_valid_def)
  next
    case 2
    then obtain b cs where "bs = b # cs" "utf8_cont b" "utf8_valid cs"
      using "2.prems" by (auto simp: utf8_valid_def Let_def split: if_splits list.splits)
    then show ?thesis using 2 "2.IH"(2) [of "unat a" b cs] by simp
  next
    case 3
    then obtain b c ds where "bs = b # c # ds" "utf8_second3 a b" "utf8_cont c" "utf8_valid ds"
      using "2.prems" by (auto simp: utf8_valid_def Let_def split: if_splits list.splits)
    then show ?thesis using 3 "2.IH"(3) [of "unat a" b "c # ds" c ds] by simp
  next
    case 4
    then obtain b c d es where "bs = b # c # d # es" "utf8_second4 a b" "utf8_cont c" "utf8_cont d" "utf8_valid es"
      using "2.prems" by (auto simp: utf8_valid_def Let_def split: if_splits list.splits)
    then show ?thesis using 4 "2.IH"(4) [of "unat a" b "c # d # es" c "d # es" d es] by simp
  qed
qed simp

section \<open>Numbers\<close>

text \<open>Signed integers as text: an optional sign and digits within the range of the type.\<close>

definition parse_int :: "nat \<Rightarrow> nat list \<Rightarrow> int option" where
  "parse_int bits cs =
     (case cs of
        [] \<Rightarrow> None
      | c # rest \<Rightarrow>
          if c = 45 then
            (if rest = [] then None else map_option (\<lambda>n. - int n) (parse_digits 10 (2 ^ (bits - 1) + 1) rest 0))
          else if c = 43 then
            (if rest = [] then None else map_option int (parse_digits 10 (2 ^ (bits - 1)) rest 0))
          else map_option int (parse_digits 10 (2 ^ (bits - 1)) cs 0))"

end
