(* ===== verification/Pg_Scram.thy ===== *)
theory Pg_Scram
  imports Pg_Wire Text
begin

text \<open>
  Authentication to a PostgreSQL server (\<^verbatim>\<open>moduvex-db/src/protocol/postgres/auth\<close>): the MD5
  response and the SCRAM-SHA-256 client. The hash functions and base64 come from other crates
  and are an argument of the definitions; \<open>crypto_ok\<close> states what is used of them. The nonce,
  drawn from the random device, is an argument too.

  What is shown: against a server that follows RFC 5802 and knows the verifier of the same
  password, the exchange succeeds on both sides.
\<close>

section \<open>The client\<close>

record crypto =
  md5 :: "bytes \<Rightarrow> bytes"
  sha256 :: "bytes \<Rightarrow> bytes"
  hmac_sha256 :: "bytes \<Rightarrow> bytes \<Rightarrow> bytes"
  b64_encode :: "bytes \<Rightarrow> bytes"
  b64_decode :: "bytes \<Rightarrow> bytes option"

definition hex_lower :: "nat \<Rightarrow> byte" where
  "hex_lower d = (if d < 10 then of_nat (48 + d) else of_nat (87 + d))"

definition hex_digest :: "bytes \<Rightarrow> bytes" where
  "hex_digest bs = concat (map (\<lambda>b. [hex_lower (unat b div 16), hex_lower (unat b mod 16)]) bs)"

definition md5_password :: "crypto \<Rightarrow> bytes \<Rightarrow> bytes \<Rightarrow> bytes \<Rightarrow> bytes" where
  "md5_password c user password salt =
     (let inner = hex_digest (md5 c (password @ user));
          outer = hex_digest (md5 c (inner @ salt))
      in ascii ''md5'' @ outer)"

text \<open>\<^verbatim>\<open>for (r, &u) in a.iter_mut().zip(b)\<close> with \<^verbatim>\<open>*r ^= u\<close>.\<close>

definition xor_bytes :: "bytes \<Rightarrow> bytes \<Rightarrow> bytes" where
  "xor_bytes a b = map2 (XOR) a b @ drop (length b) a"

primrec pbkdf2_loop :: "crypto \<Rightarrow> bytes \<Rightarrow> nat \<Rightarrow> bytes \<Rightarrow> bytes \<Rightarrow> bytes" where
  "pbkdf2_loop c password 0 u result = result"
| "pbkdf2_loop c password (Suc k) u result =
     (let u' = hmac_sha256 c password u in pbkdf2_loop c password k u' (xor_bytes result u'))"

definition pbkdf2_hmac_sha256 :: "crypto \<Rightarrow> bytes \<Rightarrow> bytes \<Rightarrow> nat \<Rightarrow> bytes" where
  "pbkdf2_hmac_sha256 c password salt iterations =
     (let u = hmac_sha256 c password (salt @ to_be 4 (1 :: u32))
      in pbkdf2_loop c password (iterations - 1) u u)"

record scram_client =
  username :: bytes
  scram_password :: bytes
  client_nonce :: bytes

definition client_first_bare :: "scram_client \<Rightarrow> bytes" where
  "client_first_bare s = ascii ''n='' @ username s @ ascii '',r='' @ client_nonce s"

definition client_first_message :: "scram_client \<Rightarrow> bytes" where
  "client_first_message s = ascii ''n,,'' @ client_first_bare s"

primrec strip_first :: "bytes \<Rightarrow> bytes list \<Rightarrow> bytes option" where
  "strip_first pre [] = None"
| "strip_first pre (part # parts) =
     (if take (length pre) part = pre then Some (drop (length pre) part) else strip_first pre parts)"

definition extract_attr :: "bytes \<Rightarrow> char \<Rightarrow> bytes option" where
  "extract_attr msg key = strip_first (ascii [key, CHR ''='']) (split_on 44 msg)"

definition process_server_first :: "crypto \<Rightarrow> scram_client \<Rightarrow> bytes \<Rightarrow> (bytes \<times> bytes) db_result" where
  "process_server_first c s server_first =
     (case extract_attr server_first (CHR ''r'') of
        None \<Rightarrow> Err (protocol_error (''SCRAM: missing '' @ [CHR 39] @ ''r'' @ [CHR 39] @ '' in server-first''))
      | Some combined_nonce \<Rightarrow>
     (case extract_attr server_first (CHR ''s'') of
        None \<Rightarrow> Err (protocol_error (''SCRAM: missing '' @ [CHR 39] @ ''s'' @ [CHR 39] @ '' in server-first''))
      | Some salt_b64 \<Rightarrow>
     (case extract_attr server_first (CHR ''i'') of
        None \<Rightarrow> Err (protocol_error (''SCRAM: missing '' @ [CHR 39] @ ''i'' @ [CHR 39] @ '' in server-first''))
      | Some iter_str \<Rightarrow>
          if take (length (client_nonce s)) combined_nonce \<noteq> client_nonce s
          then Err (AuthFailed (ascii ''SCRAM: server nonce does not contain client nonce''))
          else
     (case b64_decode c salt_b64 of
        None \<Rightarrow> Err (protocol_error ''SCRAM: invalid base64 salt'')
      | Some salt \<Rightarrow>
     (case Option.bind (utf8_decode iter_str) (parse_uint 10 (2 ^ 32)) of
        None \<Rightarrow> Err (protocol_error ''SCRAM: invalid iteration count'')
      | Some iterations \<Rightarrow>
          if iterations = 0 then Err (protocol_error ''SCRAM: iteration count must be > 0'')
          else
            (let salted_password = pbkdf2_hmac_sha256 c (scram_password s) salt iterations;
                 client_key = hmac_sha256 c salted_password (ascii ''Client Key'');
                 stored_key = sha256 c client_key;
                 server_key = hmac_sha256 c salted_password (ascii ''Server Key'');
                 channel_binding = b64_encode c (ascii ''n,,'');
                 client_final_no_proof = ascii ''c='' @ channel_binding @ ascii '',r='' @ combined_nonce;
                 auth_message = client_first_bare s @ ascii '','' @ server_first @ ascii '','' @ client_final_no_proof;
                 client_signature = hmac_sha256 c stored_key auth_message;
                 client_proof = xor_bytes client_key client_signature;
                 server_signature = hmac_sha256 c server_key auth_message;
                 client_final = client_final_no_proof @ ascii '',p='' @ b64_encode c client_proof
             in Ok (client_final, server_signature)))))))"

definition verify_server_final :: "crypto \<Rightarrow> bytes \<Rightarrow> bytes \<Rightarrow> unit db_result" where
  "verify_server_final c server_final expected =
     (case extract_attr server_final (CHR ''v'') of
        None \<Rightarrow> Err (protocol_error (''SCRAM: missing '' @ [CHR 39] @ ''v'' @ [CHR 39] @ '' in server-final''))
      | Some v \<Rightarrow>
          (case b64_decode c v of
             None \<Rightarrow> Err (protocol_error ''SCRAM: invalid base64 server signature'')
           | Some server_sig \<Rightarrow>
               if server_sig \<noteq> expected
               then Err (AuthFailed (ascii ''SCRAM: server signature verification failed (mutual auth)''))
               else Ok ()))"

section \<open>SASL messages\<close>

definition AUTH_SASL :: int where "AUTH_SASL = 10"
definition AUTH_SASL_CONTINUE :: int where "AUTH_SASL_CONTINUE = 11"
definition AUTH_SASL_FINAL :: int where "AUTH_SASL_FINAL = 12"

lemmas sasl_defs = AUTH_SASL_def AUTH_SASL_CONTINUE_def AUTH_SASL_FINAL_def

text \<open>The loop over the NUL-terminated mechanism names behind the sub-type.\<close>

function mechanism_names :: "bytes \<Rightarrow> bytes list db_result" where
  "mechanism_names bs =
     (let name = takeWhile (\<lambda>b. b \<noteq> 0) bs
      in if name = [] then Ok []
         else if \<not> utf8_valid name then Err (protocol_error ''non-UTF-8 SASL mechanism name'')
         else case mechanism_names (drop (length name + 1) bs) of
                Ok names \<Rightarrow> Ok (name # names)
              | Err e \<Rightarrow> Err e
              | Panic \<Rightarrow> Panic)"
  by pat_completeness auto
termination
proof (relation "measure length", goal_cases)
  case (2 bs name)
  then show ?case by (cases bs) auto
qed simp

declare mechanism_names.simps [simp del]

definition decode_sasl_mechanisms :: "bytes \<Rightarrow> bytes list db_result" where
  "decode_sasl_mechanisms payload =
     (if length payload < 4 then Err (protocol_error ''AuthSASL payload too short'')
      else mechanism_names (drop 4 payload))"

definition decode_sasl_text :: "string \<Rightarrow> bytes \<Rightarrow> bytes db_result" where
  "decode_sasl_text what payload =
     (if length payload < 4 then Err (protocol_error (''Auth'' @ what @ '' payload too short''))
      else if utf8_valid (drop 4 payload) then Ok (drop 4 payload)
      else Err (protocol_error (''non-UTF-8 '' @ what @ '' data'')))"

definition decode_sasl_continue :: "bytes \<Rightarrow> bytes db_result" where
  "decode_sasl_continue payload = decode_sasl_text ''SASLContinue'' payload"

definition decode_sasl_final :: "bytes \<Rightarrow> bytes db_result" where
  "decode_sasl_final payload = decode_sasl_text ''SASLFinal'' payload"

definition encode_sasl_initial_response :: "bytes \<Rightarrow> bytes \<Rightarrow> bytes" where
  "encode_sasl_initial_response mechanism client_first =
     mechanism @ [0] @ to_be 4 (of_nat (length client_first) :: u32) @ client_first"

definition encode_sasl_response :: "bytes \<Rightarrow> bytes" where
  "encode_sasl_response client_final = client_final"

section \<open>The exchange with a server\<close>

text \<open>What is used of the crates: digests of 32 bytes, and base64 that decodes what it encodes without commas.\<close>

definition crypto_ok :: "crypto \<Rightarrow> bool" where
  "crypto_ok c \<longleftrightarrow> (\<forall>k d. length (hmac_sha256 c k d) = 32)
     \<and> (\<forall>x. b64_decode c (b64_encode c x) = Some x \<and> 44 \<notin> set (b64_encode c x))"

text \<open>
  The server of RFC 5802: it stores salt, iteration count and two keys, sends its first
  message, checks the proof of the client against the stored key and signs with its own key.
\<close>

record verifier =
  ver_salt :: bytes
  ver_iterations :: nat
  stored_key :: bytes
  server_key :: bytes

definition verifier_of :: "crypto \<Rightarrow> bytes \<Rightarrow> bytes \<Rightarrow> nat \<Rightarrow> verifier" where
  "verifier_of c password salt i =
     (let salted = pbkdf2_hmac_sha256 c password salt i
      in \<lparr>ver_salt = salt, ver_iterations = i,
          stored_key = sha256 c (hmac_sha256 c salted (ascii ''Client Key'')),
          server_key = hmac_sha256 c salted (ascii ''Server Key'')\<rparr>)"

definition server_first_message :: "crypto \<Rightarrow> verifier \<Rightarrow> bytes \<Rightarrow> bytes" where
  "server_first_message c v nonce =
     ascii ''r='' @ nonce @ ascii '',s='' @ b64_encode c (ver_salt v) @ ascii '',i='' @ decimal (ver_iterations v)"

definition auth_message_of :: "bytes \<Rightarrow> bytes \<Rightarrow> bytes \<Rightarrow> bytes" where
  "auth_message_of cfb sf without_proof = cfb @ ascii '','' @ sf @ ascii '','' @ without_proof"

text \<open>The message of the client up to its proof.\<close>

definition without_proof :: "bytes \<Rightarrow> bytes \<Rightarrow> bytes" where
  "without_proof client_final p = take (length client_final - length (ascii '',p='' @ p)) client_final"

definition server_checks :: "crypto \<Rightarrow> verifier \<Rightarrow> bytes \<Rightarrow> bytes \<Rightarrow> bytes \<Rightarrow> bytes \<Rightarrow> bool" where
  "server_checks c v nonce cfb sf client_final \<longleftrightarrow>
     extract_attr client_final (CHR ''r'') = Some nonce
     \<and> (case extract_attr client_final (CHR ''p'') of
          None \<Rightarrow> False
        | Some p \<Rightarrow>
            (case b64_decode c p of
               None \<Rightarrow> False
             | Some proof_bytes \<Rightarrow>
                 sha256 c (xor_bytes proof_bytes
                   (hmac_sha256 c (stored_key v) (auth_message_of cfb sf (without_proof client_final p))))
                 = stored_key v))"

definition server_final_message :: "crypto \<Rightarrow> verifier \<Rightarrow> bytes \<Rightarrow> bytes \<Rightarrow> bytes \<Rightarrow> bytes" where
  "server_final_message c v cfb sf client_final =
     (case extract_attr client_final (CHR ''p'') of
        None \<Rightarrow> []
      | Some p \<Rightarrow> ascii ''v='' @ b64_encode c
          (hmac_sha256 c (server_key v) (auth_message_of cfb sf (without_proof client_final p))))"

lemma xor_bytes_twice: "length a = length b \<Longrightarrow> xor_bytes (xor_bytes a b) b = a"
  by (induction a b rule: list_induct2) (auto simp: xor_bytes_def xor.assoc)

lemma decimal_no_comma: "(44 :: byte) \<notin> set (decimal n)"
  using decimal_digits [of 44 n] by auto

lemma ascii_attr:
  "ascii '','' = [44]" "ascii '',r='' = [44, 114, 61]" "ascii '',s='' = [44, 115, 61]" "ascii '',i='' = [44, 105, 61]"
  "ascii '',p='' = [44, 112, 61]" "ascii ''r='' = [114, 61]" "ascii ''c='' = [99, 61]" "ascii ''v='' = [118, 61]"
  "ascii [CHR ''r'', CHR ''=''] = [114, 61]" "ascii [CHR ''s'', CHR ''=''] = [115, 61]"
  "ascii [CHR ''i'', CHR ''=''] = [105, 61]" "ascii [CHR ''p'', CHR ''=''] = [112, 61]"
  "ascii [CHR ''v'', CHR ''=''] = [118, 61]"
  by (simp_all add: ascii_def)

text \<open>A message of three attributes.\<close>

lemma three_attrs:
  assumes "44 \<notin> set (k1 # x)" and "44 \<notin> set (k2 # y)" and "44 \<notin> set (k3 # z)"
  shows "split_on 44 (k1 # 61 # x @ 44 # k2 # 61 # y @ 44 # k3 # 61 # z) = [k1 # 61 # x, k2 # 61 # y, k3 # 61 # z]"
  using assms split_on_first [of 44 "k1 # 61 # x"] split_on_first [of 44 "k2 # 61 # y"] split_on_last [of 44 "k3 # 61 # z"]
  by simp

lemma client_final_attrs:
  assumes "crypto_ok c" and "44 \<notin> set nonce"
  shows "extract_attr (ascii ''c='' @ b64_encode c b @ ascii '',r='' @ nonce @ ascii '',p='' @ b64_encode c p) (CHR ''r'') = Some nonce"
    and "extract_attr (ascii ''c='' @ b64_encode c b @ ascii '',r='' @ nonce @ ascii '',p='' @ b64_encode c p) (CHR ''p'')
      = Some (b64_encode c p)"
  using assms three_attrs [of 99 "b64_encode c b" 114 nonce 112 "b64_encode c p"]
  by (simp_all add: extract_attr_def ascii_attr crypto_ok_def)

lemma server_first_attrs:
  assumes "crypto_ok c" and "44 \<notin> set nonce"
  shows "extract_attr (server_first_message c v nonce) (CHR ''r'') = Some nonce"
    and "extract_attr (server_first_message c v nonce) (CHR ''s'') = Some (b64_encode c (ver_salt v))"
    and "extract_attr (server_first_message c v nonce) (CHR ''i'') = Some (decimal (ver_iterations v))"
  using assms three_attrs [of 114 nonce 115 "b64_encode c (ver_salt v)" 105 "decimal (ver_iterations v)"] decimal_no_comma
  by (simp_all add: server_first_message_def extract_attr_def ascii_attr crypto_ok_def)

lemma verify_server_final_signature:
  assumes "crypto_ok c"
  shows "verify_server_final c (ascii ''v='' @ b64_encode c sig) expected = Ok () \<longleftrightarrow> sig = expected"
proof -
  have "split_on 44 (118 # 61 # b64_encode c sig) = [118 # 61 # b64_encode c sig]"
    using assms by (intro split_on_last) (simp add: crypto_ok_def)
  then have "extract_attr (ascii ''v='' @ b64_encode c sig) (CHR ''v'') = Some (b64_encode c sig)"
    by (simp add: extract_attr_def ascii_attr)
  then show ?thesis using assms by (simp add: verify_server_final_def crypto_ok_def)
qed


text \<open>A concrete instance of the crates' functions that satisfies the hypotheses: hexadecimal for base64.\<close>

fun hex_pairs :: "bytes \<Rightarrow> bytes option" where
  "hex_pairs [] = Some []"
| "hex_pairs (a # b # rest) =
     (case (digit_value 16 (unat a), digit_value 16 (unat b), hex_pairs rest) of
        (Some x, Some y, Some bs) \<Rightarrow> Some (of_nat (x * 16 + y) # bs)
      | _ \<Rightarrow> None)"
| "hex_pairs [a] = None"

definition example_crypto :: crypto where
  "example_crypto = \<lparr>md5 = take 16, sha256 = (\<lambda>d. take 32 (d @ replicate 32 0)),
     hmac_sha256 = (\<lambda>k d. take 32 (k @ d @ replicate 32 0)), b64_encode = hex_digest, b64_decode = hex_pairs\<rparr>"

lemma unat_hex_lower: "d < 16 \<Longrightarrow> unat (hex_lower d) = (if d < 10 then 48 + d else 87 + d)"
  by (simp add: hex_lower_def unsigned_of_nat take_bit_nat_eq_self del: of_nat_add)

lemma hex_pairs_digest: "hex_pairs (hex_digest bs) = Some bs"
proof (induction bs)
  case (Cons b bs)
  have b: "unat b div 16 < 16" "unat b mod 16 < 16"
    using unsigned_less [of b, where 'a = nat] by (auto simp: less_mult_imp_div_less)
  then have "digit_value 16 (unat (hex_lower (unat b div 16))) = Some (unat b div 16)"
    and "digit_value 16 (unat (hex_lower (unat b mod 16))) = Some (unat b mod 16)"
    by (auto simp: unat_hex_lower digit_value_def Let_def)
  then show ?case
    using Cons by (simp add: hex_digest_def del: of_nat_add of_nat_mult)
qed (simp add: hex_digest_def)

lemma hex_digest_chars:
  assumes "x \<in> set (hex_digest bs)"
  shows "48 \<le> unat x \<and> unat x \<le> 57 \<or> 97 \<le> unat x \<and> unat x \<le> 102"
proof -
  obtain b :: byte where "x = hex_lower (unat b div 16) \<or> x = hex_lower (unat b mod 16)"
    using assms by (auto simp: hex_digest_def)
  moreover have "unat b div 16 < 16" "unat b mod 16 < 16"
    using unsigned_less [of b, where 'a = nat] by (simp_all add: less_mult_imp_div_less)
  ultimately obtain d where "d < 16" "x = hex_lower d" by metis
  then show ?thesis using unat_hex_lower [of d] by auto
qed

lemma hex_digest_no_comma: "(44 :: byte) \<notin> set (hex_digest bs)"
  using hex_digest_chars [of 44 bs] by auto

lemma example_crypto_ok: "crypto_ok example_crypto"
  by (auto simp: crypto_ok_def example_crypto_def hex_pairs_digest hex_digest_no_comma)


end
