(* ===== verification/Pg_Session.thy ===== *)
theory Pg_Session
  imports Pg_Scram
begin

text \<open>
  A PostgreSQL connection (\<^verbatim>\<open>moduvex-db/src/protocol/postgres/mod.rs\<close>, \<^verbatim>\<open>prepared.rs\<close>): startup with
  MD5 or SCRAM authentication, simple queries, prepared statements and recovery after an
  error, over a transport that delivers the bytes of the server in arbitrary pieces. Opening
  the socket and parsing its address precede the model.
\<close>

section \<open>Data\<close>

record pg_column =
  col_name :: bytes
  col_type_oid :: u32

record pg_row =
  row_columns :: "pg_column list"
  row_fields :: fields

record pg_row_set =
  rs_columns :: "pg_column list"
  rs_rows :: "pg_row list"

record pg_connection =
  pg_stream :: transport
  pg_params :: "bytes \<rightharpoonup> bytes"

record prepared_statement =
  ps_name :: bytes
  ps_param_types :: "u32 list"
  ps_columns :: "pg_column list"

definition column_of :: "column_desc \<Rightarrow> pg_column" where
  "column_of d = \<lparr>col_name = cd_name d, col_type_oid = cd_type_oid d\<rparr>"

text \<open>A bound parameter; a \<^verbatim>\<open>Float8\<close> is given by the text \<^verbatim>\<open>to_string\<close> prints for it.\<close>

datatype param = PNull | PBool bool | PInt4 int | PInt8 int | PFloat8 bytes | PText bytes | PBytes bytes

fun param_to_oid :: "param \<Rightarrow> u32" where
  "param_to_oid PNull = 0"
| "param_to_oid (PBool _) = 16"
| "param_to_oid (PInt4 _) = 23"
| "param_to_oid (PInt8 _) = 20"
| "param_to_oid (PFloat8 _) = 701"
| "param_to_oid (PText _) = 25"
| "param_to_oid (PBytes _) = 17"

fun param_to_text_bytes :: "param \<Rightarrow> bytes option" where
  "param_to_text_bytes PNull = None"
| "param_to_text_bytes (PBool b) = Some (if b then ascii ''t'' else ascii ''f'')"
| "param_to_text_bytes (PInt4 n) = Some (int_decimal n)"
| "param_to_text_bytes (PInt8 n) = Some (int_decimal n)"
| "param_to_text_bytes (PFloat8 s) = Some s"
| "param_to_text_bytes (PText s) = Some s"
| "param_to_text_bytes (PBytes b) = Some b"

section \<open>Reading messages\<close>

definition next_message :: "transport \<Rightarrow> backend_message db_result \<times> transport" where
  "next_message t =
     (case read_backend_message t of
        (Err e, t1) \<Rightarrow> (Err e, t1)
      | (Panic, t1) \<Rightarrow> (Panic, t1)
      | (Ok (ty, payload), t1) \<Rightarrow> (decode_backend ty payload, t1))"

text \<open>Every message read leaves less to read, so the loops below end.\<close>

lemma poll_read_pending: "poll_read t n = (Ok chunk, t') \<Longrightarrow> chunk \<noteq> [] \<Longrightarrow> pending t' < pending t"
  by (cases "rx t" rule: stream_bytes.cases) (auto simp: poll_read_def pending_def split: if_splits)

lemma pg_read_loop_pending:
  "pg_read_loop t n acc = (Ok bs, t') \<Longrightarrow> pending t' \<le> pending t \<and> (length acc < n \<longrightarrow> pending t' < pending t)"
proof (induction t n acc rule: pg_read_loop.induct)
  case (1 t n acc)
  show ?case
  proof (cases "length acc < n")
    case False
    then show ?thesis using "1.prems" by (subst (asm) pg_read_loop.simps) simp
  next
    case True
    obtain chunk t1 where p: "poll_read t (n - length acc) = (Ok chunk, t1)" "chunk \<noteq> []"
        "pg_read_loop t1 n (acc @ chunk) = (Ok bs, t')"
      using "1.prems" True
      by (subst (asm) pg_read_loop.simps) (auto split: prod.splits outcome.splits if_splits)
    have "pending t' \<le> pending t1"
      using "1.IH" [OF True p(1) [symmetric] refl p(2,3)] by simp
    then show ?thesis using poll_read_pending [OF p(1,2)] by simp
  qed
qed

lemma read_backend_message_pending: "read_backend_message t = (Ok r, t') \<Longrightarrow> pending t' < pending t"
  unfolding read_backend_message_def pg_read_exact_def
  by (auto simp: Let_def dest!: pg_read_loop_pending split: prod.splits outcome.splits if_splits)

lemma next_message_pending: "next_message t = (Ok m, t') \<Longrightarrow> pending t' < pending t"
  unfolding next_message_def
  by (auto dest!: read_backend_message_pending split: prod.splits outcome.splits)

lemma write_frontend_message_pending: "write_frontend_message t ty payload = (r, t') \<Longrightarrow> pending t' = pending t"
  unfolding write_frontend_message_def by (auto simp: pending_def dest: pg_write_all_rx)

function drain_until_ready :: "transport \<Rightarrow> unit db_result \<times> transport" where
  "drain_until_ready t =
     (case next_message t of
        (Err e, t1) \<Rightarrow> (Err e, t1)
      | (Panic, t1) \<Rightarrow> (Panic, t1)
      | (Ok m, t1) \<Rightarrow> (case m of ReadyForQuery _ \<Rightarrow> (Ok (), t1) | _ \<Rightarrow> drain_until_ready t1))"
  by pat_completeness auto
termination
  by (relation "measure pending") (auto dest: next_message_pending [OF sym])

declare drain_until_ready.simps [simp del]

text \<open>The branch of every loop for an \<^verbatim>\<open>ErrorResponse\<close>: drain, then report it.\<close>

definition server_error :: "transport \<Rightarrow> bytes \<Rightarrow> bytes \<Rightarrow> bytes option \<Rightarrow> 'a db_result \<times> transport" where
  "server_error t code message detail =
     (case drain_until_ready t of
        (Err e, t1) \<Rightarrow> (Err e, t1)
      | (Panic, t1) \<Rightarrow> (Panic, t1)
      | (Ok _, t1) \<Rightarrow> (Err (ServerError code message detail), t1))"

section \<open>Simple queries\<close>

function query_loop :: "transport \<Rightarrow> pg_column list \<Rightarrow> pg_row list \<Rightarrow> pg_row_set db_result \<times> transport" where
  "query_loop t columns rows =
     (case next_message t of
        (Err e, t1) \<Rightarrow> (Err e, t1)
      | (Panic, t1) \<Rightarrow> (Panic, t1)
      | (Ok m, t1) \<Rightarrow>
          (case m of
             RowDescription col_descs \<Rightarrow> query_loop t1 (map column_of col_descs) rows
           | DataRow fs \<Rightarrow> query_loop t1 columns (rows @ [\<lparr>row_columns = columns, row_fields = fs\<rparr>])
           | CommandComplete _ \<Rightarrow> query_loop t1 columns rows
           | ReadyForQuery status \<Rightarrow>
               if status = 0x45 then (Err (protocol_error ''server in error state after query''), t1)
               else (Ok \<lparr>rs_columns = columns, rs_rows = rows\<rparr>, t1)
           | ErrorResponse code message detail \<Rightarrow> server_error t1 code message detail
           | ParameterStatus _ _ \<Rightarrow> query_loop t1 columns rows
           | NoticeResponse \<Rightarrow> query_loop t1 columns rows
           | AuthOk \<Rightarrow> (Err (protocol_error ''unexpected auth message during query''), t1)
           | AuthMd5 _ \<Rightarrow> (Err (protocol_error ''unexpected auth message during query''), t1)
           | _ \<Rightarrow> (Err (protocol_error ''unexpected extended protocol message during simple query''), t1)))"
  by pat_completeness auto
termination
  by (relation "measure (\<lambda>(t, columns, rows). pending t)") (auto dest: next_message_pending [OF sym])

declare query_loop.simps [simp del]

definition query :: "transport \<Rightarrow> bytes \<Rightarrow> pg_row_set db_result \<times> transport" where
  "query t sql =
     (case write_frontend_message t MSG_QUERY (encode_query sql) of
        (Err e, t1) \<Rightarrow> (Err e, t1)
      | (Panic, t1) \<Rightarrow> (Panic, t1)
      | (Ok _, t1) \<Rightarrow> query_loop t1 [] [])"

text \<open>\<^verbatim>\<open>split_whitespace().last()\<close> on the code points of the tag.\<close>

fun last_word :: "nat list \<Rightarrow> nat list option" where
  "last_word cs =
     (let w = takeWhile (\<lambda>c. \<not> is_whitespace c) (dropWhile is_whitespace (rev cs))
      in if w = [] then None else Some (rev w))"

definition parse_affected_rows :: "bytes \<Rightarrow> nat" where
  "parse_affected_rows tag =
     (case Option.bind (Option.bind (utf8_decode tag) last_word) (parse_uint 10 (2 ^ 64)) of
        Some n \<Rightarrow> n
      | None \<Rightarrow> 0)"

function execute_loop :: "transport \<Rightarrow> nat \<Rightarrow> nat db_result \<times> transport" where
  "execute_loop t affected =
     (case next_message t of
        (Err e, t1) \<Rightarrow> (Err e, t1)
      | (Panic, t1) \<Rightarrow> (Panic, t1)
      | (Ok m, t1) \<Rightarrow>
          (case m of
             CommandComplete tag \<Rightarrow> execute_loop t1 (parse_affected_rows tag)
           | ReadyForQuery _ \<Rightarrow> (Ok affected, t1)
           | ErrorResponse code message detail \<Rightarrow> server_error t1 code message detail
           | RowDescription _ \<Rightarrow> execute_loop t1 affected
           | DataRow _ \<Rightarrow> execute_loop t1 affected
           | ParameterStatus _ _ \<Rightarrow> execute_loop t1 affected
           | NoticeResponse \<Rightarrow> execute_loop t1 affected
           | other \<Rightarrow> (Err (ProtocolUnexpected ''unexpected message during execute: '' other), t1)))"
  by pat_completeness auto
termination
  by (relation "measure (\<lambda>(t, affected). pending t)") (auto dest: next_message_pending [OF sym])

declare execute_loop.simps [simp del]

definition execute :: "transport \<Rightarrow> bytes \<Rightarrow> nat db_result \<times> transport" where
  "execute t sql =
     (case write_frontend_message t MSG_QUERY (encode_query sql) of
        (Err e, t1) \<Rightarrow> (Err e, t1)
      | (Panic, t1) \<Rightarrow> (Panic, t1)
      | (Ok _, t1) \<Rightarrow> execute_loop t1 0)"

definition ping :: "transport \<Rightarrow> unit db_result \<times> transport" where
  "ping t =
     (case execute t (ascii ''SELECT 1'') of
        (Err e, t1) \<Rightarrow> (Err e, t1)
      | (Panic, t1) \<Rightarrow> (Panic, t1)
      | (Ok _, t1) \<Rightarrow> (Ok (), t1))"

definition terminate :: "transport \<Rightarrow> unit db_result \<times> transport" where
  "terminate t = write_frontend_message t MSG_TERMINATE []"

section \<open>Prepared statements\<close>

text \<open>Several messages written one after the other, stopping at the first failure.\<close>

fun write_messages :: "transport \<Rightarrow> (byte \<times> bytes) list \<Rightarrow> unit db_result \<times> transport" where
  "write_messages t [] = (Ok (), t)"
| "write_messages t ((ty, payload) # ms) =
     (case write_frontend_message t ty payload of
        (Err e, t1) \<Rightarrow> (Err e, t1)
      | (Panic, t1) \<Rightarrow> (Panic, t1)
      | (Ok _, t1) \<Rightarrow> write_messages t1 ms)"

function prepare_loop ::
  "transport \<Rightarrow> bytes \<Rightarrow> u32 list \<Rightarrow> pg_column list \<Rightarrow> prepared_statement db_result \<times> transport" where
  "prepare_loop t name param_types columns =
     (case next_message t of
        (Err e, t1) \<Rightarrow> (Err e, t1)
      | (Panic, t1) \<Rightarrow> (Panic, t1)
      | (Ok m, t1) \<Rightarrow>
          (case m of
             ParseComplete \<Rightarrow> prepare_loop t1 name param_types columns
           | ParameterDescription oids \<Rightarrow> prepare_loop t1 name oids columns
           | RowDescription col_descs \<Rightarrow> prepare_loop t1 name param_types (map column_of col_descs)
           | NoData \<Rightarrow> prepare_loop t1 name param_types columns
           | ReadyForQuery status \<Rightarrow>
               if status = 0x45 then (Err (protocol_error ''server in error state after prepare''), t1)
               else (Ok \<lparr>ps_name = name, ps_param_types = param_types, ps_columns = columns\<rparr>, t1)
           | ErrorResponse code message detail \<Rightarrow> server_error t1 code message detail
           | ParameterStatus _ _ \<Rightarrow> prepare_loop t1 name param_types columns
           | NoticeResponse \<Rightarrow> prepare_loop t1 name param_types columns
           | other \<Rightarrow> (Err (ProtocolUnexpected ''unexpected message during prepare: '' other), t1)))"
  by pat_completeness auto
termination
  by (relation "measure (\<lambda>(t, name, param_types, columns). pending t)") (auto dest: next_message_pending [OF sym])

declare prepare_loop.simps [simp del]

definition prepare_named :: "transport \<Rightarrow> bytes \<Rightarrow> bytes \<Rightarrow> prepared_statement db_result \<times> transport" where
  "prepare_named t name sql =
     (case write_messages t [(MSG_PARSE, encode_parse name sql []), (MSG_DESCRIBE, encode_describe 0x53 name),
             (MSG_SYNC, encode_sync)] of
        (Err e, t1) \<Rightarrow> (Err e, t1)
      | (Panic, t1) \<Rightarrow> (Panic, t1)
      | (Ok _, t1) \<Rightarrow> prepare_loop t1 name [] [])"

definition prepare :: "transport \<Rightarrow> bytes \<Rightarrow> prepared_statement db_result \<times> transport" where
  "prepare t sql = prepare_named t [] sql"

function exec_prepared_loop ::
  "transport \<Rightarrow> pg_column list \<Rightarrow> pg_row list \<Rightarrow> pg_row_set db_result \<times> transport" where
  "exec_prepared_loop t columns rows =
     (case next_message t of
        (Err e, t1) \<Rightarrow> (Err e, t1)
      | (Panic, t1) \<Rightarrow> (Panic, t1)
      | (Ok m, t1) \<Rightarrow>
          (case m of
             BindComplete \<Rightarrow> exec_prepared_loop t1 columns rows
           | DataRow fs \<Rightarrow> exec_prepared_loop t1 columns (rows @ [\<lparr>row_columns = columns, row_fields = fs\<rparr>])
           | CommandComplete _ \<Rightarrow> exec_prepared_loop t1 columns rows
           | ReadyForQuery status \<Rightarrow>
               if status = 0x45 then (Err (protocol_error ''server in error state after execute_prepared''), t1)
               else (Ok \<lparr>rs_columns = columns, rs_rows = rows\<rparr>, t1)
           | ErrorResponse code message detail \<Rightarrow> server_error t1 code message detail
           | ParameterStatus _ _ \<Rightarrow> exec_prepared_loop t1 columns rows
           | NoticeResponse \<Rightarrow> exec_prepared_loop t1 columns rows
           | other \<Rightarrow> (Err (ProtocolUnexpected ''unexpected message during execute_prepared: '' other), t1)))"
  by pat_completeness auto
termination
  by (relation "measure (\<lambda>(t, columns, rows). pending t)") (auto dest: next_message_pending [OF sym])

declare exec_prepared_loop.simps [simp del]

definition execute_prepared ::
  "transport \<Rightarrow> prepared_statement \<Rightarrow> param list \<Rightarrow> pg_row_set db_result \<times> transport" where
  "execute_prepared t stmt params =
     (case write_messages t [(MSG_BIND, encode_bind [] (ps_name stmt) (map param_to_text_bytes params)),
             (MSG_EXECUTE, encode_execute [] 0), (MSG_SYNC, encode_sync)] of
        (Err e, t1) \<Rightarrow> (Err e, t1)
      | (Panic, t1) \<Rightarrow> (Panic, t1)
      | (Ok _, t1) \<Rightarrow> exec_prepared_loop t1 (ps_columns stmt) [])"

function close_loop :: "transport \<Rightarrow> unit db_result \<times> transport" where
  "close_loop t =
     (case next_message t of
        (Err e, t1) \<Rightarrow> (Err e, t1)
      | (Panic, t1) \<Rightarrow> (Panic, t1)
      | (Ok m, t1) \<Rightarrow>
          (case m of
             ReadyForQuery _ \<Rightarrow> (Ok (), t1)
           | ErrorResponse code message detail \<Rightarrow> server_error t1 code message detail
           | _ \<Rightarrow> close_loop t1))"
  by pat_completeness auto
termination
  by (relation "measure pending") (auto dest: next_message_pending [OF sym])

declare close_loop.simps [simp del]

definition close_statement :: "transport \<Rightarrow> bytes \<Rightarrow> unit db_result \<times> transport" where
  "close_statement t name =
     (case write_messages t [(MSG_CLOSE, encode_close 0x53 name), (MSG_SYNC, encode_sync)] of
        (Err e, t1) \<Rightarrow> (Err e, t1)
      | (Panic, t1) \<Rightarrow> (Panic, t1)
      | (Ok _, t1) \<Rightarrow> close_loop t1)"

section \<open>Startup\<close>

definition is_sasl_auth :: "bytes \<Rightarrow> bool" where
  "is_sasl_auth payload \<longleftrightarrow> \<not> length payload < 4
     \<and> sint (be_at payload 0 4 :: u32) \<in> {AUTH_SASL, AUTH_SASL_CONTINUE, AUTH_SASL_FINAL}"

text \<open>The messages the SCRAM exchange expects: an auth message of a given sub-type.\<close>

definition expect_auth :: "transport \<Rightarrow> string \<Rightarrow> int \<Rightarrow> string \<Rightarrow> bytes db_result \<times> transport" where
  "expect_auth t after sub_type expected =
     (case read_backend_message t of
        (Err e, t1) \<Rightarrow> (Err e, t1)
      | (Panic, t1) \<Rightarrow> (Panic, t1)
      | (Ok (ty, payload), t1) \<Rightarrow>
          if ty \<noteq> MSG_AUTH then
            (Err (Protocol (ascii (''expected auth message after '' @ after @ '', got 0x'') @ hex2 ty)), t1)
          else if length payload < 4 then (Err (protocol_error ''auth payload too short for sub-type''), t1)
          else
            (let sub = sint (be_at payload 0 4 :: u32)
             in if sub \<noteq> sub_type then
                  (Err (Protocol (ascii (''expected '' @ expected @ '', got sub='') @ int_decimal sub)), t1)
                else (Ok payload, t1)))"

definition perform_scram_auth ::
  "crypto \<Rightarrow> bytes \<Rightarrow> transport \<Rightarrow> bytes \<Rightarrow> bytes \<Rightarrow> bytes \<Rightarrow> unit db_result \<times> transport" where
  "perform_scram_auth c nonce t user password initial_payload =
     (case decode_sasl_mechanisms initial_payload of
        Err e \<Rightarrow> (Err e, t)
      | Panic \<Rightarrow> (Panic, t)
      | Ok mechanisms \<Rightarrow>
          if ascii ''SCRAM-SHA-256'' \<notin> set mechanisms then (Err (UnsupportedMechanisms mechanisms), t)
          else
            (let scram = \<lparr>username = user, scram_password = password, client_nonce = nonce\<rparr>;
                 sasl_init = encode_sasl_initial_response (ascii ''SCRAM-SHA-256'') (client_first_message scram)
             in case write_frontend_message t MSG_PASSWORD sasl_init of
                  (Err e, t1) \<Rightarrow> (Err e, t1)
                | (Panic, t1) \<Rightarrow> (Panic, t1)
                | (Ok _, t1) \<Rightarrow>
            (case expect_auth t1 ''SASLInitialResponse'' AUTH_SASL_CONTINUE ''AuthSASLContinue (sub=11)'' of
                  (Err e, t2) \<Rightarrow> (Err e, t2)
                | (Panic, t2) \<Rightarrow> (Panic, t2)
                | (Ok payload, t2) \<Rightarrow>
            (case decode_sasl_continue payload of
                  Err e \<Rightarrow> (Err e, t2)
                | Panic \<Rightarrow> (Panic, t2)
                | Ok server_first \<Rightarrow>
            (case process_server_first c scram server_first of
                  Err e \<Rightarrow> (Err e, t2)
                | Panic \<Rightarrow> (Panic, t2)
                | Ok (client_final, expected_server_sig) \<Rightarrow>
            (case write_frontend_message t2 MSG_PASSWORD (encode_sasl_response client_final) of
                  (Err e, t3) \<Rightarrow> (Err e, t3)
                | (Panic, t3) \<Rightarrow> (Panic, t3)
                | (Ok _, t3) \<Rightarrow>
            (case expect_auth t3 ''SASLResponse'' AUTH_SASL_FINAL ''AuthSASLFinal (sub=12)'' of
                  (Err e, t4) \<Rightarrow> (Err e, t4)
                | (Panic, t4) \<Rightarrow> (Panic, t4)
                | (Ok payload, t4) \<Rightarrow>
            (case decode_sasl_final payload of
                  Err e \<Rightarrow> (Err e, t4)
                | Panic \<Rightarrow> (Panic, t4)
                | Ok server_final \<Rightarrow>
            (case verify_server_final c server_final expected_server_sig of
                  Err e \<Rightarrow> (Err e, t4)
                | Panic \<Rightarrow> (Panic, t4)
                | Ok _ \<Rightarrow>
            (case next_message t4 of
                  (Err e, t5) \<Rightarrow> (Err e, t5)
                | (Panic, t5) \<Rightarrow> (Panic, t5)
                | (Ok m, t5) \<Rightarrow>
                    (case m of
                       AuthOk \<Rightarrow> (Ok (), t5)
                     | ErrorResponse code message detail \<Rightarrow> (Err (ServerError code message detail), t5)
                     | other \<Rightarrow> (Err (ProtocolUnexpected ''expected AuthOk after SCRAM, got: '' other), t5))))))))))))"

lemma expect_auth_pending: "expect_auth t after sub what = (Ok payload, t') \<Longrightarrow> pending t' < pending t"
  unfolding expect_auth_def
  by (auto simp: Let_def dest!: read_backend_message_pending split: prod.splits outcome.splits if_splits)

lemma perform_scram_auth_pending:
  "perform_scram_auth c nonce t user password payload = (Ok r, t') \<Longrightarrow> pending t' \<le> pending t"
  unfolding perform_scram_auth_def Let_def
  by (auto dest!: write_frontend_message_pending expect_auth_pending next_message_pending
      split: prod.splits outcome.splits if_splits backend_message.splits)

text \<open>\<open>nonces k\<close> is the nonce drawn for the \<open>k\<close>-th SCRAM exchange of the startup.\<close>

function connect_loop ::
  "crypto \<Rightarrow> (nat \<Rightarrow> bytes) \<Rightarrow> bytes \<Rightarrow> bytes \<Rightarrow> transport \<Rightarrow> (bytes \<rightharpoonup> bytes) \<Rightarrow> pg_connection db_result \<times> transport" where
  "connect_loop c nonces user password t params =
     (case read_backend_message t of
        (Err e, t1) \<Rightarrow> (Err e, t1)
      | (Panic, t1) \<Rightarrow> (Panic, t1)
      | (Ok (ty, payload), t1) \<Rightarrow>
          if ty = MSG_AUTH \<and> is_sasl_auth payload then
            (case perform_scram_auth c (nonces 0) t1 user password payload of
               (Err e, t2) \<Rightarrow> (Err e, t2)
             | (Panic, t2) \<Rightarrow> (Panic, t2)
             | (Ok _, t2) \<Rightarrow> connect_loop c (\<lambda>k. nonces (Suc k)) user password t2 params)
          else
            (case decode_backend ty payload of
               Err e \<Rightarrow> (Err e, t1)
             | Panic \<Rightarrow> (Panic, t1)
             | Ok m \<Rightarrow>
                 (case m of
                    AuthOk \<Rightarrow> connect_loop c nonces user password t1 params
                  | AuthMd5 salt \<Rightarrow>
                      (case write_frontend_message t1 MSG_PASSWORD (encode_password (md5_password c user password salt)) of
                         (Err e, t2) \<Rightarrow> (Err e, t2)
                       | (Panic, t2) \<Rightarrow> (Panic, t2)
                       | (Ok _, t2) \<Rightarrow> connect_loop c nonces user password t2 params)
                  | ParameterStatus name val \<Rightarrow> connect_loop c nonces user password t1 (params(name \<mapsto> val))
                  | ReadyForQuery _ \<Rightarrow> (Ok \<lparr>pg_stream = t1, pg_params = params\<rparr>, t1)
                  | ErrorResponse code message detail \<Rightarrow> (Err (ServerError code message detail), t1)
                  | NoticeResponse \<Rightarrow> connect_loop c nonces user password t1 params
                  | other \<Rightarrow> (Err (ProtocolUnexpected ''unexpected message during startup: '' other), t1))))"
  by pat_completeness auto
termination
  by (relation "measure (\<lambda>(c, nonces, user, password, t, params). pending t)")
    (auto dest!: read_backend_message_pending [OF sym] write_frontend_message_pending [OF sym]
       perform_scram_auth_pending [OF sym])

declare connect_loop.simps [simp del]

definition connect :: "crypto \<Rightarrow> (nat \<Rightarrow> bytes) \<Rightarrow> transport \<Rightarrow> bytes \<Rightarrow> bytes \<Rightarrow> bytes \<Rightarrow> pg_connection db_result \<times> transport" where
  "connect c nonces t user password database =
     (case write_startup_message t (encode_startup user database) of
        (Err e, t1) \<Rightarrow> (Err e, t1)
      | (Panic, t1) \<Rightarrow> (Panic, t1)
      | (Ok _, t1) \<Rightarrow> connect_loop c nonces user password t1 Map.empty)"

definition server_param :: "pg_connection \<Rightarrow> bytes \<Rightarrow> bytes option" where
  "server_param conn key = pg_params conn key"

section \<open>A conforming server\<close>

text \<open>The bytes of a sequence of messages, and that each fits its length fields.\<close>

definition server_bytes :: "(column_desc \<Rightarrow> bytes \<times> bytes) \<Rightarrow> backend_message list \<Rightarrow> bytes" where
  "server_bytes aux ms = concat (map (\<lambda>m. case encode_backend aux m of (ty, payload) \<Rightarrow> frontend_frame ty payload) ms)"

definition server_ok :: "(column_desc \<Rightarrow> bytes \<times> bytes) \<Rightarrow> backend_message list \<Rightarrow> bool" where
  "server_ok aux ms \<longleftrightarrow> (\<forall>c. length (fst (aux c)) = 6 \<and> length (snd (aux c)) = 8)
     \<and> list_all (\<lambda>m. wf_backend m \<and> length (snd (encode_backend aux m)) + 4 < 2 ^ 31) ms"

lemma server_bytes_simps [simp]:
  "server_bytes aux [] = []"
  "server_bytes aux (ms @ ms') = server_bytes aux ms @ server_bytes aux ms'"
  by (simp_all add: server_bytes_def)

lemma server_ok_simps [simp]:
  "server_ok aux (ms @ ms') \<longleftrightarrow> server_ok aux ms \<and> server_ok aux ms'"
  by (auto simp: server_ok_def)

lemma next_message_server:
  assumes "server_ok aux (m # ms)" and "stream_bytes (rx t) = server_bytes aux (m # ms) @ rest"
  obtains t' where "next_message t = (Ok m, t')" "stream_bytes (rx t') = server_bytes aux ms @ rest"
    "wr t' = wr t" "tx t' = tx t"
proof -
  obtain ty payload where e: "encode_backend aux m = (ty, payload)" by fastforce
  have dec: "decode_backend ty payload = Ok m"
    using backend_roundtrip_at [of m aux] assms(1) e by (simp add: server_ok_def)
  have "stream_bytes (rx t) = frontend_frame ty payload @ server_bytes aux ms @ rest"
    using assms(2) e by (simp add: server_bytes_def)
  moreover have "length payload + 4 < 2 ^ 31" using assms(1) e by (simp add: server_ok_def)
  ultimately obtain t' where "read_backend_message t = (Ok (ty, payload), t')"
      "stream_bytes (rx t') = server_bytes aux ms @ rest" "wr t' = wr t" "tx t' = tx t"
    using read_backend_message_stream by blast
  then show ?thesis using that dec by (simp add: next_message_def)
qed

interpretation backend: message_reader next_message "\<lambda>t. stream_bytes (rx t)" "\<lambda>m. server_bytes aux [m]"
    "\<lambda>m. server_ok aux [m]" for aux
proof (unfold_locales, goal_cases)
  case (1 m t rest)
  then show ?case using next_message_server [of aux m "[]" t rest] by auto
next
  case (3 m)
  show ?case by (auto simp: server_bytes_def frontend_frame_def split: prod.split)
qed (rule stream_bytes_surj)

text \<open>The messages of a server are determined by its bytes.\<close>

lemma server_bytes_unique:
  assumes "server_ok aux ms" and "server_ok aux ms'" and "server_bytes aux ms = server_bytes aux ms'"
  shows "ms = ms'"
proof (rule backend.messages.sequence_unique [of _ aux])
  show "set ms \<subseteq> {m. server_ok aux [m]}" "set ms' \<subseteq> {m. server_ok aux [m]}"
    using assms(1,2) by (auto simp: server_ok_def list_all_iff)
  show "concat (map (\<lambda>m. server_bytes aux [m]) ms) = concat (map (\<lambda>m. server_bytes aux [m]) ms')"
    using assms(3) by (simp add: server_bytes_def)
qed

text \<open>\<open>reached t t' rest\<close>: from \<open>t\<close> only reading has happened, and \<open>rest\<close> is what is still to be read.\<close>

definition reached :: "transport \<Rightarrow> transport \<Rightarrow> bytes \<Rightarrow> bool" where
  "reached t t' rest \<longleftrightarrow> stream_bytes (rx t') = rest \<and> wr t' = wr t \<and> tx t' = tx t"

lemma reached_step: "reached t1 t2 rest \<Longrightarrow> wr t1 = wr t \<Longrightarrow> tx t1 = tx t \<Longrightarrow> reached t t2 rest"
  by (simp add: reached_def)

fun is_ready :: "backend_message \<Rightarrow> bool" where
  "is_ready (ReadyForQuery _) \<longleftrightarrow> True"
| "is_ready _ \<longleftrightarrow> False"

lemma drain_step:
  "next_message t = (Ok m, t1) \<Longrightarrow> \<not> is_ready m \<Longrightarrow> drain_until_ready t = drain_until_ready t1"
  "next_message t = (Ok (ReadyForQuery st), t1) \<Longrightarrow> drain_until_ready t = (Ok (), t1)"
  by (subst drain_until_ready.simps; cases m; simp)+

lemma drain_until_ready_server:
  assumes "server_ok aux (ms @ [ReadyForQuery st])" and "list_all (\<lambda>m. \<not> is_ready m) ms"
    and "stream_bytes (rx t) = server_bytes aux (ms @ [ReadyForQuery st]) @ rest"
  shows "\<exists>t'. drain_until_ready t = (Ok (), t') \<and> reached t t' rest"
  using assms
proof (induction ms arbitrary: t)
  case Nil
  obtain t1 where "next_message t = (Ok (ReadyForQuery st), t1)" "stream_bytes (rx t1) = server_bytes aux [] @ rest"
      "wr t1 = wr t" "tx t1 = tx t"
    by (rule next_message_server [of aux "ReadyForQuery st" "[]" t rest]) (use Nil.prems in auto)
  then show ?case by (simp add: drain_step(2) reached_def)
next
  case (Cons m ms)
  obtain t1 where t1: "next_message t = (Ok m, t1)"
      "stream_bytes (rx t1) = server_bytes aux (ms @ [ReadyForQuery st]) @ rest" "wr t1 = wr t" "tx t1 = tx t"
    by (rule next_message_server [of aux m "ms @ [ReadyForQuery st]" t rest]) (use Cons.prems in simp_all)
  have "server_ok aux (ms @ [ReadyForQuery st])"
    using Cons.prems(1) by (simp add: server_ok_def)
  from Cons.IH [OF this _ t1(2)] Cons.prems(2) obtain t'
    where "drain_until_ready t1 = (Ok (), t')" "reached t1 t' rest" by auto
  then show ?case
    using drain_step(1) [OF t1(1)] Cons.prems(2) reached_step [OF _ t1(3,4)] by auto
qed

text \<open>
  The contract of the loops that collect rows: rows are appended, other messages of the
  phase are skipped, readiness ends the loop and an error is reported after a drain.
\<close>

definition data_rows :: "pg_column list \<Rightarrow> backend_message list \<Rightarrow> pg_row list" where
  "data_rows cols ms =
     concat (map (\<lambda>m. case m of DataRow fs \<Rightarrow> [\<lparr>row_columns = cols, row_fields = fs\<rparr>] | _ \<Rightarrow> []) ms)"

fun is_data_row :: "backend_message \<Rightarrow> bool" where
  "is_data_row (DataRow _) \<longleftrightarrow> True"
| "is_data_row _ \<longleftrightarrow> False"

locale row_loop =
  fixes loop :: "transport \<Rightarrow> pg_column list \<Rightarrow> pg_row list \<Rightarrow> pg_row_set db_result \<times> transport"
    and skips :: "backend_message \<Rightarrow> bool"
  assumes row: "next_message t = (Ok (DataRow fs), t1) \<Longrightarrow>
      loop t cols rows = loop t1 cols (rows @ [\<lparr>row_columns = cols, row_fields = fs\<rparr>])"
    and skip: "next_message t = (Ok m, t1) \<Longrightarrow> skips m \<Longrightarrow> loop t cols rows = loop t1 cols rows"
    and ready: "next_message t = (Ok (ReadyForQuery st), t1) \<Longrightarrow> st \<noteq> 0x45 \<Longrightarrow>
      loop t cols rows = (Ok \<lparr>rs_columns = cols, rs_rows = rows\<rparr>, t1)"
    and error: "next_message t = (Ok (ErrorResponse code message detail), t1) \<Longrightarrow>
      loop t cols rows = server_error t1 code message detail"
    and skips_no_row: "skips m \<Longrightarrow> \<not> is_data_row m"
begin

lemma collects_prefix:
  assumes "server_ok aux ms" and "list_all (\<lambda>m. is_data_row m \<or> skips m) ms"
    and "stream_bytes (rx t) = server_bytes aux ms @ rest"
  shows "\<exists>t'. reached t t' rest \<and> loop t cols rows = loop t' cols (rows @ data_rows cols ms)"
  using assms
proof (induction ms arbitrary: t rows)
  case Nil
  then show ?case by (auto simp: reached_def data_rows_def)
next
  case (Cons m ms)
  obtain t1 where t1: "next_message t = (Ok m, t1)"
      "stream_bytes (rx t1) = server_bytes aux ms @ rest" "wr t1 = wr t" "tx t1 = tx t"
    by (rule next_message_server [OF Cons.prems(1,3)])
  have step: "loop t cols rows = loop t1 cols (rows @ data_rows cols [m])"
  proof (cases "is_data_row m")
    case True
    then show ?thesis using row [of t _ t1 cols rows] t1(1) by (cases m) (auto simp: data_rows_def)
  next
    case False
    then have "data_rows cols [m] = []" by (cases m) (auto simp: data_rows_def)
    then show ?thesis using skip [OF t1(1), of cols rows] Cons.prems(2) False by simp
  qed
  have "server_ok aux ms" using Cons.prems(1) by (simp add: server_ok_def)
  from Cons.IH [OF this _ t1(2), of "rows @ data_rows cols [m]"] Cons.prems(2) obtain t'
    where t': "reached t1 t' rest"
      "loop t1 cols (rows @ data_rows cols [m]) = loop t' cols ((rows @ data_rows cols [m]) @ data_rows cols ms)"
    by auto
  then show ?case using step reached_step [OF t'(1) t1(3,4)] by (auto simp: data_rows_def)
qed

lemma collects:
  assumes "server_ok aux (ms @ [ReadyForQuery st])" and "list_all (\<lambda>m. is_data_row m \<or> skips m) ms"
    and "st \<noteq> 0x45" and "stream_bytes (rx t) = server_bytes aux (ms @ [ReadyForQuery st]) @ rest"
  shows "\<exists>t'. loop t cols [] = (Ok \<lparr>rs_columns = cols, rs_rows = data_rows cols ms\<rparr>, t') \<and> reached t t' rest"
proof -
  obtain t1 where t1: "reached t t1 (server_bytes aux [ReadyForQuery st] @ rest)"
      "loop t cols [] = loop t1 cols (data_rows cols ms)"
    using collects_prefix [of aux ms t "server_bytes aux [ReadyForQuery st] @ rest" cols "[]"] assms by auto
  obtain t2 where "next_message t1 = (Ok (ReadyForQuery st), t2)" "stream_bytes (rx t2) = server_bytes aux [] @ rest"
      "wr t2 = wr t1" "tx t2 = tx t1"
    by (rule next_message_server [of aux "ReadyForQuery st" "[]" t1 rest]) (use assms(1) t1(1) in \<open>auto simp: reached_def\<close>)
  then show ?thesis using t1 ready [of t1 st t2] assms(3) by (auto simp: reached_def)
qed

lemma recovers:
  assumes "server_ok aux (ms @ ErrorResponse code message detail # ms' @ [ReadyForQuery st])"
    and "list_all (\<lambda>m. is_data_row m \<or> skips m) ms" and "list_all (\<lambda>m. \<not> is_ready m) ms'"
    and "stream_bytes (rx t) = server_bytes aux (ms @ ErrorResponse code message detail # ms' @ [ReadyForQuery st]) @ rest"
  shows "\<exists>t'. loop t cols rows = (Err (ServerError code message detail), t') \<and> reached t t' rest"
proof -
  let ?es = "ms' @ [ReadyForQuery st]"
  have ok: "server_ok aux ms" "server_ok aux (ErrorResponse code message detail # ?es)" "server_ok aux ?es"
    using assms(1) by (simp_all add: server_ok_def)
  obtain t1 where t1: "reached t t1 (server_bytes aux (ErrorResponse code message detail # ?es) @ rest)"
      "loop t cols rows = loop t1 cols (rows @ data_rows cols ms)"
    using collects_prefix [OF ok(1) assms(2), of t "server_bytes aux (ErrorResponse code message detail # ?es) @ rest" cols rows]
      assms(4) by auto
  obtain t2 where t2: "next_message t1 = (Ok (ErrorResponse code message detail), t2)"
      "stream_bytes (rx t2) = server_bytes aux ?es @ rest" "wr t2 = wr t1" "tx t2 = tx t1"
    by (rule next_message_server [OF ok(2), of t1 rest]) (use t1(1) in \<open>auto simp: reached_def\<close>)
  obtain t3 where "drain_until_ready t2 = (Ok (), t3)" "reached t2 t3 rest"
    using drain_until_ready_server [OF ok(3) assms(3) t2(2)] by blast
  then show ?thesis
    using t1 t2 error [OF t2(1)] by (auto simp: reached_def server_error_def)
qed

end

fun skipped_by_query :: "backend_message \<Rightarrow> bool" where
  "skipped_by_query (CommandComplete _) \<longleftrightarrow> True"
| "skipped_by_query (ParameterStatus _ _) \<longleftrightarrow> True"
| "skipped_by_query NoticeResponse \<longleftrightarrow> True"
| "skipped_by_query _ \<longleftrightarrow> False"

fun skipped_by_prepared :: "backend_message \<Rightarrow> bool" where
  "skipped_by_prepared BindComplete \<longleftrightarrow> True"
| "skipped_by_prepared m \<longleftrightarrow> skipped_by_query m"

interpretation simple: row_loop query_loop skipped_by_query
proof (unfold_locales, goal_cases)
  case (2 t m t1 cols rows)
  then show ?case by (subst query_loop.simps) (cases m; simp)
next
  case (5 m)
  then show ?case by (cases m) simp_all
qed (subst query_loop.simps, simp)+

interpretation prepared: row_loop exec_prepared_loop skipped_by_prepared
proof (unfold_locales, goal_cases)
  case (2 t m t1 cols rows)
  then show ?case by (subst exec_prepared_loop.simps) (cases m; simp)
next
  case (5 m)
  then show ?case by (cases m) simp_all
qed (subst exec_prepared_loop.simps, simp)+

section \<open>Queries against a conforming server\<close>

lemma write_frontend_message_accepting:
  assumes "h1_accepting t"
  obtains t' where "write_frontend_message t ty payload = (Ok (), t')" "tx t' = tx t @ frontend_frame ty payload"
    "rx t' = rx t" "h1_accepting t'"
  using pg_write_all_accepting [OF assms] by (auto simp: write_frontend_message_def)

lemma reached_accepting: "reached t t' rest \<Longrightarrow> h1_accepting t \<Longrightarrow> h1_accepting t'"
  by (simp add: reached_def h1_accepting_def)

text \<open>A result set: notices, the columns, then rows and notices up to readiness.\<close>

definition result_set :: "backend_message list \<Rightarrow> column_desc list \<Rightarrow> backend_message list \<Rightarrow> byte \<Rightarrow> backend_message list" where
  "result_set ms1 cols ms2 st = ms1 @ RowDescription cols # ms2 @ [ReadyForQuery st]"

definition result_set_ok :: "(column_desc \<Rightarrow> bytes \<times> bytes) \<Rightarrow> backend_message list \<Rightarrow> column_desc list \<Rightarrow> backend_message list \<Rightarrow> byte \<Rightarrow> bool" where
  "result_set_ok aux ms1 cols ms2 st \<longleftrightarrow> server_ok aux (result_set ms1 cols ms2 st) \<and> st \<noteq> 0x45
     \<and> list_all skipped_by_query ms1 \<and> list_all (\<lambda>m. is_data_row m \<or> skipped_by_query m) ms2"

lemma no_rows_skipped: "list_all skipped_by_query ms \<Longrightarrow> data_rows cols ms = []"
  by (induction ms) (auto simp: data_rows_def split: backend_message.split)

lemma query_loop_result_set:
  assumes "result_set_ok aux ms1 cols ms2 st"
    and "stream_bytes (rx t) = server_bytes aux (result_set ms1 cols ms2 st) @ rest"
  shows "\<exists>t'. query_loop t [] [] = (Ok \<lparr>rs_columns = map column_of cols,
      rs_rows = data_rows (map column_of cols) ms2\<rparr>, t') \<and> reached t t' rest"
proof -
  let ?ms = "ms2 @ [ReadyForQuery st]"
  have ok: "server_ok aux ms1" "server_ok aux (RowDescription cols # ?ms)" "server_ok aux ?ms"
    using assms(1) by (simp_all add: result_set_ok_def result_set_def server_ok_def)
  have skip: "list_all (\<lambda>m. is_data_row m \<or> skipped_by_query m) ms1" "data_rows [] ms1 = []"
    and rows: "list_all (\<lambda>m. is_data_row m \<or> skipped_by_query m) ms2" "st \<noteq> 0x45"
    using assms(1) no_rows_skipped by (auto simp: result_set_ok_def list_all_iff)
  obtain t1 where t1: "reached t t1 (server_bytes aux (RowDescription cols # ?ms) @ rest)"
      "query_loop t [] [] = query_loop t1 [] []"
    using simple.collects_prefix [OF ok(1) skip(1), of t "server_bytes aux (RowDescription cols # ?ms) @ rest" "[]" "[]"]
      assms(2) skip(2) by (auto simp: result_set_def)
  obtain t2 where t2: "next_message t1 = (Ok (RowDescription cols), t2)"
      "stream_bytes (rx t2) = server_bytes aux ?ms @ rest" "wr t2 = wr t1" "tx t2 = tx t1"
    by (rule next_message_server [OF ok(2), of t1 rest]) (use t1(1) in \<open>auto simp: reached_def\<close>)
  have "query_loop t1 [] [] = query_loop t2 (map column_of cols) []"
    using t2(1) by (subst query_loop.simps) simp
  then show ?thesis
    using simple.collects [OF ok(3) rows t2(2), of "map column_of cols"] t1 t2 by (auto simp: reached_def)
qed

lemma query_result_set:
  assumes "h1_accepting t" and "result_set_ok aux ms1 cols ms2 st"
    and "stream_bytes (rx t) = server_bytes aux (result_set ms1 cols ms2 st) @ rest"
  shows "\<exists>t'. query t sql = (Ok \<lparr>rs_columns = map column_of cols, rs_rows = data_rows (map column_of cols) ms2\<rparr>, t')
    \<and> tx t' = tx t @ frontend_frame MSG_QUERY (sql @ [0]) \<and> stream_bytes (rx t') = rest \<and> h1_accepting t'"
proof -
  obtain t1 where t1: "write_frontend_message t MSG_QUERY (encode_query sql) = (Ok (), t1)"
      "tx t1 = tx t @ frontend_frame MSG_QUERY (encode_query sql)" "rx t1 = rx t" "h1_accepting t1"
    by (rule write_frontend_message_accepting [OF assms(1)])
  obtain t2 where "query_loop t1 [] [] = (Ok \<lparr>rs_columns = map column_of cols,
      rs_rows = data_rows (map column_of cols) ms2\<rparr>, t2)" "reached t1 t2 rest"
    using query_loop_result_set [OF assms(2), of t1 rest] assms(3) t1(3) by auto
  then show ?thesis
    using t1 reached_accepting [of t1 t2 rest]
    by (auto simp: query_def reached_def encode_query_def write_cstring_def)
qed

text \<open>
  C4: A query returns what the server answered. Whatever the pieces in which its bytes arrive, if
  the server answers with a row description, rows and a ready message, between which it may
  send notices and parameter changes, then \<open>query\<close> sends the query text once, returns
  exactly the described columns and exactly the rows of the answer in their order, and leaves
  the connection at the end of that answer, ready for the next command.
\<close>

theorem query_returns_rows:
  assumes "h1_accepting t" and "result_set_ok aux ms1 cols ms2 st"
    and "stream_bytes (rx t) = server_bytes aux (result_set ms1 cols ms2 st) @ rest"
  shows "\<exists>t'. query t sql = (Ok \<lparr>rs_columns = map column_of cols, rs_rows = data_rows (map column_of cols) ms2\<rparr>, t')
    \<and> tx t' = tx t @ frontend_frame MSG_QUERY (sql @ [0]) \<and> stream_bytes (rx t') = rest"
  using query_result_set [OF assms] by blast

text \<open>A server answer for the witnesses: one column, one row, in two pieces.\<close>

definition plain_aux :: "column_desc \<Rightarrow> bytes \<times> bytes" where
  "plain_aux c = (replicate 6 0, replicate 8 0)"

definition id_column :: column_desc where
  "id_column = \<lparr>cd_name = [105, 100], cd_type_oid = 23, cd_pg_type = PgInt4\<rparr>"

definition in_two_pieces :: "bytes \<Rightarrow> transport" where
  "in_two_pieces bs = \<lparr>rx = [RBytes (take 1 bs), RBytes (drop 1 bs)], wr = [], tx = []\<rparr>"

lemma in_two_pieces_stream: "1 < length bs \<Longrightarrow> stream_bytes (rx (in_two_pieces bs)) = bs"
  by (cases bs) (auto simp: in_two_pieces_def)

lemma in_two_pieces_accepting: "h1_accepting (in_two_pieces bs)"
  by (simp add: in_two_pieces_def h1_accepting_def)

lemma one_row_ok:
  "result_set_ok plain_aux [NoticeResponse] [id_column] [DataRow [Some [52, 50]], CommandComplete [79]] 0x49"
  by (simp add: result_set_ok_def result_set_def server_ok_def plain_aux_def id_column_def wf_column_def cstring_ok_def
      utf8_valid_ascii pg_type_from_oid_def oid_defs encode_column_def write_cstring_def encode_field_def)

lemma server_bytes_length: "1 < length (server_bytes aux (m # ms) @ rest)"
  by (auto simp: server_bytes_def frontend_frame_def split: prod.split)

theorem query_returns_rows_witness:
  "\<exists>t'. query (in_two_pieces (server_bytes plain_aux (result_set [NoticeResponse] [id_column]
        [DataRow [Some [52, 50]], CommandComplete [79]] 0x49) @ [])) [83] =
      (Ok \<lparr>rs_columns = [\<lparr>col_name = [105, 100], col_type_oid = 23\<rparr>],
         rs_rows = [\<lparr>row_columns = [\<lparr>col_name = [105, 100], col_type_oid = 23\<rparr>], row_fields = [Some [52, 50]]\<rparr>]\<rparr>, t')
    \<and> tx t' = [0x51, 0, 0, 0, 6, 83, 0]"
proof -
  have "frontend_frame MSG_QUERY [83, 0] = [0x51, 0, 0, 0, 6, 83, 0]"
    by (simp add: frontend_frame_def to_be_bytes MSG_QUERY_def)
  then show ?thesis
    using query_returns_rows [OF in_two_pieces_accepting one_row_ok in_two_pieces_stream, of "[]" "[83]"]
      server_bytes_length [of plain_aux NoticeResponse _ "[]"]
    by (auto simp: result_set_def data_rows_def column_of_def id_column_def in_two_pieces_def)
qed



section \<open>Prepared statements against a conforming server\<close>

lemma write_messages_accepting:
  "h1_accepting t \<Longrightarrow> \<exists>t'. write_messages t ms = (Ok (), t')
    \<and> tx t' = tx t @ concat (map (\<lambda>(ty, payload). frontend_frame ty payload) ms) \<and> rx t' = rx t \<and> h1_accepting t'"
proof (induction ms arbitrary: t)
  case (Cons m ms)
  obtain ty payload where m: "m = (ty, payload)" by fastforce
  obtain t1 where t1: "write_frontend_message t ty payload = (Ok (), t1)" "tx t1 = tx t @ frontend_frame ty payload"
      "rx t1 = rx t" "h1_accepting t1"
    by (rule write_frontend_message_accepting [OF Cons.prems])
  then show ?case using Cons.IH [OF t1(4)] m by auto
qed simp

lemma prepare_loop_server:
  assumes "server_ok aux [ParseComplete, ParameterDescription oids, RowDescription cols, ReadyForQuery st]" and "st \<noteq> 0x45"
    and "stream_bytes (rx t) = server_bytes aux [ParseComplete, ParameterDescription oids, RowDescription cols, ReadyForQuery st] @ rest"
  shows "\<exists>t'. prepare_loop t name [] [] = (Ok \<lparr>ps_name = name, ps_param_types = oids, ps_columns = map column_of cols\<rparr>, t')
    \<and> reached t t' rest"
proof -
  have ok: "server_ok aux [ParameterDescription oids, RowDescription cols, ReadyForQuery st]"
    "server_ok aux [RowDescription cols, ReadyForQuery st]" "server_ok aux [ReadyForQuery st]"
    using assms(1) by (simp_all add: server_ok_def)
  obtain t1 where t1: "next_message t = (Ok ParseComplete, t1)"
      "stream_bytes (rx t1) = server_bytes aux [ParameterDescription oids, RowDescription cols, ReadyForQuery st] @ rest"
      "wr t1 = wr t" "tx t1 = tx t"
    by (rule next_message_server [OF assms(1,3)])
  obtain t2 where t2: "next_message t1 = (Ok (ParameterDescription oids), t2)"
      "stream_bytes (rx t2) = server_bytes aux [RowDescription cols, ReadyForQuery st] @ rest" "wr t2 = wr t1" "tx t2 = tx t1"
    by (rule next_message_server [OF ok(1) t1(2)])
  obtain t3 where t3: "next_message t2 = (Ok (RowDescription cols), t3)"
      "stream_bytes (rx t3) = server_bytes aux [ReadyForQuery st] @ rest" "wr t3 = wr t2" "tx t3 = tx t2"
    by (rule next_message_server [OF ok(2) t2(2)])
  obtain t4 where t4: "next_message t3 = (Ok (ReadyForQuery st), t4)"
      "stream_bytes (rx t4) = server_bytes aux [] @ rest" "wr t4 = wr t3" "tx t4 = tx t3"
    by (rule next_message_server [OF ok(3) t3(2)])
  show ?thesis
    using t1 t2 t3 t4 assms(2)
    by (simp add: prepare_loop.simps [of t] prepare_loop.simps [of t1] prepare_loop.simps [of t2]
        prepare_loop.simps [of t3] reached_def)
qed

definition frames :: "(byte \<times> bytes) list \<Rightarrow> bytes" where
  "frames ms = concat (map (\<lambda>(ty, payload). frontend_frame ty payload) ms)"

lemma prepare_server:
  assumes "h1_accepting t" and "st \<noteq> 0x45"
    and "server_ok aux [ParseComplete, ParameterDescription oids, RowDescription cols, ReadyForQuery st]"
    and "stream_bytes (rx t) = server_bytes aux [ParseComplete, ParameterDescription oids, RowDescription cols, ReadyForQuery st] @ rest"
  shows "\<exists>t'. prepare t sql = (Ok \<lparr>ps_name = [], ps_param_types = oids, ps_columns = map column_of cols\<rparr>, t')
    \<and> tx t' = tx t @ frames [(MSG_PARSE, encode_parse [] sql []), (MSG_DESCRIBE, [0x53, 0]), (MSG_SYNC, [])]
    \<and> stream_bytes (rx t') = rest \<and> h1_accepting t'"
proof -
  let ?ms = "[(MSG_PARSE, encode_parse [] sql []), (MSG_DESCRIBE, encode_describe 0x53 []), (MSG_SYNC, encode_sync)]"
  obtain t1 where t1: "write_messages t ?ms = (Ok (), t1)" "tx t1 = tx t @ frames ?ms" "rx t1 = rx t" "h1_accepting t1"
    using write_messages_accepting [OF assms(1), of ?ms] by (auto simp: frames_def)
  obtain t2 where "prepare_loop t1 [] [] [] = (Ok \<lparr>ps_name = [], ps_param_types = oids, ps_columns = map column_of cols\<rparr>, t2)"
      "reached t1 t2 rest"
    using prepare_loop_server [OF assms(3,2), of t1 rest "[]"] assms(4) t1(3) by auto
  then show ?thesis
    using t1 reached_accepting [of t1 t2 rest]
    by (auto simp: prepare_def prepare_named_def reached_def encode_describe_def encode_sync_def write_cstring_def)
qed

lemma execute_prepared_server:
  assumes "h1_accepting t" and "st \<noteq> 0x45" and "server_ok aux (ms @ [ReadyForQuery st])"
    and "list_all (\<lambda>m. is_data_row m \<or> skipped_by_prepared m) ms"
    and "stream_bytes (rx t) = server_bytes aux (ms @ [ReadyForQuery st]) @ rest"
  shows "\<exists>t'. execute_prepared t stmt params = (Ok \<lparr>rs_columns = ps_columns stmt, rs_rows = data_rows (ps_columns stmt) ms\<rparr>, t')
    \<and> tx t' = tx t @ frames [(MSG_BIND, encode_bind [] (ps_name stmt) (map param_to_text_bytes params)),
        (MSG_EXECUTE, [0, 0, 0, 0, 0]), (MSG_SYNC, [])]
    \<and> stream_bytes (rx t') = rest \<and> h1_accepting t'"
proof -
  let ?ms = "[(MSG_BIND, encode_bind [] (ps_name stmt) (map param_to_text_bytes params)), (MSG_EXECUTE, encode_execute [] 0),
     (MSG_SYNC, encode_sync)]"
  obtain t1 where t1: "write_messages t ?ms = (Ok (), t1)" "tx t1 = tx t @ frames ?ms" "rx t1 = rx t" "h1_accepting t1"
    using write_messages_accepting [OF assms(1), of ?ms] by (auto simp: frames_def)
  obtain t2 where "exec_prepared_loop t1 (ps_columns stmt) []
        = (Ok \<lparr>rs_columns = ps_columns stmt, rs_rows = data_rows (ps_columns stmt) ms\<rparr>, t2)" "reached t1 t2 rest"
    using prepared.collects [OF assms(3,4,2), of t1 rest "ps_columns stmt"] assms(5) t1(3) by auto
  then show ?thesis
    using t1 reached_accepting [of t1 t2 rest]
    by (auto simp: execute_prepared_def reached_def encode_execute_def encode_sync_def write_cstring_def to_be_bytes)
qed

text \<open>
  A prepared statement runs with the values it is given. \<open>prepare\<close> followed by
  \<open>execute_prepared\<close> on the unnamed statement sends exactly the six messages of the
  extended protocol; the fields a server reads from the bind message are the texts of the
  parameters, one for one, NULL included; and the result is the described columns with
  exactly the rows the server sends, after which the connection is ready for the next command.
\<close>

theorem prepared_statement_runs:
  assumes "h1_accepting t" and "st1 \<noteq> 0x45" and "st2 \<noteq> 0x45"
    and "server_ok aux [ParseComplete, ParameterDescription oids, RowDescription cols, ReadyForQuery st1]"
    and "server_ok aux (ms @ [ReadyForQuery st2])" and "list_all (\<lambda>m. is_data_row m \<or> skipped_by_prepared m) ms"
    and "stream_bytes (rx t) = server_bytes aux [ParseComplete, ParameterDescription oids, RowDescription cols, ReadyForQuery st1]
      @ server_bytes aux (ms @ [ReadyForQuery st2]) @ rest"
    and "length (encode_bind [] [] (map param_to_text_bytes params)) < 2 ^ 31"
  shows "\<exists>stmt t1 t2. prepare t sql = (Ok stmt, t1) \<and> ps_param_types stmt = oids
    \<and> execute_prepared t1 stmt params
        = (Ok \<lparr>rs_columns = map column_of cols, rs_rows = data_rows (map column_of cols) ms\<rparr>, t2)
    \<and> stream_bytes (rx t2) = rest
    \<and> tx t2 = tx t @ frames [(MSG_PARSE, encode_parse [] sql []), (MSG_DESCRIBE, [0x53, 0]), (MSG_SYNC, []),
        (MSG_BIND, encode_bind [] [] (map param_to_text_bytes params)), (MSG_EXECUTE, [0, 0, 0, 0, 0]), (MSG_SYNC, [])]
    \<and> decode_fields (encode_bind [] [] (map param_to_text_bytes params)) (length params) 6
        = Ok (map param_to_text_bytes params)"
proof -
  let ?stmt = "\<lparr>ps_name = [], ps_param_types = oids, ps_columns = map column_of cols\<rparr>"
  let ?ps = "map param_to_text_bytes params"
  obtain t1 where t1: "prepare t sql = (Ok ?stmt, t1)"
      "tx t1 = tx t @ frames [(MSG_PARSE, encode_parse [] sql []), (MSG_DESCRIBE, [0x53, 0]), (MSG_SYNC, [])]"
      "stream_bytes (rx t1) = server_bytes aux (ms @ [ReadyForQuery st2]) @ rest" "h1_accepting t1"
    using prepare_server [OF assms(1,2,4,7), of sql] by blast
  obtain t2 where t2: "execute_prepared t1 ?stmt params
        = (Ok \<lparr>rs_columns = map column_of cols, rs_rows = data_rows (map column_of cols) ms\<rparr>, t2)"
      "tx t2 = tx t1 @ frames [(MSG_BIND, encode_bind [] [] ?ps), (MSG_EXECUTE, [0, 0, 0, 0, 0]), (MSG_SYNC, [])]"
      "stream_bytes (rx t2) = rest"
    using execute_prepared_server [OF t1(4) assms(3,5,6) t1(3), of ?stmt params] by auto
  have short: "length d < 2 ^ 31" if "Some d \<in> set ?ps" for d
  proof -
    have "length d \<le> length (encode_field (Some d))" by (simp add: encode_field_def)
    also have "\<dots> \<le> length (concat (map encode_field ?ps))"
      using that by (simp only: length_concat map_map comp_def) (intro member_le_sum_list, auto)
    finally show ?thesis using assms(8) by (simp add: encode_bind_def)
  qed
  have "decode_fields (encode_bind [] [] ?ps) (length ?ps) 6 = Ok ?ps"
    using short assms(8)
    by (intro decode_fields_at [where rest = "to_be 2 (0 :: u16)"]) (auto simp: encode_bind_def write_cstring_def)
  then show ?thesis using t1 t2 by (auto simp: frames_def)
qed

theorem prepared_statement_runs_witness:
  "\<exists>stmt t1 t2. prepare (in_two_pieces (server_bytes plain_aux
        [ParseComplete, ParameterDescription [23], RowDescription [id_column], ReadyForQuery 0x49]
        @ server_bytes plain_aux ([BindComplete, DataRow [Some [52, 50]]] @ [ReadyForQuery 0x49]) @ [])) [83] = (Ok stmt, t1)
    \<and> execute_prepared t1 stmt [PInt4 (- 7), PNull]
        = (Ok \<lparr>rs_columns = [\<lparr>col_name = [105, 100], col_type_oid = 23\<rparr>],
         rs_rows = [\<lparr>row_columns = [\<lparr>col_name = [105, 100], col_type_oid = 23\<rparr>], row_fields = [Some [52, 50]]\<rparr>]\<rparr>, t2)
    \<and> decode_fields (encode_bind [] [] [Some [45, 55], None]) 2 6 = Ok [Some [45, 55], None]"
proof -
  have ok: "server_ok plain_aux [ParseComplete, ParameterDescription [23], RowDescription [id_column], ReadyForQuery 0x49]"
    "server_ok plain_aux ([BindComplete, DataRow [Some [52, 50]]] @ [ReadyForQuery 0x49])"
    by (simp_all add: server_ok_def plain_aux_def id_column_def wf_column_def cstring_ok_def
      utf8_valid_ascii pg_type_from_oid_def oid_defs encode_column_def write_cstring_def encode_field_def)
  have ps: "map param_to_text_bytes [PInt4 (- 7), PNull] = [Some [45, 55], None]"
    by (simp add: int_decimal_def decimal.simps ascii_def)
  have two: "length [PInt4 (- 7), PNull] = 2" by simp
  have "length (encode_bind [] [] [Some [45, 55], None]) < 2 ^ 31"
    by (simp add: encode_bind_def write_cstring_def encode_field_def)
  then show ?thesis
    using prepared_statement_runs [OF in_two_pieces_accepting _ _ ok _ in_two_pieces_stream, of "[]" "[PInt4 (- 7), PNull]" "[83]",
        unfolded ps two] server_bytes_length [of plain_aux ParseComplete]
    by (auto simp: data_rows_def column_of_def id_column_def)
qed

section \<open>Messages the decoder does not know\<close>

lemma next_message_unknown:
  assumes "stream_bytes (rx t) = frontend_frame ty payload @ rest" and "length payload + 4 < 2 ^ 31"
    and "decode_backend ty payload = Err e"
  obtains t' where "next_message t = (Err e, t')" "stream_bytes (rx t') = rest" "wr t' = wr t" "tx t' = tx t"
  using read_backend_message_stream [OF assms(1,2)] assms(3) by (auto simp: next_message_def)

text \<open>
  Closing a statement loses the next answer. A server acknowledges \<^verbatim>\<open>Close\<close> with a
  \<^verbatim>\<open>CloseComplete\<close> message (type \<open>3\<close>) and then reports readiness. The decoder does not
  know \<^verbatim>\<open>CloseComplete\<close>, so \<open>close_statement\<close> fails although the server did what it was asked,
  and the ready message stays unread: the next query takes it for its own answer, returns an
  empty result set without an error, and leaves the real answer to the query after it.
\<close>

theorem close_prepared_desynchronises:
  assumes "h1_accepting t" and "st \<noteq> 0x45" and "server_ok aux [ReadyForQuery st]"
    and "stream_bytes (rx t) = frontend_frame 0x33 [] @ server_bytes aux [ReadyForQuery st] @ answer"
  shows "\<exists>t1 t2. close_statement t name = (Err (protocol_error ''unexpected backend message type: 0x33''), t1)
    \<and> query t1 sql = (Ok \<lparr>rs_columns = [], rs_rows = []\<rparr>, t2) \<and> stream_bytes (rx t2) = answer"
proof -
  let ?ms = "[(MSG_CLOSE, encode_close 0x53 name), (MSG_SYNC, encode_sync)]"
  obtain t0 where t0: "write_messages t ?ms = (Ok (), t0)" "rx t0 = rx t" "h1_accepting t0"
    using write_messages_accepting [OF assms(1), of ?ms] by auto
  have dec: "decode_backend 0x33 [] = Err (protocol_error ''unexpected backend message type: 0x33'')"
    by (simp add: decode_backend_def backend_msg_defs hex2_def hex_upper_def ascii_def)
  obtain t1 where t1: "next_message t0 = (Err (protocol_error ''unexpected backend message type: 0x33''), t1)"
      "stream_bytes (rx t1) = server_bytes aux ([] @ [ReadyForQuery st]) @ answer" "wr t1 = wr t0" "tx t1 = tx t0"
    by (rule next_message_unknown [OF _ _ dec, of t0 "server_bytes aux ([] @ [ReadyForQuery st]) @ answer"])
      (use assms(4) t0(2) in auto)
  have acc: "h1_accepting t1" using t0(3) t1(3) by (simp add: h1_accepting_def)
  obtain t2 where t2: "write_frontend_message t1 MSG_QUERY (encode_query sql) = (Ok (), t2)" "rx t2 = rx t1" "h1_accepting t2"
    by (rule write_frontend_message_accepting [OF acc])
  obtain t3 where "query_loop t2 [] [] = (Ok \<lparr>rs_columns = [], rs_rows = []\<rparr>, t3)" "reached t2 t3 answer"
    using simple.collects [of aux "[]" st t2 answer "[]"] assms(2,3) t1(2) t2(2) by (auto simp: data_rows_def)
  then show ?thesis
    using t0 t1 t2 by (auto simp: close_statement_def close_loop.simps [of t0] query_def reached_def)
qed

theorem close_prepared_desynchronises_witness:
  "\<exists>t1 t2. close_statement (in_two_pieces (frontend_frame 0x33 [] @ server_bytes plain_aux [ReadyForQuery 0x49] @ [1, 2])) [115]
      = (Err (protocol_error ''unexpected backend message type: 0x33''), t1)
    \<and> query t1 [83] = (Ok \<lparr>rs_columns = [], rs_rows = []\<rparr>, t2) \<and> stream_bytes (rx t2) = [1, 2]"
  by (rule close_prepared_desynchronises [OF in_two_pieces_accepting _ _ in_two_pieces_stream])
    (simp_all add: server_ok_def plain_aux_def frontend_frame_def)

fun is_startup_message :: "backend_message \<Rightarrow> bool" where
  "is_startup_message AuthOk \<longleftrightarrow> True"
| "is_startup_message (ParameterStatus _ _) \<longleftrightarrow> True"
| "is_startup_message NoticeResponse \<longleftrightarrow> True"
| "is_startup_message _ \<longleftrightarrow> False"

lemma connect_loop_skips:
  assumes "server_ok aux ms" and "list_all is_startup_message ms" and "stream_bytes (rx t) = server_bytes aux ms @ rest"
  shows "\<exists>t' params'. reached t t' rest
    \<and> connect_loop c nonces user password t params = connect_loop c nonces user password t' params'"
  using assms
proof (induction ms arbitrary: t params)
  case Nil
  then show ?case by (auto simp: reached_def)
next
  case (Cons m ms)
  obtain t1 where t1: "next_message t = (Ok m, t1)"
      "stream_bytes (rx t1) = server_bytes aux ms @ rest" "wr t1 = wr t" "tx t1 = tx t"
    by (rule next_message_server [OF Cons.prems(1,3)])
  obtain ty payload where r: "read_backend_message t = (Ok (ty, payload), t1)" "decode_backend ty payload = Ok m"
    using t1(1) by (auto simp: next_message_def split: prod.splits outcome.splits)
  have plain: "\<not> (ty = MSG_AUTH \<and> is_sasl_auth payload)"
    using r(2) by (auto simp: decode_backend_def decode_auth_def is_sasl_auth_def sasl_defs Let_def split: if_splits)
  have step: "\<exists>params'. connect_loop c nonces user password t params = connect_loop c nonces user password t1 params'"
    using Cons.prems(2) r plain by (subst connect_loop.simps) (cases m; auto)
  have "server_ok aux ms" using Cons.prems(1) by (simp add: server_ok_def)
  then show ?case
    using Cons.IH [OF _ _ t1(2)] step Cons.prems(2) reached_step [OF _ t1(3,4)] by (metis list.pred_inject(2))
qed



end
