(* ===== verification/Sql_Query.thy ===== *)
theory Sql_Query
  imports Pg_Session
begin

text \<open>
  Building and running SQL (\<^verbatim>\<open>moduvex-db/src/query\<close>): parameters as SQL literals and their
  substitution into a query text (\<^verbatim>\<open>param.rs\<close>), the builder of SELECT statements
  (\<^verbatim>\<open>builder.rs\<close>), typed access to result rows (\<^verbatim>\<open>mod.rs\<close>) and the text codecs of
  \<^verbatim>\<open>pg_types.rs\<close>. Floating-point numbers are given by their printed text.
\<close>

section \<open>Parameters\<close>

definition hex_encode :: "bytes \<Rightarrow> bytes" where
  "hex_encode bs = hex_digest bs"

fun encode_text :: "param \<Rightarrow> bytes option" where
  "encode_text PNull = None"
| "encode_text (PBool b) = Some (if b then ascii ''t'' else ascii ''f'')"
| "encode_text (PInt4 n) = Some (int_decimal n)"
| "encode_text (PInt8 n) = Some (int_decimal n)"
| "encode_text (PFloat8 s) = Some s"
| "encode_text (PText s) = Some s"
| "encode_text (PBytes b) = Some (hex_encode b)"

text \<open>A quoted literal, with every quote doubled.\<close>

definition double_quotes :: "bytes \<Rightarrow> bytes" where
  "double_quotes s = concat (map (\<lambda>b. if b = 39 then [39, 39] else [b]) s)"

definition quoted :: "bytes \<Rightarrow> bytes" where
  "quoted s = [39] @ s @ [39]"

fun to_sql_literal :: "param \<Rightarrow> bytes" where
  "to_sql_literal PNull = ascii ''NULL''"
| "to_sql_literal (PBool b) = (if b then ascii ''TRUE'' else ascii ''FALSE'')"
| "to_sql_literal (PInt4 n) = int_decimal n"
| "to_sql_literal (PInt8 n) = int_decimal n"
| "to_sql_literal (PFloat8 s) = s"
| "to_sql_literal (PText s) = quoted (double_quotes s)"
| "to_sql_literal (PBytes b) = quoted (ascii [CHR 92, CHR ''x''] @ hex_encode b)"

text \<open>\<^verbatim>\<open>push(ch as char)\<close>: the code point of the byte, in UTF-8.\<close>

definition push_byte :: "byte \<Rightarrow> bytes" where
  "push_byte b = (if unat b < 128 then [b] else [of_nat (0xC0 + unat b div 64), of_nat (0x80 + unat b mod 64)])"

definition is_digit :: "byte \<Rightarrow> bool" where
  "is_digit b \<longleftrightarrow> 48 \<le> unat b \<and> unat b \<le> 57"

definition prepend :: "bytes \<Rightarrow> bytes db_result \<Rightarrow> bytes db_result" where
  "prepend xs r = (case r of Ok ys \<Rightarrow> Ok (xs @ ys) | Err e \<Rightarrow> Err e | Panic \<Rightarrow> Panic)"

text \<open>The loop of \<^verbatim>\<open>substitute_params\<close> from a position on, inside or outside a string literal.\<close>

function substitute_loop :: "param list \<Rightarrow> bool \<Rightarrow> bytes \<Rightarrow> bytes db_result" where
  "substitute_loop params in_string [] = Ok []"
| "substitute_loop params in_string (ch # rest) =
     (if ch = 39 then prepend (push_byte ch) (substitute_loop params (\<not> in_string) rest)
      else if \<not> in_string \<and> ch = 36 \<and> rest \<noteq> [] \<and> is_digit (hd rest) then
        (case parse_uint 10 (2 ^ 64) (map unat (takeWhile is_digit rest)) of
           None \<Rightarrow> Panic
         | Some idx \<Rightarrow>
             if idx = 0 \<or> length params < idx then
               Err (OtherError (ascii ''parameter $'' @ decimal idx @ ascii '' out of range (have ''
                 @ decimal (length params) @ ascii '' params)''))
             else prepend (to_sql_literal (params ! (idx - 1)))
                    (substitute_loop params in_string (dropWhile is_digit rest)))
      else prepend (push_byte ch) (substitute_loop params in_string rest))"
  by pat_completeness auto
termination
  by (relation "measure (\<lambda>(params, in_string, bs). length bs)") (auto simp: length_dropWhile_le less_Suc_eq_le)

definition substitute_params :: "bytes \<Rightarrow> param list \<Rightarrow> bytes db_result" where
  "substitute_params sql params = substitute_loop params False sql"

section \<open>The builder\<close>

datatype order = Asc | Desc

fun order_sql :: "order \<Rightarrow> bytes" where
  "order_sql Asc = ascii ''ASC''"
| "order_sql Desc = ascii ''DESC''"

definition ident_char :: "byte \<Rightarrow> bool" where
  "ident_char b \<longleftrightarrow> is_digit b \<or> 65 \<le> unat b \<and> unat b \<le> 90 \<or> 97 \<le> unat b \<and> unat b \<le> 122 \<or> b = 95 \<or> b = 46"

text \<open>The identifier check; \<open>InvalidIdent\<close> stands for the message that prints the identifier.\<close>

datatype ident_error = EmptyIdent | InvalidIdent bytes

definition validate_identifier :: "bytes \<Rightarrow> (unit, ident_error) outcome" where
  "validate_identifier ident =
     (if ident = [] then Err EmptyIdent
      else if list_all ident_char ident then Ok ()
      else Err (InvalidIdent ident))"

record query_builder =
  qb_table :: bytes
  qb_columns :: "bytes list"
  qb_conditions :: "(bytes \<times> param) list"
  qb_order :: "(bytes \<times> order) option"
  qb_limit :: "nat option"
  qb_offset :: "nat option"

type_synonym qb_result = "(query_builder, ident_error) outcome"

definition qb_select :: "bytes \<Rightarrow> qb_result" where
  "qb_select table =
     (case validate_identifier table of
        Ok _ \<Rightarrow> Ok \<lparr>qb_table = table, qb_columns = [], qb_conditions = [], qb_order = None, qb_limit = None, qb_offset = None\<rparr>
      | Err e \<Rightarrow> Err e
      | Panic \<Rightarrow> Panic)"

fun validate_all :: "bytes list \<Rightarrow> (unit, ident_error) outcome" where
  "validate_all [] = Ok ()"
| "validate_all (c # cs) = (case validate_identifier c of Ok _ \<Rightarrow> validate_all cs | Err e \<Rightarrow> Err e | Panic \<Rightarrow> Panic)"

definition qb_set_columns :: "query_builder \<Rightarrow> bytes list \<Rightarrow> qb_result" where
  "qb_set_columns qb cols =
     (case validate_all cols of Ok _ \<Rightarrow> Ok (qb\<lparr>qb_columns := cols\<rparr>) | Err e \<Rightarrow> Err e | Panic \<Rightarrow> Panic)"

definition qb_where_eq :: "query_builder \<Rightarrow> bytes \<Rightarrow> param \<Rightarrow> qb_result" where
  "qb_where_eq qb col val =
     (case validate_identifier col of
        Ok _ \<Rightarrow> Ok (qb\<lparr>qb_conditions := qb_conditions qb @ [(col, val)]\<rparr>)
      | Err e \<Rightarrow> Err e
      | Panic \<Rightarrow> Panic)"

definition qb_order_by :: "query_builder \<Rightarrow> bytes \<Rightarrow> order \<Rightarrow> qb_result" where
  "qb_order_by qb col ord =
     (case validate_identifier col of
        Ok _ \<Rightarrow> Ok (qb\<lparr>qb_order := Some (col, ord)\<rparr>)
      | Err e \<Rightarrow> Err e
      | Panic \<Rightarrow> Panic)"

definition qb_set_limit :: "query_builder \<Rightarrow> nat \<Rightarrow> query_builder" where
  "qb_set_limit qb n = qb\<lparr>qb_limit := Some n\<rparr>"

definition qb_set_offset :: "query_builder \<Rightarrow> nat \<Rightarrow> query_builder" where
  "qb_set_offset qb n = qb\<lparr>qb_offset := Some n\<rparr>"

fun join :: "bytes \<Rightarrow> bytes list \<Rightarrow> bytes" where
  "join sep [] = []"
| "join sep [x] = x"
| "join sep (x # xs) = x @ sep @ join sep xs"

definition where_part :: "nat \<Rightarrow> bytes \<times> param \<Rightarrow> bytes" where
  "where_part i c = fst c @ ascii '' = $'' @ decimal (i + 1)"

definition build_head :: "query_builder \<Rightarrow> bytes" where
  "build_head qb = ascii ''SELECT '' @ (if qb_columns qb = [] then ascii ''*'' else join (ascii '', '') (qb_columns qb))
     @ ascii '' FROM '' @ qb_table qb"

definition build_tail :: "query_builder \<Rightarrow> bytes" where
  "build_tail qb =
     (case qb_order qb of None \<Rightarrow> [] | Some (col, ord) \<Rightarrow> ascii '' ORDER BY '' @ col @ ascii '' '' @ order_sql ord)
     @ (case qb_limit qb of None \<Rightarrow> [] | Some n \<Rightarrow> ascii '' LIMIT '' @ decimal n)
     @ (case qb_offset qb of None \<Rightarrow> [] | Some n \<Rightarrow> ascii '' OFFSET '' @ decimal n)"

definition build :: "query_builder \<Rightarrow> bytes \<times> param list" where
  "build qb =
     (build_head qb
      @ (if qb_conditions qb = [] then []
         else ascii '' WHERE '' @ join (ascii '' AND '')
                (map (\<lambda>(i, c). where_part i c) (List.enumerate 0 (qb_conditions qb))))
      @ build_tail qb,
      map snd (qb_conditions qb))"

definition build_inlined :: "query_builder \<Rightarrow> bytes db_result" where
  "build_inlined qb = (let (sql, params) = build qb in substitute_params sql params)"

section \<open>No injection through the builder\<close>

text \<open>The builders a program can obtain.\<close>

inductive built :: "query_builder \<Rightarrow> bool" where
  "qb_select table = Ok qb \<Longrightarrow> built qb"
| "built qb \<Longrightarrow> qb_set_columns qb cols = Ok qb' \<Longrightarrow> built qb'"
| "built qb \<Longrightarrow> qb_where_eq qb col val = Ok qb' \<Longrightarrow> built qb'"
| "built qb \<Longrightarrow> qb_order_by qb col ord = Ok qb' \<Longrightarrow> built qb'"
| "built qb \<Longrightarrow> built (qb_set_limit qb n)"
| "built qb \<Longrightarrow> built (qb_set_offset qb n)"

definition qb_valid :: "query_builder \<Rightarrow> bool" where
  "qb_valid qb \<longleftrightarrow> list_all ident_char (qb_table qb) \<and> list_all (list_all ident_char) (qb_columns qb)
     \<and> list_all (\<lambda>c. list_all ident_char (fst c)) (qb_conditions qb)
     \<and> (case qb_order qb of None \<Rightarrow> True | Some (col, _) \<Rightarrow> list_all ident_char col)"

lemma validate_identifier_Ok: "validate_identifier ident = Ok u \<longleftrightarrow> ident \<noteq> [] \<and> list_all ident_char ident"
  by (simp add: validate_identifier_def)

lemma validate_all_Ok: "validate_all cs = Ok u \<longleftrightarrow> list_all (\<lambda>c. c \<noteq> [] \<and> list_all ident_char c) cs"
  by (induction cs) (auto simp: validate_identifier_def)

lemma built_valid: "built qb \<Longrightarrow> qb_valid qb"
proof (induction rule: built.induct)
  case (1 table qb)
  then show ?case
    by (auto simp: qb_select_def qb_valid_def validate_identifier_Ok split: outcome.splits)
next
  case (2 qb cols qb')
  then show ?case
    by (auto simp: qb_set_columns_def qb_valid_def validate_all_Ok list_all_iff split: outcome.splits option.splits)
qed (auto simp: qb_where_eq_def qb_order_by_def qb_set_limit_def qb_set_offset_def qb_valid_def validate_identifier_Ok
    split: outcome.splits)

text \<open>
  How the server reads a query text: a string literal runs from a quote to the next quote that
  is not doubled, everything else is read byte by byte.
\<close>

datatype sql_token = Plain byte | Str bytes

fun lex_string :: "bytes \<Rightarrow> (bytes \<times> bytes) option" where
  "lex_string [] = None"
| "lex_string (b # bs) =
     (if b = 39 then
        (case bs of
           c # cs \<Rightarrow> if c = 39 then map_option (apfst ((#) 39)) (lex_string cs) else Some ([], bs)
         | [] \<Rightarrow> Some ([], bs))
      else map_option (apfst ((#) b)) (lex_string bs))"

lemma lex_string_shrinks: "lex_string bs = Some (s, rest) \<Longrightarrow> length rest < length bs"
proof (induction "length bs" arbitrary: bs s rest rule: less_induct)
  case less
  show ?case
  proof (cases bs)
    case (Cons b bs')
    then show ?thesis
      using less.prems less.hyps [of bs'] less.hyps [of "tl bs'"]
      by (cases bs') (auto split: if_splits intro: less_SucI)
  qed (use less.prems in simp)
qed

function sql_lex :: "bytes \<Rightarrow> sql_token list option" where
  "sql_lex [] = Some []"
| "sql_lex (b # bs) =
     (if b = 39 then
        (case lex_string bs of
           None \<Rightarrow> None
         | Some (s, rest) \<Rightarrow> map_option ((#) (Str s)) (sql_lex rest))
      else map_option ((#) (Plain b)) (sql_lex bs))"
  by pat_completeness auto
termination
  by (relation "measure length") (auto dest: lex_string_shrinks)

fun value_tokens :: "param \<Rightarrow> sql_token list" where
  "value_tokens (PText s) = [Str s]"
| "value_tokens (PBytes b) = [Str (ascii [CHR 92, CHR ''x''] @ hex_encode b)]"
| "value_tokens p = map Plain (to_sql_literal p)"

fun where_tokens :: "(bytes \<times> param) list \<Rightarrow> sql_token list" where
  "where_tokens [] = []"
| "where_tokens [c] = map Plain (fst c @ ascii '' = '') @ value_tokens (snd c)"
| "where_tokens (c # cs) = map Plain (fst c @ ascii '' = '') @ value_tokens (snd c) @ map Plain (ascii '' AND '') @ where_tokens cs"

text \<open>The text of a number of type \<^verbatim>\<open>f64\<close>: digits, letters, signs and a point.\<close>

fun param_ok :: "param \<Rightarrow> bool" where
  "param_ok (PFloat8 s) \<longleftrightarrow> list_all (\<lambda>b. ident_char b \<or> b = 43 \<or> b = 45) s"
| "param_ok _ \<longleftrightarrow> True"

definition plain :: "bytes \<Rightarrow> bool" where
  "plain bs \<longleftrightarrow> list_all (\<lambda>b. b \<noteq> 39 \<and> b \<noteq> 36 \<and> unat b < 128) bs"

lemma prepend_simps [simp]: "prepend [] r = r" "prepend xs (prepend ys r) = prepend (xs @ ys) r"
  by (simp_all add: prepend_def split: outcome.split)

lemma plain_simps [simp]: "plain []" "plain (xs @ ys) \<longleftrightarrow> plain xs \<and> plain ys"
  by (simp_all add: plain_def)

lemma plain_ident: "list_all ident_char bs \<Longrightarrow> plain bs"
  by (auto simp: plain_def list_all_iff ident_char_def is_digit_def)

lemma plain_decimal [simp]: "plain (decimal n)"
  by (fastforce simp: plain_def list_all_iff dest: decimal_digits)

lemma substitute_plain:
  "plain bs \<Longrightarrow> substitute_loop params False (bs @ rest) = prepend bs (substitute_loop params False rest)"
  by (induction bs) (simp_all add: plain_def push_byte_def)

lemma substitute_placeholder:
  assumes "0 < idx" and "idx \<le> length params" and "length params < 2 ^ 64" and "rest = [] \<or> \<not> is_digit (hd rest)"
  shows "substitute_loop params False (36 # decimal idx @ rest)
    = prepend (to_sql_literal (params ! (idx - 1))) (substitute_loop params False rest)"
proof -
  have dig: "\<forall>b \<in> set (decimal idx). is_digit b" by (auto simp: is_digit_def dest: decimal_digits)
  have "takeWhile is_digit (decimal idx @ rest) = decimal idx" "dropWhile is_digit (decimal idx @ rest) = rest"
    using dig assms(4) by (cases rest; auto simp: takeWhile_append2 dropWhile_append2)+
  moreover have "is_digit (hd (decimal idx @ rest))" using dig by (cases "decimal idx") auto
  moreover have "parse_uint 10 (2 ^ 64) (map unat (decimal idx)) = Some idx"
    using assms by (intro parse_uint_decimal) simp
  ultimately show ?thesis using assms by simp
qed

definition inlined_part :: "bytes \<times> param \<Rightarrow> bytes" where
  "inlined_part c = fst c @ ascii '' = '' @ to_sql_literal (snd c)"

lemma plain_ascii_sql [simp]:
  "plain (ascii '' = '')" "plain (ascii '' AND '')" "plain (ascii '' WHERE '')" "plain (ascii ''SELECT '')"
  "plain (ascii '' FROM '')" "plain (ascii ''*'')" "plain (ascii '', '')" "plain (ascii '' ORDER BY '')"
  "plain (ascii '' '')" "plain (ascii '' LIMIT '')" "plain (ascii '' OFFSET '')"
  "plain (ascii ''ASC'')" "plain (ascii ''DESC'')"
  by (simp_all add: plain_def ascii_def)

lemma where_part_split: "where_part i c = (fst c @ ascii '' = '') @ 36 # decimal (i + 1)"
  by (simp add: where_part_def ascii_def)

lemma substitute_where_part:
  assumes "list_all ident_char (fst c)" and "i < length params" and "params ! i = snd c"
    and "length params < 2 ^ 64" and "rest = [] \<or> \<not> is_digit (hd rest)"
  shows "substitute_loop params False (where_part i c @ rest) = prepend (inlined_part c) (substitute_loop params False rest)"
proof -
  have "substitute_loop params False (where_part i c @ rest)
      = prepend (fst c @ ascii '' = '') (substitute_loop params False (36 # decimal (i + 1) @ rest))"
    unfolding where_part_split append_assoc append_Cons
    using substitute_plain [of "fst c @ ascii '' = ''" params] plain_ident [OF assms(1)] by simp
  also have "\<dots> = prepend (inlined_part c) (substitute_loop params False rest)"
    using substitute_placeholder [of "i + 1" params rest] assms(2-5) by (simp add: inlined_part_def)
  finally show ?thesis .
qed

lemma substitute_where:
  assumes "list_all (\<lambda>c. list_all ident_char (fst c)) conds" and "drop i params = map snd conds"
    and "length params < 2 ^ 64" and "rest = [] \<or> \<not> is_digit (hd rest)" and "conds \<noteq> []"
  shows "substitute_loop params False
      (join (ascii '' AND '') (map (\<lambda>(i, c). where_part i c) (List.enumerate i conds)) @ rest)
    = prepend (join (ascii '' AND '') (map inlined_part conds)) (substitute_loop params False rest)"
  using assms(1,2,5)
proof (induction conds arbitrary: i)
  case (Cons c conds)
  have i: "i < length params" "params ! i = snd c"
    using Cons.prems(2) by (auto simp: nth_via_drop intro: ccontr)
  have step: "substitute_loop params False (where_part i c @ more_text)
      = prepend (inlined_part c) (substitute_loop params False more_text)"
    if "more_text = [] \<or> \<not> is_digit (hd more_text)" for more_text
    using substitute_where_part [OF _ i assms(3) that] Cons.prems(1) by simp
  show ?case
  proof (cases conds)
    case Nil
    then show ?thesis using step [OF assms(4)] by simp
  next
    case more_conds: (Cons d ds)
    have "drop (Suc i) params = map snd conds"
      using Cons.prems(2) by (metis drop_Suc list.map(2) list.sel(3) tl_drop)
    then have ih: "substitute_loop params False
        (join (ascii '' AND '') (map (\<lambda>(i, c). where_part i c) (List.enumerate (Suc i) conds)) @ rest)
      = prepend (join (ascii '' AND '') (map inlined_part conds)) (substitute_loop params False rest)"
      using Cons.IH Cons.prems(1) more_conds by simp
    let ?text = "ascii '' AND '' @ join (ascii '' AND '') (map (\<lambda>(i, c). where_part i c) (List.enumerate (Suc i) conds)) @ rest"
    have "\<not> is_digit (hd ?text)" by (simp add: ascii_def is_digit_def)
    from step [OF disjI2, OF this] show ?thesis
      using ih substitute_plain [of "ascii '' AND ''" params] more_conds by simp
  qed
qed simp

definition with_tokens :: "sql_token list \<Rightarrow> sql_token list option \<Rightarrow> sql_token list option" where
  "with_tokens ts r = map_option ((@) ts) r"

lemma with_tokens_simps [simp]:
  "with_tokens [] r = r" "with_tokens ts (with_tokens us r) = with_tokens (ts @ us) r"
  "with_tokens ts (Some us) = Some (ts @ us)"
  by (cases r; simp add: with_tokens_def)+

lemma one_token: "map_option ((#) t) r = with_tokens [t] r"
  by (cases r) (simp_all add: with_tokens_def)

lemma lex_plain:
  "39 \<notin> set bs \<Longrightarrow> sql_lex (bs @ rest) = with_tokens (map Plain bs) (sql_lex rest)"
  by (induction bs) (auto simp: one_token)

lemma lex_string_double:
  "rest = [] \<or> hd rest \<noteq> 39 \<Longrightarrow> lex_string (double_quotes s @ 39 # rest) = Some (s, rest)"
  by (induction s) (auto simp: double_quotes_def split: list.splits)

lemma lex_quoted:
  "rest = [] \<or> hd rest \<noteq> 39 \<Longrightarrow> sql_lex (quoted (double_quotes s) @ rest) = with_tokens [Str s] (sql_lex rest)"
  using lex_string_double [of rest s] by (simp add: quoted_def one_token)

lemma plain_no_quote: "plain bs \<Longrightarrow> 39 \<notin> set bs"
  by (auto simp: plain_def list_all_iff)

lemma double_quotes_id: "39 \<notin> set bs \<Longrightarrow> double_quotes bs = bs"
  by (induction bs) (auto simp: double_quotes_def)

lemma hex_digest_no_quote: "39 \<notin> set (hex_digest bs)"
  using hex_digest_chars [of 39 bs] by auto

lemma literal_no_quote:
  "param_ok v \<Longrightarrow> (\<And>s. v \<noteq> PText s) \<Longrightarrow> (\<And>b. v \<noteq> PBytes b) \<Longrightarrow> 39 \<notin> set (to_sql_literal v)"
  using plain_no_quote [OF plain_decimal]
  by (cases v) (auto simp: ascii_def int_decimal_def list_all_iff ident_char_def is_digit_def)

lemma lex_literal:
  assumes "param_ok v" and "rest = [] \<or> hd rest \<noteq> 39"
  shows "sql_lex (to_sql_literal v @ rest) = with_tokens (value_tokens v) (sql_lex rest)"
proof (cases v)
  case (PText s)
  then show ?thesis using lex_quoted [OF assms(2)] by simp
next
  case (PBytes b)
  let ?s = "ascii [CHR 92, CHR ''x''] @ hex_encode b"
  have "double_quotes ?s = ?s"
    by (rule double_quotes_id) (simp add: ascii_def hex_encode_def hex_digest_no_quote)
  then show ?thesis using lex_quoted [OF assms(2), of ?s] PBytes by simp
qed (use lex_plain literal_no_quote [OF assms(1)] in auto)

lemma lex_where:
  assumes "list_all (\<lambda>c. list_all ident_char (fst c) \<and> param_ok (snd c)) conds" and "rest = [] \<or> hd rest \<noteq> 39"
  shows "sql_lex (join (ascii '' AND '') (map inlined_part conds) @ rest) = with_tokens (where_tokens conds) (sql_lex rest)"
  using assms(1)
proof (induction conds rule: where_tokens.induct)
  case 1
  then show ?case by simp
next
  case (2 c)
  then have "39 \<notin> set (fst c @ ascii '' = '')" using plain_no_quote [of "fst c @ ascii '' = ''"] plain_ident by simp
  from lex_plain [OF this] show ?case
    using 2 lex_literal [of "snd c" rest] assms(2) by (simp add: inlined_part_def [of c])
next
  case (3 c d ds)
  then have "39 \<notin> set (fst c @ ascii '' = '')" using plain_no_quote [of "fst c @ ascii '' = ''"] plain_ident by simp
  note l1 = lex_plain [OF this]
  have "39 \<notin> set (ascii '' AND '')" by (simp add: ascii_def)
  note l2 = lex_plain [OF this]
  let ?text = "ascii '' AND '' @ join (ascii '' AND '') (map inlined_part (d # ds)) @ rest"
  have "hd ?text \<noteq> 39" by (simp add: ascii_def)
  with lex_literal [of "snd c" ?text] 3 show ?case
    using l1 l2 by (simp add: inlined_part_def [of c])
qed

lemma plain_join: "plain sep \<Longrightarrow> list_all plain xs \<Longrightarrow> plain (join sep xs)"
  by (induction sep xs rule: join.induct) auto

lemma plain_head_tail:
  assumes "qb_valid qb"
  shows "plain (build_head qb)" and "plain (build_tail qb)"
    and "build_tail qb = [] \<or> hd (build_tail qb) = 32"
proof -
  have "list_all plain (qb_columns qb)" using assms plain_ident by (auto simp: qb_valid_def list_all_iff)
  then show "plain (build_head qb)"
    using assms plain_ident plain_join [of "ascii '', ''"] by (simp add: build_head_def qb_valid_def)
  have "plain (order_sql ord)" for ord by (cases ord) simp_all
  then show "plain (build_tail qb)"
    using assms plain_ident by (auto simp: build_tail_def qb_valid_def split: option.splits)
  show "build_tail qb = [] \<or> hd (build_tail qb) = 32"
    by (auto simp: build_tail_def ascii_def split: option.splits)
qed

text \<open>
  C10: No value can break out of its literal. Whatever the values bound by \<open>where_eq\<close> are, quotes,
  dollar signs and arbitrary bytes included, inlining a built query succeeds, and a server that
  reads string literals with doubled quotes reads exactly the query that was built: its
  text with each placeholder replaced by one literal whose content is the bound value.
\<close>

theorem inlined_values_stay_literals:
  assumes "built qb" and "list_all (\<lambda>c. param_ok (snd c)) (qb_conditions qb)" and "length (qb_conditions qb) < 2 ^ 64"
  shows "\<exists>sql. build_inlined qb = Ok sql
    \<and> sql_lex sql = Some (map Plain (build_head qb)
        @ (if qb_conditions qb = [] then [] else map Plain (ascii '' WHERE '') @ where_tokens (qb_conditions qb))
        @ map Plain (build_tail qb))"
proof -
  have valid: "qb_valid qb" by (rule built_valid [OF assms(1)])
  note plains = plain_head_tail [OF valid]
  let ?conds = "qb_conditions qb" and ?params = "map snd (qb_conditions qb)"
  have tail: "substitute_loop ?params False (build_tail qb) = Ok (build_tail qb)"
    using substitute_plain [OF plains(2), of ?params "[]"] by (simp add: prepend_def)
  have lex_tail: "sql_lex (build_tail qb) = Some (map Plain (build_tail qb))"
    using lex_plain [OF plain_no_quote [OF plains(2)], of "[]"] by simp
  have no_quote: "build_tail qb = [] \<or> hd (build_tail qb) \<noteq> 39" using plains(3) by auto
  show ?thesis
  proof (cases "?conds = []")
    case True
    then show ?thesis
      using substitute_plain [OF plains(1), of "[]" "build_tail qb"] tail lex_tail
        lex_plain [OF plain_no_quote [OF plains(1)], of "build_tail qb"]
      by (simp add: build_inlined_def build_def substitute_params_def prepend_def)
  next
    case False
    let ?w = "join (ascii '' AND '') (map (\<lambda>(i, c). where_part i c) (List.enumerate 0 ?conds))"
    let ?v = "join (ascii '' AND '') (map inlined_part ?conds)"
    have "substitute_loop ?params False (?w @ build_tail qb) = prepend ?v (Ok (build_tail qb))"
      using substitute_where [of ?conds 0 ?params "build_tail qb"] valid False assms(3) plains(3) tail
      by (auto simp: qb_valid_def is_digit_def)
    then have "build_inlined qb = Ok ((build_head qb @ ascii '' WHERE '') @ ?v @ build_tail qb)"
      using substitute_plain [of "build_head qb @ ascii '' WHERE ''" ?params] plains(1) False
      by (simp add: build_inlined_def build_def substitute_params_def prepend_def)
    moreover have "sql_lex (?v @ build_tail qb) = Some (where_tokens ?conds @ map Plain (build_tail qb))"
      using lex_where [of ?conds "build_tail qb"] no_quote lex_tail valid assms(2)
      by (auto simp: qb_valid_def list_all_iff)
    moreover have "39 \<notin> set (build_head qb @ ascii '' WHERE '')"
      using plains(1) by (intro plain_no_quote) simp
    ultimately show ?thesis
      using lex_plain [of "build_head qb @ ascii '' WHERE ''" "?v @ build_tail qb"] False by simp
  qed
qed

theorem inlined_values_stay_literals_witness:
  "\<exists>qb sql. qb_where_eq \<lparr>qb_table = [116], qb_columns = [], qb_conditions = [], qb_order = None, qb_limit = Some 5, qb_offset = None\<rparr>
        [97] (PText [39, 59, 36, 49]) = Ok qb
    \<and> build_inlined qb = Ok sql
    \<and> sql_lex sql = Some (map Plain (ascii ''SELECT * FROM t WHERE a = '') @ [Str [39, 59, 36, 49]] @ map Plain (ascii '' LIMIT 5''))"
proof -
  let ?q0 = "\<lparr>qb_table = [116], qb_columns = [], qb_conditions = [], qb_order = None, qb_limit = Some 5, qb_offset = None\<rparr>"
  let ?qb = "?q0\<lparr>qb_conditions := [([97], PText [39, 59, 36, 49])]\<rparr>"
  have "qb_select [116] = Ok (?q0\<lparr>qb_limit := None\<rparr>)"
    by (simp add: qb_select_def validate_identifier_def ident_char_def)
  from built.intros(5) [OF built.intros(1) [OF this], of 5] have "built ?q0" by (simp add: qb_set_limit_def)
  moreover have w: "qb_where_eq ?q0 [97] (PText [39, 59, 36, 49]) = Ok ?qb"
    by (simp add: qb_where_eq_def validate_identifier_def ident_char_def)
  ultimately have "built ?qb" by (rule built.intros(3))
  from inlined_values_stay_literals [OF this] show ?thesis
    using w by (simp add: build_head_def build_tail_def ascii_def decimal.simps)
qed

text \<open>
  A query text that is not ASCII is corrupted. \<^verbatim>\<open>substitute_params\<close> copies the text byte by byte
  as characters, so each byte of a multi-byte character becomes a character of its own: the
  text changes exactly when it has a byte above 127, even with nothing to substitute.
\<close>

theorem non_ascii_text_is_garbled:
  assumes "36 \<notin> set sql"
  shows "\<exists>out. substitute_params sql [] = Ok out \<and> (out = sql \<longleftrightarrow> list_all (\<lambda>b. unat b < 128) sql)"
proof -
  have "substitute_loop [] in_string sql = Ok (concat (map push_byte sql))" for in_string
    using assms by (induction sql arbitrary: in_string) (auto simp: prepend_def)
  moreover have "concat (map push_byte sql) = sql \<longleftrightarrow> list_all (\<lambda>b. unat b < 128) sql"
  proof
    assume eq: "concat (map push_byte sql) = sql"
    have le: "length bs \<le> length (concat (map push_byte bs))" for bs
      by (induction bs) (auto simp: push_byte_def)
    have "length bs < length (concat (map push_byte bs))" if "\<not> list_all (\<lambda>b. unat b < 128) bs" for bs
      using that le by (induction bs) (auto simp: push_byte_def less_Suc_eq_le)
    with eq show "list_all (\<lambda>b. unat b < 128) sql" by (metis less_irrefl)
  next
    assume "list_all (\<lambda>b. unat b < 128) sql"
    then show "concat (map push_byte sql) = sql" by (induction sql) (auto simp: push_byte_def)
  qed
  ultimately show ?thesis by (simp add: substitute_params_def)
qed

theorem non_ascii_text_is_garbled_witness:
  "\<exists>out. substitute_params [39, 0xC3, 0xA9, 39] [] = Ok out \<and> out \<noteq> [39, 0xC3, 0xA9, 39]"
  using non_ascii_text_is_garbled [of "[39, 0xC3, 0xA9, 39]"] by auto

section \<open>Rows\<close>

record column =
  column_name :: bytes
  column_type :: pg_type

record row =
  r_columns :: "column list"
  r_fields :: fields

record row_set =
  set_columns :: "column list"
  set_rows :: "row list"

definition column_from :: "pg_column \<Rightarrow> column" where
  "column_from c = \<lparr>column_name = col_name c, column_type = pg_type_from_oid (col_type_oid c)\<rparr>"

definition row_from :: "pg_row \<Rightarrow> row" where
  "row_from r = \<lparr>r_columns = map column_from (row_columns r), r_fields = row_fields r\<rparr>"

definition row_set_from :: "pg_row_set \<Rightarrow> row_set" where
  "row_set_from rs = \<lparr>set_columns = map column_from (rs_columns rs), set_rows = map row_from (rs_rows rs)\<rparr>"

definition column_index :: "row \<Rightarrow> bytes \<Rightarrow> nat db_result" where
  "column_index r col =
     (case position (\<lambda>c. column_name c = col) (r_columns r) of
        Some idx \<Rightarrow> Ok idx
      | None \<Rightarrow> Err (OtherError (ascii (''column '' @ [CHR 39]) @ col @ ascii ([CHR 39] @ '' not found in result set''))))"

text \<open>\<^verbatim>\<open>self.fields[idx]\<close>, which panics out of range.\<close>

definition field_at :: "row \<Rightarrow> nat \<Rightarrow> bytes option db_result" where
  "field_at r idx = (if idx < length (r_fields r) then Ok (r_fields r ! idx) else Panic)"

definition row_get_opt :: "(bytes \<Rightarrow> 'a db_result) \<Rightarrow> row \<Rightarrow> bytes \<Rightarrow> 'a option db_result" where
  "row_get_opt from_bytes r col =
     (case column_index r col of
        Err e \<Rightarrow> Err e
      | Panic \<Rightarrow> Panic
      | Ok idx \<Rightarrow>
          (case field_at r idx of
             Err e \<Rightarrow> Err e
           | Panic \<Rightarrow> Panic
           | Ok None \<Rightarrow> Ok None
           | Ok (Some bs) \<Rightarrow> (case from_bytes bs of Ok v \<Rightarrow> Ok (Some v) | Err e \<Rightarrow> Err e | Panic \<Rightarrow> Panic)))"

definition row_get :: "(bytes \<Rightarrow> 'a db_result) \<Rightarrow> row \<Rightarrow> bytes \<Rightarrow> 'a db_result" where
  "row_get from_bytes r col =
     (case column_index r col of
        Err e \<Rightarrow> Err e
      | Panic \<Rightarrow> Panic
      | Ok idx \<Rightarrow>
          (case field_at r idx of
             Err e \<Rightarrow> Err e
           | Panic \<Rightarrow> Panic
           | Ok None \<Rightarrow> Err (NullValue col)
           | Ok (Some bs) \<Rightarrow> from_bytes bs))"

definition row_get_by_index :: "(bytes \<Rightarrow> 'a db_result) \<Rightarrow> row \<Rightarrow> nat \<Rightarrow> 'a db_result" where
  "row_get_by_index from_bytes r idx =
     (if length (r_fields r) \<le> idx then
        Err (OtherError (ascii ''column index '' @ decimal idx @ ascii '' out of range''))
      else case r_fields r ! idx of
             None \<Rightarrow> Err (NullValue (if idx < length (r_columns r) then column_name (r_columns r ! idx) else decimal idx))
           | Some bs \<Rightarrow> from_bytes bs)"

definition row_raw :: "row \<Rightarrow> bytes \<Rightarrow> bytes option db_result" where
  "row_raw r col =
     (case column_index r col of
        Err e \<Rightarrow> Err e
      | Panic \<Rightarrow> Panic
      | Ok idx \<Rightarrow> field_at r idx)"

definition decode_int :: "nat \<Rightarrow> string \<Rightarrow> bytes \<Rightarrow> int db_result" where
  "decode_int bits what bs =
     (case utf8_decode bs of
        None \<Rightarrow> Err (TypeMismatch (ascii (''non-UTF-8 '' @ what @ '' value'')))
      | Some cs \<Rightarrow>
          (case parse_int bits (trim cs) of
             Some i \<Rightarrow> Ok i
           | None \<Rightarrow> Err (TypeMismatchValue (''cannot parse '' @ what) bs)))"

definition decode_i32 :: "bytes \<Rightarrow> int db_result" where
  "decode_i32 bs = decode_int 32 ''int4'' bs"

definition decode_i64 :: "bytes \<Rightarrow> int db_result" where
  "decode_i64 bs = decode_int 64 ''int8'' bs"

definition decode_bool :: "bytes \<Rightarrow> bool db_result" where
  "decode_bool bs =
     (if bs \<in> {ascii ''t'', ascii ''true'', ascii ''TRUE'', ascii ''yes'', ascii ''on'', ascii ''1''} then Ok True
      else if bs \<in> {ascii ''f'', ascii ''false'', ascii ''FALSE'', ascii ''no'', ascii ''off'', ascii ''0''} then Ok False
      else Err (TypeMismatchValue ''cannot parse bool'' bs))"

definition decode_text :: "bytes \<Rightarrow> bytes db_result" where
  "decode_text bs = (if utf8_valid bs then Ok bs else Err (TypeMismatch (ascii ''non-UTF-8 text value'')))"

definition encode_i32 :: "int \<Rightarrow> bytes" where
  "encode_i32 v = int_decimal v"

definition encode_i64 :: "int \<Rightarrow> bytes" where
  "encode_i64 v = int_decimal v"

definition encode_bool :: "bool \<Rightarrow> bytes" where
  "encode_bool v = (if v then ascii ''t'' else ascii ''f'')"

definition execute_on :: "query_builder \<Rightarrow> transport \<Rightarrow> row_set db_result \<times> transport" where
  "execute_on qb t =
     (let (sql, params) = build qb
      in case prepare t sql of
           (Err e, t1) \<Rightarrow> (Err e, t1)
         | (Panic, t1) \<Rightarrow> (Panic, t1)
         | (Ok stmt, t1) \<Rightarrow>
             (case execute_prepared t1 stmt params of
                (Err e, t2) \<Rightarrow> (Err e, t2)
              | (Panic, t2) \<Rightarrow> (Panic, t2)
              | (Ok rs, t2) \<Rightarrow> (Ok (row_set_from rs), t2)))"

lemma int_decimal_ascii: "list_all (\<lambda>b. unat b < 128) (int_decimal v)"
proof -
  have "unat b < 128" if "b \<in> set (decimal n)" for b n using decimal_digits [OF that] by simp
  then show ?thesis by (auto simp: int_decimal_def list_all_iff ascii_def)
qed

lemma trim_int_decimal: "trim (map unat (int_decimal v)) = map unat (int_decimal v)"
proof (rule trim_id)
  show "\<not> is_whitespace (hd (map unat (int_decimal v)))"
    using decimal_not_whitespace [of "hd (decimal (nat v))" "nat v"]
    by (auto simp: int_decimal_def hd_map ascii_def is_whitespace_def)
  show "\<not> is_whitespace (last (map unat (int_decimal v)))"
    using decimal_not_whitespace [of "last (decimal (nat v))" "nat v"]
      decimal_not_whitespace [of "last (decimal (nat (- v)))" "nat (- v)"]
    by (auto simp: int_decimal_def last_map ascii_def)
qed (auto simp: int_decimal_def ascii_def)

lemma parse_int_decimal:
  assumes "- (2 ^ (bits - 1)) \<le> v" and "v < 2 ^ (bits - 1)"
  shows "parse_int bits (map unat (int_decimal v)) = Some v"
proof (cases "v < 0")
  case True
  have "nat (- v) < 2 ^ (bits - 1) + 1"
    using assms(1) by (simp add: less_Suc_eq_le nat_le_iff)
  then show ?thesis
    using True parse_digits_decimal [of "nat (- v)" "2 ^ (bits - 1) + 1"]
    by (simp add: parse_int_def int_decimal_def ascii_def)
next
  case False
  obtain b bs where b: "decimal (nat v) = b # bs" by (cases "decimal (nat v)") auto
  then have "unat b \<noteq> 43" "unat b \<noteq> 45" using decimal_digits [of b "nat v"] by auto
  moreover have "nat v < 2 ^ (bits - 1)" using assms(2) False by (simp add: nat_less_iff)
  ultimately show ?thesis
    using False b parse_digits_decimal [of "nat v" "2 ^ (bits - 1)"] by (simp add: parse_int_def int_decimal_def)
qed

lemma decode_int_decimal:
  "- (2 ^ (bits - 1)) \<le> v \<Longrightarrow> v < 2 ^ (bits - 1) \<Longrightarrow> decode_int bits what (int_decimal v) = Ok v"
  using utf8_decode_ascii [OF int_decimal_ascii [of v]]
  by (simp add: decode_int_def trim_int_decimal parse_int_decimal)

text \<open>
  Values survive the text format: every 32-bit and every 64-bit integer, both truth values and
  every UTF-8 string decode to themselves from the text the client sends for them.
\<close>

theorem text_values_roundtrip:
  "(- (2 ^ 31) \<le> v \<and> v < 2 ^ 31 \<longrightarrow> decode_i32 (encode_i32 v) = Ok v)
   \<and> (- (2 ^ 63) \<le> v \<and> v < 2 ^ 63 \<longrightarrow> decode_i64 (encode_i64 v) = Ok v)
   \<and> decode_bool (encode_bool b) = Ok b
   \<and> (utf8_valid s \<longrightarrow> decode_text s = Ok s)"
  using decode_int_decimal [of 32 v "''int4''"] decode_int_decimal [of 64 v "''int8''"]
  by (auto simp: decode_i32_def decode_i64_def encode_i32_def encode_i64_def decode_bool_def encode_bool_def decode_text_def
      ascii_def)

theorem text_values_roundtrip_witness:
  "decode_i32 (encode_i32 (- (2 ^ 31))) = Ok (- (2 ^ 31)) \<and> decode_bool (encode_bool True) = Ok True"
  using text_values_roundtrip [of "- (2 ^ 31)" True] by simp

end
