(* ===== verification/Db_Pool.thy ===== *)
theory Db_Pool
  imports Sql_Query "HOL-Library.Multiset"
begin

text \<open>
  The connection pool (\<^verbatim>\<open>moduvex-db/src/pool\<close>): configuration, the sections \<open>acquire\<close>, \<open>release\<close>,
  \<open>close\<close> and the health sweep execute under the pool lock, and the connection URL. A connection is its
  number and the instant it was opened; instants and durations are milliseconds. Tasks that use the
  pool interleave at the sections, which are the steps of \<open>pool_step\<close>.
\<close>

section \<open>Configuration\<close>

record pool_config =
  min_idle :: nat
  max_size :: nat
  connect_timeout :: nat
  idle_timeout :: nat
  max_lifetime :: nat
  health_check_interval :: nat
  database_url :: bytes

definition pool_config_new :: "bytes \<Rightarrow> pool_config" where
  "pool_config_new url = \<lparr>min_idle = 1, max_size = 10, connect_timeout = 30000, idle_timeout = 600000,
     max_lifetime = 1800000, health_check_interval = 60000, database_url = url\<rparr>"

definition pool_config_validate :: "pool_config \<Rightarrow> (unit, bytes) outcome" where
  "pool_config_validate cfg =
     (if max_size cfg = 0 then Err (ascii ''max_size must be > 0'')
      else if max_size cfg < min_idle cfg then
        Err (ascii ''min_idle ('' @ decimal (min_idle cfg) @ ascii '') must be <= max_size ('' @ decimal (max_size cfg) @ ascii '')'')
      else if database_url cfg = [] then Err (ascii ''database_url must not be empty'')
      else Ok ())"

section \<open>Pool state and its sections\<close>

record conn =
  conn_id :: nat
  conn_created_at :: nat

record idle_conn =
  ic_conn :: conn
  ic_created_at :: nat
  ic_idle_since :: nat

record pool =
  idle :: "idle_conn list"
  live :: nat
  closed :: bool
  waiters :: "nat list"

definition pool_new :: "pool_config \<Rightarrow> (pool, bytes) outcome" where
  "pool_new cfg =
     (case pool_config_validate cfg of
        Ok _ \<Rightarrow> Ok \<lparr>idle = [], live = 0, closed = False, waiters = []\<rparr>
      | _ \<Rightarrow> Panic)"

text \<open>What a pass through the locked section of \<open>acquire\<close> decides.\<close>

datatype acquire_decision = ReturnClosed | Retry | Have conn | Create | Exhausted

definition acquire_section :: "pool_config \<Rightarrow> nat \<Rightarrow> pool \<Rightarrow> acquire_decision \<times> pool" where
  "acquire_section cfg now p =
     (if closed p then (ReturnClosed, p)
      else if idle p \<noteq> [] then
        (let ic = last (idle p); p1 = p\<lparr>idle := butlast (idle p)\<rparr>
         in if max_lifetime cfg < now - ic_created_at ic then (Retry, p1\<lparr>live := live p1 - 1\<rparr>)
            else if idle_timeout cfg < now - ic_idle_since ic then (Retry, p1\<lparr>live := live p1 - 1\<rparr>)
            else (Have (ic_conn ic), p1))
      else if live p < max_size cfg then (Create, p\<lparr>live := live p + 1\<rparr>)
      else (Exhausted, p))"

text \<open>The passes of one \<open>acquire\<close> while it evicts; \<open>clock k\<close> is the instant of the \<open>k\<close>-th pass.\<close>

function acquire_passes :: "pool_config \<Rightarrow> (nat \<Rightarrow> nat) \<Rightarrow> pool \<Rightarrow> acquire_decision \<times> pool" where
  "acquire_passes cfg clock p =
     (case acquire_section cfg (clock 0) p of
        (Retry, p1) \<Rightarrow> acquire_passes cfg (\<lambda>k. clock (Suc k)) p1
      | r \<Rightarrow> r)"
  by pat_completeness auto
termination
  by (relation "measure (\<lambda>(cfg, clock, p). length (idle p))")
    (auto simp: acquire_section_def Let_def split: if_splits)

declare acquire_passes.simps [simp del]

text \<open>\<^verbatim>\<open>live -= 1\<close> after a failed open, with its overflow check.\<close>

definition open_failed :: "pool \<Rightarrow> (pool, unit) outcome" where
  "open_failed p = (if live p = 0 then Panic else Ok (p\<lparr>live := live p - 1\<rparr>))"

text \<open>\<open>release\<close>: the pool and the task that is woken.\<close>

definition release :: "pool_config \<Rightarrow> nat \<Rightarrow> conn \<Rightarrow> pool \<Rightarrow> pool \<times> nat option" where
  "release cfg now c p =
     (if closed p \<or> max_size cfg \<le> length (idle p) then (p\<lparr>live := live p - 1\<rparr>, None)
      else
        (let p1 = p\<lparr>idle := idle p @ [\<lparr>ic_conn = c, ic_created_at = conn_created_at c, ic_idle_since = now\<rparr>]\<rparr>
         in if waiters p = [] then (p1, None)
            else (p1\<lparr>waiters := butlast (waiters p)\<rparr>, Some (last (waiters p)))))"

definition pool_close :: "pool \<Rightarrow> pool \<times> nat list" where
  "pool_close p = (p\<lparr>closed := True, idle := [], live := live p - length (idle p), waiters := []\<rparr>, waiters p)"

definition register_waiter :: "nat \<Rightarrow> pool \<Rightarrow> pool" where
  "register_waiter task p = p\<lparr>waiters := waiters p @ [task]\<rparr>"

text \<open>The sections of the health sweep.\<close>

definition sweep_take :: "pool \<Rightarrow> idle_conn list \<times> pool" where
  "sweep_take p = (idle p, p\<lparr>idle := []\<rparr>)"

definition sweep_stale :: "pool_config \<Rightarrow> nat \<Rightarrow> idle_conn \<Rightarrow> bool" where
  "sweep_stale cfg now e \<longleftrightarrow> idle_timeout cfg < now - ic_idle_since e \<or> max_lifetime cfg < now - ic_created_at e"

definition sweep_evict :: "pool \<Rightarrow> pool" where
  "sweep_evict p = p\<lparr>live := live p - 1\<rparr>"

definition sweep_return :: "idle_conn list \<Rightarrow> pool \<Rightarrow> pool" where
  "sweep_return survivors p = p\<lparr>idle := idle p @ survivors\<rparr>"

definition sweep_needed :: "pool_config \<Rightarrow> nat \<Rightarrow> nat \<Rightarrow> nat" where
  "sweep_needed cfg current_idle current_live =
     (if current_idle < min_idle cfg \<and> current_live < max_size cfg
      then min (min_idle cfg - current_idle) (max_size cfg - current_live) else 0)"

section \<open>The connection URL\<close>

definition split_once :: "byte \<Rightarrow> bytes \<Rightarrow> (bytes \<times> bytes) option" where
  "split_once c s = map_option (\<lambda>i. (take i s, drop (i + 1) s)) (position (\<lambda>b. b = c) s)"

text \<open>
  \<^verbatim>\<open>u8::from_str_radix(&s[i + 1..i + 3], 16)\<close>; the slice panics when it cuts a character, that is
  when the byte behind it, or its first byte, continues one.
\<close>

function percent_decode_loop :: "bytes \<Rightarrow> (bytes, unit) outcome" where
  "percent_decode_loop s =
     (case s of
        [] \<Rightarrow> Ok []
      | b # rest \<Rightarrow>
          if b = 37 \<and> 3 \<le> length s then
            (if utf8_cont (s ! 1) \<or> 3 < length s \<and> utf8_cont (s ! 3) then Panic
             else case Option.bind (utf8_decode (take 2 rest)) (parse_uint 16 256) of
                    Some v \<Rightarrow>
                      (case percent_decode_loop (drop 2 rest) of
                         Ok out \<Rightarrow> Ok (push_byte (of_nat v) @ out) | e \<Rightarrow> e)
                  | None \<Rightarrow> (case percent_decode_loop rest of Ok out \<Rightarrow> Ok (push_byte b @ out) | e \<Rightarrow> e))
          else (case percent_decode_loop rest of Ok out \<Rightarrow> Ok (push_byte b @ out) | e \<Rightarrow> e))"
  by pat_completeness auto
termination
  by (relation "measure length") auto

declare percent_decode_loop.simps [simp del]

definition percent_decode :: "bytes \<Rightarrow> (bytes, unit) outcome" where
  "percent_decode s = percent_decode_loop s"

definition parse_url :: "bytes \<Rightarrow> (bytes \<times> bytes \<times> bytes \<times> bytes) db_result" where
  "parse_url url =
     (let stripped = (case strip_prefix (ascii ''postgres://'') url of
            Some rest \<Rightarrow> Some rest
          | None \<Rightarrow> strip_prefix (ascii ''postgresql://'') url)
      in case stripped of
           None \<Rightarrow> Err (OtherError (ascii ''unsupported URL scheme: '' @ url))
         | Some rest \<Rightarrow>
      (case split_once 64 rest of
           None \<Rightarrow> Err (OtherError (ascii (''missing '' @ [CHR 39] @ ''@'' @ [CHR 39] @ '' in database URL: '') @ url))
         | Some (userinfo, hostpath) \<Rightarrow>
             (let creds = (case split_once 58 userinfo of
                     Some (u, p) \<Rightarrow>
                       (case percent_decode u of
                          Ok user \<Rightarrow> (case percent_decode p of Ok pass \<Rightarrow> Ok (user, pass) | _ \<Rightarrow> Panic)
                        | _ \<Rightarrow> Panic)
                   | None \<Rightarrow> (case percent_decode userinfo of Ok user \<Rightarrow> Ok (user, []) | _ \<Rightarrow> Panic))
              in case creds of
                   Err e \<Rightarrow> Err e
                 | Panic \<Rightarrow> Panic
                 | Ok (user, password) \<Rightarrow>
                     (case split_once 47 hostpath of
                        None \<Rightarrow> Err (OtherError (ascii ''missing database name in URL: '' @ url))
                      | Some (hostport, database) \<Rightarrow> Ok (user, password, hostport, database)))))"

section \<open>Tasks that share the pool\<close>

text \<open>
  The pool with what the tasks hold: connections checked out, opens under way, connections a
  health sweep is checking, the number of connections dropped without \<open>release\<close> (a transaction
  that fails to begin or to commit drops its connection), and the tasks between the exhausted
  pass of \<open>acquire\<close> and the registration of their waker.
\<close>

record world =
  w_pool :: pool
  w_out :: "conn multiset"
  w_opening :: nat
  w_checking :: "idle_conn multiset"
  w_lost :: nat
  w_registering :: "nat multiset"

inductive pool_step :: "pool_config \<Rightarrow> world \<Rightarrow> world \<Rightarrow> bool" for cfg where
  acquire_have: "acquire_section cfg now (w_pool w) = (Have c, p) \<Longrightarrow>
    pool_step cfg w (w\<lparr>w_pool := p, w_out := add_mset c (w_out w)\<rparr>)"
| acquire_create: "acquire_section cfg now (w_pool w) = (Create, p) \<Longrightarrow>
    pool_step cfg w (w\<lparr>w_pool := p, w_opening := w_opening w + 1\<rparr>)"
| acquire_retry: "acquire_section cfg now (w_pool w) = (Retry, p) \<Longrightarrow> pool_step cfg w (w\<lparr>w_pool := p\<rparr>)"
| acquire_wait: "acquire_section cfg now (w_pool w) = (Exhausted, p) \<Longrightarrow>
    pool_step cfg w (w\<lparr>w_pool := p, w_registering := add_mset task (w_registering w)\<rparr>)"
| register: "task \<in># w_registering w \<Longrightarrow>
    pool_step cfg w (w\<lparr>w_pool := register_waiter task (w_pool w), w_registering := w_registering w - {#task#}\<rparr>)"
| opened: "0 < w_opening w \<Longrightarrow>
    pool_step cfg w (w\<lparr>w_opening := w_opening w - 1, w_out := add_mset c (w_out w)\<rparr>)"
| failed: "0 < w_opening w \<Longrightarrow> open_failed (w_pool w) = Ok p \<Longrightarrow>
    pool_step cfg w (w\<lparr>w_pool := p, w_opening := w_opening w - 1\<rparr>)"
| released: "c \<in># w_out w \<Longrightarrow> release cfg now c (w_pool w) = (p, woken) \<Longrightarrow>
    pool_step cfg w (w\<lparr>w_pool := p, w_out := w_out w - {#c#}\<rparr>)"
| dropped: "c \<in># w_out w \<Longrightarrow>
    pool_step cfg w (w\<lparr>w_out := w_out w - {#c#}, w_lost := w_lost w + 1\<rparr>)"
| closing: "pool_close (w_pool w) = (p, woken) \<Longrightarrow> pool_step cfg w (w\<lparr>w_pool := p\<rparr>)"
| taken: "sweep_take (w_pool w) = (es, p) \<Longrightarrow>
    pool_step cfg w (w\<lparr>w_pool := p, w_checking := w_checking w + mset es\<rparr>)"
| evicted: "e \<in># w_checking w \<Longrightarrow>
    pool_step cfg w (w\<lparr>w_pool := sweep_evict (w_pool w), w_checking := w_checking w - {#e#}\<rparr>)"
| returned: "mset es \<subseteq># w_checking w \<Longrightarrow>
    pool_step cfg w (w\<lparr>w_pool := sweep_return es (w_pool w), w_checking := w_checking w - mset es\<rparr>)"

inductive_cases pool_stepE [elim]: "pool_step cfg w w'"

definition world_init :: world where
  "world_init = \<lparr>w_pool = \<lparr>idle = [], live = 0, closed = False, waiters = []\<rparr>, w_out = {#}, w_opening = 0,
     w_checking = {#}, w_lost = 0, w_registering = {#}\<rparr>"

definition pool_inv :: "pool_config \<Rightarrow> world \<Rightarrow> bool" where
  "pool_inv cfg w \<longleftrightarrow>
     live (w_pool w) = length (idle (w_pool w)) + size (w_out w) + w_opening w + size (w_checking w) + w_lost w
     \<and> live (w_pool w) \<le> max_size cfg"

lemma size_diff_single: "x \<in># M \<Longrightarrow> size (M - {#x#}) = size M - 1 \<and> 0 < size M"
  by (auto dest!: multi_member_split)

lemma pool_step_inv: "pool_step cfg w w' \<Longrightarrow> pool_inv cfg w \<Longrightarrow> pool_inv cfg w'"
proof (induction rule: pool_step.induct)
  case (returned es w)
  then have "size (w_checking w) = size (w_checking w - mset es) + length es"
    using size_mset_mono [of "mset es" "w_checking w"] by (simp add: size_Diff_submset)
  with returned show ?case by (simp add: pool_inv_def sweep_return_def)
next
  case (acquire_retry now w p)
  then have "0 < length (idle (w_pool w))" "length (idle p) = length (idle (w_pool w)) - 1" "live p = live (w_pool w) - 1"
    by (auto simp: acquire_section_def Let_def split: if_splits)
  with acquire_retry show ?case by (auto simp: pool_inv_def simp del: length_greater_0_conv)
qed (auto simp: pool_inv_def acquire_section_def open_failed_def release_def pool_close_def sweep_take_def sweep_evict_def
    register_waiter_def Let_def dest: size_diff_single split: if_splits)

lemma pool_reachable_inv: "(pool_step cfg)\<^sup>*\<^sup>* w w' \<Longrightarrow> pool_inv cfg w \<Longrightarrow> pool_inv cfg w'"
  by (induction rule: rtranclp_induct) (simp_all add: pool_step_inv)

lemma pool_init_inv: "pool_inv cfg world_init"
  by (simp add: pool_inv_def world_init_def)

text \<open>
  C22: The pool never holds more connections than configured. However tasks interleave their
  acquires, releases, failed opens and closes with health sweeps, the connections that are idle,
  checked out, being opened or being checked number at most \<open>max_size\<close>; the live count is exactly
  these plus the connections that were dropped without being released; and the
  unchecked subtraction after a failed open cannot underflow.
\<close>

theorem pool_bounded:
  assumes "(pool_step cfg)\<^sup>*\<^sup>* world_init w"
  shows "length (idle (w_pool w)) + size (w_out w) + w_opening w + size (w_checking w) \<le> max_size cfg
    \<and> live (w_pool w) = length (idle (w_pool w)) + size (w_out w) + w_opening w + size (w_checking w) + w_lost w
    \<and> (0 < w_opening w \<longrightarrow> open_failed (w_pool w) \<noteq> Panic)"
  using pool_reachable_inv [OF assms pool_init_inv] by (auto simp: pool_inv_def open_failed_def)

definition one_conn :: pool_config where
  "one_conn = (pool_config_new [112])\<lparr>min_idle := 0, max_size := 1\<rparr>"

definition one_out :: world where
  "one_out = world_init\<lparr>w_pool := (w_pool world_init)\<lparr>live := 1\<rparr>, w_out := {#\<lparr>conn_id = 0, conn_created_at = 5\<rparr>#}\<rparr>"

lemma one_out_reachable: "(pool_step one_conn)\<^sup>*\<^sup>* world_init one_out"
proof -
  let ?p = "(w_pool world_init)\<lparr>live := 1\<rparr>"
  have "acquire_section one_conn 5 (w_pool world_init) = (Create, ?p)"
    by (simp add: acquire_section_def world_init_def one_conn_def)
  from pool_step.acquire_create [OF this]
  have s1: "pool_step one_conn world_init (world_init\<lparr>w_pool := ?p, w_opening := 1\<rparr>)"
    by (simp add: world_init_def)
  have "pool_step one_conn (world_init\<lparr>w_pool := ?p, w_opening := 1\<rparr>) one_out"
    using pool_step.opened [of "world_init\<lparr>w_pool := ?p, w_opening := 1\<rparr>" one_conn "\<lparr>conn_id = 0, conn_created_at = 5\<rparr>"]
    by (simp add: world_init_def one_out_def)
  with s1 show ?thesis by auto
qed

theorem pool_bounded_witness:
  "length (idle (w_pool one_out)) + size (w_out one_out) + w_opening one_out + size (w_checking one_out) \<le> 1
    \<and> live (w_pool one_out) = 1"
  using pool_bounded [OF one_out_reachable] by (simp add: one_conn_def one_out_def world_init_def)

text \<open>
  A pool whose connections were dropped is dead. The slot of a connection that is dropped without
  \<open>release\<close>, as the transaction wrapper does when a transaction fails to begin, fails to commit
  or is abandoned, is never given back: once \<open>max_size\<close> connections have been dropped, no task ever
  obtains a connection again, although not one is open.
\<close>

theorem dropped_connections_exhaust_pool:
  assumes "(pool_step cfg)\<^sup>*\<^sup>* world_init w" and "w_lost w = max_size cfg" and "(pool_step cfg)\<^sup>*\<^sup>* w w'"
  shows "fst (acquire_section cfg now (w_pool w')) \<in> {Exhausted, ReturnClosed} \<and> w_out w' = {#} \<and> w_opening w' = 0"
proof -
  have "w_lost w \<le> w_lost w'"
    using assms(3) by (induction rule: rtranclp_induct) (auto elim!: pool_stepE)
  moreover have "pool_inv cfg w'"
    using pool_reachable_inv [OF assms(3)] pool_reachable_inv [OF assms(1) pool_init_inv] by simp
  ultimately have "length (idle (w_pool w')) = 0" "size (w_out w') = 0" "w_opening w' = 0" "live (w_pool w') = max_size cfg"
    using assms(2) unfolding pool_inv_def by linarith+
  then show ?thesis by (simp add: acquire_section_def)
qed

theorem dropped_connections_exhaust_pool_witness:
  "fst (acquire_section one_conn 7 (w_pool one_out)) \<in> {Exhausted, ReturnClosed}"
proof -
  let ?lost = "one_out\<lparr>w_out := {#}, w_lost := 1\<rparr>"
  have "pool_step one_conn one_out ?lost"
    using pool_step.dropped [of "\<lparr>conn_id = 0, conn_created_at = 5\<rparr>" one_out one_conn]
    by (simp add: one_out_def world_init_def)
  with one_out_reachable have "(pool_step one_conn)\<^sup>*\<^sup>* world_init ?lost" by simp
  from dropped_connections_exhaust_pool [OF this _ rtranclp.rtrancl_refl, of 7]
  show ?thesis by (simp add: one_conn_def one_out_def)
qed

text \<open>
  A waiter can sleep beside a free connection. The waker of a task that found the pool exhausted is
  registered only later, by a task spawned for it; a release in between finds no waiter to wake. The
  pool then has an idle connection and a registered waiter that nobody wakes before its timeout.
\<close>

theorem waiter_misses_release:
  "\<exists>w. (pool_step one_conn)\<^sup>*\<^sup>* world_init w \<and> idle (w_pool w) \<noteq> [] \<and> waiters (w_pool w) = [9]
    \<and> w_out w = {#} \<and> w_opening w = 0 \<and> w_registering w = {#}"
proof -
  let ?c = "\<lparr>conn_id = 0, conn_created_at = 5\<rparr>"
  let ?ic = "\<lparr>ic_conn = ?c, ic_created_at = 5, ic_idle_since = 8\<rparr>"
  let ?w1 = "one_out\<lparr>w_registering := {#9#}\<rparr>"
  let ?p2 = "\<lparr>idle = [?ic], live = 1, closed = False, waiters = []\<rparr>"
  let ?w2 = "?w1\<lparr>w_pool := ?p2, w_out := {#}\<rparr>"
  let ?w3 = "?w2\<lparr>w_pool := ?p2\<lparr>waiters := [9]\<rparr>, w_registering := {#}\<rparr>"
  have "acquire_section one_conn 6 (w_pool one_out) = (Exhausted, w_pool one_out)"
    by (simp add: acquire_section_def one_out_def world_init_def one_conn_def)
  from pool_step.acquire_wait [OF this, of 9] have s1: "pool_step one_conn one_out ?w1"
    by (simp add: one_out_def world_init_def)
  have "release one_conn 8 ?c (w_pool ?w1) = (?p2, None)"
    by (simp add: release_def one_out_def world_init_def one_conn_def)
  from pool_step.released [OF _ this] have s2: "pool_step one_conn ?w1 ?w2"
    by (simp add: one_out_def world_init_def)
  have s3: "pool_step one_conn ?w2 ?w3"
    using pool_step.register [of 9 ?w2 one_conn] by (simp add: register_waiter_def)
  have "(pool_step one_conn)\<^sup>*\<^sup>* world_init ?w3"
    using one_out_reachable s1 s2 s3 by (meson rtranclp.rtrancl_into_rtrancl)
  then show ?thesis by (intro exI [of _ ?w3]) (simp add: one_out_def world_init_def)
qed

end
