(* ===== verification/Db_Migrate.thy ===== *)
theory Db_Migrate
  imports Sql_Query
begin

text \<open>
  Transactions (\<^verbatim>\<open>moduvex-db/src/tx\<close>) and migrations (\<^verbatim>\<open>moduvex-db/src/migrate\<close>) on a PostgreSQL
  connection, which is its transport. The migrations directory is the list of its entries in the
  order the file system gives them, each with its content or the error of reading it.
\<close>

section \<open>Transactions\<close>

datatype isolation_level = ReadUncommitted | ReadCommitted | RepeatableRead | Serializable

fun isolation_sql :: "isolation_level \<Rightarrow> bytes" where
  "isolation_sql ReadUncommitted = ascii ''READ UNCOMMITTED''"
| "isolation_sql ReadCommitted = ascii ''READ COMMITTED''"
| "isolation_sql RepeatableRead = ascii ''REPEATABLE READ''"
| "isolation_sql Serializable = ascii ''SERIALIZABLE''"

datatype transaction_state = Active | Committed | RolledBack

record transaction =
  tr_conn :: "transport option"
  tr_state :: transaction_state
  tr_isolation :: isolation_level

definition tr_begin :: "transport \<Rightarrow> isolation_level \<Rightarrow> transaction db_result" where
  "tr_begin t isolation =
     (case execute t (ascii ''BEGIN ISOLATION LEVEL '' @ isolation_sql isolation) of
        (Ok _, t1) \<Rightarrow> Ok \<lparr>tr_conn = Some t1, tr_state = Active, tr_isolation = isolation\<rparr>
      | (Err e, _) \<Rightarrow> Err e
      | (Panic, _) \<Rightarrow> Panic)"

definition tr_query :: "transaction \<Rightarrow> bytes \<Rightarrow> pg_row_set db_result \<times> transaction" where
  "tr_query tr sql =
     (case tr_conn tr of
        None \<Rightarrow> (Err TransactionConsumed, tr)
      | Some t \<Rightarrow> (let (r, t1) = query t sql in (r, tr\<lparr>tr_conn := Some t1\<rparr>)))"

definition tr_execute :: "transaction \<Rightarrow> bytes \<Rightarrow> nat db_result \<times> transaction" where
  "tr_execute tr sql =
     (case tr_conn tr of
        None \<Rightarrow> (Err TransactionConsumed, tr)
      | Some t \<Rightarrow> (let (r, t1) = execute t sql in (r, tr\<lparr>tr_conn := Some t1\<rparr>)))"

text \<open>Both consume the transaction: on an error the connection is dropped with it.\<close>

definition tr_finish :: "transaction \<Rightarrow> string \<Rightarrow> transport db_result" where
  "tr_finish tr sql =
     (case tr_conn tr of
        None \<Rightarrow> Err TransactionConsumed
      | Some t \<Rightarrow>
          (case execute t (ascii sql) of
             (Ok _, t1) \<Rightarrow> Ok t1
           | (Err e, _) \<Rightarrow> Err e
           | (Panic, _) \<Rightarrow> Panic))"

definition tr_commit :: "transaction \<Rightarrow> transport db_result" where
  "tr_commit tr = tr_finish tr ''COMMIT''"

definition tr_rollback :: "transaction \<Rightarrow> transport db_result" where
  "tr_rollback tr = tr_finish tr ''ROLLBACK''"

definition tr_is_active :: "transaction \<Rightarrow> bool" where
  "tr_is_active tr \<longleftrightarrow> tr_state tr = Active"

section \<open>Migration files\<close>

record migration =
  mig_version :: nat
  mig_filename :: bytes
  mig_sql :: bytes

definition parse_version :: "bytes \<Rightarrow> nat option" where
  "parse_version filename =
     (let digits = takeWhile is_digit filename
      in if digits = [] then None else parse_uint 10 (2 ^ 64) (map unat digits))"

text \<open>\<^verbatim>\<open>path.extension() == Some("sql")\<close>.\<close>

definition has_sql_extension :: "bytes \<Rightarrow> bool" where
  "has_sql_extension filename \<longleftrightarrow>
     4 < length filename \<and> drop (length filename - 4) filename = ascii ''.sql''"

fun read_entries :: "(bytes \<times> (bytes, string) outcome) list \<Rightarrow> migration list db_result" where
  "read_entries [] = Ok []"
| "read_entries ((filename, content) # entries) =
     (if \<not> has_sql_extension filename then read_entries entries
      else case parse_version filename of
             None \<Rightarrow> read_entries entries
           | Some version \<Rightarrow>
               (case content of
                  Panic \<Rightarrow> Panic
                | Err e \<Rightarrow> Err (Migration (ascii ''cannot read '' @ filename @ ascii ('': '' @ e)))
                | Ok sql \<Rightarrow>
                    (case read_entries entries of
                       Ok ms \<Rightarrow> Ok (\<lparr>mig_version = version, mig_filename = filename, mig_sql = sql\<rparr> # ms)
                     | Err e \<Rightarrow> Err e
                     | Panic \<Rightarrow> Panic)))"

definition load_migrations :: "(bytes \<times> (bytes, string) outcome) list \<Rightarrow> migration list db_result" where
  "load_migrations entries =
     (case read_entries entries of
        Ok ms \<Rightarrow> Ok (sort_key mig_version ms)
      | Err e \<Rightarrow> Err e
      | Panic \<Rightarrow> Panic)"

definition CREATE_TRACKING_TABLE_SQL :: bytes where
  "CREATE_TRACKING_TABLE_SQL =
     [10] @ ascii ''CREATE TABLE IF NOT EXISTS _moduvex_migrations ('' @ [10]
     @ ascii ''    version   BIGINT      NOT NULL PRIMARY KEY,'' @ [10]
     @ ascii ''    filename  TEXT        NOT NULL,'' @ [10]
     @ ascii ''    applied_at TIMESTAMPTZ NOT NULL DEFAULT NOW()'' @ [10]
     @ ascii '')'' @ [10]"

definition SELECT_APPLIED_SQL :: bytes where
  "SELECT_APPLIED_SQL = ascii ''SELECT version FROM _moduvex_migrations ORDER BY version ASC''"

text \<open>\<^verbatim>\<open>str::replace(pat, "")\<close>: occurrences from left to right, not overlapping.\<close>

function remove_all :: "bytes \<Rightarrow> bytes \<Rightarrow> bytes" where
  "remove_all pat s =
     (if s = [] then []
      else if pat \<noteq> [] \<and> take (length pat) s = pat then remove_all pat (drop (length pat) s)
      else hd s # remove_all pat (tl s))"
  by pat_completeness auto
termination
  by (relation "measure (\<lambda>(pat, s). length s)") auto

declare remove_all.simps [simp del]

definition insert_applied_sql :: "nat \<Rightarrow> bytes \<Rightarrow> bytes" where
  "insert_applied_sql version filename =
     (let safe_name = remove_all (ascii ''$mig$'') (remove_all [0] filename)
      in ascii ''INSERT INTO _moduvex_migrations (version, filename) VALUES ('' @ decimal version
         @ ascii '', $mig$'' @ safe_name @ ascii ''$mig$)'')"

section \<open>Running migrations\<close>

record migration_report =
  rep_total :: nat
  rep_applied :: nat
  rep_skipped :: nat

definition applied_version :: "pg_row \<Rightarrow> nat list" where
  "applied_version r =
     (case row_fields r of
        Some bs # _ \<Rightarrow>
          (case Option.bind (utf8_decode bs) (\<lambda>cs. parse_int 64 (trim cs)) of
             Some v \<Rightarrow> [nat (v mod 2 ^ 64)]
           | None \<Rightarrow> [])
      | _ \<Rightarrow> [])"

definition fetch_applied :: "transport \<Rightarrow> nat set db_result \<times> transport" where
  "fetch_applied t =
     (case query t SELECT_APPLIED_SQL of
        (Ok rs, t1) \<Rightarrow> (Ok (set (concat (map applied_version (rs_rows rs)))), t1)
      | (Err e, t1) \<Rightarrow> (Err e, t1)
      | (Panic, t1) \<Rightarrow> (Panic, t1))"

text \<open>One pending migration: begin, the script, its record and commit; roll back when the script fails.\<close>

definition apply_migration :: "transport \<Rightarrow> migration \<Rightarrow> unit db_result \<times> transport" where
  "apply_migration t m =
     (case execute t (ascii ''BEGIN'') of
        (Err e, t1) \<Rightarrow> (Err e, t1)
      | (Panic, t1) \<Rightarrow> (Panic, t1)
      | (Ok _, t1) \<Rightarrow>
     (case execute t1 (mig_sql m) of
        (Panic, t2) \<Rightarrow> (Panic, t2)
      | (Err e, t2) \<Rightarrow>
          (let (r, t3) = execute t2 (ascii ''ROLLBACK'')
           in if r = Panic then (Panic, t3) else (Err (MigrationFailed (mig_version m) (mig_filename m) e), t3))
      | (Ok _, t2) \<Rightarrow>
     (case execute t2 (insert_applied_sql (mig_version m) (mig_filename m)) of
        (Err e, t3) \<Rightarrow> (Err e, t3)
      | (Panic, t3) \<Rightarrow> (Panic, t3)
      | (Ok _, t3) \<Rightarrow>
     (case execute t3 (ascii ''COMMIT'') of
        (Err e, t4) \<Rightarrow> (Err e, t4)
      | (Panic, t4) \<Rightarrow> (Panic, t4)
      | (Ok _, t4) \<Rightarrow> (Ok (), t4)))))"

fun run_pending ::
  "transport \<Rightarrow> nat set \<Rightarrow> migration list \<Rightarrow> nat \<Rightarrow> nat \<Rightarrow> (nat \<times> nat) db_result \<times> transport" where
  "run_pending t applied [] applied_count skipped_count = (Ok (applied_count, skipped_count), t)"
| "run_pending t applied (m # ms) applied_count skipped_count =
     (if mig_version m \<in> applied then run_pending t applied ms applied_count (skipped_count + 1)
      else case apply_migration t m of
             (Err e, t1) \<Rightarrow> (Err e, t1)
           | (Panic, t1) \<Rightarrow> (Panic, t1)
           | (Ok _, t1) \<Rightarrow> run_pending t1 applied ms (applied_count + 1) skipped_count)"

definition run_migrations :: "transport \<Rightarrow> (bytes \<times> (bytes, string) outcome) list \<Rightarrow> migration_report db_result \<times> transport" where
  "run_migrations t entries =
     (case execute t CREATE_TRACKING_TABLE_SQL of
        (Err e, t1) \<Rightarrow> (Err e, t1)
      | (Panic, t1) \<Rightarrow> (Panic, t1)
      | (Ok _, t1) \<Rightarrow>
     (case load_migrations entries of
        Err e \<Rightarrow> (Err e, t1)
      | Panic \<Rightarrow> (Panic, t1)
      | Ok ms \<Rightarrow>
     (case fetch_applied t1 of
        (Err e, t2) \<Rightarrow> (Err e, t2)
      | (Panic, t2) \<Rightarrow> (Panic, t2)
      | (Ok applied, t2) \<Rightarrow>
     (case run_pending t2 applied ms 0 0 of
        (Err e, t3) \<Rightarrow> (Err e, t3)
      | (Panic, t3) \<Rightarrow> (Panic, t3)
      | (Ok (applied_count, skipped_count), t3) \<Rightarrow>
          (Ok \<lparr>rep_total = length ms, rep_applied = applied_count, rep_skipped = skipped_count\<rparr>, t3)))))"

section \<open>Migrations against a conforming server\<close>

definition command_frame :: "bytes \<Rightarrow> bytes" where
  "command_frame sql = frontend_frame MSG_QUERY (sql @ [0])"

text \<open>The answers to commands that succeed: a tag and a transaction status each.\<close>

type_synonym reply = "bytes \<times> byte"

definition reply_messages :: "reply \<Rightarrow> backend_message list" where
  "reply_messages r = [CommandComplete (fst r), ReadyForQuery (snd r)]"

definition replies_bytes :: "(column_desc \<Rightarrow> bytes \<times> bytes) \<Rightarrow> reply list \<Rightarrow> bytes" where
  "replies_bytes aux rs = server_bytes aux (concat (map reply_messages rs))"

definition replies_ok :: "(column_desc \<Rightarrow> bytes \<times> bytes) \<Rightarrow> reply list \<Rightarrow> bool" where
  "replies_ok aux rs \<longleftrightarrow> server_ok aux (concat (map reply_messages rs))"

lemma replies_Cons:
  "replies_bytes aux (r # rs) = server_bytes aux (reply_messages r) @ replies_bytes aux rs"
  "replies_ok aux (r # rs) \<longleftrightarrow> server_ok aux (reply_messages r) \<and> replies_ok aux rs"
  by (simp_all add: replies_bytes_def replies_ok_def)

lemma execute_reply:
  assumes "h1_accepting t" and "server_ok aux (reply_messages r)"
    and "stream_bytes (rx t) = server_bytes aux (reply_messages r) @ rest"
  obtains t' where "execute t sql = (Ok (parse_affected_rows (fst r)), t')" "tx t' = tx t @ command_frame sql"
    "stream_bytes (rx t') = rest" "h1_accepting t'"
proof -
  have ok: "server_ok aux [CommandComplete (fst r), ReadyForQuery (snd r)]" "server_ok aux [ReadyForQuery (snd r)]"
    using assms(2) by (simp_all add: reply_messages_def server_ok_def)
  obtain t1 where t1: "write_frontend_message t MSG_QUERY (encode_query sql) = (Ok (), t1)"
      "tx t1 = tx t @ frontend_frame MSG_QUERY (encode_query sql)" "rx t1 = rx t" "h1_accepting t1"
    by (rule write_frontend_message_accepting [OF assms(1)])
  have st: "stream_bytes (rx t1) = server_bytes aux [CommandComplete (fst r), ReadyForQuery (snd r)] @ rest"
    using assms(3) t1(3) by (simp add: reply_messages_def)
  obtain t2 where t2: "next_message t1 = (Ok (CommandComplete (fst r)), t2)"
      "stream_bytes (rx t2) = server_bytes aux [ReadyForQuery (snd r)] @ rest" "wr t2 = wr t1" "tx t2 = tx t1"
    by (rule next_message_server [OF ok(1) st])
  obtain t3 where t3: "next_message t2 = (Ok (ReadyForQuery (snd r)), t3)"
      "stream_bytes (rx t3) = server_bytes aux [] @ rest" "wr t3 = wr t2" "tx t3 = tx t2"
    by (rule next_message_server [OF ok(2) t2(2)])
  have "execute t sql = (Ok (parse_affected_rows (fst r)), t3)"
    using t1(1) t2(1) t3(1) by (simp add: execute_def execute_loop.simps [of t1] execute_loop.simps [of t2])
  then show ?thesis
    using that [of t3] t1 t2 t3 by (simp add: command_frame_def encode_query_def write_cstring_def h1_accepting_def)
qed

definition migration_commands :: "migration \<Rightarrow> bytes list" where
  "migration_commands m =
     [ascii ''BEGIN'', mig_sql m, insert_applied_sql (mig_version m) (mig_filename m), ascii ''COMMIT'']"

lemma apply_migration_replies:
  assumes "h1_accepting t" and "replies_ok aux [r1, r2, r3, r4]"
    and "stream_bytes (rx t) = replies_bytes aux [r1, r2, r3, r4] @ rest"
  obtains t' where "apply_migration t m = (Ok (), t')"
    "tx t' = tx t @ concat (map command_frame (migration_commands m))" "stream_bytes (rx t') = rest" "h1_accepting t'"
proof -
  have ok: "server_ok aux (reply_messages r1)" "server_ok aux (reply_messages r2)" "server_ok aux (reply_messages r3)"
    "server_ok aux (reply_messages r4)"
    using assms(2) by (simp_all add: replies_Cons)
  obtain t1 where t1: "execute t (ascii ''BEGIN'') = (Ok (parse_affected_rows (fst r1)), t1)"
      "tx t1 = tx t @ command_frame (ascii ''BEGIN'')" "stream_bytes (rx t1) = replies_bytes aux [r2, r3, r4] @ rest" "h1_accepting t1"
    by (rule execute_reply [OF assms(1) ok(1)]) (use assms(3) in \<open>simp_all add: replies_Cons\<close>)
  obtain t2 where t2: "execute t1 (mig_sql m) = (Ok (parse_affected_rows (fst r2)), t2)"
      "tx t2 = tx t1 @ command_frame (mig_sql m)" "stream_bytes (rx t2) = replies_bytes aux [r3, r4] @ rest" "h1_accepting t2"
    by (rule execute_reply [OF t1(4) ok(2)]) (use t1(3) in \<open>simp_all add: replies_Cons\<close>)
  let ?ins = "insert_applied_sql (mig_version m) (mig_filename m)"
  obtain t3 where t3: "execute t2 ?ins = (Ok (parse_affected_rows (fst r3)), t3)"
      "tx t3 = tx t2 @ command_frame ?ins" "stream_bytes (rx t3) = replies_bytes aux [r4] @ rest" "h1_accepting t3"
    by (rule execute_reply [OF t2(4) ok(3)]) (use t2(3) in \<open>simp_all add: replies_Cons\<close>)
  obtain t4 where t4: "execute t3 (ascii ''COMMIT'') = (Ok (parse_affected_rows (fst r4)), t4)"
      "tx t4 = tx t3 @ command_frame (ascii ''COMMIT'')" "stream_bytes (rx t4) = rest" "h1_accepting t4"
    by (rule execute_reply [OF t3(4) ok(4)]) (use t3(3) in \<open>simp_all add: replies_Cons replies_bytes_def\<close>)
  show ?thesis
    using that [of t4] t1 t2 t3 t4 by (simp add: apply_migration_def migration_commands_def)
qed

lemma run_pending_replies:
  assumes "h1_accepting t" and "replies_ok aux rs"
    and "length rs = 4 * length (filter (\<lambda>m. mig_version m \<notin> applied) ms)"
    and "stream_bytes (rx t) = replies_bytes aux rs @ rest"
  shows "\<exists>t'. run_pending t applied ms ac sc
      = (Ok (ac + length (filter (\<lambda>m. mig_version m \<notin> applied) ms), sc + length (filter (\<lambda>m. mig_version m \<in> applied) ms)), t')
    \<and> tx t' = tx t @ concat (map command_frame (concat (map migration_commands (filter (\<lambda>m. mig_version m \<notin> applied) ms))))
    \<and> stream_bytes (rx t') = rest"
  using assms
proof (induction ms arbitrary: t rs ac sc)
  case Nil
  then show ?case by (simp add: replies_bytes_def)
next
  case (Cons m ms)
  show ?case
  proof (cases "mig_version m \<in> applied")
    case True
    then show ?thesis using Cons.IH [OF Cons.prems(1,2) _ Cons.prems(4), of ac "Suc sc"] Cons.prems(3) by simp
  next
    case False
    obtain r1 r2 r3 r4 rs' where rs: "rs = [r1, r2, r3, r4] @ rs'" "length rs' = 4 * length (filter (\<lambda>m. mig_version m \<notin> applied) ms)"
    proof -
      have "length rs = Suc (Suc (Suc (Suc (4 * length (filter (\<lambda>m. mig_version m \<notin> applied) ms)))))"
        using Cons.prems(3) False by simp
      then show ?thesis using that by (auto simp: length_Suc_conv)
    qed
    have ok: "replies_ok aux [r1, r2, r3, r4]" "replies_ok aux rs'"
      using Cons.prems(2) rs(1) by (simp_all add: replies_ok_def)
    obtain t1 where t1: "apply_migration t m = (Ok (), t1)"
        "tx t1 = tx t @ concat (map command_frame (migration_commands m))"
        "stream_bytes (rx t1) = replies_bytes aux rs' @ rest" "h1_accepting t1"
      by (rule apply_migration_replies [OF Cons.prems(1) ok(1)]) (use Cons.prems(4) rs(1) in \<open>simp_all add: replies_bytes_def\<close>)
    show ?thesis
      using Cons.IH [OF t1(4) ok(2) rs(2) t1(3), of "ac + 1" sc] t1 False by auto
  qed
qed

text \<open>
  Migrations are applied once, in order, each in its own transaction. Let the server accept every
  command and report the applied versions. Then a run sends the tracking-table statement and the query for
  applied versions, and for each file that is not yet applied, in ascending order of version, exactly
  \<^verbatim>\<open>BEGIN\<close>, the script, its record and \<^verbatim>\<open>COMMIT\<close>, and nothing else; the report counts what was
  applied and what was skipped.
\<close>

theorem migrations_applied_in_order:
  assumes "h1_accepting t" and "load_migrations entries = Ok ms"
    and "replies_ok aux [r0]" and "result_set_ok aux ms1 cols ms2 st" and "replies_ok aux rs"
    and "applied = set (concat (map applied_version (data_rows (map column_of cols) ms2)))"
    and "pending_migs = filter (\<lambda>m. mig_version m \<notin> applied) ms" and "length rs = 4 * length pending_migs"
    and "stream_bytes (rx t) = replies_bytes aux [r0] @ server_bytes aux (result_set ms1 cols ms2 st) @ replies_bytes aux rs @ rest"
  shows "\<exists>t'. run_migrations t entries
      = (Ok \<lparr>rep_total = length ms, rep_applied = length pending_migs, rep_skipped = length ms - length pending_migs\<rparr>, t')
    \<and> tx t' = tx t @ concat (map command_frame
        ([CREATE_TRACKING_TABLE_SQL, SELECT_APPLIED_SQL] @ concat (map migration_commands pending_migs)))
    \<and> sorted (map mig_version ms) \<and> stream_bytes (rx t') = rest"
proof -
  let ?rest = "server_bytes aux (result_set ms1 cols ms2 st) @ replies_bytes aux rs @ rest"
  obtain t1 where t1: "execute t CREATE_TRACKING_TABLE_SQL = (Ok (parse_affected_rows (fst r0)), t1)"
      "tx t1 = tx t @ command_frame CREATE_TRACKING_TABLE_SQL" "stream_bytes (rx t1) = ?rest" "h1_accepting t1"
    by (rule execute_reply [OF assms(1), of aux r0]) (use assms(3,9) in \<open>simp_all add: replies_ok_def replies_bytes_def\<close>)
  obtain t2 where t2: "query t1 SELECT_APPLIED_SQL = (Ok \<lparr>rs_columns = map column_of cols,
        rs_rows = data_rows (map column_of cols) ms2\<rparr>, t2)" "tx t2 = tx t1 @ command_frame SELECT_APPLIED_SQL"
      "stream_bytes (rx t2) = replies_bytes aux rs @ rest" "h1_accepting t2"
    using query_result_set [OF t1(4) assms(4) t1(3), of SELECT_APPLIED_SQL] by (auto simp: command_frame_def)
  obtain t3 where t3: "run_pending t2 applied ms 0 0 = (Ok (length pending_migs, length (filter (\<lambda>m. mig_version m \<in> applied) ms)), t3)"
      "tx t3 = tx t2 @ concat (map command_frame (concat (map migration_commands pending_migs)))" "stream_bytes (rx t3) = rest"
    using run_pending_replies [OF t2(4) assms(5) _ t2(3), of applied ms 0 0] assms(7,8) by auto
  have "length (filter (\<lambda>m. mig_version m \<in> applied) ms) = length ms - length pending_migs"
    using sum_length_filter_compl [of "\<lambda>m. mig_version m \<in> applied" ms] assms(7) by simp
  moreover have "sorted (map mig_version ms)"
    using assms(2) by (auto simp: load_migrations_def split: outcome.splits)
  ultimately show ?thesis
    using t1 t2 t3 assms(2,6) by (simp add: run_migrations_def fetch_applied_def)
qed

definition one_file :: "(bytes \<times> (bytes, string) outcome) list" where
  "one_file = [(ascii ''2_b.sql'', Ok [66]), (ascii ''x.txt'', Ok []), (ascii ''1_a.sql'', Ok [65])]"

lemma load_one_file: "load_migrations one_file = Ok [\<lparr>mig_version = 1, mig_filename = ascii ''1_a.sql'', mig_sql = [65]\<rparr>,
    \<lparr>mig_version = 2, mig_filename = ascii ''2_b.sql'', mig_sql = [66]\<rparr>]"
  by (simp add: load_migrations_def one_file_def has_sql_extension_def parse_version_def is_digit_def ascii_def
      parse_uint_def digit_value_def Let_def)

text \<open>A server on which version 1 is applied, asked to run the two files above.\<close>

definition migrating_server :: bytes where
  "migrating_server = replies_bytes plain_aux [([67], 0x49)]
     @ server_bytes plain_aux (result_set [] [id_column] [DataRow [Some [49]]] 0x49)
     @ replies_bytes plain_aux [([66], 0x54), ([66], 0x54), ([73], 0x54), ([67], 0x49)]"

theorem migrations_applied_in_order_witness:
  "\<exists>t'. run_migrations (in_two_pieces migrating_server) one_file
      = (Ok \<lparr>rep_total = 2, rep_applied = 1, rep_skipped = 1\<rparr>, t')
    \<and> tx t' = concat (map command_frame [CREATE_TRACKING_TABLE_SQL, SELECT_APPLIED_SQL,
         ascii ''BEGIN'', [66], insert_applied_sql 2 (ascii ''2_b.sql''), ascii ''COMMIT''])"
proof -
  let ?rows = "[DataRow [Some [49]]]" and ?rs = "[([66], 0x54), ([66], 0x54), ([73], 0x54), ([67], 0x49)] :: reply list"
  have ok: "replies_ok plain_aux [([67], 0x49)]" "replies_ok plain_aux ?rs"
    "result_set_ok plain_aux [] [id_column] ?rows 0x49"
    by (simp_all add: replies_ok_def reply_messages_def result_set_ok_def result_set_def server_ok_def plain_aux_def
      id_column_def wf_column_def cstring_ok_def utf8_valid_ascii pg_type_from_oid_def oid_defs encode_column_def
      write_cstring_def encode_field_def)
  have applied: "{1} = set (concat (map applied_version (data_rows (map column_of [id_column]) ?rows)))"
    by (simp add: data_rows_def applied_version_def parse_int_def digit_value_def trim_def is_whitespace_def Let_def)
  have "1 < length migrating_server"
    using server_bytes_length [of plain_aux "CommandComplete [67]" "[ReadyForQuery 0x49]" "[]"]
    by (simp add: migrating_server_def replies_bytes_def reply_messages_def)
  from in_two_pieces_stream [OF this]
  have st: "stream_bytes (rx (in_two_pieces migrating_server)) = replies_bytes plain_aux [([67], 0x49)]
     @ server_bytes plain_aux (result_set [] [id_column] ?rows 0x49) @ replies_bytes plain_aux ?rs @ []"
    by (simp add: migrating_server_def)
  have "tx (in_two_pieces migrating_server) = []" by (simp add: in_two_pieces_def)
  then show ?thesis
    using migrations_applied_in_order [OF in_two_pieces_accepting load_one_file ok(1,3,2) applied refl _ st]
    by (auto simp: migration_commands_def eval_nat_numeral)
qed

section \<open>What success does not mean\<close>

text \<open>
  A commit that was rolled back is reported as committed. A server answers \<^verbatim>\<open>COMMIT\<close> in a failed
  transaction with the tag \<^verbatim>\<open>ROLLBACK\<close> and discards the work; \<open>tr_commit\<close> looks at neither tag nor
  status and returns the connection as after a successful commit.
\<close>

theorem rolled_back_commit_succeeds:
  assumes "h1_accepting t" and "server_ok aux (reply_messages (ascii ''ROLLBACK'', 0x49))"
    and "stream_bytes (rx t) = server_bytes aux (reply_messages (ascii ''ROLLBACK'', 0x49)) @ rest"
  shows "\<exists>t'. tr_commit \<lparr>tr_conn = Some t, tr_state = Active, tr_isolation = level\<rparr> = Ok t' \<and> stream_bytes (rx t') = rest"
proof -
  obtain t' where "execute t (ascii ''COMMIT'') = (Ok (parse_affected_rows (ascii ''ROLLBACK'')), t')" "stream_bytes (rx t') = rest"
    using execute_reply [OF assms, of "ascii ''COMMIT''"] by (metis fst_conv)
  then show ?thesis by (simp add: tr_commit_def tr_finish_def)
qed

theorem rolled_back_commit_succeeds_witness:
  "\<exists>t'. tr_commit \<lparr>tr_conn = Some (in_two_pieces (server_bytes plain_aux (reply_messages (ascii ''ROLLBACK'', 0x49)) @ [])),
      tr_state = Active, tr_isolation = ReadCommitted\<rparr> = Ok t'"
proof -
  have "server_ok plain_aux (reply_messages (ascii ''ROLLBACK'', 0x49))"
    by (simp add: reply_messages_def server_ok_def plain_aux_def cstring_ok_def utf8_valid_ascii ascii_def write_cstring_def)
  from rolled_back_commit_succeeds [OF in_two_pieces_accepting this in_two_pieces_stream, of "[]" ReadCommitted]
  show ?thesis
    using server_bytes_length [of plain_aux "CommandComplete (ascii ''ROLLBACK'')" _ "[]"] by (auto simp: reply_messages_def)
qed

text \<open>
  The guard against the quoting tag can be passed. The tag is removed once from the file name, so a
  name in which the removal brings a new tag together still contains it, and the literal ends early:
  the text behind it is read by the server as SQL.
\<close>

theorem record_literal_can_be_closed:
  "insert_applied_sql 7 (ascii ''7_$mi$mig$g$, 0); DROP TABLE t; --.sql'') =
     ascii ''INSERT INTO _moduvex_migrations (version, filename) VALUES (7, $mig$7_$mig$, 0); DROP TABLE t; --.sql$mig$)''"
  by (simp add: insert_applied_sql_def remove_all.simps ascii_def decimal.simps)

end
