(* ===== verification/Core_App.thy ===== *)
theory Core_App
  imports Prelude "HOL-Library.Multiset"
begin

text \<open>
  The application core (\<^verbatim>\<open>moduvex-core\<close>): the module registry with its topological sort
  (\<^verbatim>\<open>module/registry.rs\<close>), lifecycle phases (\<^verbatim>\<open>lifecycle/phase.rs\<close>), hooks (\<^verbatim>\<open>lifecycle/hook.rs\<close>)
  and the engine that starts and stops the modules (\<^verbatim>\<open>lifecycle/mod.rs\<close>). The code of modules and hooks
  is a parameter: functions on a state \<open>'w\<close> of the world that succeed or fail.
\<close>

section \<open>Registry\<close>

record 'w lifecycle =
  on_start :: "'w \<Rightarrow> (unit, string) outcome \<times> 'w"
  on_stop :: "'w \<Rightarrow> (unit, string) outcome \<times> 'w"

record 'w module_entry =
  me_name :: string
  me_priority :: int
  me_deps :: "string list"
  me_lifecycle :: "'w lifecycle"

type_synonym 'w registry = "'w module_entry list"

definition registry_push :: "'w module_entry \<Rightarrow> 'w registry \<Rightarrow> 'w registry" where
  "registry_push e r = r @ [e]"

definition sort_by_priority :: "'w registry \<Rightarrow> 'w registry" where
  "sort_by_priority r = sort_key (\<lambda>e. - me_priority e) r"

text \<open>The index map; a later entry with the same name replaces an earlier one.\<close>

definition name_to_idx :: "'w registry \<Rightarrow> string \<Rightarrow> nat option" where
  "name_to_idx entries = foldl (\<lambda>m (i, e). m(me_name e \<mapsto> i)) Map.empty (List.enumerate 0 entries)"

text \<open>In-degrees and dependents, filled by the loop over modules and their dependencies.\<close>

type_synonym graph = "nat list \<times> nat list list"

definition add_edge :: "nat \<Rightarrow> nat \<Rightarrow> graph \<Rightarrow> graph" where
  "add_edge i dep g = ((fst g)[i := fst g ! i + 1], (snd g)[dep := snd g ! dep @ [i]])"

fun add_deps :: "(string \<Rightarrow> nat option) \<Rightarrow> nat \<Rightarrow> string list \<Rightarrow> graph \<Rightarrow> graph" where
  "add_deps idx i [] g = g"
| "add_deps idx i (d # ds) g =
     add_deps idx i ds (case idx d of Some dep \<Rightarrow> add_edge i dep g | None \<Rightarrow> g)"

definition build_graph :: "'w registry \<Rightarrow> graph" where
  "build_graph entries =
     foldl (\<lambda>g (i, e). add_deps (name_to_idx entries) i (me_deps e) g)
       (replicate (length entries) 0, replicate (length entries) []) (List.enumerate 0 entries)"

text \<open>The heap of ready modules, ordered by priority and then by index; \<^verbatim>\<open>pop\<close> takes the largest.\<close>

definition prio_le :: "int \<times> nat \<Rightarrow> int \<times> nat \<Rightarrow> bool" where
  "prio_le a b \<longleftrightarrow> fst a < fst b \<or> fst a = fst b \<and> snd a \<le> snd b"

fun heap_max :: "int \<times> nat \<Rightarrow> (int \<times> nat) list \<Rightarrow> int \<times> nat" where
  "heap_max m [] = m"
| "heap_max m (x # xs) = heap_max (if prio_le m x then x else m) xs"

definition heap_pop :: "(int \<times> nat) list \<Rightarrow> ((int \<times> nat) \<times> (int \<times> nat) list) option" where
  "heap_pop h = (case h of [] \<Rightarrow> None | x # xs \<Rightarrow> (let m = heap_max x xs in Some (m, remove1 m h)))"

text \<open>The loop over the dependents of a module: in-degrees go down, with the overflow check.\<close>

fun relax :: "(nat \<Rightarrow> int) \<Rightarrow> nat list \<Rightarrow> nat list \<times> (int \<times> nat) list \<Rightarrow> (nat list \<times> (int \<times> nat) list, unit) outcome" where
  "relax prio [] (deg, ready) = Ok (deg, ready)"
| "relax prio (j # js) (deg, ready) =
     (if deg ! j = 0 then Panic
      else let deg' = deg[j := deg ! j - 1]
           in relax prio js (deg', if deg' ! j = 0 then (prio j, j) # ready else ready))"

lemma heap_max_in: "heap_max m xs \<in> set (m # xs)"
  by (induction m xs rule: heap_max.induct) auto

lemma heap_pop_Some:
  assumes "heap_pop h = Some (m, h')"
  shows "m \<in> set h" and "h' = remove1 m h" and "length h = Suc (length h')"
proof -
  obtain x xs where h: "h = x # xs" "m = heap_max x xs" and h': "h' = remove1 m h"
    using assms by (auto simp: heap_pop_def Let_def split: list.splits)
  show m: "m \<in> set h" using heap_max_in [of x xs] h by simp
  show "h' = remove1 m h" by (rule h')
  show "length h = Suc (length h')" using m h' by (metis One_nat_def Suc_pred length_pos_if_in_set length_remove1)
qed

text \<open>How many modules still wait for a dependency.\<close>

definition waiting :: "nat list \<Rightarrow> nat" where
  "waiting deg = length (filter (\<lambda>d. 0 < d) deg)"

lemma waiting_update:
  assumes "j < length deg" and "0 < deg ! j"
  shows "waiting (deg[j := deg ! j - 1]) + (if deg ! j = 1 then 1 else 0) = waiting deg"
proof -
  have d: "deg = take j deg @ deg ! j # drop (Suc j) deg" using assms(1) by (rule id_take_nth_drop)
  have "deg[j := deg ! j - 1] = take j deg @ (deg ! j - 1) # drop (Suc j) deg"
    using assms(1) by (simp add: upd_conv_take_nth_drop)
  then show ?thesis using assms(2) by (subst (2) d) (simp add: waiting_def)
qed

lemma relax_measure:
  "relax prio js (deg, ready) = Ok (deg', ready') \<Longrightarrow> \<forall>j \<in> set js. j < length deg \<Longrightarrow>
    length ready' + waiting deg' = length ready + waiting deg \<and> length deg' = length deg"
proof (induction js arbitrary: deg ready)
  case (Cons j js)
  have pos: "0 < deg ! j" using Cons.prems(1) by (simp split: if_splits)
  let ?deg = "deg[j := deg ! j - 1]"
  have "relax prio js (?deg, if ?deg ! j = 0 then (prio j, j) # ready else ready) = Ok (deg', ready')"
    using Cons.prems(1) pos by (simp add: Let_def)
  from Cons.IH [OF this] Cons.prems(2) waiting_update [of j deg] pos show ?case by auto
qed auto

text \<open>
  The \<^verbatim>\<open>while let Some((_, idx)) = ready.pop()\<close> loop. Each pass takes one module from the heap, and what
  relaxing adds to it was waiting before; \<open>dependents\<close> holds indices below the number of modules.
\<close>

function kahn :: "(nat \<Rightarrow> int) \<Rightarrow> nat list list \<Rightarrow> nat list \<Rightarrow> (int \<times> nat) list \<Rightarrow> nat list \<Rightarrow> (nat list, unit) outcome" where
  "kahn prio dependents deg ready order =
     (case heap_pop ready of
        None \<Rightarrow> Ok order
      | Some ((_, idx), ready1) \<Rightarrow>
          if \<not> (idx < length dependents \<and> (\<forall>j \<in> set (dependents ! idx). j < length deg)) then Panic
          else case relax prio (dependents ! idx) (deg, ready1) of
                 Ok (deg', ready') \<Rightarrow> kahn prio dependents deg' ready' (order @ [idx])
               | Err e \<Rightarrow> Err e
               | Panic \<Rightarrow> Panic)"
  by pat_completeness auto
termination
  by (relation "measure (\<lambda>(prio, dependents, deg, ready, order). length ready + waiting deg)")
    (auto dest!: heap_pop_Some(3) relax_measure)

declare kahn.simps [simp del]

definition circular_error :: "'w registry \<Rightarrow> nat list \<Rightarrow> string list" where
  "circular_error entries order =
     map (\<lambda>i. me_name (entries ! i)) (filter (\<lambda>i. i \<notin> set order) [0..<length entries])"

text \<open>\<open>Err names\<close>: the circular-dependency error, which lists the modules that were not reached.\<close>

definition topological_sort :: "'w registry \<Rightarrow> ('w registry, string list) outcome" where
  "topological_sort entries =
     (if entries = [] then Ok []
      else
        (let (deg, dependents) = build_graph entries;
             prio = (\<lambda>i. me_priority (entries ! i));
             ready = map (\<lambda>i. (prio i, i)) (filter (\<lambda>i. deg ! i = 0) [0..<length entries])
         in case kahn prio dependents deg ready [] of
              Panic \<Rightarrow> Panic
            | Err e \<Rightarrow> Panic
            | Ok order \<Rightarrow>
                if length order \<noteq> length entries then Err (circular_error entries order)
                else Ok (map (\<lambda>i. entries ! i) order)))"

section \<open>The sort is a topological order\<close>

text \<open>The modules a module depends on, by index, with repetitions.\<close>

definition deps_of :: "'w registry \<Rightarrow> nat \<Rightarrow> nat list" where
  "deps_of entries i = List.map_filter (name_to_idx entries) (me_deps (entries ! i))"

lemma name_to_idx_snoc: "name_to_idx (es @ [e]) = (name_to_idx es)(me_name e \<mapsto> length es)"
  by (simp add: name_to_idx_def enumerate_append_eq)

lemma name_to_idx_Some: "name_to_idx es d = Some j \<Longrightarrow> j < length es \<and> me_name (es ! j) = d"
proof (induction es arbitrary: j rule: rev_induct)
  case Nil
  then show ?case by (simp add: name_to_idx_def)
next
  case (snoc e es)
  then show ?case by (fastforce simp: name_to_idx_snoc nth_append split: if_splits)
qed

lemma name_to_idx_None: "name_to_idx es d = None \<longleftrightarrow> d \<notin> me_name ` set es"
proof (induction es rule: rev_induct)
  case Nil
  then show ?case by (simp add: name_to_idx_def)
qed (auto simp: name_to_idx_snoc)

lemma deps_of_bound: "j \<in> set (deps_of es i) \<Longrightarrow> j < length es"
  by (auto simp: deps_of_def List.map_filter_def dest: name_to_idx_Some)

lemma deps_ofI:
  assumes "name_to_idx es d = Some j" and "d \<in> set (me_deps (es ! i))"
  shows "j \<in> set (deps_of es i)"
proof -
  have "d \<in> set (filter (\<lambda>x. name_to_idx es x \<noteq> None) (me_deps (es ! i)))" using assms by simp
  then have "(the \<circ> name_to_idx es) d \<in> set (map (the \<circ> name_to_idx es) (filter (\<lambda>x. name_to_idx es x \<noteq> None) (me_deps (es ! i))))"
    unfolding set_map by (rule imageI)
  then show ?thesis using assms(1) by (simp add: deps_of_def List.map_filter_def)
qed

text \<open>Counting edges: \<open>i\<close> stands in the dependents of \<open>j\<close> as often as \<open>j\<close> among the dependencies of \<open>i\<close>.\<close>

definition counts :: "graph \<Rightarrow> nat \<Rightarrow> (nat \<Rightarrow> nat list) \<Rightarrow> bool" where
  "counts g n ds \<longleftrightarrow> length (fst g) = n \<and> length (snd g) = n
     \<and> (\<forall>i < n. fst g ! i = length (ds i))
     \<and> (\<forall>j < n. set (snd g ! j) \<subseteq> {..<n} \<and> (\<forall>i < n. count_list (snd g ! j) i = count_list (ds i) j))"

lemma add_edge_counts:
  assumes "counts g n ds" and "i < n" and "dep < n"
  shows "counts (add_edge i dep g) n (ds(i := ds i @ [dep]))"
  using assms by (auto simp: counts_def add_edge_def nth_list_update)

lemma add_deps_counts:
  assumes "counts g n ds" and "i < n" and "\<And>d j. idx d = Some j \<Longrightarrow> j < n"
  shows "counts (add_deps idx i names g) n (ds(i := ds i @ List.map_filter idx names))"
  using assms(1)
proof (induction names arbitrary: g ds)
  case (Cons d names)
  show ?case
  proof (cases "idx d")
    case None
    then show ?thesis using Cons.IH [OF Cons.prems] by (simp add: map_filter_simps)
  next
    case (Some j)
    then show ?thesis
      using Cons.IH [OF add_edge_counts [OF Cons.prems assms(2) assms(3) [OF Some]], unfolded fun_upd_upd fun_upd_same]
      by (simp add: map_filter_simps)
  qed
qed (simp add: map_filter_simps)

lemma build_prefix_counts:
  assumes "k \<le> length es"
  shows "counts (foldl (\<lambda>g (i, e). add_deps (name_to_idx es) i (me_deps e) g)
      (replicate (length es) 0, replicate (length es) []) (List.enumerate 0 (take k es)))
    (length es) (\<lambda>i. if i < k then deps_of es i else [])"
  using assms
proof (induction k)
  case 0
  then show ?case by (simp add: counts_def)
next
  case (Suc k)
  have "take (Suc k) es = take k es @ [es ! k]" using Suc.prems by (simp add: take_Suc_conv_app_nth)
  moreover have "(\<lambda>i. if i < Suc k then deps_of es i else []) =
      (\<lambda>i. if i < k then deps_of es i else [])(k := [] @ List.map_filter (name_to_idx es) (me_deps (es ! k)))"
    by (auto simp: deps_of_def)
  ultimately show ?case
    using add_deps_counts [OF Suc.IH, of k "name_to_idx es" "me_deps (es ! k)"] Suc.prems name_to_idx_Some
    by (fastforce simp: enumerate_append_eq)
qed

lemma build_graph_counts: "counts (build_graph es) (length es) (deps_of es)"
proof -
  have "counts (build_graph es) (length es) (\<lambda>i. if i < length es then deps_of es i else [])"
    using build_prefix_counts [of "length es" es] by (simp add: build_graph_def)
  then show ?thesis by (simp add: counts_def)
qed

lemma count_list_remove: "count_list xs j + length (filter (\<lambda>x. x \<notin> insert j S) xs) = length (filter (\<lambda>x. x \<notin> S) xs)"
  if "j \<notin> S"
  using that by (induction xs) auto

lemma relax_Ok:
  assumes "\<And>i. count_list js i \<le> deg ! i" and "set js \<subseteq> {..<length deg}"
  shows "\<exists>deg' new. relax prio js (deg, ready) = Ok (deg', map (\<lambda>i. (prio i, i)) new @ ready)
    \<and> length deg' = length deg \<and> (\<forall>i < length deg. deg' ! i = deg ! i - count_list js i)
    \<and> distinct new \<and> set new = {i \<in> set js. deg ! i = count_list js i}"
  using assms
proof (induction js arbitrary: deg ready)
  case Nil
  then show ?case by simp
next
  case (Cons j js)
  let ?deg = "deg[j := deg ! j - 1]"
  have j: "0 < deg ! j" "j < length deg" using Cons.prems(1) [of j] Cons.prems(2) by auto
  have le: "count_list js i \<le> ?deg ! i" for i
    using Cons.prems(1) [of i] j by (cases "i < length deg") (auto simp: nth_list_update split: if_splits)
  let ?ready = "if ?deg ! j = 0 then (prio j, j) # ready else ready"
  have len: "set js \<subseteq> {..<length ?deg}" using Cons.prems(2) by simp
  obtain deg' new where ih: "relax prio js (?deg, ?ready) = Ok (deg', map (\<lambda>i. (prio i, i)) new @ ?ready)"
      "length deg' = length deg" "\<forall>i < length deg. deg' ! i = ?deg ! i - count_list js i"
      "distinct new" "set new = {i \<in> set js. ?deg ! i = count_list js i}"
    using Cons.IH [OF le len, of ?ready] unfolding length_list_update by blast
  have step: "relax prio (j # js) (deg, ready) = relax prio js (?deg, ?ready)"
    using j by (simp add: Let_def)
  have cnt: "count_list js j = 0 \<longleftrightarrow> j \<notin> set js" by (simp add: count_list_0_iff)
  have deg': "\<forall>i < length deg. deg' ! i = deg ! i - count_list (j # js) i"
    using ih(3) j by (auto simp: nth_list_update)
  show ?case
  proof (cases "deg ! j = 1")
    case True
    then have nj: "j \<notin> set js" using le [of j] j cnt by simp
    have "set (new @ [j]) = {i \<in> set (j # js). deg ! i = count_list (j # js) i}"
      unfolding set_append ih(5) using j True cnt nj by (auto simp: nth_list_update)
    moreover have "distinct (new @ [j])" using ih(4,5) nj by auto
    moreover have "relax prio (j # js) (deg, ready) = Ok (deg', map (\<lambda>i. (prio i, i)) (new @ [j]) @ ready)"
      unfolding step using ih(1) True j(2) by simp
    ultimately show ?thesis using ih(2) deg' by blast
  next
    case False
    then have "set new = {i \<in> set (j # js). deg ! i = count_list (j # js) i}"
      unfolding ih(5) using j cnt by (auto simp: nth_list_update)
    moreover have "relax prio (j # js) (deg, ready) = Ok (deg', map (\<lambda>i. (prio i, i)) new @ ready)"
      unfolding step using ih(1) False j by simp
    ultimately show ?thesis using ih(2,4) deg' by blast
  qed
qed

text \<open>
  The invariant of the loop: each in-degree counts the dependencies not yet placed, the placed and the ready
  modules are those without any, and every placed module comes behind its dependencies.
\<close>

definition kahn_inv :: "nat \<Rightarrow> (nat \<Rightarrow> nat list) \<Rightarrow> nat list \<Rightarrow> nat list \<Rightarrow> nat list \<Rightarrow> bool" where
  "kahn_inv n ds deg ready order \<longleftrightarrow> length deg = n \<and> distinct (order @ ready)
     \<and> set (order @ ready) = {i. i < n \<and> deg ! i = 0}
     \<and> (\<forall>i < n. deg ! i = length (filter (\<lambda>j. j \<notin> set order) (ds i)))
     \<and> (\<forall>k < length order. set (ds (order ! k)) \<subseteq> set (take k order))"

lemma kahn_invD:
  assumes "kahn_inv n ds deg ready order"
  shows "length deg = n" and "distinct (order @ ready)" and "set (order @ ready) = {i. i < n \<and> deg ! i = 0}"
    and "i < n \<Longrightarrow> deg ! i = length (filter (\<lambda>j. j \<notin> set order) (ds i))"
    and "k < length order \<Longrightarrow> set (ds (order ! k)) \<subseteq> set (take k order)"
  using assms unfolding kahn_inv_def by blast+

lemma kahn_inv_step:
  assumes inv: "kahn_inv n ds deg ready order" and idx: "idx \<in> set ready"
    and deg': "length deg' = n" "\<forall>i < n. deg' ! i = deg ! i - count_list (ds i) idx"
    and new: "distinct new" "set new = {i. i < n \<and> idx \<in> set (ds i) \<and> deg ! i = count_list (ds i) idx}"
  shows "kahn_inv n ds deg' (new @ remove1 idx ready) (order @ [idx])"
proof -
  have base: "idx \<notin> set order" "idx < n" "deg ! idx = 0"
    using kahn_invD(2,3) [OF inv] idx by auto
  have d: "deg ! i = length (filter (\<lambda>j. j \<notin> set order) (ds i))" if "i < n" for i
    by (rule kahn_invD(4) [OF inv that])
  have split: "count_list (ds i) idx + length (filter (\<lambda>j. j \<notin> set (order @ [idx])) (ds i)) = deg ! i" if "i < n" for i
    using count_list_remove [OF base(1), of "ds i"] d [OF that] by simp
  then have deg'_eq: "deg' ! i = length (filter (\<lambda>j. j \<notin> set (order @ [idx])) (ds i))" if "i < n" for i
    using deg'(2) that by fastforce
  have zero: "deg' ! i = 0 \<longleftrightarrow> deg ! i = 0 \<or> i \<in> set new" if "i < n" for i
    using split [OF that] deg'(2) that new(2) by (auto simp: count_list_0_iff)
  have fresh: "deg ! i \<noteq> 0" if "i \<in> set new" for i
    using that new(2) by (auto simp: count_list_0_iff)
  have ready: "set (order @ ready) = {i. i < n \<and> deg ! i = 0}" "distinct (order @ ready)"
    using kahn_invD(2,3) [OF inv] by auto
  have dis: "set new \<inter> set (order @ ready) = {}" using ready(1) fresh by blast
  have "set ((order @ [idx]) @ new @ remove1 idx ready) = set (order @ ready) \<union> set new"
    using ready(2) idx by (auto simp: set_remove1_eq)
  also have "\<dots> = {i. i < n \<and> deg' ! i = 0}" unfolding ready(1) using zero new(2) by blast
  finally have "set ((order @ [idx]) @ new @ remove1 idx ready) = {i. i < n \<and> deg' ! i = 0}" .
  moreover have "distinct ((order @ [idx]) @ new @ remove1 idx ready)"
    using ready(2) dis new(1) idx by (auto simp: set_remove1_eq distinct_remove1)
  moreover have "set (ds ((order @ [idx]) ! k)) \<subseteq> set (take k (order @ [idx]))" if "k < length (order @ [idx])" for k
  proof (cases "k < length order")
    case True
    then show ?thesis using kahn_invD(5) [OF inv] by (auto simp: nth_append)
  next
    case False
    then have "k = length order" using that by simp
    moreover have "set (ds idx) \<subseteq> set order"
      using d [OF base(2)] base(3) by (auto simp: filter_empty_conv)
    ultimately show ?thesis by simp
  qed
  ultimately show ?thesis using deg'(1) deg'_eq by (simp add: kahn_inv_def)
qed

lemma map_snd_remove1:
  "\<forall>x \<in> set xs. fst x = prio (snd x) \<Longrightarrow> m = (prio j, j) \<Longrightarrow> map snd (remove1 m xs) = remove1 j (map snd xs)"
  by (induction xs) auto

lemma kahn_step:
  assumes g: "counts (deg0, dependents) n ds" and inv: "kahn_inv n ds deg (map snd ready) order"
    and prio: "\<forall>x \<in> set ready. fst x = prio (snd x)" and pop: "heap_pop ready = Some ((p, idx), ready1)"
  shows "idx < length dependents \<and> set (dependents ! idx) \<subseteq> {..<length deg}
    \<and> (\<exists>deg' ready'. relax prio (dependents ! idx) (deg, ready1) = Ok (deg', ready')
        \<and> kahn_inv n ds deg' (map snd ready') (order @ [idx]) \<and> (\<forall>x \<in> set ready'. fst x = prio (snd x)))"
proof -
  let ?js = "dependents ! idx"
  have mem: "(p, idx) \<in> set ready" and r1: "ready1 = remove1 (p, idx) ready"
    using heap_pop_Some [OF pop] by auto
  then have p: "p = prio idx" using prio by fastforce
  have idx: "idx \<in> set (map snd ready)" using mem by force
  have n: "length deg = n" "idx < n" "idx \<notin> set order"
    using kahn_invD(1,2,3) [OF inv] idx by auto
  have js: "set ?js \<subseteq> {..<n}" "\<And>i. i < n \<Longrightarrow> count_list ?js i = count_list (ds i) idx" "length dependents = n"
    using g n(2) by (auto simp: counts_def)
  have le: "count_list ?js i \<le> deg ! i" for i
  proof (cases "i < n")
    case True
    then show ?thesis
      using js(2) kahn_invD(4) [OF inv True] count_list_remove [OF n(3), of "ds i"] by simp
  next
    case False
    then have "i \<notin> set ?js" using js(1) by auto
    then show ?thesis by (simp add: count_list_0_iff)
  qed
  obtain deg' new where r: "relax prio ?js (deg, ready1) = Ok (deg', map (\<lambda>i. (prio i, i)) new @ ready1)"
      "length deg' = length deg" "\<forall>i < length deg. deg' ! i = deg ! i - count_list ?js i"
      "distinct new" "set new = {i \<in> set ?js. deg ! i = count_list ?js i}"
    using relax_Ok [OF le, of prio ready1] js(1) n(1) by blast
  have in_js: "i \<in> set ?js \<longleftrightarrow> i < n \<and> idx \<in> set (ds i)" for i
  proof (cases "i < n")
    case True
    then show ?thesis using js(2) count_list_0_iff [of ?js i] count_list_0_iff [of "ds i" idx] by simp
  next
    case False
    then show ?thesis using js(1) by auto
  qed
  have new: "set new = {i. i < n \<and> idx \<in> set (ds i) \<and> deg ! i = count_list (ds i) idx}"
    unfolding r(5) using in_js js(2) by auto
  have "kahn_inv n ds deg' (new @ remove1 idx (map snd ready)) (order @ [idx])"
    using r(2,3) n(1) js(2) by (intro kahn_inv_step [OF inv idx _ _ r(4) new]) simp_all
  moreover have "map snd (map (\<lambda>i. (prio i, i)) new @ ready1) = new @ remove1 idx (map snd ready)"
    using map_snd_remove1 [OF prio, of "(p, idx)" idx] p r1 by (simp add: comp_def)
  moreover have "\<forall>x \<in> set (map (\<lambda>i. (prio i, i)) new @ ready1). fst x = prio (snd x)"
    using prio r1 set_remove1_subset [of "(p, idx)" ready] by auto
  ultimately have "\<exists>deg' ready'. relax prio ?js (deg, ready1) = Ok (deg', ready')
      \<and> kahn_inv n ds deg' (map snd ready') (order @ [idx]) \<and> (\<forall>x \<in> set ready'. fst x = prio (snd x))"
    using r(1) by (intro exI conjI) (assumption, simp_all)
  then show ?thesis using n(1,2) js(1,3) by simp
qed

lemma kahn_correct:
  assumes "counts (deg0, dependents) n ds" and "kahn_inv n ds deg (map snd ready) order"
    and "\<forall>x \<in> set ready. fst x = prio (snd x)"
  shows "\<exists>order' deg'. kahn prio dependents deg ready order = Ok order' \<and> kahn_inv n ds deg' [] order'"
  using assms
proof (induction prio dependents deg ready order rule: kahn.induct)
  case (1 prio dependents deg ready order)
  show ?case
  proof (cases "heap_pop ready")
    case None
    then have "ready = []" by (simp add: heap_pop_def Let_def split: list.splits)
    then show ?thesis using None "1.prems"(2) by (subst kahn.simps) auto
  next
    case (Some x)
    obtain p idx ready1 where x: "x = ((p, idx), ready1)" by (metis surj_pair)
    note st = kahn_step [OF "1.prems" Some [unfolded x]]
    then obtain deg' ready' where s: "relax prio (dependents ! idx) (deg, ready1) = Ok (deg', ready')"
        "kahn_inv n ds deg' (map snd ready') (order @ [idx])" "\<forall>x \<in> set ready'. fst x = prio (snd x)"
      by blast
    have guard: "\<not> \<not> (idx < length dependents \<and> (\<forall>j \<in> set (dependents ! idx). j < length deg))"
      using st by auto
    have "\<exists>order' deg''. kahn prio dependents deg' ready' (order @ [idx]) = Ok order' \<and> kahn_inv n ds deg'' [] order'"
      by (rule "1.IH" [OF Some x [symmetric] refl guard s(1) refl "1.prems"(1) s(2,3)])
    then show ?thesis using Some x guard s(1) by (subst kahn.simps) simp
  qed
qed

text \<open>A set of modules each of which depends on another of the set: there is a cycle.\<close>

definition cyclic :: "'w registry \<Rightarrow> bool" where
  "cyclic es \<longleftrightarrow> (\<exists>C. C \<noteq> {} \<and> C \<subseteq> {..<length es} \<and> (\<forall>i \<in> C. \<exists>j \<in> C. j \<in> set (deps_of es i)))"

lemma kahn_start:
  assumes "build_graph es = (deg, dependents)"
  shows "kahn_inv (length es) (deps_of es) deg
    (map snd (map (\<lambda>i. (prio i, i)) (filter (\<lambda>i. deg ! i = 0) [0..<length es]))) []"
  using build_graph_counts [of es] assms by (auto simp: kahn_inv_def counts_def comp_def)

lemma kahn_inv_order:
  assumes "kahn_inv n ds deg [] order"
  shows "length order = n \<longleftrightarrow> set order = {..<n}"
proof -
  have o: "distinct order" "set order \<subseteq> {..<n}" using kahn_invD(2,3) [OF assms] by auto
  show ?thesis
  proof
    assume "length order = n"
    then have "card (set order) = card {..<n}" using o(1) by (simp add: distinct_card)
    then show "set order = {..<n}" using o(2) by (intro card_subset_eq) simp_all
  next
    assume "set order = {..<n}"
    then show "length order = n" using o(1) by (metis card_lessThan distinct_card)
  qed
qed

lemma no_cycle_when_complete:
  assumes "kahn_inv (length es) (deps_of es) deg [] order" and "length order = length es"
  shows "\<not> cyclic es"
proof
  assume "cyclic es"
  then obtain C where C: "C \<noteq> {}" "C \<subseteq> {..<length es}" "\<forall>i \<in> C. \<exists>j \<in> C. j \<in> set (deps_of es i)"
    by (auto simp: cyclic_def)
  have "set order = {..<length es}"
    using assms kahn_inv_order by blast
  then have "\<exists>k. k < length order \<and> order ! k \<in> C"
    using C(1,2) by (metis all_not_in_conv in_set_conv_nth subsetD)
  then obtain k where k: "k < length order" "order ! k \<in> C" "\<forall>l < k. \<not> (l < length order \<and> order ! l \<in> C)"
    using exists_least_iff [of "\<lambda>k. k < length order \<and> order ! k \<in> C"] by auto
  then obtain j where "j \<in> C" "j \<in> set (deps_of es (order ! k))" using C(3) by blast
  then have "j \<in> set (take k order)" using kahn_invD(5) [OF assms(1) k(1)] by auto
  then show False using k \<open>j \<in> C\<close> by (fastforce simp: in_set_conv_nth)
qed

lemma cycle_when_incomplete:
  assumes "kahn_inv (length es) (deps_of es) deg [] order" and "length order \<noteq> length es"
  shows "cyclic es"
proof -
  let ?C = "{..<length es} - set order"
  have order: "set order = {i. i < length es \<and> deg ! i = 0}" using kahn_invD(3) [OF assms(1)] by simp
  note placed = kahn_invD(4) [OF assms(1)]
  have sub: "set order \<subseteq> {..<length es}" using order by auto
  have "set order \<noteq> {..<length es}" using assms(2) kahn_inv_order [OF assms(1)] by simp
  then have "?C \<noteq> {}" using sub by blast
  moreover have "\<exists>j \<in> ?C. j \<in> set (deps_of es i)" if "i \<in> ?C" for i
  proof -
    have "i < length es" "deg ! i \<noteq> 0" using that order by auto
    then have "filter (\<lambda>j. j \<notin> set order) (deps_of es i) \<noteq> []" using placed [of i] by auto
    then obtain j where "j \<in> set (deps_of es i)" "j \<notin> set order" by (auto simp: filter_empty_conv)
    then show ?thesis using deps_of_bound [of j es i] by auto
  qed
  ultimately show ?thesis unfolding cyclic_def by (intro exI [of _ ?C] conjI ballI) auto
qed

lemma complete_order_mset:
  assumes "kahn_inv (length es) ds deg [] order" and "length order = length es"
  shows "mset (map (\<lambda>i. es ! i) order) = mset es"
proof -
  have "set order = {..<length es}" using assms(2) kahn_inv_order [OF assms(1)] by (rule iffD1 [rotated])
  moreover have "distinct order" using kahn_invD(2) [OF assms(1)] by simp
  ultimately have "mset order = mset [0..<length es]"
    using set_eq_iff_mset_eq_distinct [of order "[0..<length es]"] by (simp add: atLeast0LessThan)
  then have "mset (map (\<lambda>i. es ! i) order) = mset (map (\<lambda>i. es ! i) [0..<length es])"
    by (simp only: mset_map)
  then show ?thesis by (simp only: map_nth)
qed

lemma complete_order_deps:
  assumes inv: "kahn_inv (length es) (deps_of es) deg [] order" and k: "k < length order"
    and d: "d \<in> set (me_deps (es ! (order ! k)))" "d \<in> me_name ` set es"
  shows "d \<in> me_name ` set (take k (map (\<lambda>i. es ! i) order))"
proof -
  obtain j where j: "name_to_idx es d = Some j" using d(2) name_to_idx_None [of es d] by (cases "name_to_idx es d") simp_all
  then have "j \<in> set (deps_of es (order ! k))" using d(1) by (rule deps_ofI)
  then have "j \<in> set (take k order)" using kahn_invD(5) [OF inv k] by (rule subsetD [rotated])
  then have "es ! j \<in> set (take k (map (\<lambda>i. es ! i) order))" by (simp add: take_map)
  then show ?thesis using name_to_idx_Some [OF j] by (intro image_eqI [of _ _ "es ! j"]) simp_all
qed

text \<open>
  C8: The boot order respects dependencies. \<open>topological_sort\<close> succeeds exactly when the declared
  dependencies have no cycle, and never panics; on success it returns the same modules, and every
  module comes behind every registered module it names as a dependency.
\<close>

theorem topological_sort_correct:
  "(case topological_sort es of
      Ok es' \<Rightarrow> \<not> cyclic es \<and> mset es' = mset es
        \<and> (\<forall>k < length es'. \<forall>d \<in> set (me_deps (es' ! k)). d \<in> me_name ` set es \<longrightarrow> d \<in> me_name ` set (take k es'))
    | Err names \<Rightarrow> cyclic es
    | Panic \<Rightarrow> False)"
proof (cases "es = []")
  case True
  then show ?thesis by (simp add: topological_sort_def cyclic_def)
next
  case False
  obtain deg dependents where g: "build_graph es = (deg, dependents)" by fastforce
  let ?prio = "\<lambda>i. me_priority (es ! i)"
  let ?ready = "map (\<lambda>i. (?prio i, i)) (filter (\<lambda>i. deg ! i = 0) [0..<length es])"
  obtain order deg' where k: "kahn ?prio dependents deg ?ready [] = Ok order" "kahn_inv (length es) (deps_of es) deg' [] order"
    using kahn_correct [of deg dependents "length es" "deps_of es" deg ?ready "[]" ?prio] kahn_start [OF g, of ?prio]
      build_graph_counts [of es] g by auto
  show ?thesis
  proof (cases "length order = length es")
    case True
    then show ?thesis
      using False g k(1) no_cycle_when_complete [OF k(2)] complete_order_mset [OF k(2)] complete_order_deps [OF k(2)]
      by (simp add: topological_sort_def)
  next
    case incomplete: False
    then show ?thesis
      using False g k(1) cycle_when_incomplete [OF k(2)] by (simp add: topological_sort_def)
  qed
qed

section \<open>Phases and hooks\<close>

datatype phase = Config | Validate | Init | Start | Ready | Stopping | Stopped

fun can_transition_to :: "phase \<Rightarrow> phase \<Rightarrow> bool" where
  "can_transition_to Config Validate \<longleftrightarrow> True"
| "can_transition_to Validate Init \<longleftrightarrow> True"
| "can_transition_to Init Start \<longleftrightarrow> True"
| "can_transition_to Start Ready \<longleftrightarrow> True"
| "can_transition_to Ready Stopping \<longleftrightarrow> True"
| "can_transition_to Config Stopping \<longleftrightarrow> True"
| "can_transition_to Validate Stopping \<longleftrightarrow> True"
| "can_transition_to Init Stopping \<longleftrightarrow> True"
| "can_transition_to Start Stopping \<longleftrightarrow> True"
| "can_transition_to Stopping Stopped \<longleftrightarrow> True"
| "can_transition_to _ _ \<longleftrightarrow> False"

definition transition :: "phase \<Rightarrow> phase \<Rightarrow> (phase, phase \<times> phase) outcome" where
  "transition source target = (if can_transition_to source target then Ok target else Err (source, target))"

fun next_startup_phase :: "phase \<Rightarrow> phase option" where
  "next_startup_phase Config = Some Validate"
| "next_startup_phase Validate = Some Init"
| "next_startup_phase Init = Some Start"
| "next_startup_phase Start = Some Ready"
| "next_startup_phase Ready = None"
| "next_startup_phase Stopping = Some Stopped"
| "next_startup_phase Stopped = None"

type_synonym 'w hook = "phase \<Rightarrow> 'w \<Rightarrow> (unit, string) outcome \<times> 'w"

fun notify_phase_entered :: "'w hook list \<Rightarrow> phase \<Rightarrow> 'w \<Rightarrow> (unit, string) outcome \<times> 'w" where
  "notify_phase_entered [] ph w = (Ok (), w)"
| "notify_phase_entered (h # hs) ph w =
     (case h ph w of
        (Ok _, w1) \<Rightarrow> notify_phase_entered hs ph w1
      | r \<Rightarrow> r)"

section \<open>The engine\<close>

text \<open>An error of the engine: a module that failed to start, or the error of a hook or of \<^verbatim>\<open>on_stop\<close>.\<close>

datatype engine_error = StartFailed string string | Failed string

text \<open>The loop of \<^verbatim>\<open>rollback\<close> over the entries in the order they are stopped; the first error is kept.\<close>

fun stop_loop :: "'w module_entry list \<Rightarrow> string option \<Rightarrow> 'w \<Rightarrow> (unit, string) outcome \<times> 'w" where
  "stop_loop [] first_err w = (case first_err of None \<Rightarrow> (Ok (), w) | Some e \<Rightarrow> (Err e, w))"
| "stop_loop (m # ms) first_err w =
     (case on_stop (me_lifecycle m) w of
        (Ok _, w1) \<Rightarrow> stop_loop ms first_err w1
      | (Err e, w1) \<Rightarrow> stop_loop ms (case first_err of None \<Rightarrow> Some e | Some e1 \<Rightarrow> Some e1) w1
      | (Panic, w1) \<Rightarrow> (Panic, w1))"

definition rollback :: "'w module_entry list \<Rightarrow> 'w \<Rightarrow> (unit, string) outcome \<times> 'w" where
  "rollback entries w = stop_loop (rev entries) None w"

text \<open>The start loop; \<open>before\<close> are the entries already started.\<close>

fun start_loop :: "'w module_entry list \<Rightarrow> 'w module_entry list \<Rightarrow> 'w \<Rightarrow> (unit, engine_error) outcome \<times> 'w" where
  "start_loop before [] w = (Ok (), w)"
| "start_loop before (m # ms) w =
     (case on_start (me_lifecycle m) w of
        (Ok _, w1) \<Rightarrow> start_loop (before @ [m]) ms w1
      | (Panic, w1) \<Rightarrow> (Panic, w1)
      | (Err e, w1) \<Rightarrow>
          (case rollback before w1 of
             (Panic, w2) \<Rightarrow> (Panic, w2)
           | (_, w2) \<Rightarrow> (Err (StartFailed (me_name m) e), w2)))"

fun notify_all :: "'w hook list \<Rightarrow> phase list \<Rightarrow> 'w \<Rightarrow> (unit, engine_error) outcome \<times> 'w" where
  "notify_all hooks [] w = (Ok (), w)"
| "notify_all hooks (ph # phs) w =
     (case notify_phase_entered hooks ph w of
        (Ok _, w1) \<Rightarrow> notify_all hooks phs w1
      | (Err e, w1) \<Rightarrow> (Err (Failed e), w1)
      | (Panic, w1) \<Rightarrow> (Panic, w1))"

text \<open>
  \<^verbatim>\<open>LifecycleEngine::run\<close>. \<open>ready\<close> is what happens until the shutdown signal. \<open>in_time\<close> is the number
  of modules that stop before the drain timeout (\<open>None\<close>: all of them); after the timeout the
  result of the stop is \<^verbatim>\<open>Ok\<close>.
\<close>

definition lifecycle_run ::
  "'w hook list \<Rightarrow> 'w registry \<Rightarrow> ('w \<Rightarrow> 'w) \<Rightarrow> nat option \<Rightarrow> 'w \<Rightarrow> (unit, engine_error) outcome \<times> 'w" where
  "lifecycle_run hooks entries ready in_time w =
     (case notify_all hooks [Config, Validate, Init] w of
        (Err e, w1) \<Rightarrow> (Err e, w1)
      | (Panic, w1) \<Rightarrow> (Panic, w1)
      | (Ok _, w1) \<Rightarrow>
     (case start_loop [] entries w1 of
        (Err e, w2) \<Rightarrow> (Err e, w2)
      | (Panic, w2) \<Rightarrow> (Panic, w2)
      | (Ok _, w2) \<Rightarrow>
     (case notify_all hooks [Start, Ready] w2 of
        (Err e, w3) \<Rightarrow> (Err e, w3)
      | (Panic, w3) \<Rightarrow> (Panic, w3)
      | (Ok _, w3) \<Rightarrow>
     (case notify_all hooks [Stopping] (ready w3) of
        (Err e, w4) \<Rightarrow> (Err e, w4)
      | (Panic, w4) \<Rightarrow> (Panic, w4)
      | (Ok _, w4) \<Rightarrow>
          (let (stop_result, w5) =
                 (case in_time of
                    None \<Rightarrow> rollback entries w4
                  | Some k \<Rightarrow>
                      if length entries \<le> k then rollback entries w4
                      else (case stop_loop (take k (rev entries)) None w4 of
                              (Panic, w5) \<Rightarrow> (Panic, w5)
                            | (_, w5) \<Rightarrow> (Ok (), w5)))
           in case stop_result of
                Panic \<Rightarrow> (Panic, w5)
              | _ \<Rightarrow>
                  (case notify_all hooks [Stopped] w5 of
                     (Err e, w6) \<Rightarrow> (Err e, w6)
                   | (Panic, w6) \<Rightarrow> (Panic, w6)
                   | (Ok _, w6) \<Rightarrow>
                       (case stop_result of Err e \<Rightarrow> (Err (Failed e), w6) | _ \<Rightarrow> (Ok (), w6))))))))"

text \<open>\<^verbatim>\<open>Moduvex::run\<close>: the registered modules in the order of their priority, with no hooks.\<close>

definition app_run :: "'w registry \<Rightarrow> ('w \<Rightarrow> 'w) \<Rightarrow> nat option \<Rightarrow> 'w \<Rightarrow> (unit, engine_error) outcome \<times> 'w" where
  "app_run modules ready in_time w =
     lifecycle_run [] (sort_by_priority (foldl (\<lambda>r e. registry_push e r) [] modules)) ready in_time w"

section \<open>Start and stop\<close>

text \<open>The effects of starting and stopping, for modules whose calls return.\<close>

definition started :: "'w module_entry list \<Rightarrow> 'w \<Rightarrow> 'w" where
  "started ms w = fold (\<lambda>m w. snd (on_start (me_lifecycle m) w)) ms w"

definition stopped :: "'w module_entry list \<Rightarrow> 'w \<Rightarrow> 'w" where
  "stopped ms w = fold (\<lambda>m w. snd (on_stop (me_lifecycle m) w)) ms w"

definition starts_ok :: "'w module_entry \<Rightarrow> bool" where
  "starts_ok m \<longleftrightarrow> (\<forall>w. fst (on_start (me_lifecycle m) w) = Ok ())"

definition stop_returns :: "'w module_entry \<Rightarrow> bool" where
  "stop_returns m \<longleftrightarrow> (\<forall>w. fst (on_stop (me_lifecycle m) w) \<noteq> Panic)"

lemma start_loop_ok: "list_all starts_ok ms \<Longrightarrow> start_loop before (ms @ rest) w = start_loop (before @ ms) rest (started ms w)"
proof (induction ms arbitrary: before w)
  case (Cons m ms)
  obtain w1 where "on_start (me_lifecycle m) w = (Ok (), w1)"
    using Cons.prems by (metis starts_ok_def list.pred_inject(2) prod.collapse)
  then show ?case using Cons.IH [of "before @ [m]" w1] Cons.prems by (simp add: started_def)
qed (simp add: started_def)

lemma stop_loop_runs_all:
  "list_all stop_returns ms \<Longrightarrow> snd (stop_loop ms err w) = stopped ms w \<and> fst (stop_loop ms err w) \<noteq> Panic"
proof (induction ms arbitrary: err w)
  case Nil
  then show ?case by (simp add: stopped_def split: option.split)
next
  case (Cons m ms)
  obtain r w1 where r: "on_stop (me_lifecycle m) w = (r, w1)" by fastforce
  then have "r \<noteq> Panic" using Cons.prems by (metis fst_conv list.pred_inject(2) stop_returns_def)
  then show ?case using r Cons.IH Cons.prems by (cases r) (simp_all add: stopped_def)
qed

lemma rollback_runs_all:
  assumes "list_all stop_returns ms"
  obtains r where "rollback ms w = (r, stopped (rev ms) w)" "r \<noteq> Panic"
  using stop_loop_runs_all [of "rev ms" None w] assms that [of "fst (rollback ms w)"]
  by (simp add: rollback_def list_all_iff prod_eq_iff)


text \<open>A module that writes its starts and stops to a log.\<close>

definition logging :: "string \<Rightarrow> int \<Rightarrow> string list \<Rightarrow> string list module_entry" where
  "logging name prio deps = \<lparr>me_name = name, me_priority = prio, me_deps = deps,
     me_lifecycle = \<lparr>on_start = (\<lambda>w. (Ok (), w @ [''+'' @ name])), on_stop = (\<lambda>w. (Ok (), w @ [''-'' @ name]))\<rparr>\<rparr>"

lemma logging_ok: "starts_ok (logging n p d)" "stop_returns (logging n p d)"
  by (simp_all add: starts_ok_def stop_returns_def logging_def)


theorem topological_sort_correct_witness:
  "\<not> cyclic [logging ''db'' 0 [], logging ''web'' 10 [''db'']]
   \<and> cyclic [logging ''a'' 0 [''b''], logging ''b'' 0 [''a'']]"
proof
  let ?ms = "[logging ''db'' 0 [], logging ''web'' 10 [''db'']]"
  have "build_graph ?ms = ([0, 1], [[1], []])"
    by (simp add: build_graph_def name_to_idx_def add_edge_def logging_def)
  then have "topological_sort ?ms = Ok ?ms"
    by (simp add: topological_sort_def kahn.simps heap_pop_def Let_def)
  then show "\<not> cyclic ?ms" using topological_sort_correct [of ?ms] by simp
next
  let ?ms = "[logging ''a'' 0 [''b''], logging ''b'' 0 [''a'']]"
  have "build_graph ?ms = ([1, 1], [[1], [0]])"
    by (simp add: build_graph_def name_to_idx_def add_edge_def logging_def)
  then have "topological_sort ?ms = Err [''a'', ''b'']"
    by (simp add: topological_sort_def kahn.simps heap_pop_def circular_error_def) (simp add: logging_def)
  then show "cyclic ?ms" using topological_sort_correct [of ?ms] by simp
qed

text \<open>
  The application does not start modules in dependency order. \<open>app_run\<close> hands the engine the modules
  sorted by priority only: a module of higher priority than the module it depends on is started before it and
  stopped after it, although the topological sort of the same modules would put the dependency first.
\<close>

theorem dependency_started_late:
  "snd (app_run [logging ''db'' 0 [], logging ''web'' 10 [''db'']] (\<lambda>w. w) None []) = [''+web'', ''+db'', ''-db'', ''-web'']
   \<and> map_outcome (map me_name) id (topological_sort [logging ''db'' 0 [], logging ''web'' 10 [''db'']]) = Ok [''db'', ''web'']"
proof -
  let ?ms = "[logging ''db'' 0 [], logging ''web'' 10 [''db'']]"
  have "sort_by_priority (foldl (\<lambda>r e. registry_push e r) [] ?ms) = [logging ''web'' 10 [''db''], logging ''db'' 0 []]"
    by (simp add: sort_by_priority_def registry_push_def logging_def)
  moreover have "snd (lifecycle_run [] [logging ''web'' 10 [''db''], logging ''db'' 0 []] (\<lambda>w. w) None [])
      = [''+web'', ''+db'', ''-db'', ''-web'']"
    by (simp add: lifecycle_run_def rollback_def logging_def)
  ultimately have "snd (app_run ?ms (\<lambda>w. w) None []) = [''+web'', ''+db'', ''-db'', ''-web'']"
    unfolding app_run_def by (simp only:)
  moreover have "build_graph ?ms = ([0, 1], [[1], []])"
    by (simp add: build_graph_def name_to_idx_def add_edge_def logging_def)
  then have "map_outcome (map me_name) id (topological_sort ?ms) = Ok [''db'', ''web'']"
    by (simp add: topological_sort_def kahn.simps heap_pop_def Let_def) (simp add: logging_def)
  ultimately show ?thesis by blast
qed

text \<open>
  A failing hook leaves the modules running. When a hook fails after the modules have started, here on entering
  \<^verbatim>\<open>Ready\<close>, the engine returns its error without stopping any module.
\<close>

theorem hook_failure_skips_stop:
  "lifecycle_run [\<lambda>ph w. if ph = Ready then (Err ''hook'', w) else (Ok (), w)] [logging ''db'' 0 []] (\<lambda>w. w) None []
   = (Err (Failed ''hook''), [''+db''])"
  by (simp add: lifecycle_run_def logging_def)

end
