(* ===== verification/Core_Errors.thy ===== *)
theory Core_Errors
  imports Http_Types
begin

text \<open>
  The errors of the application core (\<^verbatim>\<open>moduvex-core/src/error\<close>): their classes, their text, and
  context added on the way up; and the containers of shared values (\<^verbatim>\<open>di/scope.rs\<close>,
  \<^verbatim>\<open>app/context.rs\<close>). An error of the application behind a trait object is what the trait lets
  a caller see of it: its text and the answers of its methods.
\<close>

section \<open>Errors\<close>

record domain_error =
  de_code :: bytes
  de_status :: u16
  de_public :: bool
  de_text :: bytes

record infra_error =
  ie_retryable :: bool
  ie_retry_after_ms :: "u64 option"
  ie_text :: bytes

record core_config_error =
  cce_message :: bytes
  cce_key :: "bytes option"

record core_lifecycle_error =
  cle_message :: bytes
  cle_module :: "bytes option"

text \<open>Beside each boxed error, the error it wraps, as \<^verbatim>\<open>source\<close> reports it.\<close>

datatype moduvex_error =
  Domain domain_error "moduvex_error option"
| Infra infra_error "moduvex_error option"
| ConfigClass core_config_error
| LifecycleClass core_lifecycle_error
| OtherClass bytes "moduvex_error option"

definition config_error_text :: "core_config_error \<Rightarrow> bytes" where
  "config_error_text e =
     (case cce_key e of
        Some k \<Rightarrow> ascii ''config error at '' @ 39 # k @ 39 # ascii '': '' @ cce_message e
      | None \<Rightarrow> ascii ''config error: '' @ cce_message e)"

definition lifecycle_error_text :: "core_lifecycle_error \<Rightarrow> bytes" where
  "lifecycle_error_text e =
     (case cle_module e of
        Some m \<Rightarrow> ascii ''lifecycle error in module '' @ 39 # m @ 39 # ascii '': '' @ cle_message e
      | None \<Rightarrow> ascii ''lifecycle error: '' @ cle_message e)"

fun error_text :: "moduvex_error \<Rightarrow> bytes" where
  "error_text (Domain e _) = ascii ''domain error ['' @ de_code e @ ascii '']: '' @ de_text e"
| "error_text (Infra e _) =
     ascii ''infra error (retryable='' @ ascii (if ie_retryable e then ''true'' else ''false'') @ ascii ''): '' @ ie_text e"
| "error_text (ConfigClass e) = config_error_text e"
| "error_text (LifecycleClass e) = lifecycle_error_text e"
| "error_text (OtherClass t _) = ascii ''error: '' @ t"

definition context_text :: "bytes \<Rightarrow> moduvex_error \<Rightarrow> bytes" where
  "context_text context source = context @ ascii '': '' @ error_text source"

fun wrap_with_context :: "moduvex_error \<Rightarrow> bytes \<Rightarrow> moduvex_error" where
  "wrap_with_context (Infra e src) msg =
     Infra \<lparr>ie_retryable = ie_retryable e, ie_retry_after_ms = ie_retry_after_ms e,
            ie_text = context_text msg (Infra e src)\<rparr> (Some (Infra e src))"
| "wrap_with_context (Domain e src) msg =
     Domain \<lparr>de_code = de_code e, de_status = de_status e, de_public = de_public e,
             de_text = context_text msg (Domain e src)\<rparr> (Some (Domain e src))"
| "wrap_with_context (ConfigClass e) msg =
     ConfigClass \<lparr>cce_message = msg @ ascii '': '' @ config_error_text e, cce_key = None\<rparr>"
| "wrap_with_context (LifecycleClass e) msg =
     LifecycleClass \<lparr>cle_message = msg @ ascii '': '' @ cle_message e, cle_module = cle_module e\<rparr>"
| "wrap_with_context (OtherClass t src) msg =
     OtherClass (context_text msg (OtherClass t src)) (Some (OtherClass t src))"

definition add_context :: "bytes \<Rightarrow> ('a, moduvex_error) outcome \<Rightarrow> ('a, moduvex_error) outcome" where
  "add_context msg res = (case res of Err e \<Rightarrow> Err (wrap_with_context e msg) | _ \<Rightarrow> res)"

text \<open>The kinds of an operating system error, as far as the conversion looks at them.\<close>

datatype io_kind = IoConnectionReset | IoConnectionAborted | IoTimedOut | IoWouldBlock | IoOtherKind

definition from_io_error :: "io_kind \<Rightarrow> bytes \<Rightarrow> moduvex_error" where
  "from_io_error kind t =
     Infra \<lparr>ie_retryable = kind \<in> {IoConnectionReset, IoConnectionAborted, IoTimedOut, IoWouldBlock},
            ie_retry_after_ms = None, ie_text = ascii ''I/O error: '' @ t\<rparr> None"

section \<open>Shared values\<close>

text \<open>A \<^verbatim>\<open>TypeMap\<close> holds one value per type; a type is its number.\<close>

type_synonym 'v type_map = "nat \<rightharpoonup> 'v"

definition tm_insert :: "'v type_map \<Rightarrow> nat \<Rightarrow> 'v \<Rightarrow> 'v type_map" where
  "tm_insert m t v = m(t \<mapsto> v)"

definition tm_get :: "'v type_map \<Rightarrow> nat \<Rightarrow> 'v option" where
  "tm_get m t = m t"

definition ctx_require :: "(nat \<Rightarrow> bytes) \<Rightarrow> 'v type_map \<Rightarrow> nat \<Rightarrow> ('v, moduvex_error) outcome" where
  "ctx_require type_name m t =
     ok_or (tm_get m t) (ConfigClass \<lparr>cce_message =
       ascii ''required singleton '' @ 39 # type_name t @ 39 # ascii '' not found in AppContext '' @ [0xE2, 0x80, 0x94]
         @ ascii '' ensure the providing module is registered before use'', cce_key = None\<rparr>)"

record 'v request_context =
  rc_app :: "'v type_map"
  rc_extensions :: "'v type_map"

definition request_context_new :: "'v type_map \<Rightarrow> 'v request_context" where
  "request_context_new app = \<lparr>rc_app = app, rc_extensions = Map.empty\<rparr>"

definition rc_insert :: "nat \<Rightarrow> 'v \<Rightarrow> 'v request_context \<Rightarrow> 'v request_context" where
  "rc_insert t v c = c\<lparr>rc_extensions := tm_insert (rc_extensions c) t v\<rparr>"

definition rc_get :: "'v request_context \<Rightarrow> nat \<Rightarrow> 'v option" where
  "rc_get c t = tm_get (rc_app c) t"

interpretation singletons: header_store tm_get tm_insert "\<lambda>t. t"
  by unfold_locales (simp add: tm_get_def tm_insert_def)

section \<open>Properties\<close>

text \<open>What an error handler decides on: the class of an error and its metadata.\<close>

datatype classification =
  IsDomain bytes u16 bool
| IsInfra bool "u64 option"
| IsConfig
| IsLifecycle "bytes option"
| IsOther

fun classify :: "moduvex_error \<Rightarrow> classification" where
  "classify (Domain e _) = IsDomain (de_code e) (de_status e) (de_public e)"
| "classify (Infra e _) = IsInfra (ie_retryable e) (ie_retry_after_ms e)"
| "classify (ConfigClass e) = IsConfig"
| "classify (LifecycleClass e) = IsLifecycle (cle_module e)"
| "classify (OtherClass _ _) = IsOther"

text \<open>The number of errors below one, following \<^verbatim>\<open>source\<close>.\<close>

fun chain_depth :: "moduvex_error \<Rightarrow> nat" where
  "chain_depth (Domain _ (Some s)) = Suc (chain_depth s)"
| "chain_depth (Infra _ (Some s)) = Suc (chain_depth s)"
| "chain_depth (OtherClass _ (Some s)) = Suc (chain_depth s)"
| "chain_depth _ = 0"

lemma wrap_classify: "classify (wrap_with_context e msg) = classify e"
  by (cases e) simp_all

lemma wrap_text:
  "\<exists>pre post. error_text (wrap_with_context e msg) = pre @ msg @ ascii '': '' @ post"
proof (cases e)
  case (Domain d src)
  then show ?thesis
    by (auto simp: context_text_def intro: exI [of _ "ascii ''domain error ['' @ de_code d @ ascii '']: ''"])
next
  case (Infra i src)
  let ?pre = "ascii ''infra error (retryable='' @ ascii (if ie_retryable i then ''true'' else ''false'') @ ascii ''): ''"
  have "error_text (wrap_with_context e msg) = ?pre @ msg @ ascii '': '' @ error_text e"
    by (simp add: Infra context_text_def)
  then show ?thesis by blast
next
  case (ConfigClass c)
  then show ?thesis by (auto simp: config_error_text_def intro: exI [of _ "ascii ''config error: ''"])
next
  case (LifecycleClass l)
  have "error_text (wrap_with_context e msg) =
      lifecycle_error_text (l\<lparr>cle_message := []\<rparr>) @ msg @ ascii '': '' @ cle_message l"
    by (simp add: LifecycleClass lifecycle_error_text_def split: option.splits)
  then show ?thesis by blast
next
  case (OtherClass t src)
  then show ?thesis by (auto simp: context_text_def intro: exI [of _ "ascii ''error: ''"])
qed

text \<open>
  Adding context, however often, changes neither the class of an error nor the metadata a
  handler decides on (status, code, visibility, retries, module), the outermost context is in
  its text, and every context of a boxed error is one more step of the chain of sources.
\<close>

theorem context_keeps_classification:
  "classify (foldl wrap_with_context e msgs) = classify e \<and>
   chain_depth (foldl wrap_with_context e msgs) =
     (case e of ConfigClass _ \<Rightarrow> 0 | LifecycleClass _ \<Rightarrow> 0 | _ \<Rightarrow> chain_depth e + length msgs) \<and>
   (\<exists>pre post. error_text (wrap_with_context (foldl wrap_with_context e msgs) msg) = pre @ msg @ ascii '': '' @ post)"
proof -
  have cls: "classify (foldl wrap_with_context e msgs) = classify e"
    by (induction msgs rule: rev_induct) (simp_all add: wrap_classify)
  have depth: "chain_depth (wrap_with_context e m) = (case classify e of IsConfig \<Rightarrow> 0 | IsLifecycle _ \<Rightarrow> 0
      | _ \<Rightarrow> Suc (chain_depth e))" for e m
    by (cases e) simp_all
  have "chain_depth (foldl wrap_with_context e msgs) =
      (case classify e of IsConfig \<Rightarrow> 0 | IsLifecycle _ \<Rightarrow> 0 | _ \<Rightarrow> chain_depth e + length msgs)"
  proof (induction msgs rule: rev_induct)
    case Nil
    show ?case by (cases e) simp_all
  next
    case (snoc m ms)
    have "classify (foldl wrap_with_context e ms) = classify e"
      by (induction ms rule: rev_induct) (simp_all add: wrap_classify)
    with snoc depth [of "foldl wrap_with_context e ms" m] show ?case by (cases e) simp_all
  qed
  then have "chain_depth (foldl wrap_with_context e msgs) =
      (case e of ConfigClass _ \<Rightarrow> 0 | LifecycleClass _ \<Rightarrow> 0 | _ \<Rightarrow> chain_depth e + length msgs)"
    by (cases e) simp_all
  with cls wrap_text show ?thesis by blast
qed

text \<open>
  The key of a configuration error does not survive: with context added, the error no longer
  says which key it is about except inside its text.
\<close>

theorem context_drops_config_key:
  "wrap_with_context (ConfigClass \<lparr>cce_message = m, cce_key = Some k\<rparr>) msg =
     ConfigClass \<lparr>cce_message = msg @ ascii '': config error at '' @ 39 # k @ 39 # ascii '': '' @ m, cce_key = None\<rparr>"
  by (simp add: config_error_text_def ascii_def)

text \<open>
  The application's values reach every request and a request's own values reach no other: what
  a request sees of the application is the last value inserted for each type.
\<close>

theorem request_values_isolated:
  "rc_get (foldl (\<lambda>c (t, v). rc_insert t v c) (request_context_new (foldl (\<lambda>m (t, v). tm_insert m t v) Map.empty kvs)) rvs) t =
     (case filter (\<lambda>(k, v). k = t) kvs of [] \<Rightarrow> None | es \<Rightarrow> Some (snd (last es)))"
proof -
  have "rc_app (foldl (\<lambda>c (t, v). rc_insert t v c) c rvs) = rc_app c" for c
    by (induction rvs arbitrary: c) (auto simp: rc_insert_def)
  then show ?thesis
    using singletons.get_puts [of Map.empty kvs t]
    by (simp add: rc_get_def request_context_new_def tm_get_def split: list.splits)
qed

end
