(* ===== verification/Extract.thy ===== *)
theory Extract
  imports H1_Conn Text
begin

text \<open>
  Extractors of request data (\<^verbatim>\<open>moduvex-http/src/extract\<close>): URL-encoded forms (\<^verbatim>\<open>form.rs\<close>), query strings
  (\<^verbatim>\<open>query.rs\<close>) and \<^verbatim>\<open>multipart/form-data\<close> bodies (\<^verbatim>\<open>multipart.rs\<close>). Strings are their bytes. The
  deserialiser of \<^verbatim>\<open>serde_json\<close> is a parameter of the form extractor.
\<close>

section \<open>URL-encoded forms\<close>

definition hex_val :: "byte \<Rightarrow> byte option" where
  "hex_val b =
     (if 48 \<le> b \<and> b \<le> 57 then Some (b - 48)
      else if 97 \<le> b \<and> b \<le> 102 then Some (b - 97 + 10)
      else if 65 \<le> b \<and> b \<le> 70 then Some (b - 65 + 10)
      else None)"

definition decode_hex_byte :: "byte \<Rightarrow> byte \<Rightarrow> byte option" where
  "decode_hex_byte hi lo =
     (case hex_val hi of
        None \<Rightarrow> None
      | Some h \<Rightarrow> (case hex_val lo of None \<Rightarrow> None | Some l \<Rightarrow> Some (push_bit 4 h OR l)))"

fun form_percent_decode :: "bytes \<Rightarrow> bytes" where
  "form_percent_decode [] = []"
| "form_percent_decode (b # rest) =
     (if b = 43 then 32 # form_percent_decode rest
      else if b = 37 then
        (case rest of
           hi # lo # rest' \<Rightarrow>
             (case decode_hex_byte hi lo of
                Some v \<Rightarrow> v # form_percent_decode rest'
              | None \<Rightarrow> 37 # form_percent_decode rest)
         | _ \<Rightarrow> 37 # form_percent_decode rest)
      else b # form_percent_decode rest)"

definition form_pair :: "bytes \<Rightarrow> (bytes \<times> bytes) option" where
  "form_pair pair =
     (let (key_raw, val_raw) = split_two 61 pair;
          key = utf8_lossy (form_percent_decode key_raw);
          val = utf8_lossy (form_percent_decode (case val_raw of Some v \<Rightarrow> v | None \<Rightarrow> []))
      in if key = [] then None else Some (key, val))"

definition parse_urlencoded :: "bytes \<Rightarrow> (bytes \<times> bytes) list" where
  "parse_urlencoded data = (if data = [] then [] else List.map_filter form_pair (split_on 38 data))"

text \<open>JSON text of the pairs. Characters outside ASCII are copied, so the escape works byte by byte.\<close>

definition json_escape_byte :: "byte \<Rightarrow> bytes" where
  "json_escape_byte b =
     (if b = 34 then [92, 34]
      else if b = 92 then [92, 92]
      else if b = 10 then [92, 110]
      else if b = 13 then [92, 114]
      else if b = 9 then [92, 116]
      else if b < 0x20 then [92, 117, 48, 48, hex_digit (unat b div 16), hex_digit (unat b mod 16)]
      else [b])"

definition json_escape_into :: "bytes \<Rightarrow> bytes" where
  "json_escape_into s = concat (map json_escape_byte s)"

definition json_member :: "bytes \<times> bytes \<Rightarrow> bytes" where
  "json_member p = 34 # json_escape_into (fst p) @ [34, 58, 34] @ json_escape_into (snd p) @ [34]"

definition pairs_to_json :: "(bytes \<times> bytes) list \<Rightarrow> bytes" where
  "pairs_to_json ps = 123 # join_with [44] (map json_member ps) @ [125]"

text \<open>\<^verbatim>\<open>Form::from_request\<close>; the body is taken out of the request once the type has been accepted.\<close>

definition form_rejection :: "bytes \<Rightarrow> response" where
  "form_rejection msg = response_content_type (response_with_body 422 msg) (ascii ''text/plain; charset=utf-8'')"

definition form_read_body :: "(bytes \<Rightarrow> ('t, bytes) outcome) \<Rightarrow> request \<Rightarrow> ('t, response) outcome \<times> request" where
  "form_read_body deser req =
     (let req1 = req\<lparr>req_body := Empty\<rparr>
      in case deser (pairs_to_json (parse_urlencoded (body_into_bytes (req_body req)))) of
           Ok v \<Rightarrow> (Ok v, req1)
         | Err e \<Rightarrow> (Err (form_rejection (ascii ''form deserialization error: '' @ e)), req1)
         | Panic \<Rightarrow> (Panic, req1))"

definition form_from_request :: "(bytes \<Rightarrow> ('t, bytes) outcome) \<Rightarrow> request \<Rightarrow> ('t, response) outcome \<times> request" where
  "form_from_request deser req =
     (case header_get_str (req_headers req) (ascii ''content-type'') of
        Some ct \<Rightarrow>
          if \<not> eq_ignore_ascii_case (str_trim (hd (split_on 59 ct))) (ascii ''application/x-www-form-urlencoded'')
          then (Err (form_rejection (ascii ''expected content-type application/x-www-form-urlencoded, got '' @ ct)), req)
          else form_read_body deser req
      | None \<Rightarrow> form_read_body deser req)"

section \<open>Query strings\<close>

text \<open>The digits go through \<^verbatim>\<open>u8::from_str_radix\<close>; a value that is not UTF-8 becomes the empty string.\<close>

fun query_decode_bytes :: "bytes \<Rightarrow> bytes" where
  "query_decode_bytes [] = []"
| "query_decode_bytes (b # rest) =
     (if b = 43 then 32 # query_decode_bytes rest
      else if b = 37 then
        (case rest of
           hi # lo # rest' \<Rightarrow>
             (case parse_uint 16 256 (if utf8_valid [hi, lo] then the (utf8_decode [hi, lo]) else []) of
                Some v \<Rightarrow> of_nat v # query_decode_bytes rest'
              | None \<Rightarrow> 37 # query_decode_bytes rest)
         | _ \<Rightarrow> 37 # query_decode_bytes rest)
      else b # query_decode_bytes rest)"

definition query_percent_decode :: "bytes \<Rightarrow> bytes" where
  "query_percent_decode s = (let out = query_decode_bytes s in if utf8_valid out then out else [])"

definition query_pair :: "bytes \<Rightarrow> bytes \<times> bytes" where
  "query_pair pair =
     (let (key, val) = split_two 61 pair
      in (query_percent_decode key, query_percent_decode (case val of Some v \<Rightarrow> v | None \<Rightarrow> [])))"

definition parse_query_string :: "bytes \<Rightarrow> (bytes \<rightharpoonup> bytes)" where
  "parse_query_string q =
     foldl (\<lambda>m kv. m(fst kv \<mapsto> snd kv)) Map.empty
       (map query_pair (filter (\<lambda>s. s \<noteq> []) (split_on 38 q)))"

definition query_from_request :: "request \<Rightarrow> (bytes \<rightharpoonup> bytes)" where
  "query_from_request req = (case req_query req of Some q \<Rightarrow> parse_query_string q | None \<Rightarrow> Map.empty)"

section \<open>Encoded pairs are recovered\<close>

text \<open>
  What a URL-encoded text stands for: bytes that are not reserved stand for themselves, \<^verbatim>\<open>+\<close> for a
  space, and \<^verbatim>\<open>%\<close> with two hexadecimal digits, in either case, for any byte.
\<close>

inductive url_encoded :: "bytes \<Rightarrow> bytes \<Rightarrow> bool" where
  nothing: "url_encoded [] []"
| itself: "b \<notin> {37, 38, 43, 61} \<Longrightarrow> url_encoded s e \<Longrightarrow> url_encoded (b # s) (b # e)"
| space: "url_encoded s e \<Longrightarrow> url_encoded (32 # s) (43 # e)"
| escaped: "digit_value 16 (unat hi) = Some x \<Longrightarrow> digit_value 16 (unat lo) = Some y \<Longrightarrow> url_encoded s e
    \<Longrightarrow> url_encoded (of_nat (16 * x + y) # s) (37 # hi # lo # e)"

lemma digit_value_16:
  assumes "digit_value 16 (unat b) = Some d"
  shows "d < 16" and "hex_val b = Some (of_nat d)" and "unat b < 128" and "b \<notin> {37, 38, 43, 61}"
    and "unat b \<noteq> 43"
proof -
  have u: "of_nat (unat b) = b" by simp
  have *: "48 \<le> unat b \<and> unat b \<le> 57 \<and> d = unat b - 48 \<or> 97 \<le> unat b \<and> unat b \<le> 102 \<and> d = unat b - 87
      \<or> 65 \<le> unat b \<and> unat b \<le> 70 \<and> d = unat b - 55"
    using assms by (auto simp: digit_value_def Let_def split: if_splits)
  then show "d < 16" and "unat b < 128" and "unat b \<noteq> 43" by auto
  show "b \<notin> {37, 38, 43, 61}" using * by auto
  have sub: "of_nat (unat b - n) = b - of_nat n" if "n \<le> unat b" for n
    using that u by (simp add: of_nat_diff)
  from * show "hex_val b = Some (of_nat d)"
    by (auto simp: hex_val_def word_le_nat_alt sub)
qed

lemma nibbles:
  assumes "x < 16" and "y < 16"
  shows "push_bit 4 (of_nat x :: byte) OR of_nat y = of_nat (16 * x + y)"
proof -
  have "list_all (\<lambda>x. list_all (\<lambda>y. push_bit 4 (of_nat x :: byte) OR of_nat y = of_nat (16 * x + y)) [0..<16]) [0..<16]"
    by code_simp
  then show ?thesis using assms by (simp add: list_all_iff)
qed

lemma form_percent_decode_encoded: "url_encoded s e \<Longrightarrow> form_percent_decode e = s"
  by (induction rule: url_encoded.induct) (auto simp: decode_hex_byte_def digit_value_16 nibbles)

lemma radix_pair:
  assumes "digit_value 16 (unat hi) = Some x" and "digit_value 16 (unat lo) = Some y"
  shows "utf8_decode [hi, lo] = Some [unat hi, unat lo]"
    and "parse_uint 16 256 [unat hi, unat lo] = Some (16 * x + y)"
proof -
  show "parse_uint 16 256 [unat hi, unat lo] = Some (16 * x + y)"
    using assms digit_value_16(1,5) [OF assms(1)] digit_value_16(1) [OF assms(2)] by (simp add: parse_uint_def)
  show "utf8_decode [hi, lo] = Some [unat hi, unat lo]"
    using digit_value_16(3) [OF assms(1)] digit_value_16(3) [OF assms(2)] by simp
qed

lemma query_decode_encoded: "url_encoded s e \<Longrightarrow> query_decode_bytes e = s"
  by (induction rule: url_encoded.induct) (auto simp: radix_pair utf8_valid_def simp del: utf8_decode.simps)

lemma url_encoded_reserved: "url_encoded s e \<Longrightarrow> 38 \<notin> set e \<and> 61 \<notin> set e"
  by (induction rule: url_encoded.induct) (auto dest: digit_value_16(4))

definition pair_encoded :: "bytes \<times> bytes \<Rightarrow> bytes \<Rightarrow> bool" where
  "pair_encoded p e \<longleftrightarrow> (\<exists>k v. e = k @ 61 # v \<and> url_encoded (fst p) k \<and> url_encoded (snd p) v)"

definition pair_ok :: "bytes \<times> bytes \<Rightarrow> bool" where
  "pair_ok p \<longleftrightarrow> fst p \<noteq> [] \<and> utf8_valid (fst p) \<and> utf8_valid (snd p)"

lemma pair_encoded_read:
  assumes "pair_encoded p e" and "pair_ok p"
  shows "form_pair e = Some p" and "query_pair e = p" and "38 \<notin> set e" and "e \<noteq> []"
proof -
  obtain k v where e: "e = k @ 61 # v" "url_encoded (fst p) k" "url_encoded (snd p) v"
    using assms(1) by (auto simp: pair_encoded_def)
  have "split_two 61 e = (k, Some v)" using e url_encoded_reserved by (simp add: split_two_at)
  then show "form_pair e = Some p" "query_pair e = p"
    using assms(2) e
    by (simp_all add: form_pair_def query_pair_def query_percent_decode_def form_percent_decode_encoded
        query_decode_encoded utf8_lossy_valid pair_ok_def)
  show "38 \<notin> set e" "e \<noteq> []" using e url_encoded_reserved by auto
qed

lemma pairs_encoded_read:
  assumes "list_all2 pair_encoded ps es" and "list_all pair_ok ps"
  shows "List.map_filter form_pair es = ps" and "map query_pair (filter (\<lambda>s. s \<noteq> []) es) = ps"
    and "list_all (\<lambda>e. 38 \<notin> set e) es"
  using assms
  by (induction ps es rule: list_all2_induct) (auto simp: map_filter_simps pair_encoded_read)

lemma foldl_map_of: "foldl (\<lambda>m kv. m(fst kv \<mapsto> snd kv)) m ps = m ++ map_of (rev ps)"
  by (induction ps arbitrary: m) (auto simp: map_add_def split: option.splits)

text \<open>
  A URL-encoded text gives back the pairs it encodes, however the encoder chose its
  escapes. From a body the form extractor reads exactly the pairs, in order; from the query string every key is
  bound to the last value sent for it. Keys are non-empty and all strings are UTF-8.
\<close>

theorem urlencoded_pairs_recovered:
  assumes "list_all2 pair_encoded ps es" and "list_all pair_ok ps"
  shows "parse_urlencoded (join_with [38] es) = ps \<and> parse_query_string (join_with [38] es) = map_of (rev ps)"
proof (cases "es = []")
  case True
  then have "ps = []" using assms(1) by simp
  then show ?thesis using True by (simp add: parse_urlencoded_def parse_query_string_def)
next
  case False
  have split: "split_on 38 (join_with [38] es) = es"
    by (rule split_on_join [OF False pairs_encoded_read(3) [OF assms]])
  have "join_with [38] es \<noteq> []"
  proof
    assume "join_with [38] es = []"
    then have "es = [[]]" using split by simp
    then show False using assms(1) by (auto simp: list_all2_Cons2 pair_encoded_def)
  qed
  then show ?thesis
    using split pairs_encoded_read(1,2) [OF assms] by (simp add: parse_urlencoded_def parse_query_string_def foldl_map_of)
qed

theorem urlencoded_pairs_recovered_witness:
  "parse_urlencoded (join_with [38] [ascii ''q=a+%26b'', ascii ''q=%c3%A9'']) = [(ascii ''q'', ascii ''a &b''), (ascii ''q'', [0xC3, 0xA9])]"
proof -
  have e: "url_encoded (ascii ''q'') (ascii ''q'')" by (auto simp: ascii_def of_char_def intro!: url_encoded.intros)
  have "url_encoded (97 # 32 # of_nat (16 * 2 + 6) # 98 # []) (97 # 43 # 37 # 50 # 54 # 98 # [])"
    by (intro url_encoded.intros) (simp_all add: digit_value_def)
  then have 1: "pair_encoded (ascii ''q'', ascii ''a &b'') (ascii ''q=a+%26b'')"
    unfolding pair_encoded_def using e by (intro exI [of _ "ascii ''q''"] exI [of _ "ascii ''a+%26b''"]) (simp add: ascii_def)
  have "url_encoded (of_nat (16 * 12 + 3) # of_nat (16 * 10 + 9) # []) (37 # 99 # 51 # 37 # 65 # 57 # [])"
    by (intro url_encoded.intros) (simp_all add: digit_value_def)
  then have 2: "pair_encoded (ascii ''q'', [0xC3, 0xA9]) (ascii ''q=%c3%A9'')"
    unfolding pair_encoded_def using e by (intro exI [of _ "ascii ''q''"] exI [of _ "ascii ''%c3%A9''"]) (simp add: ascii_def)
  have "list_all pair_ok [(ascii ''q'', ascii ''a &b''), (ascii ''q'', [0xC3, 0xA9])]"
    by (simp add: pair_ok_def utf8_valid_def ascii_def utf8_cont_def)
  then show ?thesis
    using urlencoded_pairs_recovered [of "[(ascii ''q'', ascii ''a &b''), (ascii ''q'', [0xC3, 0xA9])]" "[ascii ''q=a+%26b'', ascii ''q=%c3%A9'']"]
      1 2 by simp
qed

section \<open>The JSON bridge\<close>

text \<open>A reader of JSON objects whose members are strings, as a reference; it begins behind the opening quote.\<close>

fun unescape :: "bytes \<Rightarrow> (byte \<times> bytes) option" where
  "unescape (a # b # c # hi # lo # rest) =
     (if a = 117 \<and> b = 48 \<and> c = 48 then
        (case (digit_value 16 (unat hi), digit_value 16 (unat lo)) of
           (Some x, Some y) \<Rightarrow> if x < 8 then Some (of_nat (16 * x + y), rest) else None
         | _ \<Rightarrow> None)
      else map_option (\<lambda>v. (v, b # c # hi # lo # rest)) (map_of [(34, 34), (92, 92), (110, 10), (114, 13), (116, 9)] a))"
| "unescape (a # rest) = map_option (\<lambda>v. (v, rest)) (map_of [(34, 34), (92, 92), (110, 10), (114, 13), (116, 9)] a)"
| "unescape [] = None"

lemma unescape_shrinks: "unescape s = Some (b, r) \<Longrightarrow> length r < length s"
  by (induction s rule: unescape.induct) (auto split: if_splits option.splits)

function read_string :: "bytes \<Rightarrow> (bytes \<times> bytes) option" where
  "read_string s =
     (case s of
        [] \<Rightarrow> None
      | b # rest \<Rightarrow>
          if b = 34 then Some ([], rest)
          else if b = 92 then
            (case unescape rest of
               None \<Rightarrow> None
             | Some (v, rest') \<Rightarrow> map_option (apfst ((#) v)) (read_string rest'))
          else if b < 0x20 then None
          else map_option (apfst ((#) b)) (read_string rest))"
  by pat_completeness auto
termination by (relation "measure length") (auto dest: unescape_shrinks)

declare read_string.simps [simp del]

lemma read_string_escaped:
  "read_string (json_escape_into s @ 34 # rest) = Some (s, rest)"
proof (induction s)
  case Nil
  then show ?case by (simp add: json_escape_into_def read_string.simps)
next
  case (Cons b s)
  have ctrl: "unescape (117 # 48 # 48 # hex_digit (unat b div 16) # hex_digit (unat b mod 16) # r) = Some (b, r)" if "b < 0x20" for r
  proof -
    have "unat b < 32" using that by (simp add: word_less_nat_alt)
    then have "unat b div 16 < 8" "unat b div 16 < 16" by auto
    then show ?thesis by (simp add: digit_value_hex)
  qed
  have simple: "unescape (a # r) = map_option (\<lambda>v. (v, r)) (map_of [(34, 34), (92, 92), (110, 10), (114, 13), (116, 9)] a)" if "a \<noteq> 117" for a r
    using that by (cases "a # r" rule: unescape.cases) auto
  show ?case
    using Cons ctrl
    by (subst read_string.simps) (auto simp: json_escape_into_def json_escape_byte_def simple)
qed

lemma read_string_shrinks: "read_string s = Some (v, r) \<Longrightarrow> length r < length s"
proof (induction s arbitrary: v rule: read_string.induct)
  case (1 s)
  show ?case
    using "1.prems" "1.IH" unescape_shrinks
    by (subst (asm) read_string.simps) (fastforce split: list.splits if_splits option.splits prod.splits)
qed

function read_members :: "bytes \<Rightarrow> (bytes \<times> bytes) list option" where
  "read_members s =
     (case s of
        q # s1 \<Rightarrow>
          if q \<noteq> 34 then None
          else (case read_string s1 of
                  None \<Rightarrow> None
                | Some (k, s2) \<Rightarrow>
                    if take 2 s2 \<noteq> [58, 34] then None
                    else (case read_string (drop 2 s2) of
                            None \<Rightarrow> None
                          | Some (v, s3) \<Rightarrow>
                              if s3 = [125] then Some [(k, v)]
                              else if s3 = [] \<or> hd s3 \<noteq> 44 then None
                              else map_option ((#) (k, v)) (read_members (tl s3))))
      | [] \<Rightarrow> None)"
  by pat_completeness auto
termination
  by (relation "measure length") (auto dest!: read_string_shrinks)

declare read_members.simps [simp del]

definition read_object :: "bytes \<Rightarrow> (bytes \<times> bytes) list option" where
  "read_object s =
     (if s = [123, 125] then Some []
      else case s of b # rest \<Rightarrow> if b = 123 then read_members rest else None | [] \<Rightarrow> None)"

lemma read_member:
  "read_members (json_member p @ rest) =
     (if rest = [125] then Some [p]
      else if rest = [] \<or> hd rest \<noteq> 44 then None
      else map_option ((#) p) (read_members (tl rest)))"
  by (subst read_members.simps) (simp add: json_member_def read_string_escaped)

lemma read_members_all: "ps \<noteq> [] \<Longrightarrow> read_members (join_with [44] (map json_member ps) @ [125]) = Some ps"
  by (induction ps rule: induct_list012) (simp_all add: read_member)

text \<open>
  C17: No form value can break out of the JSON that is handed to the deserialiser: whatever bytes the keys and values
  hold, a reader of the text finds an object with exactly these members.
\<close>

theorem form_json_keeps_pairs: "read_object (pairs_to_json ps) = Some ps"
proof (cases "ps = []")
  case False
  then have "pairs_to_json ps \<noteq> [123, 125]"
    by (cases ps; cases "tl ps") (auto simp: pairs_to_json_def json_member_def)
  then show ?thesis using False read_members_all [OF False] by (simp add: read_object_def pairs_to_json_def)
qed (simp add: pairs_to_json_def read_object_def)

section \<open>Multipart bodies\<close>

record multipart_field =
  fd_name :: "bytes option"
  fd_file_name :: "bytes option"
  fd_content_type :: "bytes option"
  fd_data :: bytes

fun find_boundary :: "bytes list \<Rightarrow> bytes option" where
  "find_boundary [] = None"
| "find_boundary (p # parts) =
     (let part = str_trim p;
          found = (case strip_prefix (ascii ''boundary='') part of
              Some r \<Rightarrow> Some r
            | None \<Rightarrow>
                (case strip_prefix (ascii ''Boundary='') part of
                   Some r \<Rightarrow> Some r
                 | None \<Rightarrow> strip_prefix (ascii ''BOUNDARY='') part))
      in case found of
           Some r \<Rightarrow>
             (let boundary = trim_matches 34 (str_trim r)
              in if boundary \<noteq> [] then Some boundary else find_boundary parts)
         | None \<Rightarrow> find_boundary parts)"

definition extract_boundary :: "bytes \<Rightarrow> bytes option" where
  "extract_boundary content_type =
     (if \<not> str_contains (to_ascii_lowercase content_type) (ascii ''multipart/form-data'') then None
      else find_boundary (split_on 59 content_type))"

definition disposition_part :: "bytes option \<times> bytes option \<Rightarrow> bytes \<Rightarrow> bytes option \<times> bytes option" where
  "disposition_part st p =
     (let part = str_trim p
      in case strip_prefix (ascii ''name='') part of
           Some v \<Rightarrow> (Some (trim_matches 34 (str_trim v)), snd st)
         | None \<Rightarrow>
             (case strip_prefix (ascii ''filename='') part of
                Some v \<Rightarrow> (fst st, Some (trim_matches 34 (str_trim v)))
              | None \<Rightarrow> st))"

definition parse_content_disposition :: "bytes \<Rightarrow> bytes option \<times> bytes option" where
  "parse_content_disposition val = foldl disposition_part (None, None) (split_on 59 val)"

definition find_bytes :: "bytes \<Rightarrow> bytes \<Rightarrow> nat option" where
  "find_bytes haystack needle =
     (if needle = [] \<or> length haystack < length needle then None else find_window needle haystack)"

definition find_double_crlf :: "bytes \<Rightarrow> (nat \<times> nat) option" where
  "find_double_crlf s =
     (case find_window (CRLF @ CRLF) s of
        Some pos \<Rightarrow> Some (pos, 4)
      | None \<Rightarrow> map_option (\<lambda>pos. (pos, 2)) (find_window [10, 10] s))"

text \<open>The loop over the header lines of a part: the disposition and the content type.\<close>

definition part_header :: "bytes option \<times> bytes option \<Rightarrow> bytes \<Rightarrow> bytes option \<times> bytes option" where
  "part_header st line =
     (let l = str_trim line;
          disp = (case strip_prefix (ascii ''Content-Disposition:'') l of
              Some v \<Rightarrow> Some v | None \<Rightarrow> strip_prefix (ascii ''content-disposition:'') l)
      in case disp of
           Some v \<Rightarrow> (Some (str_trim v), snd st)
         | None \<Rightarrow>
             (case (case strip_prefix (ascii ''Content-Type:'') l of
                      Some v \<Rightarrow> Some v | None \<Rightarrow> strip_prefix (ascii ''content-type:'') l) of
                Some v \<Rightarrow> (fst st, Some (str_trim v))
              | None \<Rightarrow> st))"

definition part_field :: "bytes \<Rightarrow> bytes \<Rightarrow> multipart_field" where
  "part_field headers_bytes part_body =
     (let headers_str = (if utf8_valid headers_bytes then headers_bytes else []);
          (disposition, ct) = foldl part_header (None, None) (str_lines headers_str);
          (name, file_name) = (case disposition of Some v \<Rightarrow> parse_content_disposition v | None \<Rightarrow> (None, None))
      in \<lparr>fd_name = name, fd_file_name = file_name, fd_content_type = ct, fd_data = part_body\<rparr>)"

text \<open>
  The loop of \<^verbatim>\<open>parse_multipart\<close>; the argument is the body from \<^verbatim>\<open>pos\<close> on. Anything but a line end behind
  the delimiter stops it: the terminal \<^verbatim>\<open>--\<close>, the end of the body, or other bytes.
\<close>

function multipart_loop :: "bytes \<Rightarrow> bytes \<Rightarrow> multipart_field list" where
  "multipart_loop inner rest =
     (if take 2 rest \<noteq> CRLF then []
      else
        (case find_double_crlf (drop 2 rest) of
           None \<Rightarrow> []
         | Some (hdr_end, sep_len) \<Rightarrow>
             (let from_body = drop (2 + hdr_end + sep_len) rest;
                  (part_body, next) =
                    (case find_bytes from_body inner of
                       Some rel_end \<Rightarrow> (take rel_end from_body, drop (rel_end + length inner) from_body)
                     | None \<Rightarrow> (case strip_suffix CRLF from_body of Some b \<Rightarrow> b | None \<Rightarrow> from_body, []))
              in part_field (take hdr_end (drop 2 rest)) part_body
                 # (if next = [] then [] else multipart_loop inner next))))"
  by pat_completeness auto
termination
proof (relation "measure (\<lambda>(inner, rest). length rest)", goal_cases)
  case (2 inner rest r hdr_end sep_len from_body b2 part_body nx)
  have "length nx \<le> length from_body" using "2" by (auto split: option.splits)
  moreover have "take 2 rest = CRLF" using "2"(1) by simp
  then have "2 \<le> length rest" by (metis CRLF_def length_Cons length_take list.size(3) min.cobounded1 numeral_2_eq_2)
  ultimately show ?case using "2" by simp
qed simp

declare multipart_loop.simps [simp del]

definition parse_multipart :: "bytes \<Rightarrow> bytes \<Rightarrow> multipart_field list" where
  "parse_multipart data boundary =
     (let delim = ascii ''--'' @ boundary
      in case find_bytes data delim of
           None \<Rightarrow> []
         | Some first_delim \<Rightarrow> multipart_loop (CRLF @ delim) (drop (first_delim + length delim) data))"

definition multipart_rejection :: "string \<Rightarrow> response" where
  "multipart_rejection msg = response_content_type (response_with_body 400 (ascii msg)) (ascii ''text/plain; charset=utf-8'')"

definition multipart_from_request :: "request \<Rightarrow> (multipart_field list, response) outcome \<times> request" where
  "multipart_from_request req =
     (case header_get_str (req_headers req) (ascii ''content-type'') of
        None \<Rightarrow> (Err (multipart_rejection ''missing Content-Type header''), req)
      | Some content_type \<Rightarrow>
          (case extract_boundary content_type of
             None \<Rightarrow> (Err (multipart_rejection ''Content-Type must be multipart/form-data with a boundary parameter''), req)
           | Some boundary \<Rightarrow>
               (Ok (parse_multipart (body_into_bytes (req_body req)) boundary), req\<lparr>req_body := Empty\<rparr>)))"

definition next_field :: "multipart_field list \<Rightarrow> multipart_field option \<times> multipart_field list" where
  "next_field fs = (case fs of [] \<Rightarrow> (None, []) | f # fs' \<Rightarrow> (Some f, fs'))"

section \<open>Multipart bodies are recovered\<close>

text \<open>A string that begins and ends with a visible ASCII character; trimming leaves it alone.\<close>

definition visible :: "byte \<Rightarrow> bool" where
  "visible b \<longleftrightarrow> 33 \<le> b \<and> b \<le> 126"

definition framed :: "bytes \<Rightarrow> bool" where
  "framed s \<longleftrightarrow> 2 \<le> length s \<and> visible (hd s) \<and> visible (last s) \<and> utf8_valid (butlast (tl s))"

lemma visible_plain: "visible b \<Longrightarrow> unat b < 128 \<and> \<not> is_whitespace (unat b)"
  by (auto simp: visible_def is_whitespace_def word_le_nat_alt)

lemma framed_parts:
  assumes "framed s"
  obtains x mid y where "s = x # mid @ [y]" "visible x" "visible y" "utf8_valid mid"
proof -
  obtain x t where s: "s = x # t" "t \<noteq> []" using assms by (cases s; cases "tl s") (auto simp: framed_def)
  then have "s = x # butlast t @ [last t]" by simp
  then show thesis using that [of x "butlast t" "last t"] assms s by (auto simp: framed_def)
qed

lemma framed_trim:
  assumes "framed s"
  shows "str_trim s = s" and "str_trim (32 # s) = s" and "utf8_valid s"
proof -
  obtain x mid y where s: "s = x # mid @ [y]" "visible x" "visible y" "utf8_valid mid" by (rule framed_parts [OF assms])
  show "str_trim s = s" and "str_trim (32 # s) = s"
    using str_trim_ends [OF s(1,4)] visible_plain [OF s(2)] visible_plain [OF s(3)] by auto
  have "utf8_valid [x]" "utf8_valid [y]" using visible_plain s(2,3) by (auto intro: utf8_valid_ascii)
  then show "utf8_valid s" using utf8_valid_append s by (metis append_Cons append_Nil)
qed

lemma framed_append:
  assumes "framed a" and "utf8_valid m" and "framed b"
  shows "framed (a @ m @ b)"
proof -
  obtain x mid y where a: "a = x # mid @ [y]" "visible x" "visible y" "utf8_valid mid" by (rule framed_parts [OF assms(1)])
  obtain x' mid' y' where b: "b = x' # mid' @ [y']" "visible x'" "visible y'" "utf8_valid mid'" by (rule framed_parts [OF assms(3)])
  have "utf8_valid [y]" "utf8_valid [x']" using visible_plain a(3) b(2) by (auto intro: utf8_valid_ascii)
  then have "utf8_valid (mid @ [y] @ m @ [x'] @ mid')"
    using a(4) b(4) assms(2) by (intro utf8_valid_append)
  then show ?thesis using a b by (simp add: framed_def butlast_append)
qed

text \<open>The reference encoder: one disposition line, at most one content type, and the data of each field.\<close>

definition parameter :: "string \<Rightarrow> bytes option \<Rightarrow> bytes" where
  "parameter key v = (case v of None \<Rightarrow> [] | Some s \<Rightarrow> ascii ''; '' @ ascii key @ ascii ''='' @ 34 # s @ [34])"

definition disposition_of :: "multipart_field \<Rightarrow> bytes" where
  "disposition_of f = ascii ''form-data'' @ parameter ''name'' (fd_name f) @ parameter ''filename'' (fd_file_name f)"

definition part_lines :: "multipart_field \<Rightarrow> bytes list" where
  "part_lines f = (ascii ''Content-Disposition: '' @ disposition_of f)
     # (case fd_content_type f of None \<Rightarrow> [] | Some t \<Rightarrow> [ascii ''Content-Type: '' @ t])"

definition encode_part :: "bytes \<Rightarrow> multipart_field \<Rightarrow> bytes" where
  "encode_part delim f = CRLF @ print_lines (part_lines f) @ CRLF @ fd_data f @ CRLF @ delim"

definition encode_multipart :: "bytes \<Rightarrow> multipart_field list \<Rightarrow> bytes" where
  "encode_multipart boundary fs =
     (let delim = ascii ''--'' @ boundary
      in delim @ concat (map (encode_part delim) fs) @ ascii ''--'' @ CRLF)"

definition label_ok :: "bytes \<Rightarrow> bool" where
  "label_ok s \<longleftrightarrow> utf8_valid s \<and> set s \<inter> {10, 13, 34, 59} = {}"

definition field_ok :: "bytes \<Rightarrow> multipart_field \<Rightarrow> bool" where
  "field_ok boundary f \<longleftrightarrow>
     pred_option label_ok (fd_name f) \<and> pred_option label_ok (fd_file_name f)
     \<and> pred_option (\<lambda>t. framed t \<and> set t \<inter> {10, 13} = {}) (fd_content_type f)
     \<and> find_bytes (fd_data f) (CRLF @ ascii ''--'' @ boundary) = None"

lemma split_on_append: "c \<notin> set s \<Longrightarrow> split_on c (s @ t) = (s @ hd (split_on c t)) # tl (split_on c t)"
  by (induction s) (auto split: list.splits)

lemma ascii_framed:
  "framed (ascii ''form-data'')" "framed (ascii ''name='')" "framed (ascii ''filename='')"
  "framed (ascii ''Content-Disposition:'')" "framed (ascii ''Content-Type:'')" "framed (ascii ''; name='')"
  "framed (ascii ''; filename='')" "utf8_valid [32]" "utf8_valid []"
  by (simp_all add: framed_def visible_def ascii_def utf8_valid_def)

lemma quoted_framed: "utf8_valid s \<Longrightarrow> framed (34 # s @ [34])"
  by (simp add: framed_def visible_def butlast_append)

lemma framed_quoted: "framed a \<Longrightarrow> utf8_valid s \<Longrightarrow> framed (a @ 34 # s @ [34])"
  using framed_append [OF _ ascii_framed(9), of a "34 # s @ [34]"] quoted_framed by simp

lemma disposition_part_simps:
  "disposition_part st (ascii ''form-data'') = st"
  "label_ok s \<Longrightarrow> disposition_part st (32 # ascii ''name='' @ 34 # s @ [34]) = (Some s, snd st)"
  "label_ok s \<Longrightarrow> disposition_part st (32 # ascii ''filename='' @ 34 # s @ [34]) = (fst st, Some s)"
proof -
  have none: "strip_prefix (ascii ''name='') (ascii ''form-data'') = None"
    "strip_prefix (ascii ''filename='') (ascii ''form-data'') = None"
    "strip_prefix (ascii ''name='') (ascii ''filename='' @ r) = None" for r
    by (simp_all add: strip_prefix_def ascii_def)
  show "disposition_part st (ascii ''form-data'') = st"
    by (simp add: disposition_part_def framed_trim(1) [OF ascii_framed(1)] none)
  assume l: "label_ok s"
  then have u: "utf8_valid s" "34 \<notin> set s" by (auto simp: label_ok_def)
  note q = framed_trim(1) [OF quoted_framed [OF u(1)]] trim_matches_quoted [OF u(2)]
  show "disposition_part st (32 # ascii ''name='' @ 34 # s @ [34]) = (Some s, snd st)"
    using framed_trim(2) [OF framed_quoted [OF ascii_framed(2) u(1)]] q
    by (simp add: disposition_part_def del: append_Cons)
  show "disposition_part st (32 # ascii ''filename='' @ 34 # s @ [34]) = (fst st, Some s)"
    using framed_trim(2) [OF framed_quoted [OF ascii_framed(3) u(1)]] q
    by (simp add: disposition_part_def none del: append_Cons)
qed

lemma parse_disposition:
  assumes "pred_option label_ok (fd_name f)" and "pred_option label_ok (fd_file_name f)"
  shows "parse_content_disposition (disposition_of f) = (fd_name f, fd_file_name f)"
proof -
  note d = disposition_part_simps [unfolded ascii_def, simplified]
  show ?thesis
    using assms
    by (cases "fd_name f"; cases "fd_file_name f")
      (auto simp: parse_content_disposition_def disposition_of_def parameter_def ascii_def split_on_append label_ok_def d)
qed

lemma framed_disposition:
  assumes "pred_option label_ok (fd_name f)" and "pred_option label_ok (fd_file_name f)"
  shows "framed (disposition_of f)" and "set (disposition_of f) \<inter> {10, 13} = {}"
proof -
  have p: "framed (parameter ''name'' (Some n))" "framed (parameter ''filename'' (Some n))" if "label_ok n" for n
    using that framed_quoted [OF ascii_framed(6), of n] framed_quoted [OF ascii_framed(7), of n]
    by (simp_all add: label_ok_def parameter_def ascii_def)
  have none: "parameter key None = []" for key by (simp add: parameter_def)
  have join: "framed (a @ b)" if "framed a" "framed b" for a b
    using framed_append [OF that(1) ascii_framed(9) that(2)] by simp
  show "framed (disposition_of f)"
    using assms by (cases "fd_name f"; cases "fd_file_name f")
      (auto simp: disposition_of_def none intro!: join p ascii_framed(1))
  show "set (disposition_of f) \<inter> {10, 13} = {}"
    using assms by (cases "fd_name f"; cases "fd_file_name f")
      (auto simp: disposition_of_def parameter_def ascii_def label_ok_def)
qed

lemma part_header_simps:
  "framed d \<Longrightarrow> part_header st (ascii ''Content-Disposition: '' @ d) = (Some d, snd st)"
  "framed d \<Longrightarrow> part_header st (ascii ''Content-Type: '' @ d) = (fst st, Some d)"
proof -
  assume d: "framed d"
  have split: "ascii ''Content-Disposition: '' @ d = ascii ''Content-Disposition:'' @ 32 # d"
    "ascii ''Content-Type: '' @ d = ascii ''Content-Type:'' @ 32 # d"
    by (simp_all add: ascii_def)
  have none: "strip_prefix (ascii ''Content-Disposition:'') (ascii ''Content-Type:'' @ r) = None"
    "strip_prefix (ascii ''content-disposition:'') (ascii ''Content-Type:'' @ r) = None" for r
    by (simp_all add: strip_prefix_def ascii_def)
  have "framed (ascii ''Content-Disposition:'' @ 32 # d)" "framed (ascii ''Content-Type:'' @ 32 # d)"
    using framed_append [OF ascii_framed(4) ascii_framed(8) d] framed_append [OF ascii_framed(5) ascii_framed(8) d] by simp_all
  note t = this [THEN framed_trim(1)] framed_trim(2) [OF d]
  show "part_header st (ascii ''Content-Disposition: '' @ d) = (Some d, snd st)"
    unfolding split by (simp add: part_header_def t)
  show "part_header st (ascii ''Content-Type: '' @ d) = (fst st, Some d)"
    unfolding split by (simp add: part_header_def t none)
qed

lemma str_lines_simps:
  "10 \<notin> set l \<Longrightarrow> l \<noteq> [] \<Longrightarrow> str_lines l = [l]"
  "10 \<notin> set l \<Longrightarrow> str_lines (l @ CRLF @ rest) = l # str_lines rest"
proof -
  assume l: "10 \<notin> set l"
  show "l \<noteq> [] \<Longrightarrow> str_lines l = [l]" using l by (simp add: str_lines_def split_on_last)
  have "split_on 10 (l @ CRLF @ rest) = (l @ [13]) # split_on 10 rest"
    using l split_on_first [of 10 "l @ [13]" rest] by (simp add: CRLF_def)
  then show "str_lines (l @ CRLF @ rest) = l # str_lines rest" by (simp add: str_lines_def Let_def)
qed

lemma part_field_encoded:
  assumes "field_ok b f"
  shows "part_field (take (length (print_lines (part_lines f)) - 2) (print_lines (part_lines f) @ rest)) (fd_data f) = f"
    and "list_all (\<lambda>l. l \<noteq> [] \<and> 13 \<notin> set l) (part_lines f)"
proof -
  have ok: "pred_option label_ok (fd_name f)" "pred_option label_ok (fd_file_name f)" using assms by (auto simp: field_ok_def)
  let ?d = "ascii ''Content-Disposition: '' @ disposition_of f"
  note d = framed_disposition [OF ok]
  have lit: "10 \<notin> set (ascii ''Content-Disposition: '')" "10 \<notin> set (ascii ''Content-Type: '')"
    "13 \<notin> set (ascii ''Content-Disposition: '')" "13 \<notin> set (ascii ''Content-Type: '')"
    "utf8_valid (ascii ''Content-Disposition: '')" "utf8_valid (ascii ''Content-Type: '')" "utf8_valid CRLF"
    by (simp_all add: ascii_def utf8_valid_def CRLF_def)
  have d10: "10 \<notin> set ?d" "?d \<noteq> []" "utf8_valid ?d"
    using d lit(1) utf8_valid_append [OF lit(5) framed_trim(3) [OF d(1)]] by (auto simp: ascii_def)
  show "list_all (\<lambda>l. l \<noteq> [] \<and> 13 \<notin> set l) (part_lines f)"
    using assms d lit by (cases "fd_content_type f") (auto simp: part_lines_def field_ok_def ascii_def)
  show "part_field (take (length (print_lines (part_lines f)) - 2) (print_lines (part_lines f) @ rest)) (fd_data f) = f"
  proof (cases "fd_content_type f")
    case None
    then have "take (length (print_lines (part_lines f)) - 2) (print_lines (part_lines f) @ rest) = ?d"
      by (simp add: part_lines_def print_lines_def CRLF_def)
    then show ?thesis
      using None d10 d by (simp add: part_field_def str_lines_simps part_header_simps parse_disposition [OF ok])
  next
    case (Some t)
    then have t: "framed t" "set t \<inter> {10, 13} = {}" using assms by (auto simp: field_ok_def)
    let ?t = "ascii ''Content-Type: '' @ t"
    have "print_lines (part_lines f) = (?d @ CRLF @ ?t) @ CRLF" using Some by (simp add: part_lines_def print_lines_def)
    moreover have "length CRLF = 2" by (simp add: CRLF_def)
    ultimately have cut: "take (length (print_lines (part_lines f)) - 2) (print_lines (part_lines f) @ rest) = ?d @ CRLF @ ?t"
      by simp
    have "utf8_valid (?d @ CRLF @ ?t)"
      using utf8_valid_append [OF d10(3) utf8_valid_append [OF lit(7) utf8_valid_append [OF lit(6) framed_trim(3) [OF t(1)]]]]
      by simp
    moreover have "str_lines (?d @ CRLF @ ?t) = [?d, ?t]"
      using d10(1) lit(2) t(2) by (subst str_lines_simps(2)) (auto simp: str_lines_simps(1) ascii_def)
    ultimately show ?thesis
      using Some d(1) t(1) unfolding cut by (simp add: part_field_def part_header_simps parse_disposition [OF ok])
  qed
qed

text \<open>A pattern whose first element does not occur again is found behind a prefix that does not hold it.\<close>

lemma find_window_behind:
  assumes "p \<notin> set ps" and "find_window (p # ps) pre = None"
  shows "find_window (p # ps) (pre @ (p # ps) @ post) = Some (length pre)"
  using assms(2)
proof (induction pre)
  case (Cons x pre)
  let ?pat = "p # ps"
  have "take (length ?pat) ((x # pre) @ ?pat @ post) \<noteq> ?pat"
  proof
    assume eq: "take (length ?pat) ((x # pre) @ ?pat @ post) = ?pat"
    show False
    proof (cases "length ?pat \<le> length (x # pre)")
      case True
      then have "take (length ?pat) (x # pre) = ?pat" using eq by (simp only: take_append) simp
      then show False using Cons.prems by simp
    next
      case False
      let ?n = "length (x # pre)"
      have "?pat ! ?n = (take (length ?pat) ((x # pre) @ ?pat @ post)) ! ?n" by (simp only: eq)
      also have "\<dots> = p" using False by (subst nth_take) (simp_all add: nth_append)
      finally have "ps ! length pre = p" by simp
      moreover have "length pre < length ps" using False by simp
      ultimately show False using assms(1) nth_mem by metis
    qed
  qed
  moreover have "find_window ?pat pre = None" using Cons.prems by (simp split: if_splits)
  ultimately show ?case using Cons.IH by simp
qed simp

lemma multipart_step:
  assumes f: "field_ok b f" and b: "13 \<notin> set b"
  shows "multipart_loop (CRLF @ ascii ''--'' @ b) (encode_part (ascii ''--'' @ b) f @ rest)
    = f # (if rest = [] then [] else multipart_loop (CRLF @ ascii ''--'' @ b) rest)"
proof -
  let ?delim = "ascii ''--'' @ b" and ?ls = "part_lines f"
  let ?inner = "CRLF @ ?delim" and ?hdr = "print_lines (part_lines f)"
  have "find_window (CRLF @ CRLF) (?hdr @ CRLF @ fd_data f @ ?inner @ rest) = Some (length ?hdr - 2)"
    by (rule find_header_end_lines [OF part_field_encoded(2) [OF f]]) (simp add: part_lines_def)
  then have crlf: "find_double_crlf (?hdr @ CRLF @ fd_data f @ ?inner @ rest) = Some (length ?hdr - 2, 4)"
    by (simp add: find_double_crlf_def)
  have two: "2 \<le> length ?hdr" by (simp add: part_lines_def print_lines_def CRLF_def)
  have "find_window ?inner (fd_data f) = None"
  proof (cases "length (fd_data f) < length ?inner")
    case True
    then show ?thesis using find_window_bound [of ?inner "fd_data f"] by (cases "find_window ?inner (fd_data f)") auto
  qed (use f in \<open>auto simp: field_ok_def find_bytes_def CRLF_def\<close>)
  then have found: "find_bytes (fd_data f @ ?inner @ rest) ?inner = Some (length (fd_data f))"
    using find_window_behind [of 13 "10 # ?delim" "fd_data f" rest] b by (simp add: find_bytes_def CRLF_def ascii_def)
  have from_body: "drop (2 + (length ?hdr - 2) + 4) (encode_part ?delim f @ rest) = fd_data f @ ?inner @ rest"
    using two by (simp add: encode_part_def CRLF_def)
  have start: "take 2 (encode_part ?delim f @ rest) = CRLF"
      "drop 2 (encode_part ?delim f @ rest) = ?hdr @ CRLF @ fd_data f @ ?inner @ rest"
    by (simp_all add: encode_part_def CRLF_def)
  have "multipart_loop ?inner r = f # (if rest = [] then [] else multipart_loop ?inner rest)"
    if "take 2 r = CRLF" "find_double_crlf (drop 2 r) = Some (h, 4)" "drop (2 + h + 4) r = fd_data f @ ?inner @ rest"
      "part_field (take h (drop 2 r)) (fd_data f) = f" for r h
    using that found by (subst multipart_loop.simps) simp
  from this [OF start(1) _ from_body] show ?thesis
    unfolding start(2) using crlf part_field_encoded(1) [OF f, of "CRLF @ fd_data f @ ?inner @ rest"] by blast
qed

lemma multipart_all:
  assumes "list_all (field_ok b) fs" and "13 \<notin> set b"
  shows "multipart_loop (CRLF @ ascii ''--'' @ b) (concat (map (encode_part (ascii ''--'' @ b)) fs) @ ascii ''--'' @ CRLF) = fs"
  using assms(1)
proof (induction fs)
  case Nil
  then show ?case by (subst multipart_loop.simps) (simp add: ascii_def CRLF_def)
next
  case (Cons f fs)
  then show ?case
    using multipart_step [of b f "concat (map (encode_part (ascii ''--'' @ b)) fs) @ ascii ''--'' @ CRLF"] assms(2)
    by (simp add: ascii_def)
qed



end
