(* ===== verification/Handlers.thy ===== *)
theory Handlers
  imports Extract
begin

text \<open>
  How a handler with extractor arguments becomes a handler of requests
  (\<^verbatim>\<open>moduvex-http/src/extract/mod.rs\<close>), and the extractors for JSON bodies, path parameters and
  shared state. An extractor returns a value or a rejection and the request as it leaves it; the
  values of a handler's arguments are a list. Deserialisers are parameters.
\<close>

section \<open>Extractors\<close>

type_synonym 'v extractor = "request \<Rightarrow> ('v, response) outcome \<times> request"

definition plain_error :: "nat \<Rightarrow> bytes \<Rightarrow> response" where
  "plain_error status msg =
     response_content_type (response_with_body status msg) (ascii ''text/plain; charset=utf-8'')"

definition json_from_request :: "(bytes \<Rightarrow> ('v, bytes) outcome) \<Rightarrow> 'v extractor" where
  "json_from_request deser req =
     (let ct = (case header_get_str (req_headers req) (ascii ''content-type'') of Some v \<Rightarrow> v | None \<Rightarrow> []) in
      if find_window (ascii ''application/json'') ct = None
      then (Err (plain_error 415 (ascii ''expected application/json'')), req)
      else
        (let req1 = req\<lparr>req_body := Empty\<rparr>
         in case deser (body_into_bytes (req_body req)) of
              Ok v \<Rightarrow> (Ok v, req1)
            | Err e \<Rightarrow> (Err (plain_error 400 (ascii ''invalid JSON: '' @ e)), req1)
            | Panic \<Rightarrow> (Panic, req1)))"

definition json_into_response :: "('v \<Rightarrow> bytes option) \<Rightarrow> 'v \<Rightarrow> response" where
  "json_into_response ser v =
     (case ser v of Some bytes \<Rightarrow> response_json bytes | None \<Rightarrow> response_internal_error)"

text \<open>The parameters the router captured are taken out of the extensions by the first extractor.\<close>

definition path_from_request :: "(bytes \<times> bytes) list option \<Rightarrow> (bytes \<times> bytes) list \<times> (bytes \<times> bytes) list option" where
  "path_from_request ext = (case ext of Some params \<Rightarrow> params | None \<Rightarrow> [], None)"

definition path_get :: "(bytes \<times> bytes) list \<Rightarrow> bytes \<Rightarrow> bytes option" where
  "path_get params name = map_option snd (find (\<lambda>(k, _). k = name) params)"

definition state_from_request :: "'s option \<Rightarrow> ('s, response) outcome" where
  "state_from_request ext = ok_or ext (plain_error 500 (ascii ''missing application state''))"

text \<open>The request itself, replaced by a fresh one.\<close>

definition request_from_request :: "request extractor" where
  "request_from_request req = (Ok req, request_new GET (ascii ''/''))"

section \<open>Handlers\<close>

fun run_extractors :: "'v extractor list \<Rightarrow> request \<Rightarrow> ('v list, response) outcome" where
  "run_extractors [] req = Ok []"
| "run_extractors (x # xs) req =
     (case x req of
        (Ok v, req') \<Rightarrow> bind_outcome (run_extractors xs req') (\<lambda>vs. Ok (v # vs))
      | (Err rej, req') \<Rightarrow> Err rej
      | (Panic, req') \<Rightarrow> Panic)"

definition into_box_handler :: "'v extractor list \<Rightarrow> ('v list \<Rightarrow> response) \<Rightarrow> request \<Rightarrow> (response, unit) outcome" where
  "into_box_handler xs f req =
     (case run_extractors xs req of Ok vs \<Rightarrow> Ok (f vs) | Err rej \<Rightarrow> Ok rej | Panic \<Rightarrow> Panic)"

section \<open>Properties\<close>

text \<open>The request after a run of extractors that all accept it.\<close>

fun after_extractors :: "'v extractor list \<Rightarrow> request \<Rightarrow> request option" where
  "after_extractors [] req = Some req"
| "after_extractors (x # xs) req = (case x req of (Ok _, req') \<Rightarrow> after_extractors xs req' | _ \<Rightarrow> None)"

lemma run_extractors_append:
  "run_extractors (xs @ ys) req =
     (case after_extractors xs req of
        Some req' \<Rightarrow> bind_outcome (run_extractors xs req) (\<lambda>vs. bind_outcome (run_extractors ys req') (\<lambda>ws. Ok (vs @ ws)))
      | None \<Rightarrow> run_extractors xs req)"
proof (induction xs arbitrary: req)
  case Nil
  show ?case by (cases "run_extractors ys req") simp_all
next
  case (Cons x xs)
  obtain r req' where x: "x req = (r, req')" by force
  show ?case
  proof (cases r)
    case (Ok v)
    show ?thesis
    proof (cases "after_extractors xs req'")
      case None
      then show ?thesis using Cons.IH [of req'] by (simp add: x Ok)
    next
      case (Some r2)
      then show ?thesis
        using Cons.IH [of req'] by (cases "run_extractors xs req'"; cases "run_extractors ys r2") (simp_all add: x Ok)
    qed
  qed (simp_all add: x)
qed

lemma run_extractors_accepted: "after_extractors xs req = Some r \<Longrightarrow> \<exists>vs. run_extractors xs req = Ok vs"
  by (induction xs arbitrary: req) (fastforce split: prod.splits outcome.splits)+

text \<open>
  The first extractor that rejects a request answers it: neither the extractors behind it nor
  the handler have any effect on the response.
\<close>

theorem first_rejection_answers:
  assumes "after_extractors xs req = Some req1" and "x req1 = (Err rej, req2)"
  shows "into_box_handler (xs @ x # ys) f req = Ok rej"
proof -
  obtain vs where "run_extractors xs req = Ok vs" using run_extractors_accepted [OF assms(1)] by blast
  then show ?thesis using assms by (simp add: into_box_handler_def run_extractors_append)
qed

theorem first_rejection_answers_witness:
  "into_box_handler ([] @ json_from_request (\<lambda>b. Ok b) # [json_from_request (\<lambda>b. Ok b)])
     (\<lambda>vs. response_new 200) (request_new GET (ascii ''/'')) = Ok (plain_error 415 (ascii ''expected application/json''))"
proof -
  have find_none: "find_window (ascii ''application/json'') [] = None" by code_simp
  show ?thesis
    by (rule first_rejection_answers [where ?req1.0 = "request_new GET (ascii ''/'')"
          and ?req2.0 = "request_new GET (ascii ''/'')"])
      (simp_all add: json_from_request_def request_new_def header_get_str_def header_get_def find_none)
qed

text \<open>
  A body is extracted once: behind a JSON extractor that accepted the request, a second one
  sees an empty body.
\<close>

theorem body_taken_once:
  assumes "json_from_request d req = (Ok v, req')"
  shows "req' = req\<lparr>req_body := Empty\<rparr> \<and> d (body_into_bytes (req_body req)) = Ok v \<and>
    json_from_request d' req' = (case d' [] of
        Ok w \<Rightarrow> (Ok w, req')
      | Err e \<Rightarrow> (Err (plain_error 400 (ascii ''invalid JSON: '' @ e)), req')
      | Panic \<Rightarrow> (Panic, req'))"
  using assms by (auto simp: json_from_request_def Let_def split: if_splits outcome.splits)

end
