(* ===== verification/Config.thy ===== *)
theory Config
  imports Text
begin

text \<open>
  Configuration (\<^verbatim>\<open>moduvex-config\<close>): profiles, the deep merge of TOML files, overrides from the
  environment and the loader that layers them. The TOML parser, the file system, the environment, Unicode
  lower-casing and the parser of floats are parameters; a float is its text, and a table is an
  association list whose order is not observed.
\<close>

section \<open>Values and profiles\<close>

datatype toml =
  TString bytes
| TInteger int
| TFloat bytes
| TBoolean bool
| TDatetime bytes
| TArray "toml list"
| TTable "(bytes \<times> toml) list"

datatype config_error =
  FileRead bytes bytes
| Parse bytes bytes
| MissingSection bytes
| Deserialize bytes bytes

record config_world =
  to_lowercase :: "bytes \<Rightarrow> bytes"
  parse_f64 :: "bytes \<Rightarrow> bytes option"
  toml_from_str :: "bytes \<Rightarrow> (toml, bytes) outcome"
  read_to_string :: "bytes \<Rightarrow> (bytes, bytes) outcome"
  path_exists :: "bytes \<Rightarrow> bool"
  env_vars :: "(bytes \<times> bytes) list"

datatype profile = Dev | Staging | Prod | Custom bytes

definition profile_parse :: "config_world \<Rightarrow> bytes \<Rightarrow> profile" where
  "profile_parse w s =
     (let l = to_lowercase w s
      in if l \<in> {ascii ''dev'', ascii ''development''} then Dev
         else if l \<in> {ascii ''staging'', ascii ''stage''} then Staging
         else if l \<in> {ascii ''prod'', ascii ''production''} then Prod
         else Custom l)"

definition profile_from_env :: "config_world \<Rightarrow> profile" where
  "profile_from_env w =
     (case map_of (env_vars w) (ascii ''MODUVEX_PROFILE'') of Some v \<Rightarrow> profile_parse w v | None \<Rightarrow> Dev)"

fun profile_as_str :: "profile \<Rightarrow> bytes" where
  "profile_as_str Dev = ascii ''dev''"
| "profile_as_str Staging = ascii ''staging''"
| "profile_as_str Prod = ascii ''prod''"
| "profile_as_str (Custom s) = s"

section \<open>Merging\<close>

text \<open>\<^verbatim>\<open>remove\<close> and \<^verbatim>\<open>insert\<close> of a table.\<close>

definition tbl_remove :: "bytes \<Rightarrow> (bytes \<times> toml) list \<Rightarrow> (bytes \<times> toml) list" where
  "tbl_remove k t = filter (\<lambda>e. fst e \<noteq> k) t"

definition tbl_insert :: "bytes \<Rightarrow> toml \<Rightarrow> (bytes \<times> toml) list \<Rightarrow> (bytes \<times> toml) list" where
  "tbl_insert k v t = tbl_remove k t @ [(k, v)]"

lemma map_of_remove [simp]: "map_of (tbl_remove k t) = (map_of t)(k := None)"
  by (induction t) (auto simp: tbl_remove_def fun_eq_iff)

lemma map_of_insert [simp]: "map_of (tbl_insert k v t) = (map_of t)(k \<mapsto> v)"
  by (auto simp: tbl_insert_def map_add_def fun_eq_iff split: option.splits)

function (sequential) deep_merge :: "toml \<Rightarrow> toml \<Rightarrow> toml"
  and merge_entries :: "(bytes \<times> toml) list \<Rightarrow> (bytes \<times> toml) list \<Rightarrow> (bytes \<times> toml) list" where
  "deep_merge (TTable base_tbl) (TTable overlay_tbl) = TTable (merge_entries base_tbl overlay_tbl)"
| "deep_merge _ overlay = overlay"
| "merge_entries base_tbl [] = base_tbl"
| "merge_entries base_tbl ((key, overlay_val) # rest) =
     (let merged = (case map_of base_tbl key of
            Some base_val \<Rightarrow> deep_merge base_val overlay_val
          | None \<Rightarrow> overlay_val)
      in merge_entries (tbl_insert key merged (tbl_remove key base_tbl)) rest)"
  by pat_completeness auto
termination
  by (relation "measure (case_sum (\<lambda>(b, v). size v) (\<lambda>(b, t). size_list (size_prod (\<lambda>_. 0) size) t))") auto

text \<open>The value at a path of keys.\<close>

fun value_at :: "toml \<Rightarrow> bytes list \<Rightarrow> toml option" where
  "value_at v [] = Some v"
| "value_at (TTable t) (k # ks) = (case map_of t k of Some v \<Rightarrow> value_at v ks | None \<Rightarrow> None)"
| "value_at _ (k # ks) = None"

fun is_table :: "toml \<Rightarrow> bool" where
  "is_table (TTable t) \<longleftrightarrow> True"
| "is_table _ \<longleftrightarrow> False"

text \<open>Tables have each key once, at every depth.\<close>

fun wf_toml :: "toml \<Rightarrow> bool" where
  "wf_toml (TTable t) \<longleftrightarrow> distinct (map fst t) \<and> (\<forall>e \<in> set t. wf_toml (snd e))"
| "wf_toml _ \<longleftrightarrow> True"

lemma merge_entries_get:
  "distinct (map fst t) \<Longrightarrow>
    map_of (merge_entries b t) k =
      (case map_of t k of
         None \<Rightarrow> map_of b k
       | Some v \<Rightarrow> Some (case map_of b k of Some bv \<Rightarrow> deep_merge bv v | None \<Rightarrow> v))"
proof (induction t arbitrary: b)
  case (Cons e t)
  obtain key v where e: "e = (key, v)" by (cases e)
  then have "map_of t key = None" using Cons.prems by (auto simp: map_of_eq_None_iff)
  then show ?case using Cons e by (auto simp: Let_def split: option.splits)
qed simp

lemma distinct_insert: "distinct (map fst t) \<Longrightarrow> distinct (map fst (tbl_insert k v t))"
  by (induction t) (auto simp: tbl_insert_def tbl_remove_def)

lemma distinct_remove: "distinct (map fst t) \<Longrightarrow> distinct (map fst (tbl_remove k t))"
  by (auto simp: tbl_remove_def distinct_map_filter)

lemma wf_deep_merge:
  "wf_toml b \<Longrightarrow> wf_toml v \<Longrightarrow> wf_toml (deep_merge b v)"
  "wf_toml (TTable t) \<Longrightarrow> wf_toml (TTable u) \<Longrightarrow> wf_toml (TTable (merge_entries t u))"
proof (induction b v and t u rule: deep_merge_merge_entries.induct)
  case (4 t key v rest)
  let ?m = "case map_of t key of Some bv \<Rightarrow> deep_merge bv v | None \<Rightarrow> v"
  have "wf_toml ?m"
    using "4.IH"(1) "4.prems" map_of_SomeD [of t key] by (fastforce split: option.splits)
  then have "wf_toml (TTable (tbl_insert key ?m (tbl_remove key t)))"
    using "4.prems"(1) by (simp add: distinct_insert distinct_remove) (auto simp: tbl_insert_def tbl_remove_def)
  then show ?case using "4.IH"(2) [of ?m] "4.prems"(2) by (simp add: Let_def)
qed auto

text \<open>Whether the overlay holds something other than a table in front of the end of a path.\<close>

fun blocks :: "toml \<Rightarrow> bytes list \<Rightarrow> bool" where
  "blocks v [] \<longleftrightarrow> False"
| "blocks (TTable t) (k # ks) \<longleftrightarrow> (case map_of t k of Some v \<Rightarrow> blocks v ks | None \<Rightarrow> False)"
| "blocks _ (k # ks) \<longleftrightarrow> True"

text \<open>
  What a merge holds at a path. Where the overlay has a value, the merge has it, merged with
  the value of the base; where it has none, the merge has the value of the base, unless the
  overlay replaced a table on the way by something else.
\<close>

theorem deep_merge_lookup:
  assumes "wf_toml overlay"
  shows "value_at (deep_merge base overlay) p =
    (case value_at overlay p of
       Some v \<Rightarrow> Some (case value_at base p of Some bv \<Rightarrow> deep_merge bv v | None \<Rightarrow> v)
     | None \<Rightarrow> if blocks overlay p then None else value_at base p)"
  using assms
proof (induction p arbitrary: base overlay)
  case (Cons k ks)
  show ?case
  proof (cases "\<exists>b t. base = TTable b \<and> overlay = TTable t")
    case True
    then obtain b t where bt: "base = TTable b" "overlay = TTable t" by blast
    have "wf_toml v" if "map_of t k = Some v" for v
      using Cons.prems bt map_of_SomeD [OF that] by auto
    then show ?thesis
      using Cons bt merge_entries_get [of t b k] by (auto split: option.splits)
  next
    case False
    then have "deep_merge base overlay = overlay" by (cases base; cases overlay) auto
    moreover have "value_at base (k # ks) = None" if "is_table overlay" using False that by (cases base; cases overlay) auto
    ultimately show ?thesis by (cases overlay) (auto split: option.splits)
  qed
qed simp

section \<open>Overrides from the environment\<close>

definition parse_env_value :: "config_world \<Rightarrow> bytes \<Rightarrow> toml" where
  "parse_env_value w s =
     (if to_lowercase w s = ascii ''true'' then TBoolean True
      else if to_lowercase w s = ascii ''false'' then TBoolean False
      else case Option.bind (utf8_decode s) (parse_int 64) of
             Some i \<Rightarrow> TInteger i
           | None \<Rightarrow> (case parse_f64 w s of Some f \<Rightarrow> TFloat f | None \<Rightarrow> TString s))"

text \<open>The section, field and value a variable sets, when its name has the form \<^verbatim>\<open>MODUVEX__SECTION__FIELD\<close>.\<close>

definition env_target :: "config_world \<Rightarrow> bytes \<times> bytes \<Rightarrow> ((bytes \<times> bytes) \<times> toml) option" where
  "env_target w kv =
     (case strip_prefix (ascii ''MODUVEX__'') (fst kv) of
        None \<Rightarrow> None
      | Some rest \<Rightarrow>
          (case find_window (ascii ''__'') rest of
             None \<Rightarrow> None
           | Some i \<Rightarrow> Some ((to_lowercase w (take i rest), to_lowercase w (drop (i + 2) rest)), parse_env_value w (snd kv))))"

definition set_field :: "(bytes \<times> toml) list \<Rightarrow> (bytes \<times> bytes) \<times> toml \<Rightarrow> (bytes \<times> toml) list" where
  "set_field table target =
     (let ((section, field), parsed) = target;
          section_table = (case map_of table section of Some v \<Rightarrow> v | None \<Rightarrow> TTable [])
      in tbl_insert section
           (case section_table of TTable tbl \<Rightarrow> TTable (tbl_insert field parsed tbl) | v \<Rightarrow> v) table)"

definition merge_env_overrides :: "config_world \<Rightarrow> toml \<Rightarrow> toml" where
  "merge_env_overrides w base =
     (case base of
        TTable t \<Rightarrow> TTable (foldl set_field t (List.map_filter (env_target w) (env_vars w)))
      | v \<Rightarrow> v)"

definition section_open :: "(bytes \<times> toml) list \<Rightarrow> bytes \<Rightarrow> bool" where
  "section_open t s \<longleftrightarrow> (case map_of t s of Some v \<Rightarrow> is_table v | None \<Rightarrow> True)"

lemma set_field_get:
  "section_open (set_field t ((s', f'), x)) s = section_open t s"
  "value_at (TTable (set_field t ((s', f'), x))) [s, f] =
     (if s = s' \<and> f = f' \<and> section_open t s then Some x else value_at (TTable t) [s, f])"
  by (auto simp: set_field_def section_open_def Let_def split: option.splits toml.splits)

lemma overrides_get:
  "value_at (TTable (foldl set_field t targets)) [s, f] =
     (case map_of (rev targets) (s, f) of
        Some x \<Rightarrow> if section_open t s then Some x else value_at (TTable t) [s, f]
      | None \<Rightarrow> value_at (TTable t) [s, f])"
proof (induction targets arbitrary: t)
  case (Cons x targets)
  obtain s' f' v where x: "x = ((s', f'), v)" by (metis surj_pair)
  show ?case
    using Cons [of "set_field t x"] set_field_get(1) [of t s' f' v s] set_field_get(2) [of t s' f' v s f]
    by (auto simp: x map_add_def split: option.splits)
qed simp

section \<open>The loader\<close>

record config_loader =
  cl_root :: toml
  cl_profile :: profile

definition read_toml_file :: "config_world \<Rightarrow> bytes \<Rightarrow> (toml, config_error) outcome" where
  "read_toml_file w path =
     (case read_to_string w path of
        Err e \<Rightarrow> Err (FileRead path e)
      | Panic \<Rightarrow> Panic
      | Ok content \<Rightarrow>
          (case toml_from_str w content of
             Err e \<Rightarrow> Err (Parse path e)
           | Panic \<Rightarrow> Panic
           | Ok v \<Rightarrow> Ok v))"

definition file_path :: "bytes \<Rightarrow> bytes \<Rightarrow> bytes" where
  "file_path dir name = dir @ ascii ''/'' @ name @ ascii ''.toml''"

definition load_toml :: "config_world \<Rightarrow> bytes \<Rightarrow> bytes \<Rightarrow> profile \<Rightarrow> (toml, config_error) outcome" where
  "load_toml w dir name profile =
     (let profile_path = file_path dir (name @ ascii ''-'' @ profile_as_str profile)
      in bind_outcome (read_toml_file w (file_path dir name)) (\<lambda>base.
           if path_exists w profile_path
           then bind_outcome (read_toml_file w profile_path) (\<lambda>overlay. Ok (deep_merge base overlay))
           else Ok base))"

definition load_with_profile :: "config_world \<Rightarrow> bytes \<Rightarrow> bytes \<Rightarrow> profile \<Rightarrow> (config_loader, config_error) outcome" where
  "load_with_profile w name dir profile =
     bind_outcome (load_toml w dir name profile) (\<lambda>v.
       Ok \<lparr>cl_root = merge_env_overrides w v, cl_profile = profile\<rparr>)"

definition load :: "config_world \<Rightarrow> bytes \<Rightarrow> bytes \<Rightarrow> (config_loader, config_error) outcome" where
  "load w name dir = load_with_profile w name dir (profile_from_env w)"

definition parse_defaults :: "config_world \<Rightarrow> bytes \<Rightarrow> (toml, config_error) outcome" where
  "parse_defaults w defaults =
     (case toml_from_str w defaults of
        Err e \<Rightarrow> Err (Parse (ascii ''<defaults>'') e)
      | Panic \<Rightarrow> Panic
      | Ok v \<Rightarrow> Ok v)"

definition from_defaults :: "config_world \<Rightarrow> bytes \<Rightarrow> (config_loader, config_error) outcome" where
  "from_defaults w defaults =
     bind_outcome (parse_defaults w defaults) (\<lambda>base.
       Ok \<lparr>cl_root = merge_env_overrides w base, cl_profile = profile_from_env w\<rparr>)"

definition load_with_defaults :: "config_world \<Rightarrow> bytes \<Rightarrow> bytes \<Rightarrow> bytes \<Rightarrow> (config_loader, config_error) outcome" where
  "load_with_defaults w defaults name dir =
     bind_outcome (parse_defaults w defaults) (\<lambda>default_val.
       let profile = profile_from_env w
       in case load_toml w dir name profile of
            Panic \<Rightarrow> Panic
          | Ok file \<Rightarrow> Ok \<lparr>cl_root = merge_env_overrides w (deep_merge default_val file), cl_profile = profile\<rparr>
          | Err _ \<Rightarrow> Ok \<lparr>cl_root = merge_env_overrides w default_val, cl_profile = profile\<rparr>)"

definition extract_section :: "(toml \<Rightarrow> ('t, bytes) outcome) \<Rightarrow> toml \<Rightarrow> bytes \<Rightarrow> ('t, config_error) outcome" where
  "extract_section deser root section =
     (case value_at root [section] of
        None \<Rightarrow> Err (MissingSection section)
      | Some v \<Rightarrow>
          (case deser v of
             Ok t \<Rightarrow> Ok t
           | Err e \<Rightarrow> Err (Deserialize section e)
           | Panic \<Rightarrow> Panic))"

section \<open>The layers\<close>

text \<open>A layer in which the section, if present, is a table and the field, if present, is no table.\<close>

definition plain_layer :: "bytes \<Rightarrow> bytes \<Rightarrow> toml \<Rightarrow> bool" where
  "plain_layer s f v \<longleftrightarrow> is_table v \<and> wf_toml v \<and> (\<forall>x. value_at v [s] = Some x \<longrightarrow> is_table x)
     \<and> (\<forall>x. value_at v [s, f] = Some x \<longrightarrow> \<not> is_table x)"

definition first_of :: "'a option list \<Rightarrow> 'a option" where
  "first_of vs = (case filter (\<lambda>v. v \<noteq> None) vs of [] \<Rightarrow> None | v # _ \<Rightarrow> v)"

lemma plain_layer_merge:
  assumes "plain_layer s f base" and "plain_layer s f overlay"
  shows "value_at (deep_merge base overlay) [s, f] = first_of [value_at overlay [s, f], value_at base [s, f]]"
    and "is_table (deep_merge base overlay)"
    and "value_at (deep_merge base overlay) [s] = Some x \<Longrightarrow> is_table x"
proof -
  obtain b t where bt: "base = TTable b" "overlay = TTable t"
    using assms by (cases base; cases overlay) (auto simp: plain_layer_def)
  have wf: "wf_toml overlay" using assms(2) by (simp add: plain_layer_def)
  have "deep_merge bv v = v" if "\<not> is_table v" for bv v using that by (cases bv; cases v) auto
  moreover have "\<not> blocks overlay [s, f]"
  proof (cases "map_of t s")
    case (Some v)
    then have "is_table v" using assms(2) bt by (auto simp: plain_layer_def)
    then show ?thesis using Some bt by (cases v) (auto split: option.splits)
  qed (simp add: bt)
  ultimately show "value_at (deep_merge base overlay) [s, f] = first_of [value_at overlay [s, f], value_at base [s, f]]"
    using deep_merge_lookup [OF wf, of base "[s, f]"] assms(2)
    by (auto simp: first_of_def plain_layer_def split: option.splits)
  show "is_table (deep_merge base overlay)" by (simp add: bt)
  show "is_table x" if "value_at (deep_merge base overlay) [s] = Some x"
  proof -
    have "is_table (deep_merge bv v)" if "is_table bv" "is_table v" for bv v using that by (cases bv; cases v) auto
    then show ?thesis
      using that deep_merge_lookup [OF wf, of base "[s]"] assms by (auto simp: plain_layer_def split: option.splits if_splits)
  qed
qed

text \<open>
  C30: A setting comes from the highest layer that defines it: the environment, the profile file, the base
  file, the embedded defaults. Here the defaults and both files parse, no layer has a plain value where another
  has a table, and the section and field are those of the setting after lower-casing; of several variables
  for the same setting the last one counts.
\<close>

theorem config_layers:
  assumes "toml_from_str w defaults = Ok d"
    and "read_toml_file w (file_path dir name) = Ok base"
    and "path_exists w (file_path dir (name @ ascii ''-'' @ profile_as_str (profile_from_env w)))"
    and "read_toml_file w (file_path dir (name @ ascii ''-'' @ profile_as_str (profile_from_env w))) = Ok overlay"
    and "list_all (plain_layer s f) [d, base, overlay]"
  shows "\<exists>c. load_with_defaults w defaults name dir = Ok c \<and>
    value_at (cl_root c) [s, f] =
      first_of [map_of (rev (List.map_filter (env_target w) (env_vars w))) (s, f),
        value_at overlay [s, f], value_at base [s, f], value_at d [s, f]]"
proof -
  let ?file = "deep_merge base overlay"
  have pl: "plain_layer s f d" "plain_layer s f base" "plain_layer s f overlay" using assms(5) by auto
  note fo = plain_layer_merge [OF pl(2,3)]
  have "plain_layer s f ?file"
    using fo wf_deep_merge(1) [of base overlay] pl by (auto simp: plain_layer_def first_of_def split: if_splits)
  note m = plain_layer_merge [OF pl(1) this]
  obtain t where t: "deep_merge d ?file = TTable t" using m(2) by (auto elim: is_table.elims)
  have "section_open t s" using m(3) t by (auto simp: section_open_def split: option.splits)
  then have "value_at (merge_env_overrides w (TTable t)) [s, f] =
      first_of [map_of (rev (List.map_filter (env_target w) (env_vars w))) (s, f), value_at (TTable t) [s, f]]"
    using overrides_get [of t "List.map_filter (env_target w) (env_vars w)" s f]
    by (auto simp: merge_env_overrides_def first_of_def simp del: value_at.simps split: option.splits)
  moreover have "load_with_defaults w defaults name dir
      = Ok \<lparr>cl_root = merge_env_overrides w (TTable t), cl_profile = profile_from_env w\<rparr>"
    using assms(1-4) t by (simp add: load_with_defaults_def parse_defaults_def load_toml_def Let_def)
  ultimately show ?thesis using m(1) fo(1) t by (auto simp: first_of_def split: option.splits if_splits)
qed

text \<open>A world with defaults, a base file, a file of the development profile and one variable.\<close>

definition demo_section :: "(bytes \<times> toml) list \<Rightarrow> toml" where
  "demo_section es = TTable [(ascii ''server'', TTable es)]"

definition demo_world :: config_world where
  "demo_world = \<lparr>to_lowercase = to_ascii_lowercase, parse_f64 = (\<lambda>_. None),
     toml_from_str = (\<lambda>s.
       if s = ascii ''D'' then Ok (demo_section [(ascii ''host'', TString (ascii ''h'')), (ascii ''port'', TInteger 1), (ascii ''tls'', TBoolean False)])
       else if s = ascii ''B'' then Ok (demo_section [(ascii ''port'', TInteger 2), (ascii ''tls'', TBoolean True)])
       else if s = ascii ''O'' then Ok (demo_section [(ascii ''port'', TInteger 3)])
       else Err (ascii ''syntax'')),
     read_to_string = (\<lambda>p. Ok (if p = ascii ''etc/app.toml'' then ascii ''B'' else if p = ascii ''etc/app-dev.toml'' then ascii ''O'' else ascii ''?'')),
     path_exists = (\<lambda>p. p = ascii ''etc/app-dev.toml''),
     env_vars = [(ascii ''MODUVEX__SERVER__PORT'', ascii ''9'')]\<rparr>"

lemma demo_target: "env_target demo_world (ascii ''MODUVEX__SERVER__PORT'', ascii ''9'') = Some ((ascii ''server'', ascii ''port''), TInteger 9)"
  by (simp add: env_target_def demo_world_def strip_prefix_def ascii_def to_ascii_lowercase_def parse_env_value_def
      parse_int_def digit_value_def)

lemma demo_files:
  "toml_from_str demo_world (ascii ''D'') = Ok (demo_section [(ascii ''host'', TString (ascii ''h'')), (ascii ''port'', TInteger 1), (ascii ''tls'', TBoolean False)])"
  "profile_from_env demo_world = Dev"
  "file_path (ascii ''etc'') (ascii ''app'') = ascii ''etc/app.toml''"
  "file_path (ascii ''etc'') (ascii ''app'' @ ascii ''-'' @ profile_as_str Dev) = ascii ''etc/app-dev.toml''"
  "read_toml_file demo_world (ascii ''etc/app.toml'') = Ok (demo_section [(ascii ''port'', TInteger 2), (ascii ''tls'', TBoolean True)])"
  "read_toml_file demo_world (ascii ''etc/app-dev.toml'') = Ok (demo_section [(ascii ''port'', TInteger 3)])"
  "path_exists demo_world (ascii ''etc/app-dev.toml'')"
  by (simp_all add: demo_world_def profile_from_env_def file_path_def read_toml_file_def ascii_def)

theorem config_layers_witness:
  "\<exists>c. load_with_defaults demo_world (ascii ''D'') (ascii ''app'') (ascii ''etc'') = Ok c \<and>
     value_at (cl_root c) [ascii ''server'', ascii ''port''] = Some (TInteger 9)"
proof -
  have "list_all (plain_layer (ascii ''server'') (ascii ''port''))
      [demo_section [(ascii ''host'', TString (ascii ''h'')), (ascii ''port'', TInteger 1), (ascii ''tls'', TBoolean False)],
       demo_section [(ascii ''port'', TInteger 2), (ascii ''tls'', TBoolean True)], demo_section [(ascii ''port'', TInteger 3)]]"
    by (simp add: plain_layer_def demo_section_def ascii_def)
  from config_layers [OF demo_files(1) demo_files(5) [folded demo_files(3)] _ _ this] demo_files(2,4,6,7) demo_target
  show ?thesis by (simp add: first_of_def map_filter_simps) (simp add: demo_world_def map_filter_simps)
qed

theorem deep_merge_lookup_witness:
  "value_at (deep_merge (demo_section [(ascii ''a'', TInteger 1)]) (demo_section [(ascii ''b'', TInteger 2)])) [ascii ''server'', ascii ''a''] = Some (TInteger 1)"
proof -
  have "wf_toml (demo_section [(ascii ''b'', TInteger 2)])" by (simp add: demo_section_def)
  from deep_merge_lookup [OF this, of "demo_section [(ascii ''a'', TInteger 1)]" "[ascii ''server'', ascii ''a'']"]
  show ?thesis by (simp add: demo_section_def ascii_def)
qed

text \<open>
  A configuration file that cannot be read or parsed is ignored in silence: with defaults, the loader then returns the
  defaults as if there were no file, whatever the error was.
\<close>

theorem malformed_file_ignored:
  assumes "toml_from_str w defaults = Ok d" and "load_toml w dir name (profile_from_env w) = Err e"
  shows "load_with_defaults w defaults name dir = from_defaults w defaults
    \<and> load w name dir = Err e"
  using assms
  by (simp add: load_with_defaults_def from_defaults_def parse_defaults_def load_def load_with_profile_def)

theorem malformed_file_ignored_witness:
  "load_with_defaults demo_world (ascii ''D'') (ascii ''x'') (ascii ''etc'') = from_defaults demo_world (ascii ''D'')"
proof -
  have "load_toml demo_world (ascii ''etc'') (ascii ''x'') (profile_from_env demo_world) = Err (Parse (ascii ''etc/x.toml'') (ascii ''syntax''))"
    by (simp add: load_toml_def read_toml_file_def file_path_def) (simp add: demo_world_def ascii_def)
  then show ?thesis using malformed_file_ignored [OF demo_files(1)] by blast
qed

end
