(* ===== verification/Observe.thy ===== *)
theory Observe
  imports Extract "HOL-Library.Multiset"
begin

text \<open>
  Observability (\<^verbatim>\<open>moduvex-observe\<close>): counters, gauges and histograms (\<^verbatim>\<open>metrics\<close>) as words that wrap,
  the text exposition format (\<^verbatim>\<open>export/prometheus.rs\<close>), health checks (\<^verbatim>\<open>health\<close>), JSON log lines
  (\<^verbatim>\<open>log/format.rs\<close>) and the identifiers of traces (\<^verbatim>\<open>trace\<close>). Floating-point comparison, addition and printing are
  parameters; the rest of the code does not depend on them.
\<close>

section \<open>Metrics\<close>

record counter =
  c_value :: u64

definition counter_inc_by :: "u64 \<Rightarrow> counter \<Rightarrow> counter" where
  "counter_inc_by n c = c\<lparr>c_value := c_value c + n\<rparr>"

definition counter_inc :: "counter \<Rightarrow> counter" where
  "counter_inc c = counter_inc_by 1 c"

record gauge =
  g_value :: "64 word"

definition gauge_add :: "64 word \<Rightarrow> gauge \<Rightarrow> gauge" where
  "gauge_add n g = g\<lparr>g_value := g_value g + n\<rparr>"

definition gauge_inc :: "gauge \<Rightarrow> gauge" where
  "gauge_inc g = gauge_add 1 g"

definition gauge_dec :: "gauge \<Rightarrow> gauge" where
  "gauge_dec g = g\<lparr>g_value := g_value g - 1\<rparr>"

definition gauge_set :: "64 word \<Rightarrow> gauge \<Rightarrow> gauge" where
  "gauge_set v g = g\<lparr>g_value := v\<rparr>"

record 'f histogram =
  h_bounds :: "'f list"
  h_buckets :: "u64 list"
  h_count :: u64
  h_sum :: 'f

definition histogram_new :: "'f \<Rightarrow> 'f list \<Rightarrow> 'f histogram" where
  "histogram_new zero bounds = \<lparr>h_bounds = bounds, h_buckets = replicate (length bounds + 1) 0, h_count = 0, h_sum = zero\<rparr>"

text \<open>The buckets one observation increments, in order; each increment is an atomic \<^verbatim>\<open>fetch_add\<close>.\<close>

definition observe_incs :: "('f \<Rightarrow> 'f \<Rightarrow> bool) \<Rightarrow> 'f list \<Rightarrow> 'f \<Rightarrow> nat list" where
  "observe_incs fle bounds v =
     (case position (\<lambda>b. fle v b) bounds of Some i \<Rightarrow> [i..<length bounds] | None \<Rightarrow> []) @ [length bounds]"

definition inc_bucket :: "nat \<Rightarrow> u64 list \<Rightarrow> u64 list" where
  "inc_bucket j bs = bs[j := bs ! j + 1]"

definition observe :: "('f \<Rightarrow> 'f \<Rightarrow> bool) \<Rightarrow> ('f \<Rightarrow> 'f \<Rightarrow> 'f) \<Rightarrow> 'f \<Rightarrow> 'f histogram \<Rightarrow> 'f histogram" where
  "observe fle fadd v h =
     h\<lparr>h_buckets := fold inc_bucket (observe_incs fle (h_bounds h) v) (h_buckets h),
       h_count := h_count h + 1, h_sum := fadd (h_sum h) v\<rparr>"

definition histogram_snapshot :: "'f \<Rightarrow> 'f histogram \<Rightarrow> ('f \<times> u64) list" where
  "histogram_snapshot infinity h = zip (h_bounds h @ [infinity]) (h_buckets h)"

text \<open>Increments commute: what counts is how often each bucket occurs.\<close>

lemma length_fold_inc [simp]: "length (fold inc_bucket js bs) = length bs"
  by (induction js arbitrary: bs) (auto simp: inc_bucket_def)

lemma fold_inc_nth:
  "i < length bs \<Longrightarrow> fold inc_bucket js bs ! i = bs ! i + of_nat (count (mset js) i)"
proof (induction js arbitrary: bs)
  case (Cons j js)
  then show ?case by (cases "j = i"; cases "j < length bs") (auto simp: inc_bucket_def)
qed simp

definition ascending :: "('f \<Rightarrow> 'f \<Rightarrow> bool) \<Rightarrow> 'f list \<Rightarrow> 'f \<Rightarrow> bool" where
  "ascending fle bounds v \<longleftrightarrow>
     (\<forall>j < length bounds. \<forall>i < j. fle v (bounds ! i) \<longrightarrow> fle v (bounds ! j))"

lemma count_observe_incs:
  assumes "i \<le> length bounds" and up: "ascending fle bounds v"
  shows "count (mset (observe_incs fle bounds v)) i = (if i = length bounds \<or> fle v (bounds ! i) then 1 else 0)"
proof (cases "position (fle v) bounds")
  case None
  then have "\<not> fle v (bounds ! i)" if "i < length bounds" using that by (simp add: position_None list_all_length)
  then show ?thesis using None assms(1) by (auto simp: observe_incs_def)
next
  case (Some k)
  then have k: "k < length bounds" "fle v (bounds ! k)" "\<And>j. j < k \<Longrightarrow> \<not> fle v (bounds ! j)"
    by (auto simp: position_Some)
  have "fle v (bounds ! i) \<longleftrightarrow> k \<le> i" if "i < length bounds"
  proof
    show "k \<le> i" if "fle v (bounds ! i)" using k(3) [of i] that by (meson not_le)
    show "fle v (bounds ! i)" if "k \<le> i"
      using that k(2) up \<open>i < length bounds\<close> by (auto simp: ascending_def le_less)
  qed
  moreover have "count (mset [k..<length bounds]) i = (if k \<le> i \<and> i < length bounds then 1 else 0)"
    by (simp add: distinct_count_atmost_1 [THEN iffD1] count_mset_0_iff)
  ultimately show ?thesis using assms(1) Some k(1) by (auto simp: observe_incs_def)
qed

lemma count_all_incs:
  assumes "i \<le> length bounds" and "list_all (ascending fle bounds) vs"
  shows "count (mset (concat (map (observe_incs fle bounds) vs))) i
    = length (filter (\<lambda>v. i = length bounds \<or> fle v (bounds ! i)) vs)"
  using assms(2)
proof (induction vs)
  case (Cons v vs)
  have "count (mset (observe_incs fle bounds v)) i = (if i = length bounds \<or> fle v (bounds ! i) then 1 else 0)"
    using assms(1) Cons.prems by (intro count_observe_incs) auto
  then show ?case using Cons by (simp only: list.map concat.simps mset_append count_union) auto
qed simp

text \<open>
  C32: Histogram buckets are exact under concurrency. Threads observe the values \<open>vs\<close>, and their atomic increments
  interleave in any order \<open>js\<close>. With ascending bounds, the bucket of a bound then holds the number of
  values up to it, and the last bucket the number of all values, modulo \<open>2 ^ 64\<close>; a value that compares with nothing
  is in the last bucket only.
\<close>

theorem histogram_buckets_exact:
  assumes "mset js = mset (concat (map (observe_incs fle bounds) vs))"
    and "list_all (ascending fle bounds) vs" and "i \<le> length bounds"
  shows "fold inc_bucket js (h_buckets (histogram_new zero bounds)) ! i
    = of_nat (if i = length bounds then length vs else length (filter (\<lambda>v. fle v (bounds ! i)) vs))"
proof -
  have "h_buckets (histogram_new zero bounds) ! i = 0"
    using assms(3) by (simp add: histogram_new_def nth_Cons split: nat.split)
  then show ?thesis
    using fold_inc_nth [of i "h_buckets (histogram_new zero bounds)" js] count_all_incs [OF assms(3,2)] assms(1,3)
    by (simp add: histogram_new_def del: mset_concat)
qed

theorem histogram_buckets_exact_witness:
  "fold inc_bucket [3, 1, 2, 2, 3, 3] (h_buckets (histogram_new (0::int) [1, 5, 10])) = [0, 1, 2, 3]"
proof -
  let ?bs = "[1, 5, 10] :: int list" and ?vs = "[4, 7, 99] :: int list"
  have 1: "mset [3, 1, 2, 2, 3, 3] = mset (concat (map (observe_incs (\<le>) ?bs) ?vs))"
    by (simp add: observe_incs_def upt_rec eval_nat_numeral)
  have 2: "list_all (ascending (\<le>) ?bs) ?vs" by (auto simp: ascending_def less_Suc_eq numeral_3_eq_3)
  have "fold inc_bucket [3, 1, 2, 2, 3, 3] (h_buckets (histogram_new (0::int) ?bs)) ! i
      = of_nat (if i = 3 then 3 else length (filter (\<lambda>v. v \<le> ?bs ! i) ?vs))" if "i \<le> 3" for i
    using histogram_buckets_exact [OF 1 2, of i 0] that by simp
  from this [of 0] this [of 1] this [of 2] this [of 3] show ?thesis
    by (simp add: histogram_new_def inc_bucket_def)
qed

section \<open>Registry and exposition\<close>

datatype metric_kind = KCounter | KGauge | KHistogram

text \<open>A snapshot; the text of each number is what \<^verbatim>\<open>Display\<close> prints.\<close>

datatype metric_snapshot =
  SCounter u64
| SGauge "64 word"
| SHistogram "(bytes option \<times> u64) list" u64 bytes

record metric_entry =
  m_name :: bytes
  m_help :: bytes
  m_kind :: metric_kind
  m_reader :: metric_snapshot

record metrics_registry =
  r_entries :: "metric_entry list"
  r_frozen :: bool

definition registry_register :: "metric_entry \<Rightarrow> metrics_registry \<Rightarrow> (metrics_registry, unit) outcome" where
  "registry_register e r = (if r_frozen r then Panic else Ok (r\<lparr>r_entries := r_entries r @ [e]\<rparr>))"

definition registry_freeze :: "metrics_registry \<Rightarrow> metrics_registry" where
  "registry_freeze r = r\<lparr>r_frozen := True\<rparr>"

text \<open>\<^verbatim>\<open>i64\<close> in decimal.\<close>

definition signed_decimal :: "64 word \<Rightarrow> bytes" where
  "signed_decimal v = (if sint v < 0 then 45 # decimal (nat (- sint v)) else decimal (nat (sint v)))"

definition kind_str :: "metric_kind \<Rightarrow> bytes" where
  "kind_str k = (case k of KCounter \<Rightarrow> ascii ''counter'' | KGauge \<Rightarrow> ascii ''gauge'' | KHistogram \<Rightarrow> ascii ''histogram'')"

definition sample :: "bytes \<Rightarrow> bytes \<Rightarrow> bytes" where
  "sample name val = name @ 32 # val"

definition bucket_name :: "bytes \<Rightarrow> bytes option \<Rightarrow> bytes" where
  "bucket_name name le =
     name @ ascii ''_bucket{le='' @ 34 # (case le of None \<Rightarrow> ascii ''+Inf'' | Some t \<Rightarrow> t) @ [34, 125]"

text \<open>The samples of a metric: the name with its labels, and the value.\<close>

fun samples :: "bytes \<Rightarrow> metric_snapshot \<Rightarrow> (bytes \<times> bytes) list" where
  "samples name (SCounter v) = [(name, decimal (unat v))]"
| "samples name (SGauge v) = [(name, signed_decimal v)]"
| "samples name (SHistogram buckets cnt sum_text) =
     map (\<lambda>(le, n). (bucket_name name le, decimal (unat n))) buckets
     @ [(name @ ascii ''_sum'', sum_text), (name @ ascii ''_count'', decimal (unat cnt))]"

definition render_metric :: "metric_entry \<Rightarrow> bytes list" where
  "render_metric e =
     [ascii ''# HELP '' @ m_name e @ 32 # m_help e, ascii ''# TYPE '' @ m_name e @ 32 # kind_str (m_kind e)]
     @ map (\<lambda>(n, v). sample n v) (samples (m_name e) (m_reader e))"

text \<open>\<^verbatim>\<open>PrometheusExporter::render\<close>: one line each, every line ended.\<close>

definition render :: "metric_entry list \<Rightarrow> bytes" where
  "render es = concat (map (\<lambda>l. l @ [10]) (concat (map render_metric es)))"

definition word_ok :: "bytes \<Rightarrow> bool" where
  "word_ok s \<longleftrightarrow> s \<noteq> [] \<and> hd s \<noteq> 35 \<and> set s \<inter> {10, 32} = {}"

fun snapshot_ok :: "metric_snapshot \<Rightarrow> bool" where
  "snapshot_ok (SHistogram buckets cnt sum_text) \<longleftrightarrow>
     10 \<notin> set sum_text \<and> list_all (\<lambda>b. pred_option (\<lambda>t. set t \<inter> {10, 32} = {}) (fst b)) buckets"
| "snapshot_ok _ \<longleftrightarrow> True"

definition entry_ok :: "metric_entry \<Rightarrow> bool" where
  "entry_ok e \<longleftrightarrow> word_ok (m_name e) \<and> 10 \<notin> set (m_help e) \<and> snapshot_ok (m_reader e)"

lemma decimal_clean: "10 \<notin> set (decimal n)" "32 \<notin> set (decimal n)" "10 \<notin> set (signed_decimal v)"
  using decimal_digits [of 10] decimal_digits [of 32] by (auto simp: signed_decimal_def)

lemma samples_ok:
  assumes "word_ok name" and "snapshot_ok s" and "(n, v) \<in> set (samples name s)"
  shows "word_ok n \<and> 10 \<notin> set v"
  using assms
  by (cases s) (auto simp: word_ok_def bucket_name_def ascii_def decimal_clean list_all_iff split: option.splits)

lemma split_on_lines:
  "list_all (\<lambda>l. 10 \<notin> set l) ls \<Longrightarrow> split_on 10 (concat (map (\<lambda>l. l @ [10]) ls)) = ls @ [[]]"
  by (induction ls) (auto simp: split_on_first)

lemma render_literals:
  "10 \<notin> set (ascii ''# HELP '')" "10 \<notin> set (ascii ''# TYPE '')" "10 \<notin> set (kind_str k)"
  "hd (ascii ''# HELP '' @ x) = 35" "hd (ascii ''# TYPE '' @ x) = 35"
  by (cases k; simp add: kind_str_def ascii_def)+

lemma render_metric_clean:
  assumes "entry_ok e" and "l \<in> set (render_metric e)"
  shows "10 \<notin> set l"
proof -
  have "\<exists>n v. (n, v) \<in> set (samples (m_name e) (m_reader e)) \<and> l = sample n v" if "l \<notin> set (take 2 (render_metric e))"
    using that assms(2) by (auto simp: render_metric_def)
  moreover have "10 \<notin> set (sample n v)" if "(n, v) \<in> set (samples (m_name e) (m_reader e))" for n v
    using samples_ok [OF _ _ that] assms(1) by (auto simp: sample_def entry_ok_def word_ok_def)
  moreover have "10 \<notin> set l" if "l \<in> set (take 2 (render_metric e))"
    using that assms(1) render_literals(1,2,3) by (auto simp: render_metric_def entry_ok_def word_ok_def)
  ultimately show ?thesis by blast
qed

definition read_sample :: "bytes \<Rightarrow> bytes \<times> bytes" where
  "read_sample l = (case split_two 32 l of (n, v) \<Rightarrow> (n, case v of Some x \<Rightarrow> x | None \<Rightarrow> []))"

definition is_sample :: "bytes \<Rightarrow> bool" where
  "is_sample l \<longleftrightarrow> l \<noteq> [] \<and> hd l \<noteq> 35"

text \<open>A scraper: lines that are no comments, split at the first space.\<close>

definition scrape :: "bytes \<Rightarrow> (bytes \<times> bytes) list" where
  "scrape page = map read_sample (filter is_sample (split_on 10 page))"

lemma read_samples:
  "list_all (\<lambda>p. word_ok (fst p)) ss \<Longrightarrow> map read_sample (filter is_sample (map (\<lambda>(n, v). sample n v) ss)) = ss"
  by (induction ss) (auto simp: read_sample_def is_sample_def word_ok_def sample_def split_two_at)

lemma scrape_metric:
  assumes "entry_ok e"
  shows "map read_sample (filter is_sample (render_metric e)) = samples (m_name e) (m_reader e)"
proof -
  have "list_all (\<lambda>p. word_ok (fst p)) (samples (m_name e) (m_reader e))"
    using assms samples_ok [of "m_name e" "m_reader e"] by (auto simp: entry_ok_def list_all_iff)
  then show ?thesis
    using read_samples render_literals(4,5) by (simp add: render_metric_def is_sample_def)
qed

text \<open>
  A scraper reads back exactly the samples of all metrics, in order: every counter and gauge with its value and
  every histogram with its buckets, sum and count. Names and labels have no blanks, and no help text
  has a line end, which the exporter does not escape.
\<close>

theorem exposition_recovered:
  assumes "list_all entry_ok es"
  shows "scrape (render es) = concat (map (\<lambda>e. samples (m_name e) (m_reader e)) es)"
proof -
  have "list_all (\<lambda>l. 10 \<notin> set l) (concat (map render_metric es))"
    using assms render_metric_clean by (auto simp: list_all_iff)
  then have "scrape (render es) = map read_sample (filter is_sample (concat (map render_metric es)))"
    by (simp add: scrape_def render_def split_on_lines is_sample_def)
  also have "\<dots> = concat (map (\<lambda>e. samples (m_name e) (m_reader e)) es)"
    using assms by (induction es) (simp_all add: scrape_metric)
  finally show ?thesis .
qed

theorem exposition_recovered_witness:
  "scrape (render [\<lparr>m_name = ascii ''jobs'', m_help = ascii ''running jobs'', m_kind = KGauge, m_reader = SGauge (- 3)\<rparr>]) = [(ascii ''jobs'', ascii ''-3'')]"
proof -
  have "entry_ok \<lparr>m_name = ascii ''jobs'', m_help = ascii ''running jobs'', m_kind = KGauge, m_reader = SGauge (- 3)\<rparr>"
    by (simp add: entry_ok_def word_ok_def ascii_def)
  then show ?thesis
    using exposition_recovered [of "[\<lparr>m_name = ascii ''jobs'', m_help = ascii ''running jobs'', m_kind = KGauge, m_reader = SGauge (- 3)\<rparr>]"]
    by (simp add: signed_decimal_def decimal.simps ascii_def)
qed

section \<open>Health checks\<close>

datatype health_status = Healthy | Degraded bytes | Unhealthy bytes

record check_result =
  cr_name :: bytes
  cr_status :: health_status

fun aggregate_loop :: "health_status \<Rightarrow> check_result list \<Rightarrow> health_status" where
  "aggregate_loop worst [] = worst"
| "aggregate_loop worst (r # rs) =
     (case cr_status r of
        Unhealthy msg \<Rightarrow> Unhealthy (cr_name r @ ascii '': '' @ msg)
      | Degraded msg \<Rightarrow> aggregate_loop (Degraded (cr_name r @ ascii '': '' @ msg)) rs
      | Healthy \<Rightarrow> aggregate_loop worst rs)"

definition aggregate_results :: "check_result list \<Rightarrow> health_status" where
  "aggregate_results rs = aggregate_loop Healthy rs"

text \<open>A registered check is its name and what it returns; asynchronous checks run behind the others, in order.\<close>

definition check_all :: "(bytes \<times> health_status) list \<Rightarrow> check_result list" where
  "check_all cs = map (\<lambda>(n, st). \<lparr>cr_name = n, cr_status = st\<rparr>) cs"

definition check_all_async :: "(bytes \<times> health_status) list \<Rightarrow> (bytes \<times> health_status) list \<Rightarrow> check_result list" where
  "check_all_async sync_checks async_checks = check_all sync_checks @ check_all async_checks"

definition unhealthy_of :: "check_result \<Rightarrow> health_status option" where
  "unhealthy_of r = (case cr_status r of Unhealthy msg \<Rightarrow> Some (Unhealthy (cr_name r @ ascii '': '' @ msg)) | _ \<Rightarrow> None)"

definition degraded_of :: "check_result \<Rightarrow> health_status option" where
  "degraded_of r = (case cr_status r of Degraded msg \<Rightarrow> Some (Degraded (cr_name r @ ascii '': '' @ msg)) | _ \<Rightarrow> None)"

lemma aggregate_loop_spec:
  "aggregate_loop worst rs =
     (case List.map_filter unhealthy_of rs of
        u # _ \<Rightarrow> u
      | [] \<Rightarrow> last (worst # List.map_filter degraded_of rs))"
proof (induction rs arbitrary: worst)
  case (Cons r rs)
  then show ?case
    using unhealthy_of_def [of r] degraded_of_def [of r]
    by (cases "cr_status r") (simp_all add: map_filter_simps split: list.split)
qed (simp add: map_filter_simps)

text \<open>
  The overall status is the worst one: the first unhealthy check decides, otherwise the last degraded one, and the
  result is healthy exactly when every check, synchronous or not, is.
\<close>

theorem health_is_worst:
  "aggregate_results rs =
     (case List.map_filter unhealthy_of rs of
        u # _ \<Rightarrow> u
      | [] \<Rightarrow> last (Healthy # List.map_filter degraded_of rs))
   \<and> (aggregate_results (check_all_async cs as) = Healthy \<longleftrightarrow> list_all (\<lambda>c. snd c = Healthy) (cs @ as))"
proof
  have "aggregate_loop Healthy (check_all xs) = Healthy \<longleftrightarrow> list_all (\<lambda>c. snd c = Healthy) xs" for xs
  proof -
    have *: "aggregate_loop w (check_all xs) = Healthy \<longleftrightarrow> w = Healthy \<and> list_all (\<lambda>c. snd c = Healthy) xs" for w
    proof (induction xs arbitrary: w)
      case (Cons c xs)
      then show ?case by (cases c; cases "snd c") (simp_all add: check_all_def)
    qed (simp add: check_all_def)
    show ?thesis by (simp add: *)
  qed
  from this [of "cs @ as"]
  show "aggregate_results (check_all_async cs as) = Healthy \<longleftrightarrow> list_all (\<lambda>c. snd c = Healthy) (cs @ as)"
    by (simp add: aggregate_results_def check_all_async_def check_all_def)
qed (simp add: aggregate_results_def aggregate_loop_spec)

section \<open>Log lines\<close>

datatype log_level = Trace | Debug | Info | Warn | Error_level

fun level_as_str :: "log_level \<Rightarrow> bytes" where
  "level_as_str Trace = ascii ''TRACE''"
| "level_as_str Debug = ascii ''DEBUG''"
| "level_as_str Info = ascii ''INFO''"
| "level_as_str Warn = ascii ''WARN''"
| "level_as_str Error_level = ascii ''ERROR''"

definition parse_level :: "bytes \<Rightarrow> log_level option" where
  "parse_level s =
     (let l = to_ascii_lowercase s
      in if l = ascii ''trace'' then Some Trace
         else if l = ascii ''debug'' then Some Debug
         else if l = ascii ''info'' then Some Info
         else if l = ascii ''warn'' \<or> l = ascii ''warning'' then Some Warn
         else if l = ascii ''error'' then Some Error_level
         else None)"

text \<open>Field values; a float is its text, or nothing when it is not finite.\<close>

datatype log_value = VString bytes | VI64 "64 word" | VU64 u64 | VF64 "bytes option" | VBool bool

record log_event =
  ev_level :: log_level
  ev_message :: bytes
  ev_timestamp_us :: u64
  ev_fields :: "(bytes \<times> log_value) list"

definition escape_json_byte :: "byte \<Rightarrow> bytes" where
  "escape_json_byte b =
     (if b = 34 then [92, 34] else if b = 92 then [92, 92] else if b = 10 then [92, 110]
      else if b = 13 then [92, 114] else if b = 9 then [92, 116] else [b])"

definition escape_json :: "bytes \<Rightarrow> bytes" where
  "escape_json s = concat (map escape_json_byte s)"

fun json_value :: "log_value \<Rightarrow> bytes" where
  "json_value (VString s) = 34 # escape_json s @ [34]"
| "json_value (VI64 n) = signed_decimal n"
| "json_value (VU64 n) = decimal (unat n)"
| "json_value (VF64 (Some t)) = t"
| "json_value (VF64 None) = ascii ''null''"
| "json_value (VBool b) = (if b then ascii ''true'' else ascii ''false'')"

definition json_format :: "log_event \<Rightarrow> bytes" where
  "json_format e =
     123 # 34 # ascii ''level'' @ [34, 58, 34] @ level_as_str (ev_level e) @ [34, 44, 34] @ ascii ''ts'' @ [34, 58]
     @ decimal (unat (ev_timestamp_us e)) @ [44, 34] @ ascii ''msg'' @ [34, 58, 34] @ escape_json (ev_message e) @ [34]
     @ concat (map (\<lambda>(k, v). 44 # 34 # escape_json k @ [34, 58] @ json_value v) (ev_fields e)) @ [125, 10]"

definition unescaped_control :: "byte \<Rightarrow> bool" where
  "unescaped_control b \<longleftrightarrow> b < 0x20 \<and> b \<notin> {9, 10, 13}"

lemma unescape_simple:
  "a \<noteq> 117 \<Longrightarrow> unescape (a # r) = map_option (\<lambda>v. (v, r)) (map_of [(34, 34), (92, 92), (110, 10), (114, 13), (116, 9)] a)"
  by (cases "a # r" rule: unescape.cases) auto

text \<open>
  A string in a log line is read back by a JSON reader exactly when it has no control character besides tab,
  line feed and carriage return; any other control character is written as it is, and the line is no JSON.
\<close>

theorem log_string_escape_exact:
  "read_string (escape_json s @ 34 # rest) = (if list_ex unescaped_control s then None else Some (s, rest))"
proof (induction s)
  case Nil
  then show ?case by (simp add: escape_json_def read_string.simps)
next
  case (Cons b s)
  then show ?case
    using unescaped_control_def [of b]
    by (subst read_string.simps) (auto simp: escape_json_def escape_json_byte_def unescape_simple)
qed

section \<open>Identifiers\<close>

definition mix :: "u64 \<Rightarrow> u64" where
  "mix x =
     (let x = x XOR drop_bit 30 x;
          x = x * 0xbf58476d1ce4e5b9;
          x = x XOR drop_bit 27 x;
          x = x * 0x94d049bb133111eb
      in x XOR drop_bit 31 x)"

definition span_id_generate :: "u64 \<Rightarrow> u64 \<Rightarrow> u64" where
  "span_id_generate time_seed seq = mix (time_seed + seq)"

definition trace_id_generate :: "u64 \<Rightarrow> u64 \<Rightarrow> u64 \<times> u64" where
  "trace_id_generate time_seed seq = (let hi = mix (time_seed + seq) in (hi, mix (hi + seq)))"

lemma xorshift_inj:
  assumes "0 < k" and "(x :: u64) XOR drop_bit k x = y XOR drop_bit k y"
  shows "x = y"
proof -
  define z where "z = x XOR y"
  have "z XOR drop_bit k z = (x XOR drop_bit k x) XOR (y XOR drop_bit k y)"
    by (simp add: z_def drop_bit_xor ac_simps)
  then have "z XOR drop_bit k z = 0" using assms(2) by simp
  moreover have "z = (z XOR drop_bit k z) XOR drop_bit k z" by (simp add: xor.assoc)
  ultimately have "z = drop_bit k z" by simp
  then have "unat z = unat (drop_bit k z)" by (rule arg_cong)
  also have "\<dots> = unat z div 2 ^ k" using unat_drop_bit_eq [of k z] drop_bit_eq_div [of k "unat z"] by (rule trans)
  finally have eq: "unat z = unat z div 2 ^ k" .
  have "unat z = 0"
  proof (rule ccontr)
    assume "unat z \<noteq> 0"
    then have "unat z div 2 ^ k < unat z" using assms(1) one_less_power [of "2 :: nat" k] by (intro div_less_dividend) simp_all
    then show False using eq by linarith
  qed
  then have "z = 0" by (simp only: unat_eq_zero)
  moreover have "x = z XOR y" by (simp add: z_def xor.assoc)
  ultimately show ?thesis by simp
qed

lemma mult_inj:
  assumes "(c :: u64) * d = 1" and "x * c = y * c"
  shows "x = y"
proof -
  have "x * (c * d) = y * (c * d)" using assms(2) by (simp only: mult.assoc [symmetric])
  then show ?thesis by (simp only: assms(1) mult_1_right)
qed

lemma mix_factors:
  "(0xbf58476d1ce4e5b9 :: u64) * 0x96de1b173f119089 = 1"
  "(0x94d049bb133111eb :: u64) * 0x319642b2d24d8ec3 = 1"
  by simp_all

lemma mix_inj:
  assumes "mix x = mix y"
  shows "x = y"
proof -
  define f g where "f = (\<lambda>x :: u64. (x XOR drop_bit 30 x) * 0xbf58476d1ce4e5b9)"
    and "g = (\<lambda>x :: u64. (x XOR drop_bit 27 x) * 0x94d049bb133111eb)"
  have "g (f x) XOR drop_bit 31 (g (f x)) = g (f y) XOR drop_bit 31 (g (f y))"
    using assms by (simp only: mix_def Let_def f_def g_def)
  then have "g (f x) = g (f y)" by (rule xorshift_inj [rotated]) simp
  then have "f x XOR drop_bit 27 (f x) = f y XOR drop_bit 27 (f y)"
    unfolding g_def by (rule mult_inj [OF mix_factors(2)])
  then have "f x = f y" by (rule xorshift_inj [rotated]) simp
  then have "x XOR drop_bit 30 x = y XOR drop_bit 30 y"
    unfolding f_def by (rule mult_inj [OF mix_factors(1)])
  then show "x = y" by (rule xorshift_inj [rotated]) simp
qed

text \<open>
  Identifiers collide only when their seeds do. The mixing function is injective on 64-bit words, so two span
  identifiers are equal exactly when time plus sequence number agree; in particular the identifiers drawn at one clock reading are
  all different until the counter wraps.
\<close>

theorem identifiers_distinct:
  "(span_id_generate t n = span_id_generate t' n' \<longleftrightarrow> t + n = t' + n')
   \<and> (span_id_generate t n = span_id_generate t n' \<longleftrightarrow> n = n')
   \<and> (trace_id_generate t n = trace_id_generate t' n' \<longleftrightarrow> t = t' \<and> n = n')"
proof -
  have inj: "mix x = mix y \<longleftrightarrow> x = y" for x y using mix_inj by blast
  have "mix (t + n) = mix (t' + n') \<and> mix (mix (t + n) + n) = mix (mix (t' + n') + n') \<longleftrightarrow> t = t' \<and> n = n'"
    unfolding inj by (metis add_left_cancel add_right_cancel)
  then show ?thesis by (simp only: span_id_generate_def trace_id_generate_def inj Let_def prod.inject add_left_cancel)
qed

end
