(* ===== verification/Middleware.thy ===== *)
theory Middleware
  imports Observe
begin

unbundle bit_operations_syntax

text \<open>
  The middlewares the framework ships (\<^verbatim>\<open>moduvex-http/src/middleware/builtin\<close> and the trace
  propagation of \<^verbatim>\<open>moduvex-starter-web/src/tracing_middleware.rs\<close>), over the chain of
  \<open>H1_Conn\<close>. What a middleware reads from the process (the clock, a counter, the file system)
  is an argument of it. A value put into the request's extensions is an extra argument of the
  rest of the chain.
\<close>

section \<open>Cross-origin headers\<close>

record cors =
  allow_origins :: "bytes list"
  allow_methods :: "bytes list"
  allow_headers :: "bytes list"
  max_age :: u32

definition cors_permissive :: cors where
  "cors_permissive = \<lparr>allow_origins = [ascii ''*''],
     allow_methods = map ascii [''GET'', ''POST'', ''PUT'', ''DELETE'', ''PATCH'', ''OPTIONS'', ''HEAD''],
     allow_headers = map ascii [''Content-Type'', ''Authorization'', ''Accept''], max_age = 86400\<rparr>"

definition cors_origin :: "bytes \<Rightarrow> cors \<Rightarrow> cors" where
  "cors_origin origin c = c\<lparr>allow_origins := [origin]\<rparr>"

definition cors_apply_headers :: "cors \<Rightarrow> response \<Rightarrow> response" where
  "cors_apply_headers c r =
     response_header (response_header (response_header r
       (ascii ''access-control-allow-origin'') (join_with (ascii '', '') (allow_origins c)))
       (ascii ''access-control-allow-methods'') (join_with (ascii '', '') (allow_methods c)))
       (ascii ''access-control-allow-headers'') (join_with (ascii '', '') (allow_headers c))"

definition cors_handle :: "cors \<Rightarrow> middleware" where
  "cors_handle c req k =
     (if req_method req = OPTIONS then
        (response_header (cors_apply_headers c (response_new 204))
           (ascii ''access-control-max-age'') (decimal (unat (max_age c))), False)
      else (let (resp, upgrade) = k req in (cors_apply_headers c resp, upgrade)))"

section \<open>Request identifiers\<close>

text \<open>\<^verbatim>\<open>format!("{:0wx}", n)\<close>: at least \<open>w\<close> hexadecimal digits.\<close>

definition hex_pad :: "nat \<Rightarrow> nat \<Rightarrow> bytes" where
  "hex_pad w n = replicate (w - length (hex n)) 48 @ hex n"

definition generate_id :: "u64 \<Rightarrow> u32 \<Rightarrow> bytes" where
  "generate_id ts_ms seq = hex (unat ts_ms) @ 45 # hex_pad 4 (unat seq)"

definition request_id_of :: "u64 \<Rightarrow> u32 \<Rightarrow> request \<Rightarrow> bytes" where
  "request_id_of ts_ms seq req =
     (case header_get_str (req_headers req) (ascii ''x-request-id'') of
        Some s \<Rightarrow> if str_trim s \<noteq> [] then s else generate_id ts_ms seq
      | None \<Rightarrow> generate_id ts_ms seq)"

definition request_id_handle :: "u64 \<Rightarrow> u32 \<Rightarrow> request \<Rightarrow> (bytes \<Rightarrow> request \<Rightarrow> reply) \<Rightarrow> reply" where
  "request_id_handle ts_ms seq req k =
     (let id = request_id_of ts_ms seq req;
          (resp, upgrade) = k id req
      in (response_header resp (ascii ''x-request-id'') id, upgrade))"

section \<open>Static files\<close>

text \<open>
  The file system: the canonical form of a relative path under a directory (as components,
  symbolic links resolved), which paths are directories, the contents and the modification
  times.
\<close>

type_synonym path = "bytes list"

record file_system =
  fs_canonicalize :: "path \<Rightarrow> bytes \<Rightarrow> path option"
  fs_is_dir :: "path \<Rightarrow> bool"
  fs_read :: "path \<Rightarrow> bytes option"
  fs_modified :: "path \<Rightarrow> nat option"

record static_files =
  sf_prefix :: bytes
  sf_base :: path

definition mime_table :: "(string list \<times> string) list" where
  "mime_table =
     [([''html'', ''htm''], ''text/html; charset=utf-8''), ([''css''], ''text/css; charset=utf-8''),
      ([''js'', ''mjs''], ''application/javascript; charset=utf-8''), ([''json''], ''application/json''),
      ([''xml''], ''application/xml''), ([''txt''], ''text/plain; charset=utf-8''), ([''svg''], ''image/svg+xml''),
      ([''png''], ''image/png''), ([''jpg'', ''jpeg''], ''image/jpeg''), ([''gif''], ''image/gif''),
      ([''webp''], ''image/webp''), ([''ico''], ''image/x-icon''), ([''wasm''], ''application/wasm''),
      ([''pdf''], ''application/pdf''), ([''zip''], ''application/zip''), ([''ttf''], ''font/ttf''),
      ([''woff''], ''font/woff''), ([''woff2''], ''font/woff2'')]"

definition mime_for_extension :: "bytes \<Rightarrow> bytes" where
  "mime_for_extension ext =
     (case find (\<lambda>(exts, mime). to_ascii_lowercase ext \<in> set (map ascii exts)) mime_table of
        Some (exts, mime) \<Rightarrow> ascii mime
      | None \<Rightarrow> ascii ''application/octet-stream'')"

text \<open>\<^verbatim>\<open>Path::extension\<close> of the last component: what follows its last dot, unless that dot starts it.\<close>

definition file_extension :: "path \<Rightarrow> bytes option" where
  "file_extension p =
     (if p = [] then None
      else (let name = last p; before = dropWhile (\<lambda>b. b \<noteq> 46) (rev name)
            in if length before \<le> 1 then None else Some (rev (takeWhile (\<lambda>b. b \<noteq> 46) (rev name)))))"

definition trim_end_matches :: "byte \<Rightarrow> bytes \<Rightarrow> bytes" where
  "trim_end_matches c s = rev (dropWhile (\<lambda>b. b = c) (rev s))"

definition forbidden :: "bytes \<Rightarrow> response" where
  "forbidden message =
     response_content_type (response_with_body 403 message) (ascii ''text/plain; charset=utf-8'')"

definition file_response :: "file_system \<Rightarrow> path \<Rightarrow> bytes \<Rightarrow> response" where
  "file_response fs p content =
     (let mime = (case file_extension p of
            Some ext \<Rightarrow> if utf8_valid ext then mime_for_extension ext else ascii ''application/octet-stream''
          | None \<Rightarrow> ascii ''application/octet-stream'');
          resp = response_content_type (response_with_body 200 content) mime;
          resp = response_header resp (ascii ''content-length'') (decimal (length content));
          resp = response_header resp (ascii ''cache-control'') (ascii ''public, max-age=3600'')
      in case fs_modified fs p of
           Some secs \<Rightarrow> response_header resp (ascii ''last-modified'') (decimal secs)
         | None \<Rightarrow> resp)"

definition DIRECTORY_MESSAGE :: bytes where
  "DIRECTORY_MESSAGE = ascii ''403 Forbidden '' @ [0xE2, 0x80, 0x94] @ ascii '' directory listing disabled''"

definition try_serve :: "file_system \<Rightarrow> static_files \<Rightarrow> bytes \<Rightarrow> response option" where
  "try_serve fs sf url_path =
     (case strip_prefix (trim_end_matches 47 (sf_prefix sf)) url_path of
        None \<Rightarrow> None
      | Some rel \<Rightarrow>
          (case fs_canonicalize fs (sf_base sf) (dropWhile (\<lambda>b. b = 47) rel) of
             None \<Rightarrow> Some response_not_found
           | Some canonical \<Rightarrow>
               if take (length (sf_base sf)) canonical \<noteq> sf_base sf then Some (forbidden (ascii ''403 Forbidden''))
               else if fs_is_dir fs canonical then Some (forbidden DIRECTORY_MESSAGE)
               else
                 (case fs_read fs canonical of
                    None \<Rightarrow> Some response_not_found
                  | Some content \<Rightarrow> Some (file_response fs canonical content))))"

definition static_files_handle :: "file_system \<Rightarrow> static_files \<Rightarrow> middleware" where
  "static_files_handle fs sf req k =
     (case try_serve fs sf (req_path req) of Some r \<Rightarrow> (r, False) | None \<Rightarrow> k req)"

section \<open>Trace propagation\<close>

type_synonym trace_id = "u64 \<times> u64"

record traceparent =
  tp_trace_id :: trace_id
  tp_parent_id :: u64
  tp_flags :: byte

text \<open>\<^verbatim>\<open>from_str_radix(s, 16)\<close> at the width of the limit.\<close>

definition hex_number :: "nat \<Rightarrow> bytes \<Rightarrow> nat option" where
  "hex_number limit s = parse_uint 16 limit (map unat s)"

definition trace_id_display :: "trace_id \<Rightarrow> bytes" where
  "trace_id_display t = hex_pad 16 (unat (fst t)) @ hex_pad 16 (unat (snd t))"

definition span_id_display :: "u64 \<Rightarrow> bytes" where
  "span_id_display s = hex_pad 16 (unat s)"

text \<open>
  Cutting the identifier at its 16th byte panics when that is inside a character.
\<close>

definition parse_trace_id :: "bytes \<Rightarrow> (trace_id option, unit) outcome" where
  "parse_trace_id s =
     (if length s \<noteq> 32 then Ok None
      else if utf8_cont (s ! 16) then Panic
      else Ok (case (hex_number (2 ^ 64) (take 16 s), hex_number (2 ^ 64) (drop 16 s)) of
                 (Some hi, Some lo) \<Rightarrow> if hi = 0 \<and> lo = 0 then None else Some (of_nat hi, of_nat lo)
               | _ \<Rightarrow> None))"

definition parse_parent_flags :: "trace_id \<Rightarrow> bytes \<Rightarrow> bytes \<Rightarrow> traceparent option" where
  "parse_parent_flags t parent_str flags_str =
     (if length parent_str \<noteq> 16 then None
      else
        (case hex_number (2 ^ 64) parent_str of
           None \<Rightarrow> None
         | Some parent \<Rightarrow>
             if parent = 0 then None
             else if length flags_str \<noteq> 2 then None
             else map_option (\<lambda>flags. \<lparr>tp_trace_id = t, tp_parent_id = of_nat parent, tp_flags = of_nat flags\<rparr>)
                    (hex_number 256 flags_str)))"

definition parse_traceparent :: "bytes \<Rightarrow> (traceparent option, unit) outcome" where
  "parse_traceparent s =
     (case split_on 45 s of
        [version, trace_str, parent_str, flags_str] \<Rightarrow>
          if version \<noteq> ascii ''00'' then Ok None
          else bind_outcome (parse_trace_id trace_str) (\<lambda>t. case t of
                 None \<Rightarrow> Ok None
               | Some t \<Rightarrow> Ok (parse_parent_flags t parent_str flags_str))
      | _ \<Rightarrow> Ok None)"

definition format_traceparent :: "trace_id \<Rightarrow> u64 \<Rightarrow> byte \<Rightarrow> bytes" where
  "format_traceparent t span flags =
     ascii ''00-'' @ trace_id_display t @ 45 # span_id_display span @ 45 # hex_pad 2 (unat flags)"

record span_context =
  sc_trace_id :: trace_id
  sc_span_stack :: "u64 list"

definition push_span :: "u64 \<Rightarrow> span_context \<Rightarrow> span_context" where
  "push_span s c = c\<lparr>sc_span_stack := sc_span_stack c @ [s]\<rparr>"

definition pop_span :: "span_context \<Rightarrow> u64 option \<times> span_context" where
  "pop_span c =
     (if sc_span_stack c = [] then (None, c)
      else (Some (last (sc_span_stack c)), c\<lparr>sc_span_stack := butlast (sc_span_stack c)\<rparr>))"

definition current_span_id :: "span_context \<Rightarrow> u64 option" where
  "current_span_id c = (if sc_span_stack c = [] then None else Some (last (sc_span_stack c)))"

definition incoming_trace :: "request \<Rightarrow> (traceparent option, unit) outcome" where
  "incoming_trace req =
     (case header_get_str (req_headers req) (ascii ''traceparent'') of
        Some v \<Rightarrow> parse_traceparent v
      | None \<Rightarrow> Ok None)"

text \<open>The span and the trace identifiers that are generated, and the handler run in a context.\<close>

definition tracing_handle :: "u64 \<Rightarrow> trace_id \<Rightarrow> request \<Rightarrow> (span_context \<Rightarrow> request \<Rightarrow> reply) \<Rightarrow>
    (reply, unit) outcome" where
  "tracing_handle server_span fresh req k =
     bind_outcome (incoming_trace req) (\<lambda>incoming.
       let (t, parent, flags) = (case incoming of
             Some tp \<Rightarrow> (tp_trace_id tp, Some (tp_parent_id tp), tp_flags tp)
           | None \<Rightarrow> (fresh, None, 1));
           ctx = \<lparr>sc_trace_id = t, sc_span_stack = []\<rparr>;
           ctx = (case parent of Some p \<Rightarrow> push_span p ctx | None \<Rightarrow> ctx);
           ctx = push_span server_span ctx;
           (resp, upgrade) = k ctx req
       in Ok (response_header resp (ascii ''traceparent'') (format_traceparent t server_span flags), upgrade))"

section \<open>Timeouts\<close>

datatype ('a, 'b) race_result = First 'a | Second 'b

text \<open>
  \<^verbatim>\<open>race\<close> over what the two futures answer at each poll (\<open>None\<close>: pending); \<open>None\<close> when
  neither has finished by the last poll.
\<close>

fun race :: "('a option \<times> 'b option) list \<Rightarrow> ('a, 'b) race_result option" where
  "race [] = None"
| "race ((a, b) # polls) =
     (case a of
        Some v \<Rightarrow> Some (First v)
      | None \<Rightarrow> (case b of Some v \<Rightarrow> Some (Second v) | None \<Rightarrow> race polls))"

definition timeout_handle :: "(reply option \<times> unit option) list \<Rightarrow> reply option" where
  "timeout_handle polls =
     map_option (\<lambda>r. case r of
        First resp \<Rightarrow> resp
      | Second _ \<Rightarrow>
          (response_content_type (response_with_body 408 (ascii ''request timed out''))
             (ascii ''text/plain; charset=utf-8''), False)) (race polls)"

section \<open>Lemmas\<close>

lemma length_hex: "n < 16 ^ w \<Longrightarrow> 0 < w \<Longrightarrow> length (hex n) \<le> w"
proof (induction n arbitrary: w rule: hex.induct)
  case (1 n)
  show ?case
  proof (cases "n < 16")
    case False
    then obtain v where w: "w = Suc v" "0 < v" using "1.prems" by (cases w; cases "w - 1") auto
    then have "n div 16 < 16 ^ v" using "1.prems"(1) by (simp add: less_mult_imp_div_less mult.commute)
    from "1.IH" [OF False this w(2)] show ?thesis using False w by (simp add: hex.simps [of n])
  qed (use "1.prems" in \<open>simp add: hex.simps [of n]\<close>)
qed

lemma length_hex_pad: "n < 16 ^ w \<Longrightarrow> 0 < w \<Longrightarrow> length (hex_pad w n) = w"
  using length_hex [of n w] by (simp add: hex_pad_def)

lemma hex_pad_bytes: "b \<in> set (hex_pad w n) \<Longrightarrow> 48 \<le> unat b \<and> unat b \<le> 57 \<or> 97 \<le> unat b \<and> unat b \<le> 102"
  using hex_bytes [of b n] by (auto simp: hex_pad_def)

lemma hex_number_pad:
  assumes "n < limit"
  shows "hex_number limit (hex_pad w n) = Some n"
proof -
  have zeros: "parse_digits 16 limit (replicate k 48) 0 = Some 0" for k
    using assms by (induction k) (simp_all add: digit_value_def)
  have digits: "parse_digits 16 limit (map unat (hex_pad w n)) 0 = Some n"
    using zeros parse_digits_hex [OF assms] by (simp add: hex_pad_def parse_digits_append)
  obtain b bs where b: "hex_pad w n = b # bs" by (cases "hex_pad w n") (auto simp: hex_pad_def)
  then have "unat b \<noteq> 43" using hex_pad_bytes [of b w n] by auto
  then show ?thesis using digits b by (simp add: hex_number_def parse_uint_def)
qed

lemma hex_number_word [simp]:
  "hex_number 18446744073709551616 (hex_pad w (unat (x :: u64))) = Some (unat x)"
  "hex_number 4294967296 (hex_pad w (unat (y :: u32))) = Some (unat y)"
  "hex_number 256 (hex_pad w (unat (z :: byte))) = Some (unat z)"
proof -
  have "unat x < 2 ^ 64" "unat y < 2 ^ 32" "unat z < 2 ^ 8"
    using unsigned_less [where ?'a = nat, of x] unsigned_less [where ?'a = nat, of y]
      unsigned_less [where ?'a = nat, of z] by simp_all
  then show "hex_number 18446744073709551616 (hex_pad w (unat x)) = Some (unat x)"
    "hex_number 4294967296 (hex_pad w (unat y)) = Some (unat y)"
    "hex_number 256 (hex_pad w (unat z)) = Some (unat z)"
    by (simp_all add: hex_number_pad)
qed

lemma dash_not_in_pad [simp]: "45 \<notin> set (hex_pad w n)"
  using hex_pad_bytes [of 45 w n] by auto

lemma hex_is_pad: "hex n = hex_pad 0 n"
  by (simp add: hex_pad_def)

lemma header_after [simp]:
  "header_get (resp_headers (response_header r name v)) name' =
     (if to_ascii_lowercase name = to_ascii_lowercase name' then Some v else header_get (resp_headers r) name')"
  by (simp add: response_header_def headers.get_put)

section \<open>Properties\<close>

text \<open>
  Two generated request identifiers are equal only when they come from the same
  millisecond and the same value of the counter: within one period of the 32-bit counter all of
  them differ.
\<close>

theorem request_ids_distinct:
  "generate_id ts seq = generate_id ts' seq' \<longleftrightarrow> ts = ts' \<and> seq = seq'"
proof
  assume eq: "generate_id ts seq = generate_id ts' seq'"
  have split: "split_two 45 (generate_id ts seq) = (hex_pad 0 (unat ts), Some (hex_pad 4 (unat seq)))" for ts seq
    unfolding generate_id_def hex_is_pad by (rule split_two_at) simp
  from eq have "split_two 45 (generate_id ts seq) = split_two 45 (generate_id ts' seq')" by (rule arg_cong)
  then have "hex_pad 0 (unat ts) = hex_pad 0 (unat ts')" "hex_pad 4 (unat seq) = hex_pad 4 (unat seq')"
    unfolding split by simp_all
  then have "unat ts = unat ts'" "unat seq = unat seq'" by (metis hex_number_word option.inject)+
  then show "ts = ts' \<and> seq = seq'" by (simp add: word_unat_eq_iff)
qed simp

text \<open>
  The handler sees exactly the identifier the client gets back, and it is the client's own one
  when it sent one that is not blank.
\<close>

theorem request_id_echoed:
  "header_get (resp_headers (fst (request_id_handle ts seq req k))) (ascii ''X-Request-Id'') =
     Some (request_id_of ts seq req) \<and>
   request_id_handle ts seq req k =
     (response_header (fst (k (request_id_of ts seq req) req)) (ascii ''x-request-id'') (request_id_of ts seq req),
      snd (k (request_id_of ts seq req) req)) \<and>
   (\<forall>s. header_get_str (req_headers req) (ascii ''x-request-id'') = Some s \<and> str_trim s \<noteq> [] \<longrightarrow>
      request_id_of ts seq req = s)"
proof -
  have "to_ascii_lowercase (ascii ''x-request-id'') = to_ascii_lowercase (ascii ''X-Request-Id'')" by code_simp
  then show ?thesis
    by (simp add: request_id_handle_def request_id_of_def Let_def split: prod.splits)
qed

lemma file_response_status [simp]: "resp_status (file_response fs p content) = 200"
  "resp_body (file_response fs p content) = body_from_bytes content"
  by (simp_all add: file_response_def response_header_def response_content_type_def response_with_body_def
      Let_def split: option.splits)

lemma refusal_status [simp]:
  "resp_status response_not_found = 404" "resp_status (forbidden m) = 403"
  by (simp_all add: response_not_found_def forbidden_def response_header_def response_content_type_def
      response_with_body_def)


definition demo_fs :: file_system where
  "demo_fs = \<lparr>fs_canonicalize = (\<lambda>base rel. if rel = ascii ''../../etc/passwd'' then Some [ascii ''etc'', ascii ''passwd'']
       else Some (base @ [rel])), fs_is_dir = (\<lambda>p. False), fs_read = (\<lambda>p. Some (concat p)), fs_modified = (\<lambda>p. None)\<rparr>"

definition demo_static :: static_files where
  "demo_static = \<lparr>sf_prefix = ascii ''/assets'', sf_base = [ascii ''srv'', ascii ''public'']\<rparr>"


text \<open>
  A trace context crosses a service: the identifiers written into a \<^verbatim>\<open>traceparent\<close> header are
  those a receiver reads, unless they are the all-zero ones the format excludes.
\<close>

lemma traceparent_parsed:
  assumes "t \<noteq> (0, 0)" and "span \<noteq> 0"
  shows "parse_traceparent (format_traceparent t span flags) =
    Ok (Some \<lparr>tp_trace_id = t, tp_parent_id = span, tp_flags = flags\<rparr>)"
proof -
  obtain hi lo where t: "t = (hi, lo)" by (cases t)
  have lt: "unat (x :: u64) < 16 ^ 16" for x using unsigned_less [of x] by simp
  have lf: "unat flags < 16 ^ 2" using unsigned_less [of flags] by simp
  have pieces: "split_on 45 (format_traceparent t span flags) =
      [ascii ''00'', trace_id_display t, span_id_display span, hex_pad 2 (unat flags)]"
    using split_on_first [of 45 "ascii ''00''"] split_on_first [of 45 "trace_id_display t"]
      split_on_first [of 45 "span_id_display span"]
    by (simp add: format_traceparent_def trace_id_display_def span_id_display_def split_on_last ascii_def)
  let ?hi = "hex_pad 16 (unat hi)" and ?lo = "hex_pad 16 (unat lo)"
  have len: "length ?hi = 16" "length ?lo = 16" using length_hex_pad [OF lt] by simp_all
  have "?lo ! 0 \<in> set ?lo" using len by (intro nth_mem) simp
  then have "\<not> utf8_cont ((?hi @ ?lo) ! 16)"
    using hex_pad_bytes [of "?lo ! 0" 16 "unat lo"] len by (auto simp: utf8_cont_def nth_append)
  moreover have "\<not> (unat hi = 0 \<and> unat lo = 0)" using assms(1) by (simp add: t unat_eq_zero)
  ultimately have "parse_trace_id (trace_id_display t) = Ok (Some t)"
    using len by (auto simp: parse_trace_id_def trace_id_display_def t)
  moreover have "parse_parent_flags t (span_id_display span) (hex_pad 2 (unat flags)) =
      Some \<lparr>tp_trace_id = t, tp_parent_id = span, tp_flags = flags\<rparr>"
    using assms(2) length_hex_pad [OF lt [of span]] length_hex_pad [OF lf]
    by (simp add: parse_parent_flags_def span_id_display_def unat_eq_zero)
  ultimately show ?thesis by (simp add: parse_traceparent_def pieces)
qed

text \<open>
  A service continues the trace of its caller: a request with the header a caller formats runs
  its handler in the caller's trace, below the caller's span, and the response names the same
  trace with the server's own span.
\<close>

theorem trace_continues:
  assumes "t \<noteq> (0, 0)" and "parent \<noteq> 0" and "server \<noteq> 0"
    and "header_get_str (req_headers req) (ascii ''traceparent'') = Some (format_traceparent t parent flags)"
  shows "\<exists>resp up. tracing_handle server fresh req k = Ok (resp, up) \<and>
    (\<exists>inner. k \<lparr>sc_trace_id = t, sc_span_stack = [parent, server]\<rparr> req = (inner, up) \<and>
       resp_body resp = resp_body inner \<and> resp_status resp = resp_status inner) \<and>
    (\<exists>v. header_get (resp_headers resp) (ascii ''traceparent'') = Some v \<and>
       parse_traceparent v = Ok (Some \<lparr>tp_trace_id = t, tp_parent_id = server, tp_flags = flags\<rparr>))"
proof -
  have incoming: "incoming_trace req = Ok (Some \<lparr>tp_trace_id = t, tp_parent_id = parent, tp_flags = flags\<rparr>)"
    using traceparent_parsed [OF assms(1,2)] by (simp add: incoming_trace_def assms(4))
  obtain inner up where k: "k \<lparr>sc_trace_id = t, sc_span_stack = [parent, server]\<rparr> req = (inner, up)" by force
  then have "tracing_handle server fresh req k =
      Ok (response_header inner (ascii ''traceparent'') (format_traceparent t server flags), up)"
    by (simp add: tracing_handle_def incoming push_span_def)
  with k show ?thesis
    using traceparent_parsed [OF assms(1,3)] by (simp add: response_header_def headers.get_put)
qed

theorem trace_continues_witness:
  "\<exists>resp up. tracing_handle 9 (7, 7)
     ((request_new GET (ascii ''/''))\<lparr>req_headers := [(ascii ''traceparent'', format_traceparent (1, 2) 3 1)]\<rparr>)
     (\<lambda>ctx r. (response_with_body 200 (decimal (length (sc_span_stack ctx))), False)) = Ok (resp, up) \<and>
   (\<exists>v. header_get (resp_headers resp) (ascii ''traceparent'') = Some v \<and>
      parse_traceparent v = Ok (Some \<lparr>tp_trace_id = (1, 2), tp_parent_id = 9, tp_flags = 1\<rparr>))"
proof -
  have "list_all (\<lambda>b. unat b < 128) (format_traceparent (1, 2) 3 1)" by code_simp
  then have valid: "utf8_valid (format_traceparent (1, 2) 3 1)" by (rule utf8_valid_ascii)
  have "header_get_str (req_headers ((request_new GET (ascii ''/''))\<lparr>req_headers :=
      [(ascii ''traceparent'', format_traceparent (1, 2) 3 1)]\<rparr>)) (ascii ''traceparent'') =
      Some (format_traceparent (1, 2) 3 1)"
    using valid by (simp add: header_get_str_def header_get_def to_ascii_lowercase_def ascii_def)
  from trace_continues [OF _ _ _ this, of 9 "(7, 7)"] show ?thesis by fastforce
qed

definition straddling :: bytes where
  "straddling = ascii ''00-aaaaaaaaaaaaaaa'' @ [0xC3, 0xA9] @ ascii ''aaaaaaaaaaaaaaa-aaaaaaaaaaaaaaaa-01''"


text \<open>
  Every response that passes the cross-origin middleware carries the configured origins,
  methods and headers, and a preflight request is answered without running the handler.
\<close>

theorem cors_on_every_response:
  "header_get (resp_headers (fst (cors_handle c req k))) (ascii ''access-control-allow-origin'') =
     Some (join_with (ascii '', '') (allow_origins c)) \<and>
   header_get (resp_headers (fst (cors_handle c req k))) (ascii ''access-control-allow-methods'') =
     Some (join_with (ascii '', '') (allow_methods c)) \<and>
   header_get (resp_headers (fst (cors_handle c req k))) (ascii ''access-control-allow-headers'') =
     Some (join_with (ascii '', '') (allow_headers c)) \<and>
   (req_method req = OPTIONS \<longrightarrow> cors_handle c req k = cors_handle c req k')"
proof -
  have distinct: "distinct (map to_ascii_lowercase [ascii ''access-control-allow-origin'',
      ascii ''access-control-allow-methods'', ascii ''access-control-allow-headers'', ascii ''access-control-max-age''])"
    by code_simp
  moreover have "distinct (map to_ascii_lowercase (rev [ascii ''access-control-allow-origin'',
      ascii ''access-control-allow-methods'', ascii ''access-control-allow-headers'', ascii ''access-control-max-age'']))"
    by code_simp
  ultimately show ?thesis
    by (simp add: cors_handle_def cors_apply_headers_def split: prod.splits)
qed

lemma race_first:
  "race polls = Some (First v) \<longleftrightarrow>
     (\<exists>i < length polls. fst (polls ! i) = Some v \<and> (\<forall>j < i. polls ! j = (None, None)))"
proof (induction polls rule: race.induct)
  case (2 a b polls)
  show ?case
  proof (cases "a = None \<and> b = None")
    case True
    then show ?thesis using 2 by (simp add: Ex_less_Suc2 All_less_Suc2)
  next
    case False
    then show ?thesis by (auto simp: Ex_less_Suc2 All_less_Suc2 split: option.splits)
  qed
qed simp

end
