(* ===== verification/Tracing.thy ===== *)
theory Tracing
  imports Observe
begin

text \<open>
  The logging pipeline of \<^verbatim>\<open>moduvex-observe\<close> (\<^verbatim>\<open>log/subscriber.rs\<close>, the text formatter of
  \<^verbatim>\<open>log/format.rs\<close>, \<^verbatim>\<open>init_logging\<close> and the \<^verbatim>\<open>log_event!\<close> macro of \<^verbatim>\<open>lib.rs\<close>), its spans
  (\<^verbatim>\<open>trace/span.rs\<close>), and the task-local storage that carries a context across awaits
  (\<^verbatim>\<open>moduvex-runtime/src/executor/task_local.rs\<close>). The standard error stream is the list of
  lines written to it; the two environment variables are arguments.
\<close>

section \<open>Logging\<close>

datatype log_format = Pretty | Json

record log_subscriber =
  ls_min_level :: log_level
  ls_format :: log_format

record logger =
  lg_min_level :: byte
  lg_subscriber :: "log_subscriber option"
  lg_stderr :: "bytes list"

definition logger_initial :: logger where
  "logger_initial = \<lparr>lg_min_level = 0, lg_subscriber = None, lg_stderr = []\<rparr>"

primrec level_u8 :: "log_level \<Rightarrow> byte" where
  "level_u8 Trace = 0"
| "level_u8 Debug = 1"
| "level_u8 Info = 2"
| "level_u8 Warn = 3"
| "level_u8 Error_level = 4"

definition set_min_level :: "log_level \<Rightarrow> logger \<Rightarrow> logger" where
  "set_min_level level lg = lg\<lparr>lg_min_level := level_u8 level\<rparr>"

definition min_level :: "logger \<Rightarrow> log_level" where
  "min_level lg =
     (let raw = lg_min_level lg in
      if raw = 0 then Trace else if raw = 1 then Debug else if raw = 2 then Info else if raw = 3 then Warn
      else Error_level)"

definition set_global_subscriber :: "log_subscriber \<Rightarrow> logger \<Rightarrow> (unit, unit) outcome \<times> logger" where
  "set_global_subscriber sub lg =
     (case lg_subscriber lg of
        None \<Rightarrow> (Ok (), lg\<lparr>lg_subscriber := Some sub\<rparr>)
      | Some _ \<Rightarrow> (Err (), lg))"

definition value_display :: "log_value \<Rightarrow> (log_value \<Rightarrow> bytes) \<Rightarrow> bytes" where
  "value_display v float_text =
     (case v of VString s \<Rightarrow> s | VI64 n \<Rightarrow> signed_decimal n | VU64 n \<Rightarrow> decimal (unat n) | VF64 _ \<Rightarrow> float_text v
      | VBool b \<Rightarrow> if b then ascii ''true'' else ascii ''false'')"

text \<open>The text of a float, a library routine, is a parameter of the text formatter.\<close>

definition pretty_format :: "(log_value \<Rightarrow> bytes) \<Rightarrow> log_event \<Rightarrow> bytes" where
  "pretty_format float_text e =
     level_as_str (ev_level e) @ 32 # ev_message e
     @ concat (map (\<lambda>(k, v). 32 # k @ 61 # value_display v float_text) (ev_fields e)) @ [10]"

definition on_event :: "(log_value \<Rightarrow> bytes) \<Rightarrow> log_subscriber \<Rightarrow> log_event \<Rightarrow> logger \<Rightarrow> logger" where
  "on_event float_text sub e lg =
     (if level_u8 (ev_level e) < level_u8 (ls_min_level sub) then lg
      else lg\<lparr>lg_stderr := lg_stderr lg @ [case ls_format sub of Pretty \<Rightarrow> pretty_format float_text e | Json \<Rightarrow> json_format e]\<rparr>)"

definition log_dispatch :: "(log_value \<Rightarrow> bytes) \<Rightarrow> log_event \<Rightarrow> logger \<Rightarrow> logger" where
  "log_dispatch float_text e lg =
     (case lg_subscriber lg of Some sub \<Rightarrow> on_event float_text sub e lg | None \<Rightarrow> lg)"

text \<open>The macro builds the event only when its level passes the global filter.\<close>

definition log_event_macro :: "(log_value \<Rightarrow> bytes) \<Rightarrow> log_event \<Rightarrow> logger \<Rightarrow> logger" where
  "log_event_macro float_text e lg =
     (if level_u8 (min_level lg) \<le> level_u8 (ev_level e) then log_dispatch float_text e lg else lg)"

definition subscriber_from_env :: "bytes option \<Rightarrow> bytes option \<Rightarrow> log_subscriber" where
  "subscriber_from_env env_level env_format =
     \<lparr>ls_min_level = (case env_level of Some s \<Rightarrow> (case parse_level s of Some l \<Rightarrow> l | None \<Rightarrow> Info) | None \<Rightarrow> Info),
      ls_format = (if to_ascii_lowercase (case env_format of Some f \<Rightarrow> f | None \<Rightarrow> []) = ascii ''json'' then Json else Pretty)\<rparr>"

definition init_logging :: "bytes option \<Rightarrow> bytes option \<Rightarrow> logger \<Rightarrow> logger" where
  "init_logging env_level env_format lg =
     (let sub = subscriber_from_env env_level env_format
      in snd (set_global_subscriber sub (set_min_level (ls_min_level sub) lg)))"

section \<open>Spans\<close>

record span =
  sp_name :: bytes
  sp_trace_id :: "u64 \<times> u64"
  sp_span_id :: u64
  sp_parent :: "u64 option"
  sp_start_us :: u64
  sp_end_us :: "u64 option"
  sp_fields :: "(bytes \<times> log_value) list"

definition span_new :: "bytes \<Rightarrow> u64 \<times> u64 \<Rightarrow> u64 \<Rightarrow> u64 \<Rightarrow> span" where
  "span_new name t i now =
     \<lparr>sp_name = name, sp_trace_id = t, sp_span_id = i, sp_parent = None, sp_start_us = now, sp_end_us = None, sp_fields = []\<rparr>"

definition span_child :: "bytes \<Rightarrow> span \<Rightarrow> u64 \<Rightarrow> u64 \<Rightarrow> span" where
  "span_child name parent i now =
     \<lparr>sp_name = name, sp_trace_id = sp_trace_id parent, sp_span_id = i, sp_parent = Some (sp_span_id parent), sp_start_us = now,
      sp_end_us = None, sp_fields = []\<rparr>"

definition span_with_field :: "bytes \<Rightarrow> log_value \<Rightarrow> span \<Rightarrow> span" where
  "span_with_field key v s = s\<lparr>sp_fields := sp_fields s @ [(key, v)]\<rparr>"

definition span_close :: "u64 \<Rightarrow> span \<Rightarrow> span" where
  "span_close now s = (if sp_end_us s = None then s\<lparr>sp_end_us := Some now\<rparr> else s)"

definition span_duration_us :: "span \<Rightarrow> u64 option" where
  "span_duration_us s = map_option (\<lambda>e. if sp_start_us s \<le> e then e - sp_start_us s else 0) (sp_end_us s)"

section \<open>Task-local values\<close>

text \<open>
  The thread's storage maps the addresses of keys to values; a future is what it does to the
  storage when polled. A scope holds its value between polls; \<open>Panic\<close> when it is polled after
  it has given its value up.
\<close>

type_synonym 'v storage = "nat \<rightharpoonup> 'v"
type_synonym ('v, 'r) local_future = "'v storage \<Rightarrow> 'r option \<times> 'v storage"

definition try_with :: "nat \<Rightarrow> 'v storage \<Rightarrow> 'v option" where
  "try_with key st = st key"

definition scope_poll :: "nat \<Rightarrow> 'v option \<Rightarrow> ('v, 'r) local_future \<Rightarrow> 'v storage \<Rightarrow>
    ('r option \<times> 'v option \<times> 'v storage, unit) outcome" where
  "scope_poll key held f st =
     (case held of
        None \<Rightarrow> Panic
      | Some val \<Rightarrow>
          (let prev = st key;
               (result, st1) = f (st(key \<mapsto> val));
               current = st1 key;
               st2 = st1(key := None);
               st3 = (case prev of Some p \<Rightarrow> st2(key \<mapsto> p) | None \<Rightarrow> st2)
           in Ok (result, case result of Some _ \<Rightarrow> None | None \<Rightarrow> current, st3)))"

text \<open>
  A task running in a scope: its key, its value, and what its future does; tasks are polled in
  the order a scheduler chooses, each at most until it completes. The run collects what every
  poll returned.
\<close>

record ('v, 'r) scoped_task =
  stk_key :: nat
  stk_value :: "'v option"
  stk_future :: "('v, 'r) local_future"
  stk_done :: bool

definition poll_scoped :: "nat \<Rightarrow> ('v, 'r) scoped_task list \<times> 'v storage \<Rightarrow>
    ('r option \<times> ('v, 'r) scoped_task list \<times> 'v storage, unit) outcome" where
  "poll_scoped i s =
     (let (ts, st) = s; t = ts ! i in
      bind_outcome (scope_poll (stk_key t) (stk_value t) (stk_future t) st) (\<lambda>(result, held, st').
        Ok (result, ts[i := t\<lparr>stk_value := held, stk_done := result \<noteq> None\<rparr>], st')))"

fun run_tasks :: "nat list \<Rightarrow> ('v, 'r) scoped_task list \<times> 'v storage \<Rightarrow> (nat \<times> 'r option) list \<Rightarrow>
    ((nat \<times> 'r option) list \<times> ('v, 'r) scoped_task list \<times> 'v storage, unit) outcome" where
  "run_tasks [] s log = Ok (log, s)"
| "run_tasks (i # is) s log =
     (if length (fst s) \<le> i \<or> stk_done (fst s ! i) then run_tasks is s log
      else bind_outcome (poll_scoped i s) (\<lambda>(result, s'). run_tasks is s' (log @ [(i, result)])))"

section \<open>Lemmas\<close>

lemma level_u8_inject [simp]: "level_u8 a = level_u8 b \<longleftrightarrow> a = b"
  by (cases a; cases b) simp_all

lemma min_level_set [simp]: "min_level (set_min_level l lg) = l"
  by (cases l) (simp_all add: min_level_def set_min_level_def)

text \<open>A future that only reads the storage, and then leaves it as it found it.\<close>

definition reads_only :: "('v, 'r) local_future \<Rightarrow> bool" where
  "reads_only f \<longleftrightarrow> (\<forall>st. snd (f st) = st)"

lemma scope_reads_only:
  assumes "reads_only f"
  shows "scope_poll key (Some val) f st =
    Ok (fst (f (st(key \<mapsto> val))), if fst (f (st(key \<mapsto> val))) = None then Some val else None, st)"
proof -
  obtain res where f: "f (st(key \<mapsto> val)) = (res, st(key \<mapsto> val))"
    using assms by (metis reads_only_def prod.collapse)
  have "(case st key of Some p \<Rightarrow> st(key \<mapsto> val, key := None, key \<mapsto> p) | None \<Rightarrow> st(key \<mapsto> val, key := None)) = st"
    by (cases "st key") (auto simp: fun_eq_iff)
  then show ?thesis by (cases res) (simp_all add: scope_poll_def f Let_def)
qed

text \<open>What a poll of a task returns when the storage holds the task's own value.\<close>

definition own_poll :: "'v storage \<Rightarrow> ('v, 'r) scoped_task \<Rightarrow> 'r option" where
  "own_poll st t = fst (stk_future t (st(stk_key t \<mapsto> the (stk_value t))))"

section \<open>Properties\<close>

text \<open>
  A line is written exactly for the events whose level reaches both the global minimum and the
  subscriber's, in the order they are emitted.
\<close>

theorem log_lines_exact:
  "lg_stderr (fold (log_event_macro ft) es lg) = lg_stderr lg @
     (case lg_subscriber lg of
        None \<Rightarrow> []
      | Some sub \<Rightarrow>
          map (\<lambda>e. case ls_format sub of Pretty \<Rightarrow> pretty_format ft e | Json \<Rightarrow> json_format e)
            (filter (\<lambda>e. level_u8 (min_level lg) \<le> level_u8 (ev_level e) \<and>
                         level_u8 (ls_min_level sub) \<le> level_u8 (ev_level e)) es))"
proof -
  have frame: "lg_subscriber (log_event_macro ft e l) = lg_subscriber l"
      "lg_min_level (log_event_macro ft e l) = lg_min_level l" for e l
    by (simp_all add: log_event_macro_def log_dispatch_def on_event_def split: option.splits)
  have level: "min_level (log_event_macro ft e l) = min_level l" for e l
    by (simp add: min_level_def frame)
  have stderr: "min_level (l\<lparr>lg_stderr := x\<rparr>) = min_level l" for l x by (simp add: min_level_def)
  show ?thesis
    by (induction es arbitrary: lg)
      (auto simp: stderr frame level log_event_macro_def log_dispatch_def on_event_def not_less split: option.splits)
qed

text \<open>
  Installing the default logger again keeps the first subscriber but does change the global
  minimum level: a second call with a higher level silences the first subscriber.
\<close>

theorem second_init_changes_level:
  "let lg = init_logging (Some (ascii ''debug'')) None logger_initial;
       lg' = init_logging (Some (ascii ''error'')) None lg;
       e = \<lparr>ev_level = Info, ev_message = ascii ''m'', ev_timestamp_us = 0, ev_fields = []\<rparr>
   in lg_subscriber lg' = lg_subscriber lg \<and>
      lg_stderr (log_event_macro ft e lg) \<noteq> [] \<and> lg_stderr (log_event_macro ft e lg') = []"
proof -
  have levels: "parse_level (ascii ''debug'') = Some Debug" "parse_level (ascii ''error'') = Some Error_level"
    by code_simp+
  have fmt: "to_ascii_lowercase [] \<noteq> ascii ''json''" by code_simp
  show ?thesis
    by (simp add: Let_def init_logging_def subscriber_from_env_def levels fmt set_global_subscriber_def
        logger_initial_def log_event_macro_def log_dispatch_def on_event_def set_min_level_def min_level_def)
qed



end
