(* ===== verification/Reactor.thy ===== *)
theory Reactor
  imports Executor
begin

unbundle bit_operations_syntax

text \<open>
  The I/O side of the runtime (\<^verbatim>\<open>moduvex-runtime/src/reactor\<close> with its Linux backend, and
  \<^verbatim>\<open>platform/sys.rs\<close>): interest flags and events, the registry of wakers, the reactor, the
  registered sources and their readiness futures.

  The kernel's side of epoll is a parameter: a state of any type \<open>'k\<close> and the four calls on
  it. What the code relies on is \<open>epoll_ok\<close>, the documented behaviour of a one-shot
  registration over two observers of the kernel's state: the registrations still armed and the
  readiness of each descriptor.
\<close>

section \<open>Flags, events and errors\<close>

datatype io_error =
  Interrupted | WouldBlock | ConnectionReset | ConnectionAborted | NotConnected | InvalidData | OtherIo
| OsError nat

type_synonym fd = int
type_synonym interest = byte

definition READABLE :: interest where "READABLE = 1"
definition WRITABLE :: interest where "WRITABLE = 2"

definition is_readable :: "interest \<Rightarrow> bool" where
  "is_readable i \<longleftrightarrow> i AND READABLE \<noteq> 0"

definition is_writable :: "interest \<Rightarrow> bool" where
  "is_writable i \<longleftrightarrow> i AND WRITABLE \<noteq> 0"

record io_event =
  ev_token :: u64
  ev_readable :: bool
  ev_writable :: bool

definition EPOLLIN :: u32 where "EPOLLIN = 1"
definition EPOLLOUT :: u32 where "EPOLLOUT = 4"
definition EPOLLERR :: u32 where "EPOLLERR = 8"
definition EPOLLHUP :: u32 where "EPOLLHUP = 16"
definition EPOLLONESHOT :: u32 where "EPOLLONESHOT = 0x40000000"
definition EPOLLET :: u32 where "EPOLLET = 0x80000000"

lemmas io_flag_defs = READABLE_def WRITABLE_def is_readable_def is_writable_def EPOLLIN_def
  EPOLLOUT_def EPOLLERR_def EPOLLHUP_def EPOLLONESHOT_def EPOLLET_def

record epoll_event =
  ep_events :: u32
  ep_u64 :: u64

section \<open>The epoll backend\<close>

record 'k epoll_api =
  epoll_add :: "'k \<Rightarrow> fd \<Rightarrow> epoll_event \<Rightarrow> ('k, io_error) outcome"
  epoll_mod :: "'k \<Rightarrow> fd \<Rightarrow> epoll_event \<Rightarrow> ('k, io_error) outcome"
  epoll_del :: "'k \<Rightarrow> fd \<Rightarrow> ('k, io_error) outcome"
  epoll_wait :: "'k \<Rightarrow> int \<Rightarrow> int \<Rightarrow> (epoll_event list, io_error) outcome \<times> 'k"

definition MAX_EVENTS :: nat where "MAX_EVENTS = 1024"

definition build_event :: "u64 \<Rightarrow> interest \<Rightarrow> epoll_event" where
  "build_event token interest =
     (let events = EPOLLET OR EPOLLONESHOT;
          events = (if is_readable interest then events OR EPOLLIN else events);
          events = (if is_writable interest then events OR EPOLLOUT else events)
      in \<lparr>ep_events = events, ep_u64 = token\<rparr>)"

text \<open>A failed control call leaves the kernel's state alone.\<close>

definition ctl :: "('k, io_error) outcome \<Rightarrow> 'k \<Rightarrow> (unit, io_error) outcome \<times> 'k" where
  "ctl res k = (case res of Ok k' \<Rightarrow> (Ok (), k') | Err e \<Rightarrow> (Err e, k) | Panic \<Rightarrow> (Panic, k))"

definition epoll_register :: "'k epoll_api \<Rightarrow> fd \<Rightarrow> u64 \<Rightarrow> interest \<Rightarrow> 'k \<Rightarrow> (unit, io_error) outcome \<times> 'k" where
  "epoll_register api source token interest k = ctl (epoll_add api k source (build_event token interest)) k"

definition epoll_reregister :: "'k epoll_api \<Rightarrow> fd \<Rightarrow> u64 \<Rightarrow> interest \<Rightarrow> 'k \<Rightarrow> (unit, io_error) outcome \<times> 'k" where
  "epoll_reregister api source token interest k = ctl (epoll_mod api k source (build_event token interest)) k"

definition epoll_deregister :: "'k epoll_api \<Rightarrow> fd \<Rightarrow> 'k \<Rightarrow> (unit, io_error) outcome \<times> 'k" where
  "epoll_deregister api source k = ctl (epoll_del api k source) k"

definition timeout_arg :: "nat option \<Rightarrow> int" where
  "timeout_arg timeout_ms = (case timeout_ms of Some ms \<Rightarrow> int (min ms (2 ^ 31 - 1)) | None \<Rightarrow> -1)"

definition event_of :: "epoll_event \<Rightarrow> io_event" where
  "event_of ev = \<lparr>ev_token = ep_u64 ev, ev_readable = ep_events ev AND EPOLLIN \<noteq> 0,
                  ev_writable = ep_events ev AND EPOLLOUT \<noteq> 0\<rparr>"

text \<open>The length of the scratch buffer, cast to the width of the call's argument.\<close>

definition max_events_arg :: "nat \<Rightarrow> int" where
  "max_events_arg capacity = sint (word_of_nat (max MAX_EVENTS capacity) :: 32 word)"

text \<open>
  The events already in the caller's buffer are replaced only when the wait succeeds; an
  interrupted wait reports no event and leaves them.
\<close>

definition epoll_poll :: "'k epoll_api \<Rightarrow> io_event list \<Rightarrow> nat \<Rightarrow> nat option \<Rightarrow> 'k \<Rightarrow>
    (nat, io_error) outcome \<times> io_event list \<times> 'k" where
  "epoll_poll api events capacity timeout_ms k =
     (let (n, k') = epoll_wait api k (max_events_arg capacity) (timeout_arg timeout_ms)
      in case n of
           Ok raw \<Rightarrow> (Ok (length raw), map event_of raw, k')
         | Err Interrupted \<Rightarrow> (Ok 0, events, k')
         | Err e \<Rightarrow> (Err e, events, k')
         | Panic \<Rightarrow> (Panic, events, k'))"

section \<open>The waker registry\<close>

record waker_registry =
  read_wakers :: "u64 \<rightharpoonup> waker"
  write_wakers :: "u64 \<rightharpoonup> waker"

definition registry_new :: waker_registry where
  "registry_new = \<lparr>read_wakers = Map.empty, write_wakers = Map.empty\<rparr>"

definition set_read_waker :: "u64 \<Rightarrow> waker \<Rightarrow> waker_registry \<Rightarrow> waker_registry" where
  "set_read_waker token w g = g\<lparr>read_wakers := (read_wakers g)(token \<mapsto> w)\<rparr>"

definition set_write_waker :: "u64 \<Rightarrow> waker \<Rightarrow> waker_registry \<Rightarrow> waker_registry" where
  "set_write_waker token w g = g\<lparr>write_wakers := (write_wakers g)(token \<mapsto> w)\<rparr>"

definition take_read_waker :: "u64 \<Rightarrow> waker_registry \<Rightarrow> waker option \<times> waker_registry" where
  "take_read_waker token g = (read_wakers g token, g\<lparr>read_wakers := (read_wakers g)(token := None)\<rparr>)"

definition take_write_waker :: "u64 \<Rightarrow> waker_registry \<Rightarrow> waker option \<times> waker_registry" where
  "take_write_waker token g = (write_wakers g token, g\<lparr>write_wakers := (write_wakers g)(token := None)\<rparr>)"

definition remove_token :: "u64 \<Rightarrow> waker_registry \<Rightarrow> waker_registry" where
  "remove_token token g =
     g\<lparr>read_wakers := (read_wakers g)(token := None), write_wakers := (write_wakers g)(token := None)\<rparr>"

text \<open>The wakers fired, in order, and the registry without them.\<close>

definition wake_token :: "u64 \<Rightarrow> bool \<Rightarrow> bool \<Rightarrow> waker_registry \<Rightarrow> waker list \<times> waker_registry" where
  "wake_token token readable writable g =
     (let (a, g1) = (if readable
            then (let (w, g') = take_read_waker token g in (case w of Some v \<Rightarrow> [v] | None \<Rightarrow> [], g'))
            else ([], g));
          (b, g2) = (if writable
            then (let (w, g') = take_write_waker token g1 in (case w of Some v \<Rightarrow> [v] | None \<Rightarrow> [], g'))
            else ([], g1))
      in (a @ b, g2))"

section \<open>The reactor\<close>

record 'k reactor =
  inner :: 'k
  wakers :: waker_registry

definition on_inner :: "('k \<Rightarrow> 'b \<times> 'k) \<Rightarrow> 'k reactor \<Rightarrow> 'b \<times> 'k reactor" where
  "on_inner f r = (let (x, k) = f (inner r) in (x, r\<lparr>inner := k\<rparr>))"

definition reactor_register :: "'k epoll_api \<Rightarrow> fd \<Rightarrow> u64 \<Rightarrow> interest \<Rightarrow> 'k reactor \<Rightarrow>
    (unit, io_error) outcome \<times> 'k reactor" where
  "reactor_register api source token interest = on_inner (epoll_register api source token interest)"

definition reactor_reregister :: "'k epoll_api \<Rightarrow> fd \<Rightarrow> u64 \<Rightarrow> interest \<Rightarrow> 'k reactor \<Rightarrow>
    (unit, io_error) outcome \<times> 'k reactor" where
  "reactor_reregister api source token interest = on_inner (epoll_reregister api source token interest)"

definition reactor_deregister :: "'k epoll_api \<Rightarrow> fd \<Rightarrow> 'k reactor \<Rightarrow> (unit, io_error) outcome \<times> 'k reactor" where
  "reactor_deregister api source = on_inner (epoll_deregister api source)"

definition deregister_with_token :: "'k epoll_api \<Rightarrow> fd \<Rightarrow> u64 \<Rightarrow> 'k reactor \<Rightarrow>
    (unit, io_error) outcome \<times> 'k reactor" where
  "deregister_with_token api source token r =
     reactor_deregister api source (r\<lparr>wakers := remove_token token (wakers r)\<rparr>)"

fun wake_events :: "io_event list \<Rightarrow> waker_registry \<Rightarrow> waker list \<times> waker_registry" where
  "wake_events [] g = ([], g)"
| "wake_events (ev # evs) g =
     (let (ws, g1) = wake_token (ev_token ev) (ev_readable ev) (ev_writable ev) g;
          (ws', g2) = wake_events evs g1
      in (ws @ ws', g2))"

text \<open>The result, the caller's events, the wakers fired and the reactor.\<close>

definition reactor_poll :: "'k epoll_api \<Rightarrow> io_event list \<Rightarrow> nat \<Rightarrow> nat option \<Rightarrow> 'k reactor \<Rightarrow>
    (nat, io_error) outcome \<times> io_event list \<times> waker list \<times> 'k reactor" where
  "reactor_poll api events capacity timeout_ms r =
     (let (n, events', k) = epoll_poll api events capacity timeout_ms (inner r);
          r' = r\<lparr>inner := k\<rparr>
      in case n of
           Ok m \<Rightarrow>
             (let (ws, g) = wake_events events' (wakers r') in (Ok m, events', ws, r'\<lparr>wakers := g\<rparr>))
         | e \<Rightarrow> (e, events', [], r'))"

section \<open>Sources and their readiness\<close>

record io_source =
  src_raw :: fd
  src_token :: u64
  src_registered :: bool

definition WAKE_TOKEN :: u64 where "WAKE_TOKEN = -1"

text \<open>The relaxed fetch-and-add wraps; the assertion on the token is compiled in debug builds only.\<close>

definition next_token :: "u64 \<Rightarrow> u64 \<times> u64" where
  "next_token counter = (counter, counter + 1)"

definition source_new :: "'k epoll_api \<Rightarrow> fd \<Rightarrow> u64 \<Rightarrow> interest \<Rightarrow> 'k reactor \<Rightarrow>
    (io_source, io_error) outcome \<times> 'k reactor" where
  "source_new api raw token interest r =
     (let (res, r') = reactor_register api raw token interest r
      in (bind_outcome res (\<lambda>_. Ok \<lparr>src_raw = raw, src_token = token, src_registered = True\<rparr>), r'))"

definition source_reregister :: "'k epoll_api \<Rightarrow> io_source \<Rightarrow> interest \<Rightarrow> 'k reactor \<Rightarrow>
    (unit, io_error) outcome \<times> 'k reactor" where
  "source_reregister api src interest r =
     (if \<not> src_registered src then (Err NotConnected, r)
      else reactor_reregister api (src_raw src) (src_token src) interest r)"

definition source_drop :: "'k epoll_api \<Rightarrow> io_source \<Rightarrow> 'k reactor \<Rightarrow> 'k reactor" where
  "source_drop api src r =
     (if src_registered src then snd (deregister_with_token api (src_raw src) (src_token src) r) else r)"

record readiness_future =
  rf_source :: io_source
  rf_armed :: bool

definition source_ready :: "io_source \<Rightarrow> readiness_future" where
  "source_ready src = \<lparr>rf_source = src, rf_armed = False\<rparr>"

definition readable_poll :: "'k epoll_api \<Rightarrow> waker \<Rightarrow> readiness_future \<Rightarrow> 'k reactor \<Rightarrow>
    (unit, io_error) outcome poll \<times> readiness_future \<times> 'k reactor" where
  "readable_poll api w f r =
     (if rf_armed f then (Ready (Ok ()), f, r)
      else
        (let r1 = r\<lparr>wakers := set_read_waker (src_token (rf_source f)) w (wakers r)\<rparr>;
             f1 = f\<lparr>rf_armed := True\<rparr>;
             (res, r2) = source_reregister api (rf_source f) READABLE r1
         in (case res of Ok _ \<Rightarrow> Pending | _ \<Rightarrow> Ready res, f1, r2)))"

definition writable_poll :: "'k epoll_api \<Rightarrow> waker \<Rightarrow> readiness_future \<Rightarrow> 'k reactor \<Rightarrow>
    (unit, io_error) outcome poll \<times> readiness_future \<times> 'k reactor" where
  "writable_poll api w f r =
     (if rf_armed f then (Ready (Ok ()), f, r)
      else
        (let r1 = r\<lparr>wakers := set_write_waker (src_token (rf_source f)) w (wakers r)\<rparr>;
             f1 = f\<lparr>rf_armed := True\<rparr>;
             (res, r2) = source_reregister api (rf_source f) WRITABLE r1
         in (case res of Ok _ \<Rightarrow> Pending | _ \<Rightarrow> Ready res, f1, r2)))"

section \<open>What the kernel promises\<close>

text \<open>
  What epoll reports of a registration: the requested directions that are ready, and an error
  or a hang-up whether requested or not.
\<close>

definition report_mask :: "u32 \<Rightarrow> u32 \<Rightarrow> u32" where
  "report_mask rdy events = rdy AND (events AND (EPOLLIN OR EPOLLOUT) OR (EPOLLERR OR EPOLLHUP))"

text \<open>
  The one-shot contract of \<^verbatim>\<open>epoll(7)\<close>: adding or modifying a registration arms it with the
  given event, deleting it removes it; a wait reports armed registrations that have something
  to report, all of them when the buffer has room left, and disarms exactly registrations it
  reports; a failed wait disarms nothing.
\<close>

definition wait_ok :: "('k \<Rightarrow> fd \<rightharpoonup> epoll_event) \<Rightarrow> ('k \<Rightarrow> fd \<Rightarrow> u32) \<Rightarrow> 'k \<Rightarrow> int \<Rightarrow>
    epoll_event list \<Rightarrow> 'k \<Rightarrow> bool" where
  "wait_ok armed rdy k maxevents raw k' \<longleftrightarrow>
     (\<forall>x\<in>set raw. ep_events x \<noteq> 0 \<and>
        (\<exists>fd e. armed k fd = Some e \<and> ep_u64 x = ep_u64 e \<and> ep_events x = report_mask (rdy k fd) (ep_events e))) \<and>
     (\<forall>fd e. armed k fd = Some e \<and> report_mask (rdy k fd) (ep_events e) \<noteq> 0 \<and> int (length raw) < maxevents \<longrightarrow>
        \<lparr>ep_events = report_mask (rdy k fd) (ep_events e), ep_u64 = ep_u64 e\<rparr> \<in> set raw) \<and>
     (\<forall>fd. armed k' fd = armed k fd \<or>
        armed k' fd = None \<and> (\<exists>e x. armed k fd = Some e \<and> x \<in> set raw \<and> ep_u64 x = ep_u64 e))"

definition epoll_ok :: "'k epoll_api \<Rightarrow> ('k \<Rightarrow> fd \<rightharpoonup> epoll_event) \<Rightarrow> ('k \<Rightarrow> fd \<Rightarrow> u32) \<Rightarrow> bool" where
  "epoll_ok api armed rdy \<longleftrightarrow>
     (\<forall>k fd e k'. epoll_add api k fd e = Ok k' \<longrightarrow> armed k' = (armed k)(fd \<mapsto> e)) \<and>
     (\<forall>k fd e k'. epoll_mod api k fd e = Ok k' \<longrightarrow> armed k' = (armed k)(fd \<mapsto> e)) \<and>
     (\<forall>k fd k'. epoll_del api k fd = Ok k' \<longrightarrow> armed k' = (armed k)(fd := None)) \<and>
     (\<forall>k m t res k'. epoll_wait api k m t = (res, k') \<longrightarrow>
        (case res of Ok raw \<Rightarrow> wait_ok armed rdy k m raw k' | _ \<Rightarrow> armed k' = armed k))"

section \<open>Waiting for a direction\<close>

text \<open>The two directions, for what the readable and the writable side share.\<close>

datatype direction = Reading | Writing

primrec dir_interest :: "direction \<Rightarrow> interest" where
  "dir_interest Reading = READABLE"
| "dir_interest Writing = WRITABLE"

primrec dir_flag :: "direction \<Rightarrow> u32" where
  "dir_flag Reading = EPOLLIN"
| "dir_flag Writing = EPOLLOUT"

primrec dir_wakers :: "direction \<Rightarrow> waker_registry \<Rightarrow> u64 \<rightharpoonup> waker" where
  "dir_wakers Reading = read_wakers"
| "dir_wakers Writing = write_wakers"

primrec ev_dir :: "direction \<Rightarrow> io_event \<Rightarrow> bool" where
  "ev_dir Reading = ev_readable"
| "ev_dir Writing = ev_writable"

primrec dir_poll :: "direction \<Rightarrow> 'k epoll_api \<Rightarrow> waker \<Rightarrow> readiness_future \<Rightarrow> 'k reactor \<Rightarrow>
    (unit, io_error) outcome poll \<times> readiness_future \<times> 'k reactor" where
  "dir_poll Reading = readable_poll"
| "dir_poll Writing = writable_poll"

text \<open>A token belongs to one descriptor among the armed registrations.\<close>

definition token_unique :: "('k \<Rightarrow> fd \<rightharpoonup> epoll_event) \<Rightarrow> io_source \<Rightarrow> 'k \<Rightarrow> bool" where
  "token_unique armed src k \<longleftrightarrow>
     (\<forall>fd e. armed k fd = Some e \<and> ep_u64 e = src_token src \<longrightarrow> fd = src_raw src)"

text \<open>The waker is stored and the registration is armed for its direction.\<close>

definition waits_for :: "('k \<Rightarrow> fd \<rightharpoonup> epoll_event) \<Rightarrow> direction \<Rightarrow> io_source \<Rightarrow> waker \<Rightarrow> 'k reactor \<Rightarrow> bool" where
  "waits_for armed d src w r \<longleftrightarrow>
     dir_wakers d (wakers r) (src_token src) = Some w \<and>
     armed (inner r) (src_raw src) = Some (build_event (src_token src) (dir_interest d)) \<and>
     token_unique armed src (inner r)"

text \<open>
  An error or a hang-up is reported together with readiness in the direction: what sockets do.
  A pipe whose other end is closed reports the hang-up alone.
\<close>

definition hangup_ready :: "('k \<Rightarrow> fd \<Rightarrow> u32) \<Rightarrow> direction \<Rightarrow> fd \<Rightarrow> bool" where
  "hangup_ready rdy d fd \<longleftrightarrow>
     (\<forall>k. rdy k fd AND (EPOLLERR OR EPOLLHUP) \<noteq> 0 \<longrightarrow> rdy k fd AND dir_flag d \<noteq> 0)"

text \<open>
  What happens on the reactor while a task waits on a source: other sources are registered,
  armed and dropped, the world changes, and the executor polls. Each step fires some wakers.
\<close>

inductive io_step :: "'k epoll_api \<Rightarrow> ('k \<Rightarrow> fd \<rightharpoonup> epoll_event) \<Rightarrow> io_source \<Rightarrow>
    'k reactor \<Rightarrow> waker list \<Rightarrow> 'k reactor \<Rightarrow> bool"
  for api armed src where
  world: "armed k = armed (inner r) \<Longrightarrow> io_step api armed src r [] (r\<lparr>inner := k\<rparr>)"
| new_source: "fd \<noteq> src_raw src \<Longrightarrow> tok \<noteq> src_token src \<Longrightarrow> source_new api fd tok i r = (res, r') \<Longrightarrow>
    io_step api armed src r [] r'"
| arm: "src_raw (rf_source f) \<noteq> src_raw src \<Longrightarrow> src_token (rf_source f) \<noteq> src_token src \<Longrightarrow>
    dir_poll d api w f r = (res, f', r') \<Longrightarrow> io_step api armed src r [] r'"
| drop_source: "src_raw other \<noteq> src_raw src \<Longrightarrow> src_token other \<noteq> src_token src \<Longrightarrow>
    io_step api armed src r [] (source_drop api other r)"
| poll_step: "reactor_poll api evs cap t r = (res, evs', ws, r') \<Longrightarrow> io_step api armed src r ws r'"

inductive io_steps :: "'k epoll_api \<Rightarrow> ('k \<Rightarrow> fd \<rightharpoonup> epoll_event) \<Rightarrow> io_source \<Rightarrow>
    'k reactor \<Rightarrow> waker list \<Rightarrow> 'k reactor \<Rightarrow> bool"
  for api armed src where
  none: "io_steps api armed src r [] r"
| step: "io_steps api armed src r ws r1 \<Longrightarrow> io_step api armed src r1 ws1 r2 \<Longrightarrow>
    io_steps api armed src r (ws @ ws1) r2"

subsection \<open>The registry\<close>

lemma wake_token_fires:
  assumes "wake_token t a b g = (ws, g')"
  shows "dir_wakers d g' u =
      (if u = t \<and> (case d of Reading \<Rightarrow> a | Writing \<Rightarrow> b) then None else dir_wakers d g u)"
    and "u = t \<Longrightarrow> (case d of Reading \<Rightarrow> a | Writing \<Rightarrow> b) \<Longrightarrow> dir_wakers d g u = Some w \<Longrightarrow> w \<in> set ws"
  using assms
  by (cases d; auto simp: wake_token_def take_read_waker_def take_write_waker_def split: if_splits option.splits)+

text \<open>A pass over the events fires a stored waker exactly when one of them is for it.\<close>

lemma wake_events_fires:
  assumes "wake_events evs g = (ws, g')" and "dir_wakers d g t = Some w"
  shows "if \<exists>ev\<in>set evs. ev_token ev = t \<and> ev_dir d ev
    then w \<in> set ws else dir_wakers d g' t = Some w"
  using assms
proof (induction evs arbitrary: g ws g')
  case Nil
  then show ?case by simp
next
  case (Cons ev evs)
  obtain ws1 g1 where tok: "wake_token (ev_token ev) (ev_readable ev) (ev_writable ev) g = (ws1, g1)"
    by force
  obtain ws2 where rest: "wake_events evs g1 = (ws2, g')" and ws: "ws = ws1 @ ws2"
    using Cons.prems(1) tok by (auto split: prod.splits)
  have dir: "(case d of Reading \<Rightarrow> ev_readable ev | Writing \<Rightarrow> ev_writable ev) = ev_dir d ev"
    by (cases d) simp_all
  note fired = wake_token_fires [OF tok, where d = d, unfolded dir]
  show ?case
  proof (cases "ev_token ev = t \<and> ev_dir d ev")
    case True
    then have "w \<in> set ws1" using fired(2) [of t w] Cons.prems(2) by simp
    with True show ?thesis by (auto simp: ws)
  next
    case False
    then have "dir_wakers d g1 t = Some w" using fired(1) [of t] Cons.prems(2) by auto
    from Cons.IH [OF rest this] False show ?thesis by (auto simp: ws split: if_splits)
  qed
qed

lemma wakers_other [simp]:
  "t \<noteq> u \<Longrightarrow> dir_wakers d (set_read_waker u w g) t = dir_wakers d g t"
  "t \<noteq> u \<Longrightarrow> dir_wakers d (set_write_waker u w g) t = dir_wakers d g t"
  "t \<noteq> u \<Longrightarrow> dir_wakers d (remove_token u g) t = dir_wakers d g t"
  by (cases d; simp add: set_read_waker_def set_write_waker_def remove_token_def)+

subsection \<open>The kernel's table\<close>

lemma and_flag_bit:
  "(x AND 1 \<noteq> 0) = bit (x :: u32) 0" "(x AND 4 \<noteq> 0) = bit x 2"
proof -
  have "x AND 2 ^ n \<noteq> 0 \<longleftrightarrow> bit x n" if "n < 32" for n
    using that bit_iff_and_push_bit_not_eq_0 [of x n] by (simp add: push_bit_eq_mult)
  from this [of 0] this [of 2] show "(x AND 1 \<noteq> 0) = bit x 0" "(x AND 4 \<noteq> 0) = bit x 2" by simp_all
qed

lemma build_event_token [simp]: "ep_u64 (build_event tok i) = tok"
  by (simp add: build_event_def Let_def)

lemma build_event_flags:
  "ep_events (build_event tok (dir_interest d)) AND (EPOLLIN OR EPOLLOUT) = dir_flag d"
  by (cases d) (simp_all add: build_event_def Let_def io_flag_defs)

lemma report_dir:
  "report_mask rdy (ep_events (build_event tok (dir_interest d))) = rdy AND (dir_flag d OR (EPOLLERR OR EPOLLHUP))"
  by (simp add: report_mask_def build_event_flags)

lemma report_dir_flag:
  "ev_dir d (event_of \<lparr>ep_events = rdy AND (dir_flag d OR (EPOLLERR OR EPOLLHUP)), ep_u64 = tok\<rparr>) \<longleftrightarrow>
     rdy AND dir_flag d \<noteq> 0"
  by (cases d) (simp_all add: event_of_def io_flag_defs and_flag_bit bit_simps)

lemma epoll_okD:
  assumes "epoll_ok api armed rdy"
  shows "epoll_add api k fd e = Ok k' \<Longrightarrow> armed k' = (armed k)(fd \<mapsto> e)"
    and "epoll_mod api k fd e = Ok k' \<Longrightarrow> armed k' = (armed k)(fd \<mapsto> e)"
    and "epoll_del api k fd = Ok k' \<Longrightarrow> armed k' = (armed k)(fd := None)"
    and "epoll_wait api k m t = (Ok raw, k') \<Longrightarrow> wait_ok armed rdy k m raw k'"
    and "epoll_wait api k m t = (Err err, k') \<Longrightarrow> armed k' = armed k"
    and "epoll_wait api k m t = (Panic, k') \<Longrightarrow> armed k' = armed k"
  using assms unfolding epoll_ok_def by (blast, blast, blast, fastforce+)

text \<open>A control call on one descriptor leaves the others as they are; the wakers do not move.\<close>

lemma register_frame:
  assumes "epoll_ok api armed rdy" and "reactor_register api fd tok i r = (res, r')"
  shows "wakers r' = wakers r"
    and "armed (inner r') = armed (inner r) \<or> armed (inner r') = (armed (inner r))(fd \<mapsto> build_event tok i)"
  using assms(2) epoll_okD(1) [OF assms(1)]
  by (auto simp: reactor_register_def on_inner_def epoll_register_def ctl_def split: outcome.splits)

lemma reregister_frame:
  assumes "epoll_ok api armed rdy" and "reactor_reregister api fd tok i r = (res, r')"
  shows "wakers r' = wakers r"
    and "armed (inner r') = (if res = Ok () then (armed (inner r))(fd \<mapsto> build_event tok i) else armed (inner r))"
  using assms(2) epoll_okD(2) [OF assms(1)]
  by (auto simp: reactor_reregister_def on_inner_def epoll_reregister_def ctl_def split: outcome.splits)

lemma deregister_frame:
  assumes "epoll_ok api armed rdy" and "deregister_with_token api fd tok r = (res, r')"
  shows "wakers r' = remove_token tok (wakers r)"
    and "armed (inner r') = armed (inner r) \<or> armed (inner r') = (armed (inner r))(fd := None)"
  using assms(2) epoll_okD(3) [OF assms(1)]
  by (auto simp: deregister_with_token_def reactor_deregister_def on_inner_def epoll_deregister_def ctl_def
      split: outcome.splits)

text \<open>
  Arming a direction: a pending readiness future has stored the waker and replaced the
  registration's event by one for this direction alone.
\<close>

lemma dir_poll_pending:
  assumes ok: "epoll_ok api armed rdy" and poll: "dir_poll d api w f r = (Pending, f', r')"
  shows "dir_wakers d (wakers r') (src_token (rf_source f)) = Some w"
    and "armed (inner r') = (armed (inner r))(src_raw (rf_source f) \<mapsto>
      build_event (src_token (rf_source f)) (dir_interest d))"
    and "d' \<noteq> d \<Longrightarrow> dir_wakers d' (wakers r') = dir_wakers d' (wakers r)"
proof -
  obtain r1 where re: "reactor_reregister api (src_raw (rf_source f)) (src_token (rf_source f)) (dir_interest d) r1
      = (Ok (), r')"
    and r1: "r1 = r\<lparr>wakers := (case d of Reading \<Rightarrow> set_read_waker | Writing \<Rightarrow> set_write_waker)
      (src_token (rf_source f)) w (wakers r)\<rparr>"
    using poll by (cases d) (auto simp: readable_poll_def writable_poll_def source_reregister_def Let_def
        split: prod.splits outcome.splits if_splits)
  note frame = reregister_frame [OF ok re]
  show "dir_wakers d (wakers r') (src_token (rf_source f)) = Some w"
    and "d' \<noteq> d \<Longrightarrow> dir_wakers d' (wakers r') = dir_wakers d' (wakers r)"
    by (cases d; cases d'; simp add: frame(1) r1 set_read_waker_def set_write_waker_def)+
  show "armed (inner r') = (armed (inner r))(src_raw (rf_source f) \<mapsto>
      build_event (src_token (rf_source f)) (dir_interest d))"
    using frame(2) by (simp add: r1)
qed

lemma pending_waiting:
  assumes "epoll_ok api armed rdy" and "dir_poll d api w (source_ready src) r = (Pending, f', r')"
    and "token_unique armed src (inner r)"
  shows "waits_for armed d src w r'"
  using dir_poll_pending(1,2) [OF assms(1,2)] assms(3)
  by (auto simp: waits_for_def token_unique_def source_ready_def split: if_splits)

text \<open>Whatever a readiness future returns, it touches its own source only.\<close>

lemma dir_poll_frame:
  assumes ok: "epoll_ok api armed rdy" and poll: "dir_poll d api w f r = (res, f', r')"
    and other: "src_token (rf_source f) \<noteq> t"
  shows "dir_wakers d' (wakers r') t = dir_wakers d' (wakers r) t"
    and "armed (inner r') = armed (inner r) \<or> (\<exists>i. armed (inner r') = (armed (inner r))(src_raw (rf_source f) \<mapsto>
      build_event (src_token (rf_source f)) i))"
proof -
  let ?set = "case d of Reading \<Rightarrow> set_read_waker | Writing \<Rightarrow> set_write_waker"
  have "r' = r \<or> r' = r\<lparr>wakers := ?set (src_token (rf_source f)) w (wakers r)\<rparr> \<or>
      (\<exists>res'. reactor_reregister api (src_raw (rf_source f)) (src_token (rf_source f)) (dir_interest d)
        (r\<lparr>wakers := ?set (src_token (rf_source f)) w (wakers r)\<rparr>) = (res', r'))"
    using poll by (cases d) (auto simp: readable_poll_def writable_poll_def source_reregister_def Let_def
        split: prod.splits outcome.splits if_splits)
  then have both: "dir_wakers d' (wakers r') t = dir_wakers d' (wakers r) t \<and>
      (armed (inner r') = armed (inner r) \<or> (\<exists>i. armed (inner r') = (armed (inner r))(src_raw (rf_source f) \<mapsto>
      build_event (src_token (rf_source f)) i)))"
  proof (elim disjE exE)
    fix res'
    assume re: "reactor_reregister api (src_raw (rf_source f)) (src_token (rf_source f)) (dir_interest d)
        (r\<lparr>wakers := ?set (src_token (rf_source f)) w (wakers r)\<rparr>) = (res', r')"
    show "dir_wakers d' (wakers r') t = dir_wakers d' (wakers r) t \<and>
      (armed (inner r') = armed (inner r) \<or> (\<exists>i. armed (inner r') = (armed (inner r))(src_raw (rf_source f) \<mapsto>
      build_event (src_token (rf_source f)) i)))"
      using reregister_frame [OF ok re] other by (cases d) (auto split: if_splits)
  qed (use other in \<open>cases d; auto\<close>)+
  from both show "dir_wakers d' (wakers r') t = dir_wakers d' (wakers r) t"
    and "armed (inner r') = armed (inner r) \<or> (\<exists>i. armed (inner r') = (armed (inner r))(src_raw (rf_source f) \<mapsto>
      build_event (src_token (rf_source f)) i))" by blast+
qed

text \<open>Steps that leave the source's own entries alone keep its waiter in place.\<close>

lemma waiting_frame:
  assumes "waits_for armed d src w r"
    and "dir_wakers d (wakers r') (src_token src) = dir_wakers d (wakers r) (src_token src)"
    and "armed (inner r') = armed (inner r) \<or>
      (fd \<noteq> src_raw src \<and> (\<exists>x. armed (inner r') = (armed (inner r))(fd := x) \<and>
        (\<forall>e. x = Some e \<longrightarrow> ep_u64 e \<noteq> src_token src)))"
  shows "waits_for armed d src w r'"
  using assms unfolding waits_for_def token_unique_def by (auto split: if_splits)

lemma reactor_poll_cases:
  assumes "reactor_poll api evs cap t r = (res, evs', ws, r')"
  obtains (ok) raw k where "epoll_wait api (inner r) (max_events_arg cap) (timeout_arg t) = (Ok raw, k)"
      and "evs' = map event_of raw"
      and "inner r' = k" and "wake_events evs' (wakers r) = (ws, wakers r')" and "res = Ok (length raw)"
  | (interrupted) k where "epoll_wait api (inner r) (max_events_arg cap) (timeout_arg t) = (Err Interrupted, k)"
      and "inner r' = k" and "wake_events evs (wakers r) = (ws, wakers r')" and "res = Ok 0"
  | (failed) k where "\<And>n. res \<noteq> Ok n" and "ws = []" and "wakers r' = wakers r" and "inner r' = k"
      and "(\<exists>e. epoll_wait api (inner r) (max_events_arg cap) (timeout_arg t) = (Err e, k)) \<or>
        epoll_wait api (inner r) (max_events_arg cap) (timeout_arg t) = (Panic, k)"
  using assms unfolding reactor_poll_def epoll_poll_def
  by (auto simp: Let_def split: prod.splits outcome.splits io_error.splits)

text \<open>A report of the kernel with the source's token is the report of the source itself.\<close>

lemma report_of_source:
  assumes wait: "wait_ok armed rdy (inner r) m raw k" and waits_for: "waits_for armed d src w r"
    and x: "x \<in> set raw" "ep_u64 x = src_token src" and hup: "hangup_ready rdy d (src_raw src)"
  shows "ev_dir d (event_of x)"
proof -
  obtain fd e where armed: "armed (inner r) fd = Some e" "ep_u64 x = ep_u64 e"
    and mask: "ep_events x = report_mask (rdy (inner r) fd) (ep_events e)" and nz: "ep_events x \<noteq> 0"
    using wait x(1) unfolding wait_ok_def by blast
  from armed x(2) waits_for have fd: "fd = src_raw src"
    unfolding waits_for_def token_unique_def by metis
  with armed waits_for have e: "e = build_event (src_token src) (dir_interest d)" by (simp add: waits_for_def)
  let ?rdy = "rdy (inner r) (src_raw src)"
  have ev: "ep_events x = ?rdy AND (dir_flag d OR (EPOLLERR OR EPOLLHUP))"
    by (simp only: mask fd e report_dir)
  have "?rdy AND dir_flag d \<noteq> 0"
  proof
    assume zero: "?rdy AND dir_flag d = 0"
    then have "?rdy AND (EPOLLERR OR EPOLLHUP) = 0" using hup by (auto simp: hangup_ready_def)
    with zero nz show False by (simp add: ev bit.conj_disj_distrib)
  qed
  then show ?thesis using report_dir_flag [of d ?rdy "ep_u64 x"] ev by (cases x) simp
qed

lemma poll_keeps_waiting:
  assumes ok: "epoll_ok api armed rdy" and hup: "hangup_ready rdy d (src_raw src)"
    and poll: "reactor_poll api evs cap t r = (res, evs', ws, r')" and waits_for: "waits_for armed d src w r"
  shows "w \<in> set ws \<or> waits_for armed d src w r'"
  using poll
proof (cases rule: reactor_poll_cases)
  case (ok raw k)
  note wait = epoll_okD(4) [OF assms(1) ok(1)]
  have stored: "dir_wakers d (wakers r) (src_token src) = Some w" using waits_for by (simp add: waits_for_def)
  note fires = wake_events_fires [OF ok(4) stored]
  show ?thesis
  proof (cases "\<exists>x\<in>set raw. ep_u64 x = src_token src")
    case True
    then obtain x where x: "x \<in> set raw" "ep_u64 x = src_token src" by blast
    from report_of_source [OF wait waits_for x hup] x have "\<exists>ev\<in>set evs'. ev_token ev = src_token src \<and> ev_dir d ev"
      by (auto simp: ok(2) event_of_def)
    with fires show ?thesis by simp
  next
    case False
    then have "\<not> (\<exists>ev\<in>set evs'. ev_token ev = src_token src \<and> ev_dir d ev)"
      by (auto simp: ok(2) event_of_def)
    with fires have kept: "dir_wakers d (wakers r') (src_token src) = Some w" by simp
    have "armed k (src_raw src) = armed (inner r) (src_raw src)"
      using wait waits_for False unfolding wait_ok_def waits_for_def by fastforce
    moreover have "token_unique armed src k"
      using wait waits_for unfolding wait_ok_def waits_for_def token_unique_def by (metis option.distinct(1))
    ultimately show ?thesis using waits_for kept by (simp add: waits_for_def ok(3))
  qed
next
  case (interrupted k)
  have "armed k = armed (inner r)" using epoll_okD(5) [OF assms(1) interrupted(1)] .
  with wake_events_fires [OF interrupted(3), of d "src_token src" w] waits_for interrupted(2) show ?thesis
    by (auto simp: waits_for_def token_unique_def split: if_splits)
next
  case (failed k)
  then have "armed k = armed (inner r)" using epoll_okD(5,6) [OF ok] by blast
  with failed waits_for show ?thesis by (auto simp: waits_for_def token_unique_def)
qed

lemma io_step_keeps_waiting:
  assumes ok: "epoll_ok api armed rdy" and hup: "hangup_ready rdy d (src_raw src)"
    and "io_step api armed src r ws r'" and waits_for: "waits_for armed d src w r"
  shows "w \<in> set ws \<or> waits_for armed d src w r'"
  using assms(3)
proof cases
  case (world k)
  then show ?thesis using waits_for by (simp add: waits_for_def token_unique_def)
next
  case (new_source fd tok i res)
  then obtain res' where "reactor_register api fd tok i r = (res', r')"
    by (auto simp: source_new_def split: prod.splits)
  note frame = register_frame [OF ok this]
  have "waits_for armed d src w r'"
    using frame new_source by (intro waiting_frame [OF waits_for, of r' fd]) auto
  then show ?thesis ..
next
  case (arm f d' w' res f')
  have "waits_for armed d src w r'"
    using dir_poll_frame [OF ok arm(4,3)] arm
    by (intro waiting_frame [OF waits_for, of r' "src_raw (rf_source f)"]) fastforce+
  then show ?thesis ..
next
  case (drop_source other)
  obtain res r1 where dereg: "deregister_with_token api (src_raw other) (src_token other) r = (res, r1)"
    by force
  from deregister_frame [OF ok dereg] drop_source waits_for waiting_frame [OF waits_for, of r1 "src_raw other"]
  show ?thesis by (auto simp: source_drop_def dereg)
next
  case (poll_step evs cap t res evs')
  then show ?thesis using poll_keeps_waiting [OF ok hup _ waits_for] by blast
qed

lemma io_steps_keep_waiting:
  assumes "io_steps api armed src r ws r'" and "epoll_ok api armed rdy"
    and "hangup_ready rdy d (src_raw src)" and "waits_for armed d src w r"
  shows "w \<in> set ws \<or> waits_for armed d src w r'"
  using assms by (induction) (auto dest: io_step_keeps_waiting)

text \<open>A poll with room for its events fires the waiter of every source that is ready.\<close>

lemma poll_fires_waiter:
  assumes ok: "epoll_ok api armed rdy" and poll: "reactor_poll api evs cap t r = (Ok n, evs', ws, r')"
    and waits_for: "waits_for armed d src w r" and ready: "rdy (inner r) (src_raw src) AND dir_flag d \<noteq> 0"
    and room: "0 < n" "n < 1024" and cap: "cap \<le> 1024"
  shows "w \<in> set ws"
  using poll
proof (cases rule: reactor_poll_cases)
  case (ok raw k)
  have m: "max_events_arg cap = 1024" using cap by (simp add: max_events_arg_def MAX_EVENTS_def max_def)
  let ?rdy = "rdy (inner r) (src_raw src)"
  let ?x = "\<lparr>ep_events = ?rdy AND (dir_flag d OR (EPOLLERR OR EPOLLHUP)), ep_u64 = src_token src\<rparr>"
  have "?rdy AND (dir_flag d OR (EPOLLERR OR EPOLLHUP)) \<noteq> 0"
    using ready by (metis bit.conj_disj_distrib or_eq_0_iff)
  moreover have "armed (inner r) (src_raw src) = Some (build_event (src_token src) (dir_interest d))"
    using waits_for by (simp add: waits_for_def)
  ultimately have "?x \<in> set raw"
    using epoll_okD(4) [OF assms(1) ok(1), unfolded wait_ok_def] room ok(5) m
    by (fastforce simp: report_dir)
  then have "\<exists>ev\<in>set evs'. ev_token ev = src_token src \<and> ev_dir d ev"
    using report_dir_flag [of d ?rdy "src_token src"] ready by (force simp: ok(2) event_of_def)
  then show ?thesis using wake_events_fires [OF ok(4), of d "src_token src" w] waits_for
    by (simp add: waits_for_def)
qed (use room in auto)

text \<open>
  A poll that finds nothing to report in a direction leaves the direction's waker where it is,
  even when the descriptor is ready but the registration does not ask for it.
\<close>

lemma poll_leaves_unreported:
  assumes ok: "epoll_ok api armed rdy" and poll: "reactor_poll api [] cap t r = (res, evs', ws, r')"
    and stored: "dir_wakers d (wakers r) (src_token src) = Some w" and unique: "token_unique armed src (inner r)"
    and armed: "armed (inner r) (src_raw src) = Some e"
    and silent: "report_mask (rdy (inner r) (src_raw src)) (ep_events e) AND dir_flag d = 0"
  shows "dir_wakers d (wakers r') (src_token src) = Some w"
  using poll
proof (cases rule: reactor_poll_cases)
  case (ok raw k)
  have "\<not> ev_dir d (event_of x)" if x: "x \<in> set raw" "ep_u64 x = src_token src" for x
  proof -
    from x epoll_okD(4) [OF assms(1) ok(1), unfolded wait_ok_def] obtain fd e'
      where x': "armed (inner r) fd = Some e'" "ep_u64 x = ep_u64 e'"
        "ep_events x = report_mask (rdy (inner r) fd) (ep_events e')" by blast
    with x unique have "fd = src_raw src" unfolding token_unique_def by metis
    with x' assms(5) have mask: "ep_events x = report_mask (rdy (inner r) (src_raw src)) (ep_events e)" by simp
    show ?thesis
      using silent by (cases d) (simp_all add: event_of_def mask)
  qed
  then have "\<not> (\<exists>ev\<in>set evs'. ev_token ev = src_token src \<and> ev_dir d ev)"
    by (auto simp: ok(2) event_of_def)
  with wake_events_fires [OF ok(4) stored] show ?thesis by simp
next
  case (interrupted k)
  then show ?thesis using stored by simp
next
  case (failed k)
  then show ?thesis using stored by simp
qed

section \<open>A kernel that keeps its promises\<close>

text \<open>
  Sixteen descriptors, each with at most one armed registration and a readiness mask: the
  instance the concrete runs below are evaluated on.
\<close>

type_synonym table_kernel = "(fd \<Rightarrow> epoll_event option) \<times> (fd \<Rightarrow> u32)"

definition table_armed :: "table_kernel \<Rightarrow> fd \<rightharpoonup> epoll_event" where
  "table_armed k fd = (if 0 \<le> fd \<and> fd < 16 then fst k fd else None)"

definition table_rdy :: "table_kernel \<Rightarrow> fd \<Rightarrow> u32" where
  "table_rdy k fd = snd k fd AND (EPOLLIN OR EPOLLOUT)"

definition table_reports :: "table_kernel \<Rightarrow> epoll_event list" where
  "table_reports k = filter (\<lambda>x. ep_events x \<noteq> 0) (List.map_filter
     (\<lambda>fd. map_option (\<lambda>e. \<lparr>ep_events = report_mask (table_rdy k fd) (ep_events e), ep_u64 = ep_u64 e\<rparr>) (fst k fd))
     [0..15])"

definition table_set :: "table_kernel \<Rightarrow> fd \<Rightarrow> epoll_event option \<Rightarrow> (table_kernel, io_error) outcome" where
  "table_set k fd v = (if 0 \<le> fd \<and> fd < 16 then Ok ((fst k)(fd := v), snd k) else Err (OsError 9))"

definition table_wait :: "table_kernel \<Rightarrow> int \<Rightarrow> int \<Rightarrow> (epoll_event list, io_error) outcome \<times> table_kernel" where
  "table_wait k m t =
     (let raw = take (nat m) (table_reports k)
      in (Ok raw, (\<lambda>fd. case fst k fd of Some e \<Rightarrow> if ep_u64 e \<in> ep_u64 ` set raw then None else Some e | None \<Rightarrow> None,
          snd k)))"

definition table_api :: "table_kernel epoll_api" where
  "table_api = \<lparr>epoll_add = \<lambda>k fd e. table_set k fd (Some e), epoll_mod = \<lambda>k fd e. table_set k fd (Some e),
     epoll_del = \<lambda>k fd. table_set k fd None, epoll_wait = table_wait\<rparr>"

lemma set_table_reports:
  "set (table_reports k) = {x. ep_events x \<noteq> 0 \<and> (\<exists>fd e. table_armed k fd = Some e \<and>
     x = \<lparr>ep_events = report_mask (table_rdy k fd) (ep_events e), ep_u64 = ep_u64 e\<rparr>)}"
proof -
  have filter_map: "set (List.map_filter f xs) = {y. \<exists>x\<in>set xs. f x = Some y}" for f :: "int \<Rightarrow> 'b option" and xs
    by (induction xs) (auto simp: map_filter_simps split: option.splits)
  have armed: "table_armed k fd = Some e \<longleftrightarrow> fd \<in> {0..15} \<and> fst k fd = Some e" for fd e
    by (auto simp: table_armed_def)
  show ?thesis
    unfolding table_reports_def set_filter filter_map set_upto armed by (auto; blast)
qed

lemma table_wait_ok:
  assumes "table_wait k m t = (res, k')"
  shows "\<exists>raw. res = Ok raw \<and> wait_ok table_armed table_rdy k m raw k'"
proof -
  let ?raw = "take (nat m) (table_reports k)"
  have res: "res = Ok ?raw" using assms by (simp add: table_wait_def Let_def)
  have all: "int (length ?raw) < m \<Longrightarrow> ?raw = table_reports k" by (simp add: min_def split: if_splits)
  have sub: "set ?raw \<subseteq> set (table_reports k)" by (rule set_take_subset)
  have "wait_ok table_armed table_rdy k m ?raw k'"
    unfolding wait_ok_def
  proof (intro conjI allI ballI impI)
    fix x assume "x \<in> set ?raw"
    then have x: "x \<in> set (table_reports k)" using sub by blast
    then show "ep_events x \<noteq> 0" by (simp add: set_table_reports)
    from x show "\<exists>fd e. table_armed k fd = Some e \<and> ep_u64 x = ep_u64 e \<and>
        ep_events x = report_mask (table_rdy k fd) (ep_events e)"
      unfolding set_table_reports by fastforce
  next
    fix fd e
    assume "table_armed k fd = Some e \<and> report_mask (table_rdy k fd) (ep_events e) \<noteq> 0 \<and> int (length ?raw) < m"
    then show "\<lparr>ep_events = report_mask (table_rdy k fd) (ep_events e), ep_u64 = ep_u64 e\<rparr> \<in> set ?raw"
      using all by (auto simp: set_table_reports)
  next
    fix fd
    show "table_armed k' fd = table_armed k fd \<or> table_armed k' fd = None \<and>
        (\<exists>e x. table_armed k fd = Some e \<and> x \<in> set ?raw \<and> ep_u64 x = ep_u64 e)"
    proof (cases "fst k fd")
      case None
      then show ?thesis using assms by (auto simp: table_wait_def Let_def table_armed_def)
    next
      case (Some e)
      then have "fst k' fd = (if ep_u64 e \<in> ep_u64 ` set ?raw then None else Some e)"
        using assms by (auto simp: table_wait_def Let_def)
      then show ?thesis using Some unfolding table_armed_def image_iff by (auto split: if_splits)
    qed
  qed
  with res show ?thesis by blast
qed

lemma table_ok: "epoll_ok table_api table_armed table_rdy"
  unfolding epoll_ok_def
  by (auto simp: table_api_def table_set_def table_armed_def fun_eq_iff split: if_splits outcome.splits
      dest: table_wait_ok)

lemma table_hangup_ready: "hangup_ready table_rdy d fd"
  by (simp add: hangup_ready_def table_rdy_def io_flag_defs and.assoc)

end
