(* ===== verification/Net.thy ===== *)
theory Net
  imports Reactor
begin

unbundle bit_operations_syntax

text \<open>
  The sockets of the runtime (\<^verbatim>\<open>moduvex-runtime/src/net\<close>): the socket addresses in the
  kernel's layout, the TCP stream with its connection future, the TCP listener and the UDP
  socket. The results of the system calls a poll makes are its inputs; the descriptors the
  process has open are part of the state, so that a leak is visible.
\<close>

section \<open>Socket addresses\<close>

datatype socket_addr =
  V4 "byte list" u16
| V6 "byte list" u16 u32 u32

definition AF_INET :: u16 where "AF_INET = 2"
definition AF_INET6 :: u16 where "AF_INET6 = 10"

text \<open>The memory of a word on the little-endian targets.\<close>

definition to_le :: "nat \<Rightarrow> 'a::len word \<Rightarrow> bytes" where
  "to_le n w = rev (to_be n w)"

definition from_le :: "bytes \<Rightarrow> 'a::len word" where
  "from_le bs = from_be (rev bs)"

text \<open>
  The bytes of \<^verbatim>\<open>sockaddr_in\<close> (family, port in network order, address, padding) and of
  \<^verbatim>\<open>sockaddr_in6\<close> (family, port, flow information, address, scope).
\<close>

primrec socketaddr_to_raw :: "socket_addr \<Rightarrow> bytes" where
  "socketaddr_to_raw (V4 octets port) = to_le 2 AF_INET @ to_be 2 port @ octets @ replicate 8 0"
| "socketaddr_to_raw (V6 octets port flowinfo scope_id) =
     to_le 2 AF_INET6 @ to_be 2 port @ to_le 4 flowinfo @ octets @ to_le 4 scope_id"

definition sockaddr_to_socketaddr :: "bytes \<Rightarrow> nat \<Rightarrow> (socket_addr, io_error) outcome" where
  "sockaddr_to_socketaddr addr len =
     (let family = from_le (take 2 addr) in
      if family = AF_INET \<and> 16 \<le> len then
        Ok (V4 (take 4 (drop 4 addr)) (from_be (take 2 (drop 2 addr))))
      else if family = AF_INET6 \<and> 28 \<le> len then
        Ok (V6 (take 16 (drop 8 addr)) (from_be (take 2 (drop 2 addr)))
              (from_le (take 4 (drop 4 addr))) (from_le (take 4 (drop 24 addr))))
      else Err InvalidData)"

text \<open>A 28-byte buffer, zeroed, over whose first bytes the kernel copies an address.\<close>

definition kernel_fill :: "bytes \<Rightarrow> bytes" where
  "kernel_fill raw = raw @ replicate (28 - length raw) 0"

primrec addr_ok :: "socket_addr \<Rightarrow> bool" where
  "addr_ok (V4 octets port) \<longleftrightarrow> length octets = 4"
| "addr_ok (V6 octets port flowinfo scope_id) \<longleftrightarrow> length octets = 16"

section \<open>Streams\<close>

text \<open>The reactor of the thread, the counter of tokens and the descriptors that are open.\<close>

record 'k io_ctx =
  io_reactor :: "'k reactor"
  io_counter :: u64
  io_open :: "fd set"

definition close_fd :: "fd \<Rightarrow> 'k io_ctx \<Rightarrow> 'k io_ctx" where
  "close_fd fd c = c\<lparr>io_open := io_open c - {fd}\<rparr>"

definition take_token :: "'k io_ctx \<Rightarrow> u64 \<times> 'k io_ctx" where
  "take_token c = (let (t, n) = next_token (io_counter c) in (t, c\<lparr>io_counter := n\<rparr>))"

definition on_reactor :: "('k reactor \<Rightarrow> 'b \<times> 'k reactor) \<Rightarrow> 'k io_ctx \<Rightarrow> 'b \<times> 'k io_ctx" where
  "on_reactor f c = (let (x, r) = f (io_reactor c) in (x, c\<lparr>io_reactor := r\<rparr>))"

text \<open>A \<^verbatim>\<open>TcpStream\<close> is its source.\<close>

type_synonym tcp_stream = io_source

definition from_raw_fd :: "'k epoll_api \<Rightarrow> fd \<Rightarrow> 'k io_ctx \<Rightarrow> (tcp_stream, io_error) outcome \<times> 'k io_ctx" where
  "from_raw_fd api fd c =
     (let (token, c1) = take_token c
      in on_reactor (source_new api fd token (READABLE OR WRITABLE)) c1)"

text \<open>The user's \<^verbatim>\<open>Drop\<close> runs before the fields are dropped: the descriptor is closed first.\<close>

definition tcp_drop :: "'k epoll_api \<Rightarrow> tcp_stream \<Rightarrow> 'k io_ctx \<Rightarrow> 'k io_ctx" where
  "tcp_drop api s c =
     (let c1 = close_fd (src_raw s) c
      in c1\<lparr>io_reactor := source_drop api s (io_reactor c1)\<rparr>)"

text \<open>After the first poll the readiness future is dropped; its answer is never taken as progress.\<close>

definition pending_unless_error :: "(unit, io_error) outcome poll \<Rightarrow> ('a, io_error) outcome poll" where
  "pending_unless_error p = (case p of Ready (Err e) \<Rightarrow> Ready (Err e) | Ready Panic \<Rightarrow> Ready Panic | _ \<Rightarrow> Pending)"

text \<open>The input is what \<^verbatim>\<open>read\<close> returned: bytes (none at the end of the stream) or an error.\<close>

definition tcp_poll_read :: "'k epoll_api \<Rightarrow> (bytes, io_error) outcome \<Rightarrow> waker \<Rightarrow> tcp_stream \<Rightarrow> 'k reactor \<Rightarrow>
    (bytes, io_error) outcome poll \<times> 'k reactor" where
  "tcp_poll_read api syscall w s r =
     (case syscall of
        Err WouldBlock \<Rightarrow>
          (let (p, f, r') = readable_poll api w (source_ready s) r in (pending_unless_error p, r'))
      | n \<Rightarrow> (Ready n, r))"

definition tcp_poll_write :: "'k epoll_api \<Rightarrow> (nat, io_error) outcome \<Rightarrow> waker \<Rightarrow> tcp_stream \<Rightarrow> 'k reactor \<Rightarrow>
    (nat, io_error) outcome poll \<times> 'k reactor" where
  "tcp_poll_write api syscall w s r =
     (case syscall of
        Err WouldBlock \<Rightarrow>
          (let (p, f, r') = writable_poll api w (source_ready s) r in (pending_unless_error p, r'))
      | n \<Rightarrow> (Ready n, r))"

definition poll_flush :: "tcp_stream \<Rightarrow> (unit, io_error) outcome poll" where
  "poll_flush s = Ready (Ok ())"

definition poll_shutdown :: "io_error option \<Rightarrow> (unit, io_error) outcome poll" where
  "poll_shutdown rc = Ready (case rc of Some e \<Rightarrow> Err e | None \<Rightarrow> Ok ())"

section \<open>Connecting\<close>

datatype connect_state =
  Init socket_addr
| Connecting fd u64 bool
| ConnectDone

text \<open>The results of the calls one poll of the connection makes.\<close>

record connect_calls =
  cc_socket :: "(fd, io_error) outcome"
  cc_nonblocking :: "(unit, io_error) outcome"
  cc_connect :: "io_error option"
  cc_so_error :: "(nat, io_error) outcome"
  cc_writable :: bool

definition EINPROGRESS :: nat where "EINPROGRESS = 115"

definition start_connect :: "connect_calls \<Rightarrow> 'k io_ctx \<Rightarrow> (fd \<times> bool, io_error) outcome \<times> 'k io_ctx" where
  "start_connect calls c =
     (case cc_socket calls of
        Err e \<Rightarrow> (Err e, c)
      | Panic \<Rightarrow> (Panic, c)
      | Ok fd \<Rightarrow>
          (let c1 = c\<lparr>io_open := insert fd (io_open c)\<rparr> in
           case cc_nonblocking calls of
             Err e \<Rightarrow> (Err e, c1)
           | Panic \<Rightarrow> (Panic, c1)
           | Ok _ \<Rightarrow>
               (case cc_connect calls of
                  None \<Rightarrow> (Ok (fd, True), c1)
                | Some err \<Rightarrow>
                    if err = OsError EINPROGRESS then (Ok (fd, False), c1)
                    else (Err err, close_fd fd c1))))"

definition get_so_error :: "connect_calls \<Rightarrow> (nat option, io_error) outcome" where
  "get_so_error calls = bind_outcome (cc_so_error calls) (\<lambda>v. Ok (if v = 0 then None else Some v))"

text \<open>The arm of the loop for a connection in progress.\<close>

definition connecting_poll :: "'k epoll_api \<Rightarrow> connect_calls \<Rightarrow> waker \<Rightarrow> fd \<Rightarrow> u64 \<Rightarrow> bool \<Rightarrow> 'k io_ctx \<Rightarrow>
    (tcp_stream, io_error) outcome poll \<times> connect_state \<times> 'k io_ctx" where
  "connecting_poll api calls w fd token reg c =
     (let c1 = c\<lparr>io_reactor := (io_reactor c)\<lparr>wakers := set_write_waker token w (wakers (io_reactor c))\<rparr>\<rparr>;
          c2 = snd (on_reactor (deregister_with_token api fd token) c1)
      in case get_so_error calls of
           Err e \<Rightarrow> (Ready (Err e), ConnectDone, c2)
         | Panic \<Rightarrow> (Ready Panic, ConnectDone, c2)
         | Ok (Some os_err) \<Rightarrow> (Ready (Err (OsError os_err)), ConnectDone, close_fd fd c2)
         | Ok None \<Rightarrow>
             if cc_writable calls then
               (let (s, c3) = from_raw_fd api fd c2 in (Ready s, ConnectDone, c3))
             else (Pending, Connecting fd token reg, c1))"

definition connect_poll :: "'k epoll_api \<Rightarrow> connect_calls \<Rightarrow> waker \<Rightarrow> connect_state \<Rightarrow> 'k io_ctx \<Rightarrow>
    (tcp_stream, io_error) outcome poll \<times> connect_state \<times> 'k io_ctx" where
  "connect_poll api calls w st c =
     (case st of
        Init addr \<Rightarrow>
          (case start_connect calls c of
             (Err e, c1) \<Rightarrow> (Ready (Err e), ConnectDone, c1)
           | (Panic, c1) \<Rightarrow> (Ready Panic, ConnectDone, c1)
           | (Ok (fd, connected), c1) \<Rightarrow>
               if connected then (let (s, c2) = from_raw_fd api fd c1 in (Ready s, ConnectDone, c2))
               else
                 (let (token, c2) = take_token c1;
                      (res, c3) = on_reactor (reactor_register api fd token WRITABLE) c2
                  in case res of
                       Err e \<Rightarrow> (Ready (Err e), ConnectDone, close_fd fd c3)
                     | Panic \<Rightarrow> (Ready Panic, ConnectDone, c3)
                     | Ok _ \<Rightarrow> connecting_poll api calls w fd token True c3))
      | Connecting fd token reg \<Rightarrow> connecting_poll api calls w fd token reg c
      | ConnectDone \<Rightarrow> (Ready (Err OtherIo), ConnectDone, c))"

definition connect_drop :: "'k epoll_api \<Rightarrow> connect_state \<Rightarrow> 'k io_ctx \<Rightarrow> 'k io_ctx" where
  "connect_drop api st c =
     (case st of
        Connecting fd token reg \<Rightarrow> close_fd fd (snd (on_reactor (deregister_with_token api fd token) c))
      | _ \<Rightarrow> c)"

section \<open>Listeners and datagrams\<close>

text \<open>The results of the calls that create a listener, in order.\<close>

record bind_calls =
  bc_socket :: "(fd, io_error) outcome"
  bc_reuseaddr :: "(unit, io_error) outcome"
  bc_bind :: "(unit, io_error) outcome"
  bc_listen :: "(unit, io_error) outcome"
  bc_nonblocking :: "(unit, io_error) outcome"

definition register_bound :: "'k epoll_api \<Rightarrow> (unit, io_error) outcome \<Rightarrow> fd \<Rightarrow> interest \<Rightarrow> 'k io_ctx \<Rightarrow>
    (io_source, io_error) outcome \<times> 'k io_ctx" where
  "register_bound api setup fd interest c =
     (case setup of
        Ok _ \<Rightarrow> (let (token, c1) = take_token c in on_reactor (source_new api fd token interest) c1)
      | Err e \<Rightarrow> (Err e, c)
      | Panic \<Rightarrow> (Panic, c))"

definition listener_bind :: "'k epoll_api \<Rightarrow> bind_calls \<Rightarrow> 'k io_ctx \<Rightarrow> (io_source, io_error) outcome \<times> 'k io_ctx" where
  "listener_bind api calls c =
     (case bc_socket calls of
        Ok fd \<Rightarrow>
          register_bound api
            (bind_outcome (bc_reuseaddr calls) (\<lambda>_. bind_outcome (bc_bind calls)
              (\<lambda>_. bind_outcome (bc_listen calls) (\<lambda>_. bc_nonblocking calls))))
            fd READABLE (c\<lparr>io_open := insert fd (io_open c)\<rparr>)
      | Err e \<Rightarrow> (Err e, c)
      | Panic \<Rightarrow> (Panic, c))"

definition udp_bind :: "'k epoll_api \<Rightarrow> bind_calls \<Rightarrow> 'k io_ctx \<Rightarrow> (io_source, io_error) outcome \<times> 'k io_ctx" where
  "udp_bind api calls c =
     (case bc_socket calls of
        Ok fd \<Rightarrow>
          register_bound api (bind_outcome (bc_bind calls) (\<lambda>_. bc_nonblocking calls))
            fd (READABLE OR WRITABLE) (c\<lparr>io_open := insert fd (io_open c)\<rparr>)
      | Err e \<Rightarrow> (Err e, c)
      | Panic \<Rightarrow> (Panic, c))"

text \<open>
  What \<^verbatim>\<open>accept\<close> returned (a descriptor with the peer's raw address and its length), and the
  result of making it non-blocking.
\<close>

definition try_accept :: "'k epoll_api \<Rightarrow> (fd \<times> bytes \<times> nat, io_error) outcome \<Rightarrow> (unit, io_error) outcome \<Rightarrow>
    'k io_ctx \<Rightarrow> ((tcp_stream \<times> socket_addr) option, io_error) outcome \<times> 'k io_ctx" where
  "try_accept api syscall nonblocking c =
     (case syscall of
        Err WouldBlock \<Rightarrow> (Ok None, c)
      | Err e \<Rightarrow> (Err e, c)
      | Panic \<Rightarrow> (Panic, c)
      | Ok (conn_fd, addr, len) \<Rightarrow>
          (let c1 = c\<lparr>io_open := insert conn_fd (io_open c)\<rparr> in
           case bind_outcome nonblocking (\<lambda>_. sockaddr_to_socketaddr addr len) of
             Err e \<Rightarrow> (Err e, c1)
           | Panic \<Rightarrow> (Panic, c1)
           | Ok peer \<Rightarrow>
               (let (s, c2) = from_raw_fd api conn_fd c1
                in (bind_outcome s (\<lambda>s. Ok (Some (s, peer))), c2))))"

definition accept_poll :: "'k epoll_api \<Rightarrow> (fd \<times> bytes \<times> nat, io_error) outcome \<Rightarrow> (unit, io_error) outcome \<Rightarrow>
    waker \<Rightarrow> io_source \<Rightarrow> 'k io_ctx \<Rightarrow> (tcp_stream \<times> socket_addr, io_error) outcome poll \<times> 'k io_ctx" where
  "accept_poll api syscall nonblocking w listener c =
     (case try_accept api syscall nonblocking c of
        (Ok (Some result), c1) \<Rightarrow> (Ready (Ok result), c1)
      | (Ok None, c1) \<Rightarrow>
          on_reactor (\<lambda>r. let (p, f, r') = readable_poll api w (source_ready listener) r
                          in (pending_unless_error p, r')) c1
      | (Err e, c1) \<Rightarrow> (Ready (Err e), c1)
      | (Panic, c1) \<Rightarrow> (Ready Panic, c1))"

definition send_to_poll :: "'k epoll_api \<Rightarrow> (nat, io_error) outcome \<Rightarrow> waker \<Rightarrow> io_source \<Rightarrow> 'k reactor \<Rightarrow>
    (nat, io_error) outcome poll \<times> 'k reactor" where
  "send_to_poll api syscall w socket r =
     (case syscall of
        Err WouldBlock \<Rightarrow>
          (let (p, f, r') = writable_poll api w (source_ready socket) r in (pending_unless_error p, r'))
      | n \<Rightarrow> (Ready n, r))"

definition try_recv_from :: "(bytes \<times> bytes \<times> nat, io_error) outcome \<Rightarrow> (bytes \<times> socket_addr, io_error) outcome" where
  "try_recv_from syscall =
     bind_outcome syscall (\<lambda>(datagram, addr, len).
       bind_outcome (sockaddr_to_socketaddr addr len) (\<lambda>sender. Ok (datagram, sender)))"

definition recv_from_poll :: "'k epoll_api \<Rightarrow> (bytes \<times> bytes \<times> nat, io_error) outcome \<Rightarrow> waker \<Rightarrow> io_source \<Rightarrow>
    'k reactor \<Rightarrow> (bytes \<times> socket_addr, io_error) outcome poll \<times> 'k reactor" where
  "recv_from_poll api syscall w socket r =
     (case try_recv_from syscall of
        Err WouldBlock \<Rightarrow>
          (let (p, f, r') = readable_poll api w (source_ready socket) r in (pending_unless_error p, r'))
      | result \<Rightarrow> (Ready result, r))"

section \<open>Lemmas\<close>

lemma le_roundtrip [simp]:
  "from_le (to_le 2 (w :: u16)) = w" "from_le (to_le 4 (v :: u32)) = v"
  by (simp_all add: from_le_def to_le_def)

lemma length_to_le [simp]: "length (to_le n w) = n"
  by (simp add: to_le_def)

lemma length_raw [simp]:
  "addr_ok a \<Longrightarrow> length (socketaddr_to_raw a) = (case a of V4 _ _ \<Rightarrow> 16 | V6 _ _ _ _ \<Rightarrow> 28)"
  by (cases a) simp_all

text \<open>A pending read has passed through the readiness future.\<close>

lemma tcp_read_pending:
  assumes "tcp_poll_read api syscall w s r = (Pending, r')"
  shows "\<exists>f. dir_poll Reading api w (source_ready s) r = (Pending, f, r')"
  using assms
  by (auto simp: tcp_poll_read_def pending_unless_error_def readable_poll_def source_ready_def Let_def
      split: outcome.splits io_error.splits poll.splits prod.splits if_splits)

lemma tcp_write_pending:
  assumes "tcp_poll_write api syscall w s r = (Pending, r')"
  shows "\<exists>f. dir_poll Writing api w (source_ready s) r = (Pending, f, r')"
  using assms
  by (auto simp: tcp_poll_write_def pending_unless_error_def writable_poll_def source_ready_def Let_def
      split: outcome.splits io_error.splits poll.splits prod.splits if_splits)

section \<open>Properties\<close>

text \<open>
  An address written for the kernel and copied back by it is read as the same address.
\<close>

theorem sockaddr_recovered:
  assumes "addr_ok a"
  shows "sockaddr_to_socketaddr (kernel_fill (socketaddr_to_raw a)) (length (socketaddr_to_raw a)) = Ok a"
  using assms
  by (cases a) (simp_all add: sockaddr_to_socketaddr_def kernel_fill_def Let_def AF_INET_def AF_INET6_def)

theorem sockaddr_recovered_witness:
  "addr_ok (V4 [127, 0, 0, 1] 8080) \<and>
   sockaddr_to_socketaddr (kernel_fill (socketaddr_to_raw (V4 [127, 0, 0, 1] 8080)))
     (length (socketaddr_to_raw (V4 [127, 0, 0, 1] 8080))) = Ok (V4 [127, 0, 0, 1] 8080)"
  using sockaddr_recovered [of "V4 [127, 0, 0, 1] 8080"] by simp

text \<open>
  No wakeup is lost. When a read returns pending, its waker stays with an armed
  registration through any sequence of steps on other sources, changes of the world and polls
  of the reactor until it is fired; and the first poll of the reactor that has room for its
  events and finds the descriptor readable fires it.
\<close>

theorem reader_woken:
  assumes "epoll_ok api armed rdy" and "hangup_ready rdy Reading (src_raw s)"
    and "token_unique armed s (inner r)" and "tcp_poll_read api syscall w s r = (Pending, r1)"
    and "io_steps api armed s r1 ws r2"
  shows "w \<in> set ws \<or> waits_for armed Reading s w r2 \<and>
    (\<forall>evs cap t n evs' ws' r3. reactor_poll api evs cap t r2 = (Ok n, evs', ws', r3) \<and> 0 < n \<and> n < 1024 \<and>
       cap \<le> 1024 \<and> rdy (inner r2) (src_raw s) AND EPOLLIN \<noteq> 0 \<longrightarrow> w \<in> set ws')"
proof -
  obtain f where "dir_poll Reading api w (source_ready s) r = (Pending, f, r1)"
    using tcp_read_pending [OF assms(4)] by blast
  note waits = pending_waiting [OF assms(1) this assms(3)]
  from io_steps_keep_waiting [OF assms(5,1,2) waits] show ?thesis
    by (auto dest: poll_fires_waiter [OF assms(1), where d = Reading])
qed

definition src0 :: io_source where
  "src0 = \<lparr>src_raw = 5, src_token = 7, src_registered = True\<rparr>"

definition reactor0 :: "table_kernel reactor" where
  "reactor0 = \<lparr>inner = ((\<lambda>fd. if fd = 5 then Some (build_event 7 (READABLE OR WRITABLE)) else None), (\<lambda>fd. 0)),
     wakers = registry_new\<rparr>"

definition reactor1 :: "waker \<Rightarrow> table_kernel reactor" where
  "reactor1 w = snd (tcp_poll_read table_api (Err WouldBlock) w src0 reactor0)"

definition reactor2 :: "waker \<Rightarrow> table_kernel reactor" where
  "reactor2 w = (reactor1 w)\<lparr>inner := (fst (inner (reactor1 w)), (\<lambda>fd. if fd = 5 then EPOLLIN else 0))\<rparr>"

lemma run_pending: "tcp_poll_read table_api (Err WouldBlock) w src0 reactor0 = (Pending, (reactor1 w))"
  unfolding reactor1_def
  by (simp add: tcp_poll_read_def readable_poll_def source_ready_def source_reregister_def src0_def reactor0_def
      reactor_reregister_def on_inner_def epoll_reregister_def table_api_def table_set_def ctl_def
      pending_unless_error_def)

lemma run_unique: "token_unique table_armed src0 (inner reactor0)"
  by (simp add: token_unique_def src0_def reactor0_def table_armed_def)

lemma run_world: "io_steps table_api table_armed src0 (reactor1 w) [] (reactor2 w)"
proof -
  have "io_step table_api table_armed src0 (reactor1 w) [] (reactor2 w)"
    unfolding reactor2_def by (rule io_step.world) (simp add: table_armed_def fun_eq_iff)
  from io_steps.step [OF io_steps.none this] show ?thesis by simp
qed

lemma sixteen: "[0..15::int] = [0, 1, 2, 3, 4, 5, 6, 7, 8, 9, 10, 11, 12, 13, 14, 15]"
  by code_simp

lemma run_result: "fst (reactor_poll table_api [] 64 (Some 0) (reactor2 w)) = Ok 1"
proof -
  have inner: "inner (reactor2 w) = ((\<lambda>fd. if fd = 5 then Some (build_event 7 READABLE) else None),
      (\<lambda>fd. if fd = 5 then EPOLLIN else 0))"
    by (auto simp: reactor2_def reactor1_def reactor0_def tcp_poll_read_def readable_poll_def source_ready_def
        source_reregister_def src0_def reactor_reregister_def on_inner_def epoll_reregister_def table_api_def
        table_set_def ctl_def fun_eq_iff)
  have "table_reports (inner (reactor2 w)) = [\<lparr>ep_events = EPOLLIN, ep_u64 = 7\<rparr>]"
    unfolding table_reports_def inner sixteen
    by (simp add: map_filter_simps table_rdy_def report_mask_def build_event_def io_flag_defs)
  then show ?thesis
    by (simp add: reactor_poll_def epoll_poll_def table_api_def table_wait_def max_events_arg_def
        MAX_EVENTS_def Let_def split: prod.splits)
qed

theorem reader_woken_witness:
  "case reactor_poll table_api [] 64 (Some 0) (reactor2 42) of (res, evs, ws, r) \<Rightarrow> 42 \<in> set ws"
proof -
  obtain evs ws r3 where poll: "reactor_poll table_api [] 64 (Some 0) (reactor2 42) = (Ok 1, evs, ws, r3)"
    using run_result [of 42] by (cases "reactor_poll table_api [] 64 (Some 0) (reactor2 42)") auto
  have ready: "table_rdy (inner (reactor2 42)) (src_raw src0) AND EPOLLIN \<noteq> 0"
    by (simp add: table_rdy_def reactor2_def src0_def io_flag_defs)
  show ?thesis
    using reader_woken [OF table_ok table_hangup_ready run_unique run_pending run_world, of 42] poll ready by fastforce
qed

text \<open>
  C34: The two directions of a source share one registration: a write that waits replaces the
  event a reader armed, and while the descriptor is readable but not writable no poll of the
  reactor fires the reader, whose waker stays in the registry.
\<close>

theorem writer_silences_reader:
  assumes "epoll_ok api armed rdy" and "token_unique armed s (inner r)"
    and "tcp_poll_read api blocked w s r = (Pending, r1)" and "tcp_poll_write api full v s r1 = (Pending, r2)"
    and "rdy (inner r2) (src_raw s) = EPOLLIN" and "reactor_poll api [] cap t r2 = (res, evs, ws, r3)"
  shows "armed (inner r2) (src_raw s) = Some (build_event (src_token s) WRITABLE) \<and>
    read_wakers (wakers r3) (src_token s) = Some w"
proof
  obtain f g where rd: "dir_poll Reading api w (source_ready s) r = (Pending, f, r1)"
    and wr: "dir_poll Writing api v (source_ready s) r1 = (Pending, g, r2)"
    using tcp_read_pending [OF assms(3)] tcp_write_pending [OF assms(4)] by blast
  note reader = dir_poll_pending [OF assms(1) rd] and writer = dir_poll_pending [OF assms(1) wr]
  show armed: "armed (inner r2) (src_raw s) = Some (build_event (src_token s) WRITABLE)"
    using writer(2) by (simp add: source_ready_def)
  have stored: "dir_wakers Reading (wakers r2) (src_token s) = Some w"
    using writer(3) [of Reading] reader(1) by (simp add: source_ready_def)
  have unique: "token_unique armed s (inner r2)"
    using assms(2) reader(2) writer(2) by (auto simp: token_unique_def source_ready_def split: if_splits)
  have silent: "report_mask (rdy (inner r2) (src_raw s)) (ep_events (build_event (src_token s) WRITABLE)) AND
      dir_flag Reading = 0"
    using report_dir [of EPOLLIN "src_token s" Writing] by (simp add: assms(5) io_flag_defs)
  show "read_wakers (wakers r3) (src_token s) = Some w"
    using poll_leaves_unreported [OF assms(1,6) stored unique armed silent] by simp
qed

definition kernel_readable :: table_kernel where
  "kernel_readable = ((\<lambda>fd. if fd = 5 then Some (build_event 7 (READABLE OR WRITABLE)) else None),
     (\<lambda>fd. if fd = 5 then EPOLLIN else 0))"

theorem writer_silences_reader_witness:
  "let r = \<lparr>inner = kernel_readable, wakers = registry_new\<rparr>;
       r1 = snd (tcp_poll_read table_api (Err WouldBlock) 42 src0 r);
       r2 = snd (tcp_poll_write table_api (Err WouldBlock) 43 src0 r1);
       r3 = snd (snd (snd (reactor_poll table_api [] 64 (Some 0) r2)))
   in read_wakers (wakers r3) 7 = Some 42"
proof -
  let ?r = "\<lparr>inner = kernel_readable, wakers = registry_new\<rparr>"
  let ?rd_poll = "tcp_poll_read table_api (Err WouldBlock) 42 src0 ?r"
  let ?wr_poll = "tcp_poll_write table_api (Err WouldBlock) 43 src0 (snd ?rd_poll)"
  have rd: "?rd_poll = (Pending, snd ?rd_poll)" and wr: "?wr_poll = (Pending, snd ?wr_poll)"
    by (simp_all add: tcp_poll_read_def tcp_poll_write_def readable_poll_def writable_poll_def source_ready_def
        source_reregister_def src0_def reactor_reregister_def on_inner_def epoll_reregister_def table_api_def
        table_set_def ctl_def pending_unless_error_def)
  have rdy: "table_rdy (inner (snd ?wr_poll)) (src_raw src0) = EPOLLIN"
    by (simp add: tcp_poll_read_def tcp_poll_write_def readable_poll_def writable_poll_def source_ready_def
        source_reregister_def src0_def reactor_reregister_def on_inner_def epoll_reregister_def table_api_def
        table_set_def ctl_def pending_unless_error_def table_rdy_def kernel_readable_def io_flag_defs)
  have unique: "token_unique table_armed src0 (inner ?r)"
    by (simp add: token_unique_def src0_def kernel_readable_def table_armed_def)
  obtain res evs ws r3 where poll: "reactor_poll table_api [] 64 (Some 0) (snd ?wr_poll) = (res, evs, ws, r3)"
    by (cases "reactor_poll table_api [] 64 (Some 0) (snd ?wr_poll)") auto
  from writer_silences_reader [OF table_ok unique rd wr rdy poll] poll show ?thesis
    by (simp add: Let_def src0_def)
qed

section \<open>Descriptors of a connection\<close>

text \<open>The descriptors a connection in progress and a result own.\<close>

primrec held :: "connect_state \<Rightarrow> fd set" where
  "held (Init a) = {}"
| "held (Connecting fd token reg) = {fd}"
| "held ConnectDone = {}"

definition held_result :: "(tcp_stream, io_error) outcome poll \<Rightarrow> fd set" where
  "held_result p = (case p of Ready (Ok s) \<Rightarrow> {src_raw s} | _ \<Rightarrow> {})"

definition opened :: "connect_calls \<Rightarrow> fd set" where
  "opened calls = (case cc_socket calls of Ok fd \<Rightarrow> {fd} | _ \<Rightarrow> {})"

text \<open>The open descriptors are the others, and the one held by the future or by its result.\<close>

definition accounted :: "fd set \<Rightarrow> (tcp_stream, io_error) outcome poll \<Rightarrow> connect_state \<Rightarrow> 'k io_ctx \<Rightarrow> bool" where
  "accounted B p st c \<longleftrightarrow>
     io_open c = B \<union> held st \<union> held_result p \<and> (held st \<union> held_result p) \<inter> B = {} \<and> held st \<inter> held_result p = {}"

lemma io_open_frame [simp]:
  "io_open (snd (on_reactor f c)) = io_open c" "io_open (snd (take_token c)) = io_open c"
  by (simp_all add: on_reactor_def take_token_def next_token_def split: prod.splits)

lemma from_raw_fd_accepted:
  assumes "\<And>k e. \<exists>k'. epoll_add api k fd e = Ok k'"
  shows "\<exists>s c'. from_raw_fd api fd c = (Ok s, c') \<and> src_raw s = fd \<and> io_open c' = io_open c"
proof -
  obtain k' where "epoll_add api (inner (io_reactor c)) fd (build_event (io_counter c) (READABLE OR WRITABLE)) = Ok k'"
    using assms by blast
  then show ?thesis
    by (simp add: from_raw_fd_def take_token_def next_token_def on_reactor_def source_new_def
        reactor_register_def on_inner_def epoll_register_def ctl_def)
qed

lemma connecting_poll_descriptors:
  assumes acc: "\<And>k e. \<exists>k'. epoll_add api k fd e = Ok k'" and so: "cc_so_error calls = Ok v"
    and opn: "io_open c = insert fd B" "fd \<notin> B"
    and poll: "connecting_poll api calls w fd token reg c = (p, st', c')"
  shows "accounted B p st' c'"
proof -
  let ?c1 = "c\<lparr>io_reactor := (io_reactor c)\<lparr>wakers := set_write_waker token w (wakers (io_reactor c))\<rparr>\<rparr>"
  obtain s c3 where raw: "from_raw_fd api fd (snd (on_reactor (deregister_with_token api fd token) ?c1)) = (Ok s, c3)"
      "src_raw s = fd" "io_open c3 = io_open c"
    using from_raw_fd_accepted [OF acc, of "snd (on_reactor (deregister_with_token api fd token) ?c1)"]
    by (auto simp only: io_open_frame) simp
  show ?thesis
    using poll [symmetric] so opn raw
    by (auto simp: accounted_def connecting_poll_def get_so_error_def Let_def held_result_def close_fd_def
        split: if_splits prod.splits)
qed

lemma init_poll_descriptors:
  assumes acc: "\<And>k e. \<exists>k'. epoll_add api k fd e = Ok k'" and so: "cc_so_error calls = Ok v"
    and nb: "cc_nonblocking calls = Ok ()" and sock: "cc_socket calls = Ok fd"
    and B: "io_open c = B" and fresh: "fd \<notin> B"
    and poll: "connect_poll api calls w (Init addr) c = (p, st', c')"
  shows "accounted B p st' c'"
proof -
  let ?c1 = "c\<lparr>io_open := insert fd (io_open c)\<rparr>"
  obtain token c2 where tok: "take_token ?c1 = (token, c2)" by force
  have c2: "io_open c2 = insert fd B"
    using tok B by (auto simp: take_token_def next_token_def)
  obtain res c3 where reg: "on_reactor (reactor_register api fd token WRITABLE) c2 = (res, c3)" by force
  have c3: "io_open c3 = insert fd B" using io_open_frame(1) reg c2 by (metis snd_conv)
  obtain k' where "epoll_add api (inner (io_reactor c2)) fd (build_event token WRITABLE) = Ok k'"
    using acc by blast
  then have res: "res = Ok ()"
    using reg by (simp add: on_reactor_def reactor_register_def on_inner_def epoll_register_def ctl_def)
  obtain s c4 where raw: "from_raw_fd api fd ?c1 = (Ok s, c4)" "src_raw s = fd" "io_open c4 = insert fd B"
    using from_raw_fd_accepted [OF acc, of ?c1] B by auto
  note inprog = connecting_poll_descriptors [OF acc so c3 fresh, of w token True p st' c']
  show ?thesis
  proof (cases "cc_connect calls")
    case None
    then have "(p, st', c') = (Ready (Ok s), ConnectDone, c4)"
      using poll by (simp add: connect_poll_def start_connect_def sock nb raw(1))
    then show ?thesis using raw fresh by (simp add: accounted_def held_result_def)
  next
    case (Some err)
    show ?thesis
    proof (cases "err = OsError EINPROGRESS")
      case True
      then have "connecting_poll api calls w fd token True c3 = (p, st', c')"
        using poll Some by (simp add: connect_poll_def start_connect_def sock nb tok reg res)
      then show ?thesis by (rule inprog)
    next
      case False
      then have "(p, st', c') = (Ready (Err err), ConnectDone, close_fd fd ?c1)"
        using poll Some by (simp add: connect_poll_def start_connect_def sock nb)
      then show ?thesis using B fresh by (simp add: accounted_def held_result_def close_fd_def)
    qed
  qed
qed



text \<open>
  A connection in progress whose pending error cannot be read is given up without closing
  its descriptor: the future is done, so dropping it closes nothing either.
\<close>

theorem failed_so_error_leaks:
  assumes "cc_so_error calls = Err e"
  shows "\<exists>c'. connect_poll api calls w (Connecting fd token reg) c = (Ready (Err e), ConnectDone, c') \<and>
    io_open (connect_drop api ConnectDone c') = io_open c"
  using assms
  by (simp add: connect_poll_def connecting_poll_def get_so_error_def Let_def connect_drop_def)

end
