(* ===== verification/Server.thy ===== *)
theory Server
  imports Net
begin

text \<open>
  The accept loop and the graceful shutdown of the server (\<^verbatim>\<open>moduvex-http/src/server/mod.rs\<close>,
  \<^verbatim>\<open>HttpServer::serve\<close>, and \<^verbatim>\<open>server/listener.rs\<close>). A connection is a number; the tasks of the
  connections run while the loop is suspended, and each of them lowers the counter once,
  whichever way it ends. What the loop awaits is its input, one turn after another.
\<close>

section \<open>The loop\<close>

definition is_transient :: "io_error \<Rightarrow> bool" where
  "is_transient e \<longleftrightarrow> e \<in> {WouldBlock, ConnectionReset, ConnectionAborted, Interrupted}"

text \<open>\<^verbatim>\<open>Listener::accept\<close> over the answers of the socket; \<open>None\<close> while it has not returned.\<close>

fun listener_accept :: "(nat, io_error) outcome list \<Rightarrow> (nat, io_error) outcome option" where
  "listener_accept [] = None"
| "listener_accept (r # rs) =
     (case r of
        Ok c \<Rightarrow> Some (Ok c)
      | Err e \<Rightarrow> if is_transient e then listener_accept rs else Some (Err e)
      | Panic \<Rightarrow> Some Panic)"

record server =
  sv_active :: nat
  sv_live :: "nat set"
  sv_next :: nat
  sv_accepting :: bool

definition server_new :: server where
  "server_new = \<lparr>sv_active = 0, sv_live = {}, sv_next = 0, sv_accepting = True\<rparr>"

text \<open>A connection's task starts, and ends.\<close>

definition start_connection :: "server \<Rightarrow> server" where
  "start_connection s = s\<lparr>sv_active := sv_active s + 1, sv_live := insert (sv_next s) (sv_live s), sv_next := sv_next s + 1\<rparr>"

definition finish_connection :: "nat \<Rightarrow> server \<Rightarrow> server" where
  "finish_connection c s =
     (if c \<in> sv_live s then s\<lparr>sv_active := sv_active s - 1, sv_live := sv_live s - {c}\<rparr> else s)"

datatype accepted = NewConnection | AcceptFailed | Elapsed

text \<open>
  One turn: whether shutdown has been requested when it starts, the connections that end while
  the loop is suspended, and what the accept returns.
\<close>

record server_turn =
  stn_shutdown :: bool
  stn_finished :: "nat list"
  stn_accept :: accepted

definition accept_turn :: "nat \<Rightarrow> server_turn \<Rightarrow> server \<Rightarrow> server" where
  "accept_turn max_conns tn s =
     (if stn_shutdown tn then s\<lparr>sv_accepting := False\<rparr>
      else
        (let s1 = fold finish_connection (stn_finished tn) s in
         if 0 < max_conns \<and> max_conns \<le> sv_active s then s1
         else (case stn_accept tn of NewConnection \<Rightarrow> start_connection s1 | _ \<Rightarrow> s1)))"

fun accept_loop :: "nat \<Rightarrow> server_turn list \<Rightarrow> server \<Rightarrow> server" where
  "accept_loop max_conns [] s = s"
| "accept_loop max_conns (tn # tns) s =
     (if sv_accepting s then accept_loop max_conns tns (accept_turn max_conns tn s) else s)"

text \<open>
  The drain: at each look at the counter, the time since it began and the connections that end
  during the following sleep. The result says whether it gave up; \<open>None\<close> while it waits.
\<close>

fun drain_connections :: "nat \<Rightarrow> (nat \<times> nat list) list \<Rightarrow> server \<Rightarrow> (bool \<times> server) option" where
  "drain_connections drain_timeout [] s = (if sv_active s = 0 then Some (False, s) else None)"
| "drain_connections drain_timeout ((elapsed, finished) # rest) s =
     (if sv_active s = 0 then Some (False, s)
      else if drain_timeout \<le> elapsed then Some (True, s)
      else drain_connections drain_timeout rest (fold finish_connection finished s))"

section \<open>The invariant\<close>

definition server_inv :: "nat \<Rightarrow> server \<Rightarrow> bool" where
  "server_inv max_conns s \<longleftrightarrow>
     finite (sv_live s) \<and> sv_active s = card (sv_live s) \<and> (\<forall>c\<in>sv_live s. c < sv_next s) \<and>
     (0 < max_conns \<longrightarrow> sv_active s \<le> max_conns)"

lemma inv_finish: "server_inv m s \<Longrightarrow> server_inv m (finish_connection c s)"
  by (auto simp: server_inv_def finish_connection_def)

lemma inv_finish_all: "server_inv m s \<Longrightarrow> server_inv m (fold finish_connection cs s)"
  by (induction cs arbitrary: s) (simp_all add: inv_finish)

lemma finish_all_frame:
  "sv_active (fold finish_connection cs s) \<le> sv_active s \<and> sv_next (fold finish_connection cs s) = sv_next s \<and>
   sv_accepting (fold finish_connection cs s) = sv_accepting s \<and>
   sv_live (fold finish_connection cs s) = sv_live s - set cs"
proof (induction cs arbitrary: s)
  case (Cons c cs)
  show ?case using Cons [of "finish_connection c s"] by (auto simp: finish_connection_def)
qed simp

lemma inv_start:
  "server_inv m s \<Longrightarrow> (0 < m \<Longrightarrow> sv_active s < m) \<Longrightarrow> server_inv m (start_connection s)"
  by (force simp: server_inv_def start_connection_def)

lemma inv_turn:
  assumes "server_inv m s"
  shows "server_inv m (accept_turn m tn s)"
proof (cases "stn_shutdown tn")
  case True
  then show ?thesis using assms by (auto simp: accept_turn_def server_inv_def)
next
  case False
  note fin = inv_finish_all [OF assms, of "stn_finished tn"] finish_all_frame [of "stn_finished tn" s]
  show ?thesis
    using False fin by (auto simp: accept_turn_def Let_def intro: inv_start split: accepted.split)
qed

lemma inv_loop: "server_inv m s \<Longrightarrow> server_inv m (accept_loop m tns s)"
  by (induction tns arbitrary: s) (simp_all add: inv_turn)

text \<open>A drain that looks at the clock often enough returns.\<close>

lemma drain_returns:
  "server_inv m s \<Longrightarrow> xs \<noteq> [] \<Longrightarrow> drain_timeout \<le> fst (last xs) \<Longrightarrow>
    \<exists>g s'. drain_connections drain_timeout xs s = Some (g, s') \<and>
      (if g then \<exists>(elapsed, _) \<in> set xs. drain_timeout \<le> elapsed else sv_live s' = {}) \<and> sv_next s' = sv_next s"
proof (induction xs arbitrary: s)
  case (Cons x xs)
  obtain elapsed fin where x: "x = (elapsed, fin)" by (cases x)
  show ?case
  proof (cases "sv_active s = 0 \<or> drain_timeout \<le> elapsed")
    case True
    then show ?thesis using Cons.prems(1) by (auto simp: x server_inv_def)
  next
    case False
    then have "xs \<noteq> []" using Cons.prems(3) by (auto simp: x)
    with Cons.IH [of "fold finish_connection fin s"] Cons.prems inv_finish_all [OF Cons.prems(1), of fin]
    obtain g s' where "drain_connections drain_timeout xs (fold finish_connection fin s) = Some (g, s')"
        "if g then \<exists>(elapsed, _) \<in> set xs. drain_timeout \<le> elapsed else sv_live s' = {}"
        "sv_next s' = sv_next s"
      using finish_all_frame [of fin s] by auto
    with False show ?thesis by (auto simp: x split: if_splits)
  qed
qed simp

section \<open>Properties\<close>

text \<open>
  Whatever arrives and whenever connections end, the counter is the number of live connections
  and never exceeds the configured limit.
\<close>

theorem connections_bounded:
  "let s = accept_loop max_conns tns server_new
   in sv_active s = card (sv_live s) \<and> (max_conns = 0 \<or> card (sv_live s) \<le> max_conns)"
proof -
  have "server_inv max_conns server_new" by (simp add: server_inv_def server_new_def)
  from inv_loop [OF this, of tns] show ?thesis by (auto simp: server_inv_def Let_def)
qed


definition one_connection :: server_turn where
  "one_connection = \<lparr>stn_shutdown = False, stn_finished = [], stn_accept = NewConnection\<rparr>"

definition stopping :: server_turn where
  "stopping = \<lparr>stn_shutdown = True, stn_finished = [], stn_accept = Elapsed\<rparr>"


end
