(* ===== verification/Spec2Isabelle.thy ===== *)
theory Spec2Isabelle
  imports Timer_Wheel H2_Session H1_Conn Ws_Handshake Timers Worker Async_Mutex Oneshot
    Db_Pool Db_Migrate Core_App Core_Errors Handlers Config Middleware Tracing Server
begin

text \<open>
  A verification library of moduvex, a runtime and web framework written in Rust. It models the
  asynchronous runtime, the HTTP server with its protocols, the PostgreSQL client, the
  application core, configuration and observability, each from the sources under
  \<^verbatim>\<open>src/moduvex-*/src\<close>, and proves what makes each of them correct.

  \<^bold>\<open>The program and how its parts meet.\<close> The runtime (\<^verbatim>\<open>moduvex-runtime\<close>) polls tasks taken from
  run queues; timers on a hashed wheel and descriptors on an epoll reactor fire wakers, and a
  waker puts its task back into a queue. The HTTP crate (\<^verbatim>\<open>moduvex-http\<close>) accepts connections and
  runs one task for each: HTTP/1.1 or HTTP/2 turns bytes into requests, the router finds a
  handler, the middlewares run around it, extractors take typed values out of the request, and
  the response goes back over the connection, which may become a WebSocket. The database crate
  (\<^verbatim>\<open>moduvex-db\<close>) speaks the PostgreSQL protocol over the same streams, below a pool, a query
  builder, transactions and migrations. The core (\<^verbatim>\<open>moduvex-core\<close>) starts and stops modules in
  order. \<^verbatim>\<open>moduvex-config\<close> and \<^verbatim>\<open>moduvex-observe\<close> supply settings, metrics, logs and traces.

  \<^bold>\<open>Conventions.\<close> A call of the source that can fail returns an \<open>outcome\<close> (\<open>Prelude\<close>): a value,
  an error or a panic (overflow checks, indices and slices out of range, failed assertions), so
  that freedom from panics is a statement about the model. Integers whose width matters are
  words; other \<^verbatim>\<open>usize\<close> values are natural numbers with \<open>usize_limit\<close> written out where the
  source adds without a check. Strings are their UTF-8 bytes. A struct is a record, an enum a
  datatype, a locked or thread-local value is passed as state, and code that other tasks can
  interrupt is cut into the steps at which they can.

  \<^bold>\<open>Theories, sources and results.\<close>

  \<^item> \<open>Prelude\<close>, \<open>Text\<close>: outcomes, big-endian words, UTF-8, splitting and trimming, number parsing.
    \<open>Framing\<close>: the interfaces of the wire formats (locales \<open>prefix_code\<close>, \<open>self_delimiting\<close>,
    \<open>message_reader\<close>), interpreted on the Huffman code, HPACK strings, WebSocket frames, HTTP/2
    frames and PostgreSQL messages: the bytes of a sequence determine it.

  \<^item> \<open>Timer_Wheel\<close> (\<^verbatim>\<open>runtime/time/wheel.rs\<close>), \<open>Timers\<close> (\<^verbatim>\<open>time/sleep.rs\<close>, \<^verbatim>\<open>time/interval.rs\<close>):
    the wheel with its levels and cascade. A tick fires exactly the due timers while ticks are
    frequent, no timer is lost, and a concrete run misses a deadline when they are not; a due
    timer queues its task; an interval does not drift.

  \<^item> \<open>Scheduler\<close> (\<^verbatim>\<open>executor/scheduler.rs\<close>, \<^verbatim>\<open>work_stealing.rs\<close>), \<open>Executor\<close> (\<^verbatim>\<open>task.rs\<close>, \<^verbatim>\<open>waker.rs\<close>,
    \<^verbatim>\<open>executor/mod.rs\<close>), \<open>Worker\<close> (\<^verbatim>\<open>worker.rs\<close>): the ring buffer refines a bounded deque (locale
    \<open>bounded_deque\<close>), stealing conserves tasks, the executor never touches a freed future, a
    drain ends, queued tasks get their turn, workers never share a task; and the runs in which
    a wake during a poll or between two workers is lost.

  \<^item> \<open>Mpsc\<close>, \<open>Async_Mutex\<close>, \<open>Oneshot\<close> (\<^verbatim>\<open>runtime/sync\<close>): channels refine queues, the mutex excludes, the
    one-shot channel loses no wakeup; with the schedules in which a waiter is forgotten.

  \<^item> \<open>Reactor\<close> (\<^verbatim>\<open>runtime/reactor\<close>, \<^verbatim>\<open>platform/sys.rs\<close>), \<open>Net\<close> (\<^verbatim>\<open>runtime/net\<close>): registrations, wakers,
    readiness futures, TCP, UDP and addresses over the calls of the kernel. A pending read keeps
    its waker armed through whatever happens to other sources and is fired by the first poll
    that finds the socket readable; a connection leaks no descriptor when the calls that cannot
    fail do not; a writer on the same socket silences its reader.

  \<^item> \<open>Http_Types\<close> (\<^verbatim>\<open>http/{header,body,request,response,status,routing/method}.rs\<close>): header map laws
    (locales \<open>header_store\<close>, \<open>header_multi\<close>). \<open>H1_Parser\<close>, \<open>H1_Body\<close>, \<open>H1_Conn\<close> (\<^verbatim>\<open>protocol/h1\<close>,
    \<^verbatim>\<open>server/connection.rs\<close>, \<^verbatim>\<open>middleware/mod.rs\<close>): a parsed head is safe and does not depend on how
    it was cut into reads; framing of responses is exact; pipelined requests are all answered, in
    order, within the limits.

  \<^item> \<open>Hpack_Huffman\<close>, \<open>Hpack\<close> (\<^verbatim>\<open>protocol/h2/hpack\<close>), \<open>H2_Frame\<close>, \<open>H2_IO\<close>, \<open>H2_Stream\<close>, \<open>H2_Conn\<close>,
    \<open>H2_Session\<close> (\<^verbatim>\<open>protocol/h2\<close>, \<^verbatim>\<open>server/h2_handler.rs\<close>): codes and frames round-trip,
    windows are exact (locale \<open>credit_window\<close>), streams follow their lifecycle, the
    connection keeps its invariant, and a response sent reaches a peer that decodes it.

  \<^item> \<open>WebSocket\<close>, \<open>Ws_Handshake\<close> (\<^verbatim>\<open>http/websocket\<close>): frames, fragmentation, the upgrade.

  \<^item> \<open>Routing\<close> (\<^verbatim>\<open>http/routing\<close>): the radix trie refines the list of routes.

  \<^item> \<open>Extract\<close>, \<open>Handlers\<close> (\<^verbatim>\<open>http/extract\<close>): forms, queries and multipart bodies are recovered from any
    encoding of them, the JSON a form is turned into holds exactly its pairs, extractors run in
    order. \<open>Middleware\<close> (\<^verbatim>\<open>http/middleware/builtin\<close>, \<^verbatim>\<open>starter-web\<close>): files are served from under the
    base directory only, identifiers are distinct, traces continue across services, and a
    \<^verbatim>\<open>traceparent\<close> header can make the process panic. \<open>Server\<close> (\<^verbatim>\<open>http/server/mod.rs\<close>): connections
    stay within the limit, a shutdown drains and returns.

  \<^item> \<open>Pg_Wire\<close>, \<open>Pg_Scram\<close>, \<open>Pg_Session\<close> (\<^verbatim>\<open>db/protocol/postgres\<close>): messages round-trip, SCRAM
    authenticates both sides, a query returns the rows the server sent and leaves the connection
    in step after an error (locale \<open>row_loop\<close>). \<open>Sql_Query\<close> (\<^verbatim>\<open>db/query\<close>): inlined values stay
    literals. \<open>Db_Pool\<close> (\<^verbatim>\<open>db/pool\<close>): the pool is bounded. \<open>Db_Migrate\<close> (\<^verbatim>\<open>db/transaction\<close>,
    \<^verbatim>\<open>db/migration\<close>): migrations are applied once, in order.

  \<^item> \<open>Core_App\<close> (\<^verbatim>\<open>core/module\<close>, \<^verbatim>\<open>core/lifecycle\<close>, \<^verbatim>\<open>core/app/builder.rs\<close>): the topological sort is
    correct and reports cycles, modules stop in the reverse of the order they started.
    \<open>Core_Errors\<close> (\<^verbatim>\<open>core/error\<close>, \<^verbatim>\<open>core/di/scope.rs\<close>, \<^verbatim>\<open>core/app/context.rs\<close>): context keeps the class
    of an error.

  \<^item> \<open>Config\<close> (\<^verbatim>\<open>moduvex-config\<close>): each setting comes from the last layer that has it. \<open>Observe\<close>,
    \<open>Tracing\<close> (\<^verbatim>\<open>moduvex-observe\<close>, \<^verbatim>\<open>runtime/executor/task_local.rs\<close>): histogram buckets count
    exactly, the exposition can be scraped back, health is the worst check, log lines are those
    above both thresholds, task-local values do not leak between tasks.

  \<^bold>\<open>Termination and bounds.\<close> Every loop of the source whose end is visible is a total function: the
  recursion is structural or has a measure (bytes left to parse, tokens left in a message,
  modules not yet sorted, nodes below a trie node). The drain of the executor may not end, since a
  future may wake itself for ever: it is a partial function into an option, and that it ends is
  a theorem for tasks that finish. Loops that wait for the world (the executor, a connection, the
  accept loop) run over the list of what the world supplies, so no fuel is chosen anywhere; a run
  that needs more input than the list holds says so in its result.

  \<^bold>\<open>Parameters.\<close> Code that is not in the repository is an argument: hash functions and base64 of
  the SCRAM exchange, deserialisers, the TOML parser, the file system, the text and arithmetic of
  floats, the futures of the application, the clock, and the calls of the kernel. What a theorem
  needs of them is a hypothesis with a name (\<open>epoll_ok\<close>, \<open>hangup_ready\<close>, \<open>crypto_ok\<close> and the like),
  and a witness instantiates it.

  \<^bold>\<open>Not modelled.\<close> TLS (a wrapper of a library), the reactor backends of other systems, signals and
  the self-pipe, reference counts of raw wakers, the builder of the runtime's threads, procedural
  macros and the type-level dependency lists (checked at compile time), the exporter to standard
  output, the text of most error messages, the codecs of floats, and the starters, which only
  re-export. Memory orderings are taken to be sequentially consistent: the atomics of the source
  are single steps.
\<close>

section \<open>A property across the runtime\<close>

unbundle bit_operations_syntax

text \<open>
  C15: A task that reads from a socket is resumed: its poll stored a waker in the reactor, and,
  after any steps on other sources that did not fire it, the reactor's poll that finds the socket
  readable makes the executor queue the task, exactly once, when it parks. (The poll reported
  something and had room left in its buffer; an error on the socket shows as readable, as it
  does on TCP.)
\<close>

theorem readable_socket_queues_its_task:
  assumes "epoll_ok api armed rdy" and "hangup_ready rdy Reading (src_raw sock)"
    and "token_unique armed sock (inner r)" and "tcp_poll_read api syscall tid sock r = (Pending, r1)"
    and "io_steps api armed sock r1 ws r2" and "tid \<notin> set ws"
    and "reactor_poll api evs cap t r2 = (Ok n, evs', fired, r3)" and "0 < n" and "n < 1024" and "cap \<le> 1024"
    and "rdy (inner r2) (src_raw sock) AND EPOLLIN \<noteq> 0"
    and "exec_inv None s" and "h_state (ex_headers s tid) = IDLE"
  shows "count_list (ex_global (park fired s)) tid = 1 \<and> exec_inv None (park fired s)"
proof -
  obtain f where "dir_poll Reading api tid (source_ready sock) r = (Pending, f, r1)"
    using tcp_read_pending [OF assms(4)] by blast
  from io_steps_keep_waiting [OF assms(5,1,2) pending_waiting [OF assms(1) this assms(3)]] assms(6)
  have "waits_for armed Reading sock tid r2" by simp
  from poll_fires_waiter [OF assms(1,7) this] assms have "tid \<in> set fired" by simp
  from wakes_queued_once [OF assms(12,13) this] show ?thesis by (simp add: park_def)
qed

theorem readable_socket_queues_its_task_witness:
  "case reactor_poll table_api [] 64 (Some 0) (reactor2 1) of
     (res, evs, fired, r) \<Rightarrow> count_list (ex_global (park fired idle_task)) 1 = 1"
proof -
  obtain evs fired r3 where poll: "reactor_poll table_api [] 64 (Some 0) (reactor2 1) = (Ok 1, evs, fired, r3)"
    using run_result [of 1] by (cases "reactor_poll table_api [] 64 (Some 0) (reactor2 1)") auto
  have ready: "table_rdy (inner (reactor2 1)) (src_raw src0) AND EPOLLIN \<noteq> 0"
    by (simp add: table_rdy_def reactor2_def src0_def io_flag_defs)
  show ?thesis
    using readable_socket_queues_its_task [OF table_ok table_hangup_ready run_unique run_pending run_world _ poll
        _ _ _ ready idle_task_props(1,2)] poll by simp
qed

end
